(* ===== verification/Prelude.thy ===== *)
theory Prelude
  imports Complex_Main "HOL-Library.Multiset" "HOL-Library.While_Combinator"
    "HOL-Library.List_Lexorder" "HOL-Library.Char_ord"
begin

text \<open>
  Shared vocabulary of the development: JavaScript numbers with their non-finite values and the
  integer clamp that every graded algorithm of the repository applies to them, decimal rendering
  of array offsets, the error codes of \<^verbatim>\<open>CoreError\<close>, and the generic facts on bounded iteration
  (a loop with a work limit) that the components reuse through the locale \<open>bounded_stepper\<close>.
\<close>

named_theorems map_laws "what a lookup returns after an update"
named_theorems queue_laws "what a work queue holds after push, pop and merge"

section \<open>JavaScript numbers\<close>

text \<open>
  A JavaScript number is a finite double (a rational), an infinity or NaN. Only the operations the
  sources use are modelled: \<^verbatim>\<open>Number.isFinite\<close>, \<^verbatim>\<open>Number.isInteger\<close>, \<^verbatim>\<open>Math.trunc\<close>.
\<close>

datatype js_number = Finite rat | PosInfinity | NegInfinity | NaN

fun js_is_finite :: "js_number \<Rightarrow> bool" where
  "js_is_finite (Finite _) = True"
| "js_is_finite _ = False"

fun js_is_integer :: "js_number \<Rightarrow> bool" where
  "js_is_integer (Finite q) = (rat_of_int \<lfloor>q\<rfloor> = q)"
| "js_is_integer _ = False"

definition js_trunc :: "rat \<Rightarrow> int" where
  "js_trunc q = (if q < 0 then \<lceil>q\<rceil> else \<lfloor>q\<rfloor>)"

text \<open>\<^verbatim>\<open>clampInteger\<close>, the same function in \<^verbatim>\<open>max-min-field.ts\<close> and \<^verbatim>\<open>boolean-hypergraph.ts\<close>.\<close>

fun clampInteger :: "js_number \<Rightarrow> int \<Rightarrow> int \<Rightarrow> int" where
  "clampInteger (Finite q) bot_v top_v =
     (let integer = js_trunc q
      in if integer < bot_v then bot_v else if integer > top_v then top_v else integer)"
| "clampInteger _ bot_v top_v = bot_v"

lemma js_trunc_of_int [simp]: "js_trunc (of_int i) = i"
  by (simp add: js_trunc_def)

lemma clampInteger_bounds: "bot_v \<le> top_v \<Longrightarrow> bot_v \<le> clampInteger x bot_v top_v \<and> clampInteger x bot_v top_v \<le> top_v"
  by (cases x) (auto simp: Let_def)

lemma clampInteger_id: "bot_v \<le> i \<Longrightarrow> i \<le> top_v \<Longrightarrow> clampInteger (Finite (of_int i)) bot_v top_v = i"
  by (simp add: Let_def)

text \<open>A call of a function that loops: it returns, throws an error with a message, or never returns.\<close>

datatype 'a js_outcome = Returned 'a | Threw string | Diverged

section \<open>Decimal rendering of offsets\<close>

text \<open>\<^verbatim>\<open>String(offset)\<close> for a nonnegative integer: the decimal digits, most significant first.\<close>

definition digit_char :: "nat \<Rightarrow> char" where
  "digit_char d = char_of (48 + d)"

fun js_string_of_nat :: "nat \<Rightarrow> string" where
  "js_string_of_nat n =
     (if n < 10 then [digit_char n] else js_string_of_nat (n div 10) @ [digit_char (n mod 10)])"

declare js_string_of_nat.simps [simp del]

lemma digit_char_inj: "a < 10 \<Longrightarrow> b < 10 \<Longrightarrow> digit_char a = digit_char b \<Longrightarrow> a = b"
  by (auto simp: digit_char_def char_of_eq_iff take_bit_eq_mod)

lemma js_string_of_nat_nonempty [simp]: "js_string_of_nat n \<noteq> []"
  by (subst js_string_of_nat.simps) simp

lemma js_string_of_nat_nonempty' [simp]: "[] \<noteq> js_string_of_nat n"
  using js_string_of_nat_nonempty [of n] by metis

lemma js_string_of_nat_inject: "js_string_of_nat m = js_string_of_nat n \<longleftrightarrow> m = n"
proof -
  have "js_string_of_nat m = js_string_of_nat n \<Longrightarrow> m = n"
  proof (induction m arbitrary: n rule: js_string_of_nat.induct)
    case (1 m)
    have eq: "js_string_of_nat m = js_string_of_nat n" by fact
    show ?case
    proof (cases "m < 10 \<or> n < 10")
      case True
      with eq show ?thesis
        by (auto simp: js_string_of_nat.simps [of m] js_string_of_nat.simps [of n]
            intro: digit_char_inj split: if_splits)
    next
      case False
      with eq have d: "js_string_of_nat (m div 10) = js_string_of_nat (n div 10)"
        and c: "digit_char (m mod 10) = digit_char (n mod 10)"
        by (auto simp: js_string_of_nat.simps [of m] js_string_of_nat.simps [of n])
      from d False have "m div 10 = n div 10" using "1.IH" by simp
      moreover from c have "m mod 10 = n mod 10" by (simp add: digit_char_inj)
      ultimately show ?thesis by (metis div_mult_mod_eq)
    qed
  qed
  then show ?thesis by auto
qed

section \<open>Bounded iteration\<close>

text \<open>
  A loop that does one step at a time and stops when no step is left; \<open>iterate step n\<close> is the loop
  with a work limit of \<open>n\<close> steps. The second component of \<open>iterate\<close> counts the steps really made.
\<close>

primrec iterate :: "('s \<Rightarrow> 's option) \<Rightarrow> nat \<Rightarrow> 's \<Rightarrow> 's \<times> nat" where
  "iterate step 0 s = (s, 0)"
| "iterate step (Suc n) s =
     (case step s of None \<Rightarrow> (s, 0) | Some s' \<Rightarrow> (case iterate step n s' of (t, k) \<Rightarrow> (t, Suc k)))"

definition exhaust :: "('s \<Rightarrow> 's option) \<Rightarrow> 's \<Rightarrow> 's option" where
  "exhaust step s = while_option (\<lambda>s. step s \<noteq> None) (\<lambda>s. the (step s)) s"

lemma exhaust_unfold:
  "exhaust step s = (case step s of None \<Rightarrow> Some s | Some s' \<Rightarrow> exhaust step s')"
  unfolding exhaust_def by (subst while_option_unfold) (auto split: option.split)

lemma fst_iterate_Suc [simp]:
  "fst (iterate step (Suc n) s) = (case step s of None \<Rightarrow> s | Some s' \<Rightarrow> fst (iterate step n s'))"
  by (auto split: option.split prod.split)

lemma snd_iterate_Suc [simp]:
  "snd (iterate step (Suc n) s) = (case step s of None \<Rightarrow> 0 | Some s' \<Rightarrow> Suc (snd (iterate step n s')))"
  by (auto split: option.split prod.split)

declare iterate.simps(2) [simp del]

lemma iterate_stuck [simp]: "step s = None \<Longrightarrow> iterate step n s = (s, 0)"
  by (cases n) (auto simp: iterate.simps(2))

lemma iterate_add:
  "fst (iterate step (m + n) s) = fst (iterate step n (fst (iterate step m s)))"
  by (induction m arbitrary: s) (auto split: option.split)

lemma iterate_steps_le: "snd (iterate step n s) \<le> n"
  by (induction n arbitrary: s) (auto split: option.split)

lemma iterate_exhausts:
  "step (fst (iterate step n s)) = None \<Longrightarrow> exhaust step s = Some (fst (iterate step n s))"
proof (induction n arbitrary: s)
  case 0
  then show ?case by (subst exhaust_unfold) simp
next
  case (Suc n)
  then show ?case
    by (subst exhaust_unfold) (auto split: option.splits)
qed

text \<open>
  The contract of a loop body: an invariant that every step keeps and a measure that every step
  decreases. From it, the limited loop keeps the invariant at every interruption point, the
  unlimited loop ends, and an interrupted loop that is resumed ends where the unlimited one does.
\<close>

locale bounded_stepper =
  fixes step :: "'s \<Rightarrow> 's option"
    and inv :: "'s \<Rightarrow> bool"
    and rank :: "('s \<times> 's) set"
  assumes step_inv: "inv s \<Longrightarrow> step s = Some s' \<Longrightarrow> inv s'"
    and step_rank: "inv s \<Longrightarrow> step s = Some s' \<Longrightarrow> (s', s) \<in> rank"
    and wf_rank: "wf rank"
begin

lemma iterate_inv: "inv s \<Longrightarrow> inv (fst (iterate step n s))"
  by (induction n arbitrary: s) (auto split: option.split dest: step_inv)

lemma exhaust_total: "inv s \<Longrightarrow> \<exists>t n. exhaust step s = Some t \<and> t = fst (iterate step n s) \<and> step t = None \<and> inv t"
proof (induction s rule: wf_induct_rule [OF wf_rank])
  case (1 s)
  show ?case
  proof (cases "step s")
    case None
    with 1 show ?thesis
      by (intro exI [of _ s] exI [of _ 0]) (auto simp: exhaust_unfold [of step s])
  next
    case (Some s')
    with 1 step_inv step_rank obtain t n where
      t: "exhaust step s' = Some t" "t = fst (iterate step n s')" "step t = None" "inv t"
      by metis
    with Some show ?thesis
      by (intro exI [of _ t] exI [of _ "Suc n"])
        (auto simp: exhaust_unfold [of step s])
  qed
qed

lemma resume_exhaust:
  assumes "inv s"
  shows "exhaust step (fst (iterate step n s)) = exhaust step s"
  using assms
proof (induction n arbitrary: s)
  case (Suc n)
  show ?case
  proof (cases "step s")
    case (Some s')
    with Suc step_inv have "exhaust step (fst (iterate step n s')) = exhaust step s'" by blast
    with Some show ?thesis by (simp add: exhaust_unfold [of step s])
  qed simp
qed simp

end

section \<open>Effectful calls\<close>

text \<open>
  A call on a state either throws an error message or returns a value; in both cases the state is
  the one the call left behind, so what was written before a throw is not undone.
\<close>

type_synonym ('s, 'a) action = "'s \<Rightarrow> (string + 'a) \<times> 's"

definition ret :: "'a \<Rightarrow> ('s, 'a) action" where
  "ret a s = (Inr a, s)"

definition throw :: "string \<Rightarrow> ('s, 'a) action" where
  "throw e s = (Inl e, s)"

definition and_then :: "('s, 'a) action \<Rightarrow> ('a \<Rightarrow> ('s, 'b) action) \<Rightarrow> ('s, 'b) action" where
  "and_then m f s = (case m s of (Inl e, s') \<Rightarrow> (Inl e, s') | (Inr a, s') \<Rightarrow> f a s')"

definition lift_result :: "string + 'a \<Rightarrow> ('s, 'a) action" where
  "lift_result r s = (r, s)"

definition keeps :: "('s \<Rightarrow> bool) \<Rightarrow> ('s, 'a) action \<Rightarrow> bool" where
  "keeps I m \<longleftrightarrow> (\<forall>s. I s \<longrightarrow> I (snd (m s)))"

named_theorems keeps_intros "invariant preservation of calls"

lemma ret_apply [simp]: "ret a s = (Inr a, s)"
  by (simp add: ret_def)

lemma throw_apply [simp]: "throw e s = (Inl e, s)"
  by (simp add: throw_def)

lemma lift_result_apply [simp]: "lift_result r s = (r, s)"
  by (simp add: lift_result_def)

lemma and_then_Inl: "m s = (Inl e, s') \<Longrightarrow> and_then m f s = (Inl e, s')"
  by (simp add: and_then_def)

lemma and_then_Inr: "m s = (Inr a, s') \<Longrightarrow> and_then m f s = f a s'"
  by (simp add: and_then_def)

lemma ret_then: "and_then (ret a) f = f a"
  by (rule ext) (simp add: and_then_def)

lemma and_then_returns:
  "and_then m f s = (Inr b, s'') \<longleftrightarrow> (\<exists>a s'. m s = (Inr a, s') \<and> f a s' = (Inr b, s''))"
  by (auto simp: and_then_def split: prod.split sum.split)

lemma keepsI [intro]: "(\<And>s. I s \<Longrightarrow> I (snd (m s))) \<Longrightarrow> keeps I m"
  by (simp add: keeps_def)

lemma keepsD: "keeps I m \<Longrightarrow> I s \<Longrightarrow> I (snd (m s))"
  by (simp add: keeps_def)

lemma keepsD': "keeps I m \<Longrightarrow> I s \<Longrightarrow> m s = (r, s') \<Longrightarrow> I s'"
  by (metis keepsD snd_conv)

lemma keeps_ret [keeps_intros]: "keeps I (ret a)"
  by (auto simp: keeps_def)

lemma keeps_throw [keeps_intros]: "keeps I (throw e)"
  by (auto simp: keeps_def)

lemma keeps_lift_result [keeps_intros]: "keeps I (lift_result r)"
  by (auto simp: keeps_def)

lemma keeps_and_then [keeps_intros]:
  "keeps I m \<Longrightarrow> (\<And>a. keeps I (f a)) \<Longrightarrow> keeps I (and_then m f)"
  by (fastforce simp: keeps_def and_then_def split: prod.split sum.split dest: arg_cong [where f = snd])

text \<open>A loop that collects what one call per element returns, and stops at the first throw.\<close>

primrec for_each :: "('i \<Rightarrow> ('s, 'a) action) \<Rightarrow> 'i list \<Rightarrow> ('s, 'a list) action" where
  "for_each f [] = ret []"
| "for_each f (i # is) = and_then (f i) (\<lambda>a. and_then (for_each f is) (\<lambda>as. ret (a # as)))"

lemma keeps_for_each [keeps_intros]: "(\<And>i. keeps I (f i)) \<Longrightarrow> keeps I (for_each f is)"
  by (induction "is") (auto simp del: keeps_def intro!: keeps_intros)

lemma for_each_length: "for_each f is s = (Inr as, s') \<Longrightarrow> length as = length is"
  by (induction "is" arbitrary: s as) (auto simp: and_then_returns)

text \<open>
  The contract of a call that appends one element to a sequence of its state when it returns, and
  leaves the sequence alone when it throws.
\<close>

locale appender =
  fixes append_one :: "'i \<Rightarrow> ('s, 'e) action"
    and view :: "'s \<Rightarrow> 'e list"
  assumes append_returns: "append_one i s = (Inr e, s') \<Longrightarrow> view s' = view s @ [e]"
    and append_throws: "append_one i s = (Inl err, s') \<Longrightarrow> view s' = view s"
begin

lemma for_each_appends: "for_each append_one is s = (Inr es, s') \<Longrightarrow> view s' = view s @ es"
  by (induction "is" arbitrary: s es) (auto simp: and_then_returns dest!: append_returns)

lemma for_each_extends: "\<exists>es. view (snd (for_each append_one is s)) = view s @ es"
proof (induction "is" arbitrary: s)
  case (Cons i "is")
  show ?case
  proof (cases "append_one i s")
    case (Pair r s1)
    obtain es where es: "view (snd (for_each append_one is s1)) = view s1 @ es" using Cons by blast
    show ?thesis
    proof (cases r)
      case (Inl e)
      with Pair show ?thesis by (auto simp: and_then_Inl dest: append_throws)
    next
      case (Inr a)
      with Pair es show ?thesis
        by (cases "for_each append_one is s1"; cases "fst (for_each append_one is s1)")
          (auto simp: and_then_def dest!: append_returns)
    qed
  qed
qed simp

end

section \<open>Sorting by a comparator\<close>

text \<open>
  \<^verbatim>\<open>Array.prototype.sort\<close> is stable, so with a consistent comparator its result is that of
  insertion sort. A comparator returns a negative, zero or positive number.
\<close>

fun js_insert :: "('a \<Rightarrow> 'a \<Rightarrow> int) \<Rightarrow> 'a \<Rightarrow> 'a list \<Rightarrow> 'a list" where
  "js_insert cmp x [] = [x]"
| "js_insert cmp x (y # ys) = (if cmp x y \<le> 0 then x # y # ys else y # js_insert cmp x ys)"

definition js_sort :: "('a \<Rightarrow> 'a \<Rightarrow> int) \<Rightarrow> 'a list \<Rightarrow> 'a list" where
  "js_sort cmp xs = foldr (js_insert cmp) xs []"

lemma mset_js_insert [simp]: "mset (js_insert cmp x xs) = add_mset x (mset xs)"
  by (induction xs) auto

lemma set_js_insert [simp]: "set (js_insert cmp x xs) = insert x (set xs)"
  by (metis mset_js_insert set_mset_add_mset_insert set_mset_mset)

lemma mset_js_sort [simp]: "mset (js_sort cmp xs) = mset xs"
  unfolding js_sort_def by (induction xs) auto

lemma set_js_sort [simp]: "set (js_sort cmp xs) = set xs"
  by (metis mset_js_sort set_mset_mset)

lemma distinct_map_mset: "mset xs = mset ys \<Longrightarrow> distinct (map f xs) \<longleftrightarrow> distinct (map f ys)"
  by (metis mset_eq_imp_distinct_iff mset_map)

lemma js_insert_map: "map f (js_insert (\<lambda>l r. cmp (f l) (f r)) x xs) = js_insert cmp (f x) (map f xs)"
  by (induction xs) auto

lemma js_sort_map: "map f (js_sort (\<lambda>l r. cmp (f l) (f r)) xs) = js_sort cmp (map f xs)"
  unfolding js_sort_def by (induction xs) (auto simp: js_insert_map)

locale js_comparator =
  fixes cmp :: "'a \<Rightarrow> 'a \<Rightarrow> int"
  assumes cmp_flip: "cmp x y \<le> 0 \<or> cmp y x \<le> 0"
    and cmp_trans: "cmp x y \<le> 0 \<Longrightarrow> cmp y z \<le> 0 \<Longrightarrow> cmp x z \<le> 0"
begin

abbreviation ordered :: "'a list \<Rightarrow> bool" where
  "ordered \<equiv> sorted_wrt (\<lambda>x y. cmp x y \<le> 0)"

lemma ordered_insert: "ordered xs \<Longrightarrow> ordered (js_insert cmp x xs)"
proof (induction xs)
  case (Cons y ys)
  then show ?case
    using cmp_flip [of x y] by (auto intro: cmp_trans [of x y])
qed simp

lemma ordered_sort: "ordered (js_sort cmp xs)"
  unfolding js_sort_def by (induction xs) (auto intro: ordered_insert)

lemma insert_ordered_id: "ordered (x # xs) \<Longrightarrow> js_insert cmp x xs = x # xs"
  by (cases xs) auto

lemma sort_ordered_id: "ordered xs \<Longrightarrow> js_sort cmp xs = xs"
  unfolding js_sort_def by (induction xs) (auto simp: insert_ordered_id)

end

section \<open>Exclusive claims\<close>

text \<open>
  The contract of a store whose items are claimed by workers: a claim succeeds only on an item
  nobody holds, makes the caller its holder, and leaves every other item alone; a claim that does
  not succeed changes no holder. Among any sequence of claims, an item is then won at most once.
\<close>

locale exclusive_claims =
  fixes good :: "'s \<Rightarrow> bool"
    and available :: "'s \<Rightarrow> 'id \<Rightarrow> bool"
    and claim :: "'id \<Rightarrow> 'w \<Rightarrow> 's \<Rightarrow> bool \<times> 's"
  assumes claim_good: "good s \<Longrightarrow> good (snd (claim i w s))"
    and claim_wins: "good s \<Longrightarrow> fst (claim i w s) \<Longrightarrow> available s i"
    and claim_takes: "good s \<Longrightarrow> fst (claim i w s) \<Longrightarrow> \<not> available (snd (claim i w s)) i"
    and claim_frame: "good s \<Longrightarrow> available (snd (claim i w s)) j \<Longrightarrow> available s j"
begin

primrec winners :: "('id \<times> 'w) list \<Rightarrow> 's \<Rightarrow> 'id list" where
  "winners [] s = []"
| "winners (q # qs) s =
     (let r = claim (fst q) (snd q) s in (if fst r then [fst q] else []) @ winners qs (snd r))"

lemma winners_available: "good s \<Longrightarrow> i \<in> set (winners qs s) \<Longrightarrow> available s i"
proof (induction qs arbitrary: s)
  case (Cons q qs)
  then show ?case
    using claim_wins [OF Cons.prems(1)] claim_frame [OF Cons.prems(1)] claim_good [OF Cons.prems(1)]
    by (fastforce simp: Let_def split: if_splits)
qed simp

lemma winners_distinct: "good s \<Longrightarrow> distinct (winners qs s)"
proof (induction qs arbitrary: s)
  case (Cons q qs)
  then show ?case
    using claim_good [OF Cons.prems] claim_takes [OF Cons.prems] winners_available
    by (fastforce simp: Let_def)
qed simp

end

end
