(* ===== verification/PersistentStringMap.thy ===== *)
theory PersistentStringMap
  imports Prelude
begin

text \<open>
  \<^verbatim>\<open>packages/graph-algorithms/src/persistent-string-map.ts\<close>: the immutable AVL index. A node caches
  its height and its size; \<open>Undef\<close> is an absent child. Keys are strings compared by code units in
  the source; the model takes any linear order. The invariant \<open>pm_inv\<close> collects the key order, the
  two caches and the balance; lookups, positional reads and iteration are proved against the
  sorted entry list, and the interface the solvers use is the locale \<open>ordered_map\<close>.
\<close>

datatype ('k, 'v) pnode =
  Undef
| PNode (n_key: 'k) (n_value: 'v) (n_left: "('k, 'v) pnode") (n_right: "('k, 'v) pnode")
    (n_height: nat) (n_size: nat)

text \<open>\<^verbatim>\<open>x?.height ?? 0\<close> and \<^verbatim>\<open>x?.size ?? 0\<close>.\<close>

fun height_of :: "('k, 'v) pnode \<Rightarrow> nat" where
  "height_of Undef = 0"
| "height_of (PNode _ _ _ _ h _) = h"

fun size_of :: "('k, 'v) pnode \<Rightarrow> nat" where
  "size_of Undef = 0"
| "size_of (PNode _ _ _ _ _ s) = s"

definition node :: "'k \<Rightarrow> 'v \<Rightarrow> ('k, 'v) pnode \<Rightarrow> ('k, 'v) pnode \<Rightarrow> ('k, 'v) pnode" where
  "node k v l r = PNode k v l r (1 + max (height_of l) (height_of r)) (1 + size_of l + size_of r)"

fun pm_get :: "('k::linorder, 'v) pnode \<Rightarrow> 'k \<Rightarrow> 'v option" where
  "pm_get Undef key = None"
| "pm_get (PNode k v l r _ _) key =
     (if key = k then Some v else pm_get (if key < k then l else r) key)"

fun pm_has :: "('k::linorder, 'v) pnode \<Rightarrow> 'k \<Rightarrow> bool" where
  "pm_has Undef key = False"
| "pm_has (PNode k v l r _ _) key =
     (if key = k then True else pm_has (if key < k then l else r) key)"

text \<open>The descent of \<^verbatim>\<open>entryAt\<close> and the method with its range guard (\<^verbatim>\<open>index\<close> an integer).\<close>

fun entry_descent :: "('k, 'v) pnode \<Rightarrow> int \<Rightarrow> ('k \<times> 'v) option" where
  "entry_descent Undef index = None"
| "entry_descent (PNode k v l r _ _) index =
     (let left = int (size_of l)
      in if index = left then Some (k, v)
         else if index < left then entry_descent l index
         else entry_descent r (index - (left + 1)))"

definition entryAt :: "('k, 'v) pnode \<Rightarrow> int \<Rightarrow> ('k \<times> 'v) option" where
  "entryAt t index = (if index < 0 \<or> index \<ge> int (size_of t) then None else entry_descent t index)"

text \<open>
  The rotations dereference a child (\<^verbatim>\<open>root.right!\<close>, \<^verbatim>\<open>root.left!\<close>); on an absent child the source
  throws, which is \<open>None\<close> here. \<open>insert\<close> is therefore partial in the model too.
\<close>

fun rotateLeft :: "('k, 'v) pnode \<Rightarrow> ('k, 'v) pnode option" where
  "rotateLeft (PNode k v l (PNode k2 v2 l2 r2 _ _) _ _) = Some (node k2 v2 (node k v l l2) r2)"
| "rotateLeft _ = None"

fun rotateRight :: "('k, 'v) pnode \<Rightarrow> ('k, 'v) pnode option" where
  "rotateRight (PNode k v (PNode k2 v2 l2 r2 _ _) r _ _) = Some (node k2 v2 l2 (node k v r2 r))"
| "rotateRight _ = None"

definition rebalance :: "('k, 'v) pnode \<Rightarrow> ('k, 'v) pnode option" where
  "rebalance t = (case t of
     Undef \<Rightarrow> Some Undef
   | PNode k v l r _ _ \<Rightarrow>
      (let balance = int (height_of l) - int (height_of r)
       in if balance > 1 then
            (case l of Undef \<Rightarrow> None
             | PNode _ _ ll lr _ _ \<Rightarrow>
                 if height_of ll \<ge> height_of lr then rotateRight t
                 else Option.bind (rotateLeft l) (\<lambda>l'. rotateRight (node k v l' r)))
          else if balance < -1 then
            (case r of Undef \<Rightarrow> None
             | PNode _ _ rl rr _ _ \<Rightarrow>
                 if height_of rr \<ge> height_of rl then rotateLeft t
                 else Option.bind (rotateRight r) (\<lambda>r'. rotateLeft (node k v l r')))
          else Some t))"

fun insert_node :: "('k::linorder, 'v) pnode \<Rightarrow> 'k \<Rightarrow> 'v \<Rightarrow> ('k, 'v) pnode option" where
  "insert_node Undef key val = Some (node key val Undef Undef)"
| "insert_node (PNode k v l r h s) key val =
     (if key = k then Some (if val = v then PNode k v l r h s else node key val l r)
      else if key < k
        then Option.bind (insert_node l key val) (\<lambda>l'. rebalance (node k v l' r))
        else Option.bind (insert_node r key val) (\<lambda>r'. rebalance (node k v l r')))"

definition pm_with :: "('k::linorder, 'v) pnode \<Rightarrow> 'k \<Rightarrow> 'v \<Rightarrow> ('k, 'v) pnode" where
  "pm_with t key val = the (insert_node t key val)"

fun entries :: "('k, 'v) pnode \<Rightarrow> ('k \<times> 'v) list" where
  "entries Undef = []"
| "entries (PNode k v l r _ _) = entries l @ (k, v) # entries r"

definition pm_keys :: "('k, 'v) pnode \<Rightarrow> 'k list" where
  "pm_keys t = map fst (entries t)"

definition pm_values :: "('k, 'v) pnode \<Rightarrow> 'v list" where
  "pm_values t = map snd (entries t)"

section \<open>The invariant\<close>

fun real_height :: "('k, 'v) pnode \<Rightarrow> nat" where
  "real_height Undef = 0"
| "real_height (PNode _ _ l r _ _) = 1 + max (real_height l) (real_height r)"

fun keys_of :: "('k, 'v) pnode \<Rightarrow> 'k set" where
  "keys_of Undef = {}"
| "keys_of (PNode k _ l r _ _) = {k} \<union> keys_of l \<union> keys_of r"

fun ordered :: "('k::linorder, 'v) pnode \<Rightarrow> bool" where
  "ordered Undef = True"
| "ordered (PNode k _ l r _ _) =
     ((\<forall>x \<in> keys_of l. x < k) \<and> (\<forall>x \<in> keys_of r. k < x) \<and> ordered l \<and> ordered r)"

fun cached :: "('k, 'v) pnode \<Rightarrow> bool" where
  "cached Undef = True"
| "cached (PNode k v l r h s) =
     (h = 1 + max (height_of l) (height_of r) \<and> s = 1 + size_of l + size_of r \<and> cached l \<and> cached r)"

fun balanced :: "('k, 'v) pnode \<Rightarrow> bool" where
  "balanced Undef = True"
| "balanced (PNode _ _ l r _ _) =
     (height_of l \<le> height_of r + 1 \<and> height_of r \<le> height_of l + 1 \<and> balanced l \<and> balanced r)"

definition pm_inv :: "('k::linorder, 'v) pnode \<Rightarrow> bool" where
  "pm_inv t \<longleftrightarrow> ordered t \<and> cached t \<and> balanced t"

lemma pm_inv_Undef [simp]: "pm_inv Undef"
  by (simp add: pm_inv_def)

lemma cached_height: "cached t \<Longrightarrow> height_of t = real_height t"
  by (induction t) auto

lemma cached_size: "cached t \<Longrightarrow> size_of t = length (entries t)"
  by (induction t) auto

lemma keys_of_entries: "keys_of t = fst ` set (entries t)"
  by (induction t) (auto simp: image_Un)

lemma height_of_zero: "cached t \<Longrightarrow> height_of t = 0 \<longleftrightarrow> t = Undef"
  by (cases t) auto

section \<open>Insertion never dereferences an absent child\<close>

text \<open>The five outcomes of \<open>rebalance\<close>, with the shapes of the rotated trees made explicit.\<close>

lemma rebalance_cases:
  fixes k :: 'k and v :: 'v
  assumes "height_of l \<le> height_of r + 1 \<Longrightarrow> height_of r \<le> height_of l + 1 \<Longrightarrow> P (node k v l r)"
    and "\<And>k2 v2 ll lr h s. l = PNode k2 v2 ll lr h s \<Longrightarrow> height_of l > height_of r + 1 \<Longrightarrow>
      height_of lr \<le> height_of ll \<Longrightarrow> P (node k2 v2 ll (node k v lr r))"
    and "\<And>k2 v2 ll h s k3 v3 l3 r3 h3 s3. l = PNode k2 v2 ll (PNode k3 v3 l3 r3 h3 s3) h s \<Longrightarrow>
      height_of l > height_of r + 1 \<Longrightarrow> height_of ll < h3 \<Longrightarrow>
      P (node k3 v3 (node k2 v2 ll l3) (node k v r3 r))"
    and "\<And>k2 v2 rl rr h s. r = PNode k2 v2 rl rr h s \<Longrightarrow> height_of r > height_of l + 1 \<Longrightarrow>
      height_of rl \<le> height_of rr \<Longrightarrow> P (node k2 v2 (node k v l rl) rr)"
    and "\<And>k2 v2 rr h s k3 v3 l3 r3 h3 s3. r = PNode k2 v2 (PNode k3 v3 l3 r3 h3 s3) rr h s \<Longrightarrow>
      height_of r > height_of l + 1 \<Longrightarrow> height_of rr < h3 \<Longrightarrow>
      P (node k3 v3 (node k v l l3) (node k2 v2 r3 rr))"
  shows "\<exists>t'. rebalance (node k v l r) = Some t' \<and> P t'"
proof -
  consider (ok) "\<not> height_of l > height_of r + 1" "\<not> height_of r > height_of l + 1"
    | (L) "height_of l > height_of r + 1" | (R) "height_of r > height_of l + 1" "\<not> height_of l > height_of r + 1"
    by blast
  then show ?thesis
  proof cases
    case ok
    then have "rebalance (node k v l r) = Some (node k v l r)"
      by (simp add: rebalance_def node_def Let_def)
    with ok assms(1) show ?thesis by auto
  next
    case L
    then obtain k2 v2 ll lr h s where l: "l = PNode k2 v2 ll lr h s" by (cases l) auto
    show ?thesis
    proof (cases "height_of lr \<le> height_of ll")
      case True
      with l L assms(2) [OF l L True] show ?thesis by (simp add: rebalance_def node_def Let_def)
    next
      case False
      then obtain k3 v3 l3 r3 h3 s3 where "lr = PNode k3 v3 l3 r3 h3 s3" by (cases lr) auto
      with l L False assms(3) [of k2 v2 ll k3 v3 l3 r3 h3 s3 h s] show ?thesis
        by (simp add: rebalance_def node_def Let_def)
    qed
  next
    case R
    then obtain k2 v2 rl rr h s where r: "r = PNode k2 v2 rl rr h s" by (cases r) auto
    show ?thesis
    proof (cases "height_of rl \<le> height_of rr")
      case True
      with r R assms(4) [OF r R(1) True] show ?thesis by (simp add: rebalance_def node_def Let_def)
    next
      case False
      then obtain k3 v3 l3 r3 h3 s3 where "rl = PNode k3 v3 l3 r3 h3 s3" by (cases rl) auto
      with r R False assms(5) [of k2 v2 k3 v3 l3 r3 h3 s3 rr h s] show ?thesis
        by (simp add: rebalance_def node_def Let_def)
    qed
  qed
qed

lemma rebalance_total: "\<exists>t'. rebalance (node k v l r) = Some t'"
  using rebalance_cases [of l r "\<lambda>_. True"] by simp

lemma insert_node_total: "\<exists>t'. insert_node t key val = Some t'"
proof (induction t)
  case (PNode k v l r h s)
  then show ?case using rebalance_total by (auto simp: Option.bind_eq_Some_conv)
qed simp

lemma pm_with_simps:
  "pm_with Undef key val = node key val Undef Undef"
  "pm_with (PNode k v l r h s) key val =
     (if key = k then (if val = v then PNode k v l r h s else node key val l r)
      else if key < k then the (rebalance (node k v (pm_with l key val) r))
      else the (rebalance (node k v l (pm_with r key val))))"
  using insert_node_total [of l key val] insert_node_total [of r key val]
  by (auto simp: pm_with_def)

lemma pm_with_less: "key < k \<Longrightarrow>
    pm_with (PNode k v l r h s) key val = the (rebalance (node k v (pm_with l key val) r))"
  and pm_with_greater: "k < key \<Longrightarrow>
    pm_with (PNode k v l r h s) key val = the (rebalance (node k v l (pm_with r key val)))"
  and pm_with_same:
    "pm_with (PNode k v l r h s) k val = (if val = v then PNode k v l r h s else node k val l r)"
  by (auto simp: pm_with_simps)

lemmas pm_with_cases = pm_with_simps(1) pm_with_less pm_with_greater pm_with_same

section \<open>Insertion keeps the invariant and refines list insertion\<close>

lemma node_sel [simp]:
  "height_of (node k v l r) = 1 + max (height_of l) (height_of r)"
  "size_of (node k v l r) = 1 + size_of l + size_of r"
  "entries (node k v l r) = entries l @ (k, v) # entries r"
  "keys_of (node k v l r) = {k} \<union> keys_of l \<union> keys_of r"
  "cached (node k v l r) = (cached l \<and> cached r)"
  "balanced (node k v l r) =
     (height_of l \<le> height_of r + 1 \<and> height_of r \<le> height_of l + 1 \<and> balanced l \<and> balanced r)"
  by (auto simp: node_def)

lemma ordered_node [simp]:
  "ordered (node k v l r) =
     ((\<forall>x \<in> keys_of l. x < k) \<and> (\<forall>x \<in> keys_of r. k < x) \<and> ordered l \<and> ordered r)"
  by (simp add: node_def)

lemma the_rebalanceI: "\<exists>t'. rebalance t = Some t' \<and> P t' \<Longrightarrow> P (the (rebalance t))"
  by auto

lemma rebalance_entries: "entries (the (rebalance (node k v l r))) = entries l @ (k, v) # entries r"
  by (rule the_rebalanceI, rule rebalance_cases) auto

lemma rebalance_cached: "cached l \<Longrightarrow> cached r \<Longrightarrow> cached (the (rebalance (node k v l r)))"
  by (rule the_rebalanceI, rule rebalance_cases) auto

lemma rebalance_height:
  assumes "cached l" "cached r" "balanced l" "balanced r"
    "height_of l \<le> height_of r + 2" "height_of r \<le> height_of l + 2"
  shows "balanced (the (rebalance (node k v l r)))
    \<and> height_of (the (rebalance (node k v l r))) \<le> 1 + max (height_of l) (height_of r)
    \<and> max (height_of l) (height_of r) \<le> height_of (the (rebalance (node k v l r)))
    \<and> (height_of l \<le> height_of r + 1 \<and> height_of r \<le> height_of l + 1 \<longrightarrow>
         height_of (the (rebalance (node k v l r))) = 1 + max (height_of l) (height_of r))"
  by (rule the_rebalanceI, rule rebalance_cases) (use assms in \<open>auto simp: max_def split: if_splits\<close>)

text \<open>The key order of the tree is the strict sortedness of its entry list.\<close>

lemma keys_of_pm_keys: "keys_of t = set (pm_keys t)"
  by (simp add: keys_of_entries pm_keys_def)

lemma sorted_wrt_mid:
  fixes k :: "'a::linorder"
  shows "sorted_wrt (<) (xs @ k # ys) \<longleftrightarrow>
    (\<forall>x \<in> set xs. x < k) \<and> (\<forall>y \<in> set ys. k < y) \<and> sorted_wrt (<) xs \<and> sorted_wrt (<) ys"
  by (auto simp: sorted_wrt_append intro: order.strict_trans)

lemma ordered_iff_sorted: "ordered t \<longleftrightarrow> sorted_wrt (<) (pm_keys t)"
proof (induction t)
  case (PNode k v l r h s)
  have "pm_keys (PNode k v l r h s) = pm_keys l @ k # pm_keys r" by (simp add: pm_keys_def)
  with PNode show ?case by (simp add: sorted_wrt_mid keys_of_pm_keys)
qed (simp add: pm_keys_def)

lemma distinct_pm_keys: "ordered t \<Longrightarrow> distinct (pm_keys t)"
  by (simp add: ordered_iff_sorted strict_sorted_iff)

lemma map_of_entries_None: "x \<notin> keys_of t \<Longrightarrow> map_of (entries t) x = None"
  by (simp add: keys_of_entries map_of_eq_None_iff)

lemma pm_get_entries: "ordered t \<Longrightarrow> pm_get t x = map_of (entries t) x"
proof (induction t)
  case (PNode k v l r h s)
  then have "x \<le> k \<Longrightarrow> x \<notin> keys_of r" and "k \<le> x \<Longrightarrow> x \<notin> keys_of l" by force+
  with PNode show ?case
    by (cases x k rule: linorder_cases)
      (auto simp: map_add_def map_of_entries_None split: option.split)
qed simp

lemma pm_has_entries: "ordered t \<Longrightarrow> pm_has t x \<longleftrightarrow> x \<in> keys_of t"
  by (induction t) (auto split: if_splits)

lemma keys_of_pm_with: "keys_of (pm_with t key val) = insert key (keys_of t)"
  by (induction t) (auto simp: pm_with_simps keys_of_entries rebalance_entries)

lemma ordered_pm_with: "ordered t \<Longrightarrow> ordered (pm_with t key val)"
proof (induction t)
  case (PNode k v l r h s)
  have "ordered (node k v a b) \<Longrightarrow> ordered (the (rebalance (node k v a b)))" for a b
    using rebalance_entries [of k v a b]
    by (simp add: ordered_iff_sorted pm_keys_def del: ordered_node)
  with PNode show ?case by (auto simp: pm_with_simps keys_of_pm_with)
qed (simp add: pm_with_simps)

lemma map_of_pm_with:
  "ordered t \<Longrightarrow> map_of (entries (pm_with t key val)) x = (if x = key then Some val else map_of (entries t) x)"
proof (induction t)
  case (PNode k v l r h s)
  have r: "key \<le> k \<Longrightarrow> map_of (entries r) key = None"
    using PNode.prems by (intro map_of_entries_None) force
  have l: "k \<le> key \<Longrightarrow> map_of (entries l) key = None"
    using PNode.prems by (intro map_of_entries_None) force
  from PNode l r show ?case
    by (cases key k rule: linorder_cases)
      (auto simp: pm_with_cases rebalance_entries map_add_def split: option.splits)
qed (auto simp: pm_with_cases)

lemma cached_pm_with: "cached t \<Longrightarrow> cached (pm_with t key val)"
  by (induction t) (auto simp: pm_with_simps rebalance_cached)

lemma rebalance_grow:
  assumes "cached l" "cached r" "balanced l" "balanced r"
    and "hl \<le> height_of l" "height_of l \<le> hl + 1" "hr \<le> height_of r" "height_of r \<le> hr + 1"
    and "hl \<le> hr + 1" "hr \<le> hl + 1" "height_of l = hl \<or> height_of r = hr"
  shows "balanced (the (rebalance (node k v l r)))
    \<and> 1 + max hl hr \<le> height_of (the (rebalance (node k v l r)))
    \<and> height_of (the (rebalance (node k v l r))) \<le> 2 + max hl hr"
proof -
  have "height_of l \<le> height_of r + 2" "height_of r \<le> height_of l + 2" using assms by auto
  note rebalance_height [OF assms(1-4) this, of k v]
  with assms(5-) show ?thesis
    by (cases "height_of l \<le> height_of r + 1 \<and> height_of r \<le> height_of l + 1") auto
qed

lemma balanced_pm_with:
  "cached t \<Longrightarrow> balanced t \<Longrightarrow> balanced (pm_with t key val)
    \<and> height_of t \<le> height_of (pm_with t key val) \<and> height_of (pm_with t key val) \<le> height_of t + 1"
proof (induction t)
  case (PNode k v l r h s)
  then have IH: "balanced (pm_with l key val)" "balanced (pm_with r key val)"
    "height_of l \<le> height_of (pm_with l key val)" "height_of (pm_with l key val) \<le> height_of l + 1"
    "height_of r \<le> height_of (pm_with r key val)" "height_of (pm_with r key val) \<le> height_of r + 1"
    by auto
  have L: "key < k \<Longrightarrow> ?case"
    using IH PNode.prems rebalance_grow [of "pm_with l key val" r "height_of l" "height_of r" k v]
    by (simp add: pm_with_less cached_pm_with)
  have R: "k < key \<Longrightarrow> ?case"
    using IH PNode.prems rebalance_grow [of l "pm_with r key val" "height_of l" "height_of r" k v]
    by (simp add: pm_with_greater cached_pm_with)
  from L R PNode.prems show ?case
    by (cases key k rule: linorder_cases) (auto simp: pm_with_same)
qed (simp add: pm_with_cases)

section \<open>The map interface\<close>

text \<open>
  What the solvers rely on: updates are map updates, iteration yields the sorted entries, and every
  operation keeps the invariant. The client lemmas hold for any provider of the interface.
\<close>

locale ordered_map =
  fixes empty :: 'm
    and get :: "'m \<Rightarrow> 'k::linorder \<Rightarrow> 'v option"
    and has :: "'m \<Rightarrow> 'k \<Rightarrow> bool"
    and upd :: "'m \<Rightarrow> 'k \<Rightarrow> 'v \<Rightarrow> 'm"
    and items :: "'m \<Rightarrow> ('k \<times> 'v) list"
    and invar :: "'m \<Rightarrow> bool"
  assumes invar_empty: "invar empty"
    and get_empty: "get empty k = None"
    and invar_upd: "invar m \<Longrightarrow> invar (upd m k v)"
    and get_upd: "invar m \<Longrightarrow> get (upd m k v) x = (if x = k then Some v else get m x)"
    and has_get: "invar m \<Longrightarrow> has m k \<longleftrightarrow> get m k \<noteq> None"
    and items_get: "invar m \<Longrightarrow> get m k = map_of (items m) k"
    and items_sorted: "invar m \<Longrightarrow> sorted_wrt (<) (map fst (items m))"
begin

lemma set_items: "invar m \<Longrightarrow> set (items m) = {(k, v). get m k = Some v}"
  using items_sorted [of m] by (auto simp: items_get strict_sorted_iff)

lemma finite_dom: "invar m \<Longrightarrow> finite {k. get m k \<noteq> None}"
  using finite_dom_map_of [of "items m"] by (simp add: items_get dom_def)

lemma invar_fold: "invar m \<Longrightarrow> invar (fold (\<lambda>(k, v) m. upd m k v) kvs m)"
  by (induction kvs arbitrary: m) (auto simp: invar_upd)

lemma get_fold:
  "invar m \<Longrightarrow> get (fold (\<lambda>(k, v) m. upd m k v) kvs m) x =
     (case map_of (rev kvs) x of None \<Rightarrow> get m x | Some v \<Rightarrow> Some v)"
  by (induction kvs arbitrary: m)
    (auto simp: get_upd invar_upd map_add_def split: option.split)

lemmas laws = invar_empty get_empty invar_upd get_upd has_get

end

interpretation pm: ordered_map Undef pm_get pm_has pm_with entries pm_inv
proof
  fix m :: "('k::linorder, 'v) pnode" and k x :: 'k and v :: 'v
  assume inv: "pm_inv m"
  then show "pm_inv (pm_with m k v)"
    using ordered_pm_with [of m k v] cached_pm_with [of m k v] balanced_pm_with [of m k v]
    by (simp add: pm_inv_def)
  with inv show "pm_get (pm_with m k v) x = (if x = k then Some v else pm_get m x)"
    by (simp add: pm_inv_def pm_get_entries map_of_pm_with)
  from inv show "pm_has m k \<longleftrightarrow> pm_get m k \<noteq> None"
    by (simp add: pm_inv_def pm_has_entries pm_get_entries keys_of_entries map_of_eq_None_iff)
  from inv show "pm_get m k = map_of (entries m) k"
    by (simp add: pm_inv_def pm_get_entries)
  from inv show "sorted_wrt (<) (map fst (entries m))"
    by (simp add: pm_inv_def ordered_iff_sorted pm_keys_def)
qed simp_all

declare pm.laws [map_laws]

section \<open>Properties of the map\<close>

lemma entry_descent_nth:
  "cached t \<Longrightarrow> entry_descent t (int i) = (if i < length (entries t) then Some (entries t ! i) else None)"
proof (induction t arbitrary: i)
  case (PNode k v l r h s)
  then have sl: "size_of l = length (entries l)" by (simp add: cached_size)
  consider "i < length (entries l)" | "i = length (entries l)"
    | j where "i = length (entries l) + 1 + j"
    by (metis add.commute add_Suc_right less_iff_Suc_add linorder_neqE_nat plus_1_eq_Suc)
  then show ?case
  proof cases
    case 3
    then have "int i - (int (length (entries l)) + 1) = int j"
      "(entries l @ (k, v) # entries r) ! i = entries r ! j" by (simp_all add: nth_append)
    with 3 PNode sl show ?thesis by (simp add: Let_def)
  qed (use PNode sl in \<open>auto simp: Let_def nth_append\<close>)
qed simp

lemma avl_size_bound: "cached t \<Longrightarrow> balanced t \<Longrightarrow> 2 ^ (height_of t div 2) \<le> size_of t + 1"
proof (induction t)
  case (PNode k v l r h s)
  let ?m = "min (height_of l) (height_of r)"
  have le: "(2::nat) ^ (?m div 2) \<le> 2 ^ (height_of l div 2)" "(2::nat) ^ (?m div 2) \<le> 2 ^ (height_of r div 2)"
    by (rule power_increasing; simp add: div_le_mono)+
  have "2 ^ (?m div 2) \<le> size_of l + 1"
    by (rule order_trans [OF le(1)]) (use PNode in simp)
  moreover have "2 ^ (?m div 2) \<le> size_of r + 1"
    by (rule order_trans [OF le(2)]) (use PNode in simp)
  moreover have "h div 2 \<le> ?m div 2 + 1" using PNode.prems by auto
  then have "(2::nat) ^ (h div 2) \<le> 2 ^ (?m div 2 + 1)" by (rule power_increasing) simp
  ultimately show ?case using PNode.prems by simp
qed simp

text \<open>the insertion of the persistent map never dereferences an absent child: whatever the tree
  looks like, \<^verbatim>\<open>insert\<close> returns a node, because each rotation is guarded by a height comparison that an
  absent child cannot satisfy.\<close>
theorem insert_never_throws: "\<exists>t'. insert_node t key val = Some t'"
  by (rule insert_node_total)

text \<open>C0: \<^verbatim>\<open>with\<close> keeps the whole invariant of the persistent map: strict key order, exact cached heights
  and sizes, and the AVL balance.\<close>
theorem pm_with_invariant: "pm_inv t \<Longrightarrow> pm_inv (pm_with t key val)"
  by (rule pm.invar_upd)

theorem pm_with_invariant_witness:
  "pm_inv (node (1::int) ''a'' Undef Undef) \<and> pm_inv (pm_with (node (1::int) ''a'' Undef Undef) 2 ''b'')"
proof -
  have h: "pm_inv (node (1::int) ''a'' Undef Undef)" by (simp add: pm_inv_def)
  with pm_with_invariant [OF h, of 2 "''b''"] show ?thesis by blast
qed

text \<open>C33: an update is a map update: after \<^verbatim>\<open>with(key, value)\<close>, \<^verbatim>\<open>get\<close> returns the new value at the key
  and the old answer everywhere else, \<^verbatim>\<open>has\<close> agrees with \<^verbatim>\<open>get\<close>, and iteration yields the entries in
  strictly increasing key order with exactly the looked-up bindings.\<close>
theorem pm_map_semantics:
  assumes "pm_inv t"
  shows "pm_get (pm_with t key val) = (pm_get t)(key \<mapsto> val)
    \<and> (\<forall>x. pm_has t x \<longleftrightarrow> pm_get t x \<noteq> None)
    \<and> sorted_wrt (<) (pm_keys t)
    \<and> set (entries t) = {(x, v). pm_get t x = Some v}"
  using assms pm.items_sorted [of t] pm.set_items [of t]
  by (auto simp: map_laws fun_eq_iff pm_keys_def)

theorem pm_map_semantics_witness:
  "pm_get (pm_with (node (1::int) ''a'' Undef Undef) 2 ''b'') 2 = Some ''b''
    \<and> pm_get (pm_with (node (1::int) ''a'' Undef Undef) 2 ''b'') 1 = Some ''a''"
proof -
  have h: "pm_inv (node (1::int) ''a'' Undef Undef)" by (simp add: pm_inv_def)
  show ?thesis using pm_map_semantics [OF h, of 2 "''b''"] by (simp add: node_def)
qed

text \<open>C0: \<^verbatim>\<open>entryAt\<close> is the positional read of the sorted entry list at every integer index: it returns
  the \<open>i\<close>-th entry for \<open>0 \<le> i < size\<close> and nothing otherwise, and \<^verbatim>\<open>size\<close> is the number of entries.\<close>
theorem entryAt_nth:
  assumes "pm_inv t"
  shows "entryAt t i = (if 0 \<le> i \<and> nat i < length (entries t) then Some (entries t ! nat i) else None)
    \<and> size_of t = length (entries t)"
  using assms entry_descent_nth [of t "nat i"]
  by (auto simp: pm_inv_def entryAt_def cached_size)

theorem entryAt_nth_witness:
  "entryAt (pm_with (node (2::int) ''b'' Undef Undef) 1 ''a'') 0 = Some (1, ''a'')"
proof -
  have h: "pm_inv (pm_with (node (2::int) ''b'' Undef Undef) 1 ''a'')"
    by (rule pm.invar_upd) (simp add: pm_inv_def)
  show ?thesis using entryAt_nth [OF h, of 0]
    by (simp add: node_def pm_with_simps rebalance_def)
qed

text \<open>the descent of every lookup is logarithmic: a tree of height \<open>h\<close> holds at least
  \<open>2\<^sup>h\<^sup>/\<^sup>2 - 1\<close> entries, and the cached height is the length of the longest descent.\<close>
theorem pm_height_bound:
  assumes "pm_inv t"
  shows "2 ^ (real_height t div 2) \<le> length (entries t) + 1"
  using assms avl_size_bound [of t] by (simp add: pm_inv_def cached_height cached_size)

theorem pm_height_bound_witness:
  "2 ^ (real_height (node (2::int) ''b'' Undef Undef) div 2) \<le> length (entries (node (2::int) ''b'' Undef Undef)) + 1"
  by (rule pm_height_bound) (simp add: pm_inv_def)

end
