(* ===== verification/WorkQueue.thy ===== *)
theory WorkQueue
  imports Prelude
begin

text \<open>
  \<^verbatim>\<open>packages/graph-algorithms/src/max-min-work-queue.ts\<close>: the persistent leftist heap that holds the
  unfinished frontier of the max-min solver. Items compare by strength only; a node caches its rank
  (the length of its right spine) and its size. The interface is the locale \<open>max_queue\<close>.
\<close>

record ('k, 's) work_item =
  nodeId :: 'k
  strength :: 's
  edgeOffset :: "nat option"

datatype ('k, 's) hnode =
  HUndef
| HNode "('k, 's) work_item" "('k, 's) hnode" "('k, 's) hnode" nat nat

fun rank_of :: "('k, 's) hnode \<Rightarrow> nat" where
  "rank_of HUndef = 0"
| "rank_of (HNode _ _ _ r _) = r"

fun wq_size :: "('k, 's) hnode \<Rightarrow> nat" where
  "wq_size HUndef = 0"
| "wq_size (HNode _ _ _ _ s) = s"

text \<open>The tail of \<^verbatim>\<open>merge\<close>: the child of larger rank goes to the left.\<close>

definition make_heap :: "('k, 's) work_item \<Rightarrow> ('k, 's) hnode \<Rightarrow> ('k, 's) hnode \<Rightarrow> ('k, 's) hnode" where
  "make_heap item left right =
     (let (left, right) = (if rank_of left < rank_of right then (right, left) else (left, right))
      in HNode item left right (1 + rank_of right) (1 + wq_size left + wq_size right))"

function merge :: "('k, 's::linorder) hnode \<Rightarrow> ('k, 's) hnode \<Rightarrow> ('k, 's) hnode" where
  "merge HUndef second = second"
| "merge (HNode i l r k s) HUndef = HNode i l r k s"
| "merge (HNode i1 l1 r1 k1 s1) (HNode i2 l2 r2 k2 s2) =
     (if strength i1 < strength i2
      then make_heap i2 l2 (merge r2 (HNode i1 l1 r1 k1 s1))
      else make_heap i1 l1 (merge r1 (HNode i2 l2 r2 k2 s2)))"
  by pat_completeness auto
termination
  by (relation "measure (\<lambda>(a, b). size a + size b)") auto

definition wq_push :: "('k, 's::linorder) hnode \<Rightarrow> ('k, 's) work_item \<Rightarrow> ('k, 's) hnode" where
  "wq_push queue item = merge queue (HNode item HUndef HUndef 1 1)"

fun wq_pop :: "('k, 's::linorder) hnode \<Rightarrow> (('k, 's) work_item \<times> ('k, 's) hnode) option" where
  "wq_pop HUndef = None"
| "wq_pop (HNode item l r _ _) = Some (item, merge l r)"

text \<open>
  The iterator of the queue: an explicit stack (its top at the head of the list here), each popped
  node pushing its left and then its right child when they exist.
\<close>

function drain :: "('k, 's) hnode list \<Rightarrow> ('k, 's) work_item list" where
  "drain [] = []"
| "drain (HUndef # pending) = drain pending"
| "drain (HNode item l r k s # pending) =
     item # drain ((if r = HUndef then [] else [r]) @ (if l = HUndef then [] else [l]) @ pending)"
  by pat_completeness auto
termination
  by (relation "measure (\<lambda>p. 2 * sum_list (map size p) + length p)") (auto split: if_splits)

definition wq_iterate :: "('k, 's) hnode \<Rightarrow> ('k, 's) work_item list" where
  "wq_iterate queue = drain (if queue = HUndef then [] else [queue])"

section \<open>The invariant and the abstraction\<close>

fun wq_items :: "('k, 's) hnode \<Rightarrow> ('k, 's) work_item multiset" where
  "wq_items HUndef = {#}"
| "wq_items (HNode i l r _ _) = {#i#} + wq_items l + wq_items r"

fun heap_ordered :: "('k, 's::linorder) hnode \<Rightarrow> bool" where
  "heap_ordered HUndef = True"
| "heap_ordered (HNode i l r _ _) =
     ((\<forall>x \<in># wq_items l + wq_items r. strength x \<le> strength i) \<and> heap_ordered l \<and> heap_ordered r)"

fun leftist :: "('k, 's) hnode \<Rightarrow> bool" where
  "leftist HUndef = True"
| "leftist (HNode i l r k s) =
     (rank_of r \<le> rank_of l \<and> k = 1 + rank_of r \<and> s = 1 + wq_size l + wq_size r \<and> leftist l \<and> leftist r)"

definition wq_inv :: "('k, 's::linorder) hnode \<Rightarrow> bool" where
  "wq_inv h \<longleftrightarrow> heap_ordered h \<and> leftist h"

lemma make_heap_items [simp]: "wq_items (make_heap i l r) = {#i#} + wq_items l + wq_items r"
  by (simp add: make_heap_def)

lemma make_heap_ordered [simp]:
  "heap_ordered (make_heap i l r) \<longleftrightarrow>
     (\<forall>x \<in># wq_items l + wq_items r. strength x \<le> strength i) \<and> heap_ordered l \<and> heap_ordered r"
  by (auto simp: make_heap_def)

lemma make_heap_leftist [simp]: "leftist (make_heap i l r) \<longleftrightarrow> leftist l \<and> leftist r"
  by (auto simp: make_heap_def)

lemma merge_items [simp]: "wq_items (merge a b) = wq_items a + wq_items b"
  by (induction a b rule: merge.induct) (auto simp: ac_simps)

lemma merge_ordered: "heap_ordered a \<Longrightarrow> heap_ordered b \<Longrightarrow> heap_ordered (merge a b)"
proof (induction a b rule: merge.induct)
  case (3 i1 l1 r1 k1 s1 i2 l2 r2 k2 s2)
  then show ?case
    by (cases "strength i1 < strength i2") (auto intro: order_trans less_imp_le)
qed auto

lemma merge_leftist: "leftist a \<Longrightarrow> leftist b \<Longrightarrow> leftist (merge a b)"
  by (induction a b rule: merge.induct) auto

lemma leftist_size: "leftist h \<Longrightarrow> wq_size h = size (wq_items h)"
  by (induction h) auto

lemma drain_items: "mset (drain p) = (\<Sum>h \<leftarrow> p. wq_items h)"
  by (induction p rule: drain.induct) (auto simp: ac_simps)

lemma rank_bound: "leftist h \<Longrightarrow> 2 ^ rank_of h \<le> wq_size h + 1"
proof (induction h)
  case (HNode i l r k s)
  then have "(2::nat) ^ rank_of r \<le> 2 ^ rank_of l" by (intro power_increasing) auto
  with HNode have "2 ^ rank_of r \<le> wq_size l + 1" "2 ^ rank_of r \<le> wq_size r + 1"
    using order_trans by (auto simp del: power_increasing_iff)
  with HNode show ?case by simp
qed simp

section \<open>The queue interface\<close>

locale max_queue =
  fixes empty :: 'q
    and push :: "'q \<Rightarrow> ('k, 's::linorder) work_item \<Rightarrow> 'q"
    and pop :: "'q \<Rightarrow> (('k, 's) work_item \<times> 'q) option"
    and count :: "'q \<Rightarrow> nat"
    and items :: "'q \<Rightarrow> ('k, 's) work_item multiset"
    and invar :: "'q \<Rightarrow> bool"
  assumes invar_empty: "invar empty"
    and items_empty: "items empty = {#}"
    and invar_push: "invar q \<Longrightarrow> invar (push q x)"
    and items_push: "invar q \<Longrightarrow> items (push q x) = add_mset x (items q)"
    and pop_None: "invar q \<Longrightarrow> pop q = None \<longleftrightarrow> items q = {#}"
    and pop_Some: "invar q \<Longrightarrow> pop q = Some (x, q') \<Longrightarrow>
      invar q' \<and> items q = add_mset x (items q') \<and> (\<forall>y \<in># items q. strength y \<le> strength x)"
    and count_items: "invar q \<Longrightarrow> count q = size (items q)"
begin

lemma invar_fold: "invar q \<Longrightarrow> invar (fold (\<lambda>x q. push q x) xs q)"
  by (induction xs arbitrary: q) (auto simp: invar_push)

lemma items_fold: "invar q \<Longrightarrow> items (fold (\<lambda>x q. push q x) xs q) = mset xs + items q"
  by (induction xs arbitrary: q) (auto simp: invar_push items_push)

lemma pop_decreases: "invar q \<Longrightarrow> pop q = Some (x, q') \<Longrightarrow> count q = Suc (count q')"
  using pop_Some [of q x q'] by (auto simp: count_items)

lemmas laws = invar_empty items_empty invar_push items_push pop_None count_items invar_fold items_fold

end

interpretation wq: max_queue HUndef wq_push wq_pop wq_size wq_items wq_inv
proof
  fix q :: "('k, 's::linorder) hnode" and x q'
  assume inv: "wq_inv q"
  then show "wq_inv (wq_push q x)"
    by (simp add: wq_inv_def wq_push_def merge_ordered merge_leftist)
  show "wq_items (wq_push q x) = add_mset x (wq_items q)"
    by (simp add: wq_push_def)
  show "wq_pop q = None \<longleftrightarrow> wq_items q = {#}" by (cases q) auto
  from inv show "wq_size q = size (wq_items q)" by (simp add: wq_inv_def leftist_size)
  assume "wq_pop q = Some (x, q')"
  with inv show "wq_inv q' \<and> wq_items q = add_mset x (wq_items q') \<and> (\<forall>y\<in>#wq_items q. strength y \<le> strength x)"
    by (cases q) (auto simp: wq_inv_def merge_ordered merge_leftist)
qed (simp_all add: wq_inv_def)

declare wq.laws [queue_laws]

section \<open>Properties of the queue\<close>

text \<open>the frontier queue is a priority queue: pushing adds exactly one item and removes none, popping
  an empty queue returns nothing, and popping a nonempty one returns an item of maximal strength
  together with a queue that holds exactly the other items; every operation keeps the heap order,
  the leftist shape and the cached sizes.\<close>
theorem work_queue_semantics:
  assumes "wq_inv q"
  shows "wq_inv (wq_push q x) \<and> wq_items (wq_push q x) = add_mset x (wq_items q)
    \<and> wq_size q = size (wq_items q)
    \<and> (case wq_pop q of
         None \<Rightarrow> wq_items q = {#}
       | Some (y, q') \<Rightarrow> wq_inv q' \<and> wq_items q = add_mset y (wq_items q')
           \<and> Multiset.Ball (wq_items q) (\<lambda>z. strength z \<le> strength y))"
  using assms wq.pop_Some [of q] by (auto simp: queue_laws split: option.split)

theorem work_queue_semantics_witness:
  "wq_size (wq_push HUndef \<lparr>nodeId = (1::nat), strength = (5::int), edgeOffset = None\<rparr>) = 1"
proof -
  have h: "wq_inv (wq_push HUndef \<lparr>nodeId = (1::nat), strength = (5::int), edgeOffset = None\<rparr>)"
    by (simp add: queue_laws)
  show ?thesis using work_queue_semantics [OF h] by (simp add: queue_laws)
qed

text \<open>reading an interrupted frontier through the iterator loses and duplicates nothing: it yields
  every item of the queue exactly as often as the queue holds it.\<close>
theorem work_queue_iteration: "mset (wq_iterate q) = wq_items q"
  by (simp add: wq_iterate_def drain_items)

text \<open>the right spine of the heap, which every push and pop walks, is logarithmic in the number of
  items: a queue of rank \<open>r\<close> holds at least \<open>2\<^sup>r - 1\<close> items.\<close>
theorem work_queue_rank_bound: "wq_inv q \<Longrightarrow> 2 ^ rank_of q \<le> size (wq_items q) + 1"
  using rank_bound [of q] by (simp add: wq_inv_def leftist_size)

theorem work_queue_rank_bound_witness:
  "2 ^ rank_of (HUndef :: (nat, int) hnode) \<le> size (wq_items (HUndef :: (nat, int) hnode)) + 1"
  by (rule work_queue_rank_bound) (simp add: queue_laws)

end
