(* ===== verification/MaxMinField.thy ===== *)
theory MaxMinField
  imports PersistentStringMap WorkQueue
begin

text \<open>
  \<^verbatim>\<open>packages/graph-algorithms/src/max-min-field.ts\<close>: the bottleneck solver of the recall field. A grade
  travels along an edge as the minimum of the grade and the edge strength, and a node keeps the
  maximum of what reaches it. The loop is interruptible (\<^verbatim>\<open>workLimit\<close>) and resumable (the queue is
  part of the result). Grades and queue strengths are integers (the solver clamps them); the
  relaxation itself is stated for any linear order of grades. Correctness is proved against the
  inductive specification \<open>derivable\<close>: the least set of grades closed under the edges.
\<close>

record ('k, 's) transition =
  tr_from :: 'k
  tr_to :: 'k
  tr_strength :: 's

section \<open>Outgoing edges and prepared graphs\<close>

record ('k, 's) outgoing =
  oe_length :: nat
  oe_items :: "(string, ('k, 's) transition) pnode"

definition oe_empty :: "('k, 's) outgoing" where
  "oe_empty = \<lparr>oe_length = 0, oe_items = Undef\<rparr>"

definition oe_at :: "('k, 's) outgoing \<Rightarrow> nat \<Rightarrow> ('k, 's) transition option" where
  "oe_at e offset = pm_get (oe_items e) (js_string_of_nat offset)"

definition oe_append :: "('k, 's) outgoing \<Rightarrow> ('k, 's) transition \<Rightarrow> ('k, 's) outgoing" where
  "oe_append e edge =
     \<lparr>oe_length = oe_length e + 1, oe_items = pm_with (oe_items e) (js_string_of_nat (oe_length e)) edge\<rparr>"

record ('k, 's) prepared_graph =
  pg_nodeIds :: "('k, bool) pnode"
  pg_edges :: "('k, ('k, 's) outgoing) pnode"

definition extend_edges ::
  "('k::linorder, bool) pnode \<Rightarrow> ('k, 's) transition \<Rightarrow> ('k, ('k, 's) outgoing) pnode \<Rightarrow> ('k, ('k, 's) outgoing) pnode"
where
  "extend_edges nodes edge edges =
     (if \<not> pm_has nodes (tr_from edge) \<or> \<not> pm_has nodes (tr_to edge) then edges
      else pm_with edges (tr_from edge)
        (oe_append (case pm_get edges (tr_from edge) of Some o' \<Rightarrow> o' | None \<Rightarrow> oe_empty) edge))"

definition extendMaxMinGraph ::
  "('k::linorder, 's) prepared_graph option \<Rightarrow> 'k list \<Rightarrow> ('k, 's) transition list \<Rightarrow> ('k, 's) prepared_graph"
where
  "extendMaxMinGraph prior nodeIds transitions =
     (let nodes0 = (case prior of Some g \<Rightarrow> pg_nodeIds g | None \<Rightarrow> Undef);
          edges0 = (case prior of Some g \<Rightarrow> pg_edges g | None \<Rightarrow> Undef);
          nodes = fold (\<lambda>i m. pm_with m i True) nodeIds nodes0
      in \<lparr>pg_nodeIds = nodes, pg_edges = fold (extend_edges nodes) transitions edges0\<rparr>)"

definition adjacency_step :: "('k, 's) transition \<Rightarrow> ('k \<rightharpoonup> ('k, 's) outgoing) \<Rightarrow> ('k \<rightharpoonup> ('k, 's) outgoing)" where
  "adjacency_step t edges =
     edges(tr_from t \<mapsto> oe_append (case edges (tr_from t) of Some o' \<Rightarrow> o' | None \<Rightarrow> oe_empty) t)"

definition adjacency :: "('k, 's) transition list \<Rightarrow> 'k \<rightharpoonup> ('k, 's) outgoing" where
  "adjacency transitions = fold adjacency_step transitions Map.empty"

section \<open>The relaxation loop\<close>

record ('k, 's) relax_state =
  rs_values :: "('k, 's) pnode"
  rs_heap :: "('k, 's) hnode"
  rs_changed :: "'k \<rightharpoonup> 's"
  rs_steps :: nat

text \<open>One turn of the loop body of \<^verbatim>\<open>relaxMaxMin\<close>; \<open>None\<close> when the heap is empty.\<close>

definition relax_edge ::
  "('k::linorder, 's::linorder) transition \<Rightarrow> 's \<Rightarrow> ('k, 's) relax_state \<Rightarrow> ('k, 's) relax_state"
where
  "relax_edge t cur st =
     (let new = min cur (tr_strength t); prior = pm_get (rs_values st) (tr_to t)
      in if (case prior of None \<Rightarrow> False | Some p \<Rightarrow> new \<le> p) then st
         else st\<lparr>rs_values := pm_with (rs_values st) (tr_to t) new,
                 rs_changed := (rs_changed st)(tr_to t \<mapsto> new),
                 rs_heap := wq_push (rs_heap st) \<lparr>nodeId = tr_to t, strength = new, edgeOffset = None\<rparr>\<rparr>)"

definition relax_step ::
  "('k::linorder \<rightharpoonup> ('k, 's::linorder) outgoing) \<Rightarrow> ('k, 's) relax_state \<Rightarrow> ('k, 's) relax_state option"
where
  "relax_step edges st =
     (case wq_pop (rs_heap st) of
        None \<Rightarrow> None
      | Some (current, queue) \<Rightarrow>
          (let st1 = st\<lparr>rs_heap := queue, rs_steps := rs_steps st + 1\<rparr>
           in Some (if pm_get (rs_values st) (nodeId current) \<noteq> Some (strength current) then st1
              else (let offset = (case edgeOffset current of None \<Rightarrow> 0 | Some i \<Rightarrow> i)
                    in case edges (nodeId current) of
                         None \<Rightarrow> st1
                       | Some outgoing \<Rightarrow>
                           (case oe_at outgoing offset of
                              None \<Rightarrow> st1
                            | Some t \<Rightarrow>
                                (let st2 = (if offset + 1 < oe_length outgoing
                                      then st1\<lparr>rs_heap := wq_push queue (current\<lparr>edgeOffset := Some (offset + 1)\<rparr>)\<rparr>
                                      else st1)
                                 in relax_edge t (strength current) st2))))))"

text \<open>The seeding of the heap, and the loop with and without a work limit.\<close>

definition initial_heap ::
  "('k, 's::linorder) pnode \<Rightarrow> ('k, 's) work_item list option \<Rightarrow> ('k, 's) hnode option \<Rightarrow> ('k, 's) hnode"
where
  "initial_heap values worklist retainedQueue =
     (let heap = (case retainedQueue of Some q \<Rightarrow> q | None \<Rightarrow> HUndef)
      in case worklist of
           Some xs \<Rightarrow> fold (\<lambda>x q. wq_push q x) xs heap
         | None \<Rightarrow> (case retainedQueue of
             Some _ \<Rightarrow> heap
           | None \<Rightarrow> fold (\<lambda>x q. wq_push q x)
               (map (\<lambda>(n, v). \<lparr>nodeId = n, strength = v, edgeOffset = None\<rparr>) (entries values)) heap))"

definition relaxMaxMin ::
  "('k::linorder, 's::linorder) pnode \<Rightarrow> ('k \<rightharpoonup> ('k, 's) outgoing) \<Rightarrow> ('k, 's) work_item list option \<Rightarrow>
   nat option \<Rightarrow> ('k, 's) hnode option \<Rightarrow> ('k \<rightharpoonup> 's) \<Rightarrow> ('k, 's) relax_state option"
where
  "relaxMaxMin priorValues edges worklist workLimit retainedQueue changedValues =
     (let st = \<lparr>rs_values = priorValues, rs_heap = initial_heap priorValues worklist retainedQueue,
                rs_changed = changedValues, rs_steps = 0\<rparr>
      in case workLimit of
           Some n \<Rightarrow> Some (fst (iterate (relax_step edges) n st))
         | None \<Rightarrow> exhaust (relax_step edges) st)"

section \<open>The solver\<close>

datatype 'k prior_values = PersistentPrior "('k, int) pnode" | MapPrior "('k \<times> js_number) list"

record 'k max_min_input =
  mi_nodeIds :: "'k list"
  mi_seeds :: "('k \<times> js_number) list"
  mi_transitions :: "('k, js_number) transition list"
  mi_bottom :: int
  mi_top :: js_number
  mi_priorValues :: "'k prior_values option"
  mi_worklist :: "('k, int) work_item list option"
  mi_workLimit :: "nat option"
  mi_preparedGraph :: "('k, int) prepared_graph option"
  mi_workQueue :: "('k, int) hnode option"

record 'k max_min_result =
  mr_values :: "('k, int) pnode"
  mr_changedValues :: "'k \<rightharpoonup> int"
  mr_retainedTransitions :: "('k, js_number) transition list"
  mr_remainingWorklist :: "('k, int) work_item list"
  mr_workQueue :: "('k, int) hnode"
  mr_steps :: nat
  mr_complete :: bool

definition requireIntegerTop :: "js_number \<Rightarrow> int \<Rightarrow> string + int" where
  "requireIntegerTop top_v bot_v =
     (case top_v of
        Finite q \<Rightarrow> if bot_v \<noteq> 0 \<or> \<not> js_is_integer top_v \<or> q < 0
                   then Inl ''max-min top must be a nonnegative integer with bottom 0''
                   else Inr \<lfloor>q\<rfloor>
      | _ \<Rightarrow> Inl ''max-min top must be a nonnegative integer with bottom 0'')"

definition load_prior ::
  "('k::linorder \<Rightarrow> bool) \<Rightarrow> int \<Rightarrow> int \<Rightarrow> ('k \<times> js_number) \<Rightarrow> ('k, int) pnode \<Rightarrow> ('k, int) pnode"
where
  "load_prior has bot_v top_v = (\<lambda>(n, v) values.
     if \<not> has n then values
     else (let clamped = clampInteger v bot_v top_v
           in case pm_get values n of
                None \<Rightarrow> pm_with values n clamped
              | Some c \<Rightarrow> if clamped > c then pm_with values n clamped else values))"

definition load_seed ::
  "('k::linorder \<Rightarrow> bool) \<Rightarrow> int \<Rightarrow> int \<Rightarrow> ('k \<times> js_number) \<Rightarrow> ('k, int) pnode \<times> ('k \<rightharpoonup> int) \<Rightarrow> ('k, int) pnode \<times> ('k \<rightharpoonup> int)"
where
  "load_seed has bot_v top_v = (\<lambda>(n, v) (values, changed).
     if \<not> has n then (values, changed)
     else (let grade = clampInteger v bot_v top_v
           in case pm_get values n of
                None \<Rightarrow> (pm_with values n grade, changed(n \<mapsto> grade))
              | Some c \<Rightarrow> if grade > c then (pm_with values n grade, changed(n \<mapsto> grade)) else (values, changed)))"

definition prior_base :: "('k::linorder \<Rightarrow> bool) \<Rightarrow> int \<Rightarrow> int \<Rightarrow> 'k prior_values option \<Rightarrow> ('k, int) pnode" where
  "prior_base has bot_v top_v prior =
     (case prior of
        Some (PersistentPrior m) \<Rightarrow> m
      | Some (MapPrior kvs) \<Rightarrow> fold (load_prior has bot_v top_v) kvs Undef
      | None \<Rightarrow> Undef)"

definition initialValues ::
  "('k::linorder \<Rightarrow> bool) \<Rightarrow> ('k \<times> js_number) list \<Rightarrow> int \<Rightarrow> int \<Rightarrow> 'k prior_values option \<Rightarrow> ('k, int) pnode \<times> ('k \<rightharpoonup> int)"
where
  "initialValues has seeds bot_v top_v prior =
     fold (load_seed has bot_v top_v) seeds (prior_base has bot_v top_v prior, Map.empty)"

definition legalTransitions ::
  "'k list \<Rightarrow> ('k, js_number) transition list \<Rightarrow> int \<Rightarrow> int \<Rightarrow> ('k, int) transition list"
where
  "legalTransitions nodeIds transitions bot_v top_v =
     map (\<lambda>t. \<lparr>tr_from = tr_from t, tr_to = tr_to t, tr_strength = clampInteger (tr_strength t) bot_v top_v\<rparr>)
       (filter (\<lambda>t. tr_from t \<in> set nodeIds \<and> tr_to t \<in> set nodeIds) transitions)"

text \<open>The node test and the edge lookup of a call: from the prepared graph when there is one.\<close>

definition call_has :: "'k::linorder max_min_input \<Rightarrow> 'k \<Rightarrow> bool" where
  "call_has inp = (case mi_preparedGraph inp of
     Some g \<Rightarrow> pm_has (pg_nodeIds g) | None \<Rightarrow> (\<lambda>n. n \<in> set (mi_nodeIds inp)))"

definition call_edges :: "'k::linorder max_min_input \<Rightarrow> int \<Rightarrow> 'k \<rightharpoonup> ('k, int) outgoing" where
  "call_edges inp top_v = (case mi_preparedGraph inp of
     Some g \<Rightarrow> pm_get (pg_edges g)
   | None \<Rightarrow> adjacency (legalTransitions (mi_nodeIds inp) (mi_transitions inp) (mi_bottom inp) top_v))"

definition solveMaxMinField :: "'k::linorder max_min_input \<Rightarrow> 'k max_min_result js_outcome" where
  "solveMaxMinField inp =
     (case requireIntegerTop (mi_top inp) (mi_bottom inp) of
        Inl msg \<Rightarrow> Threw msg
      | Inr top_v \<Rightarrow>
          (let (values, changed) =
                 initialValues (call_has inp) (mi_seeds inp) (mi_bottom inp) top_v (mi_priorValues inp);
               retained = (case mi_preparedGraph inp of
                   Some _ \<Rightarrow> mi_transitions inp
                 | None \<Rightarrow> map (\<lambda>t. \<lparr>tr_from = tr_from t, tr_to = tr_to t, tr_strength = Finite (of_int (tr_strength t))\<rparr>)
                     (legalTransitions (mi_nodeIds inp) (mi_transitions inp) (mi_bottom inp) top_v))
           in case relaxMaxMin values (call_edges inp top_v) (mi_worklist inp) (mi_workLimit inp) (mi_workQueue inp) changed of
                None \<Rightarrow> Diverged
              | Some st \<Rightarrow> Returned \<lparr>mr_values = rs_values st, mr_changedValues = rs_changed st,
                  mr_retainedTransitions = retained, mr_remainingWorklist = wq_iterate (rs_heap st),
                  mr_workQueue = rs_heap st, mr_steps = rs_steps st, mr_complete = (wq_size (rs_heap st) = 0)\<rparr>))"

section \<open>Well-formed edge tables\<close>

definition oe_wf :: "('k, 's) outgoing \<Rightarrow> bool" where
  "oe_wf e \<longleftrightarrow> pm_inv (oe_items e) \<and> (\<forall>i. oe_at e i = None \<longleftrightarrow> oe_length e \<le> i)"

definition edge_of :: "('k \<rightharpoonup> ('k, 's) outgoing) \<Rightarrow> 'k \<Rightarrow> ('k, 's) transition \<Rightarrow> bool" where
  "edge_of edges n t \<longleftrightarrow> (\<exists>e i. edges n = Some e \<and> oe_at e i = Some t)"

definition edges_wf :: "('k \<rightharpoonup> ('k, 's) outgoing) \<Rightarrow> bool" where
  "edges_wf edges \<longleftrightarrow> finite (dom edges) \<and> (\<forall>e \<in> ran edges. oe_wf e)"

lemma oe_wf_empty [simp]: "oe_wf oe_empty"
  by (simp add: oe_wf_def oe_empty_def oe_at_def)

lemma oe_at_empty [simp]: "oe_at oe_empty i = None"
  by (simp add: oe_empty_def oe_at_def)

lemma oe_at_append:
  "pm_inv (oe_items e) \<Longrightarrow> oe_at (oe_append e t) i = (if i = oe_length e then Some t else oe_at e i)"
  by (simp add: oe_at_def oe_append_def map_laws js_string_of_nat_inject)

lemma oe_wf_inv: "oe_wf e \<Longrightarrow> pm_inv (oe_items e)"
  and oe_wf_None: "oe_wf e \<Longrightarrow> oe_at e i = None \<longleftrightarrow> oe_length e \<le> i"
  by (simp_all add: oe_wf_def)

lemma oe_length_append [simp]: "oe_length (oe_append e t) = oe_length e + 1"
  by (simp add: oe_append_def)

lemma oe_wf_append: "oe_wf e \<Longrightarrow> oe_wf (oe_append e t)"
  unfolding oe_wf_def [of "oe_append e t"]
proof (intro conjI allI)
  assume wf: "oe_wf e"
  then show "pm_inv (oe_items (oe_append e t))"
    by (simp add: oe_append_def oe_wf_inv map_laws)
  show "oe_at (oe_append e t) i = None \<longleftrightarrow> oe_length (oe_append e t) \<le> i" for i
    using oe_wf_None [OF wf, of i] by (auto simp: oe_at_append oe_wf_inv [OF wf])
qed

lemma oe_append_range:
  assumes wf: "oe_wf e"
  shows "(\<exists>i. oe_at (oe_append e t) i = Some u) \<longleftrightarrow> u = t \<or> (\<exists>i. oe_at e i = Some u)"
proof -
  have "oe_at e (oe_length e) = None" by (simp add: oe_wf_None [OF wf])
  then have "oe_at e i = Some u \<Longrightarrow> i \<noteq> oe_length e" for i by auto
  then show ?thesis by (auto simp: oe_at_append oe_wf_inv [OF wf])
qed

lemma edges_wf_update:
  "edges_wf edges \<Longrightarrow>
   edges_wf (edges(n \<mapsto> oe_append (case edges n of Some e \<Rightarrow> e | None \<Rightarrow> oe_empty) t))"
  by (auto simp: edges_wf_def ran_def oe_wf_append split: option.split)

lemma edge_of_update:
  "edges_wf edges \<Longrightarrow>
   edge_of (edges(n \<mapsto> oe_append (case edges n of Some e \<Rightarrow> e | None \<Rightarrow> oe_empty) t)) m u
     \<longleftrightarrow> edge_of edges m u \<or> m = n \<and> u = t"
  by (cases "edges n")
    (auto simp: edge_of_def oe_append_range edges_wf_def ranI)

lemma edges_wf_empty [simp]: "edges_wf Map.empty"
  by (simp add: edges_wf_def)

lemma edges_wf_adjacency: "edges_wf (adjacency ts)"
proof -
  have "edges_wf edges \<Longrightarrow> edges_wf (fold adjacency_step ts edges)" for edges
    by (induction ts arbitrary: edges) (auto simp: adjacency_step_def edges_wf_update)
  then show ?thesis by (simp add: adjacency_def)
qed

lemma edge_of_adjacency: "edge_of (adjacency ts) n t \<longleftrightarrow> t \<in> set ts \<and> tr_from t = n"
proof -
  have "edges_wf edges \<Longrightarrow>
    edge_of (fold adjacency_step ts edges) n t \<longleftrightarrow> edge_of edges n t \<or> t \<in> set ts \<and> tr_from t = n" for edges
    by (induction ts arbitrary: edges)
      (auto simp: adjacency_step_def edges_wf_update edge_of_update)
  then show ?thesis by (simp add: adjacency_def edge_of_def [of Map.empty])
qed

lemma finite_edge_targets: "edges_wf edges \<Longrightarrow> finite {t. \<exists>n. edge_of edges n t}"
proof -
  assume wf: "edges_wf edges"
  have "{t. \<exists>n. edge_of edges n t}
    \<subseteq> (\<Union>e \<in> ran edges. (\<lambda>i. the (oe_at e i)) ` {..<oe_length e})"
  proof
    fix t assume "t \<in> {t. \<exists>n. edge_of edges n t}"
    then obtain n e i where *: "edges n = Some e" "oe_at e i = Some t" by (auto simp: edge_of_def)
    moreover from * wf have "i < oe_length e"
      by (metis edges_wf_def oe_wf_def not_le option.distinct(1) ranI)
    ultimately show "t \<in> (\<Union>e \<in> ran edges. (\<lambda>i. the (oe_at e i)) ` {..<oe_length e})"
      by (force simp: ran_def)
  qed
  moreover from wf have "finite (ran edges)" by (simp add: edges_wf_def finite_ran)
  then have "finite (\<Union>e \<in> ran edges. (\<lambda>i. the (oe_at e i)) ` {..<oe_length e})" by blast
  ultimately show ?thesis by (rule finite_subset)
qed

section \<open>Specification: the grades that can be derived\<close>

inductive derivable :: "('k \<rightharpoonup> 's::linorder) \<Rightarrow> ('k \<Rightarrow> ('k, 's) transition \<Rightarrow> bool) \<Rightarrow> 'k \<Rightarrow> 's \<Rightarrow> bool"
  for V0 :: "'k \<rightharpoonup> 's::linorder" and E :: "'k \<Rightarrow> ('k, 's) transition \<Rightarrow> bool" where
  seed: "V0 n = Some g \<Longrightarrow> derivable V0 E n g"
| step: "derivable V0 E n g \<Longrightarrow> E n t \<Longrightarrow> derivable V0 E (tr_to t) (min g (tr_strength t))"

text \<open>A value table is the field of a seeding when it holds, at every node, the largest derivable grade,
  and nothing at the nodes no grade reaches.\<close>

definition is_field :: "('k \<rightharpoonup> 's::linorder) \<Rightarrow> ('k \<Rightarrow> ('k, 's) transition \<Rightarrow> bool) \<Rightarrow> ('k \<rightharpoonup> 's) \<Rightarrow> bool" where
  "is_field V0 E V \<longleftrightarrow>
     (\<forall>n. case V n of
        None \<Rightarrow> \<not> (\<exists>g. derivable V0 E n g)
      | Some p \<Rightarrow> derivable V0 E n p \<and> (\<forall>g. derivable V0 E n g \<longrightarrow> g \<le> p))"

lemma is_field_unique: "is_field V0 E V \<Longrightarrow> is_field V0 E W \<Longrightarrow> V = W"
proof
  fix n assume "is_field V0 E V" "is_field V0 E W"
  then show "V n = W n"
    unfolding is_field_def by (cases "V n"; cases "W n") (auto dest!: spec [of _ n] intro: antisym)
qed

definition item_offset :: "('k, 's) work_item \<Rightarrow> nat" where
  "item_offset x = (case edgeOffset x of None \<Rightarrow> 0 | Some i \<Rightarrow> i)"

text \<open>The frontier invariant: an edge is either relaxed already or covered by a pending item of its
  source that carries the source's current grade and has not passed the edge yet.\<close>

definition frontier ::
  "('k \<rightharpoonup> ('k, 's::linorder) outgoing) \<Rightarrow> ('k \<rightharpoonup> 's) \<Rightarrow> ('k, 's) work_item multiset \<Rightarrow> bool"
where
  "frontier edges V Q \<longleftrightarrow> (\<forall>n g e i t. V n = Some g \<and> edges n = Some e \<and> oe_at e i = Some t \<longrightarrow>
     (\<exists>p. V (tr_to t) = Some p \<and> min g (tr_strength t) \<le> p)
     \<or> (\<exists>x \<in># Q. nodeId x = n \<and> strength x = g \<and> item_offset x \<le> i))"

definition relax_inv ::
  "('k::linorder \<rightharpoonup> ('k, 's::linorder) outgoing) \<Rightarrow> ('k \<rightharpoonup> 's) \<Rightarrow> ('k \<rightharpoonup> 's) \<Rightarrow> ('k, 's) relax_state \<Rightarrow> bool"
where
  "relax_inv edges V0 P st \<longleftrightarrow>
     edges_wf edges \<and> finite (dom V0) \<and> pm_inv (rs_values st) \<and> wq_inv (rs_heap st)
     \<and> frontier edges (pm_get (rs_values st)) (wq_items (rs_heap st))
     \<and> (\<forall>n g. pm_get (rs_values st) n = Some g \<longrightarrow> derivable V0 (edge_of edges) n g)
     \<and> (\<forall>n g. V0 n = Some g \<longrightarrow> (\<exists>p. pm_get (rs_values st) n = Some p \<and> g \<le> p))
     \<and> pm_get (rs_values st) = P ++ rs_changed st"

lemma relax_inv_field:
  assumes inv: "relax_inv edges V0 P st" and fin: "wq_items (rs_heap st) = {#}"
  shows "is_field V0 (edge_of edges) (pm_get (rs_values st))"
proof -
  let ?V = "pm_get (rs_values st)"
  have closed: "?V n = Some g \<Longrightarrow> edge_of edges n t \<Longrightarrow>
      \<exists>p. ?V (tr_to t) = Some p \<and> min g (tr_strength t) \<le> p" for n g t
    using inv fin unfolding relax_inv_def frontier_def edge_of_def by fastforce
  have above: "derivable V0 (edge_of edges) n g \<Longrightarrow> \<exists>p. ?V n = Some p \<and> g \<le> p" for n g
  proof (induction rule: derivable.induct)
    case (seed n g)
    with inv show ?case by (auto simp: relax_inv_def)
  next
    case (step n g t)
    then obtain p where p: "?V n = Some p" "g \<le> p" by blast
    with closed [OF p(1) step(2)] show ?case by (fastforce simp: min_le_iff_disj)
  qed
  have sound: "?V n = Some p \<Longrightarrow> derivable V0 (edge_of edges) n p" for n p
    using inv by (auto simp: relax_inv_def)
  show ?thesis
    unfolding is_field_def using above sound by (fastforce split: option.split)
qed

section \<open>One turn of the loop\<close>

lemma frontierI:
  assumes "\<And>n g e i t. V n = Some g \<Longrightarrow> edges n = Some e \<Longrightarrow> oe_at e i = Some t \<Longrightarrow>
    \<not> (\<exists>p. V (tr_to t) = Some p \<and> min g (tr_strength t) \<le> p) \<Longrightarrow>
    \<exists>x \<in># Q. nodeId x = n \<and> strength x = g \<and> item_offset x \<le> i"
  shows "frontier edges V Q"
  using assms unfolding frontier_def by blast

lemma frontierD:
  assumes "frontier edges V Q" "V n = Some g" "edges n = Some e" "oe_at e i = Some t"
    "\<not> (\<exists>p. V (tr_to t) = Some p \<and> min g (tr_strength t) \<le> p)"
  obtains x where "x \<in># Q" "nodeId x = n" "strength x = g" "item_offset x \<le> i"
  using assms unfolding frontier_def by blast

lemma frontier_drop_stale:
  assumes fr: "frontier edges V (add_mset x Q)" and stale: "V (nodeId x) \<noteq> Some (strength x)"
  shows "frontier edges V Q"
proof (rule frontierI)
  fix n g e i t
  assume a: "V n = Some g" "edges n = Some e" "oe_at e i = Some t"
    "\<not> (\<exists>p. V (tr_to t) = Some p \<and> min g (tr_strength t) \<le> p)"
  from frontierD [OF fr a] obtain y where y: "y \<in># add_mset x Q" "nodeId y = n" "strength y = g" "item_offset y \<le> i" .
  with a stale have "y \<noteq> x" by auto
  with y show "\<exists>x \<in># Q. nodeId x = n \<and> strength x = g \<and> item_offset x \<le> i" by auto
qed

lemma frontier_drop_finished:
  assumes fr: "frontier edges V (add_mset x Q)"
    and fin: "\<And>e i. edges (nodeId x) = Some e \<Longrightarrow> item_offset x \<le> i \<Longrightarrow> oe_at e i = None"
  shows "frontier edges V Q"
proof (rule frontierI)
  fix n g e i t
  assume a: "V n = Some g" "edges n = Some e" "oe_at e i = Some t"
    "\<not> (\<exists>p. V (tr_to t) = Some p \<and> min g (tr_strength t) \<le> p)"
  from frontierD [OF fr a] obtain y where y: "y \<in># add_mset x Q" "nodeId y = n" "strength y = g" "item_offset y \<le> i" .
  with a fin have "y \<noteq> x" by fastforce
  with y show "\<exists>x \<in># Q. nodeId x = n \<and> strength x = g \<and> item_offset x \<le> i" by auto
qed

text \<open>Advancing an item past one edge keeps everything covered but that edge.\<close>

lemma frontier_advance:
  assumes fr: "frontier edges V (add_mset x Q)" and wf: "edges_wf edges"
    and x: "edges (nodeId x) = Some e" "oe_at e (item_offset x) = Some t"
    and Q1: "item_offset x + 1 < oe_length e \<Longrightarrow> x\<lparr>edgeOffset := Some (item_offset x + 1)\<rparr> \<in># Q1"
      "\<And>y. y \<in># Q \<Longrightarrow> y \<in># Q1"
    and a: "V n = Some g" "edges n = Some e'" "oe_at e' i = Some u"
      "\<not> (\<exists>p. V (tr_to u) = Some p \<and> min g (tr_strength u) \<le> p)"
    and other: "\<not> (n = nodeId x \<and> g = strength x \<and> u = t)"
  shows "\<exists>y \<in># Q1. nodeId y = n \<and> strength y = g \<and> item_offset y \<le> i"
proof -
  from frontierD [OF fr a] obtain y where
    y: "y \<in># add_mset x Q" "nodeId y = n" "strength y = g" "item_offset y \<le> i" .
  show ?thesis
  proof (cases "y \<in># Q")
    case True
    with y Q1(2) show ?thesis by blast
  next
    case False
    with y have [simp]: "y = x" by simp
    from y a x have e': "e' = e" by auto
    with y x a other have lt: "item_offset x < i" by (cases "item_offset x = i") auto
    have "i < oe_length e"
      using wf a e' by (metis edges_wf_def oe_wf_None not_le option.distinct(1) ranI)
    with lt Q1(1) have "x\<lparr>edgeOffset := Some (item_offset x + 1)\<rparr> \<in># Q1" by simp
    with lt y show ?thesis by (intro bexI) (auto simp: item_offset_def)
  qed
qed

lemma frontier_relaxed:
  assumes fr: "frontier edges V (add_mset x Q)" and wf: "edges_wf edges"
    and x: "edges (nodeId x) = Some e" "oe_at e (item_offset x) = Some t"
    and Q1: "item_offset x + 1 < oe_length e \<Longrightarrow> x\<lparr>edgeOffset := Some (item_offset x + 1)\<rparr> \<in># Q1"
      "\<And>y. y \<in># Q \<Longrightarrow> y \<in># Q1"
    and rel: "V (tr_to t) = Some p" "min (strength x) (tr_strength t) \<le> p"
  shows "frontier edges V Q1"
  by (rule frontierI, rule frontier_advance [OF fr wf x Q1]) (use rel in auto)

lemma frontier_raise:
  assumes fr: "frontier edges V (add_mset x Q)" and wf: "edges_wf edges"
    and x: "edges (nodeId x) = Some e" "oe_at e (item_offset x) = Some t"
    and Q1: "item_offset x + 1 < oe_length e \<Longrightarrow> x\<lparr>edgeOffset := Some (item_offset x + 1)\<rparr> \<in># Q1"
      "\<And>y. y \<in># Q \<Longrightarrow> y \<in># Q1"
    and up: "\<And>p. V (tr_to t) = Some p \<Longrightarrow> p < new" and new: "new = min (strength x) (tr_strength t)"
  shows "frontier edges (V(tr_to t \<mapsto> new)) (add_mset \<lparr>nodeId = tr_to t, strength = new, edgeOffset = None\<rparr> Q1)"
proof (rule frontierI)
  let ?V = "V(tr_to t \<mapsto> new)"
  fix n g e' i u
  assume a: "?V n = Some g" "edges n = Some e'" "oe_at e' i = Some u"
    and open': "\<not> (\<exists>p. ?V (tr_to u) = Some p \<and> min g (tr_strength u) \<le> p)"
  show "\<exists>y \<in># add_mset \<lparr>nodeId = tr_to t, strength = new, edgeOffset = None\<rparr> Q1.
      nodeId y = n \<and> strength y = g \<and> item_offset y \<le> i"
  proof (cases "n = tr_to t")
    case True
    with a show ?thesis by (auto simp: item_offset_def)
  next
    case False
    with a have Vn: "V n = Some g" by simp
    from open' have nr: "\<not> (\<exists>p. V (tr_to u) = Some p \<and> min g (tr_strength u) \<le> p)"
      using up by (auto split: if_splits dest: order.strict_trans1)
    from open' new have ot: "\<not> (n = nodeId x \<and> g = strength x \<and> u = t)" by auto
    have "\<exists>y \<in># Q1. nodeId y = n \<and> strength y = g \<and> item_offset y \<le> i"
      by (rule frontier_advance [OF fr wf x _ _ Vn a(2,3) nr ot]) (use Q1 in blast)+
    then show ?thesis by auto
  qed
qed

text \<open>What a turn does, by cases: it drops a stale or finished item, or it advances an item past one
  edge and raises the target when the edge improves it.\<close>

definition advanced :: "('k, 's::linorder) work_item \<Rightarrow> ('k, 's) outgoing \<Rightarrow> ('k, 's) hnode \<Rightarrow> ('k, 's) hnode" where
  "advanced x e q = (if item_offset x + 1 < oe_length e
     then wq_push q (x\<lparr>edgeOffset := Some (item_offset x + 1)\<rparr>) else q)"

lemma relax_step_cases:
  assumes "relax_step edges st = Some st'"
  obtains
    (drop) x q where "wq_pop (rs_heap st) = Some (x, q)"
      "pm_get (rs_values st) (nodeId x) \<noteq> Some (strength x)
        \<or> edges (nodeId x) = None \<or> (\<exists>e. edges (nodeId x) = Some e \<and> oe_at e (item_offset x) = None)"
      "st' = st\<lparr>rs_heap := q, rs_steps := rs_steps st + 1\<rparr>"
  | (relaxed) x q e t p where "wq_pop (rs_heap st) = Some (x, q)"
      "pm_get (rs_values st) (nodeId x) = Some (strength x)"
      "edges (nodeId x) = Some e" "oe_at e (item_offset x) = Some t"
      "pm_get (rs_values st) (tr_to t) = Some p" "min (strength x) (tr_strength t) \<le> p"
      "st' = st\<lparr>rs_heap := advanced x e q, rs_steps := rs_steps st + 1\<rparr>"
  | (raise) x q e t new where "wq_pop (rs_heap st) = Some (x, q)"
      "pm_get (rs_values st) (nodeId x) = Some (strength x)"
      "edges (nodeId x) = Some e" "oe_at e (item_offset x) = Some t"
      "\<And>p. pm_get (rs_values st) (tr_to t) = Some p \<Longrightarrow> p < new" "new = min (strength x) (tr_strength t)"
      "st' = \<lparr>rs_values = pm_with (rs_values st) (tr_to t) new,
         rs_heap = wq_push (advanced x e q) \<lparr>nodeId = tr_to t, strength = new, edgeOffset = None\<rparr>,
         rs_changed = (rs_changed st)(tr_to t \<mapsto> new), rs_steps = rs_steps st + 1\<rparr>"
proof -
  from assms obtain x q where pop: "wq_pop (rs_heap st) = Some (x, q)"
    by (auto simp: relax_step_def split: option.splits)
  let ?st1 = "st\<lparr>rs_heap := q, rs_steps := rs_steps st + 1\<rparr>"
  show thesis
  proof (cases "pm_get (rs_values st) (nodeId x) = Some (strength x)
      \<and> (\<exists>e t. edges (nodeId x) = Some e \<and> oe_at e (item_offset x) = Some t)")
    case False
    then have "st' = ?st1" using assms pop
      by (auto simp: relax_step_def Let_def item_offset_def split: if_splits option.splits)
    with False pop show ?thesis by (intro drop [of x q]) auto
  next
    case True
    then obtain e t where cur: "pm_get (rs_values st) (nodeId x) = Some (strength x)"
      and e: "edges (nodeId x) = Some e" and t: "oe_at e (item_offset x) = Some t" by blast
    have st': "st' = relax_edge t (strength x) (st\<lparr>rs_heap := advanced x e q, rs_steps := rs_steps st + 1\<rparr>)"
      using assms pop cur e t
      by (cases st) (auto simp: relax_step_def Let_def item_offset_def advanced_def split: if_splits option.splits)
    show ?thesis
    proof (cases "\<exists>p. pm_get (rs_values st) (tr_to t) = Some p \<and> min (strength x) (tr_strength t) \<le> p")
      case True
      then obtain p where p: "pm_get (rs_values st) (tr_to t) = Some p" "min (strength x) (tr_strength t) \<le> p"
        by blast
      with st' show ?thesis by (intro relaxed [OF pop cur e t p]) (simp add: relax_edge_def Let_def)
    next
      case False
      have up: "p < min (strength x) (tr_strength t)" if "pm_get (rs_values st) (tr_to t) = Some p" for p
        using False that by (meson not_le)
      with st' show ?thesis
        by (intro raise [OF pop cur e t up refl])
          (auto simp: relax_edge_def Let_def simp del: min_less_iff_conj split: option.splits)
    qed
  qed
qed

section \<open>The loop ends\<close>

definition all_strengths :: "('k \<rightharpoonup> ('k, 's) outgoing) \<Rightarrow> ('k \<rightharpoonup> 's) \<Rightarrow> 's set" where
  "all_strengths edges V0 = ran V0 \<union> tr_strength ` {t. \<exists>n. edge_of edges n t}"

definition all_nodes :: "('k \<rightharpoonup> ('k, 's) outgoing) \<Rightarrow> ('k \<rightharpoonup> 's) \<Rightarrow> 'k set" where
  "all_nodes edges V0 = dom V0 \<union> tr_to ` {t. \<exists>n. edge_of edges n t}"

definition headroom :: "'s::linorder set \<Rightarrow> 's option \<Rightarrow> nat" where
  "headroom S v = (case v of None \<Rightarrow> card S + 1 | Some g \<Rightarrow> card {s \<in> S. g < s})"

definition potential :: "('k \<rightharpoonup> ('k, 's::linorder) outgoing) \<Rightarrow> ('k \<rightharpoonup> 's) \<Rightarrow> ('k \<rightharpoonup> 's) \<Rightarrow> nat" where
  "potential edges V0 V = (\<Sum>n \<in> all_nodes edges V0. headroom (all_strengths edges V0) (V n))"

definition item_work :: "('k \<rightharpoonup> ('k, 's) outgoing) \<Rightarrow> ('k, 's) work_item \<Rightarrow> nat" where
  "item_work edges x = 1 + (case edges (nodeId x) of None \<Rightarrow> 0 | Some e \<Rightarrow> oe_length e - item_offset x)"

definition relax_rank ::
  "('k::linorder \<rightharpoonup> ('k, 's::linorder) outgoing) \<Rightarrow> ('k \<rightharpoonup> 's) \<Rightarrow> (('k, 's) relax_state \<times> ('k, 's) relax_state) set"
where
  "relax_rank edges V0 = measures [\<lambda>st. potential edges V0 (pm_get (rs_values st)),
     \<lambda>st. \<Sum>x \<in># wq_items (rs_heap st). item_work edges x]"

lemma finite_all: "edges_wf edges \<Longrightarrow> finite (dom V0) \<Longrightarrow>
    finite (all_strengths edges V0) \<and> finite (all_nodes edges V0)"
  by (simp add: all_strengths_def all_nodes_def finite_edge_targets finite_ran)

lemma derivable_in:
  "derivable V0 (edge_of edges) n g \<Longrightarrow> n \<in> all_nodes edges V0 \<and> g \<in> all_strengths edges V0"
proof (induction rule: derivable.induct)
  case (step n g t)
  then show ?case by (cases "g \<le> tr_strength t") (auto simp: all_strengths_def all_nodes_def min_def)
qed (auto simp: all_strengths_def all_nodes_def ranI)

lemma headroom_less:
  assumes "finite S" "new \<in> S" "\<And>p. v = Some p \<Longrightarrow> p < new"
  shows "headroom S (Some new) < headroom S v"
proof (cases v)
  case None
  have "card {s \<in> S. new < s} \<le> card S" using assms(1) by (intro card_mono) auto
  with None show ?thesis by (simp add: headroom_def)
next
  case (Some p)
  with assms have "{s \<in> S. new < s} \<subset> {s \<in> S. p < s}" by (auto intro: order.strict_trans)
  with Some assms(1) show ?thesis by (simp add: headroom_def psubset_card_mono)
qed

lemma potential_raise:
  assumes "finite (all_strengths edges V0)" "finite (all_nodes edges V0)"
    and "m \<in> all_nodes edges V0" "new \<in> all_strengths edges V0" "\<And>p. V m = Some p \<Longrightarrow> p < new"
  shows "potential edges V0 (V(m \<mapsto> new)) < potential edges V0 V"
  unfolding potential_def
proof (rule sum_strict_mono_ex1)
  show "\<forall>n\<in>all_nodes edges V0. headroom (all_strengths edges V0) ((V(m \<mapsto> new)) n)
      \<le> headroom (all_strengths edges V0) (V n)"
    using headroom_less [OF assms(1,4), of "V m"] assms(5) by (auto intro: less_imp_le)
  show "\<exists>n\<in>all_nodes edges V0. headroom (all_strengths edges V0) ((V(m \<mapsto> new)) n)
      < headroom (all_strengths edges V0) (V n)"
    using headroom_less [OF assms(1,4), of "V m"] assms(3,5) by (intro bexI [of _ m]) auto
qed (fact assms)

lemma advanced_items:
  assumes "wq_inv q"
  shows "wq_inv (advanced x e q)"
    and "item_offset x + 1 < oe_length e \<Longrightarrow> x\<lparr>edgeOffset := Some (item_offset x + 1)\<rparr> \<in># wq_items (advanced x e q)"
    and "y \<in># wq_items q \<Longrightarrow> y \<in># wq_items (advanced x e q)"
  using assms by (auto simp: advanced_def queue_laws)

lemma advanced_work:
  assumes "wq_inv q" "edges (nodeId x) = Some e" "oe_wf e" "oe_at e (item_offset x) \<noteq> None"
  shows "(\<Sum>y \<in># wq_items (advanced x e q). item_work edges y)
    < (\<Sum>y \<in># add_mset x (wq_items q). item_work edges y)"
proof -
  have "item_offset x < oe_length e" using assms(3,4) oe_wf_None by (metis not_le)
  with assms(1,2) show ?thesis by (auto simp: advanced_def queue_laws item_work_def item_offset_def)
qed

lemma relax_step_inv:
  assumes inv: "relax_inv edges V0 P st" and step: "relax_step edges st = Some st'"
  shows "relax_inv edges V0 P st' \<and> (st', st) \<in> relax_rank edges V0"
proof -
  have wf: "edges_wf edges" and fd: "finite (dom V0)" and pm: "pm_inv (rs_values st)" and wq: "wq_inv (rs_heap st)"
    and fr: "frontier edges (pm_get (rs_values st)) (wq_items (rs_heap st))"
    and sound: "\<And>n g. pm_get (rs_values st) n = Some g \<Longrightarrow> derivable V0 (edge_of edges) n g"
    and above: "\<And>n g. V0 n = Some g \<Longrightarrow> \<exists>p. pm_get (rs_values st) n = Some p \<and> g \<le> p"
    and ch: "pm_get (rs_values st) = P ++ rs_changed st"
    using inv by (auto simp: relax_inv_def)
  have ewf: "edges n = Some e \<Longrightarrow> oe_wf e" for n e using wf by (auto simp: edges_wf_def ranI)
  from step show ?thesis
  proof (cases rule: relax_step_cases)
    case (drop x q)
    from wq.pop_Some [OF wq drop(1)] have q: "wq_inv q" "wq_items (rs_heap st) = add_mset x (wq_items q)" by auto
    have fin: "oe_at e i = None"
      if "pm_get (rs_values st) (nodeId x) = Some (strength x)" "edges (nodeId x) = Some e" "item_offset x \<le> i" for e i
      using that drop(2) oe_wf_None [OF ewf [OF that(2)]] by fastforce
    then have "frontier edges (pm_get (rs_values st)) (wq_items q)"
      using fr q frontier_drop_stale frontier_drop_finished by metis
    with drop(3) q wf fd pm sound above ch show ?thesis
      by (auto simp: relax_inv_def relax_rank_def item_work_def)
  next
    case (relaxed x q e t p)
    from wq.pop_Some [OF wq relaxed(1)] have q: "wq_inv q" "wq_items (rs_heap st) = add_mset x (wq_items q)" by auto
    note adv = advanced_items [OF q(1), where x = x and e = e]
    have "frontier edges (pm_get (rs_values st)) (wq_items (advanced x e q))"
      by (rule frontier_relaxed [OF fr [unfolded q(2)] wf relaxed(3,4)]) (use relaxed(5,6) adv in auto)
    moreover have "(\<Sum>y \<in># wq_items (advanced x e q). item_work edges y)
        < (\<Sum>y \<in># wq_items (rs_heap st). item_work edges y)"
      unfolding q(2) by (rule advanced_work) (use q relaxed ewf in auto)
    ultimately show ?thesis using relaxed(7) wf fd pm sound above ch adv(1)
      by (auto simp: relax_inv_def relax_rank_def)
  next
    case (raise x q e t new)
    from wq.pop_Some [OF wq raise(1)] have q: "wq_inv q" "wq_items (rs_heap st) = add_mset x (wq_items q)" by auto
    note adv = advanced_items [OF q(1), where x = x and e = e]
    let ?V = "(pm_get (rs_values st))(tr_to t \<mapsto> new)"
    have V': "pm_get (rs_values st') = ?V" using raise(7) pm by (simp add: map_laws fun_eq_iff)
    have der: "derivable V0 (edge_of edges) (tr_to t) new"
      unfolding raise(6) using sound [OF raise(2)] raise(3,4)
      by (intro derivable.step) (auto simp: edge_of_def)
    have "frontier edges ?V (add_mset \<lparr>nodeId = tr_to t, strength = new, edgeOffset = None\<rparr> (wq_items (advanced x e q)))"
      by (rule frontier_raise [OF fr [unfolded q(2)] wf raise(3,4)]) (use raise(5,6) adv in auto)
    moreover have "potential edges V0 ?V < potential edges V0 (pm_get (rs_values st))"
      using finite_all [OF wf fd] derivable_in [OF der] raise(5) by (intro potential_raise) auto
    moreover have "\<exists>p. ?V n = Some p \<and> g \<le> p" if "V0 n = Some g" for n g
      using above [OF that] raise(5) by (auto intro: less_imp_le order_trans)
    moreover have "?V = P ++ (rs_changed st)(tr_to t \<mapsto> new)" by (simp add: ch)
    moreover have "derivable V0 (edge_of edges) n g" if "?V n = Some g" for n g
      using that sound der by (auto split: if_splits)
    ultimately show ?thesis using raise(7) wf fd pm adv(1)
      by (auto simp: relax_inv_def relax_rank_def map_laws queue_laws V' [unfolded raise(7), simplified])
  qed
qed

interpretation relax: bounded_stepper "relax_step edges" "relax_inv edges V0 P" "relax_rank edges V0"
  for edges V0 P
  by unfold_locales (use relax_step_inv in \<open>blast+\<close>, simp add: relax_rank_def)

section \<open>From the loop to the solver\<close>

lemma relax_step_steps: "relax_step edges st = Some st' \<Longrightarrow> rs_steps st' = Suc (rs_steps st)"
  by (erule relax_step_cases) auto

lemma iterate_relax_steps:
  "rs_steps (fst (iterate (relax_step edges) n st)) = rs_steps st + snd (iterate (relax_step edges) n st)"
  by (induction n arbitrary: st) (auto simp: relax_step_steps split: option.split)

lemma relax_step_None: "wq_inv (rs_heap st) \<Longrightarrow> relax_step edges st = None \<longleftrightarrow> wq_items (rs_heap st) = {#}"
  using wq.pop_None [of "rs_heap st"] by (auto simp: relax_step_def Let_def split: option.split)

lemma initial_heap_fresh:
  assumes "pm_inv values"
  shows "wq_inv (initial_heap values None None)"
    and "x \<in># wq_items (initial_heap values None None) \<longleftrightarrow>
      pm_get values (nodeId x) = Some (strength x) \<and> edgeOffset x = None"
  using assms pm.set_items [OF assms]
  by (auto simp: initial_heap_def queue_laws image_iff) (metis work_item.surjective unit.exhaust)

lemma relax_inv_fresh:
  assumes "pm_inv values" "edges_wf edges" "pm_get values = P ++ changed"
  shows "relax_inv edges (pm_get values) P
    \<lparr>rs_values = values, rs_heap = initial_heap values None None, rs_changed = changed, rs_steps = k\<rparr>"
proof -
  have "frontier edges (pm_get values) (wq_items (initial_heap values None None))"
  proof (rule frontierI)
    fix n g e i t assume "pm_get values n = Some g"
    with assms(1) show "\<exists>x \<in># wq_items (initial_heap values None None). nodeId x = n \<and> strength x = g \<and> item_offset x \<le> i"
      by (intro bexI [of _ "\<lparr>nodeId = n, strength = g, edgeOffset = None\<rparr>"])
        (auto simp: initial_heap_fresh item_offset_def)
  qed
  moreover have "finite (dom (pm_get values))"
    using pm.finite_dom [OF assms(1)] by (simp add: dom_def)
  ultimately show ?thesis
    using assms(1,2) by (simp add: relax_inv_def initial_heap_fresh(1) derivable.seed assms(3) [symmetric])
qed

text \<open>Resuming: the values and the queue of an interrupted state, with fresh change and step records.\<close>

lemma relax_inv_resume:
  assumes "relax_inv edges V0 P st"
  shows "relax_inv edges V0 (pm_get (rs_values st))
    \<lparr>rs_values = rs_values st, rs_heap = rs_heap st, rs_changed = Map.empty, rs_steps = k\<rparr>"
  using assms unfolding relax_inv_def by auto

lemma exhaust_field:
  assumes "relax_inv edges V0 P st"
  shows "\<exists>st'. exhaust (relax_step edges) st = Some st' \<and> wq_items (rs_heap st') = {#} \<and> relax_inv edges V0 P st'
    \<and> is_field V0 (edge_of edges) (pm_get (rs_values st'))"
proof -
  from relax.exhaust_total [OF assms] obtain st' where
    st': "exhaust (relax_step edges) st = Some st'" "relax_step edges st' = None" "relax_inv edges V0 P st'"
    by blast
  then have "wq_items (rs_heap st') = {#}" using relax_step_None by (auto simp: relax_inv_def)
  with st' relax_inv_field show ?thesis by blast
qed

lemma pm_inv_load_prior: "pm_inv m \<Longrightarrow> pm_inv (load_prior has b t kv m)"
  by (cases kv) (auto simp: load_prior_def Let_def map_laws split: option.split)

definition prior_ok :: "'k::linorder prior_values option \<Rightarrow> bool" where
  "prior_ok prior = (case prior of Some (PersistentPrior m) \<Rightarrow> pm_inv m | _ \<Rightarrow> True)"

lemma pm_inv_prior_base: "prior_ok prior \<Longrightarrow> pm_inv (prior_base has b t prior)"
proof -
  have "pm_inv m \<Longrightarrow> pm_inv (fold (load_prior has b t) kvs m)" for kvs m
    by (induction kvs arbitrary: m) (auto simp: pm_inv_load_prior)
  then show "prior_ok prior \<Longrightarrow> ?thesis"
    by (auto simp: prior_ok_def prior_base_def split: option.splits prior_values.splits)
qed

lemma initialValues_inv:
  assumes "prior_ok prior"
  shows "pm_inv (fst (initialValues has seeds b t prior))
    \<and> pm_get (fst (initialValues has seeds b t prior))
        = pm_get (prior_base has b t prior) ++ snd (initialValues has seeds b t prior)"
proof -
  let ?P = "pm_get (prior_base has b t prior)"
  have "pm_inv (fst s) \<and> pm_get (fst s) = ?P ++ snd s \<Longrightarrow>
    pm_inv (fst (fold (load_seed has b t) seeds s)) \<and>
    pm_get (fst (fold (load_seed has b t) seeds s)) = ?P ++ snd (fold (load_seed has b t) seeds s)" for s
  proof (induction seeds arbitrary: s)
    case (Cons kv seeds)
    obtain n v where kv: "kv = (n, v)" by (cases kv)
    obtain m c where s: "s = (m, c)" by (cases s)
    have upd: "pm_get (pm_with m n g) = (pm_get m)(n \<mapsto> g)" for g
      using Cons.prems s by (auto simp: map_laws fun_eq_iff)
    have "pm_inv (fst (load_seed has b t kv s)) \<and> pm_get (fst (load_seed has b t kv s)) = ?P ++ snd (load_seed has b t kv s)"
      using Cons.prems s kv upd by (auto simp: load_seed_def Let_def map_laws split: option.split)
    with Cons.IH show ?case by simp
  qed simp
  with pm_inv_prior_base [OF assms, of has b t] show ?thesis by (simp add: initialValues_def)
qed

text \<open>Without prior values, the initial table is the clamped seed map restricted to the known nodes.\<close>

lemma load_seed_new:
  "pm_get m x = None \<Longrightarrow> load_seed has b t (x, v) (m, c) =
    (if has x then (pm_with m x (clampInteger v b t), c(x \<mapsto> clampInteger v b t)) else (m, c))"
  by (simp add: load_seed_def Let_def)

lemma fold_load_seed:
  "pm_inv m \<Longrightarrow> distinct (map fst seeds) \<Longrightarrow> (\<forall>x \<in> fst ` set seeds. pm_get m x = None) \<Longrightarrow>
    pm_get (fst (fold (load_seed has b t) seeds (m, c))) n =
      (case map_of seeds n of Some v \<Rightarrow> if has n then Some (clampInteger v b t) else pm_get m n | None \<Rightarrow> pm_get m n)"
proof (induction seeds arbitrary: m c)
  case (Cons kv seeds)
  obtain x v where kv: "kv = (x, v)" by (cases kv)
  from Cons.prems kv have x: "x \<notin> fst ` set seeds" "pm_get m x = None" by auto
  have "\<forall>y \<in> fst ` set seeds. pm_get (pm_with m x g) y = None" for g
    using Cons.prems x by (auto simp: map_laws)
  with Cons x kv show ?case
    by (auto simp: load_seed_new map_laws map_of_eq_None_iff [symmetric] split: option.splits)
qed simp

lemma initialValues_seeds:
  assumes "distinct (map fst seeds)"
  shows "pm_get (fst (initialValues has seeds b t None)) n =
    (if has n then map_option (\<lambda>v. clampInteger v b t) (map_of seeds n) else None)"
  using fold_load_seed [of Undef seeds has b t Map.empty n] assms
  by (auto simp: initialValues_def prior_base_def split: option.split)

lemma requireIntegerTop_Inr:
  "requireIntegerTop top_v bot_v = Inr T \<longleftrightarrow> bot_v = 0 \<and> 0 \<le> T \<and> top_v = Finite (of_int T)"
  by (cases top_v) (auto simp: requireIntegerTop_def)

lemma derivable_bounds:
  assumes "derivable V0 E n g" "\<And>n g. V0 n = Some g \<Longrightarrow> lo \<le> g \<and> g \<le> hi"
    and "\<And>n t. E n t \<Longrightarrow> lo \<le> tr_strength t"
  shows "lo \<le> g \<and> g \<le> hi"
  using assms(1) by (induction rule: derivable.induct) (use assms(2,3) in \<open>auto intro: min.coboundedI1\<close>)

lemma solve_fresh:
  assumes "requireIntegerTop (mi_top inp) (mi_bottom inp) = Inr T" "prior_ok (mi_priorValues inp)"
    and "edges_wf (call_edges inp T)" "mi_worklist inp = None" "mi_workLimit inp = None" "mi_workQueue inp = None"
  shows "\<exists>r. solveMaxMinField inp = Returned r \<and> mr_complete r \<and> mr_remainingWorklist r = []
    \<and> is_field (pm_get (fst (initialValues (call_has inp) (mi_seeds inp) (mi_bottom inp) T (mi_priorValues inp))))
        (edge_of (call_edges inp T)) (pm_get (mr_values r))
    \<and> pm_get (mr_values r) = pm_get (prior_base (call_has inp) (mi_bottom inp) T (mi_priorValues inp)) ++ mr_changedValues r
    \<and> pm_inv (mr_values r)"
proof -
  obtain vals changed where iv:
    "initialValues (call_has inp) (mi_seeds inp) (mi_bottom inp) T (mi_priorValues inp) = (vals, changed)"
    by (meson surj_pair)
  let ?P = "pm_get (prior_base (call_has inp) (mi_bottom inp) T (mi_priorValues inp))"
  from initialValues_inv [OF assms(2), of "call_has inp" "mi_seeds inp" "mi_bottom inp" T] iv
  have "pm_inv vals" "pm_get vals = ?P ++ changed" by auto
  from exhaust_field [OF relax_inv_fresh [OF this(1) assms(3) this(2), of 0]] obtain st where
    st: "exhaust (relax_step (call_edges inp T))
      \<lparr>rs_values = vals, rs_heap = initial_heap vals None None, rs_changed = changed, rs_steps = 0\<rparr> = Some st"
    "wq_items (rs_heap st) = {#}" "relax_inv (call_edges inp T) (pm_get vals) ?P st"
    "is_field (pm_get vals) (edge_of (call_edges inp T)) (pm_get (rs_values st))"
    by blast
  from st(2) have "mset (wq_iterate (rs_heap st)) = {#}" by (simp add: wq_iterate_def drain_items)
  moreover from st(2,3) have "wq_size (rs_heap st) = 0" by (simp add: relax_inv_def queue_laws)
  ultimately show ?thesis using st assms iv
    by (simp add: solveMaxMinField_def relaxMaxMin_def relax_inv_def)
qed

section \<open>Properties of the solver\<close>

lemma solve_plain:
  assumes "requireIntegerTop (mi_top inp) (mi_bottom inp) = Inr T"
    and "mi_priorValues inp = None" "mi_preparedGraph inp = None" "mi_worklist inp = None"
      "mi_workLimit inp = None" "mi_workQueue inp = None" "distinct (map fst (mi_seeds inp))"
  shows "\<exists>r. solveMaxMinField inp = Returned r \<and> mr_complete r \<and> mr_remainingWorklist r = []
    \<and> is_field (\<lambda>n. if n \<in> set (mi_nodeIds inp)
          then map_option (\<lambda>v. clampInteger v 0 T) (map_of (mi_seeds inp) n) else None)
        (\<lambda>n t. t \<in> set (legalTransitions (mi_nodeIds inp) (mi_transitions inp) 0 T) \<and> tr_from t = n)
        (pm_get (mr_values r)) \<and> pm_inv (mr_values r)"
proof -
  have b: "mi_bottom inp = 0" using assms(1) by (simp add: requireIntegerTop_Inr)
  have e: "call_edges inp T = adjacency (legalTransitions (mi_nodeIds inp) (mi_transitions inp) 0 T)"
    by (simp add: call_edges_def assms(3) b)
  have h: "call_has inp = (\<lambda>n. n \<in> set (mi_nodeIds inp))" by (simp add: call_has_def assms(3))
  have edge: "edge_of (call_edges inp T) =
      (\<lambda>n t. t \<in> set (legalTransitions (mi_nodeIds inp) (mi_transitions inp) 0 T) \<and> tr_from t = n)"
    by (simp add: e edge_of_adjacency fun_eq_iff)
  have seeds: "pm_get (fst (initialValues (call_has inp) (mi_seeds inp) (mi_bottom inp) T (mi_priorValues inp))) =
      (\<lambda>n. if n \<in> set (mi_nodeIds inp) then map_option (\<lambda>v. clampInteger v 0 T) (map_of (mi_seeds inp) n) else None)"
    by (simp add: fun_eq_iff assms(2) h b initialValues_seeds [OF assms(7)])
  have "prior_ok (mi_priorValues inp)" "edges_wf (call_edges inp T)"
    by (simp_all add: assms(2) prior_ok_def e edges_wf_adjacency)
  from solve_fresh [OF assms(1) this assms(4-6)] show ?thesis unfolding edge seeds by blast
qed

text \<open>C5: the max-min solver computes the bottleneck field. On a plain call (node list, seed map, edge list;
  no prior values, no retained queue, no work limit) with a nonnegative integer \<^verbatim>\<open>top\<close>, it returns, it
  reports completion with an empty frontier, and its value table holds at every node the largest
  grade derivable from the clamped seeds along the clamped legal edges (minimum along a path,
  maximum over paths) and nothing at the nodes no seed reaches.\<close>
theorem solveMaxMinField_correct:
  assumes "requireIntegerTop (mi_top inp) (mi_bottom inp) = Inr T"
    and "mi_priorValues inp = None" "mi_preparedGraph inp = None" "mi_worklist inp = None"
      "mi_workLimit inp = None" "mi_workQueue inp = None" "distinct (map fst (mi_seeds inp))"
  shows "\<exists>r. solveMaxMinField inp = Returned r \<and> mr_complete r \<and> mr_remainingWorklist r = []
    \<and> is_field (\<lambda>n. if n \<in> set (mi_nodeIds inp)
          then map_option (\<lambda>v. clampInteger v 0 T) (map_of (mi_seeds inp) n) else None)
        (\<lambda>n t. t \<in> set (legalTransitions (mi_nodeIds inp) (mi_transitions inp) 0 T) \<and> tr_from t = n)
        (pm_get (mr_values r))"
  using solve_plain [OF assms] by blast

text \<open>A two-edge chain used by the witnesses: seed 5 at node 1, edges of strength 3 and 700.5.\<close>

definition sample_input :: "nat max_min_input" where
  "sample_input = \<lparr>mi_nodeIds = [1, 2, 3], mi_seeds = [(1, Finite 5), (9, Finite 7)],
     mi_transitions = [\<lparr>tr_from = 1, tr_to = 2, tr_strength = Finite 3\<rparr>,
       \<lparr>tr_from = 2, tr_to = 3, tr_strength = Finite (1401 / 2)\<rparr>],
     mi_bottom = 0, mi_top = Finite 1000, mi_priorValues = None, mi_worklist = None, mi_workLimit = None,
     mi_preparedGraph = None, mi_workQueue = None\<rparr>"

lemma sample_field_none:
  assumes "is_field V0 E V" "V0 n = None" "\<And>m t. E m t \<Longrightarrow> tr_to t \<noteq> n"
  shows "V n = None"
proof -
  have "\<not> derivable V0 E n g" for g
  proof
    assume "derivable V0 E n g"
    then show False using assms(2,3) by cases auto
  qed
  with assms(1) show ?thesis by (auto simp: is_field_def dest: spec [of _ n] split: option.splits)
qed

theorem solveMaxMinField_correct_witness:
  "\<exists>r. solveMaxMinField sample_input = Returned r \<and> mr_complete r \<and> pm_get (mr_values r) 9 = None"
proof -
  have top: "requireIntegerTop (mi_top sample_input) (mi_bottom sample_input) = Inr 1000"
    by (simp add: sample_input_def requireIntegerTop_def)
  have hyps: "mi_priorValues sample_input = None" "mi_preparedGraph sample_input = None"
    "mi_worklist sample_input = None" "mi_workLimit sample_input = None" "mi_workQueue sample_input = None"
    "distinct (map fst (mi_seeds sample_input))"
    by (simp_all add: sample_input_def)
  from solveMaxMinField_correct [OF top hyps] obtain r where
    r: "solveMaxMinField sample_input = Returned r" "mr_complete r"
    and f: "is_field (\<lambda>n. if n \<in> set (mi_nodeIds sample_input)
          then map_option (\<lambda>v. clampInteger v 0 1000) (map_of (mi_seeds sample_input) n) else None)
        (\<lambda>n t. t \<in> set (legalTransitions (mi_nodeIds sample_input) (mi_transitions sample_input) 0 1000) \<and> tr_from t = n)
        (pm_get (mr_values r))" by blast
  have "pm_get (mr_values r) 9 = None"
    by (rule sample_field_none [OF f]) (auto simp: sample_input_def legalTransitions_def)
  with r show ?thesis by blast
qed

text \<open>interruption and resumption lose nothing. Stop the relaxation of any well-formed edge table after
  any number \<open>n\<close> of steps and hand its values and its queue back to an unlimited call: the first call
  makes at most \<open>n\<close> steps, its partial values are derivable grades that never exceed the field, and
  the second call ends in exactly the field of the original seeding.\<close>
theorem relaxMaxMin_resume:
  assumes "pm_inv vals" "edges_wf edges"
  shows "\<exists>st1 st2. relaxMaxMin vals edges None (Some n) None Map.empty = Some st1 \<and> rs_steps st1 \<le> n
    \<and> (\<forall>m g. pm_get (rs_values st1) m = Some g \<longrightarrow>
          derivable (pm_get vals) (edge_of edges) m g \<and> (\<exists>p. pm_get (rs_values st2) m = Some p \<and> g \<le> p))
    \<and> relaxMaxMin (rs_values st1) edges None None (Some (rs_heap st1)) Map.empty = Some st2
    \<and> wq_items (rs_heap st2) = {#}
    \<and> is_field (pm_get vals) (edge_of edges) (pm_get (rs_values st2))"
proof -
  let ?s = "\<lparr>rs_values = vals, rs_heap = initial_heap vals None None, rs_changed = Map.empty, rs_steps = 0\<rparr>"
  let ?st1 = "fst (iterate (relax_step edges) n ?s)"
  have "pm_get vals = pm_get vals ++ Map.empty" by simp
  from relax.iterate_inv [OF relax_inv_fresh [OF assms this, of 0]]
  have inv1: "relax_inv edges (pm_get vals) (pm_get vals) ?st1" .
  have steps: "rs_steps ?st1 \<le> n"
    using iterate_relax_steps [of edges n ?s] iterate_steps_le [of "relax_step edges" n ?s] by simp
  from exhaust_field [OF relax_inv_resume [OF inv1, of 0]] obtain st2 where st2:
    "exhaust (relax_step edges) \<lparr>rs_values = rs_values ?st1, rs_heap = rs_heap ?st1, rs_changed = Map.empty, rs_steps = 0\<rparr> = Some st2"
    "wq_items (rs_heap st2) = {#}" "is_field (pm_get vals) (edge_of edges) (pm_get (rs_values st2))"
    by blast
  have sound: "pm_get (rs_values ?st1) m = Some g \<Longrightarrow> derivable (pm_get vals) (edge_of edges) m g" for m g
    using inv1 by (auto simp: relax_inv_def)
  have "derivable (pm_get vals) (edge_of edges) m g \<Longrightarrow> \<exists>p. pm_get (rs_values st2) m = Some p \<and> g \<le> p" for m g
    using st2(3) by (auto simp: is_field_def dest: spec [of _ m] split: option.splits)
  with st2 steps sound show ?thesis
    by (intro exI [of _ ?st1] exI [of _ st2]) (auto simp: relaxMaxMin_def initial_heap_def)
qed

theorem relaxMaxMin_resume_witness:
  "\<exists>st1. relaxMaxMin (node (1::nat) (5::int) Undef Undef) Map.empty None (Some 0) None Map.empty = Some st1 \<and> rs_steps st1 \<le> 0"
proof -
  have "pm_inv (node (1::nat) (5::int) Undef Undef)" by (simp add: pm_inv_def)
  from relaxMaxMin_resume [OF this edges_wf_empty, of 0] show ?thesis by blast
qed

text \<open>the change report is exact: after any completed unprepared call, also one with prior values, the
  value table is the (clamped) prior table overridden by \<^verbatim>\<open>changedValues\<close>, so a consumer that applies the
  reported changes to the prior table holds the whole result.\<close>
theorem changedValues_exact:
  assumes "requireIntegerTop (mi_top inp) (mi_bottom inp) = Inr T" "prior_ok (mi_priorValues inp)"
    and "mi_preparedGraph inp = None" "mi_worklist inp = None" "mi_workLimit inp = None" "mi_workQueue inp = None"
  shows "\<exists>r. solveMaxMinField inp = Returned r
    \<and> pm_get (mr_values r) = pm_get (prior_base (call_has inp) 0 T (mi_priorValues inp)) ++ mr_changedValues r"
proof -
  have "edges_wf (call_edges inp T)" by (simp add: call_edges_def assms(3) edges_wf_adjacency)
  moreover have "mi_bottom inp = 0" using assms(1) by (simp add: requireIntegerTop_Inr)
  ultimately show ?thesis using solve_fresh [OF assms(1,2) _ assms(4-6)] by auto
qed

theorem changedValues_exact_witness:
  "\<exists>r. solveMaxMinField sample_input = Returned r
    \<and> pm_get (mr_values r) = pm_get (prior_base (call_has sample_input) 0 1000 None) ++ mr_changedValues r"
proof -
  have "requireIntegerTop (mi_top sample_input) (mi_bottom sample_input) = Inr 1000"
    by (simp add: sample_input_def requireIntegerTop_def)
  from changedValues_exact [OF this] show ?thesis by (simp add: sample_input_def prior_ok_def)
qed

text \<open>the solver throws exactly when \<^verbatim>\<open>top\<close> is not a nonnegative integer or \<^verbatim>\<open>bottom\<close> is not 0, whatever
  the rest of the input is; it never throws later.\<close>
theorem solveMaxMinField_throws_iff:
  "(\<exists>msg. solveMaxMinField inp = Threw msg) \<longleftrightarrow>
     \<not> (mi_bottom inp = 0 \<and> (\<exists>T \<ge> 0. mi_top inp = Finite (of_int T)))"
proof (cases "requireIntegerTop (mi_top inp) (mi_bottom inp)")
  case (Inl msg)
  then have "requireIntegerTop (mi_top inp) (mi_bottom inp) \<noteq> Inr T" for T by simp
  then have "\<not> (mi_bottom inp = 0 \<and> (\<exists>T \<ge> 0. mi_top inp = Finite (of_int T)))"
    unfolding requireIntegerTop_Inr by blast
  with Inl show ?thesis by (simp add: solveMaxMinField_def)
next
  case (Inr T)
  then have "mi_bottom inp = 0 \<and> 0 \<le> T \<and> mi_top inp = Finite (of_int T)" by (simp add: requireIntegerTop_Inr)
  with Inr show ?thesis
    by (auto simp: solveMaxMinField_def Let_def split: prod.split option.split)
qed

definition pg_wf :: "('k::linorder, 's) prepared_graph \<Rightarrow> bool" where
  "pg_wf g \<longleftrightarrow> pm_inv (pg_nodeIds g) \<and> pm_inv (pg_edges g) \<and> edges_wf (pm_get (pg_edges g))"

lemma extend_nodes:
  "pm_inv m \<Longrightarrow> pm_inv (fold (\<lambda>i m. pm_with m i True) ids m)
    \<and> (pm_has (fold (\<lambda>i m. pm_with m i True) ids m) x \<longleftrightarrow> pm_has m x \<or> x \<in> set ids)"
proof (induction ids arbitrary: m)
  case (Cons i ids)
  have "pm_has (pm_with m i True) x \<longleftrightarrow> x = i \<or> pm_has m x" using Cons.prems by (auto simp: map_laws)
  with Cons.IH [OF pm.invar_upd [OF Cons.prems, of i True]] show ?case by auto
qed simp

lemma extend_edges_fold:
  assumes "pm_inv edges" "edges_wf (pm_get edges)"
  shows "pm_inv (fold (extend_edges nodes) ts edges) \<and> edges_wf (pm_get (fold (extend_edges nodes) ts edges))
    \<and> (edge_of (pm_get (fold (extend_edges nodes) ts edges)) n t \<longleftrightarrow>
        edge_of (pm_get edges) n t \<or> t \<in> set ts \<and> tr_from t = n \<and> pm_has nodes n \<and> pm_has nodes (tr_to t))"
  using assms
proof (induction ts arbitrary: edges)
  case (Cons u ts)
  let ?e = "extend_edges nodes u edges"
  let ?o = "oe_append (case pm_get edges (tr_from u) of Some o' \<Rightarrow> o' | None \<Rightarrow> oe_empty) u"
  have get: "pm_get (pm_with edges (tr_from u) ?o) = (pm_get edges)(tr_from u \<mapsto> ?o)"
    using Cons.prems by (simp add: map_laws fun_eq_iff)
  have "pm_inv ?e" "edges_wf (pm_get ?e)"
    "edge_of (pm_get ?e) n t \<longleftrightarrow> edge_of (pm_get edges) n t
      \<or> t = u \<and> tr_from t = n \<and> pm_has nodes n \<and> pm_has nodes (tr_to t)"
    using Cons.prems by (auto simp: extend_edges_def map_laws get edges_wf_update edge_of_update)
  with Cons.IH [of ?e] show ?case by auto
qed simp

text \<open>extending a prepared graph keeps it well formed and adds exactly the new nodes and the new edges
  whose two ends are known after the extension; the nodes and edges prepared before stay as they are.\<close>
theorem extendMaxMinGraph_correct:
  assumes "pg_wf g"
  shows "pg_wf (extendMaxMinGraph (Some g) ids ts)
    \<and> (\<forall>x. pm_has (pg_nodeIds (extendMaxMinGraph (Some g) ids ts)) x \<longleftrightarrow> pm_has (pg_nodeIds g) x \<or> x \<in> set ids)
    \<and> (\<forall>n t. edge_of (pm_get (pg_edges (extendMaxMinGraph (Some g) ids ts))) n t \<longleftrightarrow>
         edge_of (pm_get (pg_edges g)) n t
         \<or> t \<in> set ts \<and> tr_from t = n \<and> pm_has (pg_nodeIds (extendMaxMinGraph (Some g) ids ts)) n
           \<and> pm_has (pg_nodeIds (extendMaxMinGraph (Some g) ids ts)) (tr_to t))"
  using assms by (simp add: pg_wf_def extendMaxMinGraph_def Let_def extend_nodes extend_edges_fold)

theorem extendMaxMinGraph_correct_witness:
  "pg_wf (extendMaxMinGraph (Some \<lparr>pg_nodeIds = Undef, pg_edges = Undef\<rparr>) [1::nat, 2]
     [\<lparr>tr_from = 1, tr_to = 2, tr_strength = (3::int)\<rparr>])"
proof -
  have "pm_get (Undef :: (nat, (nat, int) outgoing) pnode) = Map.empty" by (simp add: fun_eq_iff)
  then have "pg_wf \<lparr>pg_nodeIds = Undef, pg_edges = Undef :: (nat, (nat, int) outgoing) pnode\<rparr>"
    by (simp add: pg_wf_def)
  from extendMaxMinGraph_correct [OF this] show ?thesis by blast
qed

text \<open>no grade leaves the scale: on a plain call every value of the result lies between 0 and \<^verbatim>\<open>top\<close>,
  also when seeds or strengths are negative, fractional, infinite or NaN.\<close>
theorem solveMaxMinField_bounds:
  assumes "requireIntegerTop (mi_top inp) (mi_bottom inp) = Inr T"
    and "mi_priorValues inp = None" "mi_preparedGraph inp = None" "mi_worklist inp = None"
      "mi_workLimit inp = None" "mi_workQueue inp = None"
  shows "\<exists>r. solveMaxMinField inp = Returned r
    \<and> (\<forall>n g. pm_get (mr_values r) n = Some g \<longrightarrow> 0 \<le> g \<and> g \<le> T)"
proof -
  have T: "mi_bottom inp = 0" "0 \<le> T" using assms(1) by (simp_all add: requireIntegerTop_Inr)
  let ?iv = "initialValues (call_has inp) (mi_seeds inp) 0 T None"
  let ?ts = "legalTransitions (mi_nodeIds inp) (mi_transitions inp) 0 T"
  have e: "call_edges inp T = adjacency ?ts" by (simp add: call_edges_def assms(3) T)
  have seeds: "pm_get (fst ?iv) n = Some g \<Longrightarrow> 0 \<le> g \<and> g \<le> T" for n g
  proof -
    have "pm_inv (fst s) \<and> (\<forall>n g. pm_get (fst s) n = Some g \<longrightarrow> 0 \<le> g \<and> g \<le> T) \<Longrightarrow>
      \<forall>n g. pm_get (fst (fold (load_seed (call_has inp) 0 T) seeds s)) n = Some g \<longrightarrow> 0 \<le> g \<and> g \<le> T" for seeds s
    proof (induction seeds arbitrary: s)
      case (Cons kv seeds)
      have "pm_inv (fst (load_seed (call_has inp) 0 T kv s))
        \<and> (\<forall>n g. pm_get (fst (load_seed (call_has inp) 0 T kv s)) n = Some g \<longrightarrow> 0 \<le> g \<and> g \<le> T)"
        using Cons.prems clampInteger_bounds [OF T(2), of "snd kv"]
        by (cases kv; cases s) (auto simp: load_seed_def Let_def map_laws split: option.split if_splits)
      from Cons.IH [OF this] show ?case by simp
    qed simp
    from this [of "(Undef, Map.empty)" "mi_seeds inp"] show "pm_get (fst ?iv) n = Some g \<Longrightarrow> 0 \<le> g \<and> g \<le> T"
      by (auto simp: initialValues_def prior_base_def)
  qed
  have edges: "edge_of (call_edges inp T) n t \<Longrightarrow> 0 \<le> tr_strength t" for n t
    unfolding e edge_of_adjacency using clampInteger_bounds [OF T(2)] by (auto simp: legalTransitions_def)
  have "prior_ok (mi_priorValues inp)" "edges_wf (call_edges inp T)"
    by (simp_all add: assms(2) prior_ok_def e edges_wf_adjacency)
  from solve_fresh [OF assms(1) this assms(4-6)] obtain r where "solveMaxMinField inp = Returned r"
    and f: "is_field (pm_get (fst ?iv)) (edge_of (call_edges inp T)) (pm_get (mr_values r))"
    by (auto simp: assms(2) T)
  moreover have "0 \<le> g \<and> g \<le> T" if "pm_get (mr_values r) n = Some g" for n g
    using f that derivable_bounds [of "pm_get (fst ?iv)" "edge_of (call_edges inp T)" n g 0 T] seeds edges
    by (auto simp: is_field_def dest: spec [of _ n] split: option.splits)
  ultimately show ?thesis by blast
qed

theorem solveMaxMinField_bounds_witness:
  "\<exists>r. solveMaxMinField sample_input = Returned r \<and> (\<forall>n g. pm_get (mr_values r) n = Some g \<longrightarrow> 0 \<le> g \<and> g \<le> 1000)"
proof -
  have "requireIntegerTop (mi_top sample_input) (mi_bottom sample_input) = Inr 1000"
    by (simp add: sample_input_def requireIntegerTop_def)
  from solveMaxMinField_bounds [OF this] show ?thesis by (simp add: sample_input_def)
qed

end
