(* ===== verification/BooleanHypergraph.thy ===== *)
theory BooleanHypergraph
  imports Prelude "HOL-Library.AList"
begin

text \<open>
  \<^verbatim>\<open>packages/graph-algorithms/src/boolean-hypergraph.ts\<close>: joint closure of conjunctive, disjunctive,
  unary and identity edges, one grade at a time. A grade's closure is a worklist loop over a stack
  of nodes; the value of a node is the highest grade at which the closure reaches it. The loop is an
  instance of the stepper of the prelude and is proved to compute the least closed set \<open>holds\<close>. A
  JavaScript \<^verbatim>\<open>Map\<close> that is iterated is an association list (\<open>AList.update\<close> keeps the insertion
  position of a key, as \<^verbatim>\<open>Map.set\<close> does); one that is only read is a map.
\<close>

datatype ('k, 's) hyperedge =
  UnaryEdge 'k (edge_to: 'k) 's
| AndEdge "'k list" (edge_to: 'k) 's
| OrEdge "'k list" (edge_to: 'k) 's
| IdentityEdge 'k (edge_to: 'k)

record 'k hypergraph_input =
  hi_nodeIds :: "'k list"
  hi_seeds :: "('k \<times> js_number) list"
  hi_edges :: "('k, js_number) hyperedge list"
  hi_bottom :: int
  hi_top :: js_number

definition hypergraphTop :: "js_number \<Rightarrow> int \<Rightarrow> string + int" where
  "hypergraphTop top_v bot_v =
     (case top_v of
        Finite q \<Rightarrow> if bot_v \<noteq> 0 \<or> \<not> js_is_integer top_v \<or> q < 0
                   then Inl ''boolean hypergraph top must be a nonnegative integer with bottom 0''
                   else Inr \<lfloor>q\<rfloor>
      | _ \<Rightarrow> Inl ''boolean hypergraph top must be a nonnegative integer with bottom 0'')"

definition collect_seed :: "'k set \<Rightarrow> int \<Rightarrow> int \<Rightarrow> 'k \<times> js_number \<Rightarrow> ('k \<times> int) list \<Rightarrow> ('k \<times> int) list" where
  "collect_seed nodes bot_v top_v = (\<lambda>(n, v) collected.
     if n \<notin> nodes then collected
     else (let grade = clampInteger v bot_v top_v
           in case map_of collected n of
                None \<Rightarrow> AList.update n grade collected
              | Some prior \<Rightarrow> if grade > prior then AList.update n grade collected else collected))"

definition collectSeeds :: "'k set \<Rightarrow> ('k \<times> js_number) list \<Rightarrow> int \<Rightarrow> int \<Rightarrow> ('k \<times> int) list" where
  "collectSeeds nodes seeds bot_v top_v = fold (collect_seed nodes bot_v top_v) seeds []"

fun premisesOf :: "('k, 's) hyperedge \<Rightarrow> 'k list" where
  "premisesOf (AndEdge ps _ _) = ps"
| "premisesOf (OrEdge ps _ _) = ps"
| "premisesOf (UnaryEdge p _ _) = [p]"
| "premisesOf (IdentityEdge p _) = [p]"

fun legal_edge :: "'k set \<Rightarrow> int \<Rightarrow> int \<Rightarrow> ('k, js_number) hyperedge \<Rightarrow> ('k, int) hyperedge list" where
  "legal_edge nodes b t (IdentityEdge f x) =
     (if x \<notin> nodes then [] else if f \<notin> nodes then [] else [IdentityEdge f x])"
| "legal_edge nodes b t (UnaryEdge f x s) =
     (if x \<notin> nodes then [] else if f \<notin> nodes then [] else [UnaryEdge f x (clampInteger s b t)])"
| "legal_edge nodes b t (AndEdge fs x s) =
     (if x \<notin> nodes then [] else if list_ex (\<lambda>f. f \<notin> nodes) fs then [] else [AndEdge fs x (clampInteger s b t)])"
| "legal_edge nodes b t (OrEdge fs x s) =
     (if x \<notin> nodes then [] else if list_ex (\<lambda>f. f \<notin> nodes) fs then [] else [OrEdge fs x (clampInteger s b t)])"

definition legalEdges :: "'k set \<Rightarrow> ('k, js_number) hyperedge list \<Rightarrow> int \<Rightarrow> int \<Rightarrow> ('k, int) hyperedge list" where
  "legalEdges nodes edges b t = concat (map (legal_edge nodes b t) edges)"

definition index_premise :: "('k, 's) hyperedge \<Rightarrow> 'k \<Rightarrow> ('k \<rightharpoonup> ('k, 's) hyperedge list) \<Rightarrow> ('k \<rightharpoonup> ('k, 's) hyperedge list)" where
  "index_premise e p index =
     (case index p of None \<Rightarrow> index(p \<mapsto> [e]) | Some es \<Rightarrow> index(p \<mapsto> es @ [e]))"

definition indexByPremise :: "('k, 's) hyperedge list \<Rightarrow> ('k \<rightharpoonup> ('k, 's) hyperedge list)" where
  "indexByPremise edges = fold (\<lambda>e. fold (index_premise e) (premisesOf e)) edges Map.empty"

fun edge_grade :: "int \<Rightarrow> ('k, int) hyperedge \<Rightarrow> int" where
  "edge_grade t (IdentityEdge _ _) = t"
| "edge_grade t (UnaryEdge _ _ s) = s"
| "edge_grade t (AndEdge _ _ s) = s"
| "edge_grade t (OrEdge _ _ s) = s"

text \<open>\<^verbatim>\<open>descendingGrades\<close>: the distinct thresholds, sorted from high to low.\<close>

definition descendingGrades :: "('k \<times> int) list \<Rightarrow> ('k, int) hyperedge list \<Rightarrow> int \<Rightarrow> int list" where
  "descendingGrades seeds edges t = rev (sort (remdups (map snd seeds @ map (edge_grade t) edges)))"

fun edgeFires :: "('k, 's::linorder) hyperedge \<Rightarrow> 's \<Rightarrow> 'k set \<Rightarrow> bool" where
  "edgeFires (UnaryEdge f _ s) grade on = (s \<ge> grade \<and> f \<in> on)"
| "edgeFires (AndEdge fs _ s) grade on = (s \<ge> grade \<and> list_all (\<lambda>f. f \<in> on) fs)"
| "edgeFires (OrEdge fs _ s) grade on = (s \<ge> grade \<and> list_ex (\<lambda>f. f \<in> on) fs)"
| "edgeFires (IdentityEdge f _) grade on = (f \<in> on)"

text \<open>
  The closure state is the set \<^verbatim>\<open>on\<close> and the stack \<^verbatim>\<open>pending\<close> (its top at the head). \<open>visit_edge\<close> is
  the inner loop body, \<open>closure_step\<close> one turn of the outer loop.
\<close>

type_synonym 'k closure_state = "'k set \<times> 'k list"

definition start_axiom :: "int \<Rightarrow> ('k, int) hyperedge \<Rightarrow> 'k closure_state \<Rightarrow> 'k closure_state" where
  "start_axiom grade e = (\<lambda>(on, pending). case e of
     AndEdge [] x s \<Rightarrow> if s < grade \<or> x \<in> on then (on, pending) else (insert x on, x # pending)
   | _ \<Rightarrow> (on, pending))"

definition start_seed :: "int \<Rightarrow> 'k \<times> int \<Rightarrow> 'k closure_state \<Rightarrow> 'k closure_state" where
  "start_seed grade = (\<lambda>(n, v) (on, pending). if v < grade then (on, pending) else (insert n on, n # pending))"

definition visit_edge :: "int \<Rightarrow> ('k, int) hyperedge \<Rightarrow> 'k closure_state \<Rightarrow> 'k closure_state" where
  "visit_edge grade e = (\<lambda>(on, pending).
     if edge_to e \<in> on \<or> \<not> edgeFires e grade on then (on, pending)
     else (insert (edge_to e) on, edge_to e # pending))"

fun closure_step ::
  "int \<Rightarrow> ('k \<rightharpoonup> ('k, int) hyperedge list) \<Rightarrow> 'k closure_state \<Rightarrow> 'k closure_state option"
where
  "closure_step grade byPremise (on, []) = None"
| "closure_step grade byPremise (on, n # pending) =
     Some (fold (visit_edge grade) (case byPremise n of None \<Rightarrow> [] | Some es \<Rightarrow> es) (on, pending))"

definition closureAtGrade ::
  "int \<Rightarrow> ('k \<times> int) list \<Rightarrow> ('k \<rightharpoonup> ('k, int) hyperedge list) \<Rightarrow> ('k, int) hyperedge list \<Rightarrow> 'k set option"
where
  "closureAtGrade grade seeds byPremise axioms =
     map_option fst (exhaust (closure_step grade byPremise)
       (fold (start_seed grade) seeds (fold (start_axiom grade) axioms ({}, []))))"

definition is_axiom :: "('k, int) hyperedge \<Rightarrow> bool" where
  "is_axiom e = (case e of AndEdge [] _ _ \<Rightarrow> True | _ \<Rightarrow> False)"

text \<open>The outer loop: a node keeps the first, that is the highest, grade at which it is reached.\<close>

fun grade_loop ::
  "int list \<Rightarrow> (int \<Rightarrow> 'k set option) \<Rightarrow> ('k \<rightharpoonup> int) \<Rightarrow> ('k \<rightharpoonup> int) option"
where
  "grade_loop [] closure vals = Some vals"
| "grade_loop (grade # grades) closure vals =
     (case closure grade of
        None \<Rightarrow> None
      | Some on \<Rightarrow> grade_loop grades closure (\<lambda>n. if n \<in> on \<and> vals n = None then Some grade else vals n))"

definition evaluateBooleanHypergraph :: "'k hypergraph_input \<Rightarrow> ('k \<rightharpoonup> int) js_outcome" where
  "evaluateBooleanHypergraph inp =
     (case hypergraphTop (hi_top inp) (hi_bottom inp) of
        Inl msg \<Rightarrow> Threw msg
      | Inr t \<Rightarrow>
          (let nodes = set (hi_nodeIds inp);
               seeds = collectSeeds nodes (hi_seeds inp) (hi_bottom inp) t;
               edges = legalEdges nodes (hi_edges inp) (hi_bottom inp) t;
               byPremise = indexByPremise edges;
               axioms = filter is_axiom edges
           in case grade_loop (descendingGrades seeds edges t)
                (\<lambda>grade. closureAtGrade grade seeds byPremise axioms) Map.empty of
                None \<Rightarrow> Diverged
              | Some vals \<Rightarrow> Returned vals))"

section \<open>Specification: the least closed set at a grade\<close>

inductive holds :: "('k \<times> int) list \<Rightarrow> ('k, int) hyperedge list \<Rightarrow> int \<Rightarrow> 'k \<Rightarrow> bool"
  for seeds edges grade where
  holds_seed: "(n, v) \<in> set seeds \<Longrightarrow> grade \<le> v \<Longrightarrow> holds seeds edges grade n"
| holds_and: "AndEdge fs x s \<in> set edges \<Longrightarrow> grade \<le> s \<Longrightarrow> (\<And>f. f \<in> set fs \<Longrightarrow> holds seeds edges grade f) \<Longrightarrow>
    holds seeds edges grade x"
| holds_or: "OrEdge fs x s \<in> set edges \<Longrightarrow> grade \<le> s \<Longrightarrow> f \<in> set fs \<Longrightarrow> holds seeds edges grade f \<Longrightarrow>
    holds seeds edges grade x"
| holds_unary: "UnaryEdge f x s \<in> set edges \<Longrightarrow> grade \<le> s \<Longrightarrow> holds seeds edges grade f \<Longrightarrow> holds seeds edges grade x"
| holds_identity: "IdentityEdge f x \<in> set edges \<Longrightarrow> holds seeds edges grade f \<Longrightarrow> holds seeds edges grade x"

lemma edgeFires_mono: "edgeFires e grade on \<Longrightarrow> on \<subseteq> on' \<Longrightarrow> edgeFires e grade on'"
  by (cases e) (auto simp: list_all_iff list_ex_iff)

lemma holds_fires:
  assumes "e \<in> set edges" "edgeFires e grade on" "on \<subseteq> Collect (holds seeds edges grade)"
  shows "holds seeds edges grade (edge_to e)"
  by (cases e) (use assms in \<open>auto simp: list_all_iff list_ex_iff subset_iff intro: holds.intros\<close>)

text \<open>A set that contains the seeds and is closed under firing contains the least closed set.\<close>

lemma holds_least:
  assumes "holds seeds edges grade n"
    and "\<And>n v. (n, v) \<in> set seeds \<Longrightarrow> grade \<le> v \<Longrightarrow> n \<in> on"
    and "\<And>e. e \<in> set edges \<Longrightarrow> edgeFires e grade on \<Longrightarrow> edge_to e \<in> on"
  shows "n \<in> on"
  using assms(1)
  by (induction rule: holds.induct)
    (use assms(2,3) in \<open>force simp: list_all_iff list_ex_iff\<close>)+

lemma set_indexByPremise:
  "(case indexByPremise edges p of None \<Rightarrow> {} | Some es \<Rightarrow> set es) = {e \<in> set edges. p \<in> set (premisesOf e)}"
proof -
  let ?s = "\<lambda>index. case index p of None \<Rightarrow> {} | Some es \<Rightarrow> set es"
  have inner: "?s (fold (index_premise e) ps index) = ?s index \<union> (if p \<in> set ps then {e} else {})"
    for e :: "('a, 'b) hyperedge" and ps index
    by (induction ps arbitrary: index) (auto simp: index_premise_def split: option.splits)
  have "?s (fold (\<lambda>e. fold (index_premise e) (premisesOf e)) edges index)
      = ?s index \<union> {e \<in> set edges. p \<in> set (premisesOf e)}" for index
    by (induction edges arbitrary: index) (auto simp: inner)
  then show ?thesis by (simp add: indexByPremise_def)
qed

section \<open>The closure loop computes the least closed set\<close>

lemma visit_edge_apply:
  "visit_edge grade e (on, pending) =
     (if edge_to e \<in> on \<or> \<not> edgeFires e grade on then (on, pending)
      else (insert (edge_to e) on, edge_to e # pending))"
  by (simp add: visit_edge_def)

text \<open>One visit of the edges indexed by a node: \<open>on\<close> grows by exactly the pushed targets of edges that
  fire, and every visited edge that fired before the visit has its target on afterwards.\<close>

lemma fold_visit:
  assumes "fold (visit_edge grade) es (on, pending) = (on', pending')"
  shows "\<exists>new. pending' = new @ pending \<and> on' = on \<union> set new \<and> on \<inter> set new = {}
    \<and> (\<forall>e \<in> set es. edgeFires e grade on \<longrightarrow> edge_to e \<in> on')
    \<and> set new \<subseteq> edge_to ` set es"
  using assms
proof (induction es arbitrary: on pending)
  case (Cons e es)
  show ?case
  proof (cases "edge_to e \<in> on \<or> \<not> edgeFires e grade on")
    case True
    then have "fold (visit_edge grade) es (on, pending) = (on', pending')"
      using Cons.prems by (auto simp: visit_edge_apply)
    from Cons.IH [OF this] True show ?thesis by auto
  next
    case False
    then have "fold (visit_edge grade) es (insert (edge_to e) on, edge_to e # pending) = (on', pending')"
      using Cons.prems by (auto simp: visit_edge_apply)
    from Cons.IH [OF this] obtain new where
      new: "pending' = new @ edge_to e # pending" "on' = insert (edge_to e) on \<union> set new"
      "insert (edge_to e) on \<inter> set new = {}"
      "\<forall>d\<in>set es. edgeFires d grade (insert (edge_to e) on) \<longrightarrow> edge_to d \<in> on'" "set new \<subseteq> edge_to ` set es"
      by blast
    with False edgeFires_mono [of _ grade on "insert (edge_to e) on"] show ?thesis
      by (intro exI [of _ "new @ [edge_to e]"]) auto
  qed
qed simp

lemma fold_visit_sound:
  assumes "fold (visit_edge grade) es (on, pending) = (on', pending')" "set es \<subseteq> set edges"
    and "on \<subseteq> Collect (holds seeds edges grade)"
  shows "on' \<subseteq> Collect (holds seeds edges grade)"
  using assms
proof (induction es arbitrary: on pending)
  case (Cons e es)
  then show ?case
    using holds_fires [of e edges grade on seeds]
    by (cases "edge_to e \<in> on \<or> \<not> edgeFires e grade on") (auto simp: visit_edge_apply)
qed simp

definition closure_inv ::
  "('k \<times> int) list \<Rightarrow> ('k, int) hyperedge list \<Rightarrow> int \<Rightarrow> 'k closure_state \<Rightarrow> bool"
where
  "closure_inv seeds edges grade = (\<lambda>(on, pending).
     on \<subseteq> Collect (holds seeds edges grade) \<and> set pending \<subseteq> on
     \<and> (\<forall>n v. (n, v) \<in> set seeds \<and> grade \<le> v \<longrightarrow> n \<in> on)
     \<and> (\<forall>e \<in> set edges. edgeFires e grade on \<and> edge_to e \<notin> on \<longrightarrow> set (premisesOf e) \<inter> set pending \<noteq> {}))"

definition closure_rank :: "('k, int) hyperedge list \<Rightarrow> ('k closure_state \<times> 'k closure_state) set" where
  "closure_rank edges = measures [\<lambda>(on, pending). card (edge_to ` set edges - on), \<lambda>(on, pending). length pending]"

text \<open>An edge that starts to fire when the closure grows has a premise among the new nodes.\<close>

lemma newly_fires:
  "edgeFires e grade (on \<union> new) \<Longrightarrow> \<not> edgeFires e grade on \<Longrightarrow> set (premisesOf e) \<inter> new \<noteq> {}"
  by (cases e) (auto simp: list_all_iff list_ex_iff)

lemma closure_step_inv:
  assumes inv: "closure_inv seeds edges grade st" and step: "closure_step grade (indexByPremise edges) st = Some st'"
  shows "closure_inv seeds edges grade st' \<and> (st', st) \<in> closure_rank edges"
proof -
  obtain on n pending where st: "st = (on, n # pending)" using step by (cases st; cases "snd st") auto
  obtain on' pending' where st': "st' = (on', pending')" by (cases st')
  let ?es = "case indexByPremise edges n of None \<Rightarrow> [] | Some es \<Rightarrow> es"
  have fold': "fold (visit_edge grade) ?es (on, pending) = (on', pending')" using step st st' by simp
  have es: "set ?es = {e \<in> set edges. n \<in> set (premisesOf e)}"
    using set_indexByPremise [of edges n] by (auto split: option.splits)
  from fold_visit [OF fold'] obtain new where
    new: "pending' = new @ pending" "on' = on \<union> set new" "on \<inter> set new = {}"
    "\<forall>e\<in>set ?es. edgeFires e grade on \<longrightarrow> edge_to e \<in> on'" "set new \<subseteq> edge_to ` set ?es" by blast
  have sound: "on' \<subseteq> Collect (holds seeds edges grade)"
    by (rule fold_visit_sound [OF fold']) (use inv st es in \<open>auto simp: closure_inv_def\<close>)
  have front: "set (premisesOf e) \<inter> set pending' \<noteq> {}"
    if e: "e \<in> set edges" "edgeFires e grade on'" "edge_to e \<notin> on'" for e
  proof (cases "edgeFires e grade on")
    case True
    with e inv st new have "set (premisesOf e) \<inter> set (n # pending) \<noteq> {}" by (auto simp: closure_inv_def)
    moreover have "n \<notin> set (premisesOf e)" using True e new(4) es by auto
    ultimately show ?thesis using new by auto
  next
    case False
    with e newly_fires [of e grade on "set new"] new show ?thesis by auto
  qed
  have "card (edge_to ` set edges - on') < card (edge_to ` set edges - on) \<or>
      card (edge_to ` set edges - on') = card (edge_to ` set edges - on) \<and> length pending' < length (n # pending)"
  proof (cases "new = []")
    case False
    with new es have "edge_to ` set edges - on' \<subset> edge_to ` set edges - on" by (cases new) auto
    then show ?thesis by (intro disjI1 psubset_card_mono) auto
  qed (use new in simp)
  with inv sound front new st st' show ?thesis by (auto simp: closure_inv_def closure_rank_def)
qed

interpretation closure: bounded_stepper "closure_step grade (indexByPremise edges)" "closure_inv seeds edges grade"
  "closure_rank edges" for grade edges seeds
  by unfold_locales (use closure_step_inv in \<open>blast+\<close>, simp add: closure_rank_def)

lemma start_axioms_spec:
  assumes "fold (start_axiom grade) axs (on, pending) = (on', pending')" "set pending = on"
  shows "set pending' = on' \<and> on' = on \<union> {x. \<exists>s. AndEdge [] x s \<in> set axs \<and> grade \<le> s}"
  using assms
proof (induction axs arbitrary: on pending)
  case (Cons e axs)
  obtain o1 p1 where s1: "start_axiom grade e (on, pending) = (o1, p1)" by fastforce
  with Cons.prems have "set p1 = o1 \<and> o1 = on \<union> {x. \<exists>s. AndEdge [] x s = e \<and> grade \<le> s}"
    by (auto simp: start_axiom_def split: hyperedge.splits list.splits if_splits)
  with Cons.IH [of o1 p1] Cons.prems s1 show ?case by auto
qed simp

lemma start_seeds_spec:
  assumes "fold (start_seed grade) seeds (on, pending) = (on', pending')" "set pending = on"
  shows "set pending' = on' \<and> on' = on \<union> {n. \<exists>v. (n, v) \<in> set seeds \<and> grade \<le> v}"
  using assms
proof (induction seeds arbitrary: on pending)
  case (Cons kv seeds)
  obtain o1 p1 where s1: "start_seed grade kv (on, pending) = (o1, p1)" by fastforce
  with Cons.prems have "set p1 = o1 \<and> o1 = on \<union> {n. \<exists>v. (n, v) = kv \<and> grade \<le> v}"
    by (cases kv) (auto simp: start_seed_def split: if_splits)
  with Cons.IH [of o1 p1] Cons.prems s1 show ?case by auto
qed simp

lemma edgeFires_empty: "edgeFires e grade {} \<Longrightarrow> \<exists>x s. e = AndEdge [] x s \<and> grade \<le> s"
  by (cases e) (auto simp: list_all_iff list_ex_iff)

lemma closureAtGrade_correct:
  "closureAtGrade grade seeds (indexByPremise edges) (filter is_axiom edges) = Some (Collect (holds seeds edges grade))"
proof -
  obtain o1 p1 where a: "fold (start_axiom grade) (filter is_axiom edges) ({}, []) = (o1, p1)" by fastforce
  obtain o2 p2 where s: "fold (start_seed grade) seeds (o1, p1) = (o2, p2)" by fastforce
  from start_axioms_spec [OF a] have a': "set p1 = o1" "o1 = {x. \<exists>s. AndEdge [] x s \<in> set edges \<and> grade \<le> s}"
    by (auto simp: is_axiom_def)
  from start_seeds_spec [OF s a'(1)] have s': "set p2 = o2" "o2 = o1 \<union> {n. \<exists>v. (n, v) \<in> set seeds \<and> grade \<le> v}"
    by auto
  have fires_pending: "set (premisesOf e) \<inter> set p2 \<noteq> {}"
    if "e \<in> set edges" "edgeFires e grade o2" "edge_to e \<notin> o2" for e
  proof (cases "edgeFires e grade {}")
    case True
    from edgeFires_empty [OF this] obtain x s0 where e: "e = AndEdge [] x s0" "grade \<le> s0" by blast
    with that(1) have "x \<in> o1" unfolding a'(2) by blast
    with that(3) e show ?thesis unfolding s'(2) by simp
  next
    case False
    with newly_fires [of e grade "{}" o2] that s' show ?thesis by simp
  qed
  have "closure_inv seeds edges grade (o2, p2)"
    using s' a' fires_pending by (auto simp: closure_inv_def intro: holds.intros)
  from closure.exhaust_total [OF this] obtain st where
    st: "exhaust (closure_step grade (indexByPremise edges)) (o2, p2) = Some st"
    "closure_step grade (indexByPremise edges) st = None" "closure_inv seeds edges grade st" by blast
  then obtain on where on: "st = (on, [])" by (cases st; cases "snd st") auto
  with st(3) have "on \<subseteq> Collect (holds seeds edges grade)" and
    cl: "\<And>n v. (n, v) \<in> set seeds \<Longrightarrow> grade \<le> v \<Longrightarrow> n \<in> on"
    "\<And>e. e \<in> set edges \<Longrightarrow> edgeFires e grade on \<Longrightarrow> edge_to e \<in> on"
    by (auto simp: closure_inv_def)
  moreover have "Collect (holds seeds edges grade) \<subseteq> on" using holds_least [of seeds edges grade _ on] cl by blast
  ultimately show ?thesis using st on a s by (auto simp: closureAtGrade_def)
qed

section \<open>The grade loop keeps the highest grade\<close>

lemma holds_antimono: "holds seeds edges g n \<Longrightarrow> h \<le> g \<Longrightarrow> holds seeds edges h n"
  by (induction rule: holds.induct) (auto intro: holds.intros order_trans)

text \<open>Only the listed thresholds matter: what holds at some grade holds at a listed grade above it.\<close>

lemma holds_at_threshold:
  "holds seeds edges grade n \<Longrightarrow>
    \<exists>g \<in> set (descendingGrades seeds edges t). grade \<le> g \<and> holds seeds edges g n"
proof (induction rule: holds.induct)
  case (holds_seed n v)
  then show ?case
    by (intro bexI [of _ v]) (force simp: descendingGrades_def intro: holds.holds_seed)+
next
  case (holds_and fs x s)
  let ?D = "set (descendingGrades seeds edges t)"
  from holds_and obtain G where G: "\<And>f. f \<in> set fs \<Longrightarrow> G f \<in> ?D \<and> grade \<le> G f \<and> holds seeds edges (G f) f"
    by metis
  let ?S = "insert s (G ` set fs)" let ?g = "Min ?S"
  have "s \<in> ?D" using holds_and(1) by (force simp: descendingGrades_def)
  then have "?g \<in> ?D" "grade \<le> ?g"
    using G holds_and(2) Min_in [of ?S] by (auto simp del: Min_insert)
  moreover have "holds seeds edges ?g x"
  proof (rule holds.holds_and [OF holds_and(1)])
    show "?g \<le> s" by simp
    fix f assume f: "f \<in> set fs"
    then have "?g \<le> G f" by (intro Min_le) auto
    with G [OF f] show "holds seeds edges ?g f" by (blast intro: holds_antimono)
  qed
  ultimately show ?case by blast
next
  case (holds_or fs x s f)
  then obtain g where g: "g \<in> set (descendingGrades seeds edges t)" "grade \<le> g" "holds seeds edges g f" by blast
  have "s \<in> set (descendingGrades seeds edges t)" using holds_or(1) by (force simp: descendingGrades_def)
  moreover have "holds seeds edges (min g s) x"
    by (rule holds.holds_or [OF holds_or(1) _ holds_or(3)]) (auto intro: holds_antimono [OF g(3)])
  ultimately show ?case using g holds_or(2) by (intro bexI [of _ "min g s"]) (auto simp: min_def)
next
  case (holds_unary f x s)
  then obtain g where g: "g \<in> set (descendingGrades seeds edges t)" "grade \<le> g" "holds seeds edges g f" by blast
  have "s \<in> set (descendingGrades seeds edges t)" using holds_unary(1) by (force simp: descendingGrades_def)
  moreover have "holds seeds edges (min g s) x"
    by (rule holds.holds_unary [OF holds_unary(1)]) (auto intro: holds_antimono [OF g(3)])
  ultimately show ?case using g holds_unary(2) by (intro bexI [of _ "min g s"]) (auto simp: min_def)
next
  case (holds_identity f x)
  then show ?case by (blast intro: holds.holds_identity)
qed

lemma grade_loop_spec:
  assumes "\<And>g. closure g = Some (on g)" "sorted_wrt (>) grades"
  shows "\<exists>r. grade_loop grades closure vals = Some r \<and> (\<forall>n. r n =
    (case vals n of Some v \<Rightarrow> Some v | None \<Rightarrow>
      if \<exists>g \<in> set grades. n \<in> on g then Some (Max {g \<in> set grades. n \<in> on g}) else None))"
  using assms(2)
proof (induction grades arbitrary: vals)
  case Nil
  show ?case by (auto split: option.split)
next
  case (Cons g grades)
  let ?v = "\<lambda>n. if n \<in> on g \<and> vals n = None then Some g else vals n"
  have max: "Max {h. (h = g \<or> h \<in> set grades) \<and> n \<in> on h} = (if n \<in> on g then g else Max {h \<in> set grades. n \<in> on h})" for n
  proof (cases "n \<in> on g")
    case True
    with Cons.prems have "Max {h. (h = g \<or> h \<in> set grades) \<and> n \<in> on h} = g"
      by (intro Max_eqI) auto
    with True show ?thesis by simp
  next
    case False
    then have "{h. (h = g \<or> h \<in> set grades) \<and> n \<in> on h} = {h \<in> set grades. n \<in> on h}" by auto
    with False show ?thesis by simp
  qed
  have "sorted_wrt (>) grades" using Cons.prems by simp
  from Cons.IH [OF this, of ?v] obtain r where
    "grade_loop grades closure ?v = Some r"
    "\<And>n. r n = (case ?v n of Some v \<Rightarrow> Some v | None \<Rightarrow>
      if \<exists>g \<in> set grades. n \<in> on g then Some (Max {g \<in> set grades. n \<in> on g}) else None)" by blast
  moreover have "grade_loop (g # grades) closure vals = grade_loop grades closure ?v"
    by (simp add: assms(1) [of g])
  ultimately show ?case by (intro exI [of _ r]) (auto simp: max simp del: grade_loop.simps split: option.split)
qed

lemma descendingGrades_sorted: "sorted_wrt (>) (descendingGrades seeds edges t)"
proof -
  have "sorted_wrt (<) (sort (remdups (map snd seeds @ map (edge_grade t) edges)))"
    by (simp add: strict_sorted_iff)
  then show ?thesis by (simp add: descendingGrades_def sorted_wrt_rev)
qed

lemma evaluate_spec:
  assumes "hypergraphTop (hi_top inp) (hi_bottom inp) = Inr t"
    and "seeds = collectSeeds (set (hi_nodeIds inp)) (hi_seeds inp) (hi_bottom inp) t"
    and "edges = legalEdges (set (hi_nodeIds inp)) (hi_edges inp) (hi_bottom inp) t"
  shows "\<exists>vals. evaluateBooleanHypergraph inp = Returned vals
    \<and> (\<forall>n g. vals n = Some g \<longleftrightarrow> holds seeds edges g n \<and> (\<forall>h. holds seeds edges h n \<longrightarrow> h \<le> g))
    \<and> (\<forall>n. vals n = None \<longleftrightarrow> (\<nexists>g. holds seeds edges g n))"
proof -
  let ?D = "descendingGrades seeds edges t"
  let ?S = "\<lambda>n. {g \<in> set ?D. holds seeds edges g n}"
  from grade_loop_spec [OF _ descendingGrades_sorted,
      of "\<lambda>g. closureAtGrade g seeds (indexByPremise edges) (filter is_axiom edges)"
        "\<lambda>g. Collect (holds seeds edges g)" seeds edges t Map.empty]
  obtain r where r: "grade_loop ?D (\<lambda>g. closureAtGrade g seeds (indexByPremise edges) (filter is_axiom edges)) Map.empty = Some r"
    "\<And>n. r n = (if \<exists>g \<in> set ?D. holds seeds edges g n then Some (Max (?S n)) else None)"
    by (auto simp: closureAtGrade_correct)
  have none: "r n = None \<longleftrightarrow> (\<nexists>g. holds seeds edges g n)" for n
    using r(2) [of n] holds_at_threshold [of seeds edges _ n t] by auto
  have some: "holds seeds edges g n \<and> (\<forall>h. holds seeds edges h n \<longrightarrow> h \<le> g)" if "r n = Some g" for n g
  proof -
    from that r(2) [of n] have g: "g = Max (?S n)" "?S n \<noteq> {}" by (auto split: if_splits)
    then have "g \<in> ?S n" using Max_in [of "?S n"] by auto
    moreover have "h \<le> g" if "holds seeds edges h n" for h
    proof -
      from holds_at_threshold [OF that, of t] obtain k where "k \<in> ?S n" "h \<le> k" by blast
      with g show ?thesis by (auto intro: order_trans Max_ge)
    qed
    ultimately show ?thesis by blast
  qed
  have "r n = Some g \<longleftrightarrow> holds seeds edges g n \<and> (\<forall>h. holds seeds edges h n \<longrightarrow> h \<le> g)" for n g
    using some none [of n] by (cases "r n") (auto intro: antisym)
  with none r(1) assms show ?thesis
    by (auto simp: evaluateBooleanHypergraph_def Let_def)
qed

lemma hypergraphTop_Inr:
  "hypergraphTop top_v bot_v = Inr T \<longleftrightarrow> bot_v = 0 \<and> 0 \<le> T \<and> top_v = Finite (of_int T)"
  by (cases top_v) (auto simp: hypergraphTop_def)

text \<open>With a seed map (distinct keys), the collected seeds are the clamped seeds at the known nodes.\<close>

lemma collectSeeds_map:
  assumes "distinct (map fst seeds)"
  shows "distinct (map fst (collectSeeds nodes seeds b t)) \<and>
    map_of (collectSeeds nodes seeds b t) n = (if n \<in> nodes then map_option (\<lambda>v. clampInteger v b t) (map_of seeds n) else None)"
proof -
  have "distinct (map fst c) \<Longrightarrow> distinct (map fst seeds) \<Longrightarrow> \<forall>x \<in> fst ` set seeds. map_of c x = None \<Longrightarrow>
    distinct (map fst (fold (collect_seed nodes b t) seeds c)) \<and>
    map_of (fold (collect_seed nodes b t) seeds c) n =
      (case map_of seeds n of Some v \<Rightarrow> if n \<in> nodes then Some (clampInteger v b t) else map_of c n | None \<Rightarrow> map_of c n)" for c
  proof (induction seeds arbitrary: c)
    case (Cons kv seeds)
    obtain x v where kv: "kv = (x, v)" by (cases kv)
    let ?c = "collect_seed nodes b t kv c"
    from Cons.prems kv have x: "x \<notin> fst ` set seeds" "map_of c x = None" by auto
    then have c: "?c = (if x \<in> nodes then AList.update x (clampInteger v b t) c else c)"
      by (simp add: collect_seed_def kv Let_def)
    have "distinct (map fst ?c)" "\<forall>y \<in> fst ` set seeds. map_of ?c y = None"
      using Cons.prems x by (auto simp: c distinct_update update_conv')
    with Cons.IH [of ?c] Cons.prems x kv show ?case
      by (auto simp: c [unfolded kv] update_conv' map_of_eq_None_iff [symmetric] split: option.splits)
  qed simp
  from this [of "[]"] assms show ?thesis by (auto simp: collectSeeds_def split: option.split)
qed

section \<open>Properties of the hypergraph evaluation\<close>

text \<open>C7: the hypergraph evaluation is the joint closure, graded. For a nonnegative integer \<^verbatim>\<open>top\<close> it always
  returns, and the value of a node is the highest grade at which the node belongs to the least set
  that contains the seeds of at least that grade and is closed under the legal edges (a conjunction
  needs all its premises, a disjunction one, an identity copies); a node that is in no such set has
  no value at all, not the value 0.\<close>
theorem evaluateBooleanHypergraph_correct:
  assumes "hypergraphTop (hi_top inp) (hi_bottom inp) = Inr t"
  shows "\<exists>vals. evaluateBooleanHypergraph inp = Returned vals
    \<and> (\<forall>n g. vals n = Some g \<longleftrightarrow>
          holds (collectSeeds (set (hi_nodeIds inp)) (hi_seeds inp) 0 t) (legalEdges (set (hi_nodeIds inp)) (hi_edges inp) 0 t) g n
          \<and> (\<forall>h. holds (collectSeeds (set (hi_nodeIds inp)) (hi_seeds inp) 0 t) (legalEdges (set (hi_nodeIds inp)) (hi_edges inp) 0 t) h n \<longrightarrow> h \<le> g))
    \<and> (\<forall>n. vals n = None \<longleftrightarrow>
          (\<nexists>g. holds (collectSeeds (set (hi_nodeIds inp)) (hi_seeds inp) 0 t) (legalEdges (set (hi_nodeIds inp)) (hi_edges inp) 0 t) g n))"
  using evaluate_spec [OF assms refl refl] assms by (simp add: hypergraphTop_Inr)

definition sample_hypergraph :: "nat hypergraph_input" where
  "sample_hypergraph = \<lparr>hi_nodeIds = [1, 2, 3], hi_seeds = [(1, Finite 5), (2, Finite 8)],
     hi_edges = [AndEdge [1, 2] 3 (Finite 6)], hi_bottom = 0, hi_top = Finite 10\<rparr>"

theorem evaluateBooleanHypergraph_correct_witness:
  "\<exists>vals. evaluateBooleanHypergraph sample_hypergraph = Returned vals
    \<and> (\<forall>n. vals n = None \<longleftrightarrow> (\<nexists>g. holds [(1, 5), (2, 8)] [AndEdge [1, 2] 3 6] g n))"
proof -
  have top: "hypergraphTop (hi_top sample_hypergraph) (hi_bottom sample_hypergraph) = Inr 10"
    by (simp add: sample_hypergraph_def hypergraphTop_def)
  have "collectSeeds (set (hi_nodeIds sample_hypergraph)) (hi_seeds sample_hypergraph) 0 10 = [(1, 5), (2, 8)]"
    "legalEdges (set (hi_nodeIds sample_hypergraph)) (hi_edges sample_hypergraph) 0 10 = [AndEdge [1, 2] 3 6]"
    by (simp_all add: sample_hypergraph_def collectSeeds_def collect_seed_def legalEdges_def js_trunc_def)
  with evaluateBooleanHypergraph_correct [OF top] show ?thesis by auto
qed

end
