(* ===== verification/JsonValue.thy ===== *)
theory JsonValue
  imports Prelude
begin

text \<open>
  JSON values as the event payloads carry them, property access on an object, and
  \<^verbatim>\<open>JSON.stringify\<close> without indentation, whose length bounds an event payload
  (\<^verbatim>\<open>packages/protocol/src/shared/schema-primitives.ts\<close>).
\<close>

datatype json =
    JNull
  | JBool bool
  | JInt int
  | JString string
  | JArray "json list"
  | JObject "(string \<times> json) list"

type_synonym json_object = "(string \<times> json) list"

definition js_join :: "string \<Rightarrow> string list \<Rightarrow> string" where
  "js_join sep xs = (case xs of [] \<Rightarrow> [] | y # ys \<Rightarrow> y @ concat (map (\<lambda>x. sep @ x) ys))"

definition js_string_of_int :: "int \<Rightarrow> string" where
  "js_string_of_int i = (if i < 0 then ''-'' @ js_string_of_nat (nat (- i)) else js_string_of_nat (nat i))"

definition hex_digit :: "nat \<Rightarrow> char" where
  "hex_digit d = (if d < 10 then char_of (48 + d) else char_of (87 + d))"

definition json_escape :: "char \<Rightarrow> string" where
  "json_escape c = (let n = of_char c :: nat in
     if n = 34 then [CHR 92, CHR 34]
     else if n = 92 then [CHR 92, CHR 92]
     else if n = 8 then [CHR 92, CHR ''b'']
     else if n = 9 then [CHR 92, CHR ''t'']
     else if n = 10 then [CHR 92, CHR ''n'']
     else if n = 12 then [CHR 92, CHR ''f'']
     else if n = 13 then [CHR 92, CHR ''r'']
     else if n < 32 then [CHR 92, CHR ''u'', CHR ''0'', CHR ''0'', hex_digit (n div 16), hex_digit (n mod 16)]
     else [c])"

definition json_quote :: "string \<Rightarrow> string" where
  "json_quote s = [CHR 34] @ concat (map json_escape s) @ [CHR 34]"

fun json_stringify :: "json \<Rightarrow> string" where
  "json_stringify JNull = ''null''"
| "json_stringify (JBool b) = (if b then ''true'' else ''false'')"
| "json_stringify (JInt i) = js_string_of_int i"
| "json_stringify (JString s) = json_quote s"
| "json_stringify (JArray xs) = ''['' @ js_join '','' (map json_stringify xs) @ '']''"
| "json_stringify (JObject kvs) =
     ''{'' @ js_join '','' (map (\<lambda>(k, v). json_quote k @ '':'' @ json_stringify v) kvs) @ ''}''"

text \<open>\<^verbatim>\<open>BoundedJsonObjectSchema.safeParse(value).success\<close>: at most 16384 serialized characters.\<close>

definition bounded_json :: "json_object \<Rightarrow> bool" where
  "bounded_json obj \<longleftrightarrow> length (json_stringify (JObject obj)) \<le> 16384"

lemma length_js_join:
  "length (js_join sep xs) = sum_list (map length xs) + length sep * (length xs - 1)"
proof (cases xs)
  case (Cons y ys)
  have "length (concat (map (\<lambda>x. sep @ x) ys)) = sum_list (map length ys) + length sep * length ys"
    by (induction ys) auto
  with Cons show ?thesis by (simp add: js_join_def)
qed (simp add: js_join_def)

lemma sum_list_prefix_mono: "a \<le> b \<Longrightarrow> sum_list (map f (take a xs)) \<le> sum_list (map (f :: 'a \<Rightarrow> nat) (take b xs))"
proof (induction xs arbitrary: a b)
  case (Cons x xs)
  then show ?case by (cases a; cases b) auto
qed simp

lemma stringify_array_mono:
  assumes "a \<le> b"
  shows "length (json_stringify (JArray (take a xs))) \<le> length (json_stringify (JArray (take b xs)))"
proof -
  have "sum_list (map length (map json_stringify (take a xs))) \<le> sum_list (map length (map json_stringify (take b xs)))"
    using sum_list_prefix_mono [OF assms, of "length \<circ> json_stringify" xs] by (simp add: comp_def)
  moreover have "min (length xs) a - 1 \<le> min (length xs) b - 1" using assms by auto
  ultimately show ?thesis by (simp add: length_js_join del: map_map)
qed

lemma stringify_object_mono:
  assumes "length (json_stringify v) \<le> length (json_stringify w)"
  shows "length (json_stringify (JObject (xs @ (k, v) # ys))) \<le> length (json_stringify (JObject (xs @ (k, w) # ys)))"
  using assms by (simp add: length_js_join)

end
