(* ===== verification/GardenTier.thy ===== *)
theory GardenTier
  imports JsonValue
begin

text \<open>
  Roles, tiers, task kinds and permissions of the garden
  (\<^verbatim>\<open>packages/protocol/src/garden/garden-tier.ts\<close>), and the routing helpers of its scheduler
  (\<^verbatim>\<open>packages/soul/src/garden/scheduling/scheduler-helpers.ts\<close>, \<^verbatim>\<open>backlog-telemetry.ts\<close>).
  A role may run every task kind of the roles below it: this is what makes a lower-tier row
  safe to hand to a higher role.
\<close>

section \<open>Roles, tiers and task kinds\<close>

datatype garden_role = Janitor | Auditor | Librarian

datatype garden_tier = Tier_0 | Tier_1 | Tier_2

datatype garden_task_kind =
    Ttl_cleanup | Hot_index_demotion | Dormant_demotion | Tombstone_gc
  | Evidence_staleness_check | Pointer_health_check | Green_maintenance | Bootstrapping_scan
  | Crystallization_scan | Pointer_healing | Orphan_detection | Event_log_orphan_detection
  | Merge_proposal | Path_graph_snapshot | Subject_neighbor_detect | Path_compression
  | Template_candidate | Synthesis_review | Embedding_backfill | Path_plasticity_update
  | Post_turn_extract | Source_statement_session | Consolidation_cycle | Bulk_enrich | Edge_classify

primrec role_value :: "garden_role \<Rightarrow> string" where
  "role_value Janitor = ''janitor''"
| "role_value Auditor = ''auditor''"
| "role_value Librarian = ''librarian''"

primrec tier_value :: "garden_tier \<Rightarrow> string" where
  "tier_value Tier_0 = ''tier_0''"
| "tier_value Tier_1 = ''tier_1''"
| "tier_value Tier_2 = ''tier_2''"

primrec kind_value :: "garden_task_kind \<Rightarrow> string" where
  "kind_value Ttl_cleanup = ''ttl_cleanup''"
| "kind_value Hot_index_demotion = ''hot_index_demotion''"
| "kind_value Dormant_demotion = ''dormant_demotion''"
| "kind_value Tombstone_gc = ''tombstone_gc''"
| "kind_value Evidence_staleness_check = ''evidence_staleness_check''"
| "kind_value Pointer_health_check = ''pointer_health_check''"
| "kind_value Green_maintenance = ''green_maintenance''"
| "kind_value Bootstrapping_scan = ''bootstrapping_scan''"
| "kind_value Crystallization_scan = ''crystallization_scan''"
| "kind_value Pointer_healing = ''pointer_healing''"
| "kind_value Orphan_detection = ''orphan_detection''"
| "kind_value Event_log_orphan_detection = ''event_log_orphan_detection''"
| "kind_value Merge_proposal = ''merge_proposal''"
| "kind_value Path_graph_snapshot = ''path_graph_snapshot''"
| "kind_value Subject_neighbor_detect = ''subject_neighbor_detect''"
| "kind_value Path_compression = ''path_compression''"
| "kind_value Template_candidate = ''template_candidate''"
| "kind_value Synthesis_review = ''synthesis_review''"
| "kind_value Embedding_backfill = ''embedding_backfill''"
| "kind_value Path_plasticity_update = ''path_plasticity_update''"
| "kind_value Post_turn_extract = ''post_turn_extract''"
| "kind_value Source_statement_session = ''source_statement_session''"
| "kind_value Consolidation_cycle = ''consolidation_cycle''"
| "kind_value Bulk_enrich = ''bulk_enrich''"
| "kind_value Edge_classify = ''edge_classify''"

primrec GARDEN_ROLE_TIER_MAP :: "garden_role \<Rightarrow> garden_tier" where
  "GARDEN_ROLE_TIER_MAP Janitor = Tier_0"
| "GARDEN_ROLE_TIER_MAP Auditor = Tier_1"
| "GARDEN_ROLE_TIER_MAP Librarian = Tier_2"

definition janitorTaskKinds :: "garden_task_kind list" where
  "janitorTaskKinds = [Ttl_cleanup, Hot_index_demotion, Dormant_demotion, Tombstone_gc]"

definition auditorTaskKinds :: "garden_task_kind list" where
  "auditorTaskKinds = janitorTaskKinds @
     [Evidence_staleness_check, Pointer_health_check, Green_maintenance, Bootstrapping_scan,
      Crystallization_scan, Pointer_healing, Orphan_detection, Event_log_orphan_detection]"

definition librarianTaskKinds :: "garden_task_kind list" where
  "librarianTaskKinds = auditorTaskKinds @
     [Merge_proposal, Path_graph_snapshot, Subject_neighbor_detect, Path_compression,
      Template_candidate, Synthesis_review, Embedding_backfill, Path_plasticity_update,
      Consolidation_cycle, Bulk_enrich]"

text \<open>\<^verbatim>\<open>GARDEN_ROLE_PERMISSIONS[role].allowed_task_kinds\<close>.\<close>

primrec allowed_task_kinds :: "garden_role \<Rightarrow> garden_task_kind list" where
  "allowed_task_kinds Janitor = janitorTaskKinds"
| "allowed_task_kinds Auditor = auditorTaskKinds"
| "allowed_task_kinds Librarian = librarianTaskKinds"

record garden_task_descriptor =
  d_task_id :: string
  d_task_kind :: garden_task_kind
  d_required_tier :: garden_tier
  d_workspace_id :: string
  d_run_id :: "string option"
  d_target_object_refs :: "string list"
  d_priority :: nat
  d_created_at :: string
  d_periodic :: "bool option"
  d_turn_index :: "nat option"
  d_turn_digest :: "json_object option"
  d_source_object_id :: "string option"
  d_source_revision :: "nat option"
  d_enrichment_contract :: "string option"

datatype garden_task_outcome = Completed | Skipped | Failed

definition gardenTaskOutcomeSuccess :: "garden_task_outcome \<Rightarrow> bool" where
  "gardenTaskOutcomeSuccess outcome \<longleftrightarrow> outcome \<noteq> Failed"

record garden_task_result =
  g_task_id :: string
  g_task_kind :: garden_task_kind
  g_role :: garden_role
  g_tier :: garden_tier
  g_workspace_id :: string
  g_success :: bool
  g_outcome :: "garden_task_outcome option"
  g_objects_affected :: "string list"
  g_audit_entries :: "string list"
  g_error_message :: "string option"
  g_completed_at :: string

section \<open>Task rows and events\<close>

text \<open>
  The rows of \<^verbatim>\<open>scheduler-types.ts\<close>. The in-memory repository stores the parsed descriptor as
  the payload of a row and beside it.
\<close>

datatype task_status = Pending | Claimed | Status_completed | Status_failed

record garden_task_row =
  r_id :: string
  r_workspace_id :: string
  r_role :: garden_role
  r_kind :: garden_task_kind
  r_payload :: garden_task_descriptor
  r_status :: task_status
  r_claimed_by :: "string option"
  r_claimed_at :: "string option"
  r_created_at :: string
  r_completed_at :: "string option"
  r_attempt_count :: nat
  r_last_error_text :: "string option"

record in_memory_row = garden_task_row +
  r_descriptor :: garden_task_descriptor

record task_event =
  e_event_type :: string
  e_entity_type :: string
  e_entity_id :: string
  e_workspace_id :: string
  e_run_id :: "string option"
  e_caused_by :: "string option"
  e_payload_json :: json_object

record scheduler_event =
  s_event_type :: string
  s_entity_type :: string
  s_entity_id :: string
  s_workspace_id :: string
  s_run_id :: "string option"
  s_payload :: json_object

datatype claim_result = Claim_ok | Already_claimed

abbreviation "SOUL_GARDEN_TASK_DISPATCHED \<equiv> ''soul.garden.task_dispatched''"
abbreviation "SOUL_GARDEN_TASK_COMPLETED \<equiv> ''soul.garden.task_completed''"
abbreviation "SOUL_GARDEN_TIER_VIOLATION_REJECTED \<equiv> ''soul.garden.tier_violation_rejected''"

section \<open>Scheduler helpers\<close>

primrec TIER_ORDER :: "garden_tier \<Rightarrow> nat" where
  "TIER_ORDER Tier_0 = 0"
| "TIER_ORDER Tier_1 = 1"
| "TIER_ORDER Tier_2 = 2"

text \<open>
  \<^verbatim>\<open>localeCompare\<close> compares the collation keys of the two strings; the collation itself is
  host data, a parameter here.
\<close>

definition localeCompare :: "(string \<Rightarrow> string) \<Rightarrow> string \<Rightarrow> string \<Rightarrow> int" where
  "localeCompare collate a b =
     (if collate a < collate b then -1 else if collate a = collate b then 0 else 1)"

definition compareTasks :: "(string \<Rightarrow> string) \<Rightarrow> garden_task_descriptor \<Rightarrow> garden_task_descriptor \<Rightarrow> int" where
  "compareTasks collate l r =
     (if d_priority l \<noteq> d_priority r then int (d_priority r) - int (d_priority l)
      else if d_created_at l \<noteq> d_created_at r then (if d_created_at l < d_created_at r then -1 else 1)
      else localeCompare collate (d_task_id l) (d_task_id r))"

definition buildCoolingKey :: "garden_task_kind \<Rightarrow> string \<Rightarrow> string" where
  "buildCoolingKey kind ref = kind_value kind @ '':'' @ ref"

definition assertEnvelopeIdentity :: "string \<Rightarrow> string \<Rightarrow> string \<Rightarrow> string + unit" where
  "assertEnvelopeIdentity label rowValue taskValue =
     (if rowValue \<noteq> taskValue
      then Inl (''Garden task '' @ label @ '' mismatch: row='' @ rowValue @ '', payload='' @ taskValue @ ''.'')
      else Inr ())"

text \<open>
  \<open>parse\<close> is the verdict of \<^verbatim>\<open>GardenTaskDescriptorSchema.parse\<close>: the descriptor itself, or the
  validation error it throws. \<open>stored\<close> is \<^verbatim>\<open>row.descriptor\<close>.
\<close>

definition parseTaskDescriptorFromRow ::
  "(garden_task_descriptor \<Rightarrow> string + garden_task_descriptor) \<Rightarrow> 'a garden_task_row_scheme
    \<Rightarrow> garden_task_descriptor option \<Rightarrow> string + garden_task_descriptor" where
  "parseTaskDescriptorFromRow parse row stored =
     (case (case stored of Some d \<Rightarrow> Inr d | None \<Rightarrow> parse (r_payload row)) of
        Inl e \<Rightarrow> Inl e
      | Inr task \<Rightarrow>
          (case assertEnvelopeIdentity ''task id'' (r_id row) (d_task_id task) of
             Inl e \<Rightarrow> Inl e
           | Inr _ \<Rightarrow>
               (case assertEnvelopeIdentity ''workspace'' (r_workspace_id row) (d_workspace_id task) of
                  Inl e \<Rightarrow> Inl e
                | Inr _ \<Rightarrow>
                    (case assertEnvelopeIdentity ''kind'' (kind_value (r_kind row)) (kind_value (d_task_kind task)) of
                       Inl e \<Rightarrow> Inl e
                     | Inr _ \<Rightarrow> Inr task))))"

primrec roleForTier :: "garden_tier \<Rightarrow> garden_role" where
  "roleForTier Tier_0 = Janitor"
| "roleForTier Tier_1 = Auditor"
| "roleForTier Tier_2 = Librarian"

definition tierForRole :: "garden_role \<Rightarrow> garden_tier" where
  "tierForRole role = GARDEN_ROLE_TIER_MAP role"

definition taskKindAllowedAtTier :: "garden_task_kind \<Rightarrow> garden_tier \<Rightarrow> bool" where
  "taskKindAllowedAtTier kind tier \<longleftrightarrow> kind \<in> set (allowed_task_kinds (roleForTier tier))"

definition gardenTaskRoutingError ::
  "'a garden_task_row_scheme \<Rightarrow> garden_task_descriptor \<Rightarrow> garden_role \<Rightarrow> string option" where
  "gardenTaskRoutingError row task dispatchRole =
     (if r_role row \<noteq> roleForTier (d_required_tier task)
      then Some (''role '' @ role_value (r_role row) @ '' does not match required tier '' @ tier_value (d_required_tier task))
      else if \<not> taskKindAllowedAtTier (d_task_kind task) (d_required_tier task)
      then Some (kind_value (d_task_kind task) @ '' is not allowed at '' @ tier_value (d_required_tier task))
      else if d_task_kind task \<in> set (allowed_task_kinds dispatchRole) then None
      else Some (kind_value (d_task_kind task) @ '' is not allowed for '' @ role_value dispatchRole))"

definition countByStatus :: "(garden_role \<times> task_status \<times> nat) list \<Rightarrow> task_status \<Rightarrow> nat" where
  "countByStatus counts status =
     foldl (\<lambda>total (_, _, n). total + n) 0 (filter (\<lambda>(_, s, _). s = status) counts)"

definition canRolePeekPending :: "garden_role \<Rightarrow> garden_role \<Rightarrow> bool" where
  "canRolePeekPending role taskRole \<longleftrightarrow>
     TIER_ORDER (tierForRole taskRole) \<le> TIER_ORDER (GARDEN_ROLE_TIER_MAP role)"

section \<open>Backlog pressure\<close>

record backlog_thresholds =
  warning_queue_depth :: int
  warning_rearm_depth :: int

datatype backlog_transition = Arm | Clear | No_transition

definition evaluateBacklogPressure :: "bool \<Rightarrow> nat \<Rightarrow> backlog_thresholds \<Rightarrow> backlog_transition" where
  "evaluateBacklogPressure armed depth thresholds =
     (if \<not> armed \<and> int depth > warning_queue_depth thresholds then Arm
      else if armed \<and> int depth < warning_rearm_depth thresholds then Clear
      else No_transition)"

section \<open>Facts\<close>

lemma role_tier_inverse [simp]: "GARDEN_ROLE_TIER_MAP (roleForTier t) = t" "roleForTier (GARDEN_ROLE_TIER_MAP r) = r"
  by (cases t; simp) (cases r; simp)

lemma kind_value_inject: "kind_value a = kind_value b \<longleftrightarrow> a = b"
  by (cases a; cases b) simp_all

lemma kind_value_no_colon: "CHR '':'' \<notin> set (kind_value a)"
  by (cases a) simp_all

lemma split_first_unique:
  "c \<notin> set xs \<Longrightarrow> c \<notin> set ys \<Longrightarrow> xs @ c # us = ys @ c # vs \<longleftrightarrow> xs = ys \<and> us = vs"
proof (induction xs arbitrary: ys)
  case Nil
  then show ?case by (cases ys) auto
next
  case (Cons x xs)
  then show ?case by (cases ys) auto
qed

lemma buildCoolingKey_inject:
  "buildCoolingKey a r = buildCoolingKey b q \<longleftrightarrow> a = b \<and> r = q"
  using split_first_unique [OF kind_value_no_colon kind_value_no_colon]
  by (simp add: buildCoolingKey_def kind_value_inject)

lemma permissions_monotone:
  "canRolePeekPending role taskRole \<Longrightarrow> set (allowed_task_kinds taskRole) \<subseteq> set (allowed_task_kinds role)"
  by (cases role; cases taskRole)
    (auto simp: canRolePeekPending_def tierForRole_def auditorTaskKinds_def librarianTaskKinds_def)

lemma routing_error_None:
  "gardenTaskRoutingError row task role = None \<longleftrightarrow>
     r_role row = roleForTier (d_required_tier task) \<and>
     taskKindAllowedAtTier (d_task_kind task) (d_required_tier task) \<and>
     d_task_kind task \<in> set (allowed_task_kinds role)"
  by (auto simp: gardenTaskRoutingError_def)

lemma parseTaskDescriptorFromRow_stored:
  "parseTaskDescriptorFromRow parse row (Some d) = Inr t \<longleftrightarrow>
     t = d \<and> r_id row = d_task_id d \<and> r_workspace_id row = d_workspace_id d \<and> r_kind row = d_task_kind d"
  by (auto simp: parseTaskDescriptorFromRow_def assertEnvelopeIdentity_def kind_value_inject)

text \<open>\<open>compareTasks\<close> is a total preorder, so sorting by it is well defined.\<close>

interpretation tasks: js_comparator "compareTasks collate" for collate
proof
  show "compareTasks collate x y \<le> 0 \<or> compareTasks collate y x \<le> 0" for x y
    by (auto simp: compareTasks_def localeCompare_def)
  show "compareTasks collate x z \<le> 0" if "compareTasks collate x y \<le> 0" "compareTasks collate y z \<le> 0" for x y z
    using that by (auto simp: compareTasks_def localeCompare_def split: if_splits)
qed

lemma countByStatus_sum:
  "countByStatus counts status = (\<Sum>(_, s, n) \<leftarrow> counts. if s = status then n else 0)"
proof -
  have "foldl (\<lambda>total (_, _, n). total + n) a (filter (\<lambda>(_, s, _). s = status) counts) =
      a + (\<Sum>(_, s, n) \<leftarrow> counts. if s = status then n else 0)" for a
    by (induction counts arbitrary: a) auto
  from this [of 0] show ?thesis by (simp add: countByStatus_def)
qed

end
