(* ===== verification/GardenTaskRepo.thy ===== *)
theory GardenTaskRepo
  imports GardenTier "HOL-Library.AList"
begin

text \<open>
  The in-process garden task queue
  (\<^verbatim>\<open>packages/soul/src/garden/scheduling/in-memory-garden-task-repo.ts\<close>). Rows are kept sorted;
  every transition that is audited appends its events before it touches a row. The event log is a
  port: its operations are parameters, its state \<open>'l\<close> is opaque, and an append may fail.
  The first part translates the methods as they run when nothing else interleaves; the second is
  the step relation of methods that await the log while other callers proceed, under the per-task
  mutex.
\<close>

section \<open>State and ports\<close>

record 'l event_port =
  port_append :: "scheduler_event \<Rightarrow> 'l \<Rightarrow> string option \<times> 'l"
  port_appendManyAtomic :: "(scheduler_event list \<Rightarrow> 'l \<Rightarrow> string option \<times> 'l) option"

record 'l repo =
  rows :: "in_memory_row list"
  reservedTaskIds :: "string set"
  eventLog :: 'l

record enqueue_input =
  i_id :: "string option"
  i_workspace_id :: string
  i_role :: garden_role
  i_kind :: garden_task_kind
  i_payload :: garden_task_descriptor
  i_created_at :: "string option"

record reclaim_input =
  c_task_id :: string
  c_claimed_by :: string
  c_claimed_at :: string
  c_event :: task_event

section \<open>Row lists\<close>

definition find_row :: "string \<Rightarrow> in_memory_row list \<Rightarrow> in_memory_row option" where
  "find_row taskId rs = List.find (\<lambda>row. r_id row = taskId) rs"

definition sort_rows :: "(string \<Rightarrow> string) \<Rightarrow> in_memory_row list \<Rightarrow> in_memory_row list" where
  "sort_rows collate = js_sort (\<lambda>l r. compareTasks collate (r_descriptor l) (r_descriptor r))"

fun replaceRow :: "in_memory_row list \<Rightarrow> in_memory_row \<Rightarrow> in_memory_row \<Rightarrow> in_memory_row list option" where
  "replaceRow [] oldRow newRow = None"
| "replaceRow (x # xs) oldRow newRow =
     (if x = oldRow then Some (newRow # xs) else map_option (Cons x) (replaceRow xs oldRow newRow))"

definition staleRow :: "string \<Rightarrow> string" where
  "staleRow taskId = ''Garden task '' @ taskId @ '' row reference is stale; mutation cannot be applied.''"

text \<open>\<^verbatim>\<open>assertReplaced(replaceRow(...), taskId)\<close>.\<close>

definition replace_asserted :: "string \<Rightarrow> in_memory_row \<Rightarrow> in_memory_row \<Rightarrow> ('l repo, unit) action" where
  "replace_asserted taskId oldRow newRow st =
     (case replaceRow (rows st) oldRow newRow of
        None \<Rightarrow> (Inl (staleRow taskId), st)
      | Some rs \<Rightarrow> (Inr (), st\<lparr>rows := rs\<rparr>))"

definition removeRow :: "in_memory_row \<Rightarrow> ('l repo, unit) action" where
  "removeRow row st =
     (if row \<in> set (rows st) then (Inr (), st\<lparr>rows := remove1 row (rows st)\<rparr>)
      else (Inl (staleRow (r_id row)), st))"

section \<open>Event appends\<close>

definition toSchedulerEvent :: "task_event \<Rightarrow> scheduler_event" where
  "toSchedulerEvent ev =
     \<lparr>s_event_type = e_event_type ev, s_entity_type = e_entity_type ev, s_entity_id = e_entity_id ev,
      s_workspace_id = e_workspace_id ev, s_run_id = e_run_id ev, s_payload = e_payload_json ev\<rparr>"

definition log_call :: "('l \<Rightarrow> string option \<times> 'l) \<Rightarrow> ('l repo, unit) action" where
  "log_call f st =
     (case f (eventLog st) of
        (None, l) \<Rightarrow> (Inr (), st\<lparr>eventLog := l\<rparr>)
      | (Some e, l) \<Rightarrow> (Inl e, st\<lparr>eventLog := l\<rparr>))"

definition appendTaskEvent :: "'l event_port \<Rightarrow> task_event \<Rightarrow> ('l repo, unit) action" where
  "appendTaskEvent port ev = log_call (port_append port (toSchedulerEvent ev))"

definition appendTaskEvents :: "'l event_port \<Rightarrow> task_event list \<Rightarrow> ('l repo, unit) action" where
  "appendTaskEvents port evs =
     (case evs of
        [] \<Rightarrow> ret ()
      | [ev] \<Rightarrow> appendTaskEvent port ev
      | _ \<Rightarrow>
        (case port_appendManyAtomic port of
           None \<Rightarrow> throw ''Garden task multi-event transition requires atomic batch append support.''
         | Some many \<Rightarrow> log_call (many (map toSchedulerEvent evs))))"

text \<open>The \<^verbatim>\<open>finally\<close> block releases the reservation on both paths.\<close>

definition appendCompletionWithoutRow :: "'l event_port \<Rightarrow> string \<Rightarrow> task_event list \<Rightarrow> ('l repo, unit) action" where
  "appendCompletionWithoutRow port taskId evs st =
     (if evs = [] then (Inr (), st)
      else (case appendTaskEvents port evs (st\<lparr>reservedTaskIds := insert taskId (reservedTaskIds st)\<rparr>) of
              (r, st') \<Rightarrow> (r, st'\<lparr>reservedTaskIds := reservedTaskIds st' - {taskId}\<rparr>)))"

definition assertFailureCompletionEvent :: "string \<Rightarrow> task_event \<Rightarrow> ('l repo, unit) action" where
  "assertFailureCompletionEvent taskId ev =
     (if e_event_type ev \<noteq> SOUL_GARDEN_TASK_COMPLETED \<or> e_entity_type ev \<noteq> ''garden_task'' \<or>
         e_entity_id ev \<noteq> taskId \<or> map_of (e_payload_json ev) ''task_id'' \<noteq> Some (JString taskId) \<or>
         map_of (e_payload_json ev) ''success'' \<noteq> Some (JBool False)
      then throw (''Garden task '' @ taskId @ '' pending failure requires its own unsuccessful completion event.'')
      else ret ())"

section \<open>The repository's methods\<close>

definition is_open_periodic :: "enqueue_input \<Rightarrow> in_memory_row \<Rightarrow> bool" where
  "is_open_periodic input row \<longleftrightarrow>
     r_workspace_id row = i_workspace_id input \<and> r_kind row = i_kind input \<and>
     d_periodic (r_descriptor row) = Some True \<and> (r_status row = Pending \<or> r_status row = Claimed)"

definition new_row :: "string \<Rightarrow> string \<Rightarrow> enqueue_input \<Rightarrow> garden_task_descriptor \<Rightarrow> in_memory_row" where
  "new_row taskId createdAt input desc =
     \<lparr>r_id = taskId, r_workspace_id = i_workspace_id input, r_role = i_role input, r_kind = i_kind input,
      r_payload = desc, r_status = Pending, r_claimed_by = None, r_claimed_at = None,
      r_created_at = createdAt, r_completed_at = None, r_attempt_count = 0, r_last_error_text = None,
      r_descriptor = desc\<rparr>"

definition task_id_or_default :: "enqueue_input \<Rightarrow> 'l repo \<Rightarrow> string" where
  "task_id_or_default input st =
     (case i_id input of Some i \<Rightarrow> i | None \<Rightarrow> ''garden-task-'' @ js_string_of_nat (length (rows st) + 1))"

text \<open>
  \<open>parse\<close> is the verdict of the descriptor schema, \<open>clock\<close> the time \<^verbatim>\<open>new Date()\<close> shows.
\<close>

definition enqueue ::
  "(string \<Rightarrow> string) \<Rightarrow> (garden_task_descriptor \<Rightarrow> string + garden_task_descriptor) \<Rightarrow> string
    \<Rightarrow> enqueue_input \<Rightarrow> ('l repo, string) action" where
  "enqueue collate parse clock input st =
     (case parse (i_payload input) of
        Inl e \<Rightarrow> (Inl e, st)
      | Inr desc \<Rightarrow>
          let taskId = task_id_or_default input st;
              createdAt = (case i_created_at input of Some c \<Rightarrow> c | None \<Rightarrow> clock)
          in case (if d_periodic desc = Some True then List.find (is_open_periodic input) (rows st) else None) of
               Some existing \<Rightarrow> (Inr (r_id existing), st)
             | None \<Rightarrow>
                 if taskId \<in> reservedTaskIds st \<or> taskId \<in> r_id ` set (rows st)
                 then (Inl (''Garden task '' @ taskId @ '' already exists.''), st)
                 else (Inr taskId, st\<lparr>rows := sort_rows collate (rows st @ [new_row taskId createdAt input desc])\<rparr>))"

definition peekPending :: "garden_role \<Rightarrow> string option \<Rightarrow> nat \<Rightarrow> 'l repo \<Rightarrow> in_memory_row list" where
  "peekPending role ws limit st =
     take limit
       (filter (\<lambda>row. case ws of None \<Rightarrow> True | Some w \<Rightarrow> r_workspace_id row = w)
         (filter (\<lambda>row. canRolePeekPending role (r_role row))
           (filter (\<lambda>row. r_status row = Pending) (rows st))))"

definition findById :: "string \<Rightarrow> 'l repo \<Rightarrow> in_memory_row option" where
  "findById taskId st = find_row taskId (rows st)"

definition claimed_row :: "string \<Rightarrow> string \<Rightarrow> in_memory_row \<Rightarrow> in_memory_row" where
  "claimed_row claimedBy claimedAt row =
     row\<lparr>r_status := Claimed, r_claimed_by := Some claimedBy, r_claimed_at := Some claimedAt,
         r_attempt_count := r_attempt_count row + 1\<rparr>"

definition claimPending :: "string \<Rightarrow> string \<Rightarrow> string \<Rightarrow> ('l repo, claim_result) action" where
  "claimPending taskId claimedBy claimedAt st =
     (case find_row taskId (rows st) of
        None \<Rightarrow> (Inr Already_claimed, st)
      | Some row \<Rightarrow>
          if r_status row \<noteq> Pending then (Inr Already_claimed, st)
          else and_then (replace_asserted taskId row (claimed_row claimedBy claimedAt row))
                 (\<lambda>_. ret Claim_ok) st)"

definition claimAtomic :: "string \<Rightarrow> string \<Rightarrow> string \<Rightarrow> ('l repo, claim_result) action" where
  "claimAtomic = claimPending"

definition claimAtomicWithEvents ::
  "'l event_port \<Rightarrow> string \<Rightarrow> string \<Rightarrow> string \<Rightarrow> task_event list \<Rightarrow> ('l repo, claim_result) action" where
  "claimAtomicWithEvents port taskId claimedBy claimedAt dispatchedEvents st =
     (case find_row taskId (rows st) of
        None \<Rightarrow> (Inr Already_claimed, st)
      | Some row \<Rightarrow>
          if r_status row \<noteq> Pending then (Inr Already_claimed, st)
          else and_then (appendTaskEvents port dispatchedEvents) (\<lambda>_. claimPending taskId claimedBy claimedAt) st)"

definition failPendingWithCompletionEvent ::
  "'l event_port \<Rightarrow> string \<Rightarrow> task_event \<Rightarrow> task_event list \<Rightarrow> ('l repo, bool) action" where
  "failPendingWithCompletionEvent port taskId completionEvent precedingEvents =
     and_then (assertFailureCompletionEvent taskId completionEvent) (\<lambda>_ st.
       case find_row taskId (rows st) of
         None \<Rightarrow> (Inr False, st)
       | Some row \<Rightarrow>
           if r_status row \<noteq> Pending then (Inr False, st)
           else and_then (appendTaskEvents port (precedingEvents @ [completionEvent]))
                  (\<lambda>_. and_then (removeRow row) (\<lambda>_. ret True)) st)"

definition completeWithEvents ::
  "'l event_port \<Rightarrow> string \<Rightarrow> task_event list \<Rightarrow> string \<Rightarrow> ('l repo, unit) action" where
  "completeWithEvents port taskId evs claimedBy st =
     (case find_row taskId (rows st) of
        None \<Rightarrow> appendCompletionWithoutRow port taskId evs st
      | Some row \<Rightarrow>
          if r_status row \<noteq> Pending \<and> r_status row \<noteq> Claimed then (Inr (), st)
          else if r_claimed_by row \<noteq> Some claimedBy
          then (Inl (''Garden task '' @ taskId @ '' is not claimed by the expected worker.''), st)
          else and_then (appendTaskEvents port evs) (\<lambda>_. removeRow row) st)"

definition peekAbandonedClaims ::
  "(string \<Rightarrow> int option) \<Rightarrow> string \<Rightarrow> int \<Rightarrow> 'l repo \<Rightarrow> in_memory_row list" where
  "peekAbandonedClaims dateParse now staleAfterMs st =
     filter (\<lambda>row. case (r_claimed_at row, dateParse now) of
                (Some claimed, Some n) \<Rightarrow>
                  (case dateParse claimed of Some a \<Rightarrow> a < n - staleAfterMs | None \<Rightarrow> False)
              | _ \<Rightarrow> False)
       (filter (\<lambda>row. r_status row = Claimed \<and> r_claimed_at row \<noteq> None) (rows st))"

definition findReclaimableRow :: "reclaim_input \<Rightarrow> 'l repo \<Rightarrow> string + in_memory_row" where
  "findReclaimableRow reclaim st =
     (case find_row (c_task_id reclaim) (rows st) of
        Some row \<Rightarrow>
          if r_status row \<noteq> Claimed \<or> r_claimed_by row \<noteq> Some (c_claimed_by reclaim) \<or>
             r_claimed_at row \<noteq> Some (c_claimed_at reclaim)
          then Inl (''Garden task '' @ c_task_id reclaim @ '' claim changed and cannot be reclaimed.'')
          else Inr row
      | None \<Rightarrow> Inl (''Garden task '' @ c_task_id reclaim @ '' claim changed and cannot be reclaimed.''))"

definition unclaimed :: "in_memory_row \<Rightarrow> in_memory_row" where
  "unclaimed row = row\<lparr>r_status := Pending, r_claimed_by := None, r_claimed_at := None\<rparr>"

definition reclaim_one :: "'l event_port \<Rightarrow> reclaim_input \<Rightarrow> ('l repo, unit) action" where
  "reclaim_one port reclaim st =
     and_then (lift_result (findReclaimableRow reclaim st)) (\<lambda>row.
       and_then (appendTaskEvent port (c_event reclaim)) (\<lambda>_.
         replace_asserted (c_task_id reclaim) row (unclaimed row))) st"

fun reclaim_validate :: "reclaim_input list \<Rightarrow> ('l repo, unit) action" where
  "reclaim_validate [] st = (Inr (), st)"
| "reclaim_validate (c # cs) st =
     (case findReclaimableRow c st of Inl e \<Rightarrow> (Inl e, st) | Inr _ \<Rightarrow> reclaim_validate cs st)"

fun reclaim_apply :: "'l event_port \<Rightarrow> reclaim_input list \<Rightarrow> nat \<Rightarrow> ('l repo, nat) action" where
  "reclaim_apply port [] reclaimed st = (Inr reclaimed, st)"
| "reclaim_apply port (c # cs) reclaimed st =
     and_then (reclaim_one port c) (\<lambda>_. reclaim_apply port cs (reclaimed + 1)) st"

definition gcAbandonedClaims :: "'l event_port \<Rightarrow> reclaim_input list \<Rightarrow> ('l repo, nat) action" where
  "gcAbandonedClaims port reclaims =
     and_then (reclaim_validate reclaims) (\<lambda>_. reclaim_apply port reclaims 0)"

definition count_row ::
  "string option \<Rightarrow> ((garden_role \<times> task_status) \<times> nat) list \<Rightarrow> in_memory_row
    \<Rightarrow> ((garden_role \<times> task_status) \<times> nat) list" where
  "count_row ws counts row =
     (if r_status row \<noteq> Pending \<and> r_status row \<noteq> Claimed then counts
      else if (case ws of None \<Rightarrow> False | Some w \<Rightarrow> r_workspace_id row \<noteq> w) then counts
      else let key = (r_role row, r_status row)
           in AList.update key ((case map_of counts key of None \<Rightarrow> 0 | Some n \<Rightarrow> n) + 1) counts)"

definition countBacklog :: "'l repo \<Rightarrow> string option \<Rightarrow> (garden_role \<times> task_status \<times> nat) list" where
  "countBacklog st ws = map (\<lambda>((role, status), n). (role, status, n)) (foldl (count_row ws) [] (rows st))"

definition releaseClaimForWorker :: "(string \<Rightarrow> string) \<Rightarrow> string \<Rightarrow> string \<Rightarrow> ('l repo, bool) action" where
  "releaseClaimForWorker collate taskId claimedBy st =
     (case find_row taskId (rows st) of
        None \<Rightarrow> (Inr False, st)
      | Some row \<Rightarrow>
          if r_status row \<noteq> Claimed \<or> r_claimed_by row \<noteq> Some claimedBy then (Inr False, st)
          else and_then (replace_asserted taskId row (unclaimed row))
                 (\<lambda>_ st'. (Inr True, st'\<lparr>rows := sort_rows collate (rows st')\<rparr>)) st)"

definition releaseClaim :: "(string \<Rightarrow> string) \<Rightarrow> string \<Rightarrow> string \<Rightarrow> ('l repo, bool) action" where
  "releaseClaim = releaseClaimForWorker"

section \<open>Row list lemmas\<close>

lemma find_row_Some: "find_row t rs = Some row \<Longrightarrow> row \<in> set rs \<and> r_id row = t"
  by (auto simp: find_row_def find_Some_iff)

lemma find_row_None: "find_row t rs = None \<longleftrightarrow> t \<notin> r_id ` set rs"
  by (auto simp: find_row_def find_None_iff)

lemma find_row_distinct: "distinct (map r_id rs) \<Longrightarrow> row \<in> set rs \<Longrightarrow> find_row (r_id row) rs = Some row"
  by (induction rs) (auto simp: find_row_def)

definition update_row :: "in_memory_row \<Rightarrow> in_memory_row list \<Rightarrow> in_memory_row list" where
  "update_row new rs = map (\<lambda>x. if r_id x = r_id new then new else x) rs"

lemma update_row_absent: "r_id new \<notin> r_id ` set rs \<Longrightarrow> update_row new rs = rs"
  unfolding update_row_def by (induction rs) auto

lemma replaceRow_update:
  "distinct (map r_id rs) \<Longrightarrow> old \<in> set rs \<Longrightarrow> r_id new = r_id old \<Longrightarrow> replaceRow rs old new = Some (update_row new rs)"
proof (induction rs)
  case (Cons x xs)
  show ?case
  proof (cases "x = old")
    case True
    with Cons.prems have "r_id new \<notin> r_id ` set xs" by auto
    with True Cons.prems(3) show ?thesis
      using update_row_absent [of new xs] by (simp add: update_row_def)
  next
    case False
    with Cons.prems have "r_id x \<noteq> r_id new" by auto
    with False Cons show ?thesis by (auto simp: update_row_def)
  qed
qed simp

lemma ids_update_row [simp]: "map r_id (update_row new rs) = map r_id rs"
  by (simp add: update_row_def)

lemma in_update_row: "x \<in> set (update_row new rs) \<Longrightarrow> x = new \<or> x \<in> set rs \<and> r_id x \<noteq> r_id new"
  by (auto simp: update_row_def split: if_splits)

lemma descriptors_update_row:
  "distinct (map r_id rs) \<Longrightarrow> old \<in> set rs \<Longrightarrow> r_id new = r_id old \<Longrightarrow> r_descriptor new = r_descriptor old
    \<Longrightarrow> map r_descriptor (update_row new rs) = map r_descriptor rs"
  by (auto simp: update_row_def) (metis find_row_distinct option.inject)

lemma remove1_filter_ids:
  "distinct (map r_id rs) \<Longrightarrow> row \<in> set rs \<Longrightarrow> remove1 row rs = filter (\<lambda>x. r_id x \<noteq> r_id row) rs"
proof (induction rs)
  case (Cons x xs)
  show ?case
  proof (cases "x = row")
    case True
    with Cons.prems have "\<forall>y \<in> set xs. r_id y \<noteq> r_id row" by auto (metis imageI)
    with True show ?thesis by (simp add: filter_True)
  next
    case False
    with Cons show ?thesis by auto
  qed
qed simp

lemma find_update_row:
  "distinct (map r_id rs) \<Longrightarrow> old \<in> set rs \<Longrightarrow> r_id new = r_id old
    \<Longrightarrow> find_row t (update_row new rs) = (if t = r_id new then Some new else find_row t rs)"
proof (induction rs)
  case (Cons x xs)
  show ?case
  proof (cases "x = old")
    case True
    with Cons.prems have "update_row new xs = xs" by (intro update_row_absent) auto
    with True Cons.prems(3) show ?thesis by (auto simp: update_row_def find_row_def)
  next
    case False
    with Cons show ?thesis by (auto simp: update_row_def find_row_def)
  qed
qed simp

lemma mset_sort_rows [simp]: "mset (sort_rows collate rs) = mset rs"
  by (simp add: sort_rows_def)

lemma set_sort_rows [simp]: "set (sort_rows collate rs) = set rs"
  by (simp add: sort_rows_def)

lemma distinct_sort_rows [simp]: "distinct (map r_id (sort_rows collate rs)) = distinct (map r_id rs)"
  by (rule distinct_map_mset) simp

lemma ordered_sort_rows: "tasks.ordered collate (map r_descriptor (sort_rows collate rs))"
  by (simp add: sort_rows_def js_sort_map tasks.ordered_sort)

section \<open>The invariant\<close>

definition row_ok :: "in_memory_row \<Rightarrow> bool" where
  "row_ok row \<longleftrightarrow>
     r_status row = Pending \<and> r_claimed_by row = None \<and> r_claimed_at row = None \<or>
     r_status row = Claimed \<and> r_claimed_by row \<noteq> None \<and> r_claimed_at row \<noteq> None"

definition repo_inv :: "(string \<Rightarrow> string) \<Rightarrow> 'l repo \<Rightarrow> bool" where
  "repo_inv collate st \<longleftrightarrow>
     distinct (map r_id (rows st)) \<and> tasks.ordered collate (map r_descriptor (rows st)) \<and>
     (\<forall>row \<in> set (rows st). row_ok row)"

lemma repo_invD:
  assumes "repo_inv collate st"
  shows "distinct (map r_id (rows st))" "tasks.ordered collate (map r_descriptor (rows st))"
    "row \<in> set (rows st) \<Longrightarrow> row_ok row"
  using assms by (auto simp: repo_inv_def)

lemma row_ok_unclaimed [simp]: "row_ok (unclaimed row)"
  by (simp add: row_ok_def unclaimed_def)

lemma unclaimed_sel [simp]:
  "r_id (unclaimed row) = r_id row" "r_descriptor (unclaimed row) = r_descriptor row"
  "r_status (unclaimed row) = Pending"
  by (simp_all add: unclaimed_def)

lemma replace_asserted_eq:
  assumes "repo_inv collate st" "find_row t (rows st) = Some old" "r_id new = t"
  shows "replace_asserted t old new st = (Inr (), st\<lparr>rows := update_row new (rows st)\<rparr>)"
  using replaceRow_update [OF repo_invD(1) [OF assms(1)], of old new] find_row_Some [OF assms(2)] assms(3)
  by (simp add: replace_asserted_def)

lemma repo_inv_update_row:
  assumes "repo_inv collate st" "find_row t (rows st) = Some old" "r_id new = t"
    and "r_descriptor new = r_descriptor old" "row_ok new"
  shows "repo_inv collate (st\<lparr>rows := update_row new (rows st)\<rparr>)"
  using assms find_row_Some [OF assms(2)]
  by (auto simp: repo_inv_def descriptors_update_row dest!: in_update_row)

lemma removeRow_eq:
  assumes "repo_inv collate st" "row \<in> set (rows st)"
  shows "removeRow row st = (Inr (), st\<lparr>rows := filter (\<lambda>x. r_id x \<noteq> r_id row) (rows st)\<rparr>)"
  using remove1_filter_ids [OF repo_invD(1) [OF assms(1)] assms(2)] assms(2) by (simp add: removeRow_def)

lemma repo_inv_filter:
  assumes "repo_inv collate st"
  shows "repo_inv collate (st\<lparr>rows := filter P (rows st)\<rparr>)"
proof -
  have "tasks.ordered collate (map r_descriptor rs) \<Longrightarrow> tasks.ordered collate (map r_descriptor (filter P rs))" for rs
    by (induction rs) auto
  moreover have "distinct (map r_id rs) \<Longrightarrow> distinct (map r_id (filter P rs))" for rs :: "in_memory_row list"
    by (induction rs) auto
  ultimately show ?thesis using assms by (auto simp: repo_inv_def)
qed

section \<open>Behaviour of the operations\<close>

lemma claimed_row_sel [simp]:
  "r_id (claimed_row b a row) = r_id row" "r_descriptor (claimed_row b a row) = r_descriptor row"
  "r_status (claimed_row b a row) = Claimed" "r_claimed_by (claimed_row b a row) = Some b"
  "r_claimed_at (claimed_row b a row) = Some a" "r_role (claimed_row b a row) = r_role row"
  "row_ok (claimed_row b a row)"
  by (simp_all add: claimed_row_def row_ok_def)

lemma repo_inv_log [simp]:
  "repo_inv collate (st\<lparr>eventLog := l\<rparr>) = repo_inv collate st"
  "repo_inv collate (st\<lparr>reservedTaskIds := x\<rparr>) = repo_inv collate st"
  by (simp_all add: repo_inv_def)

lemma log_call_frame: "log_call f st = (r, st') \<Longrightarrow> \<exists>l. st' = st\<lparr>eventLog := l\<rparr>"
  by (auto simp: log_call_def split: prod.splits option.splits)

lemma appendTaskEvents_frame: "appendTaskEvents port evs st = (r, st') \<Longrightarrow> \<exists>l. st' = st\<lparr>eventLog := l\<rparr>"
proof -
  have "\<exists>l. st = st\<lparr>eventLog := l\<rparr>" by (rule exI [of _ "eventLog st"]) simp
  then show "appendTaskEvents port evs st = (r, st') \<Longrightarrow> \<exists>l. st' = st\<lparr>eventLog := l\<rparr>"
    by (auto simp: appendTaskEvents_def appendTaskEvent_def split: list.splits option.splits dest: log_call_frame)
qed

lemma appendTaskEvents_rows [simp]:
  "rows (snd (appendTaskEvents port evs st)) = rows st"
  "reservedTaskIds (snd (appendTaskEvents port evs st)) = reservedTaskIds st"
  using appendTaskEvents_frame [of port evs st] by (cases "appendTaskEvents port evs st"; fastforce)+

lemma keeps_appendTaskEvents [keeps_intros]: "keeps (repo_inv collate) (appendTaskEvents port evs)"
proof
  fix st :: "'a repo" assume "repo_inv collate st"
  then show "repo_inv collate (snd (appendTaskEvents port evs st))"
    using appendTaskEvents_frame [of port evs st] by (cases "appendTaskEvents port evs st") auto
qed

lemma appendTaskEvent_single: "appendTaskEvent port ev = appendTaskEvents port [ev]"
  by (simp add: appendTaskEvents_def)

lemma claimPending_eq:
  assumes "repo_inv collate st" "find_row t (rows st) = Some row" "r_status row = Pending"
  shows "claimPending t b a st = (Inr Claim_ok, st\<lparr>rows := update_row (claimed_row b a row) (rows st)\<rparr>)"
  using assms replace_asserted_eq [OF assms(1,2), of "claimed_row b a row"] find_row_Some [OF assms(2)]
  by (simp add: claimPending_def and_then_def)

lemma claimPending_cases:
  assumes "repo_inv collate st"
  obtains row where "find_row t (rows st) = Some row" "r_status row = Pending"
      "claimPending t b a st = (Inr Claim_ok, st\<lparr>rows := update_row (claimed_row b a row) (rows st)\<rparr>)"
  | "\<And>row. find_row t (rows st) = Some row \<Longrightarrow> r_status row \<noteq> Pending"
      "claimPending t b a st = (Inr Already_claimed, st)"
proof (cases "\<exists>row. find_row t (rows st) = Some row \<and> r_status row = Pending")
  case True
  then show thesis using that(1) claimPending_eq [OF assms] by blast
next
  case False
  then have "claimPending t b a st = (Inr Already_claimed, st)"
    by (auto simp: claimPending_def split: option.split)
  with False show thesis using that(2) by blast
qed

lemma keeps_claimPending [keeps_intros]: "keeps (repo_inv collate) (claimPending t b a)"
proof
  fix st :: "'a repo" assume inv: "repo_inv collate st"
  then show "repo_inv collate (snd (claimPending t b a st))"
    by (cases rule: claimPending_cases [of collate st t b a])
      (auto simp: inv dest: find_row_Some intro!: repo_inv_update_row [OF inv])
qed

lemma keeps_claimAtomicWithEvents [keeps_intros]:
  "keeps (repo_inv collate) (claimAtomicWithEvents port t b a evs)"
proof -
  have "keeps (repo_inv collate) (and_then (appendTaskEvents port evs) (\<lambda>_. claimPending t b a))"
    by (intro keeps_intros)
  then show ?thesis
    by (auto simp: keeps_def claimAtomicWithEvents_def split: option.split)
qed

lemma append_then_remove_inv:
  assumes "repo_inv collate st" "find_row t (rows st) = Some row"
  shows "repo_inv collate (snd (and_then (appendTaskEvents port evs) (\<lambda>_. removeRow row) st))"
proof (cases "appendTaskEvents port evs st")
  case (Pair r st')
  then obtain l where st': "st' = st\<lparr>eventLog := l\<rparr>" using appendTaskEvents_frame by blast
  have "row \<in> set (rows st')" using find_row_Some [OF assms(2)] st' by simp
  moreover have inv': "repo_inv collate st'" using assms(1) st' by simp
  ultimately show ?thesis
    using Pair removeRow_eq [OF inv'] repo_inv_filter [OF inv'] by (cases r) (simp_all add: and_then_def)
qed

lemma and_then_unit_ret: "and_then m (\<lambda>_. and_then n (\<lambda>_. ret c)) s = (case and_then m (\<lambda>_. n) s of (Inl e, t) \<Rightarrow> (Inl e, t) | (Inr _, t) \<Rightarrow> (Inr c, t))"
  by (auto simp: and_then_def split: prod.split sum.split)

lemma snd_and_then_unit_ret [simp]:
  "snd (and_then m (\<lambda>_. and_then n (\<lambda>_. ret c)) s) = snd (and_then m (\<lambda>_. n) s)"
  by (auto simp: and_then_unit_ret split: prod.split sum.split)

lemma keeps_failPending [keeps_intros]:
  "keeps (repo_inv collate) (failPendingWithCompletionEvent port t ev pre)"
  unfolding failPendingWithCompletionEvent_def
proof (intro keeps_and_then)
  show "keeps (repo_inv collate) (assertFailureCompletionEvent t ev)"
    by (simp add: assertFailureCompletionEvent_def keeps_intros)
qed (auto simp: keeps_def append_then_remove_inv split: option.split)

lemma keeps_completeWithEvents [keeps_intros]:
  "keeps (repo_inv collate) (completeWithEvents port t evs b)"
proof
  fix st :: "'a repo" assume inv: "repo_inv collate st"
  have "repo_inv collate (snd (appendCompletionWithoutRow port t evs st))"
    using inv keepsD [OF keeps_appendTaskEvents, of collate "st\<lparr>reservedTaskIds := insert t (reservedTaskIds st)\<rparr>" port evs]
    by (auto simp: appendCompletionWithoutRow_def split: prod.split)
  then show "repo_inv collate (snd (completeWithEvents port t evs b st))"
    using inv by (auto simp: completeWithEvents_def append_then_remove_inv split: option.split)
qed

lemma keeps_releaseClaimForWorker [keeps_intros]:
  "keeps (repo_inv collate) (releaseClaimForWorker collate t b)"
proof
  fix st :: "'a repo" assume inv: "repo_inv collate st"
  show "repo_inv collate (snd (releaseClaimForWorker collate t b st))"
  proof (cases "find_row t (rows st)")
    case (Some row)
    from repo_inv_update_row [OF inv Some, of "unclaimed row"] find_row_Some [OF Some]
    have "repo_inv collate (st\<lparr>rows := update_row (unclaimed row) (rows st)\<rparr>)" by simp
    then have "repo_inv collate (st\<lparr>rows := sort_rows collate (update_row (unclaimed row) (rows st))\<rparr>)"
      by (simp add: repo_inv_def ordered_sort_rows)
    with Some inv show ?thesis
      using replace_asserted_eq [OF inv Some, of "unclaimed row"] find_row_Some [OF Some]
      by (auto simp: releaseClaimForWorker_def and_then_def)
  qed (simp add: releaseClaimForWorker_def inv)
qed

lemma findReclaimableRow_Inr:
  "findReclaimableRow c st = Inr row \<Longrightarrow> find_row (c_task_id c) (rows st) = Some row \<and> r_status row = Claimed \<and>
     r_claimed_by row = Some (c_claimed_by c) \<and> r_claimed_at row = Some (c_claimed_at c)"
  by (auto simp: findReclaimableRow_def split: option.splits if_splits)

lemma keeps_reclaim_one [keeps_intros]: "keeps (repo_inv collate) (reclaim_one port c)"
proof
  fix st :: "'a repo" assume inv: "repo_inv collate st"
  show "repo_inv collate (snd (reclaim_one port c st))"
  proof (cases "findReclaimableRow c st")
    case (Inr row)
    note row = findReclaimableRow_Inr [OF Inr]
    obtain r st' where ap: "appendTaskEvent port (c_event c) st = (r, st')" by fastforce
    then obtain l where st': "st' = st\<lparr>eventLog := l\<rparr>"
      using appendTaskEvents_frame by (metis appendTaskEvent_single)
    with inv row have inv': "repo_inv collate st'" and f: "find_row (c_task_id c) (rows st') = Some row" by auto
    show ?thesis
      using Inr ap inv' replace_asserted_eq [OF inv' f, of "unclaimed row"]
        repo_inv_update_row [OF inv' f, of "unclaimed row"] find_row_Some [OF f]
      by (cases r) (auto simp: reclaim_one_def and_then_def)
  qed (simp add: reclaim_one_def and_then_def inv)
qed

lemma reclaim_validate_state [simp]: "snd (reclaim_validate cs st) = st"
  by (induction cs) (auto split: sum.split)

lemma keeps_reclaim_apply [keeps_intros]: "keeps (repo_inv collate) (reclaim_apply port cs n)"
proof (induction cs arbitrary: n)
  case (Cons c cs)
  have "keeps (repo_inv collate) (and_then (reclaim_one port c) (\<lambda>_. reclaim_apply port cs (n + 1)))"
    by (intro keeps_and_then keeps_reclaim_one Cons.IH)
  then show ?case by (simp add: keeps_def)
qed (simp add: keeps_def)

lemma keeps_gcAbandonedClaims [keeps_intros]: "keeps (repo_inv collate) (gcAbandonedClaims port cs)"
  unfolding gcAbandonedClaims_def by (intro keeps_and_then keeps_reclaim_apply) (simp add: keeps_def)

lemma keeps_enqueue [keeps_intros]: "keeps (repo_inv collate) (enqueue collate parse clock input)"
proof
  fix st :: "'a repo" assume inv: "repo_inv collate st"
  have "repo_inv collate (st\<lparr>rows := sort_rows collate (rows st @ [new_row t c input d])\<rparr>)"
    if "t \<notin> r_id ` set (rows st)" for t c d
    using inv that by (auto simp: repo_inv_def ordered_sort_rows new_row_def row_ok_def)
  with inv show "repo_inv collate (snd (enqueue collate parse clock input st))"
    by (auto simp: enqueue_def Let_def split: sum.split option.split)
qed

section \<open>Interleaved calls\<close>

text \<open>
  A mutexed method runs up to its await on the event log, other callers proceed (on other tasks,
  or with the unlocked \<^verbatim>\<open>enqueue\<close> on any task), and the method resumes when the log answered.
  \<open>L t\<close> is the call that holds the lock of task \<open>t\<close> while it waits. \<open>commit_op\<close> is the code
  after the await, \<open>abort_op\<close> what remains of the call when the append failed.
\<close>

datatype task_op =
    Claiming string string
  | Failing in_memory_row
  | Completing in_memory_row
  | Completing_absent
  | Reclaiming in_memory_row

primrec commit_op :: "string \<Rightarrow> task_op \<Rightarrow> ('l repo, bool) action" where
  "commit_op t (Claiming b a) = and_then (claimPending t b a) (\<lambda>r. ret (r = Claim_ok))"
| "commit_op t (Failing row) = and_then (removeRow row) (\<lambda>_. ret True)"
| "commit_op t (Completing row) = and_then (removeRow row) (\<lambda>_. ret True)"
| "commit_op t Completing_absent = (\<lambda>st. (Inr True, st\<lparr>reservedTaskIds := reservedTaskIds st - {t}\<rparr>))"
| "commit_op t (Reclaiming row) = and_then (replace_asserted t row (unclaimed row)) (\<lambda>_. ret True)"

definition abort_op :: "string \<Rightarrow> task_op \<Rightarrow> 'l repo \<Rightarrow> 'l repo" where
  "abort_op t opn st =
     (if opn = Completing_absent then st\<lparr>reservedTaskIds := reservedTaskIds st - {t}\<rparr> else st)"

definition reserve_op :: "string \<Rightarrow> task_op \<Rightarrow> 'l repo \<Rightarrow> 'l repo" where
  "reserve_op t opn st =
     (if opn = Completing_absent then st\<lparr>reservedTaskIds := insert t (reservedTaskIds st)\<rparr> else st)"

text \<open>The checks a method makes before its await, one per method.\<close>

definition may_start :: "string \<Rightarrow> task_op \<Rightarrow> 'l repo \<Rightarrow> bool" where
  "may_start t opn st =
     (case opn of
        Claiming b a \<Rightarrow> (case find_row t (rows st) of None \<Rightarrow> False | Some row \<Rightarrow> r_status row = Pending)
      | Failing row \<Rightarrow> find_row t (rows st) = Some row \<and> r_status row = Pending
      | Completing row \<Rightarrow> find_row t (rows st) = Some row \<and> (r_status row = Pending \<or> r_status row = Claimed)
      | Completing_absent \<Rightarrow> find_row t (rows st) = None
      | Reclaiming row \<Rightarrow> find_row t (rows st) = Some row \<and> r_status row = Claimed)"

inductive repo_step ::
  "(string \<Rightarrow> string) \<Rightarrow> (garden_task_descriptor \<Rightarrow> string + garden_task_descriptor)
    \<Rightarrow> 'l repo \<times> (string \<rightharpoonup> task_op) \<Rightarrow> 'l repo \<times> (string \<rightharpoonup> task_op) \<Rightarrow> bool"
  for collate parse where
  enqueued: "repo_step collate parse (st, L) (snd (enqueue collate parse clock input st), L)"
| claimed_now: "L t = None \<Longrightarrow> repo_step collate parse (st, L) (snd (claimAtomic t b a st), L)"
| released_now: "L t = None \<Longrightarrow> repo_step collate parse (st, L) (snd (releaseClaim collate t b st), L)"
| log_moves: "repo_step collate parse (st, L) (st\<lparr>eventLog := l\<rparr>, L)"
| starts: "L t = None \<Longrightarrow> may_start t opn st \<Longrightarrow>
    repo_step collate parse (st, L) (reserve_op t opn st, L(t \<mapsto> opn))"
| commits: "L t = Some opn \<Longrightarrow> repo_step collate parse (st, L) (snd (commit_op t opn st), L(t := None))"
| aborts: "L t = Some opn \<Longrightarrow> repo_step collate parse (st, L) (abort_op t opn st, L(t := None))"

definition op_ok :: "'l repo \<Rightarrow> string \<Rightarrow> task_op \<Rightarrow> bool" where
  "op_ok st t opn \<longleftrightarrow> may_start t opn st \<and> (opn = Completing_absent \<longrightarrow> t \<in> reservedTaskIds st)"

definition conc_inv :: "(string \<Rightarrow> string) \<Rightarrow> 'l repo \<times> (string \<rightharpoonup> task_op) \<Rightarrow> bool" where
  "conc_inv collate s \<longleftrightarrow> repo_inv collate (fst s) \<and> (\<forall>t opn. snd s t = Some opn \<longrightarrow> op_ok (fst s) t opn)"

lemma may_start_cong: "find_row t (rows st') = find_row t (rows st) \<Longrightarrow> may_start t opn st' = may_start t opn st"
  by (cases opn) (simp_all add: may_start_def)

lemma find_row_filter: "t \<noteq> k \<Longrightarrow> find_row t (filter (\<lambda>x. r_id x \<noteq> k) rs) = find_row t rs"
  by (induction rs) (auto simp: find_row_def)

lemma find_row_sort:
  assumes "distinct (map r_id rs)"
  shows "find_row t (sort_rows collate rs) = find_row t rs"
proof (cases "find_row t rs")
  case None
  then have "find_row t (sort_rows collate rs) = None" by (simp add: find_row_None)
  with None show ?thesis by simp
next
  case (Some row)
  then show ?thesis
    using find_row_distinct [of "sort_rows collate rs" row] find_row_Some [OF Some] assms by simp
qed

lemma find_row_append_new: "find_row t (rs @ [x]) = (case find_row t rs of Some r \<Rightarrow> Some r | None \<Rightarrow> if r_id x = t then Some x else None)"
  by (induction rs) (auto simp: find_row_def)

text \<open>A call on one task leaves the row of every other task where it was.\<close>

lemma commit_op_frame:
  assumes "repo_inv collate st" "op_ok st t opn" "u \<noteq> t"
  shows "find_row u (rows (snd (commit_op t opn st))) = find_row u (rows st)"
    "u \<in> reservedTaskIds st \<Longrightarrow> u \<in> reservedTaskIds (snd (commit_op t opn st))"
proof -
  note inv = assms(1)
  have upd: "find_row u (update_row new (rows st)) = find_row u (rows st)"
    if "find_row t (rows st) = Some row" "r_id new = t" for row new
    using find_update_row [OF repo_invD(1) [OF inv], of row new u] find_row_Some [OF that(1)] that(2) assms(3) by simp
  have rem: "find_row u (rows (snd (removeRow row st))) = find_row u (rows st) \<and>
      reservedTaskIds (snd (removeRow row st)) = reservedTaskIds st"
    if "find_row t (rows st) = Some row" for row
    using removeRow_eq [OF inv] find_row_Some [OF that] find_row_filter assms(3) by auto
  show "find_row u (rows (snd (commit_op t opn st))) = find_row u (rows st)"
  proof (cases opn)
    case (Claiming b a)
    then show ?thesis
      using upd by (rule_tac claimPending_cases [OF inv, of t b a])
        (auto simp: and_then_def dest: find_row_Some)
  next
    case (Reclaiming row)
    then have f: "find_row t (rows st) = Some row" using assms(2) by (simp add: op_ok_def may_start_def)
    show ?thesis
      using Reclaiming upd [OF f, of "unclaimed row"] replace_asserted_eq [OF inv f, of "unclaimed row"] find_row_Some [OF f]
      by (simp add: and_then_def)
  qed (use assms(2) rem in \<open>auto simp: op_ok_def may_start_def and_then_def split: prod.split sum.split\<close>)
  show "u \<in> reservedTaskIds (snd (commit_op t opn st))" if "u \<in> reservedTaskIds st"
  proof (cases opn)
    case (Claiming b a)
    then show ?thesis
      using that by (rule_tac claimPending_cases [OF inv, of t b a]) (auto simp: and_then_def)
  next
    case (Reclaiming row)
    then show ?thesis
      using that by (auto simp: and_then_def replace_asserted_def split: option.split)
  qed (use assms(3) that in \<open>auto simp: and_then_def removeRow_def\<close>)
qed

text \<open>In a state of the invariant, the code after the await never meets a stale row.\<close>

lemma commit_op_succeeds:
  assumes "repo_inv collate st" "op_ok st t opn"
  shows "fst (commit_op t opn st) = Inr True" "repo_inv collate (snd (commit_op t opn st))"
proof -
  have "fst (commit_op t opn st) = Inr True \<and> repo_inv collate (snd (commit_op t opn st))"
  proof (cases opn)
    case (Claiming b a)
    then obtain row where "find_row t (rows st) = Some row" "r_status row = Pending"
      using assms(2) by (auto simp: op_ok_def may_start_def split: option.splits)
    with Claiming assms(1) show ?thesis
      using claimPending_eq [OF assms(1), of t row b a] keepsD [OF keeps_claimPending assms(1), of t b a]
      by (simp add: and_then_def)
  next
    case (Reclaiming row)
    then have f: "find_row t (rows st) = Some row" using assms(2) by (simp add: op_ok_def may_start_def)
    show ?thesis
      using Reclaiming replace_asserted_eq [OF assms(1) f, of "unclaimed row"]
        repo_inv_update_row [OF assms(1) f, of "unclaimed row"] find_row_Some [OF f]
      by (simp add: and_then_def)
  qed (use assms removeRow_eq [OF assms(1)] repo_inv_filter [OF assms(1)] in
      \<open>auto simp: op_ok_def may_start_def and_then_def dest: find_row_Some\<close>)
  then show "fst (commit_op t opn st) = Inr True" "repo_inv collate (snd (commit_op t opn st))" by auto
qed

lemma update_frame:
  assumes "repo_inv collate st" "find_row t (rows st) = Some row" "r_id new = t" "u \<noteq> t"
  shows "find_row u (update_row new (rows st)) = find_row u (rows st)"
  using find_update_row [OF repo_invD(1) [OF assms(1)], of row new u] find_row_Some [OF assms(2)] assms(3,4) by simp

lemma claimPending_frame:
  assumes "repo_inv collate st" "u \<noteq> t"
  shows "find_row u (rows (snd (claimPending t b a st))) = find_row u (rows st)"
  by (rule claimPending_cases [OF assms(1), of t b a];
      use update_frame [OF assms(1) _ _ assms(2)] in \<open>fastforce dest: find_row_Some\<close>)

lemma claimPending_reserved [simp]: "reservedTaskIds (snd (claimPending t b a st)) = reservedTaskIds st"
  by (auto simp: claimPending_def replace_asserted_def and_then_def split: option.split)

lemma releaseClaim_frame:
  assumes "repo_inv collate st" "u \<noteq> t"
  shows "find_row u (rows (snd (releaseClaimForWorker collate t b st))) = find_row u (rows st)"
proof (cases "find_row t (rows st)")
  case (Some row)
  have "distinct (map r_id (update_row (unclaimed row) (rows st)))"
    using repo_invD(1) [OF assms(1)] by simp
  from find_row_sort [OF this] Some show ?thesis
    using replace_asserted_eq [OF assms(1) Some, of "unclaimed row"] find_row_Some [OF Some]
      update_frame [OF assms(1) Some _ assms(2), of "unclaimed row"]
    by (auto simp: releaseClaimForWorker_def and_then_def)
qed (simp add: releaseClaimForWorker_def)

lemma releaseClaim_reserved [simp]: "reservedTaskIds (snd (releaseClaimForWorker collate t b st)) = reservedTaskIds st"
  by (auto simp: releaseClaimForWorker_def replace_asserted_def and_then_def split: option.split)

lemma enqueue_cases:
  obtains (unchanged) "snd (enqueue collate parse clock input st) = st"
  | (added) t c d where "t \<notin> r_id ` set (rows st)" "t \<notin> reservedTaskIds st"
      "enqueue collate parse clock input st = (Inr t, st\<lparr>rows := sort_rows collate (rows st @ [new_row t c input d])\<rparr>)"
      "parse (i_payload input) = Inr d" "t = task_id_or_default input st"
proof (cases "parse (i_payload input)")
  case (Inl e)
  then show thesis using unchanged by (simp add: enqueue_def)
next
  case (Inr d)
  show thesis
  proof (cases "if d_periodic d = Some True then List.find (is_open_periodic input) (rows st) else None")
    case (Some r)
    with Inr show thesis using unchanged by (simp add: enqueue_def Let_def)
  next
    case None
    with Inr show thesis
      using unchanged added [of "task_id_or_default input st" "case i_created_at input of Some c \<Rightarrow> c | None \<Rightarrow> clock" d]
      by (cases "task_id_or_default input st \<in> reservedTaskIds st \<or> task_id_or_default input st \<in> r_id ` set (rows st)")
        (auto simp: enqueue_def Let_def simp del: if_split_asm)
  qed
qed

lemma enqueue_frame:
  assumes "repo_inv collate st"
  shows "reservedTaskIds (snd (enqueue collate parse clock input st)) = reservedTaskIds st"
    and "u \<in> r_id ` set (rows st) \<or> u \<in> reservedTaskIds st \<Longrightarrow>
      find_row u (rows (snd (enqueue collate parse clock input st))) = find_row u (rows st)"
proof -
  have new: "find_row u (sort_rows collate (rows st @ [new_row t c input d])) = find_row u (rows st)"
    if "t \<notin> r_id ` set (rows st)" "u \<noteq> t" for t c d
    using repo_invD(1) [OF assms] that by (simp add: find_row_sort find_row_append_new new_row_def split: option.split)
  show "reservedTaskIds (snd (enqueue collate parse clock input st)) = reservedTaskIds st"
    by (rule enqueue_cases [of collate parse clock input st]) auto
  show "find_row u (rows (snd (enqueue collate parse clock input st))) = find_row u (rows st)"
    if "u \<in> r_id ` set (rows st) \<or> u \<in> reservedTaskIds st"
  proof (cases rule: enqueue_cases [of collate parse clock input st])
    case (added t c d)
    with that have "u \<noteq> t" by auto
    with added new show ?thesis by simp
  qed simp
qed

lemma op_ok_cong:
  "find_row t (rows st') = find_row t (rows st) \<Longrightarrow> (t \<in> reservedTaskIds st \<Longrightarrow> t \<in> reservedTaskIds st')
    \<Longrightarrow> op_ok st t opn \<Longrightarrow> op_ok st' t opn"
  using may_start_cong by (auto simp: op_ok_def)

lemma op_ok_known: "op_ok st t opn \<Longrightarrow> t \<in> r_id ` set (rows st) \<or> t \<in> reservedTaskIds st"
  by (cases opn) (auto simp: op_ok_def may_start_def split: option.splits dest!: find_row_Some)

lemma conc_invI:
  "repo_inv collate st' \<Longrightarrow> (\<And>u opn. L' u = Some opn \<Longrightarrow> op_ok st' u opn) \<Longrightarrow> conc_inv collate (st', L')"
  by (simp add: conc_inv_def)

lemma conc_inv_frame:
  assumes "conc_inv collate (st, L)" "repo_inv collate st'"
    and "\<And>u opn. L' u = Some opn \<Longrightarrow> L u = Some opn \<and> find_row u (rows st') = find_row u (rows st) \<and>
      (u \<in> reservedTaskIds st \<longrightarrow> u \<in> reservedTaskIds st')"
  shows "conc_inv collate (st', L')"
proof (rule conc_invI [OF assms(2)])
  fix u opn assume u: "L' u = Some opn"
  with assms(1,3) have "op_ok st u opn" by (simp add: conc_inv_def)
  with assms(3) [OF u] show "op_ok st' u opn" by (blast intro: op_ok_cong)
qed

lemma repo_step_inv:
  assumes "repo_step collate parse s s'" "conc_inv collate s"
  shows "conc_inv collate s'"
  using assms
proof (induction rule: repo_step.induct)
  case (enqueued st L clock input)
  then have inv: "repo_inv collate st" by (simp add: conc_inv_def)
  show ?case
  proof (rule conc_inv_frame [OF enqueued keepsD [OF keeps_enqueue inv]])
    fix u opn assume u: "L u = Some opn"
    with enqueued have "op_ok st u opn" by (simp add: conc_inv_def)
    with u show "L u = Some opn \<and> find_row u (rows (snd (enqueue collate parse clock input st))) = find_row u (rows st) \<and>
        (u \<in> reservedTaskIds st \<longrightarrow> u \<in> reservedTaskIds (snd (enqueue collate parse clock input st)))"
      using enqueue_frame [OF inv] op_ok_known by metis
  qed
next
  case (claimed_now L t st b a)
  then have inv: "repo_inv collate st" by (simp add: conc_inv_def)
  have "u \<noteq> t" if "L u = Some opn" for u opn using claimed_now(1) that by auto
  then show ?case
    using claimPending_frame [OF inv] keepsD [OF keeps_claimPending inv]
    by (intro conc_inv_frame [OF claimed_now(2)]) (auto simp: claimAtomic_def)
next
  case (released_now L t st b)
  then have inv: "repo_inv collate st" by (simp add: conc_inv_def)
  have "u \<noteq> t" if "L u = Some opn" for u opn using released_now(1) that by auto
  then show ?case
    using releaseClaim_frame [OF inv] keepsD [OF keeps_releaseClaimForWorker inv]
    by (intro conc_inv_frame [OF released_now(2)]) (auto simp: releaseClaim_def)
next
  case (log_moves st L l)
  then show ?case by (intro conc_inv_frame [OF log_moves]) (auto simp: conc_inv_def)
next
  case (starts L t opn st)
  then have inv: "repo_inv collate st" by (simp add: conc_inv_def)
  show ?case
  proof (rule conc_invI)
    show "repo_inv collate (reserve_op t opn st)" using inv by (simp add: reserve_op_def)
    fix u opn' assume "(L(t \<mapsto> opn)) u = Some opn'"
    then show "op_ok (reserve_op t opn st) u opn'"
      using starts by (cases "u = t") (auto simp: conc_inv_def reserve_op_def op_ok_def may_start_def
        cong: task_op.case_cong split: if_splits)
  qed
next
  case (commits L t opn st)
  then have inv: "repo_inv collate st" and ok: "op_ok st t opn" by (auto simp: conc_inv_def)
  show ?case
    using commit_op_frame [OF inv ok] commit_op_succeeds [OF inv ok]
    by (intro conc_inv_frame [OF commits(2)]) (auto split: if_splits)
next
  case (aborts L t opn st)
  then show ?case
    by (intro conc_inv_frame [OF aborts(2)]) (auto simp: conc_inv_def abort_op_def split: if_splits)
qed

lemma reachable_conc_inv:
  assumes "(repo_step collate parse)\<^sup>*\<^sup>* s s'" "conc_inv collate s"
  shows "conc_inv collate s'"
  using assms by (induction rule: rtranclp_induct) (auto dest: repo_step_inv)

section \<open>Backlog counts\<close>

definition row_counts :: "string option \<Rightarrow> garden_role \<Rightarrow> task_status \<Rightarrow> in_memory_row \<Rightarrow> bool" where
  "row_counts ws role status row \<longleftrightarrow>
     r_role row = role \<and> r_status row = status \<and> (r_status row = Pending \<or> r_status row = Claimed) \<and>
     (case ws of None \<Rightarrow> True | Some w \<Rightarrow> r_workspace_id row = w)"

lemma count_row_lookup:
  "(case map_of (count_row ws counts row) (role, status) of None \<Rightarrow> 0 | Some n \<Rightarrow> n) =
    (case map_of counts (role, status) of None \<Rightarrow> 0 | Some n \<Rightarrow> n) + (if row_counts ws role status row then 1 else 0)"
  by (auto simp: count_row_def row_counts_def Let_def update_conv split: option.split)

lemma count_fold_lookup:
  "(case map_of (foldl (count_row ws) counts rs) (role, status) of None \<Rightarrow> 0 | Some n \<Rightarrow> n) =
    (case map_of counts (role, status) of None \<Rightarrow> 0 | Some n \<Rightarrow> n) + length (filter (row_counts ws role status) rs)"
  by (induction rs arbitrary: counts) (simp_all add: count_row_lookup)

lemma count_fold_distinct: "distinct (map fst counts) \<Longrightarrow> distinct (map fst (foldl (count_row ws) counts rs))"
  by (induction rs arbitrary: counts) (auto simp: count_row_def Let_def distinct_update)

lemma countBacklog_entry:
  "(role, status, n) \<in> set (countBacklog st ws) \<Longrightarrow> n = length (filter (row_counts ws role status) (rows st))"
  "length (filter (row_counts ws role status) (rows st)) > 0 \<Longrightarrow>
     (role, status, length (filter (row_counts ws role status) (rows st))) \<in> set (countBacklog st ws)"
proof -
  let ?c = "foldl (count_row ws) [] (rows st)"
  have d: "distinct (map fst ?c)" by (rule count_fold_distinct) simp
  have l: "(case map_of ?c (role, status) of None \<Rightarrow> 0 | Some n \<Rightarrow> n) = length (filter (row_counts ws role status) (rows st))"
    using count_fold_lookup [of ws "[]"] by simp
  show "(role, status, n) \<in> set (countBacklog st ws) \<Longrightarrow> n = length (filter (row_counts ws role status) (rows st))"
    using l by (auto simp: countBacklog_def map_of_is_SomeI [OF d])
  show "length (filter (row_counts ws role status) (rows st)) > 0 \<Longrightarrow>
     (role, status, length (filter (row_counts ws role status) (rows st))) \<in> set (countBacklog st ws)"
    using l by (force simp: countBacklog_def image_iff split: option.splits dest!: map_of_SomeD)
qed

lemma count_update_total:
  fixes xs :: "((garden_role \<times> task_status) \<times> nat) list"
  shows "(\<Sum>((_, s), n) \<leftarrow> AList.update (role, st) (Suc (case map_of xs (role, st) of None \<Rightarrow> 0 | Some n \<Rightarrow> n)) xs. if s = status then n else 0) =
    (\<Sum>((_, s), n) \<leftarrow> xs. if s = status then n else 0) + (if st = status then 1 else 0)"
  by (induction xs) (auto split: option.split)

lemma update_positive:
  "\<forall>p \<in> set xs. snd p > 0 \<Longrightarrow> \<forall>p \<in> set (AList.update k (Suc v) xs). snd p > 0"
  by (induction xs) auto

lemma count_row_total:
  assumes "status = Pending \<or> status = Claimed"
  shows "(\<Sum>((_, s), n) \<leftarrow> count_row ws counts row. if s = status then n else 0) =
    (\<Sum>((_, s), n) \<leftarrow> counts. if s = status then n else 0) + (if row_counts ws (r_role row) status row then 1 else 0)"
  using assms by (cases ws) (auto simp: count_row_def row_counts_def Let_def count_update_total)

lemma countByStatus_countBacklog:
  assumes "status = Pending \<or> status = Claimed"
  shows "countByStatus (countBacklog st None) status = length (filter (\<lambda>row. r_status row = status) (rows st))"
proof -
  have "(\<Sum>((_, s), n) \<leftarrow> foldl (count_row None) counts rs. if s = status then n else 0) =
    (\<Sum>((_, s), n) \<leftarrow> counts. if s = status then n else 0) + length (filter (\<lambda>row. r_status row = status) rs)" for counts rs
    using assms by (induction rs arbitrary: counts) (auto simp: count_row_total row_counts_def)
  from this [of "[]" "rows st"] show ?thesis
    by (simp add: countByStatus_sum countBacklog_def comp_def case_prod_unfold cong: if_cong)
qed

section \<open>Sequential calls are runs\<close>

lemma run_append:
  assumes "L t = None" "may_start t opn st" "opn \<noteq> Completing_absent"
    and "and_then (appendTaskEvents port evs) (\<lambda>_. commit_op t opn) st = (r, st')"
  shows "(repo_step collate parse)\<^sup>*\<^sup>* (st, L) (st', L)"
proof -
  obtain r1 st1 where ap: "appendTaskEvents port evs st = (r1, st1)" by fastforce
  then obtain l where st1: "st1 = st\<lparr>eventLog := l\<rparr>" using appendTaskEvents_frame by blast
  have "repo_step collate parse (st, L) (st, L(t \<mapsto> opn))"
    using repo_step.starts [of L t opn st collate parse, OF assms(1,2)] assms(3) by (simp add: reserve_op_def)
  moreover have "repo_step collate parse (st, L(t \<mapsto> opn)) (st1, L(t \<mapsto> opn))"
    unfolding st1 by (rule repo_step.log_moves)
  moreover have "repo_step collate parse (st1, L(t \<mapsto> opn)) (st', L)"
  proof (cases r1)
    case (Inl e)
    with ap assms(4) have "st' = abort_op t opn st1" using assms(3) by (simp add: and_then_def abort_op_def)
    then show ?thesis
      using repo_step.aborts [of "L(t \<mapsto> opn)" t opn collate parse st1] assms(1) by (simp add: fun_upd_idem)
  next
    case (Inr u)
    with ap assms(4) have "st' = snd (commit_op t opn st1)" by (simp add: and_then_def)
    then show ?thesis
      using repo_step.commits [of "L(t \<mapsto> opn)" t opn collate parse st1] assms(1) by (simp add: fun_upd_idem)
  qed
  ultimately show ?thesis by (meson converse_rtranclp_into_rtranclp rtranclp.rtrancl_refl)
qed

lemma and_then_assoc: "and_then (and_then m f) g s = and_then m (\<lambda>a. and_then (f a) g) s"
  by (auto simp: and_then_def split: prod.split sum.split)

lemma snd_and_then_ret [simp]: "snd (and_then m (\<lambda>a. ret (f a)) s) = snd (m s)"
  by (auto simp: and_then_def split: prod.split sum.split)

lemma run_append_snd:
  assumes "L t = None" "may_start t opn st" "opn \<noteq> Completing_absent"
    and "\<And>s. snd (m s) = snd (commit_op t opn s)"
  shows "(repo_step collate parse)\<^sup>*\<^sup>* (st, L) (snd (and_then (appendTaskEvents port evs) (\<lambda>_. m) st), L)"
proof -
  have "snd (and_then (appendTaskEvents port evs) (\<lambda>_. m) st) = snd (and_then (appendTaskEvents port evs) (\<lambda>_. commit_op t opn) st)"
    using assms(4) by (auto simp: and_then_def split: prod.split sum.split)
  then show ?thesis using run_append [of L t opn st, OF assms(1,2,3)] by (metis prod.collapse)
qed

lemma claimAtomicWithEvents_run:
  "L t = None \<Longrightarrow> (repo_step collate parse)\<^sup>*\<^sup>* (st, L) (snd (claimAtomicWithEvents port t b a evs st), L)"
  using run_append_snd [of L t "Claiming b a" st "claimPending t b a"]
  by (auto simp: claimAtomicWithEvents_def may_start_def split: option.split)

lemma failPending_run:
  "L t = None \<Longrightarrow> (repo_step collate parse)\<^sup>*\<^sup>* (st, L) (snd (failPendingWithCompletionEvent port t ev pre st), L)"
proof (cases "find_row t (rows st)")
  case (Some row)
  assume "L t = None"
  with Some show ?thesis
    using run_append_snd [of L t "Failing row" st "removeRow row"]
    by (auto simp: failPendingWithCompletionEvent_def assertFailureCompletionEvent_def may_start_def and_then_Inr and_then_Inl)
qed (auto simp: failPendingWithCompletionEvent_def assertFailureCompletionEvent_def and_then_Inr and_then_Inl)

lemma completeWithEvents_run:
  assumes "L t = None" "t \<notin> reservedTaskIds st"
  shows "(repo_step collate parse)\<^sup>*\<^sup>* (st, L) (snd (completeWithEvents port t evs b st), L)"
proof (cases "find_row t (rows st)")
  case (Some row)
  with assms show ?thesis
    using run_append_snd [of L t "Completing row" st "removeRow row"]
    by (auto simp: completeWithEvents_def may_start_def)
next
  case None
  let ?st = "st\<lparr>reservedTaskIds := insert t (reservedTaskIds st)\<rparr>"
  obtain r st1 where ap: "appendTaskEvents port evs ?st = (r, st1)" by fastforce
  then obtain l where st1: "st1 = ?st\<lparr>eventLog := l\<rparr>" using appendTaskEvents_frame by blast
  have "repo_step collate parse (st, L) (?st, L(t \<mapsto> Completing_absent))"
    using repo_step.starts [of L t Completing_absent st] assms(1) None by (simp add: reserve_op_def may_start_def)
  moreover have "repo_step collate parse (?st, L(t \<mapsto> Completing_absent)) (st1, L(t \<mapsto> Completing_absent))"
    unfolding st1 by (rule repo_step.log_moves)
  moreover have "repo_step collate parse (st1, L(t \<mapsto> Completing_absent)) (st1\<lparr>reservedTaskIds := reservedTaskIds st1 - {t}\<rparr>, L)"
    using repo_step.aborts [of "L(t \<mapsto> Completing_absent)" t Completing_absent collate parse st1] assms(1)
    by (simp add: fun_upd_idem abort_op_def)
  ultimately have "(repo_step collate parse)\<^sup>*\<^sup>* (st, L) (st1\<lparr>reservedTaskIds := reservedTaskIds st1 - {t}\<rparr>, L)"
    by (meson converse_rtranclp_into_rtranclp rtranclp.rtrancl_refl)
  with None ap show ?thesis by (simp add: completeWithEvents_def appendCompletionWithoutRow_def)
qed

section \<open>Exclusive claims on the queue\<close>

definition try_claim :: "string \<Rightarrow> string \<times> string \<Rightarrow> 'l repo \<Rightarrow> bool \<times> 'l repo" where
  "try_claim t w st = (case claimAtomic t (fst w) (snd w) st of (r, st') \<Rightarrow> (r = Inr Claim_ok, st'))"

definition is_pending :: "'l repo \<Rightarrow> string \<Rightarrow> bool" where
  "is_pending st t \<longleftrightarrow> (\<exists>row. find_row t (rows st) = Some row \<and> r_status row = Pending)"

interpretation claims: exclusive_claims "repo_inv collate" is_pending try_claim for collate
proof
  fix st :: "'l repo" and i j w
  assume inv: "repo_inv collate st"
  show "repo_inv collate (snd (try_claim i w st))"
    using keepsD [OF keeps_claimPending inv] by (simp add: try_claim_def claimAtomic_def case_prod_unfold)
  show "is_pending st i" if "fst (try_claim i w st)"
    using that
    by (rule_tac claimPending_cases [OF inv, of i "fst w" "snd w"])
      (auto simp: try_claim_def claimAtomic_def is_pending_def)
  show "is_pending st j" if "is_pending (snd (try_claim i w st)) j"
    using that claimPending_frame [OF inv, of j i "fst w" "snd w"]
    by (cases "i = j"; rule_tac claimPending_cases [OF inv, of i "fst w" "snd w"])
      (auto simp: try_claim_def claimAtomic_def is_pending_def)
  show "\<not> is_pending (snd (try_claim i w st)) i" if "fst (try_claim i w st)"
    using that
  proof (cases rule: claimPending_cases [OF inv, of i "fst w" "snd w"])
    case (1 row)
    then show ?thesis
      using find_update_row [OF repo_invD(1) [OF inv], of row "claimed_row (fst w) (snd w) row" i] find_row_Some [OF 1(1)]
      by (simp add: try_claim_def claimAtomic_def is_pending_def)
  qed (use that in \<open>simp add: try_claim_def claimAtomic_def\<close>)
qed

primrec run_claims :: "(string \<times> string \<times> string) list \<Rightarrow> 'l repo \<Rightarrow> string list" where
  "run_claims [] st = []"
| "run_claims (q # qs) st =
     (case claimAtomic (fst q) (fst (snd q)) (snd (snd q)) st of
        (r, st') \<Rightarrow> (if r = Inr Claim_ok then [fst q] else []) @ run_claims qs st')"

lemma run_claims_winners: "run_claims qs st = claims.winners qs st"
  by (induction qs arbitrary: st) (auto simp: try_claim_def Let_def split: prod.split)

section \<open>Properties of the queue\<close>

text \<open>A concrete queue for the witnesses: one pending task and a log that keeps what it is given.\<close>

definition sample_descriptor :: "string \<Rightarrow> nat \<Rightarrow> garden_task_descriptor" where
  "sample_descriptor i p =
     \<lparr>d_task_id = i, d_task_kind = Ttl_cleanup, d_required_tier = Tier_0, d_workspace_id = ''w'', d_run_id = None,
      d_target_object_refs = [], d_priority = p, d_created_at = ''2026-01-01T00:00:00Z'', d_periodic = None,
      d_turn_index = None, d_turn_digest = None, d_source_object_id = None, d_source_revision = None,
      d_enrichment_contract = None\<rparr>"

definition garden_input :: "string option \<Rightarrow> string \<Rightarrow> nat \<Rightarrow> enqueue_input" where
  "garden_input i tid p =
     \<lparr>i_id = i, i_workspace_id = ''w'', i_role = Janitor, i_kind = Ttl_cleanup,
      i_payload = sample_descriptor tid p, i_created_at = None\<rparr>"

definition sample_row :: "string \<Rightarrow> in_memory_row" where
  "sample_row i = new_row i ''now'' (garden_input (Some i) i 5) (sample_descriptor i 5)"

definition sample_repo :: "scheduler_event list repo" where
  "sample_repo = \<lparr>rows = [sample_row ''a''], reservedTaskIds = {}, eventLog = []\<rparr>"

definition list_port :: "scheduler_event list event_port" where
  "list_port = \<lparr>port_append = (\<lambda>ev l. (None, l @ [ev])), port_appendManyAtomic = Some (\<lambda>evs l. (None, l @ evs))\<rparr>"

definition broken_port :: "scheduler_event list event_port" where
  "broken_port = \<lparr>port_append = (\<lambda>ev l. (Some ''disk full'', l)), port_appendManyAtomic = None\<rparr>"

definition sample_event :: task_event where
  "sample_event =
     \<lparr>e_event_type = SOUL_GARDEN_TASK_DISPATCHED, e_entity_type = ''garden_task'', e_entity_id = ''a'',
      e_workspace_id = ''w'', e_run_id = None, e_caused_by = None, e_payload_json = []\<rparr>"

lemmas sample_simps = sample_repo_def sample_row_def new_row_def garden_input_def sample_descriptor_def
  list_port_def broken_port_def sample_event_def

lemma sample_repo_inv: "repo_inv id sample_repo"
  by (simp add: repo_inv_def row_ok_def sample_simps)

lemma sample_repo_find: "find_row ''a'' (rows sample_repo) = Some (sample_row ''a'')" "r_status (sample_row ''a'') = Pending"
  by (simp_all add: find_row_def sample_simps)

text \<open>The empty queue satisfies the queue invariant (distinct task ids, rows in dispatch order,
  a claimant and a claim time exactly on claimed rows, no row in a final status) and every method
  that writes the queue keeps it, whether it returns or throws.\<close>

theorem repo_methods_keep_invariant:
  "repo_inv collate \<lparr>rows = [], reservedTaskIds = {}, eventLog = l\<rparr> \<and>
   keeps (repo_inv collate) (enqueue collate parse clock input) \<and>
   keeps (repo_inv collate) (claimAtomic t b a) \<and>
   keeps (repo_inv collate) (claimAtomicWithEvents port t b a evs) \<and>
   keeps (repo_inv collate) (failPendingWithCompletionEvent port t ev evs) \<and>
   keeps (repo_inv collate) (completeWithEvents port t evs b) \<and>
   keeps (repo_inv collate) (gcAbandonedClaims port cs) \<and>
   keeps (repo_inv collate) (releaseClaim collate t b)"
  unfolding claimAtomic_def releaseClaim_def by (intro conjI keeps_intros) (simp add: repo_inv_def)

text \<open>C30: However calls on the queue interleave at their awaits, a call that resumes after its
  event append finds the row it decided on: it never throws the stale-row error, it succeeds, and
  the queue invariant holds afterwards. The per-task lock and the reservation of absent task ids
  are enough for this although \<^verbatim>\<open>enqueue\<close> takes no lock.\<close>

theorem interleaved_commits_never_stale:
  assumes "(repo_step collate parse)\<^sup>*\<^sup>* (st0, Map.empty) (st, L)" "repo_inv collate st0" "L t = Some opn"
  shows "fst (commit_op t opn st) = Inr True \<and> repo_inv collate (snd (commit_op t opn st))"
proof -
  have "conc_inv collate (st, L)"
    using reachable_conc_inv [OF assms(1)] assms(2) by (simp add: conc_inv_def)
  then have "repo_inv collate st" "op_ok st t opn" using assms(3) by (auto simp: conc_inv_def)
  then show ?thesis using commit_op_succeeds by blast
qed

lemma sample_starts:
  "(repo_step id parse)\<^sup>*\<^sup>* (sample_repo, Map.empty) (sample_repo, [''a'' \<mapsto> Claiming ''w1'' ''now''])"
  using repo_step.starts [of Map.empty "''a''" "Claiming ''w1'' ''now''" sample_repo id parse] sample_repo_find
  by (auto simp: may_start_def reserve_op_def)

theorem interleaved_commits_never_stale_witness:
  "fst (commit_op ''a'' (Claiming ''w1'' ''now'') sample_repo) = Inr True \<and>
   repo_inv id (snd (commit_op ''a'' (Claiming ''w1'' ''now'') sample_repo))"
  by (rule interleaved_commits_never_stale [OF sample_starts [of Inr] sample_repo_inv]) simp

text \<open>A call of a method that awaits the event log, run without interleaving, is a run of the
  interleaved step relation, so what holds in all its reachable states holds for such calls.\<close>

theorem sequential_calls_are_runs:
  assumes "L t = None" "t \<notin> reservedTaskIds st"
  shows "(repo_step collate parse)\<^sup>*\<^sup>* (st, L) (snd (claimAtomicWithEvents port t b a evs st), L) \<and>
    (repo_step collate parse)\<^sup>*\<^sup>* (st, L) (snd (failPendingWithCompletionEvent port t ev evs st), L) \<and>
    (repo_step collate parse)\<^sup>*\<^sup>* (st, L) (snd (completeWithEvents port t evs b st), L)"
  using claimAtomicWithEvents_run [of L t] failPending_run [of L t] completeWithEvents_run [of L t] assms by blast

theorem sequential_calls_are_runs_witness:
  "(repo_step id Inr)\<^sup>*\<^sup>* (sample_repo, Map.empty) (snd (claimAtomicWithEvents list_port ''a'' ''w1'' ''now'' [] sample_repo), Map.empty) \<and>
   (repo_step id Inr)\<^sup>*\<^sup>* (sample_repo, Map.empty) (snd (failPendingWithCompletionEvent list_port ''a'' sample_event [] sample_repo), Map.empty) \<and>
   (repo_step id Inr)\<^sup>*\<^sup>* (sample_repo, Map.empty) (snd (completeWithEvents list_port ''a'' [] ''w1'' sample_repo), Map.empty)"
  by (rule sequential_calls_are_runs) (simp_all add: sample_repo_def)

text \<open>Among any sequence of claim attempts by any workers, each task is won at most once, and
  only a task that was pending is won.\<close>

theorem claims_won_at_most_once:
  assumes "repo_inv collate st"
  shows "distinct (run_claims qs st) \<and> (\<forall>t. t \<in> set (run_claims qs st) \<longrightarrow> is_pending st t)"
  using claims.winners_distinct [OF assms] claims.winners_available [OF assms] by (simp add: run_claims_winners)

theorem claims_won_at_most_once_witness:
  "distinct (run_claims [(''a'', ''w1'', ''now''), (''a'', ''w2'', ''now'')] sample_repo)"
  using claims_won_at_most_once [OF sample_repo_inv, of "[(''a'', ''w1'', ''now''), (''a'', ''w2'', ''now'')]"] by (rule conjunct1)

lemma append_then_throws:
  assumes "repo_inv collate st" "fst (and_then (appendTaskEvents port evs) (\<lambda>_. m) st) = Inl e"
    and "\<And>l. \<exists>r. fst (m (st\<lparr>eventLog := l\<rparr>)) = Inr r"
  shows "\<exists>l. snd (and_then (appendTaskEvents port evs) (\<lambda>_. m) st) = st\<lparr>eventLog := l\<rparr>"
proof (cases "appendTaskEvents port evs st")
  case (Pair r st1)
  then obtain l where "st1 = st\<lparr>eventLog := l\<rparr>" using appendTaskEvents_frame by blast
  with Pair assms(2) assms(3) [of l] show ?thesis by (cases r) (auto simp: and_then_def)
qed

lemma log_unchanged: "\<exists>l. st = st\<lparr>eventLog := l\<rparr>"
  by (rule exI [of _ "eventLog st"]) simp

lemma claimAtomicWithEvents_throws:
  assumes "repo_inv collate st" "fst (claimAtomicWithEvents port t b a evs st) = Inl e"
  shows "\<exists>l. snd (claimAtomicWithEvents port t b a evs st) = st\<lparr>eventLog := l\<rparr>"
proof -
  obtain row where row: "find_row t (rows st) = Some row" "r_status row = Pending"
    and th: "fst (and_then (appendTaskEvents port evs) (\<lambda>_. claimPending t b a) st) = Inl e"
    using assms(2) by (auto simp: claimAtomicWithEvents_def split: option.splits if_splits)
  have "\<exists>r. fst (claimPending t b a (st\<lparr>eventLog := l\<rparr>)) = Inr r" for l
    using claimPending_eq [of collate "st\<lparr>eventLog := l\<rparr>" t row b a] assms(1) row by simp
  from append_then_throws [OF assms(1) th this] row show ?thesis by (simp add: claimAtomicWithEvents_def)
qed

lemma removeRow_returns:
  "repo_inv collate st \<Longrightarrow> find_row t (rows st) = Some row \<Longrightarrow> \<exists>r. fst (removeRow row (st\<lparr>eventLog := l\<rparr>)) = Inr r"
  using removeRow_eq [of collate "st\<lparr>eventLog := l\<rparr>" row] by (auto dest: find_row_Some)

lemma failPending_throws:
  assumes "repo_inv collate st" "fst (failPendingWithCompletionEvent port t ev pre st) = Inl e"
  shows "\<exists>l. snd (failPendingWithCompletionEvent port t ev pre st) = st\<lparr>eventLog := l\<rparr>"
proof (cases "fst (assertFailureCompletionEvent t ev st)")
  case (Inl x)
  then show ?thesis
    using log_unchanged by (auto simp: failPendingWithCompletionEvent_def assertFailureCompletionEvent_def and_then_def split: if_splits)
next
  case (Inr u)
  then have a: "assertFailureCompletionEvent t ev st = (Inr (), st)"
    by (auto simp: assertFailureCompletionEvent_def split: if_splits)
  obtain row where row: "find_row t (rows st) = Some row" "r_status row = Pending"
    and th: "fst (and_then (appendTaskEvents port (pre @ [ev])) (\<lambda>_. and_then (removeRow row) (\<lambda>_. ret True)) st) = Inl e"
    using assms(2) by (auto simp: failPendingWithCompletionEvent_def and_then_Inr [of "assertFailureCompletionEvent t ev" st, OF a] split: option.splits if_splits)
  have "\<exists>r. fst (and_then (removeRow row) (\<lambda>_. ret True) (st\<lparr>eventLog := l\<rparr>)) = Inr r" for l
    using removeRow_eq [of collate "st\<lparr>eventLog := l\<rparr>" row] assms(1) find_row_Some [OF row(1)] by (auto simp: and_then_def)
  from append_then_throws [OF assms(1) th this] row show ?thesis
    by (simp add: failPendingWithCompletionEvent_def and_then_Inr [of "assertFailureCompletionEvent t ev" st, OF a] del: ret_apply)
qed

lemma completeWithEvents_throws:
  assumes "repo_inv collate st" "fst (completeWithEvents port t evs b st) = Inl e" "t \<notin> reservedTaskIds st"
  shows "\<exists>l. snd (completeWithEvents port t evs b st) = st\<lparr>eventLog := l\<rparr>"
proof (cases "find_row t (rows st)")
  case None
  let ?st = "st\<lparr>reservedTaskIds := insert t (reservedTaskIds st)\<rparr>"
  obtain r st1 where ap: "appendTaskEvents port evs ?st = (r, st1)" by fastforce
  then obtain l where "st1 = ?st\<lparr>eventLog := l\<rparr>" using appendTaskEvents_frame by blast
  with None ap assms(3) log_unchanged show ?thesis
    by (cases st) (auto simp: completeWithEvents_def appendCompletionWithoutRow_def)
next
  case (Some row)
  show ?thesis
  proof (cases "r_claimed_by row = Some b \<and> (r_status row = Pending \<or> r_status row = Claimed)")
    case True
    with Some assms(2) have "fst (and_then (appendTaskEvents port evs) (\<lambda>_. removeRow row) st) = Inl e"
      by (auto simp: completeWithEvents_def)
    from append_then_throws [OF assms(1) this removeRow_returns [OF assms(1) Some]] True Some show ?thesis
      by (auto simp: completeWithEvents_def)
  next
    case False
    with Some log_unchanged show ?thesis by (auto simp: completeWithEvents_def)
  qed
qed

text \<open>A claim, a pending failure or a completion that throws (the event append failed, the
  batch append is not supported, the completion event is not the task's own, the caller is not the
  claimant) has not touched the queue: only the state of the event log may differ.\<close>

theorem throwing_calls_leave_the_queue:
  assumes "repo_inv collate st" "t \<notin> reservedTaskIds st"
  shows "(fst (claimAtomicWithEvents port t b a evs st) = Inl e \<longrightarrow>
      (\<exists>l. snd (claimAtomicWithEvents port t b a evs st) = st\<lparr>eventLog := l\<rparr>)) \<and>
    (fst (failPendingWithCompletionEvent port t ev evs st) = Inl e \<longrightarrow>
      (\<exists>l. snd (failPendingWithCompletionEvent port t ev evs st) = st\<lparr>eventLog := l\<rparr>)) \<and>
    (fst (completeWithEvents port t evs b st) = Inl e \<longrightarrow>
      (\<exists>l. snd (completeWithEvents port t evs b st) = st\<lparr>eventLog := l\<rparr>))"
  using claimAtomicWithEvents_throws [OF assms(1)] failPending_throws [OF assms(1)]
    completeWithEvents_throws [OF assms(1) _ assms(2)] by blast

theorem throwing_calls_leave_the_queue_witness:
  "\<exists>l. snd (claimAtomicWithEvents broken_port ''a'' ''w1'' ''now'' [sample_event] sample_repo) = sample_repo\<lparr>eventLog := l\<rparr>"
proof -
  have "fst (claimAtomicWithEvents broken_port ''a'' ''w1'' ''now'' [sample_event] sample_repo) = Inl ''disk full''"
    using sample_repo_find
    by (simp add: claimAtomicWithEvents_def appendTaskEvents_def appendTaskEvent_def log_call_def and_then_def broken_port_def)
  then show ?thesis
    using throwing_calls_leave_the_queue [OF sample_repo_inv, of "''a''" broken_port "''w1''" "''now''" "[sample_event]"]
    by (simp add: sample_repo_def)
qed

text \<open>A successful audited claim found the task pending, appended all its events to the log
  first, and then changed exactly that row: claimant and time set, attempt count increased by one.\<close>

theorem claim_appends_then_claims:
  assumes "repo_inv collate st" "claimAtomicWithEvents port t b a evs st = (Inr Claim_ok, st')"
  shows "\<exists>row l. find_row t (rows st) = Some row \<and> r_status row = Pending \<and>
    appendTaskEvents port evs st = (Inr (), st\<lparr>eventLog := l\<rparr>) \<and> eventLog st' = l \<and>
    rows st' = map (\<lambda>x. if r_id x = t then claimed_row b a row else x) (rows st) \<and>
    reservedTaskIds st' = reservedTaskIds st"
proof -
  obtain row where row: "find_row t (rows st) = Some row" "r_status row = Pending"
    and th: "and_then (appendTaskEvents port evs) (\<lambda>_. claimPending t b a) st = (Inr Claim_ok, st')"
    using assms(2) by (auto simp: claimAtomicWithEvents_def split: option.splits if_splits)
  obtain u st1 where ap: "appendTaskEvents port evs st = (Inr u, st1)" and c: "claimPending t b a st1 = (Inr Claim_ok, st')"
    using th by (auto simp: and_then_returns)
  obtain l where st1: "st1 = st\<lparr>eventLog := l\<rparr>" using ap appendTaskEvents_frame by blast
  have "claimPending t b a st1 = (Inr Claim_ok, st1\<lparr>rows := update_row (claimed_row b a row) (rows st1)\<rparr>)"
    using claimPending_eq [of collate st1 t row b a] assms(1) row st1 by simp
  with c st1 row ap find_row_Some [OF row(1)] show ?thesis
    by (auto simp: update_row_def)
qed

theorem claim_appends_then_claims_witness:
  "\<exists>row l. find_row ''a'' (rows sample_repo) = Some row \<and> r_status row = Pending \<and>
    appendTaskEvents list_port [sample_event] sample_repo = (Inr (), sample_repo\<lparr>eventLog := l\<rparr>) \<and>
    eventLog (snd (claimAtomicWithEvents list_port ''a'' ''w1'' ''now'' [sample_event] sample_repo)) = l \<and>
    rows (snd (claimAtomicWithEvents list_port ''a'' ''w1'' ''now'' [sample_event] sample_repo)) =
      map (\<lambda>x. if r_id x = ''a'' then claimed_row ''w1'' ''now'' row else x) (rows sample_repo) \<and>
    reservedTaskIds (snd (claimAtomicWithEvents list_port ''a'' ''w1'' ''now'' [sample_event] sample_repo)) = reservedTaskIds sample_repo"
  by (rule claim_appends_then_claims [OF sample_repo_inv])
    (simp add: claimAtomicWithEvents_def appendTaskEvents_def appendTaskEvent_def log_call_def and_then_def
      claimPending_def replace_asserted_def find_row_def sample_simps)

text \<open>A completion of a queued task goes through only for the worker that claimed it; then its
  events are in the log and exactly its row is gone. For a worker that is not the claimant the call
  throws and changes nothing.\<close>

theorem completion_only_by_claimant:
  assumes "repo_inv collate st" "find_row t (rows st) = Some row"
  shows "(\<forall>st'. completeWithEvents port t evs b st = (Inr (), st') \<longrightarrow>
      r_status row = Claimed \<and> r_claimed_by row = Some b \<and>
      (\<exists>l. appendTaskEvents port evs st = (Inr (), st\<lparr>eventLog := l\<rparr>) \<and> eventLog st' = l) \<and>
      rows st' = filter (\<lambda>x. r_id x \<noteq> t) (rows st)) \<and>
    (r_claimed_by row \<noteq> Some b \<longrightarrow> (\<exists>e. completeWithEvents port t evs b st = (Inl e, st)))"
proof -
  have ok: "row_ok row" and id: "r_id row = t" and mem: "row \<in> set (rows st)"
    using repo_invD(3) [OF assms(1)] find_row_Some [OF assms(2)] by auto
  have "rows st' = filter (\<lambda>x. r_id x \<noteq> t) (rows st) \<and> (\<exists>l. appendTaskEvents port evs st = (Inr (), st\<lparr>eventLog := l\<rparr>) \<and> eventLog st' = l)"
    if r: "and_then (appendTaskEvents port evs) (\<lambda>_. removeRow row) st = (Inr (), st')" for st'
  proof -
    obtain u st1 where ap: "appendTaskEvents port evs st = (Inr u, st1)" and rem: "removeRow row st1 = (Inr (), st')"
      using r by (auto simp: and_then_returns)
    obtain l where st1: "st1 = st\<lparr>eventLog := l\<rparr>" using ap appendTaskEvents_frame by blast
    with rem removeRow_eq [of collate st1 row] assms(1) mem id ap show ?thesis by auto
  qed
  note run = this
  show ?thesis
  proof (cases "r_claimed_by row = Some b")
    case True
    with ok have st: "r_status row = Claimed" by (auto simp: row_ok_def)
    with True assms(2) have eq: "completeWithEvents port t evs b st = and_then (appendTaskEvents port evs) (\<lambda>_. removeRow row) st"
      by (simp add: completeWithEvents_def)
    show ?thesis unfolding eq using True st run by blast
  next
    case False
    with ok assms(2) show ?thesis by (cases "r_status row") (simp_all add: completeWithEvents_def row_ok_def)
  qed
qed

theorem completion_only_by_claimant_witness:
  "\<exists>e. completeWithEvents list_port ''a'' [sample_event] ''w1'' sample_repo = (Inl e, sample_repo)"
  using completion_only_by_claimant [OF sample_repo_inv sample_repo_find(1), of list_port "[sample_event]" "''w1''"]
  by (simp add: sample_row_def new_row_def)

lemma reclaim_one_returns:
  assumes "repo_inv collate st" "reclaim_one port c st = (Inr (), st')"
  shows "\<exists>row l. find_row (c_task_id c) (rows st) = Some row \<and> r_status row = Claimed \<and>
    st' = st\<lparr>eventLog := l, rows := update_row (unclaimed row) (rows st)\<rparr>"
proof -
  obtain row u st1 where f: "findReclaimableRow c st = Inr row"
    and ap: "appendTaskEvent port (c_event c) st = (Inr u, st1)"
    and rep: "replace_asserted (c_task_id c) row (unclaimed row) st1 = (Inr (), st')"
    using assms(2) by (auto simp: reclaim_one_def and_then_returns)
  note row = findReclaimableRow_Inr [OF f]
  obtain l where st1: "st1 = st\<lparr>eventLog := l\<rparr>"
    using ap appendTaskEvents_frame by (metis appendTaskEvent_single)
  have "replace_asserted (c_task_id c) row (unclaimed row) st1 = (Inr (), st1\<lparr>rows := update_row (unclaimed row) (rows st1)\<rparr>)"
    by (rule replace_asserted_eq [of collate]) (use assms(1) row st1 find_row_Some in auto)
  with rep row st1 show ?thesis by auto
qed

lemma find_after_reclaim:
  assumes "repo_inv collate st" "find_row u (rows st) = Some row"
  shows "find_row t (rows (st\<lparr>eventLog := l, rows := update_row (unclaimed row) (rows st)\<rparr>)) =
    (if t = u then Some (unclaimed row) else find_row t (rows st))"
  using find_update_row [OF repo_invD(1) [OF assms(1)], of row "unclaimed row" t] find_row_Some [OF assms(2)] by auto

lemma reclaim_apply_pending_stays:
  assumes "repo_inv collate st" "reclaim_apply port cs n st = (Inr m, st')"
    and "find_row t (rows st) = Some row" "r_status row = Pending"
  shows "find_row t (rows st') = Some row"
  using assms
proof (induction cs arbitrary: n st)
  case (Cons c cs)
  then obtain st1 where one: "reclaim_one port c st = (Inr (), st1)" and rest: "reclaim_apply port cs (n + 1) st1 = (Inr m, st')"
    by (auto simp: and_then_returns)
  obtain row' l where r: "find_row (c_task_id c) (rows st) = Some row'" "r_status row' = Claimed"
    and st1: "st1 = st\<lparr>eventLog := l, rows := update_row (unclaimed row') (rows st)\<rparr>"
    using reclaim_one_returns [OF Cons.prems(1) one] by blast
  have "find_row t (rows st1) = Some row"
    using find_after_reclaim [OF Cons.prems(1) r(1), of t l] Cons.prems(3,4) r st1 by auto
  moreover have "repo_inv collate st1" using keepsD' [OF keeps_reclaim_one Cons.prems(1) one] .
  ultimately show ?case using Cons.IH rest Cons.prems(4) by blast
qed simp

lemma reclaim_apply_result:
  assumes "repo_inv collate st" "reclaim_apply port cs n st = (Inr m, st')"
  shows "m = n + length cs \<and> (\<forall>c \<in> set cs. \<exists>row. find_row (c_task_id c) (rows st) = Some row \<and>
    r_status row = Claimed \<and> find_row (c_task_id c) (rows st') = Some (unclaimed row))"
  using assms
proof (induction cs arbitrary: n st)
  case (Cons c cs)
  then obtain st1 where one: "reclaim_one port c st = (Inr (), st1)" and rest: "reclaim_apply port cs (n + 1) st1 = (Inr m, st')"
    by (auto simp: and_then_returns)
  obtain row l where r: "find_row (c_task_id c) (rows st) = Some row" "r_status row = Claimed"
    and st1: "st1 = st\<lparr>eventLog := l, rows := update_row (unclaimed row) (rows st)\<rparr>"
    using reclaim_one_returns [OF Cons.prems(1) one] by blast
  have inv1: "repo_inv collate st1" using keepsD' [OF keeps_reclaim_one Cons.prems(1) one] .
  have f: "find_row t (rows st1) = (if t = c_task_id c then Some (unclaimed row) else find_row t (rows st))" for t
    unfolding st1 by (rule find_after_reclaim [OF Cons.prems(1) r(1)])
  have "find_row (c_task_id c) (rows st') = Some (unclaimed row)"
    using reclaim_apply_pending_stays [OF inv1 rest, of "c_task_id c" "unclaimed row"] f by simp
  moreover have "m = n + 1 + length cs \<and> (\<forall>c' \<in> set cs. \<exists>row. find_row (c_task_id c') (rows st1) = Some row \<and>
    r_status row = Claimed \<and> find_row (c_task_id c') (rows st') = Some (unclaimed row))"
    using Cons.IH [OF inv1 rest] by simp
  ultimately show ?case using r f by (fastforce split: if_splits)
qed simp

lemma reclaim_validate_throws:
  "(\<exists>c \<in> set cs. \<exists>e. findReclaimableRow c st = Inl e) \<Longrightarrow> \<exists>e. reclaim_validate cs st = (Inl e, st)"
  by (induction cs) (auto split: sum.split)

text \<open>Reclaiming abandoned claims is all or nothing on its validation: if one of the claims named
  has changed, the call throws before any event or row is written. When it returns, it returns the
  number of claims asked for, and every one of those rows went from claimed to pending with its
  claimant and claim time cleared and everything else of it kept.\<close>

theorem gcAbandonedClaims_all_or_nothing:
  assumes "repo_inv collate st"
  shows "((\<exists>c \<in> set cs. \<exists>e. findReclaimableRow c st = Inl e) \<longrightarrow> (\<exists>e. gcAbandonedClaims port cs st = (Inl e, st))) \<and>
    (\<forall>n st'. gcAbandonedClaims port cs st = (Inr n, st') \<longrightarrow> n = length cs \<and>
      (\<forall>c \<in> set cs. \<exists>row. find_row (c_task_id c) (rows st) = Some row \<and> r_status row = Claimed \<and>
        find_row (c_task_id c) (rows st') = Some (row\<lparr>r_status := Pending, r_claimed_by := None, r_claimed_at := None\<rparr>)))"
proof -
  have "n = length cs \<and> (\<forall>c \<in> set cs. \<exists>row. find_row (c_task_id c) (rows st) = Some row \<and> r_status row = Claimed \<and>
        find_row (c_task_id c) (rows st') = Some (unclaimed row))"
    if g: "gcAbandonedClaims port cs st = (Inr n, st')" for n st'
  proof -
    obtain u st1 where "reclaim_validate cs st = (Inr u, st1)" "reclaim_apply port cs 0 st1 = (Inr n, st')"
      using g by (auto simp: gcAbandonedClaims_def and_then_returns)
    with reclaim_validate_state [of cs st] have "reclaim_apply port cs 0 st = (Inr n, st')" by simp
    with reclaim_apply_result [OF assms] show ?thesis by fastforce
  qed
  moreover have "\<exists>e. gcAbandonedClaims port cs st = (Inl e, st)" if "\<exists>c \<in> set cs. \<exists>e. findReclaimableRow c st = Inl e"
    using reclaim_validate_throws [OF that] by (auto simp: gcAbandonedClaims_def and_then_Inl)
  ultimately show ?thesis by (simp add: unclaimed_def)
qed

theorem gcAbandonedClaims_all_or_nothing_witness:
  "\<exists>e. gcAbandonedClaims list_port [\<lparr>c_task_id = ''a'', c_claimed_by = ''w1'', c_claimed_at = ''now'', c_event = sample_event\<rparr>] sample_repo = (Inl e, sample_repo)"
  using gcAbandonedClaims_all_or_nothing [OF sample_repo_inv,
      of "[\<lparr>c_task_id = ''a'', c_claimed_by = ''w1'', c_claimed_at = ''now'', c_event = sample_event\<rparr>]" list_port] sample_repo_find
  by (simp add: findReclaimableRow_def)

definition eligible :: "garden_role \<Rightarrow> string option \<Rightarrow> in_memory_row \<Rightarrow> bool" where
  "eligible role ws row \<longleftrightarrow> r_status row = Pending \<and> canRolePeekPending role (r_role row) \<and>
     (case ws of None \<Rightarrow> True | Some w \<Rightarrow> r_workspace_id row = w)"

lemma peekPending_eq: "peekPending role ws limit st = take limit (filter (eligible role ws) (rows st))"
  by (simp add: peekPending_def eligible_def [abs_def] conj_ac)

lemma ordered_filter_rows:
  "tasks.ordered collate (map r_descriptor rs) \<Longrightarrow> tasks.ordered collate (map r_descriptor (filter P rs))"
  by (induction rs) auto

lemma ordered_take_before:
  assumes "tasks.ordered collate (map r_descriptor rs)" "x \<in> set (take n rs)" "y \<in> set (drop n rs)"
  shows "compareTasks collate (r_descriptor x) (r_descriptor y) \<le> 0"
proof -
  have "tasks.ordered collate (map r_descriptor (take n rs @ drop n rs))" using assms(1) by simp
  then have "tasks.ordered collate (map r_descriptor (take n rs) @ map r_descriptor (drop n rs))"
    by (metis map_append)
  then show ?thesis using assms(2,3) unfolding sorted_wrt_append by auto
qed

text \<open>A peek returns, in dispatch order (priority first, then age, then task id), as many of the
  pending rows the role may see in that workspace as the limit allows, and every such row it leaves
  out comes no earlier in dispatch order than those it returns.\<close>

theorem peekPending_takes_the_first:
  assumes "repo_inv collate st"
  shows "set (peekPending role ws limit st) \<subseteq> {row \<in> set (rows st). eligible role ws row} \<and>
    length (peekPending role ws limit st) = min limit (length (filter (eligible role ws) (rows st))) \<and>
    tasks.ordered collate (map r_descriptor (peekPending role ws limit st)) \<and>
    (\<forall>x \<in> set (peekPending role ws limit st). \<forall>y \<in> set (rows st).
       eligible role ws y \<and> y \<notin> set (peekPending role ws limit st) \<longrightarrow>
       compareTasks collate (r_descriptor x) (r_descriptor y) \<le> 0)"
proof -
  let ?es = "filter (eligible role ws) (rows st)"
  have o: "tasks.ordered collate (map r_descriptor ?es)"
    using ordered_filter_rows repo_invD(2) [OF assms] by blast
  have "compareTasks collate (r_descriptor x) (r_descriptor y) \<le> 0"
    if "x \<in> set (take limit ?es)" "y \<in> set (rows st)" "eligible role ws y" "y \<notin> set (take limit ?es)" for x y
  proof -
    have "y \<in> set (take limit ?es @ drop limit ?es)" using that(2,3) by simp
    then have "y \<in> set (drop limit ?es)" using that(4) unfolding set_append by blast
    with o that(1) show ?thesis by (rule ordered_take_before)
  qed
  moreover have "tasks.ordered collate (map r_descriptor (take limit ?es))"
    using sorted_wrt_take [OF o, of limit] by (simp add: take_map)
  moreover have "set (take limit ?es) \<subseteq> {row \<in> set (rows st). eligible role ws row}"
    using set_take_subset [of limit ?es] by auto
  ultimately show ?thesis by (auto simp: peekPending_eq min.commute)
qed

theorem peekPending_takes_the_first_witness:
  "length (peekPending Auditor None 10 sample_repo) = 1"
proof -
  have "filter (eligible Auditor None) (rows sample_repo) = [sample_row ''a'']"
    by (simp add: sample_simps eligible_def canRolePeekPending_def tierForRole_def)
  then show ?thesis using peekPending_takes_the_first [OF sample_repo_inv, of Auditor None 10] by simp
qed

text \<open>The backlog count has one entry for each role and open status that occurs in the workspace,
  with the number of such rows, and the totals by status are the numbers of pending and claimed rows.\<close>

theorem countBacklog_exact:
  "((role, status, n) \<in> set (countBacklog st ws) \<longleftrightarrow>
     n = length (filter (row_counts ws role status) (rows st)) \<and> n > 0) \<and>
   countByStatus (countBacklog st None) Pending = length (filter (\<lambda>row. r_status row = Pending) (rows st)) \<and>
   countByStatus (countBacklog st None) Claimed = length (filter (\<lambda>row. r_status row = Claimed) (rows st))"
proof -
  have pos: "\<forall>p \<in> set (foldl (count_row ws) counts rs). snd p > 0" if "\<forall>p \<in> set counts. snd p > 0" for counts rs
    using that
  proof (induction rs arbitrary: counts)
    case (Cons r rs)
    have "\<forall>p \<in> set (count_row ws counts r). snd p > 0"
      using Cons.prems by (simp add: count_row_def Let_def update_positive)
    with Cons.IH show ?case by simp
  qed simp
  have "n > 0" if "(role, status, n) \<in> set (countBacklog st ws)"
    using pos [of "[]" "rows st"] that by (auto simp: countBacklog_def)
  with countBacklog_entry have "(role, status, n) \<in> set (countBacklog st ws) \<longleftrightarrow>
     n = length (filter (row_counts ws role status) (rows st)) \<and> n > 0" by blast
  then show ?thesis by (simp add: countByStatus_countBacklog)
qed

text \<open>Enqueueing validates first; then a periodic task of a workspace and kind that already has an
  open periodic row returns that row and adds nothing, a task id in use or reserved is refused
  without change, and otherwise exactly one pending row with that id is added.\<close>

theorem enqueue_outcomes:
  assumes "repo_inv collate st" "parse (i_payload input) = Inr d" "i_id input = Some t"
  shows "(d_periodic d = Some True \<and> (\<exists>row \<in> set (rows st). is_open_periodic input row) \<longrightarrow>
      (\<exists>row \<in> set (rows st). is_open_periodic input row \<and> enqueue collate parse clock input st = (Inr (r_id row), st))) \<and>
    (\<not> (d_periodic d = Some True \<and> (\<exists>row \<in> set (rows st). is_open_periodic input row)) \<longrightarrow>
      (t \<in> reservedTaskIds st \<or> t \<in> r_id ` set (rows st) \<longrightarrow> (\<exists>e. enqueue collate parse clock input st = (Inl e, st))) \<and>
      (t \<notin> reservedTaskIds st \<and> t \<notin> r_id ` set (rows st) \<longrightarrow>
        (\<exists>st' c. enqueue collate parse clock input st = (Inr t, st') \<and>
          mset (rows st') = add_mset (new_row t c input d) (mset (rows st)) \<and>
          r_status (new_row t c input d) = Pending)))"
proof (cases "d_periodic d = Some True \<and> (\<exists>row \<in> set (rows st). is_open_periodic input row)")
  case True
  then obtain row where "List.find (is_open_periodic input) (rows st) = Some row"
    by (metis find_None_iff option.exhaust)
  moreover from this have "row \<in> set (rows st) \<and> is_open_periodic input row" by (auto simp: find_Some_iff)
  ultimately show ?thesis using True assms(2) by (auto simp: enqueue_def Let_def)
next
  case False
  then have "(if d_periodic d = Some True then List.find (is_open_periodic input) (rows st) else None) = None"
    by (auto simp: find_None_iff)
  then have "enqueue collate parse clock input st =
    (if t \<in> reservedTaskIds st \<or> t \<in> r_id ` set (rows st) then (Inl (''Garden task '' @ t @ '' already exists.''), st)
     else (Inr t, st\<lparr>rows := sort_rows collate (rows st @ [new_row t (case i_created_at input of Some c \<Rightarrow> c | None \<Rightarrow> clock) input d])\<rparr>))"
    using assms(2,3) by (simp add: enqueue_def Let_def task_id_or_default_def)
  with False show ?thesis by (auto simp: new_row_def)
qed

theorem enqueue_outcomes_witness:
  "\<exists>st' c. enqueue id Inr ''now'' (garden_input (Some ''b'') ''b'' 7) sample_repo = (Inr ''b'', st') \<and>
    mset (rows st') = add_mset (new_row ''b'' c (garden_input (Some ''b'') ''b'' 7) (sample_descriptor ''b'' 7)) (mset (rows sample_repo))"
  using enqueue_outcomes [OF sample_repo_inv, of Inr "garden_input (Some ''b'') ''b'' 7" "sample_descriptor ''b'' 7" "''b''" "''now''"]
  by (auto simp: sample_simps)

text \<open>Tasks enqueued one after the other, and the ids they get when they name none.\<close>

primrec enqueue_each :: "(string \<Rightarrow> string) \<Rightarrow> (garden_task_descriptor \<Rightarrow> string + garden_task_descriptor) \<Rightarrow> string
    \<Rightarrow> enqueue_input list \<Rightarrow> ('l repo, string list) action" where
  "enqueue_each collate parse clock [] = ret []"
| "enqueue_each collate parse clock (input # inputs) =
     and_then (enqueue collate parse clock input) (\<lambda>t. and_then (enqueue_each collate parse clock inputs) (\<lambda>ts. ret (t # ts)))"

definition default_task_id :: "nat \<Rightarrow> string" where
  "default_task_id k = ''garden-task-'' @ js_string_of_nat k"

definition holds_defaults :: "(string \<Rightarrow> string) \<Rightarrow> nat set \<Rightarrow> 'l repo \<Rightarrow> bool" where
  "holds_defaults collate K st \<longleftrightarrow> repo_inv collate st \<and> reservedTaskIds st = {} \<and> r_id ` set (rows st) = default_task_id ` K"

definition unnamed_input :: "(garden_task_descriptor \<Rightarrow> string + garden_task_descriptor) \<Rightarrow> enqueue_input \<Rightarrow> bool" where
  "unnamed_input parse input \<longleftrightarrow> i_id input = None \<and> (\<exists>d. parse (i_payload input) = Inr d \<and> d_periodic d \<noteq> Some True)"

lemma default_task_id_inject: "default_task_id a = default_task_id b \<longleftrightarrow> a = b"
  by (simp add: default_task_id_def js_string_of_nat_inject)

lemma holds_length: "holds_defaults collate K st \<Longrightarrow> length (rows st) = card K"
proof -
  assume h: "holds_defaults collate K st"
  then have "length (rows st) = card (r_id ` set (rows st))"
    using distinct_card [OF repo_invD(1), of collate st] by (simp add: holds_defaults_def)
  also have "\<dots> = card K" using h by (simp add: holds_defaults_def card_image inj_on_def default_task_id_inject)
  finally show ?thesis .
qed

lemma enqueue_unnamed:
  assumes h: "holds_defaults collate K st" and "unnamed_input parse input"
  shows "Suc (card K) \<in> K \<Longrightarrow> enqueue collate parse clock input st =
      (Inl (''Garden task '' @ default_task_id (Suc (card K)) @ '' already exists.''), st)"
    and "Suc (card K) \<notin> K \<Longrightarrow> \<exists>st'. enqueue collate parse clock input st = (Inr (default_task_id (Suc (card K))), st') \<and>
      holds_defaults collate (insert (Suc (card K)) K) st'"
proof -
  have t: "task_id_or_default input st = default_task_id (Suc (card K))"
    using assms(2) holds_length [OF h] by (simp add: task_id_or_default_def default_task_id_def unnamed_input_def)
  obtain d where d: "parse (i_payload input) = Inr d" "d_periodic d \<noteq> Some True" using assms(2) by (auto simp: unnamed_input_def)
  have known: "default_task_id k \<in> r_id ` set (rows st) \<longleftrightarrow> k \<in> K" for k
    using h by (auto simp: holds_defaults_def default_task_id_inject)
  have free: "reservedTaskIds st = {}" using h by (simp add: holds_defaults_def)
  show "Suc (card K) \<in> K \<Longrightarrow> enqueue collate parse clock input st =
      (Inl (''Garden task '' @ default_task_id (Suc (card K)) @ '' already exists.''), st)"
    using d known [of "Suc (card K)"] by (simp add: enqueue_def Let_def t)
  assume new: "Suc (card K) \<notin> K"
  then obtain c where eq: "enqueue collate parse clock input st =
      (Inr (default_task_id (Suc (card K))), st\<lparr>rows := sort_rows collate (rows st @ [new_row (default_task_id (Suc (card K))) c input d])\<rparr>)"
    using d known [of "Suc (card K)"] free by (simp add: enqueue_def Let_def t)
  let ?st = "st\<lparr>rows := sort_rows collate (rows st @ [new_row (default_task_id (Suc (card K))) c input d])\<rparr>"
  have "repo_inv collate (snd (enqueue collate parse clock input st))"
    by (rule keepsD [OF keeps_enqueue]) (use h in \<open>simp add: holds_defaults_def\<close>)
  then have "holds_defaults collate (insert (Suc (card K)) K) ?st"
    using h by (simp add: holds_defaults_def eq new_row_def)
  then show "\<exists>st'. enqueue collate parse clock input st = (Inr (default_task_id (Suc (card K))), st') \<and>
      holds_defaults collate (insert (Suc (card K)) K) st'" using eq by blast
qed

lemma enqueue_each_unnamed:
  assumes "holds_defaults collate {1..n} st" "list_all (unnamed_input parse) inputs"
  shows "\<exists>st'. enqueue_each collate parse clock inputs st = (Inr (map default_task_id [Suc n..<Suc (n + length inputs)]), st') \<and>
    holds_defaults collate {1..n + length inputs} st'"
  using assms
proof (induction inputs arbitrary: n st)
  case (Cons input inputs)
  obtain st1 where st1: "enqueue collate parse clock input st = (Inr (default_task_id (Suc n)), st1)"
    "holds_defaults collate (insert (Suc n) {1..n}) st1"
    using enqueue_unnamed(2) [OF Cons.prems(1), of parse input clock] Cons.prems(2) by auto
  moreover have "insert (Suc n) {1..n} = {1..Suc n}" by auto
  ultimately obtain st2 where "enqueue_each collate parse clock inputs st1 =
      (Inr (map default_task_id [Suc (Suc n)..<Suc (Suc n + length inputs)]), st2)"
    "holds_defaults collate {1..Suc n + length inputs} st2"
    using Cons.IH [of "Suc n" st1] Cons.prems(2) by auto
  then show ?case using st1(1) by (simp add: and_then_def ret_def upt_conv_Cons del: upt_Suc)
qed (simp add: ret_def)

lemma completed_defaults:
  assumes h: "holds_defaults collate K st" and k: "k \<in> K"
    and completed: "completeWithEvents port (default_task_id k) evs b st = (Inr (), st')"
  shows "holds_defaults collate (K - {k}) st'"
proof -
  have inv: "repo_inv collate st" using h by (simp add: holds_defaults_def)
  have "default_task_id k \<in> r_id ` set (rows st)" using h k by (auto simp: holds_defaults_def)
  then obtain row where row: "find_row (default_task_id k) (rows st) = Some row" using find_row_None by (metis option.exhaust)
  from completion_only_by_claimant [OF inv row] completed
  have rows: "rows st' = filter (\<lambda>x. r_id x \<noteq> default_task_id k) (rows st)" by blast
  have "reservedTaskIds st' = reservedTaskIds st"
    using completed row
    by (auto simp: completeWithEvents_def and_then_returns removeRow_def split: if_splits dest!: appendTaskEvents_frame)
  moreover have "repo_inv collate st'" using keepsD [OF keeps_completeWithEvents inv, of port] completed by (metis snd_conv)
  moreover have "r_id ` set (rows st') = r_id ` set (rows st) - {default_task_id k}" by (auto simp: rows)
  moreover have "default_task_id ` K - {default_task_id k} = default_task_id ` (K - {k})" by (auto simp: default_task_id_inject)
  ultimately show ?thesis using h by (simp add: holds_defaults_def)
qed

text \<open>C40: The id of a task enqueued without one is the queue length plus one. Tasks enqueued without
  ids on an empty queue are numbered in order; but once any of them except the newest was claimed and
  completed, the queue is shorter and the next task enqueued without an id gets the id of the newest,
  which is still queued: it is refused and the queue stays as it is. Only when the newest was the one
  completed is the task accepted, under the id of the completed one.\<close>

theorem default_task_id_collides:
  assumes inputs: "list_all (unnamed_input parse) (later # inputs)" and k: "1 \<le> k" "k \<le> length inputs"
    and queued: "enqueue_each collate parse clock inputs \<lparr>rows = [], reservedTaskIds = {}, eventLog = l\<rparr> = (ids, st1)"
    and claimed: "claimAtomic (default_task_id k) worker now st1 = (won, st2)"
    and completed: "completeWithEvents port (default_task_id k) evs worker st2 = (Inr (), st3)"
  shows "ids = Inr (map default_task_id [1..<Suc (length inputs)]) \<and>
    (k < length inputs \<longrightarrow> enqueue collate parse clock' later st3 =
       (Inl (''Garden task '' @ default_task_id (length inputs) @ '' already exists.''), st3)) \<and>
    (k = length inputs \<longrightarrow> fst (enqueue collate parse clock' later st3) = Inr (default_task_id (length inputs)))"
proof -
  let ?n = "length inputs"
  have "holds_defaults collate {1..0} \<lparr>rows = [], reservedTaskIds = {}, eventLog = l\<rparr>" by (simp add: holds_defaults_def repo_inv_def)
  from enqueue_each_unnamed [OF this, of parse inputs clock] inputs queued
  have ids: "ids = Inr (map default_task_id [1..<Suc ?n])" and one: "holds_defaults collate {1..?n} st1" by auto
  have inv: "repo_inv collate st1" using one by (simp add: holds_defaults_def)
  have "r_id ` set (rows st2) = r_id ` set (rows st1)"
    by (rule claimPending_cases [OF inv, of "default_task_id k" worker now])
      (use claimed in \<open>auto simp: claimAtomic_def simp flip: set_map\<close>)
  moreover have "repo_inv collate st2" using keepsD [OF keeps_claimPending inv] claimed by (metis claimAtomic_def snd_conv)
  moreover have "reservedTaskIds st2 = reservedTaskIds st1" using claimPending_reserved claimed by (metis claimAtomic_def snd_conv)
  ultimately have "holds_defaults collate {1..?n} st2" using one by (simp add: holds_defaults_def)
  then have three: "holds_defaults collate ({1..?n} - {k}) st3" by (rule completed_defaults [OF _ _ completed]) (use k in simp)
  have card: "Suc (card ({1..?n} - {k})) = ?n" using k by simp
  have "unnamed_input parse later" using inputs by simp
  note enqueue_unnamed [OF three this, unfolded card, of clock']
  then show ?thesis using ids k by auto
qed

lemma default_task_id_collides_witness:
  "\<exists>st :: scheduler_event list repo. length (rows st) = 1 \<and> fst (enqueue id Inr ''now'' (garden_input None ''z'' 1) st) = Inl ''Garden task garden-task-2 already exists.''"
proof -
  let ?inputs = "[garden_input None ''x'' 1, garden_input None ''y'' 1]" and ?st0 = "\<lparr>rows = [], reservedTaskIds = {}, eventLog = [] :: scheduler_event list\<rparr>"
  let ?st1 = "snd (enqueue_each id Inr ''now'' ?inputs ?st0)"
  let ?st2 = "snd (claimAtomic ''garden-task-1'' ''w1'' ''now'' ?st1)"
  let ?st3 = "snd (completeWithEvents list_port ''garden-task-1'' [] ''w1'' ?st2)"
  have ids: "default_task_id 1 = ''garden-task-1''" "default_task_id (length ?inputs) = ''garden-task-2''" by code_simp+
  have unnamed: "list_all (unnamed_input Inr) (garden_input None ''z'' 1 # ?inputs)"
    by (simp add: unnamed_input_def garden_input_def sample_descriptor_def)
  have run: "fst (completeWithEvents list_port ''garden-task-1'' [] ''w1'' ?st2) = Inr ()" "length (rows ?st3) = 1" by code_simp+
  have queued: "enqueue_each id Inr ''now'' ?inputs ?st0 = (fst (enqueue_each id Inr ''now'' ?inputs ?st0), ?st1)" by (rule prod.collapse [symmetric])
  have claimed: "claimAtomic (default_task_id 1) ''w1'' ''now'' ?st1 = (fst (claimAtomic ''garden-task-1'' ''w1'' ''now'' ?st1), ?st2)"
    unfolding ids by (rule prod.collapse [symmetric])
  have completed: "completeWithEvents list_port (default_task_id 1) [] ''w1'' ?st2 = (Inr (), ?st3)"
    unfolding ids run(1) [symmetric] by (rule prod.collapse [symmetric])
  have "(1 :: nat) \<le> 1" "1 \<le> length ?inputs" "1 < length ?inputs" by simp_all
  note later = default_task_id_collides [OF unnamed this(1,2) queued claimed completed, of "''now''", THEN conjunct2, THEN conjunct1, THEN mp, OF this(3)]
  have "fst (enqueue id Inr ''now'' (garden_input None ''z'' 1) ?st3) = Inl ''Garden task garden-task-2 already exists.''"
    unfolding later ids by simp
  then show ?thesis using run(2) by blast
qed

end
