(* ===== verification/CompletionPayload.thy ===== *)
theory CompletionPayload
  imports GardenTier "HOL-Library.Word"
begin

text \<open>
  The bounded completion payload of a garden task
  (\<^verbatim>\<open>packages/soul/src/garden/scheduling/events/completion-payload.ts\<close>): when the full list of
  affected objects does not fit the event log's payload limit, a binary search finds the longest
  prefix that does, and the payload carries the total count and a digest of the whole list.
  SHA-256 and the UTF-8 encoder are parameters; the verdict of the zod payload schema is one too
  (a payload that passes is returned as it is, since every key given is declared).
\<close>

section \<open>Payloads\<close>

definition payload_success :: "garden_task_result \<Rightarrow> bool" where
  "payload_success result =
     (case g_outcome result of None \<Rightarrow> g_success result | Some outcome \<Rightarrow> gardenTaskOutcomeSuccess outcome)"

primrec outcome_value :: "garden_task_outcome \<Rightarrow> string" where
  "outcome_value Completed = ''completed''"
| "outcome_value Skipped = ''skipped''"
| "outcome_value Failed = ''failed''"

definition createBasePayload :: "garden_task_result \<Rightarrow> string \<Rightarrow> string list \<Rightarrow> json_object" where
  "createBasePayload result occurredAt objectsAffected =
     [(''task_id'', JString (g_task_id result)), (''task_kind'', JString (kind_value (g_task_kind result))),
      (''role'', JString (role_value (g_role result))), (''tier'', JString (tier_value (g_tier result))),
      (''success'', JBool (payload_success result))] @
     (case g_outcome result of None \<Rightarrow> [] | Some outcome \<Rightarrow> [(''outcome'', JString (outcome_value outcome))]) @
     [(''objects_affected'', JArray (map JString objectsAffected)),
      (''workspace_id'', JString (g_workspace_id result)), (''occurred_at'', JString occurredAt)]"

text \<open>The digest input: every id's bytes behind their number as eight big-endian bytes.\<close>

primrec big_endian :: "nat \<Rightarrow> nat \<Rightarrow> 8 word list" where
  "big_endian 0 n = []"
| "big_endian (Suc k) n = big_endian k (n div 256) @ [word_of_nat n]"

definition frame_ids :: "(string \<Rightarrow> 8 word list) \<Rightarrow> string list \<Rightarrow> 8 word list" where
  "frame_ids utf8 ids = concat (map (\<lambda>i. big_endian 8 (length (utf8 i)) @ utf8 i) ids)"

definition hashOrderedObjectIds ::
  "(string \<Rightarrow> 8 word list) \<Rightarrow> (8 word list \<Rightarrow> string) \<Rightarrow> string list \<Rightarrow> string" where
  "hashOrderedObjectIds utf8 sha256 objectIds = sha256 (frame_ids utf8 objectIds)"

definition createTruncatedPayload :: "garden_task_result \<Rightarrow> string \<Rightarrow> nat \<Rightarrow> string \<Rightarrow> json_object" where
  "createTruncatedPayload result occurredAt prefixLength digest =
     createBasePayload result occurredAt (take prefixLength (g_objects_affected result)) @
     [(''objects_affected_total_count'', JInt (int (length (g_objects_affected result)))),
      (''objects_affected_sha256'', JString digest)]"

section \<open>The search\<close>

function prefix_search :: "(nat \<Rightarrow> json_object) \<Rightarrow> int \<Rightarrow> int \<Rightarrow> json_object option \<Rightarrow> json_object option" where
  "prefix_search candidate lower upper best =
     (if lower \<le> upper then
        let middle = (lower + upper) div 2
        in if bounded_json (candidate (nat middle))
           then prefix_search candidate (middle + 1) upper (Some (candidate (nat middle)))
           else prefix_search candidate lower (middle - 1) best
      else best)"
  by pat_completeness auto

termination
  by (relation "measure (\<lambda>(_, lower, upper, _). nat (upper - lower + 1))") auto

declare prefix_search.simps [simp del]

definition findMaximumBoundedPrefix :: "garden_task_result \<Rightarrow> string \<Rightarrow> string \<Rightarrow> string + json_object" where
  "findMaximumBoundedPrefix result occurredAt digest =
     (case prefix_search (\<lambda>k. createTruncatedPayload result occurredAt k digest)
             0 (int (length (g_objects_affected result)) - 1) None of
        None \<Rightarrow> Inl ''Garden completion metadata exceeds the bounded EventLog payload limit.''
      | Some best \<Rightarrow> Inr best)"

definition parseGardenEventPayload :: "(string \<Rightarrow> json_object \<Rightarrow> bool) \<Rightarrow> string \<Rightarrow> json_object \<Rightarrow> string + json_object" where
  "parseGardenEventPayload valid type payload = (if valid type payload then Inr payload else Inl ''ZodError'')"

definition parseBoundedCompletionPayload :: "(string \<Rightarrow> json_object \<Rightarrow> bool) \<Rightarrow> json_object \<Rightarrow> string + json_object" where
  "parseBoundedCompletionPayload valid payload =
     (case parseGardenEventPayload valid SOUL_GARDEN_TASK_COMPLETED payload of
        Inl e \<Rightarrow> Inl e
      | Inr parsed \<Rightarrow> if bounded_json parsed then Inr parsed else Inl ''ZodError'')"

definition buildGardenCompletionEventPayload ::
  "(string \<Rightarrow> json_object \<Rightarrow> bool) \<Rightarrow> (string \<Rightarrow> 8 word list) \<Rightarrow> (8 word list \<Rightarrow> string)
    \<Rightarrow> garden_task_result \<Rightarrow> string \<Rightarrow> string + json_object" where
  "buildGardenCompletionEventPayload valid utf8 sha256 result occurredAt =
     (case parseGardenEventPayload valid SOUL_GARDEN_TASK_COMPLETED
             (createBasePayload result occurredAt (g_objects_affected result)) of
        Inl e \<Rightarrow> Inl e
      | Inr fullPayload \<Rightarrow>
          if bounded_json fullPayload then Inr fullPayload
          else (case findMaximumBoundedPrefix result occurredAt
                       (hashOrderedObjectIds utf8 sha256 (g_objects_affected result)) of
                  Inl e \<Rightarrow> Inl e
                | Inr best \<Rightarrow> parseBoundedCompletionPayload valid best))"

section \<open>The search finds the longest prefix\<close>

definition longest_fit :: "(nat \<Rightarrow> json_object) \<Rightarrow> int \<Rightarrow> json_object option \<Rightarrow> bool" where
  "longest_fit candidate n r =
     (case r of
        None \<Rightarrow> \<forall>k. int k < n \<longrightarrow> \<not> bounded_json (candidate k)
      | Some p \<Rightarrow> \<exists>k. int k < n \<and> p = candidate k \<and> bounded_json (candidate k) \<and>
          (\<forall>j. int j < n \<and> bounded_json (candidate j) \<longrightarrow> j \<le> k))"

definition search_inv :: "(nat \<Rightarrow> json_object) \<Rightarrow> int \<Rightarrow> int \<Rightarrow> int \<Rightarrow> json_object option \<Rightarrow> bool" where
  "search_inv candidate n lower upper best \<longleftrightarrow>
     0 \<le> lower \<and> upper < n \<and> lower \<le> n \<and>
     (\<forall>k. upper < int k \<and> int k < n \<longrightarrow> \<not> bounded_json (candidate k)) \<and>
     (case best of None \<Rightarrow> lower = 0
      | Some p \<Rightarrow> lower > 0 \<and> p = candidate (nat (lower - 1)) \<and> bounded_json (candidate (nat (lower - 1))))"

lemma search_inv_final:
  assumes "search_inv candidate n lower upper best" "\<not> lower \<le> upper"
  shows "longest_fit candidate n best"
proof (cases best)
  case None
  with assms show ?thesis by (auto simp: search_inv_def longest_fit_def)
next
  case (Some p)
  then have p: "p = candidate (nat (lower - 1))" "bounded_json (candidate (nat (lower - 1)))" "0 < lower" "lower \<le> n"
    using assms(1) by (auto simp: search_inv_def)
  have "j \<le> nat (lower - 1)" if "int j < n" "bounded_json (candidate j)" for j
    using that assms p(3) by (force simp: search_inv_def)
  with Some p show ?thesis
    by (auto simp: longest_fit_def intro!: exI [of _ "nat (lower - 1)"])
qed

lemma prefix_search_spec:
  assumes "\<And>j k. j \<le> k \<Longrightarrow> bounded_json (candidate k) \<Longrightarrow> bounded_json (candidate j)"
    and "search_inv candidate n lower upper best"
  shows "longest_fit candidate n (prefix_search candidate lower upper best)"
  using assms
proof (induction candidate lower upper best rule: prefix_search.induct)
  case (1 candidate lower upper best)
  let ?m = "(lower + upper) div 2"
  show ?case
  proof (cases "lower \<le> upper")
    case True
    have m: "lower \<le> ?m" "?m \<le> upper" "0 \<le> ?m" using True "1.prems"(2) by (auto simp: search_inv_def)
    show ?thesis
    proof (cases "bounded_json (candidate (nat ?m))")
      case fits: True
      have "search_inv candidate n (?m + 1) upper (Some (candidate (nat ?m)))"
        using "1.prems"(2) fits m by (auto simp: search_inv_def)
      from "1.IH"(1) [OF True refl fits "1.prems"(1) this] True fits show ?thesis
        by (subst prefix_search.simps) (simp add: Let_def)
    next
      case big: False
      have "\<not> bounded_json (candidate k)" if "?m - 1 < int k" for k
      proof -
        have "nat ?m \<le> k" using that m by linarith
        with "1.prems"(1) big show ?thesis by blast
      qed
      then have "search_inv candidate n lower (?m - 1) best"
        using "1.prems"(2) m by (auto simp: search_inv_def)
      from "1.IH"(2) [OF True refl big "1.prems"(1) this] True big show ?thesis
        by (subst prefix_search.simps) (simp add: Let_def)
    qed
  next
    case False
    with search_inv_final [OF "1.prems"(2)] show ?thesis by (subst prefix_search.simps) simp
  qed
qed

lemma base_payload_mono:
  assumes "j \<le> k"
  shows "length (json_stringify (JObject (createBasePayload result at_time (take j objs) @ ys))) \<le>
    length (json_stringify (JObject (createBasePayload result at_time (take k objs) @ ys)))"
proof -
  let ?pre = "[(''task_id'', JString (g_task_id result)), (''task_kind'', JString (kind_value (g_task_kind result))),
      (''role'', JString (role_value (g_role result))), (''tier'', JString (tier_value (g_tier result))),
      (''success'', JBool (payload_success result))] @
     (case g_outcome result of None \<Rightarrow> [] | Some outcome \<Rightarrow> [(''outcome'', JString (outcome_value outcome))])"
  let ?post = "[(''workspace_id'', JString (g_workspace_id result)), (''occurred_at'', JString at_time)] @ ys"
  have e: "createBasePayload result at_time os @ ys = ?pre @ (''objects_affected'', JArray (map JString os)) # ?post" for os
    by (simp add: createBasePayload_def)
  show ?thesis
    unfolding e by (rule stringify_object_mono) (use stringify_array_mono [OF assms, of "map JString objs"] in \<open>simp add: take_map\<close>)
qed

lemma truncated_mono:
  "j \<le> k \<Longrightarrow> bounded_json (createTruncatedPayload result t k digest) \<Longrightarrow> bounded_json (createTruncatedPayload result t j digest)"
  using base_payload_mono [of j k result t "g_objects_affected result"]
  unfolding bounded_json_def createTruncatedPayload_def by (meson order_trans)

lemma findMaximumBoundedPrefix_spec:
  "longest_fit (\<lambda>k. createTruncatedPayload result t k digest) (int (length (g_objects_affected result)))
     (prefix_search (\<lambda>k. createTruncatedPayload result t k digest) 0 (int (length (g_objects_affected result)) - 1) None)"
  by (rule prefix_search_spec) (auto simp: search_inv_def intro: truncated_mono)

section \<open>The digest framing is injective\<close>

lemma length_big_endian [simp]: "length (big_endian k n) = k"
  by (induction k arbitrary: n) auto

lemma big_endian_8_nonempty [simp]: "big_endian 8 n \<noteq> []"
  using length_big_endian [of 8 n] by fastforce

lemma big_endian_inject: "m < 256 ^ k \<Longrightarrow> n < 256 ^ k \<Longrightarrow> big_endian k m = big_endian k n \<longleftrightarrow> m = n"
proof (induction k arbitrary: m n)
  case (Suc k)
  have d: "m div 256 < 256 ^ k" "n div 256 < 256 ^ k" using Suc.prems by (auto simp: less_mult_imp_div_less mult.commute)
  have "(word_of_nat m :: 8 word) = word_of_nat n \<longleftrightarrow> m mod 256 = n mod 256"
    by (simp add: word_of_nat_eq_iff take_bit_eq_mod)
  with Suc.IH [OF d] show ?case by (auto, metis div_mult_mod_eq)
qed simp

lemma frame_ids_inject:
  assumes "inj utf8" "\<forall>i \<in> set xs \<union> set ys. length (utf8 i) < 2 ^ 64" "frame_ids utf8 xs = frame_ids utf8 ys"
  shows "xs = ys"
  using assms(2,3)
proof (induction xs arbitrary: ys)
  case Nil
  then show ?case
  proof (cases ys)
    case (Cons y zs)
    with Nil show ?thesis by (simp add: frame_ids_def)
  qed simp
next
  case (Cons x xs)
  show ?case
  proof (cases ys)
    case Nil
    with Cons.prems show ?thesis by (simp add: frame_ids_def)
  next
    case ys: (Cons y zs)
    have "big_endian 8 (length (utf8 x)) @ utf8 x @ frame_ids utf8 xs = big_endian 8 (length (utf8 y)) @ utf8 y @ frame_ids utf8 zs"
      using Cons.prems(2) ys by (simp add: frame_ids_def)
    then have h: "big_endian 8 (length (utf8 x)) = big_endian 8 (length (utf8 y))"
      and t: "utf8 x @ frame_ids utf8 xs = utf8 y @ frame_ids utf8 zs"
      by (simp_all add: append_eq_append_conv)
    have "length (utf8 x) < 256 ^ 8" "length (utf8 y) < 256 ^ 8" using Cons.prems(1) ys by auto
    with h have "length (utf8 x) = length (utf8 y)" using big_endian_inject by blast
    with t have "utf8 x = utf8 y" and r: "frame_ids utf8 xs = frame_ids utf8 zs" by auto
    then have "x = y" using assms(1) by (simp add: inj_eq)
    moreover have "xs = zs" using Cons.IH [of zs] Cons.prems(1) ys r by auto
    ultimately show ?thesis using ys by simp
  qed
qed

section \<open>Properties\<close>

text \<open>C35: A completion payload that is built always fits the event log's bound. It either carries all
  affected objects, or a proper prefix of them together with the total count and the digest of the
  whole list, and then no longer prefix would have fitted.\<close>

theorem completion_payload_bounded_and_maximal:
  assumes "buildGardenCompletionEventPayload valid utf8 sha256 result t = Inr payload"
  shows "bounded_json payload \<and>
    (payload = createBasePayload result t (g_objects_affected result) \<or>
     (\<exists>k. k < length (g_objects_affected result) \<and>
        payload = createTruncatedPayload result t k (hashOrderedObjectIds utf8 sha256 (g_objects_affected result)) \<and>
        (\<forall>j. k < j \<and> j < length (g_objects_affected result) \<longrightarrow>
           \<not> bounded_json (createTruncatedPayload result t j (hashOrderedObjectIds utf8 sha256 (g_objects_affected result))))))"
proof -
  let ?d = "hashOrderedObjectIds utf8 sha256 (g_objects_affected result)"
  show ?thesis
  proof (cases "bounded_json (createBasePayload result t (g_objects_affected result))")
    case True
    with assms show ?thesis
      by (auto simp: buildGardenCompletionEventPayload_def parseGardenEventPayload_def split: if_splits)
  next
    case False
    with assms obtain best where "findMaximumBoundedPrefix result t ?d = Inr best" "payload = best" "bounded_json payload"
      by (auto simp: buildGardenCompletionEventPayload_def parseGardenEventPayload_def parseBoundedCompletionPayload_def
          split: if_splits sum.splits)
    with findMaximumBoundedPrefix_spec [of result t ?d] show ?thesis
      by (auto simp: findMaximumBoundedPrefix_def longest_fit_def split: option.splits)
        (metis linorder_not_le of_nat_less_iff)
  qed
qed

definition sample_result :: garden_task_result where
  "sample_result =
     \<lparr>g_task_id = ''t'', g_task_kind = Ttl_cleanup, g_role = Janitor, g_tier = Tier_0, g_workspace_id = ''w'',
      g_success = True, g_outcome = None, g_objects_affected = [''o''], g_audit_entries = [],
      g_error_message = None, g_completed_at = ''now''\<rparr>"

lemma sample_payload:
  "buildGardenCompletionEventPayload (\<lambda>_ _. True) (\<lambda>_. []) (\<lambda>_. []) sample_result ''now'' =
     Inr (createBasePayload sample_result ''now'' [''o''])"
  by code_simp

theorem completion_payload_bounded_and_maximal_witness:
  "bounded_json (createBasePayload sample_result ''now'' [''o''])"
  using completion_payload_bounded_and_maximal [OF sample_payload] by (rule conjunct1)

text \<open>The framing in front of the digest loses nothing: two lists of object ids with the same
  framed bytes are the same list, in the same order (for an injective encoder and ids shorter than
  2 to the 64 bytes), so the digest stands for the whole ordered list.\<close>

theorem digest_framing_injective:
  assumes "inj utf8" "\<forall>i \<in> set xs \<union> set ys. length (utf8 i) < 2 ^ 64"
  shows "frame_ids utf8 xs = frame_ids utf8 ys \<longleftrightarrow> xs = ys"
  using frame_ids_inject [OF assms] by blast

definition char_byte :: "char \<Rightarrow> 8 word" where
  "char_byte c = word_of_nat (of_char c)"

lemma inj_char_bytes: "inj (map char_byte)"
proof (rule inj_mapI, rule injI)
  fix x y assume "char_byte x = char_byte y"
  then have "(of_char x :: nat) mod 256 = of_char y mod 256"
    by (simp add: char_byte_def word_of_nat_eq_iff take_bit_eq_mod)
  then show "x = y" by (simp add: of_char_mod_256)
qed

theorem digest_framing_injective_witness:
  "frame_ids (map char_byte) [''ab'', ''c''] = frame_ids (map char_byte) [''a'', ''bc''] \<longleftrightarrow> [''ab'', ''c''] = [''a'', ''bc'']"
  by (rule digest_framing_injective [OF inj_char_bytes]) simp

end
