(* ===== verification/GardenScheduler.thy ===== *)
theory GardenScheduler
  imports GardenTaskRepo CompletionPayload
begin

text \<open>
  The garden scheduler (\<^verbatim>\<open>packages/soul/src/garden/scheduling/scheduler.ts\<close>, with
  \<^verbatim>\<open>dispatch/invalid-task-quarantine.ts\<close> and \<^verbatim>\<open>dispatch/task-failure-completion-event.ts\<close>) on its
  default in-memory queue: routing and tier checks, quarantine, cooling of repeated tier-1 work,
  claiming, completion, and the backlog warning signals. Every call reads the clock once; its
  reading is the argument \<open>nowIso\<close>. The environment record holds what the constructor is given
  and the host functions: the event log, the health journal, \<^verbatim>\<open>Date.parse\<close>, the zod verdicts.
\<close>

section \<open>Environment and state\<close>

record journal_entry =
  j_workspace_id :: string
  j_run_id :: "string option"
  j_summary :: string
  j_detail_json :: json_object

record backlog_snapshot =
  b_observed_at :: string
  b_queue_depth_total :: nat
  b_queue_depth_by_tier :: "garden_tier \<Rightarrow> nat"
  b_in_flight_total :: nat
  b_warning_active :: bool

record transition_signal =
  t_transition_id :: nat
  t_transition :: backlog_transition
  t_snapshot :: backlog_snapshot

record 'l scheduler_env =
  env_collate :: "string \<Rightarrow> string"
  env_parse :: "garden_task_descriptor \<Rightarrow> string + garden_task_descriptor"
  env_valid :: "string \<Rightarrow> json_object \<Rightarrow> bool"
  env_dateParse :: "string \<Rightarrow> int option"
  env_utf8 :: "string \<Rightarrow> 8 word list"
  env_sha256 :: "8 word list \<Rightarrow> string"
  env_port :: "'l event_port"
  env_health :: "(journal_entry \<Rightarrow> string option) option"
  env_coolingPeriodMs :: int
  env_thresholds :: "backlog_thresholds option"

record 'l scheduler =
  taskRepo :: "'l repo"
  coolingMap :: "string \<rightharpoonup> string"
  warningArmed :: bool
  pendingTransitions :: "transition_signal list"
  nextTransitionId :: nat
  journal :: "journal_entry list"
  warnings :: "(string \<times> json_object) list"

definition MAX_PENDING_BACKLOG_WARNING_TRANSITIONS :: nat where
  "MAX_PENDING_BACKLOG_WARNING_TRANSITIONS = 32"

definition IN_PROCESS_GARDEN_CLAIMANT :: string where
  "IN_PROCESS_GARDEN_CLAIMANT = ''in-process''"

definition IN_PROCESS_GARDEN_TASK_KINDS :: "garden_task_kind set" where
  "IN_PROCESS_GARDEN_TASK_KINDS =
     set (allowed_task_kinds Janitor @ allowed_task_kinds Auditor @ allowed_task_kinds Librarian)"

definition on_repo :: "('l repo, 'a) action \<Rightarrow> ('l scheduler, 'a) action" where
  "on_repo m s = (case m (taskRepo s) of (r, rp) \<Rightarrow> (r, s\<lparr>taskRepo := rp\<rparr>))"

section \<open>Backlog telemetry\<close>

definition queueDepth :: "'l scheduler \<Rightarrow> nat" where
  "queueDepth s = countByStatus (countBacklog (taskRepo s) None) Pending"

definition countQueueDepthByTier :: "(garden_role \<times> task_status \<times> nat) list \<Rightarrow> garden_tier \<Rightarrow> nat" where
  "countQueueDepthByTier backlogCounts =
     foldl (\<lambda>counts (role, status, n).
        if status \<noteq> Pending then counts
        else counts(tierForRole role := counts (tierForRole role) + n)) (\<lambda>_. 0) backlogCounts"

definition buildBacklogSnapshot :: "string \<Rightarrow> 'l scheduler \<Rightarrow> backlog_snapshot" where
  "buildBacklogSnapshot observedAt s =
     (let counts = countBacklog (taskRepo s) None in
      \<lparr>b_observed_at = observedAt, b_queue_depth_total = countByStatus counts Pending,
       b_queue_depth_by_tier = countQueueDepthByTier counts,
       b_in_flight_total = countByStatus counts Claimed, b_warning_active = warningArmed s\<rparr>)"

definition push_transition :: "transition_signal \<Rightarrow> transition_signal list \<Rightarrow> transition_signal list" where
  "push_transition sig ts =
     (if length ts \<ge> MAX_PENDING_BACKLOG_WARNING_TRANSITIONS then tl ts else ts) @ [sig]"

definition updateBacklogTelemetry :: "'l scheduler_env \<Rightarrow> string \<Rightarrow> 'l scheduler \<Rightarrow> 'l scheduler" where
  "updateBacklogTelemetry env observedAt s =
     (case env_thresholds env of
        None \<Rightarrow> s
      | Some thresholds \<Rightarrow>
          let transition = evaluateBacklogPressure (warningArmed s) (queueDepth s) thresholds
          in if transition = No_transition then s
             else let s1 = s\<lparr>warningArmed := (transition = Arm)\<rparr>
                  in s1\<lparr>pendingTransitions :=
                          push_transition
                            \<lparr>t_transition_id = nextTransitionId s1, t_transition = transition,
                             t_snapshot = buildBacklogSnapshot observedAt s1\<rparr> (pendingTransitions s1),
                        nextTransitionId := nextTransitionId s1 + 1\<rparr>)"

definition getBacklogSnapshot :: "string \<Rightarrow> 'l scheduler \<Rightarrow> backlog_snapshot" where
  "getBacklogSnapshot nowIso s = buildBacklogSnapshot nowIso s"

definition peekBacklogWarningTransition :: "'l scheduler \<Rightarrow> transition_signal option" where
  "peekBacklogWarningTransition s = (case pendingTransitions s of [] \<Rightarrow> None | t # _ \<Rightarrow> Some t)"

definition peekLastBacklogWarningTransitionId :: "'l scheduler \<Rightarrow> nat option" where
  "peekLastBacklogWarningTransitionId s =
     (if pendingTransitions s = [] then None else Some (t_transition_id (last (pendingTransitions s))))"

definition acknowledgeBacklogWarningTransition :: "nat \<Rightarrow> 'l scheduler \<Rightarrow> bool \<times> 'l scheduler" where
  "acknowledgeBacklogWarningTransition transitionId s =
     (case pendingTransitions s of
        [] \<Rightarrow> (False, s)
      | t # ts \<Rightarrow> if t_transition_id t \<noteq> transitionId then (False, s) else (True, s\<lparr>pendingTransitions := ts\<rparr>))"

section \<open>Cooling\<close>

definition isCooling :: "'l scheduler_env \<Rightarrow> garden_task_descriptor \<Rightarrow> string \<Rightarrow> 'l scheduler \<Rightarrow> bool" where
  "isCooling env task nowIso s =
     (let targetRef = (case d_target_object_refs task of [] \<Rightarrow> d_workspace_id task | r # _ \<Rightarrow> r)
      in case coolingMap s (buildCoolingKey (d_task_kind task) targetRef) of
           None \<Rightarrow> False
         | Some lastRunAt \<Rightarrow>
             (case (env_dateParse env nowIso, env_dateParse env lastRunAt) of
                (Some nowMs, Some lastRunMs) \<Rightarrow> nowMs - lastRunMs < env_coolingPeriodMs env
              | _ \<Rightarrow> True))"

definition pruneExpiredCoolingEntries :: "'l scheduler_env \<Rightarrow> string \<Rightarrow> 'l scheduler \<Rightarrow> 'l scheduler" where
  "pruneExpiredCoolingEntries env nowIso s =
     (case env_dateParse env nowIso of
        None \<Rightarrow> s
      | Some nowMs \<Rightarrow>
          s\<lparr>coolingMap := (\<lambda>key. case coolingMap s key of
                None \<Rightarrow> None
              | Some lastRunAt \<Rightarrow>
                  (case env_dateParse env lastRunAt of
                     None \<Rightarrow> None
                   | Some lastRunMs \<Rightarrow>
                       if nowMs - lastRunMs \<ge> env_coolingPeriodMs env then None else Some lastRunAt))\<rparr>)"

section \<open>Events\<close>

definition option_json :: "string option \<Rightarrow> json" where
  "option_json v = (case v of None \<Rightarrow> JNull | Some x \<Rightarrow> JString x)"

definition buildTaskFailureCompletionEvent ::
  "(string \<Rightarrow> json_object \<Rightarrow> bool) \<Rightarrow> in_memory_row \<Rightarrow> string \<Rightarrow> string + task_event" where
  "buildTaskFailureCompletionEvent valid task occurredAt =
     (case parseGardenEventPayload valid SOUL_GARDEN_TASK_COMPLETED
             [(''task_id'', JString (r_id task)), (''task_kind'', JString (kind_value (r_kind task))),
              (''role'', JString (role_value (r_role task))),
              (''tier'', JString (tier_value (GARDEN_ROLE_TIER_MAP (r_role task)))),
              (''success'', JBool (gardenTaskOutcomeSuccess Failed)), (''outcome'', JString ''failed''),
              (''objects_affected'', JArray []), (''workspace_id'', JString (r_workspace_id task)),
              (''occurred_at'', JString occurredAt)] of
        Inl e \<Rightarrow> Inl e
      | Inr payload \<Rightarrow> Inr
          \<lparr>e_event_type = SOUL_GARDEN_TASK_COMPLETED, e_entity_type = ''garden_task'', e_entity_id = r_id task,
           e_workspace_id = r_workspace_id task, e_run_id = None, e_caused_by = Some ''garden-scheduler'',
           e_payload_json = payload\<rparr>)"

definition buildDispatchedEvent ::
  "(string \<Rightarrow> json_object \<Rightarrow> bool) \<Rightarrow> garden_task_descriptor \<Rightarrow> garden_role \<Rightarrow> garden_tier \<Rightarrow> string
    \<Rightarrow> string + task_event" where
  "buildDispatchedEvent valid task role roleTier nowIso =
     (case parseGardenEventPayload valid SOUL_GARDEN_TASK_DISPATCHED
             [(''task_id'', JString (d_task_id task)), (''task_kind'', JString (kind_value (d_task_kind task))),
              (''role'', JString (role_value role)), (''tier'', JString (tier_value roleTier)),
              (''workspace_id'', JString (d_workspace_id task)), (''run_id'', option_json (d_run_id task)),
              (''occurred_at'', JString nowIso)] of
        Inl e \<Rightarrow> Inl e
      | Inr payload \<Rightarrow> Inr
          \<lparr>e_event_type = SOUL_GARDEN_TASK_DISPATCHED, e_entity_type = ''garden_task'', e_entity_id = d_task_id task,
           e_workspace_id = d_workspace_id task, e_run_id = d_run_id task,
           e_caused_by = Some IN_PROCESS_GARDEN_CLAIMANT, e_payload_json = payload\<rparr>)"

definition buildTierViolationEvent ::
  "(string \<Rightarrow> json_object \<Rightarrow> bool) \<Rightarrow> garden_task_descriptor \<Rightarrow> garden_tier \<Rightarrow> string \<Rightarrow> string + task_event" where
  "buildTierViolationEvent valid task roleTier occurredAt =
     (case parseGardenEventPayload valid SOUL_GARDEN_TIER_VIOLATION_REJECTED
             [(''task_id'', JString (d_task_id task)), (''task_kind'', JString (kind_value (d_task_kind task))),
              (''required_tier'', JString (tier_value (d_required_tier task))),
              (''role_tier'', JString (tier_value roleTier)),
              (''workspace_id'', JString (d_workspace_id task)), (''occurred_at'', JString occurredAt)] of
        Inl e \<Rightarrow> Inl e
      | Inr payload \<Rightarrow> Inr
          \<lparr>e_event_type = SOUL_GARDEN_TIER_VIOLATION_REJECTED, e_entity_type = ''garden_task'',
           e_entity_id = d_task_id task, e_workspace_id = d_workspace_id task, e_run_id = d_run_id task,
           e_caused_by = Some ''garden-scheduler'', e_payload_json = payload\<rparr>)"

section \<open>Dispatch\<close>

definition quarantineInvalidTask ::
  "'l scheduler_env \<Rightarrow> in_memory_row \<Rightarrow> string \<Rightarrow> string \<Rightarrow> ('l scheduler, unit) action" where
  "quarantineInvalidTask env candidate reason nowIso =
     and_then (lift_result (buildTaskFailureCompletionEvent (env_valid env) candidate nowIso)) (\<lambda>ev.
     and_then (on_repo (failPendingWithCompletionEvent (env_port env) (r_id candidate) ev [])) (\<lambda>quarantined s.
       if \<not> quarantined then (Inr (), s)
       else let s1 = updateBacklogTelemetry env nowIso s
            in (Inr (), s1\<lparr>warnings := warnings s1 @
                  [(''[garden] invalid in-process task quarantined'',
                    [(''taskId'', JString (r_id candidate)), (''kind'', JString (kind_value (r_kind candidate))),
                     (''reason'', JString reason)])]\<rparr>)))"

definition readDispatchTask ::
  "'l scheduler_env \<Rightarrow> in_memory_row \<Rightarrow> string \<Rightarrow> ('l scheduler, garden_task_descriptor option) action" where
  "readDispatchTask env candidate nowIso =
     (case parseTaskDescriptorFromRow (env_parse env) candidate (Some (r_descriptor candidate)) of
        Inr task \<Rightarrow> ret (Some task)
      | Inl reason \<Rightarrow> and_then (quarantineInvalidTask env candidate reason nowIso) (\<lambda>_. ret None))"

definition readDispatchCandidate ::
  "'l scheduler_env \<Rightarrow> in_memory_row \<Rightarrow> string \<Rightarrow> ('l scheduler, garden_task_descriptor option) action" where
  "readDispatchCandidate env candidate nowIso = readDispatchTask env candidate nowIso"

definition recordTierViolationHealthJournal ::
  "'l scheduler_env \<Rightarrow> garden_task_descriptor \<Rightarrow> garden_tier \<Rightarrow> 'l scheduler \<Rightarrow> 'l scheduler" where
  "recordTierViolationHealthJournal env task roleTier s =
     (case env_health env of
        None \<Rightarrow> s
      | Some record_entry \<Rightarrow>
          let entry = \<lparr>j_workspace_id = d_workspace_id task, j_run_id = d_run_id task,
                       j_summary = ''Tier violation rejected task '' @ d_task_id task,
                       j_detail_json =
                         [(''task_id'', JString (d_task_id task)), (''task_kind'', JString (kind_value (d_task_kind task))),
                          (''required_tier'', JString (tier_value (d_required_tier task))),
                          (''role_tier'', JString (tier_value roleTier))]\<rparr>
          in case record_entry entry of
               None \<Rightarrow> s\<lparr>journal := journal s @ [entry]\<rparr>
             | Some e \<Rightarrow> s\<lparr>warnings := warnings s @
                   [(''[garden] tier violation health journal record failed'',
                     [(''taskId'', JString (d_task_id task)), (''error'', JString e)])]\<rparr>)"

definition rejectTierViolation ::
  "'l scheduler_env \<Rightarrow> in_memory_row \<Rightarrow> garden_task_descriptor \<Rightarrow> garden_role \<Rightarrow> garden_tier \<Rightarrow> string
    \<Rightarrow> ('l scheduler, bool) action" where
  "rejectTierViolation env candidate task role roleTier nowIso =
     and_then (lift_result (buildTaskFailureCompletionEvent (env_valid env) candidate nowIso)) (\<lambda>ev.
     and_then (lift_result (buildTierViolationEvent (env_valid env) task roleTier nowIso)) (\<lambda>violation.
     and_then (on_repo (failPendingWithCompletionEvent (env_port env) (r_id candidate) ev [violation])) (\<lambda>rejected s.
       if \<not> rejected then (Inr False, s)
       else (Inr True, recordTierViolationHealthJournal env task roleTier (updateBacklogTelemetry env nowIso s)))))"

definition claimForDispatch ::
  "'l scheduler_env \<Rightarrow> garden_task_descriptor \<Rightarrow> garden_role \<Rightarrow> garden_tier \<Rightarrow> string \<Rightarrow> ('l scheduler, bool) action" where
  "claimForDispatch env task role roleTier nowIso =
     and_then (lift_result (buildDispatchedEvent (env_valid env) task role roleTier nowIso)) (\<lambda>ev.
     and_then (on_repo (claimAtomicWithEvents (env_port env) (d_task_id task) IN_PROCESS_GARDEN_CLAIMANT nowIso [ev]))
       (\<lambda>claimResult s.
         if claimResult \<noteq> Claim_ok then (Inr False, s)
         else (Inr True, updateBacklogTelemetry env nowIso s)))"

primrec dispatch_loop ::
  "'l scheduler_env \<Rightarrow> garden_role \<Rightarrow> (garden_task_kind \<Rightarrow> bool) \<Rightarrow> bool \<Rightarrow> string
    \<Rightarrow> in_memory_row list \<Rightarrow> ('l scheduler, garden_task_descriptor option) action" where
  "dispatch_loop env role matchesTaskKind rejectTierViolations nowIso [] = ret None"
| "dispatch_loop env role matchesTaskKind rejectTierViolations nowIso (candidate # rest) =
     (let continue = dispatch_loop env role matchesTaskKind rejectTierViolations nowIso rest;
          roleTier = GARDEN_ROLE_TIER_MAP role
      in if r_kind candidate \<notin> IN_PROCESS_GARDEN_TASK_KINDS then continue
         else if \<not> matchesTaskKind (r_kind candidate) then continue
         else and_then (readDispatchCandidate env candidate nowIso) (\<lambda>read.
           case read of
             None \<Rightarrow> continue
           | Some task \<Rightarrow>
               let routingError = gardenTaskRoutingError candidate task role
               in if routingError \<noteq> None \<and> \<not> rejectTierViolations
                  then and_then (quarantineInvalidTask env candidate (the routingError) nowIso) (\<lambda>_. continue)
                  else if TIER_ORDER (d_required_tier task) > TIER_ORDER roleTier
                  then (if \<not> rejectTierViolations then continue
                        else and_then (rejectTierViolation env candidate task role roleTier nowIso)
                               (\<lambda>rejected. if rejected then ret None else continue))
                  else if routingError \<noteq> None
                  then and_then (quarantineInvalidTask env candidate (the routingError) nowIso) (\<lambda>_. continue)
                  else (\<lambda>s. if d_required_tier task = Tier_1 \<and> isCooling env task nowIso s then continue s
                            else and_then (claimForDispatch env task role roleTier nowIso)
                                   (\<lambda>claimed. if claimed then ret (Some task) else continue) s)))"

definition dispatchNextInternal ::
  "'l scheduler_env \<Rightarrow> garden_role \<Rightarrow> (garden_task_kind \<Rightarrow> bool) \<Rightarrow> bool \<Rightarrow> string option \<Rightarrow> string
    \<Rightarrow> ('l scheduler, garden_task_descriptor option) action" where
  "dispatchNextInternal env role matchesTaskKind rejectTierViolations workspaceId nowIso s =
     (let s1 = pruneExpiredCoolingEntries env nowIso s;
          candidates = peekPending role workspaceId (max 1 (queueDepth s1)) (taskRepo s1)
      in dispatch_loop env role matchesTaskKind rejectTierViolations nowIso candidates s1)"

definition dispatchNext ::
  "'l scheduler_env \<Rightarrow> garden_role \<Rightarrow> string \<Rightarrow> ('l scheduler, garden_task_descriptor option) action" where
  "dispatchNext env role nowIso = dispatchNextInternal env role (\<lambda>_. True) True None nowIso"

definition dispatchNextMatchingTaskKind ::
  "'l scheduler_env \<Rightarrow> garden_role \<Rightarrow> garden_task_kind list \<Rightarrow> string option \<Rightarrow> string
    \<Rightarrow> ('l scheduler, garden_task_descriptor option) action" where
  "dispatchNextMatchingTaskKind env role taskKinds workspaceId nowIso =
     dispatchNextInternal env role (\<lambda>kind. kind \<in> set taskKinds) False workspaceId nowIso"

section \<open>Enqueue, completion and release\<close>

definition sched_enqueue ::
  "'l scheduler_env \<Rightarrow> garden_task_descriptor \<Rightarrow> string \<Rightarrow> ('l scheduler, unit) action" where
  "sched_enqueue env desc nowIso =
     (if \<not> taskKindAllowedAtTier (d_task_kind desc) (d_required_tier desc)
      then throw (''Garden task kind '' @ kind_value (d_task_kind desc) @ '' is not allowed at '' @ tier_value (d_required_tier desc) @ ''.'')
      else and_then
        (on_repo (enqueue (env_collate env) (env_parse env) nowIso
           \<lparr>i_id = Some (d_task_id desc), i_workspace_id = d_workspace_id desc,
            i_role = roleForTier (d_required_tier desc), i_kind = d_task_kind desc, i_payload = desc,
            i_created_at = Some (d_created_at desc)\<rparr>))
        (\<lambda>_ s. (Inr (), updateBacklogTelemetry env nowIso s)))"

definition reportCompletion :: "'l scheduler_env \<Rightarrow> garden_task_result \<Rightarrow> string \<Rightarrow> ('l scheduler, unit) action" where
  "reportCompletion env result nowIso =
     (if (case g_outcome result of None \<Rightarrow> False | Some outcome \<Rightarrow> g_success result \<noteq> gardenTaskOutcomeSuccess outcome)
      then throw ''Garden task outcome conflicts with its compatibility success field.''
      else
        let success = (case g_outcome result of None \<Rightarrow> g_success result | Some outcome \<Rightarrow> gardenTaskOutcomeSuccess outcome)
        in and_then (lift_result (buildGardenCompletionEventPayload (env_valid env) (env_utf8 env) (env_sha256 env) result nowIso)) (\<lambda>payload.
           and_then (on_repo (completeWithEvents (env_port env) (g_task_id result)
             [\<lparr>e_event_type = SOUL_GARDEN_TASK_COMPLETED, e_entity_type = ''garden_task'', e_entity_id = g_task_id result,
               e_workspace_id = g_workspace_id result, e_run_id = None, e_caused_by = Some ''garden-scheduler'',
               e_payload_json = payload\<rparr>] IN_PROCESS_GARDEN_CLAIMANT)) (\<lambda>_ s.
             if success \<and> g_tier result = Tier_1
             then let s1 = pruneExpiredCoolingEntries env nowIso s
                  in (Inr (), s1\<lparr>coolingMap := foldl (\<lambda>m ref. m(buildCoolingKey (g_task_kind result) ref \<mapsto> nowIso))
                                   (coolingMap s1) (g_objects_affected result)\<rparr>)
             else (Inr (), s))))"

definition releaseInProcessClaim :: "'l scheduler_env \<Rightarrow> string \<Rightarrow> ('l scheduler, bool) action" where
  "releaseInProcessClaim env taskId = on_repo (releaseClaim (env_collate env) taskId IN_PROCESS_GARDEN_CLAIMANT)"

section \<open>The scheduler invariant\<close>

definition signals_ok :: "bool \<Rightarrow> transition_signal list \<Rightarrow> nat \<Rightarrow> bool" where
  "signals_ok armed ts n \<longleftrightarrow>
     length ts \<le> MAX_PENDING_BACKLOG_WARNING_TRANSITIONS \<and> length ts < n \<and>
     map t_transition_id ts = [n - length ts..<n] \<and>
     successively (\<noteq>) (map t_transition ts) \<and>
     (\<forall>t \<in> set ts. t_transition t \<noteq> No_transition \<and> b_warning_active (t_snapshot t) = (t_transition t = Arm)) \<and>
     (ts \<noteq> [] \<longrightarrow> (t_transition (last ts) = Arm) = armed)"

definition sched_inv :: "'l scheduler_env \<Rightarrow> 'l scheduler \<Rightarrow> bool" where
  "sched_inv env s \<longleftrightarrow> repo_inv (env_collate env) (taskRepo s) \<and>
     signals_ok (warningArmed s) (pendingTransitions s) (nextTransitionId s)"

lemma successively_tl: "successively P xs \<Longrightarrow> successively P (tl xs)"
  by (cases xs; cases "tl xs") auto

lemma signals_ok_tl: "signals_ok armed ts n \<Longrightarrow> signals_ok armed (tl ts) n"
proof (cases ts)
  case (Cons t us)
  assume "signals_ok armed ts n"
  moreover from this have "map t_transition_id us = [n - length us..<n]"
    using Cons by (auto simp: signals_ok_def upt_conv_Cons Suc_diff_Suc)
  ultimately show ?thesis using Cons successively_tl [of "(\<noteq>)" "map t_transition ts"] by (auto simp: signals_ok_def)
qed simp

lemma signals_ok_push:
  assumes "signals_ok armed ts n" "t_transition_id sig = n" "t_transition sig \<noteq> No_transition"
    and "b_warning_active (t_snapshot sig) = (t_transition sig = Arm)" "(t_transition sig = Arm) \<noteq> armed"
  shows "signals_ok (t_transition sig = Arm) (push_transition sig ts) (n + 1)"
proof -
  have app: "signals_ok (t_transition sig = Arm) (us @ [sig]) (n + 1)"
    if us: "signals_ok armed us n" "length us < MAX_PENDING_BACKLOG_WARNING_TRANSITIONS" for us
  proof -
    have "successively (\<noteq>) (map t_transition (us @ [sig]))"
      using us(1) assms(3,5) unfolding signals_ok_def
      by (cases "us = []") (auto simp: successively_append_iff last_map)
    moreover have "map t_transition_id (us @ [sig]) = [n + 1 - length (us @ [sig])..<n + 1]"
      using us(1) assms(2) by (auto simp: signals_ok_def)
    ultimately show ?thesis using us assms(3,4) by (auto simp: signals_ok_def)
  qed
  show ?thesis
  proof (cases "length ts \<ge> MAX_PENDING_BACKLOG_WARNING_TRANSITIONS")
    case True
    then have "length (tl ts) < MAX_PENDING_BACKLOG_WARNING_TRANSITIONS"
      using assms(1) by (auto simp: signals_ok_def MAX_PENDING_BACKLOG_WARNING_TRANSITIONS_def)
    with app [OF signals_ok_tl [OF assms(1)]] True show ?thesis by (simp add: push_transition_def)
  qed (use app [OF assms(1)] in \<open>simp add: push_transition_def\<close>)
qed

lemma updateBacklogTelemetry_repo [simp]:
  "taskRepo (updateBacklogTelemetry env t s) = taskRepo s"
  "coolingMap (updateBacklogTelemetry env t s) = coolingMap s"
  by (auto simp: updateBacklogTelemetry_def Let_def split: option.split)

lemma sched_inv_telemetry: "sched_inv env s \<Longrightarrow> sched_inv env (updateBacklogTelemetry env t s)"
proof (cases "env_thresholds env")
  case (Some th)
  assume inv: "sched_inv env s"
  define tr where "tr = evaluateBacklogPressure (warningArmed s) (queueDepth s) th"
  let ?sig = "\<lparr>t_transition_id = nextTransitionId s, t_transition = tr,
    t_snapshot = buildBacklogSnapshot t (s\<lparr>warningArmed := (tr = Arm)\<rparr>)\<rparr>"
  show ?thesis
  proof (cases "tr = No_transition")
    case False
    then have "(tr = Arm) \<noteq> warningArmed s"
      by (auto simp: tr_def evaluateBacklogPressure_def split: if_splits)
    with inv False have "signals_ok (t_transition ?sig = Arm) (push_transition ?sig (pendingTransitions s)) (nextTransitionId s + 1)"
      by (intro signals_ok_push) (auto simp: sched_inv_def buildBacklogSnapshot_def Let_def)
    with inv Some False show ?thesis
      by (simp add: updateBacklogTelemetry_def tr_def [symmetric] Let_def sched_inv_def)
  qed (use inv Some in \<open>simp add: updateBacklogTelemetry_def tr_def [symmetric] Let_def\<close>)
qed (simp add: updateBacklogTelemetry_def)

lemma sched_inv_other [simp]:
  "sched_inv env (s\<lparr>coolingMap := m\<rparr>) = sched_inv env s"
  "sched_inv env (s\<lparr>journal := j\<rparr>) = sched_inv env s"
  "sched_inv env (s\<lparr>warnings := w\<rparr>) = sched_inv env s"
  by (simp_all add: sched_inv_def)

lemma keeps_on_repo [keeps_intros]: "keeps (repo_inv (env_collate env)) m \<Longrightarrow> keeps (sched_inv env) (on_repo m)"
  by (auto simp: keeps_def on_repo_def sched_inv_def split: prod.split)

lemma keeps_if [keeps_intros]: "keeps I m \<Longrightarrow> keeps I n \<Longrightarrow> keeps I (if b then m else n)"
  by simp

lemma keeps_case_option [keeps_intros]:
  "keeps I m \<Longrightarrow> (\<And>x. keeps I (f x)) \<Longrightarrow> keeps I (case opt of None \<Rightarrow> m | Some x \<Rightarrow> f x)"
  by (cases opt) auto

lemma sched_inv_prune: "sched_inv env s \<Longrightarrow> sched_inv env (pruneExpiredCoolingEntries env t s)"
  by (auto simp: pruneExpiredCoolingEntries_def split: option.split)

lemma keeps_quarantine [keeps_intros]: "keeps (sched_inv env) (quarantineInvalidTask env c reason t)"
  unfolding quarantineInvalidTask_def
  by (intro keeps_and_then keeps_lift_result keeps_on_repo keeps_failPending)
    (auto simp: keeps_def Let_def sched_inv_telemetry)

lemma keeps_readDispatchCandidate [keeps_intros]: "keeps (sched_inv env) (readDispatchCandidate env c t)"
  unfolding readDispatchCandidate_def readDispatchTask_def
  by (auto split: sum.split simp del: ret_apply intro!: keeps_intros)

lemma keeps_rejectTierViolation [keeps_intros]: "keeps (sched_inv env) (rejectTierViolation env c task role tier t)"
proof -
  have "sched_inv env (recordTierViolationHealthJournal env task tier s) = sched_inv env s" for s
    by (auto simp: recordTierViolationHealthJournal_def Let_def split: option.split)
  then show ?thesis
    unfolding rejectTierViolation_def
    by (intro keeps_and_then keeps_lift_result keeps_on_repo keeps_failPending)
      (auto simp: keeps_def sched_inv_telemetry)
qed

lemma keeps_claimForDispatch [keeps_intros]: "keeps (sched_inv env) (claimForDispatch env task role tier t)"
  unfolding claimForDispatch_def
  by (intro keeps_and_then keeps_lift_result keeps_on_repo keeps_claimAtomicWithEvents)
    (auto simp: keeps_def sched_inv_telemetry)

lemma keeps_state_if: "keeps I m \<Longrightarrow> keeps I n \<Longrightarrow> keeps I (\<lambda>s. if b s then m s else n s)"
  by (simp add: keeps_def)

lemma keeps_dispatch_loop [keeps_intros]: "keeps (sched_inv env) (dispatch_loop env role m rej t cs)"
proof (induction cs)
  case (Cons c cs)
  then show ?case
    by (simp only: dispatch_loop.simps Let_def) (intro keeps_intros keeps_state_if Cons)
qed (simp only: dispatch_loop.simps keeps_ret)

lemma keeps_dispatchNextInternal [keeps_intros]:
  "keeps (sched_inv env) (dispatchNextInternal env role m rej ws t)"
  using keeps_dispatch_loop sched_inv_prune unfolding keeps_def dispatchNextInternal_def Let_def by blast

lemma keeps_sched_enqueue [keeps_intros]: "keeps (sched_inv env) (sched_enqueue env d t)"
  unfolding sched_enqueue_def
  by (intro keeps_if keeps_throw keeps_and_then keeps_on_repo keeps_enqueue) (auto simp: keeps_def sched_inv_telemetry)

lemma keeps_reportCompletion [keeps_intros]: "keeps (sched_inv env) (reportCompletion env result t)"
  unfolding reportCompletion_def Let_def
  by (intro keeps_if keeps_throw keeps_and_then keeps_on_repo keeps_lift_result keeps_completeWithEvents)
    (auto simp: keeps_def sched_inv_prune)

lemma keeps_releaseInProcessClaim [keeps_intros]: "keeps (sched_inv env) (releaseInProcessClaim env t)"
  unfolding releaseInProcessClaim_def releaseClaim_def by (intro keeps_intros)

lemma sched_inv_acknowledge: "sched_inv env s \<Longrightarrow> sched_inv env (snd (acknowledgeBacklogWarningTransition i s))"
  using signals_ok_tl [of "warningArmed s" "pendingTransitions s" "nextTransitionId s"]
  by (auto simp: acknowledgeBacklogWarningTransition_def sched_inv_def split: list.split)

section \<open>Dispatch on well-routed queues\<close>

text \<open>
  A row is well routed when its envelope matches its descriptor, its role is the one of the
  required tier and the kind is allowed there. Rows that came in through \<open>sched_enqueue\<close> are.
\<close>

definition well_routed :: "in_memory_row \<Rightarrow> bool" where
  "well_routed row \<longleftrightarrow>
     r_id row = d_task_id (r_descriptor row) \<and> r_workspace_id row = d_workspace_id (r_descriptor row) \<and>
     r_kind row = d_task_kind (r_descriptor row) \<and> r_role row = roleForTier (d_required_tier (r_descriptor row)) \<and>
     taskKindAllowedAtTier (d_task_kind (r_descriptor row)) (d_required_tier (r_descriptor row))"

definition ready :: "'l scheduler_env \<Rightarrow> (garden_task_kind \<Rightarrow> bool) \<Rightarrow> string \<Rightarrow> 'l scheduler \<Rightarrow> in_memory_row \<Rightarrow> bool" where
  "ready env m t s row \<longleftrightarrow> m (r_kind row) \<and>
     \<not> (d_required_tier (r_descriptor row) = Tier_1 \<and> isCooling env (r_descriptor row) t s)"

lemma allowed_in_process: "k \<in> set (allowed_task_kinds r) \<Longrightarrow> k \<in> IN_PROCESS_GARDEN_TASK_KINDS"
  by (cases r) (auto simp: IN_PROCESS_GARDEN_TASK_KINDS_def)

lemma read_stored:
  assumes "parseTaskDescriptorFromRow (env_parse env) c (Some (r_descriptor c)) = Inr task"
  shows "readDispatchCandidate env c t = ret (Some task)"
  using assms by (simp add: readDispatchCandidate_def readDispatchTask_def)

lemma dispatch_loop_well_routed:
  assumes "well_routed c" "canRolePeekPending role (r_role c)"
  shows "dispatch_loop env role m rej t (c # cs) s =
    (if ready env m t s c
     then and_then (claimForDispatch env (r_descriptor c) role (GARDEN_ROLE_TIER_MAP role) t)
            (\<lambda>claimed. if claimed then ret (Some (r_descriptor c)) else dispatch_loop env role m rej t cs) s
     else dispatch_loop env role m rej t cs s)"
proof -
  let ?d = "r_descriptor c"
  have k: "d_task_kind ?d \<in> set (allowed_task_kinds (r_role c))"
    using assms(1) by (simp add: well_routed_def taskKindAllowedAtTier_def)
  then have in_proc: "r_kind c \<in> IN_PROCESS_GARDEN_TASK_KINDS"
    using allowed_in_process assms(1) by (simp add: well_routed_def)
  have tier: "\<not> TIER_ORDER (d_required_tier ?d) > TIER_ORDER (GARDEN_ROLE_TIER_MAP role)"
    using assms by (simp add: well_routed_def canRolePeekPending_def tierForRole_def)
  have route: "gardenTaskRoutingError c ?d role = None"
    using assms(1) permissions_monotone [OF assms(2)] k by (auto simp: routing_error_None well_routed_def)
  have read: "readDispatchCandidate env c t = ret (Some ?d)"
    by (rule read_stored) (use assms(1) in \<open>simp add: parseTaskDescriptorFromRow_stored well_routed_def\<close>)
  have "dispatch_loop env role m rej t (c # cs) s =
    (if \<not> m (r_kind c) then dispatch_loop env role m rej t cs s
     else if d_required_tier ?d = Tier_1 \<and> isCooling env ?d t s then dispatch_loop env role m rej t cs s
     else and_then (claimForDispatch env ?d role (GARDEN_ROLE_TIER_MAP role) t)
            (\<lambda>claimed. if claimed then ret (Some ?d) else dispatch_loop env role m rej t cs) s)"
    unfolding dispatch_loop.simps Let_def read ret_then using in_proc tier route by simp
  then show ?thesis by (auto simp: ready_def)
qed

lemma claimForDispatch_pending:
  assumes "sched_inv env s" "find_row (d_task_id task) (rows (taskRepo s)) = Some row" "r_status row = Pending"
  shows "(\<exists>s'. claimForDispatch env task role tier t s = (Inr True, s') \<and>
      rows (taskRepo s') = update_row (claimed_row IN_PROCESS_GARDEN_CLAIMANT t row) (rows (taskRepo s)) \<and>
      coolingMap s' = coolingMap s) \<or>
    (\<exists>e s'. claimForDispatch env task role tier t s = (Inl e, s') \<and> rows (taskRepo s') = rows (taskRepo s))"
proof (cases "buildDispatchedEvent (env_valid env) task role tier t")
  case (Inl e)
  then show ?thesis by (simp add: claimForDispatch_def and_then_def)
next
  case (Inr ev)
  have inv: "repo_inv (env_collate env) (taskRepo s)" using assms(1) by (simp add: sched_inv_def)
  obtain r rp where ap: "appendTaskEvents (env_port env) [ev] (taskRepo s) = (r, rp)" by fastforce
  then obtain l where rp: "rp = (taskRepo s)\<lparr>eventLog := l\<rparr>" using appendTaskEvents_frame by blast
  have c: "claimPending (d_task_id task) IN_PROCESS_GARDEN_CLAIMANT t rp =
      (Inr Claim_ok, rp\<lparr>rows := update_row (claimed_row IN_PROCESS_GARDEN_CLAIMANT t row) (rows rp)\<rparr>)"
    by (rule claimPending_eq [of "env_collate env"]) (use inv rp assms(2,3) in auto)
  have a: "claimAtomicWithEvents (env_port env) (d_task_id task) IN_PROCESS_GARDEN_CLAIMANT t [ev] (taskRepo s) =
      (case r of Inl e \<Rightarrow> (Inl e, rp)
       | Inr _ \<Rightarrow> (Inr Claim_ok, rp\<lparr>rows := update_row (claimed_row IN_PROCESS_GARDEN_CLAIMANT t row) (rows rp)\<rparr>))"
    using assms(2,3) ap c by (simp add: claimAtomicWithEvents_def and_then_def split: sum.split)
  show ?thesis using Inr rp by (cases r) (simp_all add: claimForDispatch_def and_then_def on_repo_def a)
qed

lemma dispatch_loop_finds_first:
  assumes "sched_inv env s" "\<forall>c \<in> set cs. well_routed c \<and> canRolePeekPending role (r_role c) \<and>
      r_status c = Pending \<and> c \<in> set (rows (taskRepo s))"
  shows "dispatch_loop env role m rej t cs s =
    (case List.find (ready env m t s) cs of
       None \<Rightarrow> (Inr None, s)
     | Some row \<Rightarrow> and_then (claimForDispatch env (r_descriptor row) role (GARDEN_ROLE_TIER_MAP role) t)
                    (\<lambda>_. ret (Some (r_descriptor row))) s)"
  using assms(2)
proof (induction cs)
  case (Cons c cs)
  then have c: "well_routed c" "canRolePeekPending role (r_role c)" "r_status c = Pending" "c \<in> set (rows (taskRepo s))" by auto
  have d: "distinct (map r_id (rows (taskRepo s)))"
    using assms(1) by (simp add: sched_inv_def repo_inv_def)
  have f: "find_row (d_task_id (r_descriptor c)) (rows (taskRepo s)) = Some c"
    using find_row_distinct [OF d c(4)] c(1) by (simp add: well_routed_def)
  show ?case
    unfolding dispatch_loop_well_routed [OF c(1,2)]
    using claimForDispatch_pending [OF assms(1) f c(3), of role "GARDEN_ROLE_TIER_MAP role" t] Cons
    by (auto simp: and_then_def)
qed simp

lemma prune_repo [simp]: "taskRepo (pruneExpiredCoolingEntries env t s) = taskRepo s"
  by (auto simp: pruneExpiredCoolingEntries_def split: option.split)

lemma queueDepth_pending: "queueDepth s = length (filter (\<lambda>row. r_status row = Pending) (rows (taskRepo s)))"
  by (simp add: queueDepth_def countByStatus_countBacklog)

lemma peek_all: "peekPending role ws (max 1 (queueDepth s)) (taskRepo s) = filter (eligible role ws) (rows (taskRepo s))"
proof -
  have "length (filter (eligible role ws) xs) \<le> length (filter (\<lambda>row. r_status row = Pending) xs)" for xs
    by (induction xs) (auto simp: eligible_def)
  from this [of "rows (taskRepo s)"] show ?thesis by (simp add: peekPending_eq queueDepth_pending)
qed

lemma find_filter: "List.find P (filter Q xs) = List.find (\<lambda>x. Q x \<and> P x) xs"
  by (induction xs) auto

lemma dispatchNextInternal_eq:
  assumes "sched_inv env s" "\<forall>row \<in> set (rows (taskRepo s)). well_routed row"
  shows "dispatchNextInternal env role m rej ws t s =
    (let s1 = pruneExpiredCoolingEntries env t s in
     case List.find (\<lambda>row. eligible role ws row \<and> ready env m t s1 row) (rows (taskRepo s)) of
       None \<Rightarrow> (Inr None, s1)
     | Some row \<Rightarrow> and_then (claimForDispatch env (r_descriptor row) role (GARDEN_ROLE_TIER_MAP role) t)
                    (\<lambda>_. ret (Some (r_descriptor row))) s1)"
proof -
  let ?s1 = "pruneExpiredCoolingEntries env t s"
  have "dispatch_loop env role m rej t (filter (eligible role ws) (rows (taskRepo ?s1))) ?s1 =
    (case List.find (ready env m t ?s1) (filter (eligible role ws) (rows (taskRepo ?s1))) of
       None \<Rightarrow> (Inr None, ?s1)
     | Some row \<Rightarrow> and_then (claimForDispatch env (r_descriptor row) role (GARDEN_ROLE_TIER_MAP role) t)
                    (\<lambda>_. ret (Some (r_descriptor row))) ?s1)"
    by (rule dispatch_loop_finds_first [OF sched_inv_prune [OF assms(1)]])
      (use assms(2) in \<open>auto simp: eligible_def\<close>)
  then show ?thesis
    unfolding dispatchNextInternal_def Let_def peek_all find_filter by simp
qed

section \<open>Dispatch on arbitrary queues\<close>

lemma keeps_cooling_on_repo: "keeps (\<lambda>s. coolingMap s = M) (on_repo m)"
  by (auto simp: keeps_def on_repo_def split: prod.split)

lemma keeps_cooling_quarantine: "keeps (\<lambda>s. coolingMap s = M) (quarantineInvalidTask env c reason t)"
  unfolding quarantineInvalidTask_def
  by (intro keeps_and_then keeps_lift_result keeps_cooling_on_repo) (auto simp: keeps_def Let_def)

lemma keeps_cooling_read: "keeps (\<lambda>s. coolingMap s = M) (readDispatchCandidate env c t)"
  unfolding readDispatchCandidate_def readDispatchTask_def
  by (auto split: sum.split simp del: ret_apply intro!: keeps_intros keeps_cooling_quarantine)

lemma keeps_cooling_reject: "keeps (\<lambda>s. coolingMap s = M) (rejectTierViolation env c task role tier t)"
proof -
  have "coolingMap (recordTierViolationHealthJournal env task tier s) = coolingMap s" for s
    by (auto simp: recordTierViolationHealthJournal_def Let_def split: option.split)
  then show ?thesis
    unfolding rejectTierViolation_def
    by (intro keeps_and_then keeps_lift_result keeps_cooling_on_repo) (auto simp: keeps_def)
qed

lemma keeps_cooling_claim: "keeps (\<lambda>s. coolingMap s = M) (claimForDispatch env task role tier t)"
  unfolding claimForDispatch_def
  by (intro keeps_and_then keeps_lift_result keeps_cooling_on_repo) (auto simp: keeps_def)

lemmas keeps_cooling = keeps_cooling_quarantine keeps_cooling_read keeps_cooling_reject keeps_cooling_claim

lemma isCooling_cong: "coolingMap s' = coolingMap s \<Longrightarrow> isCooling env task t s' = isCooling env task t s"
  by (simp add: isCooling_def)

lemma claimForDispatch_claims:
  assumes "sched_inv env s" "claimForDispatch env task role tier t s = (Inr True, s')"
  shows "\<exists>row. find_row (d_task_id task) (rows (taskRepo s)) = Some row \<and> r_status row = Pending \<and>
    rows (taskRepo s') = update_row (claimed_row IN_PROCESS_GARDEN_CLAIMANT t row) (rows (taskRepo s))"
proof -
  let ?i = "d_task_id task"
  have "\<exists>row. find_row ?i (rows (taskRepo s)) = Some row \<and> r_status row = Pending"
    using assms(2)
    by (auto simp: claimForDispatch_def and_then_returns on_repo_def claimAtomicWithEvents_def
        split: option.splits if_splits prod.splits)
  then obtain row where row: "find_row ?i (rows (taskRepo s)) = Some row" "r_status row = Pending" by blast
  from claimForDispatch_pending [OF assms(1) row, of role tier t] assms(2) row show ?thesis by auto
qed

definition dispatched_ok ::
  "'l scheduler_env \<Rightarrow> garden_role \<Rightarrow> (garden_task_kind \<Rightarrow> bool) \<Rightarrow> string \<Rightarrow> in_memory_row list
    \<Rightarrow> 'l scheduler \<Rightarrow> garden_task_descriptor \<Rightarrow> 'l scheduler \<Rightarrow> bool" where
  "dispatched_ok env role m t cs s task s' \<longleftrightarrow>
     (\<exists>c \<in> set cs. r_descriptor c = task \<and> r_id c = d_task_id task \<and> m (d_task_kind task)) \<and>
     d_task_kind task \<in> set (allowed_task_kinds role) \<and>
     TIER_ORDER (d_required_tier task) \<le> TIER_ORDER (GARDEN_ROLE_TIER_MAP role) \<and>
     \<not> (d_required_tier task = Tier_1 \<and> isCooling env task t s) \<and>
     (\<exists>row. find_row (d_task_id task) (rows (taskRepo s')) = Some row \<and> r_status row = Claimed \<and>
        r_claimed_by row = Some IN_PROCESS_GARDEN_CLAIMANT \<and> r_claimed_at row = Some t)"

lemma dispatched_ok_mono:
  "dispatched_ok env role m t cs s1 task s' \<Longrightarrow> coolingMap s1 = coolingMap s \<Longrightarrow> dispatched_ok env role m t (c # cs) s task s'"
  using isCooling_cong [of s1 s env task t] by (auto simp: dispatched_ok_def)

lemma dispatched_ok_claim:
  assumes "sched_inv env s" "claimForDispatch env (r_descriptor c) role (GARDEN_ROLE_TIER_MAP role) t s = (Inr True, s')"
    and "parseTaskDescriptorFromRow parse c (Some (r_descriptor c)) = Inr (r_descriptor c)" "m (r_kind c)"
    and "gardenTaskRoutingError c (r_descriptor c) role = None"
    and "TIER_ORDER (d_required_tier (r_descriptor c)) \<le> TIER_ORDER (GARDEN_ROLE_TIER_MAP role)"
    and "\<not> (d_required_tier (r_descriptor c) = Tier_1 \<and> isCooling env (r_descriptor c) t s)"
  shows "dispatched_ok env role m t (c # cs) s (r_descriptor c) s'"
proof -
  obtain row where row: "find_row (d_task_id (r_descriptor c)) (rows (taskRepo s)) = Some row" "r_status row = Pending"
    "rows (taskRepo s') = update_row (claimed_row IN_PROCESS_GARDEN_CLAIMANT t row) (rows (taskRepo s))"
    using claimForDispatch_claims [OF assms(1,2)] by blast
  have "find_row (d_task_id (r_descriptor c)) (rows (taskRepo s')) = Some (claimed_row IN_PROCESS_GARDEN_CLAIMANT t row)"
    using find_update_row [of "rows (taskRepo s)" row "claimed_row IN_PROCESS_GARDEN_CLAIMANT t row"] assms(1) row find_row_Some [OF row(1)]
    by (simp add: sched_inv_def repo_inv_def)
  with assms(3-) show ?thesis
    by (auto simp: dispatched_ok_def parseTaskDescriptorFromRow_stored routing_error_None)
qed

text \<open>One round of the loop either goes on in a state with the same cooling entries, or claims.\<close>

definition goes_on ::
  "'l scheduler_env \<Rightarrow> ('l scheduler, garden_task_descriptor option) action \<Rightarrow> 'l scheduler
    \<Rightarrow> garden_task_descriptor \<Rightarrow> 'l scheduler \<Rightarrow> bool" where
  "goes_on env cont s task s' \<longleftrightarrow>
     (\<exists>s1. sched_inv env s1 \<and> coolingMap s1 = coolingMap s \<and> cont s1 = (Inr (Some task), s'))"

lemma goes_on_after:
  assumes "and_then act (\<lambda>x. if p x then ret None else cont) s = (Inr (Some task), s')" "sched_inv env s"
    and "keeps (sched_inv env) act" "\<And>M. keeps (\<lambda>s. coolingMap s = M) act"
  shows "goes_on env cont s task s'"
proof -
  obtain x s1 where x: "act s = (Inr x, s1)" "cont s1 = (Inr (Some task), s')"
    using assms(1) by (auto simp: and_then_returns split: if_splits)
  have "sched_inv env s1" "coolingMap s1 = coolingMap s"
    using keepsD' [OF assms(3,2) x(1)] keepsD' [OF assms(4) refl x(1)] by auto
  with x(2) show ?thesis by (auto simp: goes_on_def)
qed

lemmas goes_on_after_any = goes_on_after [where p = "\<lambda>_. False", simplified]

lemma goes_on_skip: "sched_inv env s \<Longrightarrow> cont s = (Inr (Some task), s') \<Longrightarrow> goes_on env cont s task s'"
  by (auto simp: goes_on_def)

lemma claim_round:
  assumes "and_then (claimForDispatch env d role tier t) (\<lambda>claimed. if claimed then ret (Some d) else cont) s = (Inr (Some task), s')"
    and "sched_inv env s"
  shows "goes_on env cont s task s' \<or> task = d \<and> claimForDispatch env d role tier t s = (Inr True, s')"
proof -
  obtain b s1 where b: "claimForDispatch env d role tier t s = (Inr b, s1)"
    "(if b then ret (Some d) else cont) s1 = (Inr (Some task), s')" using assms(1) by (auto simp: and_then_returns)
  have "sched_inv env s1" "coolingMap s1 = coolingMap s"
    using keepsD' [OF keeps_claimForDispatch assms(2) b(1)] keepsD' [OF keeps_cooling_claim refl b(1)] by auto
  with b show ?thesis by (cases b) (auto simp: goes_on_def)
qed

lemma dispatch_round:
  assumes "sched_inv env s" "dispatch_loop env role m rej t (c # cs) s = (Inr (Some task), s')"
  shows "goes_on env (dispatch_loop env role m rej t cs) s task s' \<or>
    m (r_kind c) \<and> parseTaskDescriptorFromRow (env_parse env) c (Some (r_descriptor c)) = Inr task \<and>
    gardenTaskRoutingError c task role = None \<and> TIER_ORDER (d_required_tier task) \<le> TIER_ORDER (GARDEN_ROLE_TIER_MAP role) \<and>
    \<not> (d_required_tier task = Tier_1 \<and> isCooling env task t s) \<and>
    claimForDispatch env task role (GARDEN_ROLE_TIER_MAP role) t s = (Inr True, s')"
proof (cases "r_kind c \<in> IN_PROCESS_GARDEN_TASK_KINDS \<and> m (r_kind c)")
  case False
  with assms show ?thesis by (auto simp: Let_def intro: goes_on_skip split: if_splits)
next
  case use: True
  let ?cont = "dispatch_loop env role m rej t cs"
  note quarantined = goes_on_after_any [OF _ assms(1) keeps_quarantine keeps_cooling_quarantine]
  show ?thesis
  proof (cases "parseTaskDescriptorFromRow (env_parse env) c (Some (r_descriptor c))")
    case (Inl reason)
    have "and_then (quarantineInvalidTask env c reason t) (\<lambda>_. ?cont) s = (Inr (Some task), s')"
      using assms(2) use Inl unfolding dispatch_loop.simps Let_def readDispatchCandidate_def readDispatchTask_def
      by (auto simp: and_then_returns)
    then show ?thesis using quarantined by blast
  next
    case (Inr d)
    let ?tier = "GARDEN_ROLE_TIER_MAP role"
    have run: "(if gardenTaskRoutingError c d role \<noteq> None \<and> \<not> rej
         then and_then (quarantineInvalidTask env c (the (gardenTaskRoutingError c d role)) t) (\<lambda>_. ?cont)
         else if TIER_ORDER (d_required_tier d) > TIER_ORDER ?tier
         then (if \<not> rej then ?cont
               else and_then (rejectTierViolation env c d role ?tier t) (\<lambda>rejected. if rejected then ret None else ?cont))
         else if gardenTaskRoutingError c d role \<noteq> None
         then and_then (quarantineInvalidTask env c (the (gardenTaskRoutingError c d role)) t) (\<lambda>_. ?cont)
         else (\<lambda>s. if d_required_tier d = Tier_1 \<and> isCooling env d t s then ?cont s
                   else and_then (claimForDispatch env d role ?tier t)
                          (\<lambda>claimed. if claimed then ret (Some d) else ?cont) s)) s = (Inr (Some task), s')"
      using assms(2) use unfolding dispatch_loop.simps Let_def read_stored [OF Inr] ret_then by simp
    have rejected: "and_then (rejectTierViolation env c d role ?tier t) (\<lambda>rejected. if rejected then ret None else ?cont) s = (Inr (Some task), s')
        \<Longrightarrow> goes_on env ?cont s task s'"
      by (rule goes_on_after [OF _ assms(1) keeps_rejectTierViolation keeps_cooling_reject])
    consider (bad) "gardenTaskRoutingError c d role \<noteq> None \<and> (\<not> rej \<or> \<not> TIER_ORDER (d_required_tier d) > TIER_ORDER ?tier)"
      | (tier) "TIER_ORDER (d_required_tier d) > TIER_ORDER ?tier" "gardenTaskRoutingError c d role = None \<or> rej"
      | (ok) "gardenTaskRoutingError c d role = None" "\<not> TIER_ORDER (d_required_tier d) > TIER_ORDER ?tier"
      by (cases "gardenTaskRoutingError c d role = None"; cases "TIER_ORDER (d_required_tier d) > TIER_ORDER ?tier"; cases rej) auto
    then show ?thesis
    proof cases
      case bad
      with run have "and_then (quarantineInvalidTask env c (the (gardenTaskRoutingError c d role)) t) (\<lambda>_. ?cont) s = (Inr (Some task), s')"
        by (auto split: if_splits)
      then show ?thesis using quarantined by blast
    next
      case tier
      with run rejected goes_on_skip [where cont = ?cont, OF assms(1)] show ?thesis by (auto split: if_splits)
    next
      case ok
      with run have "(if d_required_tier d = Tier_1 \<and> isCooling env d t s then ?cont s
          else and_then (claimForDispatch env d role ?tier t) (\<lambda>claimed. if claimed then ret (Some d) else ?cont) s) = (Inr (Some task), s')"
        by simp
      with ok use Inr goes_on_skip [where cont = ?cont, OF assms(1)] claim_round [OF _ assms(1), of d role ?tier t ?cont task s']
      show ?thesis by (auto split: if_splits)
    qed
  qed
qed

lemma dispatch_loop_safe:
  assumes "sched_inv env s" "dispatch_loop env role m rej t cs s = (Inr (Some task), s')"
  shows "dispatched_ok env role m t cs s task s'"
  using assms
proof (induction cs arbitrary: s)
  case (Cons c cs)
  from dispatch_round [OF Cons.prems] show ?case
  proof (elim disjE)
    assume "goes_on env (dispatch_loop env role m rej t cs) s task s'"
    then obtain s1 where "sched_inv env s1" "coolingMap s1 = coolingMap s"
      "dispatch_loop env role m rej t cs s1 = (Inr (Some task), s')" by (auto simp: goes_on_def)
    with Cons.IH dispatched_ok_mono show ?thesis by blast
  next
    assume r: "m (r_kind c) \<and> parseTaskDescriptorFromRow (env_parse env) c (Some (r_descriptor c)) = Inr task \<and>
      gardenTaskRoutingError c task role = None \<and> TIER_ORDER (d_required_tier task) \<le> TIER_ORDER (GARDEN_ROLE_TIER_MAP role) \<and>
      \<not> (d_required_tier task = Tier_1 \<and> isCooling env task t s) \<and>
      claimForDispatch env task role (GARDEN_ROLE_TIER_MAP role) t s = (Inr True, s')"
    then have "task = r_descriptor c" by (simp add: parseTaskDescriptorFromRow_stored)
    with r dispatched_ok_claim [OF Cons.prems(1), of c role t s'] show ?thesis by auto
  qed
qed simp

section \<open>Properties of the scheduler\<close>

text \<open>A concrete scheduler for the witnesses: the queue with one pending janitor task.\<close>

definition sample_env :: "scheduler_event list scheduler_env" where
  "sample_env =
     \<lparr>env_collate = id, env_parse = Inr, env_valid = (\<lambda>_ _. True), env_dateParse = (\<lambda>s. if s = [] then None else Some (int (length s))),
      env_utf8 = map char_byte, env_sha256 = (\<lambda>_. []), env_port = list_port, env_health = None,
      env_coolingPeriodMs = 5, env_thresholds = Some \<lparr>warning_queue_depth = 3, warning_rearm_depth = 1\<rparr>\<rparr>"

definition sample_scheduler :: "scheduler_event list scheduler" where
  "sample_scheduler =
     \<lparr>taskRepo = sample_repo, coolingMap = Map.empty, warningArmed = False, pendingTransitions = [],
      nextTransitionId = 1, journal = [], warnings = []\<rparr>"

lemma sample_sched_inv: "sched_inv sample_env sample_scheduler"
  using sample_repo_inv by (simp add: sched_inv_def sample_env_def sample_scheduler_def signals_ok_def)

lemma sample_well_routed: "\<forall>row \<in> set (rows (taskRepo sample_scheduler)). well_routed row"
  by (simp add: sample_scheduler_def sample_simps well_routed_def taskKindAllowedAtTier_def janitorTaskKinds_def)

text \<open>A fresh scheduler satisfies the scheduler invariant and every method keeps it: the queue
  invariant of the repository, and of the warning signals that at most 32 wait, that their ids are
  consecutive and end just below the next id, that arm and clear strictly alternate, that every
  snapshot shows the warning state its transition produced, and that the last one agrees with the
  current warning state.\<close>

theorem scheduler_methods_keep_invariant:
  "sched_inv env \<lparr>taskRepo = \<lparr>rows = [], reservedTaskIds = {}, eventLog = l\<rparr>, coolingMap = Map.empty, warningArmed = False,
      pendingTransitions = [], nextTransitionId = 1, journal = [], warnings = []\<rparr> \<and>
   keeps (sched_inv env) (sched_enqueue env desc t) \<and>
   keeps (sched_inv env) (dispatchNext env role t) \<and>
   keeps (sched_inv env) (dispatchNextMatchingTaskKind env role kinds ws t) \<and>
   keeps (sched_inv env) (reportCompletion env result t) \<and>
   keeps (sched_inv env) (releaseInProcessClaim env i) \<and>
   (\<forall>s. sched_inv env s \<longrightarrow> sched_inv env (snd (acknowledgeBacklogWarningTransition n s)))"
  unfolding dispatchNext_def dispatchNextMatchingTaskKind_def
  by (intro conjI keeps_intros) (auto simp: sched_inv_acknowledge, simp add: sched_inv_def signals_ok_def repo_inv_def)

theorem scheduler_methods_keep_invariant_witness:
  "sched_inv sample_env (snd (acknowledgeBacklogWarningTransition 1 sample_scheduler))"
  using scheduler_methods_keep_invariant [of sample_env] sample_sched_inv by blast

text \<open>C31: Whatever is in the queue, a task that a dispatch returns belongs to a row the role may see,
  is of a kind the role is allowed and the caller asked for, requires no higher tier than the
  role's, is not a tier-1 task still cooling, and its row is now claimed by the in-process worker
  at the time of the dispatch.\<close>

theorem dispatch_returns_only_permitted_work:
  assumes "sched_inv env s" "dispatchNextInternal env role m rej ws t s = (Inr (Some task), s')"
  shows "(\<exists>c \<in> set (rows (taskRepo s)). eligible role ws c \<and> r_descriptor c = task \<and> r_id c = d_task_id task) \<and>
    m (d_task_kind task) \<and> d_task_kind task \<in> set (allowed_task_kinds role) \<and>
    TIER_ORDER (d_required_tier task) \<le> TIER_ORDER (GARDEN_ROLE_TIER_MAP role) \<and>
    \<not> (d_required_tier task = Tier_1 \<and> isCooling env task t (pruneExpiredCoolingEntries env t s)) \<and>
    (\<exists>row. find_row (d_task_id task) (rows (taskRepo s')) = Some row \<and> r_status row = Claimed \<and>
      r_claimed_by row = Some IN_PROCESS_GARDEN_CLAIMANT \<and> r_claimed_at row = Some t)"
proof -
  let ?s1 = "pruneExpiredCoolingEntries env t s"
  have "dispatch_loop env role m rej t (filter (eligible role ws) (rows (taskRepo s))) ?s1 = (Inr (Some task), s')"
    using assms(2) peek_all [of role ws ?s1] by (simp add: dispatchNextInternal_def Let_def)
  from dispatch_loop_safe [OF sched_inv_prune [OF assms(1)] this] show ?thesis
    by (auto simp: dispatched_ok_def)
qed

text \<open>On a queue of well-routed rows, a dispatch takes the first row in dispatch order that is
  pending, visible to the role (and in the workspace asked for), of a matching kind and not cooling.
  If there is none it returns null and no row changes. Otherwise it claims exactly that row, or,
  when the dispatch event cannot be built or appended, it throws with all rows unchanged. No row is
  quarantined or rejected.\<close>

theorem dispatch_takes_first_ready_task:
  assumes "sched_inv env s" "\<forall>row \<in> set (rows (taskRepo s)). well_routed row"
  shows "case List.find (\<lambda>row. eligible role ws row \<and> ready env m t (pruneExpiredCoolingEntries env t s) row) (rows (taskRepo s)) of
      None \<Rightarrow> dispatchNextInternal env role m rej ws t s = (Inr None, pruneExpiredCoolingEntries env t s)
    | Some row \<Rightarrow>
        (\<exists>s'. dispatchNextInternal env role m rej ws t s = (Inr (Some (r_descriptor row)), s') \<and>
           rows (taskRepo s') = map (\<lambda>x. if r_id x = r_id row then claimed_row IN_PROCESS_GARDEN_CLAIMANT t row else x) (rows (taskRepo s))) \<or>
        (\<exists>e s'. dispatchNextInternal env role m rej ws t s = (Inl e, s') \<and> rows (taskRepo s') = rows (taskRepo s))"
proof (cases "List.find (\<lambda>row. eligible role ws row \<and> ready env m t (pruneExpiredCoolingEntries env t s) row) (rows (taskRepo s))")
  case None
  then show ?thesis by (simp add: dispatchNextInternal_eq [OF assms] Let_def)
next
  case (Some row)
  let ?s1 = "pruneExpiredCoolingEntries env t s"
  have row: "row \<in> set (rows (taskRepo s))" "r_status row = Pending"
    using Some by (auto simp: find_Some_iff eligible_def)
  have d: "distinct (map r_id (rows (taskRepo s)))" using assms(1) by (simp add: sched_inv_def repo_inv_def)
  have f: "find_row (d_task_id (r_descriptor row)) (rows (taskRepo ?s1)) = Some row"
    using find_row_distinct [OF d row(1)] assms(2) row(1) by (simp add: well_routed_def)
  from claimForDispatch_pending [OF sched_inv_prune [OF assms(1)] f row(2), of role "GARDEN_ROLE_TIER_MAP role" t]
  show ?thesis
    by (auto simp: dispatchNextInternal_eq [OF assms] Let_def Some and_then_def update_row_def)
qed

theorem dispatch_takes_first_ready_task_witness:
  "(\<exists>s'. dispatchNext sample_env Auditor ''now'' sample_scheduler = (Inr (Some (sample_descriptor ''a'' 5)), s')) \<or>
   (\<exists>e s'. dispatchNext sample_env Auditor ''now'' sample_scheduler = (Inl e, s') \<and> rows (taskRepo s') = rows (taskRepo sample_scheduler))"
proof -
  have "List.find (\<lambda>row. eligible Auditor None row \<and> ready sample_env (\<lambda>_. True) ''now'' (pruneExpiredCoolingEntries sample_env ''now'' sample_scheduler) row)
      (rows (taskRepo sample_scheduler)) = Some (sample_row ''a'')"
    by (simp add: sample_scheduler_def sample_simps eligible_def ready_def canRolePeekPending_def tierForRole_def)
  then show ?thesis
    using dispatch_takes_first_ready_task [OF sample_sched_inv sample_well_routed,
        where role = Auditor and ws = None and m = "\<lambda>_. True" and t = "''now''" and rej = True]
    by (auto simp: dispatchNext_def sample_row_def new_row_def)
qed

lemma sample_dispatch:
  "\<exists>s'. dispatchNextInternal sample_env Janitor (\<lambda>_. True) True None ''now'' sample_scheduler = (Inr (Some (sample_descriptor ''a'' 5)), s')"
proof -
  have "fst (dispatchNextInternal sample_env Janitor (\<lambda>_. True) True None ''now'' sample_scheduler) = Inr (Some (sample_descriptor ''a'' 5))"
    by code_simp
  then show ?thesis by (metis prod.collapse)
qed

theorem dispatch_returns_only_permitted_work_witness:
  "d_task_kind (sample_descriptor ''a'' 5) \<in> set (allowed_task_kinds Janitor)"
proof -
  obtain s' where "dispatchNextInternal sample_env Janitor (\<lambda>_. True) True None ''now'' sample_scheduler = (Inr (Some (sample_descriptor ''a'' 5)), s')"
    using sample_dispatch by blast
  from dispatch_returns_only_permitted_work [OF sample_sched_inv this] show ?thesis by blast
qed

definition routed_inv :: "'l scheduler_env \<Rightarrow> 'l scheduler \<Rightarrow> bool" where
  "routed_inv env s \<longleftrightarrow> sched_inv env s \<and> (\<forall>row \<in> set (rows (taskRepo s)). well_routed row)"

lemma well_routed_cong:
  "r_id a = r_id b \<Longrightarrow> r_workspace_id a = r_workspace_id b \<Longrightarrow> r_kind a = r_kind b \<Longrightarrow> r_role a = r_role b \<Longrightarrow>
    r_descriptor a = r_descriptor b \<Longrightarrow> well_routed a = well_routed b"
  by (simp add: well_routed_def)

lemma well_routed_claimed [simp]: "well_routed (claimed_row b a row) = well_routed row"
  by (rule well_routed_cong) (simp_all add: claimed_row_def)

lemma well_routed_unclaimed [simp]: "well_routed (unclaimed row) = well_routed row"
  by (rule well_routed_cong) (simp_all add: unclaimed_def)

lemma completeWithEvents_rows: "set (rows (snd (completeWithEvents port t evs b st))) \<subseteq> set (rows st)"
proof -
  have rem: "set (rows (snd (removeRow row st'))) \<subseteq> set (rows st')" for row :: in_memory_row and st' :: "'a repo"
    using set_remove1_subset [of row "rows st'"] by (simp add: removeRow_def)
  have "set (rows (snd (and_then (appendTaskEvents port evs) (\<lambda>_. removeRow row) st))) \<subseteq> set (rows st)" for row
  proof (cases "appendTaskEvents port evs st")
    case (Pair r st1)
    then have "rows st1 = rows st" using appendTaskEvents_rows(1) [of port evs st] by simp
    with Pair rem [of row st1] show ?thesis by (cases r) (auto simp: and_then_def)
  qed
  moreover have "rows (snd (appendCompletionWithoutRow port t evs st)) = rows st"
    by (auto simp: appendCompletionWithoutRow_def split: prod.split dest!: appendTaskEvents_frame)
  ultimately show ?thesis by (auto simp: completeWithEvents_def split: option.split)
qed

lemma releaseClaim_rows:
  "set (rows (snd (releaseClaimForWorker collate t b st))) \<subseteq> set (rows st) \<union> unclaimed ` set (rows st)"
proof -
  have "replaceRow rs old new = Some rs' \<Longrightarrow> set rs' \<subseteq> insert new (set rs)" for rs old new rs'
    by (induction rs arbitrary: rs') (auto split: if_splits)
  note rep = this
  show ?thesis
  proof (cases "find_row t (rows st)")
    case (Some row)
    then have "row \<in> set (rows st)" using find_row_Some by blast
    then show ?thesis
      using Some rep [of "rows st" row "unclaimed row"]
      by (cases "replaceRow (rows st) row (unclaimed row)")
        (auto simp: releaseClaimForWorker_def replace_asserted_def and_then_def)
  qed (auto simp: releaseClaimForWorker_def)
qed

lemma routed_sched_enqueue:
  assumes "\<And>d'. env_parse env desc = Inr d' \<Longrightarrow> d' = desc"
  shows "keeps (routed_inv env) (sched_enqueue env desc t)"
proof
  fix s assume I: "routed_inv env s"
  define input where "input = \<lparr>i_id = Some (d_task_id desc), i_workspace_id = d_workspace_id desc,
            i_role = roleForTier (d_required_tier desc), i_kind = d_task_kind desc, i_payload = desc,
            i_created_at = Some (d_created_at desc)\<rparr>"
  have inv: "sched_inv env (snd (sched_enqueue env desc t s))"
    using I keepsD [OF keeps_sched_enqueue] by (auto simp: routed_inv_def)
  have rows_eq: "rows (taskRepo (snd (sched_enqueue env desc t s))) =
      (if taskKindAllowedAtTier (d_task_kind desc) (d_required_tier desc)
       then rows (snd (enqueue (env_collate env) (env_parse env) t input (taskRepo s))) else rows (taskRepo s))"
    by (auto simp: sched_enqueue_def on_repo_def and_then_def input_def split: prod.split sum.split)
  have "\<forall>row \<in> set (rows (snd (enqueue (env_collate env) (env_parse env) t input (taskRepo s)))). well_routed row"
    if "taskKindAllowedAtTier (d_task_kind desc) (d_required_tier desc)"
  proof (cases rule: enqueue_cases [of "env_collate env" "env_parse env" t input "taskRepo s"])
    case (added i c d)
    then have "d = desc" "i = d_task_id desc" using assms by (auto simp: input_def task_id_or_default_def)
    then have "well_routed (new_row i c input d)" using that by (simp add: well_routed_def new_row_def input_def)
    with added I show ?thesis by (auto simp: routed_inv_def)
  qed (use I in \<open>simp add: routed_inv_def\<close>)
  with inv rows_eq I show "routed_inv env (snd (sched_enqueue env desc t s))" by (simp add: routed_inv_def)
qed

lemma routed_dispatch: "keeps (routed_inv env) (dispatchNextInternal env role m rej ws t)"
proof
  fix s assume I: "routed_inv env s"
  let ?s' = "snd (dispatchNextInternal env role m rej ws t s)"
  have inv: "sched_inv env s" and routed: "\<forall>row \<in> set (rows (taskRepo s)). well_routed row"
    using I by (auto simp: routed_inv_def)
  let ?f = "List.find (\<lambda>row. eligible role ws row \<and> ready env m t (pruneExpiredCoolingEntries env t s) row) (rows (taskRepo s))"
  have "\<forall>row \<in> set (rows (taskRepo ?s')). well_routed row"
  proof (cases ?f)
    case None
    then show ?thesis using routed by (simp add: dispatchNextInternal_eq [OF inv routed] Let_def)
  next
    case (Some row)
    have row: "row \<in> set (rows (taskRepo s))" "r_status row = Pending"
      using Some by (auto simp: find_Some_iff eligible_def)
    have d: "distinct (map r_id (rows (taskRepo s)))" using inv by (simp add: sched_inv_def repo_inv_def)
    have f: "find_row (d_task_id (r_descriptor row)) (rows (taskRepo (pruneExpiredCoolingEntries env t s))) = Some row"
      using find_row_distinct [OF d row(1)] routed row(1) by (simp add: well_routed_def)
    have st: "?s' = snd (claimForDispatch env (r_descriptor row) role (GARDEN_ROLE_TIER_MAP role) t (pruneExpiredCoolingEntries env t s))"
      by (simp add: dispatchNextInternal_eq [OF inv routed] Let_def Some del: ret_apply)
    show ?thesis
      using claimForDispatch_pending [OF sched_inv_prune [OF inv] f row(2), of role "GARDEN_ROLE_TIER_MAP role" t] routed row(1)
      unfolding st by (auto dest!: in_update_row)
  qed
  moreover have "sched_inv env ?s'" by (rule keepsD [OF keeps_dispatchNextInternal inv])
  ultimately show "routed_inv env ?s'" by (simp add: routed_inv_def)
qed

lemma on_repo_rows: "rows (taskRepo (snd (on_repo m s))) = rows (snd (m (taskRepo s)))"
  by (simp add: on_repo_def split: prod.split)

lemma routed_on_repo:
  assumes "keeps (repo_inv (env_collate env)) m"
    and "\<And>st. set (rows (snd (m st))) \<subseteq> set (rows st) \<union> unclaimed ` set (rows st)"
  shows "keeps (routed_inv env) (on_repo m)"
proof
  fix s assume I: "routed_inv env s"
  have "\<forall>row \<in> set (rows (snd (m (taskRepo s)))). well_routed row"
    using assms(2) [of "taskRepo s"] I by (auto simp: routed_inv_def)
  with I keepsD [OF keeps_on_repo [OF assms(1)], of s] show "routed_inv env (snd (on_repo m s))"
    by (simp add: routed_inv_def on_repo_rows)
qed

lemma routed_reportCompletion: "keeps (routed_inv env) (reportCompletion env result t)"
  unfolding reportCompletion_def Let_def
proof (intro keeps_if keeps_throw keeps_and_then keeps_lift_result)
  show "keeps (routed_inv env) (on_repo (completeWithEvents port i evs b))" for port i evs b
    using completeWithEvents_rows by (intro routed_on_repo keeps_intros) blast
qed (auto simp: keeps_def routed_inv_def sched_inv_prune)

lemma routed_release: "keeps (routed_inv env) (releaseInProcessClaim env i)"
  unfolding releaseInProcessClaim_def releaseClaim_def
  using releaseClaim_rows by (intro routed_on_repo keeps_intros) blast

text \<open>When the descriptor schema returns a valid descriptor as it is, a queue that is fed only
  through the scheduler holds only well-routed rows: enqueueing, dispatching, completing and
  releasing all keep this, so nothing such a scheduler accepted is ever quarantined or rejected.\<close>

theorem scheduler_keeps_queue_well_routed:
  assumes "\<And>d d'. env_parse env d = Inr d' \<Longrightarrow> d' = d"
  shows "keeps (routed_inv env) (sched_enqueue env desc t) \<and>
    keeps (routed_inv env) (dispatchNext env role t) \<and>
    keeps (routed_inv env) (dispatchNextMatchingTaskKind env role kinds ws t) \<and>
    keeps (routed_inv env) (reportCompletion env result t) \<and>
    keeps (routed_inv env) (releaseInProcessClaim env i)"
  unfolding dispatchNext_def dispatchNextMatchingTaskKind_def
  using routed_sched_enqueue [of env desc] assms routed_dispatch routed_reportCompletion routed_release by blast

theorem scheduler_keeps_queue_well_routed_witness:
  "keeps (routed_inv sample_env) (dispatchNext sample_env Janitor ''now'')"
proof -
  have "\<And>d d'. env_parse sample_env d = Inr d' \<Longrightarrow> d' = d" by (simp add: sample_env_def)
  from scheduler_keeps_queue_well_routed [OF this] show ?thesis by blast
qed

lemma cooling_fold:
  "foldl (\<lambda>m ref. m(buildCoolingKey kind ref \<mapsto> t)) M refs k =
     (if k \<in> buildCoolingKey kind ` set refs then Some t else M k)"
  by (induction refs arbitrary: M) auto

text \<open>After a successful tier-1 completion at one time, a tier-1 task of the same kind whose
  target is one of the affected objects counts as cooling at a later time exactly while less than
  the cooling period has passed.\<close>

theorem completion_starts_cooling:
  assumes "reportCompletion env result t s = (Inr (), s')" "payload_success result" "g_tier result = Tier_1"
    and "d_task_kind task = g_task_kind result" "d_target_object_refs task = ref # refs" "ref \<in> set (g_objects_affected result)"
    and "env_dateParse env t = Some a" "env_dateParse env u = Some b"
  shows "isCooling env task u s' \<longleftrightarrow> b - a < env_coolingPeriodMs env"
proof -
  have "\<exists>M. coolingMap s' = foldl (\<lambda>m ref. m(buildCoolingKey (g_task_kind result) ref \<mapsto> t)) M (g_objects_affected result)"
    using assms(1-3) unfolding reportCompletion_def Let_def payload_success_def
    by (auto simp: and_then_returns split: if_splits)
  with assms(4-8) show ?thesis by (auto simp: isCooling_def Let_def cooling_fold)
qed

definition sample_cooling_result :: garden_task_result where
  "sample_cooling_result = sample_result\<lparr>g_tier := Tier_1, g_task_kind := Green_maintenance\<rparr>"

lemma sample_completion: "\<exists>s'. reportCompletion sample_env sample_cooling_result ''now'' sample_scheduler = (Inr (), s')"
proof -
  have "fst (reportCompletion sample_env sample_cooling_result ''now'' sample_scheduler) = Inr ()" by code_simp
  then show ?thesis by (metis prod.collapse)
qed

theorem completion_starts_cooling_witness:
  "\<exists>s'. isCooling sample_env ((sample_descriptor ''b'' 1)\<lparr>d_task_kind := Green_maintenance, d_target_object_refs := [''o'']\<rparr>) ''later'' s'"
proof -
  obtain s' where "reportCompletion sample_env sample_cooling_result ''now'' sample_scheduler = (Inr (), s')"
    using sample_completion by blast
  from completion_starts_cooling [OF this, where u = "''later''" and a = 3 and b = 5
      and task = "(sample_descriptor ''b'' 1)\<lparr>d_task_kind := Green_maintenance, d_target_object_refs := [''o'']\<rparr>" and ref = "''o''" and refs = "[]"]
  show ?thesis
    by (auto simp: sample_cooling_result_def sample_result_def payload_success_def sample_env_def)
qed

end
