(* ===== verification/VersionedCache.thy ===== *)
theory VersionedCache
  imports Prelude
begin

text \<open>
  The bounded cache with in-flight loads
  (\<^verbatim>\<open>packages/core/src/runtime/versioned-bounded-cache.ts\<close>). The store keeps insertion order, oldest
  first. A load is a ticket: it remembers the epoch and the key's version at its start, other calls
  run while it is in flight, and \<open>finish_load\<close> is what happens when it settles. Promise identity
  is a number drawn from a counter.
\<close>

section \<open>State\<close>

record 'v vcache =
  vc_store :: "(string \<times> 'v) list"
  vc_pending :: "string \<rightharpoonup> nat"
  vc_versions :: "string \<rightharpoonup> nat"
  vc_epoch :: nat
  vc_max :: nat
  vc_next :: nat

record load_ticket =
  lt_key :: string
  lt_id :: nat
  lt_epoch :: nat
  lt_version :: nat

datatype 'v resolution = Cached "'v option" | Shared nat | Started load_ticket

definition empty_cache :: "nat \<Rightarrow> 'v vcache" where
  "empty_cache maxEntries =
     \<lparr>vc_store = [], vc_pending = Map.empty, vc_versions = Map.empty, vc_epoch = 0,
      vc_max = max 1 maxEntries, vc_next = 0\<rparr>"

section \<open>Operations\<close>

definition version_of :: "string \<Rightarrow> 'v vcache \<Rightarrow> nat" where
  "version_of key c = (case vc_versions c key of None \<Rightarrow> 0 | Some n \<Rightarrow> n)"

definition bump :: "string \<Rightarrow> 'v vcache \<Rightarrow> 'v vcache" where
  "bump key c = c\<lparr>vc_versions := (vc_versions c)(key \<mapsto> version_of key c + 1)\<rparr>"

definition store_has :: "string \<Rightarrow> 'v vcache \<Rightarrow> bool" where
  "store_has key c \<longleftrightarrow> key \<in> fst ` set (vc_store c)"

definition store_delete :: "string \<Rightarrow> 'v vcache \<Rightarrow> 'v vcache" where
  "store_delete key c = c\<lparr>vc_store := filter (\<lambda>p. fst p \<noteq> key) (vc_store c)\<rparr>"

definition clearVersionIfIdle :: "string \<Rightarrow> 'v vcache \<Rightarrow> 'v vcache" where
  "clearVersionIfIdle key c =
     (if \<not> store_has key c \<and> vc_pending c key = None then c\<lparr>vc_versions := (vc_versions c)(key := None)\<rparr> else c)"

function evictOverflow :: "'v vcache \<Rightarrow> 'v vcache" where
  "evictOverflow c =
     (if length (vc_store c) > vc_max c
      then (case vc_store c of
              [] \<Rightarrow> c
            | (oldestKey, _) # _ \<Rightarrow> evictOverflow (clearVersionIfIdle oldestKey (store_delete oldestKey c)))
      else c)"
  by pat_completeness auto

termination
proof (relation "measure (\<lambda>c. length (vc_store c))")
  fix c :: "'v vcache" and p ps and k v
  assume "vc_store c = p # ps" "(k, v) = p"
  then show "(clearVersionIfIdle k (store_delete k c), c) \<in> measure (\<lambda>c. length (vc_store c))"
    by (auto simp: clearVersionIfIdle_def store_delete_def less_Suc_eq_le)
qed simp

declare evictOverflow.simps [simp del]

definition write_value :: "string \<Rightarrow> 'v \<Rightarrow> 'v vcache \<Rightarrow> 'v vcache" where
  "write_value key v c =
     (let c1 = store_delete key c in evictOverflow (c1\<lparr>vc_store := vc_store c1 @ [(key, v)]\<rparr>))"

definition touch :: "string \<Rightarrow> 'v vcache \<Rightarrow> 'v vcache" where
  "touch key c =
     (case map_of (vc_store c) key of
        None \<Rightarrow> c
      | Some v \<Rightarrow> let c1 = store_delete key c in c1\<lparr>vc_store := vc_store c1 @ [(key, v)]\<rparr>)"

definition cache_set :: "string \<Rightarrow> 'v \<Rightarrow> 'v vcache \<Rightarrow> 'v vcache" where
  "cache_set key v c = write_value key v (bump key c)"

definition cache_delete :: "string \<Rightarrow> 'v vcache \<Rightarrow> 'v vcache" where
  "cache_delete key c =
     (let c1 = store_delete key (bump key c);
          c2 = c1\<lparr>vc_pending := (vc_pending c1)(key := None)\<rparr>
      in clearVersionIfIdle key c2)"

definition invalidate :: "'v vcache \<Rightarrow> 'v vcache" where
  "invalidate c =
     c\<lparr>vc_epoch := vc_epoch c + 1, vc_store := [], vc_pending := Map.empty, vc_versions := Map.empty\<rparr>"

definition refresh :: "string \<Rightarrow> ('v \<Rightarrow> 'v option) \<Rightarrow> 'v vcache \<Rightarrow> 'v option \<times> 'v vcache" where
  "refresh key norm_v c =
     (case map_of (vc_store c) key of
        None \<Rightarrow> (None, c)
      | Some cached \<Rightarrow>
          let normalized = norm_v cached
          in if normalized = Some cached then (Some cached, c)
             else let c1 = bump key c
                  in case normalized of
                       None \<Rightarrow> (None, clearVersionIfIdle key (store_delete key c1))
                     | Some v \<Rightarrow> (Some v, write_value key v c1))"

definition startLoad :: "string \<Rightarrow> 'v vcache \<Rightarrow> load_ticket \<times> 'v vcache" where
  "startLoad key c =
     (\<lparr>lt_key = key, lt_id = vc_next c, lt_epoch = vc_epoch c, lt_version = version_of key c\<rparr>,
      c\<lparr>vc_pending := (vc_pending c)(key \<mapsto> vc_next c), vc_next := vc_next c + 1\<rparr>)"

definition resolve :: "string \<Rightarrow> ('v \<Rightarrow> 'v option) \<Rightarrow> 'v vcache \<Rightarrow> 'v resolution \<times> 'v vcache" where
  "resolve key norm_v c =
     (if store_has key c
      then (case refresh key norm_v c of
              (v, c1) \<Rightarrow> (Cached v, if v \<noteq> None \<and> v = map_of (vc_store c) key then touch key c1 else c1))
      else (case vc_pending c key of
              Some i \<Rightarrow> (Shared i, c)
            | None \<Rightarrow> (case startLoad key c of (t, c1) \<Rightarrow> (Started t, c1))))"

definition finishLoad :: "load_ticket \<Rightarrow> 'v option \<Rightarrow> ('v \<Rightarrow> 'v option) \<Rightarrow> 'v vcache \<Rightarrow> 'v option \<times> 'v vcache" where
  "finishLoad t loaded norm_v c =
     (let key = lt_key t in
      if vc_epoch c \<noteq> lt_epoch t \<or> version_of key c \<noteq> lt_version t \<or> store_has key c
      then (case refresh key norm_v c of
              (Some v, c1) \<Rightarrow> (Some v, c1)
            | (None, c1) \<Rightarrow> (Option.bind loaded norm_v, c1))
      else let normalized = Option.bind loaded norm_v
           in (normalized, case normalized of None \<Rightarrow> c | Some v \<Rightarrow> write_value key v c))"

definition finishPending :: "load_ticket \<Rightarrow> 'v vcache \<Rightarrow> 'v vcache" where
  "finishPending t c =
     (let key = lt_key t;
          c1 = (if vc_pending c key = Some (lt_id t) then c\<lparr>vc_pending := (vc_pending c)(key := None)\<rparr> else c)
      in clearVersionIfIdle key c1)"

text \<open>A settled load: the \<^verbatim>\<open>then\<close> handler and the \<^verbatim>\<open>finally\<close> handler.\<close>

definition finish_load :: "load_ticket \<Rightarrow> 'v option \<Rightarrow> ('v \<Rightarrow> 'v option) \<Rightarrow> 'v vcache \<Rightarrow> 'v option \<times> 'v vcache" where
  "finish_load t loaded norm_v c =
     (case finishLoad t loaded norm_v c of (v, c1) \<Rightarrow> (v, finishPending t c1))"

section \<open>Sequences of calls\<close>

datatype 'v cache_call =
    Set_call string 'v
  | Delete_call string
  | Invalidate_call
  | Refresh_call string "'v \<Rightarrow> 'v option"
  | Resolve_call string "'v \<Rightarrow> 'v option"
  | Finish_call load_ticket "'v option" "'v \<Rightarrow> 'v option"

primrec call :: "'v cache_call \<Rightarrow> 'v vcache \<Rightarrow> 'v vcache" where
  "call (Set_call k v) c = cache_set k v c"
| "call (Delete_call k) c = cache_delete k c"
| "call Invalidate_call c = invalidate c"
| "call (Refresh_call k f) c = snd (refresh k f c)"
| "call (Resolve_call k f) c = snd (resolve k f c)"
| "call (Finish_call t loaded f) c = snd (finish_load t loaded f c)"

section \<open>Eviction\<close>

lemma clearVersionIfIdle_sel [simp]:
  "vc_store (clearVersionIfIdle k c) = vc_store c" "vc_pending (clearVersionIfIdle k c) = vc_pending c"
  "vc_epoch (clearVersionIfIdle k c) = vc_epoch c" "vc_max (clearVersionIfIdle k c) = vc_max c"
  "vc_next (clearVersionIfIdle k c) = vc_next c"
  by (simp_all add: clearVersionIfIdle_def)

lemma store_delete_sel [simp]:
  "vc_pending (store_delete k c) = vc_pending c" "vc_epoch (store_delete k c) = vc_epoch c"
  "vc_max (store_delete k c) = vc_max c" "vc_next (store_delete k c) = vc_next c"
  "vc_versions (store_delete k c) = vc_versions c"
  "vc_store (store_delete k c) = filter (\<lambda>p. fst p \<noteq> k) (vc_store c)"
  by (simp_all add: store_delete_def)

lemma bump_sel [simp]:
  "vc_store (bump k c) = vc_store c" "vc_pending (bump k c) = vc_pending c" "vc_epoch (bump k c) = vc_epoch c"
  "vc_max (bump k c) = vc_max c" "vc_next (bump k c) = vc_next c"
  by (simp_all add: bump_def)

lemma filter_head: "distinct (map fst (p # ps)) \<Longrightarrow> filter (\<lambda>q. fst q \<noteq> fst p) ps = ps"
  by (rule filter_True) (auto simp: image_iff)

lemma keys_filter [simp]: "fst ` set (filter (\<lambda>p. fst p \<noteq> k) xs) = fst ` set xs - {k}"
  by force

lemma keys_filter' [simp]: "fst ` {x \<in> set xs. fst x \<noteq> k} = fst ` set xs - {k}"
  by force

lemma evictOverflow_other [simp]:
  "vc_pending (evictOverflow c) = vc_pending c" "vc_epoch (evictOverflow c) = vc_epoch c"
  "vc_max (evictOverflow c) = vc_max c" "vc_next (evictOverflow c) = vc_next c"
proof -
  have "vc_pending (evictOverflow c) = vc_pending c \<and> vc_epoch (evictOverflow c) = vc_epoch c \<and>
      vc_max (evictOverflow c) = vc_max c \<and> vc_next (evictOverflow c) = vc_next c"
    by (induction c rule: evictOverflow.induct) (subst evictOverflow.simps, auto split: list.split)+
  then show "vc_pending (evictOverflow c) = vc_pending c" "vc_epoch (evictOverflow c) = vc_epoch c"
    "vc_max (evictOverflow c) = vc_max c" "vc_next (evictOverflow c) = vc_next c" by auto
qed

lemma evictOverflow_store:
  "distinct (map fst (vc_store c)) \<Longrightarrow> vc_store (evictOverflow c) = drop (length (vc_store c) - vc_max c) (vc_store c)"
proof (induction c rule: evictOverflow.induct)
  case (1 c)
  show ?case
  proof (cases "length (vc_store c) > vc_max c")
    case True
    then obtain k v ps where st: "vc_store c = (k, v) # ps" by (cases "vc_store c") auto
    let ?c = "clearVersionIfIdle k (store_delete k c)"
    have f: "vc_store ?c = ps" using "1.prems" st filter_head [of "(k, v)" ps] by simp
    have "vc_store (evictOverflow ?c) = drop (length ps - vc_max c) ps"
      using "1.IH" [OF True st refl] "1.prems" st f by simp
    moreover have "evictOverflow c = evictOverflow ?c"
      using True st by (subst evictOverflow.simps) simp
    moreover have "length (vc_store c) - vc_max c = Suc (length ps - vc_max c)" using True st by auto
    ultimately show ?thesis using st by simp
  qed (simp add: evictOverflow.simps [of c])
qed

lemma evictOverflow_versions:
  "vc_versions (evictOverflow c) k = vc_versions c k \<or> vc_versions (evictOverflow c) k = None \<and> vc_pending c k = None"
proof (induction c rule: evictOverflow.induct)
  case (1 c)
  show ?case
  proof (cases "length (vc_store c) > vc_max c")
    case True
    then obtain j v ps where st: "vc_store c = (j, v) # ps" by (cases "vc_store c") auto
    have "evictOverflow c = evictOverflow (clearVersionIfIdle j (store_delete j c))"
      using True st by (subst evictOverflow.simps) simp
    with "1.IH" [OF True st refl] show ?thesis by (auto simp: clearVersionIfIdle_def split: if_splits)
  qed (simp add: evictOverflow.simps [of c])
qed

definition versions_live :: "'v vcache \<Rightarrow> bool" where
  "versions_live c \<longleftrightarrow> (\<forall>k. vc_versions c k \<noteq> None \<longrightarrow> store_has k c \<or> vc_pending c k \<noteq> None)"

lemma versions_live_clear:
  assumes "\<And>j. j \<noteq> k \<Longrightarrow> vc_versions c j \<noteq> None \<Longrightarrow> store_has j c \<or> vc_pending c j \<noteq> None"
  shows "versions_live (clearVersionIfIdle k c)"
  unfolding versions_live_def
proof (intro allI impI)
  fix j assume v: "vc_versions (clearVersionIfIdle k c) j \<noteq> None"
  show "store_has j (clearVersionIfIdle k c) \<or> vc_pending (clearVersionIfIdle k c) j \<noteq> None"
  proof (cases "j = k")
    case True
    with v show ?thesis by (auto simp: clearVersionIfIdle_def store_has_def split: if_splits)
  next
    case False
    with v have "vc_versions c j \<noteq> None" by (auto simp: clearVersionIfIdle_def split: if_splits)
    with assms [OF False] show ?thesis by (simp add: store_has_def)
  qed
qed

lemma evictOverflow_live: "versions_live c \<Longrightarrow> versions_live (evictOverflow c)"
proof (induction c rule: evictOverflow.induct)
  case (1 c)
  show ?case
  proof (cases "length (vc_store c) > vc_max c")
    case True
    then obtain j v ps where st: "vc_store c = (j, v) # ps" by (cases "vc_store c") auto
    have "versions_live (clearVersionIfIdle j (store_delete j c))"
      using "1.prems" by (intro versions_live_clear) (auto simp: versions_live_def store_has_def)
    moreover have "evictOverflow c = evictOverflow (clearVersionIfIdle j (store_delete j c))"
      using True st by (subst evictOverflow.simps) simp
    ultimately show ?thesis using "1.IH" [OF True st refl] by simp
  qed (simp add: evictOverflow.simps [of c] "1.prems")
qed

section \<open>The invariant\<close>

definition cache_inv :: "'v vcache \<Rightarrow> bool" where
  "cache_inv c \<longleftrightarrow> distinct (map fst (vc_store c)) \<and> length (vc_store c) \<le> vc_max c \<and> vc_max c \<ge> 1 \<and>
     versions_live c \<and> (\<forall>k i. vc_pending c k = Some i \<longrightarrow> i < vc_next c)"

lemma distinct_filter_append:
  "distinct (map fst xs) \<Longrightarrow> distinct (map fst (filter (\<lambda>p. fst p \<noteq> k) xs @ [(k, v)]))"
  by (auto simp: distinct_map_filter)

lemma write_value_store:
  assumes "distinct (map fst (vc_store c))"
  shows "vc_store (write_value k v c) =
    drop (Suc (length (filter (\<lambda>p. fst p \<noteq> k) (vc_store c))) - vc_max c) (filter (\<lambda>p. fst p \<noteq> k) (vc_store c) @ [(k, v)])"
  using evictOverflow_store [of "c\<lparr>vc_store := filter (\<lambda>p. fst p \<noteq> k) (vc_store c) @ [(k, v)]\<rparr>"]
    distinct_filter_append [OF assms] by (simp add: write_value_def store_delete_def Let_def)

lemma write_value_other [simp]:
  "vc_pending (write_value k v c) = vc_pending c" "vc_epoch (write_value k v c) = vc_epoch c"
  "vc_max (write_value k v c) = vc_max c" "vc_next (write_value k v c) = vc_next c"
  by (simp_all add: write_value_def Let_def)

definition pre_inv :: "string \<Rightarrow> 'v vcache \<Rightarrow> bool" where
  "pre_inv k c \<longleftrightarrow> distinct (map fst (vc_store c)) \<and> length (vc_store c) \<le> vc_max c \<and> vc_max c \<ge> 1 \<and>
     (\<forall>j. j \<noteq> k \<longrightarrow> vc_versions c j \<noteq> None \<longrightarrow> store_has j c \<or> vc_pending c j \<noteq> None) \<and>
     (\<forall>k i. vc_pending c k = Some i \<longrightarrow> i < vc_next c)"

lemma pre_inv_bump: "cache_inv c \<Longrightarrow> pre_inv k (bump k c)"
  by (auto simp: cache_inv_def pre_inv_def versions_live_def bump_def store_has_def)

lemma pre_inv_self: "cache_inv c \<Longrightarrow> pre_inv k c"
  by (auto simp: cache_inv_def pre_inv_def versions_live_def)

lemma write_value_inv:
  assumes "pre_inv k c"
  shows "cache_inv (write_value k v c)"
proof -
  let ?xs = "filter (\<lambda>p. fst p \<noteq> k) (vc_store c) @ [(k, v)]"
  have d: "distinct (map fst (vc_store c))" using assms by (simp add: pre_inv_def)
  have "versions_live (c\<lparr>vc_store := ?xs\<rparr>)"
    using assms by (auto simp: pre_inv_def versions_live_def store_has_def image_Un)
  then have "versions_live (write_value k v c)"
    using evictOverflow_live by (simp add: write_value_def store_delete_def Let_def)
  moreover have "distinct (map fst (vc_store (write_value k v c)))"
    unfolding write_value_store [OF d] drop_map [symmetric] by (intro distinct_drop distinct_filter_append d)
  moreover have "length (vc_store (write_value k v c)) \<le> vc_max c"
    using assms unfolding write_value_store [OF d] pre_inv_def length_drop length_append by auto
  ultimately show ?thesis using assms by (simp add: cache_inv_def pre_inv_def)
qed

lemma clear_delete_inv:
  assumes "pre_inv k c"
  shows "cache_inv (clearVersionIfIdle k (store_delete k c))"
proof -
  have "versions_live (clearVersionIfIdle k (store_delete k c))"
    using assms by (intro versions_live_clear) (auto simp: pre_inv_def store_has_def)
  then show ?thesis
    using assms by (auto simp: cache_inv_def pre_inv_def distinct_map_filter intro: order_trans [OF length_filter_le])
qed

lemma refresh_inv: "cache_inv c \<Longrightarrow> cache_inv (snd (refresh k f c))"
  by (auto simp: refresh_def Let_def write_value_inv clear_delete_inv pre_inv_bump split: option.split)

lemma finishPending_inv: "cache_inv c \<Longrightarrow> cache_inv (finishPending t c)"
proof -
  assume inv: "cache_inv c"
  define c1 where "c1 = (if vc_pending c (lt_key t) = Some (lt_id t) then c\<lparr>vc_pending := (vc_pending c)(lt_key t := None)\<rparr> else c)"
  have "versions_live (clearVersionIfIdle (lt_key t) c1)"
    using inv by (intro versions_live_clear) (auto simp: c1_def cache_inv_def versions_live_def store_has_def split: if_splits)
  with inv show ?thesis
    by (auto simp: finishPending_def Let_def c1_def [symmetric] cache_inv_def) (auto simp: c1_def split: if_splits)
qed

lemma finishLoad_inv: "cache_inv c \<Longrightarrow> cache_inv (snd (finishLoad t loaded f c))"
  using refresh_inv [of c "lt_key t" f]
  by (auto simp: finishLoad_def Let_def write_value_inv pre_inv_self split: option.split prod.split)

lemma touch_inv: "cache_inv c \<Longrightarrow> cache_inv (touch k c)"
proof (cases "map_of (vc_store c) k")
  case (Some v)
  assume inv: "cache_inv c"
  have "length (filter (\<lambda>p. fst p \<noteq> k) (vc_store c)) < length (vc_store c)"
    using map_of_SomeD [OF Some] by (intro length_filter_less) auto
  moreover have "distinct (map fst (filter (\<lambda>p. fst p \<noteq> k) (vc_store c) @ [(k, v)]))"
    by (rule distinct_filter_append) (use inv in \<open>simp add: cache_inv_def\<close>)
  ultimately show ?thesis
    using inv Some by (auto simp: touch_def Let_def cache_inv_def versions_live_def store_has_def image_Un)
qed (simp add: touch_def)

lemma resolve_inv: "cache_inv c \<Longrightarrow> cache_inv (snd (resolve k f c))"
  using refresh_inv [of c k f]
  by (auto simp: resolve_def startLoad_def touch_inv split: option.split prod.split)
    (auto simp: cache_inv_def versions_live_def store_has_def split: if_splits intro: less_SucI)

lemma call_inv: "cache_inv c \<Longrightarrow> cache_inv (call q c)"
proof (cases q)
  case (Delete_call k)
  assume inv: "cache_inv c"
  have "pre_inv k ((bump k c)\<lparr>vc_pending := (vc_pending c)(k := None)\<rparr>)"
    using pre_inv_bump [OF inv, of k] by (auto simp: pre_inv_def store_has_def)
  from clear_delete_inv [OF this] Delete_call show ?thesis
    by (cases c) (simp add: cache_delete_def store_delete_def bump_def Let_def)
next
  case Invalidate_call
  assume "cache_inv c"
  with Invalidate_call show ?thesis by (simp add: invalidate_def cache_inv_def versions_live_def)
next
  case (Finish_call t loaded f)
  assume "cache_inv c"
  with Finish_call finishPending_inv [OF finishLoad_inv] show ?thesis
    by (simp add: finish_load_def case_prod_unfold)
qed (auto simp: cache_set_def write_value_inv pre_inv_bump refresh_inv resolve_inv)

section \<open>Stale loads\<close>

text \<open>
  While a load of a key is registered as pending, the key's version never goes down: versions are
  only cleared for idle keys.
\<close>

definition overtaken :: "load_ticket \<Rightarrow> 'v vcache \<Rightarrow> bool" where
  "overtaken t c \<longleftrightarrow> vc_pending c (lt_key t) = Some (lt_id t) \<and> version_of (lt_key t) c > lt_version t"

definition disturbs :: "load_ticket \<Rightarrow> 'v cache_call \<Rightarrow> bool" where
  "disturbs t q \<longleftrightarrow> q = Delete_call (lt_key t) \<or> q = Invalidate_call \<or>
     (case q of Finish_call t' _ _ \<Rightarrow> lt_id t' = lt_id t | _ \<Rightarrow> False)"

lemma version_of_bump: "version_of j (bump k c) = (if j = k then version_of k c + 1 else version_of j c)"
  by (simp add: version_of_def bump_def)

lemma version_of_clear: "vc_pending c j \<noteq> None \<Longrightarrow> version_of j (clearVersionIfIdle k c) = version_of j c"
  by (auto simp: version_of_def clearVersionIfIdle_def)

lemma version_of_store [simp]:
  "version_of j (store_delete k c) = version_of j c" "version_of j (c\<lparr>vc_store := xs\<rparr>) = version_of j c"
  "version_of j (c\<lparr>vc_pending := p\<rparr>) = version_of j c" "version_of j (c\<lparr>vc_next := n\<rparr>) = version_of j c"
  by (simp_all add: version_of_def)

lemma version_of_write: "vc_pending c j \<noteq> None \<Longrightarrow> version_of j (write_value k v c) = version_of j c"
  using evictOverflow_versions [of "c\<lparr>vc_store := filter (\<lambda>p. fst p \<noteq> k) (vc_store c) @ [(k, v)]\<rparr>" j]
  by (auto simp: version_of_def write_value_def store_delete_def Let_def)

lemma refresh_pending [simp]: "vc_pending (snd (refresh k f c)) = vc_pending c"
  by (auto simp: refresh_def Let_def split: option.split)

lemma refresh_version: "vc_pending c j \<noteq> None \<Longrightarrow> version_of j c \<le> version_of j (snd (refresh k f c))"
  by (auto simp: refresh_def Let_def version_of_clear version_of_write version_of_bump split: option.split)

lemma touch_frame [simp]: "vc_pending (touch k c) = vc_pending c" "version_of j (touch k c) = version_of j c"
  by (auto simp: touch_def Let_def split: option.split)

definition is_stale :: "load_ticket \<Rightarrow> 'v vcache \<Rightarrow> bool" where
  "is_stale t c \<longleftrightarrow> vc_epoch c \<noteq> lt_epoch t \<or> version_of (lt_key t) c \<noteq> lt_version t \<or> store_has (lt_key t) c"

lemma snd_finishLoad:
  "snd (finishLoad t loaded f c) =
     (if is_stale t c then snd (refresh (lt_key t) f c)
      else case Option.bind loaded f of None \<Rightarrow> c | Some v \<Rightarrow> write_value (lt_key t) v c)"
  by (simp add: finishLoad_def Let_def is_stale_def split: option.split prod.split)

lemma finishLoad_frame:
  "vc_pending (snd (finishLoad t loaded f c)) = vc_pending c"
  "vc_pending c j \<noteq> None \<Longrightarrow> version_of j c \<le> version_of j (snd (finishLoad t loaded f c))"
  by (auto simp: snd_finishLoad refresh_version version_of_write split: option.split)

lemma overtaken_stays:
  assumes "overtaken t c" "\<not> disturbs t q"
  shows "overtaken t (call q c)"
proof -
  have p: "vc_pending c (lt_key t) \<noteq> None" using assms(1) by (auto simp: overtaken_def)
  show ?thesis
  proof (cases q)
    case (Set_call k v)
    then show ?thesis
      using assms(1) p by (auto simp: overtaken_def cache_set_def version_of_write version_of_bump)
  next
    case (Delete_call k)
    then show ?thesis
      using assms by (auto simp: overtaken_def disturbs_def cache_delete_def Let_def version_of_clear version_of_bump)
  next
    case Invalidate_call
    then show ?thesis using assms(2) by (simp add: disturbs_def)
  next
    case (Refresh_call k f)
    then show ?thesis
      using assms(1) refresh_version [OF p, of k f] by (simp add: overtaken_def)
  next
    case (Resolve_call k f)
    then show ?thesis
      using assms(1) refresh_version [OF p, of k f]
      by (auto simp: overtaken_def resolve_def startLoad_def case_prod_unfold split: option.split)
  next
    case (Finish_call u loaded f)
    then have ne: "lt_id u \<noteq> lt_id t" using assms(2) by (simp add: disturbs_def)
    let ?c = "snd (finishLoad u loaded f c)"
    have "vc_pending (finishPending u ?c) (lt_key t) = Some (lt_id t)"
      using assms(1) ne by (auto simp: finishPending_def Let_def finishLoad_frame overtaken_def)
    moreover from this have "version_of (lt_key t) (finishPending u ?c) = version_of (lt_key t) ?c"
      by (auto simp: finishPending_def Let_def version_of_clear split: if_splits)
    ultimately show ?thesis
      using Finish_call assms(1) finishLoad_frame(2) [OF p, of u loaded f]
      by (simp add: overtaken_def finish_load_def case_prod_unfold)
  qed
qed

lemma overtaken_run: "overtaken t c \<Longrightarrow> \<forall>q \<in> set qs. \<not> disturbs t q \<Longrightarrow> overtaken t (fold call qs c)"
  by (induction qs arbitrary: c) (auto intro: overtaken_stays)

lemma finish_stale:
  assumes "is_stale t c"
  shows "vc_store (snd (finish_load t loaded f c)) = vc_store (snd (refresh (lt_key t) f c))"
  using assms by (simp add: finish_load_def case_prod_unfold snd_finishLoad finishPending_def Let_def)

lemma refresh_epoch [simp]: "vc_epoch (snd (refresh k f c)) = vc_epoch c"
  by (auto simp: refresh_def Let_def split: option.split)

lemma refresh_max: "vc_max (snd (refresh k f c)) = vc_max c"
  by (auto simp: refresh_def Let_def split: option.split)

lemma call_epoch: "vc_epoch c \<le> vc_epoch (call q c)"
  by (cases q) (simp_all add: cache_set_def cache_delete_def invalidate_def resolve_def startLoad_def finish_load_def snd_finishLoad
      finishPending_def touch_def Let_def case_prod_unfold split: option.split)

lemma run_epoch: "vc_epoch c \<le> vc_epoch (fold call qs c)"
  by (induction qs arbitrary: c) (auto intro: order_trans [OF call_epoch])

section \<open>Properties\<close>

lemma call_max: "vc_max (call q c) = vc_max c"
  by (cases q) (simp_all add: cache_set_def cache_delete_def invalidate_def refresh_max resolve_def startLoad_def finish_load_def
      snd_finishLoad finishPending_def touch_def Let_def case_prod_unfold split: option.split)

lemma empty_cache_inv: "cache_inv (empty_cache maxEntries)"
  by (auto simp: empty_cache_def cache_inv_def versions_live_def)

lemma run_inv: "cache_inv c \<Longrightarrow> cache_inv (fold call qs c) \<and> vc_max (fold call qs c) = vc_max c"
  by (induction qs arbitrary: c) (auto simp: call_inv call_max)

text \<open>Whatever sequence of calls runs on the cache, it holds at most \<^verbatim>\<open>maxEntries\<close> values under
  distinct keys, and version numbers are kept only for keys that are cached or being loaded.\<close>

theorem cache_stays_bounded:
  "cache_inv (fold call qs (empty_cache maxEntries)) \<and>
   length (vc_store (fold call qs (empty_cache maxEntries))) \<le> max 1 maxEntries"
  using run_inv [OF empty_cache_inv, of qs maxEntries] by (force simp: cache_inv_def empty_cache_def)

text \<open>Writing a key puts it at the recent end; when the cache overflows, exactly the oldest entries
  go, so the store is the most recent part of the old order without the key, followed by the key.\<close>

theorem cache_set_keeps_the_most_recent:
  assumes "cache_inv c"
  shows "vc_store (cache_set k v c) =
      drop (Suc (length (filter (\<lambda>p. fst p \<noteq> k) (vc_store c))) - vc_max c) (filter (\<lambda>p. fst p \<noteq> k) (vc_store c) @ [(k, v)]) \<and>
    map_of (vc_store (cache_set k v c)) k = Some v"
proof -
  have d: "distinct (map fst (vc_store (bump k c)))" using assms by (simp add: cache_inv_def)
  have st: "vc_store (cache_set k v c) =
      drop (Suc (length (filter (\<lambda>p. fst p \<noteq> k) (vc_store c))) - vc_max c) (filter (\<lambda>p. fst p \<noteq> k) (vc_store c) @ [(k, v)])"
    using write_value_store [OF d, of k v] by (simp add: cache_set_def)
  have inv: "cache_inv (cache_set k v c)" using call_inv [OF assms, of "Set_call k v"] by simp
  have "(k, v) \<in> set (vc_store (cache_set k v c))"
    using assms unfolding st by (auto simp: cache_inv_def drop_append)
  then have "map_of (vc_store (cache_set k v c)) k = Some v"
    using inv unfolding cache_inv_def by (blast intro: map_of_is_SomeI)
  with st show ?thesis by blast
qed

definition sample_cache :: "string vcache" where
  "sample_cache = fold call [Set_call ''a'' ''1'', Set_call ''b'' ''2''] (empty_cache 2)"

lemma sample_cache_inv: "cache_inv sample_cache"
  unfolding sample_cache_def using run_inv [OF empty_cache_inv] by blast

theorem cache_set_keeps_the_most_recent_witness:
  "map fst (vc_store (cache_set ''c'' ''3'' sample_cache)) = [''b'', ''c'']"
proof -
  have "vc_store sample_cache = [(''a'', ''1''), (''b'', ''2'')]" "vc_max sample_cache = 2"
    by (simp_all add: sample_cache_def cache_set_def bump_def write_value_def store_delete_def Let_def empty_cache_def evictOverflow.simps)
  then show ?thesis using cache_set_keeps_the_most_recent [OF sample_cache_inv, of "''c''" "''3''"] by simp
qed

text \<open>A load that was in flight when the whole cache was invalidated, or when its key was set, never
  puts its value into the cache, whatever other calls run before it settles (a deletion of the key
  or an invalidation in the second case apart): settling it only renews what is cached by then.\<close>

theorem overtaken_load_is_not_cached:
  assumes "cache_inv c0" "resolve k g c0 = (Started t, c1)"
  shows "vc_store (snd (finish_load t loaded f (fold call qs' (invalidate (fold call qs c1))))) =
      vc_store (snd (refresh k f (fold call qs' (invalidate (fold call qs c1))))) \<and>
    ((\<forall>q \<in> set qs'. \<not> disturbs t q) \<longrightarrow>
      vc_store (snd (finish_load t loaded f (fold call qs' (cache_set k v c1)))) =
      vc_store (snd (refresh k f (fold call qs' (cache_set k v c1)))))"
proof -
  have t: "lt_key t = k" "lt_epoch t = vc_epoch c1" "lt_version t = version_of k c0" "vc_pending c1 k = Some (lt_id t)"
    "version_of k c1 = version_of k c0"
    using assms(2) by (auto simp: resolve_def startLoad_def split: if_splits prod.splits option.splits)
  have "vc_epoch c1 < vc_epoch (invalidate (fold call qs c1))"
    using run_epoch [of c1 qs] by (simp add: invalidate_def)
  then have "lt_epoch t < vc_epoch (fold call qs' (invalidate (fold call qs c1)))"
    using run_epoch [of "invalidate (fold call qs c1)" qs'] t(2) by simp
  moreover have "overtaken t (cache_set k v c1)"
    using t by (simp add: overtaken_def cache_set_def version_of_write version_of_bump)
  ultimately show ?thesis
    using finish_stale [of t "fold call qs' (invalidate (fold call qs c1))" loaded f]
      finish_stale [of t "fold call qs' (cache_set k v c1)" loaded f] overtaken_run [of t "cache_set k v c1" qs'] t(1)
    by (auto simp: overtaken_def is_stale_def)
qed

theorem overtaken_load_is_not_cached_witness:
  "vc_store (snd (finish_load \<lparr>lt_key = ''x'', lt_id = 0, lt_epoch = 0, lt_version = 0\<rparr> (Some ''old'') Some
     (invalidate (snd (resolve ''x'' Some sample_cache))))) =
   vc_store (snd (refresh ''x'' Some (invalidate (snd (resolve ''x'' Some sample_cache)))))"
proof -
  have st: "vc_store sample_cache = [(''a'', ''1''), (''b'', ''2'')]" "vc_pending sample_cache = Map.empty" "vc_next sample_cache = 0"
    "vc_epoch sample_cache = 0" "vc_versions sample_cache ''x'' = None"
    by (simp_all add: sample_cache_def cache_set_def bump_def write_value_def store_delete_def Let_def empty_cache_def evictOverflow.simps)
  then have "resolve ''x'' Some sample_cache =
      (Started \<lparr>lt_key = ''x'', lt_id = 0, lt_epoch = 0, lt_version = 0\<rparr>, snd (resolve ''x'' Some sample_cache))"
    by (simp add: resolve_def store_has_def startLoad_def version_of_def)
  from overtaken_load_is_not_cached [OF sample_cache_inv this, where qs = "[]" and qs' = "[]" and loaded = "Some ''old''" and f = Some]
  show ?thesis by simp
qed

text \<open>C36: A deletion does not have this effect: it drops the key's version together with the pending
  load, so a load that was in flight when its key was deleted still finds the version it started
  with and caches the value it read before the deletion.\<close>

theorem deleted_key_is_recached_by_stale_load:
  assumes "cache_inv c0" "vc_versions c0 k = None" "resolve k g c0 = (Started t, c1)" "norm_v v = Some v"
  shows "map_of (vc_store (snd (finish_load t (Some v) norm_v (cache_delete k c1)))) k = Some v"
proof -
  have t: "lt_key t = k" "lt_epoch t = vc_epoch c0" "lt_version t = 0"
    and c1: "c1 = c0\<lparr>vc_pending := (vc_pending c0)(k \<mapsto> vc_next c0), vc_next := vc_next c0 + 1\<rparr>"
    using assms(2,3) by (auto simp: resolve_def startLoad_def version_of_def split: if_splits prod.splits option.splits)
  have inv: "cache_inv c1" using resolve_inv [OF assms(1), of k g] assms(3) by simp
  let ?d = "cache_delete k c1"
  have d: "cache_inv ?d" using call_inv [OF inv, of "Delete_call k"] by simp
  have e: "vc_epoch ?d = vc_epoch c0" "version_of k ?d = 0" "\<not> store_has k ?d"
    using c1 by (auto simp: cache_delete_def Let_def clearVersionIfIdle_def store_has_def version_of_def)
  have w: "map_of (vc_store (write_value k v ?d)) k = Some v"
  proof -
    have inv': "cache_inv (write_value k v ?d)" by (intro write_value_inv pre_inv_self d)
    have "(k, v) \<in> set (vc_store (write_value k v ?d))"
      using d write_value_store [of ?d k v] by (auto simp: cache_inv_def drop_append)
    with inv' show ?thesis unfolding cache_inv_def by (blast intro: map_of_is_SomeI)
  qed
  have "finishLoad t (Some v) norm_v ?d = (Some v, write_value k v ?d)"
    using e t assms(4) by (simp add: finishLoad_def Let_def)
  with w show ?thesis by (simp add: finish_load_def finishPending_def Let_def)
qed

theorem deleted_key_is_recached_by_stale_load_witness:
  "map_of (vc_store (snd (finish_load \<lparr>lt_key = ''x'', lt_id = 0, lt_epoch = 0, lt_version = 0\<rparr> (Some ''old'') Some
     (cache_delete ''x'' (snd (resolve ''x'' Some (empty_cache 2))))))) ''x'' = Some ''old''"
proof -
  have "resolve ''x'' Some (empty_cache 2 :: string vcache) =
      (Started \<lparr>lt_key = ''x'', lt_id = 0, lt_epoch = 0, lt_version = 0\<rparr>, snd (resolve ''x'' Some (empty_cache 2)))"
    by (simp add: resolve_def store_has_def startLoad_def version_of_def empty_cache_def)
  from deleted_key_is_recached_by_stale_load [OF empty_cache_inv _ this, of Some "''old''"] show ?thesis
    by (simp add: empty_cache_def)
qed

end
