(* ===== verification/UtcInstants.thy ===== *)
theory UtcInstants
  imports Prelude
begin

text \<open>
  UTC instants as the protocol compares them: \<^verbatim>\<open>utcInstantOrderKey\<close> and
  \<^verbatim>\<open>compareUtcInstants\<close> of \<^verbatim>\<open>protocol/src/shared/schema-primitives.ts\<close>, and the validity
  classification of \<^verbatim>\<open>recall/field-contract/query-condition.ts\<close> built on them. The verdict of
  the schema library's \<^verbatim>\<open>datetime()\<close> check is a parameter (\<open>zod\<close>); what the order relies on is
  the documented shape of the strings it accepts, stated as \<open>zod_documented\<close>. The result is that
  comparing the keys as strings is comparing the instants, to every fractional digit.
\<close>

section \<open>Strings the sources take apart\<close>

definition is_digit :: "char \<Rightarrow> bool" where
  "is_digit c \<longleftrightarrow> 48 \<le> (of_char c :: nat) \<and> (of_char c :: nat) \<le> 57"

definition digit_value :: "char \<Rightarrow> nat" where
  "digit_value c = of_char c - 48"

text \<open>\<^verbatim>\<open>s.split(c)\<close> for a one-character separator.\<close>

fun js_split :: "char \<Rightarrow> string \<Rightarrow> string list" where
  "js_split c [] = [[]]"
| "js_split c (x # xs) =
     (if x = c then [] # js_split c xs
      else (case js_split c xs of [] \<Rightarrow> [[x]] | p # ps \<Rightarrow> (x # p) # ps))"

text \<open>\<^verbatim>\<open>s.replace(/0+$/u, "")\<close>.\<close>

definition drop_trailing_zeros :: "string \<Rightarrow> string" where
  "drop_trailing_zeros s = rev (dropWhile (\<lambda>c. c = CHR ''0'') (rev s))"

text \<open>A fixed template of digits and literal characters: \<^verbatim>\<open>None\<close> stands for a digit.\<close>

fun matches_template :: "char option list \<Rightarrow> string \<Rightarrow> bool" where
  "matches_template [] s \<longleftrightarrow> s = []"
| "matches_template (t # ts) [] \<longleftrightarrow> False"
| "matches_template (t # ts) (c # cs) \<longleftrightarrow>
     (case t of None \<Rightarrow> is_digit c | Some d \<Rightarrow> c = d) \<and> matches_template ts cs"

definition date_hour_minute :: "char option list" where
  "date_hour_minute =
     replicate 4 None @ [Some CHR ''-''] @ replicate 2 None @ [Some CHR ''-''] @ replicate 2 None
     @ [Some CHR ''T''] @ replicate 2 None @ [Some CHR '':''] @ replicate 2 None"

definition minute_precision_utc :: "string \<Rightarrow> bool" where
  "minute_precision_utc s \<longleftrightarrow> matches_template (date_hour_minute @ [Some CHR ''Z'']) s"

section \<open>The order key\<close>

definition DatetimeString :: "(string \<Rightarrow> bool) \<Rightarrow> string \<Rightarrow> bool" where
  "DatetimeString zod s \<longleftrightarrow> 1 \<le> length s \<and> length s \<le> 64 \<and> zod s"

definition IsoDatetimeString :: "(string \<Rightarrow> bool) \<Rightarrow> string \<Rightarrow> bool" where
  "IsoDatetimeString zod s \<longleftrightarrow>
     DatetimeString zod s \<or> (minute_precision_utc s \<and> DatetimeString zod (butlast s @ '':00Z''))"

definition normalized_instant :: "string \<Rightarrow> string" where
  "normalized_instant s = (if minute_precision_utc s then butlast s @ '':00Z'' else s)"

definition utcInstantOrderKey :: "(string \<Rightarrow> bool) \<Rightarrow> string \<Rightarrow> string option" where
  "utcInstantOrderKey zod s =
     (if \<not> IsoDatetimeString zod s then None
      else let parts = js_split CHR ''.'' (butlast (normalized_instant s));
               whole = hd parts;
               fraction = (if 1 < length parts then parts ! 1 else [])
           in Some (whole @ ''.'' @ drop_trailing_zeros fraction))"

definition compareUtcInstants :: "(string \<Rightarrow> bool) \<Rightarrow> string \<Rightarrow> string \<Rightarrow> int option" where
  "compareUtcInstants zod left right =
     (case (utcInstantOrderKey zod left, utcInstantOrderKey zod right) of
        (Some l, Some r) \<Rightarrow> Some (if l = r then 0 else if l < r then -1 else 1)
      | _ \<Rightarrow> None)"

text \<open>Sorting by UTF-16 code units, the order of every canonical list of the protocol.\<close>

definition compareCodeUnits :: "string \<Rightarrow> string \<Rightarrow> int" where
  "compareCodeUnits left right = (if left = right then 0 else if left < right then -1 else 1)"

definition sortedText :: "string list \<Rightarrow> string list" where
  "sortedText values = js_sort compareCodeUnits values"

section \<open>Validity windows of the recall field\<close>

datatype field_valid_time_class = HardActive | SoftRecallable | Inactive

definition classifyFieldValidTime ::
  "(string \<Rightarrow> bool) \<Rightarrow> string option \<Rightarrow> string option \<Rightarrow> string \<Rightarrow> field_valid_time_class" where
  "classifyFieldValidTime zod valid_from valid_to asOf =
     (case valid_from of
        None \<Rightarrow> SoftRecallable
      | Some f \<Rightarrow>
          (case compareUtcInstants zod f asOf of
             None \<Rightarrow> Inactive
           | Some fromOrder \<Rightarrow>
               if fromOrder > 0 then Inactive
               else (case valid_to of
                       None \<Rightarrow> HardActive
                     | Some t \<Rightarrow>
                         (case compareUtcInstants zod asOf t of
                            None \<Rightarrow> Inactive
                          | Some toOrder \<Rightarrow> if toOrder \<ge> 0 then Inactive else HardActive))))"

section \<open>The instants the strings denote\<close>

text \<open>
  The strings \<^verbatim>\<open>datetime()\<close> is documented to accept: a calendar date and a time of day to the
  second, an optional nonempty fraction of any length, and \<^verbatim>\<open>Z\<close>.
\<close>

definition whole_second :: "string \<Rightarrow> bool" where
  "whole_second s \<longleftrightarrow> matches_template (date_hour_minute @ [Some CHR '':'', None, None]) s"

definition utc_shape :: "string \<Rightarrow> bool" where
  "utc_shape s \<longleftrightarrow>
     (\<exists>w. whole_second w \<and> s = w @ ''Z'')
     \<or> (\<exists>w f. whole_second w \<and> f \<noteq> [] \<and> list_all is_digit f \<and> s = w @ ''.'' @ f @ ''Z'')"

definition zod_documented :: "(string \<Rightarrow> bool) \<Rightarrow> bool" where
  "zod_documented zod \<longleftrightarrow> (\<forall>s. zod s \<longrightarrow> utc_shape s)"

text \<open>The part of a second a digit string denotes.\<close>

fun fraction_value :: "string \<Rightarrow> rat" where
  "fraction_value [] = 0"
| "fraction_value (d # ds) = (of_nat (digit_value d) + fraction_value ds) / 10"

text \<open>
  The instant of an accepted string: the fixed-width date and time to the second, whose string
  order is the calendar order, and the fraction of the second as a number.
\<close>

definition instant_whole :: "string \<Rightarrow> string" where
  "instant_whole s = take 19 (normalized_instant s)"

definition instant_fraction :: "string \<Rightarrow> rat" where
  "instant_fraction s = fraction_value (butlast (drop 20 (normalized_instant s)))"

definition earlier :: "string \<Rightarrow> string \<Rightarrow> bool" where
  "earlier a b \<longleftrightarrow>
     instant_whole a < instant_whole b
     \<or> (instant_whole a = instant_whole b \<and> instant_fraction a < instant_fraction b)"

definition simultaneous :: "string \<Rightarrow> string \<Rightarrow> bool" where
  "simultaneous a b \<longleftrightarrow> instant_whole a = instant_whole b \<and> instant_fraction a = instant_fraction b"

section \<open>Facts on the pieces\<close>

lemma js_split_no_sep: "c \<notin> set s \<Longrightarrow> js_split c s = [s]"
  by (induction s) auto

lemma js_split_at: "c \<notin> set a \<Longrightarrow> js_split c (a @ c # b) = a # js_split c b"
  by (induction a) auto

lemma matches_template_length: "matches_template ts s \<Longrightarrow> length s = length ts"
  by (induction ts s rule: matches_template.induct) auto

lemma matches_template_chars:
  "matches_template ts s \<Longrightarrow> c \<in> set s \<Longrightarrow> is_digit c \<or> Some c \<in> set ts"
  by (induction ts s rule: matches_template.induct) (auto split: option.splits)

lemma matches_template_append:
  "matches_template (ts @ us) s \<longleftrightarrow>
     matches_template ts (take (length ts) s) \<and> matches_template us (drop (length ts) s)"
  by (induction ts s rule: matches_template.induct) (auto split: option.splits)

lemma date_hour_minute_length [simp]: "length date_hour_minute = 16"
  by (simp add: date_hour_minute_def)

lemma dot_not_digit [simp]: "\<not> is_digit CHR ''.''"
  by (simp add: is_digit_def)

lemma whole_second_length: "whole_second w \<Longrightarrow> length w = 19"
  using matches_template_length by (auto simp: whole_second_def)

lemma whole_second_no_dot: "whole_second w \<Longrightarrow> CHR ''.'' \<notin> set w"
  using matches_template_chars [of "date_hour_minute @ [Some CHR '':'', None, None]" w "CHR ''.''"]
  by (auto simp: whole_second_def date_hour_minute_def)

lemma less_append_same_length:
  fixes u v :: string
  shows "length u = length v \<Longrightarrow> u @ a < v @ b \<longleftrightarrow> u < v \<or> (u = v \<and> a < b)"
  by (induction u v rule: list_induct2) auto

lemma fraction_value_nonneg: "0 \<le> fraction_value ds"
  by (induction ds) auto

lemma is_digit_value: "is_digit c \<Longrightarrow> digit_value c \<le> 9"
  by (auto simp: is_digit_def digit_value_def)

lemma fraction_value_less_1: "list_all is_digit ds \<Longrightarrow> fraction_value ds < 1"
proof (induction ds)
  case (Cons d ds)
  then have "of_nat (digit_value d) \<le> (of_nat 9 :: rat)" and "fraction_value ds < 1"
    using is_digit_value [of d] of_nat_mono by (auto simp del: of_nat_numeral)
  then show ?case by simp
qed simp

lemma digit_value_less: "is_digit c \<Longrightarrow> is_digit d \<Longrightarrow> c < d \<longleftrightarrow> digit_value c < digit_value d"
  by (auto simp: less_char_def is_digit_def digit_value_def)

lemma digit_value_eq: "is_digit c \<Longrightarrow> is_digit d \<Longrightarrow> c = d \<longleftrightarrow> digit_value c = digit_value d"
  by (metis digit_value_less less_irrefl linorder_neqE_nat not_less_iff_gr_or_eq)

text \<open>No trailing zero: what \<open>drop_trailing_zeros\<close> leaves.\<close>

definition trimmed :: "string \<Rightarrow> bool" where
  "trimmed s \<longleftrightarrow> s = [] \<or> last s \<noteq> CHR ''0''"

lemma trimmed_drop: "trimmed (drop_trailing_zeros s)"
  by (metis (mono_tags, lifting) drop_trailing_zeros_def hd_dropWhile last_rev rev_is_Nil_conv trimmed_def)

lemma trimmed_Cons: "trimmed (d # ds) \<Longrightarrow> trimmed ds"
  by (auto simp: trimmed_def split: if_splits)

lemma fraction_value_snoc_0: "fraction_value (ds @ [CHR ''0'']) = fraction_value ds"
  by (induction ds) (auto simp: digit_value_def)

lemma fraction_value_drop: "fraction_value (drop_trailing_zeros ds) = fraction_value ds"
proof (induction ds rule: rev_induct)
  case (snoc d ds)
  then show ?case
    by (cases "d = CHR ''0''") (auto simp: drop_trailing_zeros_def fraction_value_snoc_0)
qed (simp add: drop_trailing_zeros_def)

lemma digits_drop: "list_all is_digit ds \<Longrightarrow> list_all is_digit (drop_trailing_zeros ds)"
  by (auto simp: drop_trailing_zeros_def list_all_iff dest: set_dropWhileD)

lemma fraction_value_pos:
  "list_all is_digit ds \<Longrightarrow> trimmed ds \<Longrightarrow> ds \<noteq> [] \<Longrightarrow> 0 < fraction_value ds"
proof (induction ds)
  case (Cons d ds)
  show ?case
  proof (cases "ds = []")
    case True
    with Cons.prems have "digit_value d \<noteq> 0"
      using digit_value_eq [of d "CHR ''0''"] by (auto simp: trimmed_def digit_value_def is_digit_def)
    with True show ?thesis by simp
  next
    case False
    with Cons have "0 < fraction_value ds" by (auto dest: trimmed_Cons)
    then show ?thesis by (simp add: add_nonneg_pos)
  qed
qed simp

lemma fraction_value_less:
  "list_all is_digit a \<Longrightarrow> list_all is_digit b \<Longrightarrow> trimmed a \<Longrightarrow> trimmed b \<Longrightarrow>
     a < b \<longleftrightarrow> fraction_value a < fraction_value b"
proof (induction a arbitrary: b)
  case Nil
  then show ?case using fraction_value_pos [of b] by (cases b) auto
next
  case (Cons d ds)
  show ?case
  proof (cases b)
    case Nil
    then show ?thesis using fraction_value_nonneg [of "d # ds"] by (simp add: not_less)
  next
    case (Cons e es)
    have digits: "is_digit d" "is_digit e" "list_all is_digit ds" "list_all is_digit es"
      using Cons.prems Cons by auto
    have IH: "ds < es \<longleftrightarrow> fraction_value ds < fraction_value es"
      using Cons.IH [of es] Cons.prems Cons by (auto dest: trimmed_Cons)
    have bounds: "0 \<le> fraction_value ds" "fraction_value ds < 1"
      "0 \<le> fraction_value es" "fraction_value es < 1"
      using digits by (auto intro: fraction_value_nonneg fraction_value_less_1)
    consider "digit_value d < digit_value e" | "digit_value d = digit_value e"
      | "digit_value e < digit_value d" by linarith
    then show ?thesis
    proof cases
      case 1
      then have "of_nat (digit_value d) + 1 \<le> (of_nat (digit_value e) :: rat)"
        by (metis Suc_leI add.commute of_nat_Suc of_nat_mono)
      with 1 bounds digits Cons show ?thesis by (auto simp: digit_value_less)
    next
      case 2
      with digits have "d = e" by (simp add: digit_value_eq)
      with IH Cons show ?thesis by simp
    next
      case 3
      then have "of_nat (digit_value e) + 1 \<le> (of_nat (digit_value d) :: rat)"
        by (metis Suc_leI add.commute of_nat_Suc of_nat_mono)
      with 3 bounds digits Cons show ?thesis by (auto simp: digit_value_less digit_value_eq)
    qed
  qed
qed

lemma fraction_value_eq:
  "list_all is_digit a \<Longrightarrow> list_all is_digit b \<Longrightarrow> trimmed a \<Longrightarrow> trimmed b \<Longrightarrow>
     a = b \<longleftrightarrow> fraction_value a = fraction_value b"
  by (metis fraction_value_less less_irrefl linorder_less_linear)

section \<open>The key is the instant\<close>

lemma normalized_shape:
  assumes "zod_documented zod" and "IsoDatetimeString zod s"
  shows "utc_shape (normalized_instant s)"
proof (cases "minute_precision_utc s")
  case True
  then have "length s = 17" and hm: "matches_template date_hour_minute (take 16 s)"
    by (auto simp: minute_precision_utc_def matches_template_append dest: matches_template_length)
  moreover from this have "butlast s = take 16 s" by (simp add: butlast_conv_take)
  ultimately have "whole_second (butlast s @ '':00'')"
    by (simp add: whole_second_def matches_template_append matches_template_length is_digit_def)
  with True show ?thesis
    unfolding utc_shape_def normalized_instant_def by (metis append.assoc append_Cons append_Nil)
next
  case False
  with assms show ?thesis
    by (auto simp: normalized_instant_def IsoDatetimeString_def DatetimeString_def zod_documented_def)
qed

lemma order_key_value:
  assumes "zod_documented zod" and "IsoDatetimeString zod s"
  obtains f where "utcInstantOrderKey zod s = Some (instant_whole s @ ''.'' @ f)"
    and "list_all is_digit f" and "trimmed f" and "fraction_value f = instant_fraction s"
    and "length (instant_whole s) = 19"
proof -
  from normalized_shape [OF assms] consider
      (plain) w where "whole_second w" "normalized_instant s = w @ ''Z''"
    | (frac) w f where "whole_second w" "list_all is_digit f" "normalized_instant s = w @ ''.'' @ f @ ''Z''"
    by (auto simp: utc_shape_def)
  then show thesis
  proof cases
    case plain
    then have "utcInstantOrderKey zod s = Some (w @ ''.'')" "instant_whole s = w"
      using assms(2) whole_second_length [of w] whole_second_no_dot [of w]
      by (auto simp: utcInstantOrderKey_def js_split_no_sep drop_trailing_zeros_def instant_whole_def butlast_append)
    moreover have "instant_fraction s = 0"
      using plain whole_second_length [of w] by (simp add: instant_fraction_def)
    ultimately show thesis
      using that [of "[]"] plain whole_second_length [of w] by (simp add: trimmed_def)
  next
    case frac
    have nodot: "CHR ''.'' \<notin> set f" using frac(2) by (auto simp: list_all_iff)
    with frac have "utcInstantOrderKey zod s = Some (w @ ''.'' @ drop_trailing_zeros f)"
      using assms(2) whole_second_no_dot [of w]
      by (simp add: utcInstantOrderKey_def butlast_append js_split_at js_split_no_sep)
    moreover have "instant_whole s = w" "instant_fraction s = fraction_value f"
      using frac whole_second_length [of w]
      by (auto simp: instant_whole_def instant_fraction_def)
    ultimately show thesis
      using that [of "drop_trailing_zeros f"] frac whole_second_length [of w]
      by (simp add: trimmed_drop digits_drop fraction_value_drop)
  qed
qed

lemma order_key_defined: "utcInstantOrderKey zod s \<noteq> None \<longleftrightarrow> IsoDatetimeString zod s"
  by (simp add: utcInstantOrderKey_def Let_def)

interpretation code_units: js_comparator compareCodeUnits
  by unfold_locales (auto simp: compareCodeUnits_def split: if_splits)

lemma compare_None:
  "compareUtcInstants zod l r = None \<longleftrightarrow> \<not> (IsoDatetimeString zod l \<and> IsoDatetimeString zod r)"
  using order_key_defined [of zod l] order_key_defined [of zod r]
  by (auto simp: compareUtcInstants_def split: option.splits)

lemma compare_chronological:
  assumes "zod_documented zod" and "IsoDatetimeString zod l" and "IsoDatetimeString zod r"
  shows "compareUtcInstants zod l r =
    Some (if simultaneous l r then 0 else if earlier l r then -1 else 1)"
proof -
  obtain f where f: "utcInstantOrderKey zod l = Some (instant_whole l @ ''.'' @ f)" "list_all is_digit f"
    "trimmed f" "fraction_value f = instant_fraction l" "length (instant_whole l) = 19"
    using order_key_value [OF assms(1,2)] by blast
  obtain g where g: "utcInstantOrderKey zod r = Some (instant_whole r @ ''.'' @ g)" "list_all is_digit g"
    "trimmed g" "fraction_value g = instant_fraction r" "length (instant_whole r) = 19"
    using order_key_value [OF assms(1,3)] by blast
  have "instant_whole l @ ''.'' @ f < instant_whole r @ ''.'' @ g \<longleftrightarrow> earlier l r"
    using f g by (simp add: less_append_same_length earlier_def fraction_value_less)
  moreover have "instant_whole l @ ''.'' @ f = instant_whole r @ ''.'' @ g \<longleftrightarrow> simultaneous l r"
    using f g by (simp add: simultaneous_def fraction_value_eq)
  ultimately show ?thesis
    unfolding compareUtcInstants_def f(1) g(1) by simp
qed

lemma earlier_irrefl [simp]: "\<not> earlier a a"
  by (simp add: earlier_def)

lemma earlier_trans: "earlier a b \<Longrightarrow> earlier b c \<Longrightarrow> earlier a c"
  by (auto simp: earlier_def)

lemma earlier_total: "earlier a b \<or> simultaneous a b \<or> earlier b a"
  by (auto simp: earlier_def simultaneous_def)

lemma earlier_not_simultaneous: "earlier a b \<Longrightarrow> \<not> simultaneous a b"
  by (auto simp: earlier_def simultaneous_def)

lemma earlier_asym: "earlier a b \<Longrightarrow> \<not> earlier b a"
  by (auto simp: earlier_def)

lemma simultaneous_refl [simp]: "simultaneous a a"
  by (simp add: simultaneous_def)

lemma simultaneous_sym: "simultaneous a b \<longleftrightarrow> simultaneous b a"
  by (auto simp: simultaneous_def)

text \<open>The three verdicts a caller tests for, in terms of the instants.\<close>

lemma compare_verdicts:
  assumes "zod_documented zod" and "compareUtcInstants zod l r = Some v"
  shows "v < 0 \<longleftrightarrow> earlier l r" and "v = 0 \<longleftrightarrow> simultaneous l r" and "v > 0 \<longleftrightarrow> earlier r l"
    and "v = 1 \<longleftrightarrow> earlier r l"
proof -
  have "IsoDatetimeString zod l" "IsoDatetimeString zod r"
    using assms(2) compare_None [of zod l r] by auto
  with compare_chronological [OF assms(1) this] assms(2)
  have "v = (if simultaneous l r then 0 else if earlier l r then -1 else 1)" by simp
  then show "v < 0 \<longleftrightarrow> earlier l r" and "v = 0 \<longleftrightarrow> simultaneous l r" and "v > 0 \<longleftrightarrow> earlier r l"
    and "v = 1 \<longleftrightarrow> earlier r l"
    using earlier_total [of l r] earlier_not_simultaneous [of l r] earlier_not_simultaneous [of r l]
      earlier_asym [of l r] simultaneous_sym [of l r] by auto
qed

lemma compare_flip: "compareUtcInstants zod r l = map_option uminus (compareUtcInstants zod l r)"
  by (auto simp: compareUtcInstants_def split: option.split)

lemma compare_self: "compareUtcInstants zod a a = (if IsoDatetimeString zod a then Some 0 else None)"
  using order_key_defined [of zod a] by (auto simp: compareUtcInstants_def split: option.split)

text \<open>A schema verdict that meets the documentation, for concrete instances.\<close>

definition sample_zod :: "string \<Rightarrow> bool" where
  "sample_zod s \<longleftrightarrow>
     whole_second (take 19 s)
     \<and> (drop 19 s = ''Z''
        \<or> (20 < length s \<and> s ! 19 = CHR ''.'' \<and> last s = CHR ''Z'' \<and> butlast (drop 20 s) \<noteq> []
            \<and> list_all is_digit (butlast (drop 20 s))))"

lemma sample_zod_documented: "zod_documented sample_zod"
  unfolding zod_documented_def
proof (intro allI impI)
  fix s assume s: "sample_zod s"
  show "utc_shape s"
  proof (cases "drop 19 s = ''Z''")
    case True
    with s show ?thesis
      unfolding utc_shape_def by (metis append_take_drop_id sample_zod_def)
  next
    case False
    with s have *: "whole_second (take 19 s)" "20 < length s" "s ! 19 = CHR ''.''" "last s = CHR ''Z''"
      "butlast (drop 20 s) \<noteq> []" "list_all is_digit (butlast (drop 20 s))"
      by (auto simp: sample_zod_def)
    have "drop 20 s = butlast (drop 20 s) @ ''Z''"
      using *(2,4) by (metis append_butlast_last_id drop_eq_Nil last_drop not_less)
    moreover have "s = take 19 s @ s ! 19 # drop 20 s"
      using *(2) id_take_nth_drop [of 19 s] by simp
    ultimately have "s = take 19 s @ ''.'' @ butlast (drop 20 s) @ ''Z''"
      using *(3) by simp
    with * show ?thesis unfolding utc_shape_def by blast
  qed
qed

section \<open>Properties\<close>

text \<open>C18: for strings the schema accepts, \<^verbatim>\<open>compareUtcInstants\<close> is the chronological comparison:
  0 for two spellings of one instant, -1 when the left one is earlier and 1 when it is later, with
  every digit of the fraction counted and trailing zeros or an omitted \<^verbatim>\<open>:00\<close> not counted. It gives
  no verdict exactly when one of the strings is not an accepted instant.\<close>

theorem compareUtcInstants_is_chronological:
  assumes "zod_documented zod"
  shows "compareUtcInstants zod l r =
    (if IsoDatetimeString zod l \<and> IsoDatetimeString zod r
     then Some (if simultaneous l r then 0 else if earlier l r then -1 else 1) else None)"
  using compare_chronological [OF assms] compare_None [of zod l r] by auto

theorem compareUtcInstants_is_chronological_witness:
  "compareUtcInstants sample_zod ''2024-05-01T10:00Z'' ''2024-05-01T10:00:00.000Z'' = Some 0
   \<and> compareUtcInstants sample_zod ''2024-05-01T10:00:00.1Z'' ''2024-05-01T10:00:00.12Z'' = Some (-1)"
  unfolding compareUtcInstants_is_chronological [OF sample_zod_documented] by code_simp

text \<open>a dated memory is actively valid exactly from \<^verbatim>\<open>valid_from\<close> on (inclusive) and before
  \<^verbatim>\<open>valid_to\<close> (exclusive); without a start it is only softly recallable, and a bound that is not an
  instant never makes it valid.\<close>

theorem classifyFieldValidTime_window:
  assumes "zod_documented zod"
  shows "classifyFieldValidTime zod f t asOf = HardActive \<longleftrightarrow>
    (case f of None \<Rightarrow> False
     | Some a \<Rightarrow> IsoDatetimeString zod a \<and> IsoDatetimeString zod asOf \<and> \<not> earlier asOf a)
    \<and> (case t of None \<Rightarrow> True | Some b \<Rightarrow> IsoDatetimeString zod b \<and> earlier asOf b)"
proof -
  have verdict: "compareUtcInstants zod l r =
      (if IsoDatetimeString zod l \<and> IsoDatetimeString zod r
       then Some (if simultaneous l r then 0 else if earlier l r then -1 else 1) else None)" for l r
    using compare_chronological [OF assms] compare_None [of zod l r] by auto
  have order: "simultaneous l r \<or> earlier l r \<longleftrightarrow> \<not> earlier r l" for l r
    using earlier_total [of l r] earlier_asym [of l r] earlier_not_simultaneous [of r l]
      simultaneous_sym [of l r] by blast
  show ?thesis
    using order earlier_not_simultaneous
    by (cases f; cases t) (auto simp: classifyFieldValidTime_def verdict split: if_splits)
qed

theorem classifyFieldValidTime_window_witness:
  "classifyFieldValidTime sample_zod (Some ''2024-05-01T10:00Z'') (Some ''2024-05-01T10:00:01Z'')
     ''2024-05-01T10:00:00.999Z'' = HardActive"
  unfolding classifyFieldValidTime_window [OF sample_zod_documented] by code_simp

end
