(* ===== verification/CoreShared.thy ===== *)
theory CoreShared
  imports UtcInstants
begin

text \<open>
  What the services of the core package share: errors with a code, \<^verbatim>\<open>core/src/shared/validators.ts\<close>
  and \<^verbatim>\<open>core/src/shared/time.ts\<close>, and the same checks of the storage package
  (\<^verbatim>\<open>storage/src/repos/shared/validators.ts\<close>). A thrown \<^verbatim>\<open>CoreError\<close> or \<^verbatim>\<open>StorageError\<close> is its
  code and message in one string. The host's date parser is a parameter, because JavaScript leaves
  it to the implementation outside the ISO format.
\<close>

definition coded_error :: "string \<Rightarrow> string \<Rightarrow> string" where
  "coded_error code message = code @ '': '' @ message"

section \<open>Trimming\<close>

text \<open>The white space and line terminators of \<^verbatim>\<open>String.prototype.trim\<close> among the modelled characters.\<close>

definition js_space :: "char \<Rightarrow> bool" where
  "js_space c \<longleftrightarrow> (of_char c :: nat) \<in> {9, 10, 11, 12, 13, 32, 160}"

definition js_trim :: "string \<Rightarrow> string" where
  "js_trim s = rev (dropWhile js_space (rev (dropWhile js_space s)))"

lemma js_trim_Nil [simp]: "js_trim [] = []"
  by (simp add: js_trim_def)

lemma js_trim_no_edges:
  "js_trim s \<noteq> [] \<Longrightarrow> \<not> js_space (hd (js_trim s)) \<and> \<not> js_space (last (js_trim s))"
proof -
  assume ne: "js_trim s \<noteq> []"
  define t where "t = dropWhile js_space s"
  have u: "js_trim s = rev (dropWhile js_space (rev t))" by (simp add: js_trim_def t_def)
  with ne have "\<not> js_space (hd (dropWhile js_space (rev t)))" by (metis hd_dropWhile rev_is_Nil_conv)
  with u ne have last: "\<not> js_space (last (js_trim s))" by (simp add: last_rev)
  obtain w where w: "rev t = w @ dropWhile js_space (rev t)"
    by (metis takeWhile_dropWhile_id)
  then have "t = js_trim s @ rev w" by (metis rev_append rev_rev_ident u)
  with ne have "hd t = hd (js_trim s)" "t \<noteq> []" by (metis hd_append2, auto)
  with last show ?thesis using hd_dropWhile [of js_space s] by (simp add: t_def)
qed

lemma js_trim_id: "s \<noteq> [] \<Longrightarrow> \<not> js_space (hd s) \<Longrightarrow> \<not> js_space (last s) \<Longrightarrow> js_trim s = s"
proof -
  assume "s \<noteq> []" "\<not> js_space (hd s)" "\<not> js_space (last s)"
  moreover from this have "dropWhile js_space s = s" by (cases s) auto
  moreover from calculation have "dropWhile js_space (rev s) = rev s"
    by (cases "rev s") (auto simp: last_rev)
  ultimately show ?thesis by (simp add: js_trim_def)
qed

lemma js_trim_idem [simp]: "js_trim (js_trim s) = js_trim s"
  using js_trim_no_edges [of s] js_trim_id [of "js_trim s"] by (cases "js_trim s = []") auto

section \<open>Validators\<close>

definition normalizeOptionalNonEmptyString :: "string option \<Rightarrow> string option" where
  "normalizeOptionalNonEmptyString value =
     (let trimmed = (case value of None \<Rightarrow> [] | Some v \<Rightarrow> js_trim v)
      in if trimmed = [] then None else Some trimmed)"

definition parseObjectId :: "string \<Rightarrow> string \<Rightarrow> string + string" where
  "parseObjectId value ctx =
     (if js_trim value = [] then Inl (coded_error ''VALIDATION'' (ctx @ '' is required'')) else Inr value)"

definition parseNonEmptyString :: "string \<Rightarrow> string \<Rightarrow> string + string" where
  "parseNonEmptyString value field =
     (if js_trim value = [] then Inl (coded_error ''VALIDATION'' (field @ '' is required'')) else Inr value)"

definition storage_parseNonEmptyString :: "string \<Rightarrow> string \<Rightarrow> string + string" where
  "storage_parseNonEmptyString value field =
     (if js_trim value = [] then Inl (coded_error ''VALIDATION_FAILED'' (''Failed to validate '' @ field @ ''.''))
      else Inr value)"

definition parseNullableString :: "string option \<Rightarrow> string \<Rightarrow> string + string option" where
  "parseNullableString value field =
     (case value of None \<Rightarrow> Inr None
      | Some v \<Rightarrow> (case storage_parseNonEmptyString v field of Inl e \<Rightarrow> Inl e | Inr x \<Rightarrow> Inr (Some x)))"

definition parseTimestamp :: "string \<Rightarrow> string + string" where
  "parseTimestamp value = storage_parseNonEmptyString value ''timestamp''"

text \<open>\<^verbatim>\<open>BoundedString(max)\<close>, and \<^verbatim>\<open>NonEmptyStringSchema\<close> with its limit.\<close>

definition BoundedString :: "nat \<Rightarrow> string \<Rightarrow> bool" where
  "BoundedString limit s \<longleftrightarrow> 1 \<le> length s \<and> length s \<le> limit"

abbreviation NonEmptyString :: "string \<Rightarrow> bool" where
  "NonEmptyString \<equiv> BoundedString 65536"

abbreviation BoundedId :: "string \<Rightarrow> bool" where
  "BoundedId \<equiv> BoundedString 256"

abbreviation BoundedLabel :: "string \<Rightarrow> bool" where
  "BoundedLabel \<equiv> BoundedString 1024"

abbreviation BoundedReason :: "string \<Rightarrow> bool" where
  "BoundedReason \<equiv> BoundedString 16384"

definition nullable :: "('a \<Rightarrow> bool) \<Rightarrow> 'a option \<Rightarrow> bool" where
  "nullable p v \<longleftrightarrow> (case v of None \<Rightarrow> True | Some x \<Rightarrow> p x)"

section \<open>Clocks\<close>

record date_api =
  date_parse :: "string \<Rightarrow> int option"
  to_iso_string :: "int \<Rightarrow> string"

text \<open>\<^verbatim>\<open>new Date(epoch).toISOString()\<close> throws outside the 100 million days of ECMAScript time.\<close>

definition iso_of_epoch :: "date_api \<Rightarrow> int \<Rightarrow> string + string" where
  "iso_of_epoch api epoch =
     (if \<bar>epoch\<bar> \<le> 8640000000000000 then Inr (to_iso_string api epoch) else Inl ''Invalid time value'')"

definition ensureIsoDatetime :: "date_api \<Rightarrow> string \<Rightarrow> string \<Rightarrow> string + string" where
  "ensureIsoDatetime api value fieldName =
     (case date_parse api value of
        None \<Rightarrow> Inl (coded_error ''VALIDATION'' (fieldName @ '' must return a valid ISO timestamp''))
      | Some epoch \<Rightarrow> iso_of_epoch api epoch)"

definition readNow :: "date_api \<Rightarrow> string option \<Rightarrow> string \<Rightarrow> string \<Rightarrow> string + string" where
  "readNow api now systemNow fieldName =
     ensureIsoDatetime api (case now of None \<Rightarrow> systemNow | Some n \<Rightarrow> n) fieldName"

definition readClockSnapshot :: "date_api \<Rightarrow> string option \<Rightarrow> string \<Rightarrow> string \<Rightarrow> string + string \<times> int option" where
  "readClockSnapshot api now systemNow fieldName =
     (case readNow api now systemNow fieldName of
        Inl e \<Rightarrow> Inl e
      | Inr instant \<Rightarrow> Inr (instant, date_parse api instant))"

definition addDuration :: "date_api \<Rightarrow> string \<Rightarrow> int \<Rightarrow> string + string" where
  "addDuration api instant durationMs =
     (case date_parse api instant of
        None \<Rightarrow> Inl (coded_error ''VALIDATION'' ''now must return a valid ISO timestamp'')
      | Some epoch \<Rightarrow> iso_of_epoch api (epoch + durationMs))"

definition isExpired :: "(string \<Rightarrow> bool) \<Rightarrow> string option \<Rightarrow> string \<Rightarrow> string + bool" where
  "isExpired zod expiresAt referenceTime =
     (case expiresAt of
        None \<Rightarrow> Inr False
      | Some e \<Rightarrow>
          (case compareUtcInstants zod referenceTime referenceTime of
             None \<Rightarrow> Inl (coded_error ''VALIDATION'' ''referenceTime must be a valid ISO timestamp'')
           | Some _ \<Rightarrow>
               (case compareUtcInstants zod e referenceTime of
                  None \<Rightarrow> Inr True
                | Some order \<Rightarrow> Inr (order \<noteq> 1))))"

lemma BoundedString_take: "js_trim s \<noteq> [] \<Longrightarrow> 0 < n \<Longrightarrow> BoundedString n (take n (js_trim s))"
  by (cases "js_trim s") (auto simp: BoundedString_def min_def Suc_le_eq)

text \<open>the clock's verdict on an expiry: with a valid reference clock, something has expired
  exactly when it carries an expiry that is not later than the reference, or one that cannot be
  read as an instant; without an expiry it never expires, and a broken reference clock is an error
  rather than a verdict.\<close>

theorem isExpired_verdict:
  assumes "zod_documented zod"
  shows "isExpired zod expiresAt now =
    (case expiresAt of
       None \<Rightarrow> Inr False
     | Some e \<Rightarrow> if IsoDatetimeString zod now
                 then Inr (\<not> IsoDatetimeString zod e \<or> \<not> earlier now e)
                 else Inl ''VALIDATION: referenceTime must be a valid ISO timestamp'')"
proof (cases expiresAt)
  case (Some e)
  then show ?thesis
    using compare_None [of zod e now] compare_verdicts(4) [OF assms, of e now]
    by (auto simp: isExpired_def compare_self coded_error_def split: option.split)
qed (simp add: isExpired_def)

theorem isExpired_verdict_witness:
  "isExpired sample_zod (Some ''2024-05-01T10:00:00.000Z'') ''2024-05-01T10:00Z'' = Inr True
   \<and> isExpired sample_zod (Some ''2024-05-01T10:00:00.001Z'') ''2024-05-01T10:00Z'' = Inr False"
  unfolding isExpired_verdict [OF sample_zod_documented] by code_simp

end
