(* ===== verification/EventLog.thy ===== *)
theory EventLog
  imports CoreShared JsonValue
begin

text \<open>
  The event log of the storage package: the append of \<^verbatim>\<open>repos/runtime/event-log-repo.ts\<close> with the
  revision it assigns (\<^verbatim>\<open>event-log/writes/event-log-append.ts\<close>), the synchronous transaction of
  \<^verbatim>\<open>event-log/writes/synchronous-transaction.ts\<close>, and the entry schema of
  \<^verbatim>\<open>protocol/src/events/event-log.ts\<close>. A database is the log together with the other tables
  (\<open>'d\<close>); a transaction that throws restores both. The identifiers and the clock the host draws are
  the sequences \<open>le_uuid\<close> and \<open>le_now\<close>, indexed by a counter that no rollback resets.
\<close>

record event_input =
  event_type :: string
  entity_type :: string
  entity_id :: string
  workspace_id :: string
  run_id :: "string option"
  caused_by :: "string option"
  payload_json :: json_object

record event_entry = event_input +
  event_id :: string
  revision :: nat
  created_at :: string

record log_env =
  le_uuid :: "nat \<Rightarrow> string"
  le_now :: "nat \<Rightarrow> string"
  le_event_type :: "string \<Rightarrow> bool"
  le_zod :: "string \<Rightarrow> bool"

record 'd store =
  events :: "event_entry list"
  tables :: 'd
  draws :: nat

text \<open>What a callback returns: a plain value, or a promise (any object with a \<^verbatim>\<open>then\<close> method).\<close>

datatype 'a callback_result = Sync 'a | Promised

definition EVENT_LOG_PAYLOAD_MAX_CHARS :: nat where
  "EVENT_LOG_PAYLOAD_MAX_CHARS = 8 * 1024 * 1024"

definition EventLogEntry_ok :: "log_env \<Rightarrow> event_entry \<Rightarrow> bool" where
  "EventLogEntry_ok env e \<longleftrightarrow>
     BoundedId (event_id e) \<and> le_event_type env (event_type e) \<and> BoundedLabel (entity_type e)
     \<and> BoundedId (entity_id e) \<and> BoundedId (workspace_id e) \<and> nullable BoundedId (run_id e)
     \<and> nullable BoundedId (caused_by e)
     \<and> length (json_stringify (JObject (payload_json e))) \<le> EVENT_LOG_PAYLOAD_MAX_CHARS
     \<and> IsoDatetimeString (le_zod env) (created_at e)"

definition parseEventLogEntry :: "log_env \<Rightarrow> event_entry \<Rightarrow> string + event_entry" where
  "parseEventLogEntry env e =
     (if EventLogEntry_ok env e then Inr e
      else Inl (coded_error ''VALIDATION_FAILED'' ''Failed to validate event log entry.''))"

definition same_entity :: "string \<Rightarrow> string \<Rightarrow> event_entry \<Rightarrow> bool" where
  "same_entity etype eid e \<longleftrightarrow> entity_type e = etype \<and> entity_id e = eid"

text \<open>\<^verbatim>\<open>SELECT MAX(revision)\<close> over the entity's rows, \<^verbatim>\<open>?? -1\<close>, plus one.\<close>

definition computeNextRevision :: "event_entry list \<Rightarrow> string \<Rightarrow> string \<Rightarrow> nat" where
  "computeNextRevision es etype eid =
     fold max (map (Suc \<circ> revision) (filter (same_entity etype eid) es)) 0"

definition complete_entry :: "event_input \<Rightarrow> string \<Rightarrow> nat \<Rightarrow> string \<Rightarrow> event_entry" where
  "complete_entry ev uuid revno now =
     \<lparr> event_type = event_type ev, entity_type = entity_type ev, entity_id = entity_id ev,
       workspace_id = workspace_id ev, run_id = run_id ev, caused_by = caused_by ev,
       payload_json = payload_json ev, event_id = uuid, revision = revno, created_at = now \<rparr>"

text \<open>
  The insert is refused by the primary key \<^verbatim>\<open>event_id\<close> and by the unique index on
  \<^verbatim>\<open>(entity_type, entity_id, revision)\<close>; \<^verbatim>\<open>wrapAppendError\<close> gives the refusal its code.
\<close>

definition insert_refused :: "event_entry list \<Rightarrow> event_entry \<Rightarrow> bool" where
  "insert_refused es e \<longleftrightarrow>
     list_ex (\<lambda>x. event_id x = event_id e
       \<or> (same_entity (entity_type e) (entity_id e) x \<and> revision x = revision e)) es"

definition appendInCurrentTransaction :: "log_env \<Rightarrow> event_input \<Rightarrow> ('d store, event_entry) action" where
  "appendInCurrentTransaction env ev st =
     (let st1 = st\<lparr>draws := Suc (draws st)\<rparr>;
          revno = computeNextRevision (events st) (entity_type ev) (entity_id ev)
      in case parseEventLogEntry env (complete_entry ev (le_uuid env (draws st)) revno (le_now env (draws st))) of
           Inl err \<Rightarrow> (Inl err, st1)
         | Inr entry \<Rightarrow>
             if insert_refused (events st) entry
             then (Inl (coded_error ''QUERY_FAILED'' ''Failed to append event log entry.''), st1)
             else (Inr entry, st1\<lparr>events := events st @ [entry]\<rparr>))"

text \<open>
  A transaction: a throw, or a callback that returns a promise, restores the log and the tables. The
  two checks before the transaction are left out: the modelled callers pass plain functions, never an
  async one, and a closed write scope is only seen by asynchronous work that an earlier callback left behind.
\<close>

definition rollback :: "'d store \<Rightarrow> 'd store \<Rightarrow> 'd store" where
  "rollback before after = before\<lparr>draws := draws after\<rparr>"

definition transactional :: "('d store, 'a callback_result) action \<Rightarrow> ('d store, 'a) action" where
  "transactional fn st =
     (case fn st of
        (Inl err, st') \<Rightarrow> (Inl err, rollback st st')
      | (Inr Promised, st') \<Rightarrow>
          (Inl (coded_error ''VALIDATION_FAILED'' ''EventLog transaction callbacks must not return a Promise.''),
           rollback st st')
      | (Inr (Sync v), st') \<Rightarrow> (Inr v, st'))"

text \<open>An append outside a transaction runs in one of its own.\<close>

definition append_event :: "log_env \<Rightarrow> event_input \<Rightarrow> ('d store, event_entry) action" where
  "append_event env ev =
     transactional (and_then (appendInCurrentTransaction env ev) (\<lambda>entry. ret (Sync entry)))"

definition deleteById :: "string \<Rightarrow> ('d store, unit) action" where
  "deleteById eventId st = (Inr (), st\<lparr>events := filter (\<lambda>e. event_id e \<noteq> eventId) (events st)\<rparr>)"

section \<open>Facts\<close>

text \<open>Every row is a valid entry, identifiers are unique, and an entity's revisions rise along the log.\<close>

definition log_inv :: "log_env \<Rightarrow> event_entry list \<Rightarrow> bool" where
  "log_inv env es \<longleftrightarrow>
     list_all (EventLogEntry_ok env) es \<and> distinct (map event_id es)
     \<and> sorted_wrt (\<lambda>a b. same_entity (entity_type b) (entity_id b) a \<longrightarrow> revision a < revision b) es"

lemma fold_max_ge: "(a :: nat) \<le> fold max xs a"
  by (induction xs arbitrary: a) (auto intro: order_trans [OF max.cobounded2])

lemma fold_max_mem: "x \<in> set xs \<Longrightarrow> (x :: nat) \<le> fold max xs a"
proof (induction xs arbitrary: a)
  case (Cons y ys)
  then show ?case using fold_max_ge [of "max y a" ys] by auto
qed simp

lemma next_revision_fresh:
  "e \<in> set es \<Longrightarrow> same_entity t i e \<Longrightarrow> revision e < computeNextRevision es t i"
  unfolding computeNextRevision_def
  by (rule less_le_trans [OF lessI]) (force intro: fold_max_mem)

lemma complete_entry_fields [simp]:
  "event_type (complete_entry ev u r n) = event_type ev"
  "entity_type (complete_entry ev u r n) = entity_type ev"
  "entity_id (complete_entry ev u r n) = entity_id ev"
  "workspace_id (complete_entry ev u r n) = workspace_id ev"
  "run_id (complete_entry ev u r n) = run_id ev"
  "caused_by (complete_entry ev u r n) = caused_by ev"
  "payload_json (complete_entry ev u r n) = payload_json ev"
  "event_id (complete_entry ev u r n) = u"
  "revision (complete_entry ev u r n) = r"
  "created_at (complete_entry ev u r n) = n"
  by (simp_all add: complete_entry_def)

text \<open>The unique index never fires: the computed revision is always free.\<close>

lemma insert_refused_iff:
  "insert_refused es (complete_entry ev u (computeNextRevision es (entity_type ev) (entity_id ev)) n)
     \<longleftrightarrow> u \<in> event_id ` set es"
  by (auto simp: insert_refused_def list_ex_iff dest: next_revision_fresh)

lemma append_returns:
  "appendInCurrentTransaction env ev st = (Inr entry, st') \<longleftrightarrow>
     entry = complete_entry ev (le_uuid env (draws st))
       (computeNextRevision (events st) (entity_type ev) (entity_id ev)) (le_now env (draws st))
     \<and> EventLogEntry_ok env entry \<and> le_uuid env (draws st) \<notin> event_id ` set (events st)
     \<and> st' = st\<lparr>draws := Suc (draws st), events := events st @ [entry]\<rparr>"
  by (auto simp: appendInCurrentTransaction_def Let_def parseEventLogEntry_def insert_refused_iff)

lemma append_throws:
  "appendInCurrentTransaction env ev st = (Inl err, st') \<Longrightarrow> st' = st\<lparr>draws := Suc (draws st)\<rparr>"
  by (auto simp: appendInCurrentTransaction_def Let_def split: sum.splits if_splits)

interpretation log_appender: appender "appendInCurrentTransaction env" events for env
  by unfold_locales (auto simp: append_returns dest: append_throws)

lemma append_keeps_tables: "tables (snd (appendInCurrentTransaction env ev st)) = tables st"
  by (auto simp: appendInCurrentTransaction_def Let_def split: sum.split)

lemma append_keeps_inv:
  assumes "log_inv env (events st)"
  shows "log_inv env (events (snd (appendInCurrentTransaction env ev st)))"
proof (cases "appendInCurrentTransaction env ev st")
  case (Pair r st')
  show ?thesis
  proof (cases r)
    case (Inl e)
    with Pair assms show ?thesis by (auto dest: append_throws)
  next
    case (Inr entry)
    with Pair have e: "entry = complete_entry ev (le_uuid env (draws st))
        (computeNextRevision (events st) (entity_type ev) (entity_id ev)) (le_now env (draws st))"
      "EventLogEntry_ok env entry" "le_uuid env (draws st) \<notin> event_id ` set (events st)"
      and st': "events st' = events st @ [entry]"
      by (auto simp: append_returns)
    have "revision a < revision entry"
      if "a \<in> set (events st)" "same_entity (entity_type entry) (entity_id entry) a" for a
      using that next_revision_fresh [of a "events st"] e(1) by auto
    with assms e show ?thesis
      unfolding Pair snd_conv st' log_inv_def by (auto simp: sorted_wrt_append)
  qed
qed

lemma sorted_wrt_filter': "sorted_wrt P xs \<Longrightarrow> sorted_wrt P (filter Q xs)"
  by (induction xs) auto

lemma log_inv_filter: "log_inv env es \<Longrightarrow> log_inv env (filter P es)"
  by (auto simp: log_inv_def list_all_iff sorted_wrt_filter' distinct_map_filter)

lemma transactional_Inl:
  "transactional fn st = (Inl err, st') \<Longrightarrow> events st' = events st \<and> tables st' = tables st"
  by (auto simp: transactional_def rollback_def split: prod.splits sum.splits callback_result.splits)

lemma transactional_Inr:
  "transactional fn st = (Inr v, st') \<longleftrightarrow> fn st = (Inr (Sync v), st')"
  by (auto simp: transactional_def split: prod.splits sum.splits callback_result.splits)

lemma append_event_eq:
  "append_event env ev st = (Inr entry, st') \<longleftrightarrow> appendInCurrentTransaction env ev st = (Inr entry, st')"
  by (auto simp: append_event_def transactional_Inr and_then_returns)

lemma append_event_throws:
  "append_event env ev st = (Inl err, st') \<Longrightarrow> events st' = events st \<and> tables st' = tables st"
  by (auto simp: append_event_def dest: transactional_Inl)

text \<open>Revisions of one entity name its entries: no two rows share one.\<close>

lemma log_inv_revision_inject:
  assumes "log_inv env es" "a \<in> set es" "b \<in> set es" "same_entity (entity_type b) (entity_id b) a"
    and "revision a = revision b"
  shows "a = b"
proof (rule ccontr)
  assume "a \<noteq> b"
  then obtain i j where ij: "i < length es" "j < length es" "es ! i = a" "es ! j = b" "i \<noteq> j"
    using assms(2,3) by (metis in_set_conv_nth)
  have s: "x < y \<Longrightarrow> y < length es \<Longrightarrow> same_entity (entity_type (es ! y)) (entity_id (es ! y)) (es ! x) \<Longrightarrow>
      revision (es ! x) < revision (es ! y)" for x y
    using assms(1) by (auto simp: log_inv_def sorted_wrt_iff_nth_less)
  show False
    using ij s [of i j] s [of j i] assms(4,5) by (cases "i < j") (auto simp: same_entity_def)
qed

end
