(* ===== verification/AsyncSideEffects.thy ===== *)
theory AsyncSideEffects
  imports EventLog
begin

text \<open>
  \<^verbatim>\<open>core/src/runtime/async-side-effect-auditor.ts\<close>: detached work whose failures are counted,
  the earliest of them retained, and each reported by a warning and an event-log row. The module's
  variables are the record \<open>side_effects\<close>; promises that settle are the operations
  \<open>work_succeeded\<close> and \<open>work_failed\<close>, which the host runs in any order.
\<close>

section \<open>Failure reports\<close>

datatype severity = Warning | Error_severity

record audited_side_effect =
  source :: string
  operation :: string
  subjectType :: string
  subjectId :: string
  a_workspaceId :: string
  a_runId :: "string option"
  causedBy :: "string option"
  committedEventId :: "string option"
  a_severity :: "severity option"
  warningCode :: string
  warningMessage :: string

text \<open>A thrown value: an \<^verbatim>\<open>Error\<close> with its name, message and \<^verbatim>\<open>toString()\<close>, or anything else, as \<^verbatim>\<open>String\<close> renders it.\<close>

datatype thrown = Error_object string string string | Other_value string

record side_effect_failure =
  f_source :: string
  f_operation :: string
  f_subject_type :: string
  f_subject_id :: string
  f_workspace_id :: string
  f_run_id :: "string option"
  f_committed_event_id :: "string option"
  f_severity :: severity
  f_error_name :: "string option"
  f_error_message :: string
  f_failed_at :: string

definition truncateNonEmpty :: "string \<Rightarrow> nat \<Rightarrow> string" where
  "truncateNonEmpty value maxLength =
     (let t = js_trim value
      in if t = [] then ''[empty]'' else if length t \<le> maxLength then t else take maxLength t)"

definition truncateOptional :: "string \<Rightarrow> nat \<Rightarrow> string option" where
  "truncateOptional value maxLength =
     (let t = js_trim value in if t = [] then None else Some (truncateNonEmpty t maxLength))"

definition toErrorDetails :: "thrown \<Rightarrow> string option \<times> string" where
  "toErrorDetails err =
     (case err of
        Error_object name message as_string \<Rightarrow>
          (truncateOptional name 1024,
           truncateNonEmpty (if message = [] then as_string else message) 16384)
      | Other_value as_string \<Rightarrow> (None, truncateNonEmpty as_string 16384))"

definition RuntimeSideEffectFailedPayload_ok :: "(string \<Rightarrow> bool) \<Rightarrow> side_effect_failure \<Rightarrow> bool" where
  "RuntimeSideEffectFailedPayload_ok zod p \<longleftrightarrow>
     BoundedLabel (f_source p) \<and> BoundedLabel (f_operation p) \<and> BoundedLabel (f_subject_type p)
     \<and> BoundedId (f_subject_id p) \<and> NonEmptyString (f_workspace_id p)
     \<and> nullable NonEmptyString (f_run_id p) \<and> nullable NonEmptyString (f_committed_event_id p)
     \<and> nullable BoundedLabel (f_error_name p) \<and> BoundedReason (f_error_message p)
     \<and> IsoDatetimeString zod (f_failed_at p)"

definition buildAsyncSideEffectFailurePayload ::
  "(string \<Rightarrow> bool) \<Rightarrow> string \<Rightarrow> audited_side_effect \<Rightarrow> thrown \<Rightarrow> string + side_effect_failure" where
  "buildAsyncSideEffectFailurePayload zod failed_at audit err =
     (let failure = toErrorDetails err;
          payload = \<lparr> f_source = truncateNonEmpty (source audit) 1024,
            f_operation = truncateNonEmpty (operation audit) 1024,
            f_subject_type = truncateNonEmpty (subjectType audit) 1024,
            f_subject_id = truncateNonEmpty (subjectId audit) 256,
            f_workspace_id = truncateNonEmpty (a_workspaceId audit) 65536,
            f_run_id = map_option (\<lambda>r. truncateNonEmpty r 65536) (a_runId audit),
            f_committed_event_id = map_option (\<lambda>r. truncateNonEmpty r 65536) (committedEventId audit),
            f_severity = (case a_severity audit of None \<Rightarrow> Error_severity | Some s \<Rightarrow> s),
            f_error_name = fst failure, f_error_message = snd failure, f_failed_at = failed_at \<rparr>
      in if RuntimeSideEffectFailedPayload_ok zod payload then Inr payload
         else Inl ''ZodError'')"

definition json_of_optional :: "string option \<Rightarrow> json" where
  "json_of_optional v = (case v of None \<Rightarrow> JNull | Some s \<Rightarrow> JString s)"

definition severity_name :: "severity \<Rightarrow> string" where
  "severity_name s = (case s of Warning \<Rightarrow> ''warning'' | Error_severity \<Rightarrow> ''error'')"

definition json_of_failure :: "side_effect_failure \<Rightarrow> json_object" where
  "json_of_failure p =
     [(''source'', JString (f_source p)), (''operation'', JString (f_operation p)),
      (''subject_type'', JString (f_subject_type p)), (''subject_id'', JString (f_subject_id p)),
      (''workspace_id'', JString (f_workspace_id p)), (''run_id'', json_of_optional (f_run_id p)),
      (''committed_event_id'', json_of_optional (f_committed_event_id p)),
      (''severity'', JString (severity_name (f_severity p))),
      (''error_name'', json_of_optional (f_error_name p)), (''error_message'', JString (f_error_message p)),
      (''failed_at'', JString (f_failed_at p))]"

text \<open>
  The reporting ports: the log, the notifier (its state \<open>'n\<close> is its own) and the warnings the
  process emits, each a code and its detail.
\<close>

record ('d, 'n) world =
  w_store :: "'d store"
  w_ports :: 'n
  w_warnings :: "(string \<times> string) list"

definition on_store :: "('d store, 'a) action \<Rightarrow> (('d, 'n) world, 'a) action" where
  "on_store m w = (case m (w_store w) of (r, s) \<Rightarrow> (r, w\<lparr>w_store := s\<rparr>))"

definition on_ports :: "('n, 'a) action \<Rightarrow> (('d, 'n) world, 'a) action" where
  "on_ports m w = (case m (w_ports w) of (r, p) \<Rightarrow> (r, w\<lparr>w_ports := p\<rparr>))"

definition emitWarning :: "string \<Rightarrow> string \<Rightarrow> ('d, 'n) world \<Rightarrow> ('d, 'n) world" where
  "emitWarning code detail w = w\<lparr>w_warnings := w_warnings w @ [(code, detail)]\<rparr>"

definition audit_event :: "audited_side_effect \<Rightarrow> side_effect_failure \<Rightarrow> event_input" where
  "audit_event audit failure =
     \<lparr> event_type = ''runtime.side_effect_failed'', entity_type = subjectType audit,
       entity_id = subjectId audit, workspace_id = a_workspaceId audit, run_id = a_runId audit,
       caused_by = Some (case causedBy audit of None \<Rightarrow> ''system'' | Some c \<Rightarrow> c),
       payload_json = json_of_failure failure \<rparr>"

definition append_failed_detail :: "audited_side_effect \<Rightarrow> string option \<times> string \<Rightarrow> json_object" where
  "append_failed_detail audit auditFailure =
     [(''source'', JString (source audit)), (''operation'', JString (operation audit)),
      (''subject_type'', JString (subjectType audit)), (''subject_id'', JString (subjectId audit)),
      (''workspace_id'', JString (a_workspaceId audit)), (''error_name'', json_of_optional (fst auditFailure)),
      (''error_message'', JString (snd auditFailure))]"

text \<open>
  The result is \<^verbatim>\<open>failure\<close>: the error of the audit append or of its notification, if any. A thrown
  error is known by its text here; \<open>name_of\<close> is the name of its class.
\<close>

definition reportAsyncSideEffectFailureWithOutcome ::
  "log_env \<Rightarrow> (string \<Rightarrow> string) \<Rightarrow> (event_entry \<Rightarrow> ('n, unit) action) option \<Rightarrow> bool \<Rightarrow> string
     \<Rightarrow> audited_side_effect \<Rightarrow> thrown
     \<Rightarrow> (('d, 'n) world, string option) action" where
  "reportAsyncSideEffectFailureWithOutcome env name_of notifyEntry has_log failed_at audit err =
     and_then (lift_result (buildAsyncSideEffectFailurePayload (le_zod env) failed_at audit err)) (\<lambda>failure w.
       let w1 = emitWarning (warningCode audit) (json_stringify (JObject (json_of_failure failure))) w
       in if \<not> has_log then (Inr None, w1)
          else (case and_then (on_store (append_event env (audit_event audit failure)))
                       (\<lambda>entry. case notifyEntry of None \<Rightarrow> ret () | Some n \<Rightarrow> on_ports (n entry)) w1 of
                  (Inr _, w2) \<Rightarrow> (Inr None, w2)
                | (Inl auditError, w2) \<Rightarrow>
                    (Inr (Some auditError),
                     emitWarning ''ALAYA_ASYNC_SIDE_EFFECT_AUDIT_APPEND_FAILED''
                       (json_stringify (JObject (append_failed_detail audit
                          (toErrorDetails (Error_object (name_of auditError) auditError auditError))))) w2)))"

section \<open>Tracking and draining\<close>

record work_failure =
  sequence :: nat
  wf_source :: string
  wf_operation :: string
  workError :: thrown
  reportError :: "string option"

record side_effects =
  pendingWork :: "nat list"
  nextSequence :: nat
  settledFailureCount :: nat
  retainedFailures :: "work_failure list"

definition MAX_RETAINED_ASYNC_SIDE_EFFECT_FAILURES :: nat where
  "MAX_RETAINED_ASYNC_SIDE_EFFECT_FAILURES = 16"

definition initial_side_effects :: side_effects where
  "initial_side_effects =
     \<lparr> pendingWork = [], nextSequence = 1, settledFailureCount = 0, retainedFailures = [] \<rparr>"

definition scheduleAuditedAsyncSideEffect :: "bool \<Rightarrow> side_effects \<Rightarrow> side_effects" where
  "scheduleAuditedAsyncSideEffect has_work st =
     (if \<not> has_work then st
      else st\<lparr>pendingWork := pendingWork st @ [nextSequence st], nextSequence := nextSequence st + 1\<rparr>)"

definition work_succeeded :: "nat \<Rightarrow> side_effects \<Rightarrow> side_effects" where
  "work_succeeded seq st = st\<lparr>pendingWork := filter (\<lambda>p. p \<noteq> seq) (pendingWork st)\<rparr>"

definition recordAsyncSideEffectFailure :: "work_failure \<Rightarrow> side_effects \<Rightarrow> side_effects" where
  "recordAsyncSideEffectFailure failure st =
     (let retained = js_sort (\<lambda>l r. int (sequence l) - int (sequence r)) (retainedFailures st @ [failure])
      in st\<lparr>settledFailureCount := settledFailureCount st + 1,
            retainedFailures := (if length retained > MAX_RETAINED_ASYNC_SIDE_EFFECT_FAILURES
                                 then butlast retained else retained)\<rparr>)"

definition work_failed :: "work_failure \<Rightarrow> side_effects \<Rightarrow> side_effects" where
  "work_failed failure st = work_succeeded (sequence failure) (recordAsyncSideEffectFailure failure st)"

definition consumeAsyncSideEffectFailures :: "side_effects \<Rightarrow> (nat \<times> work_failure list) \<times> side_effects" where
  "consumeAsyncSideEffectFailures st =
     ((settledFailureCount st, retainedFailures st), st\<lparr>settledFailureCount := 0, retainedFailures := []\<rparr>)"

definition asyncSideEffectDrainTimeout :: "nat \<Rightarrow> side_effects \<Rightarrow> string" where
  "asyncSideEffectDrainTimeout timeoutMs st =
     ''audited async side-effect drain timed out after '' @ js_string_of_nat timeoutMs @ ''ms with ''
     @ js_string_of_nat (length (pendingWork st)) @ '' task(s) pending''"

definition failure_detail :: "work_failure \<Rightarrow> string" where
  "failure_detail f =
     ''#'' @ js_string_of_nat (sequence f) @ '' '' @ wf_source f @ ''.'' @ wf_operation f @ '': ''
     @ snd (toErrorDetails (workError f))
     @ (case reportError f of None \<Rightarrow> [] | Some e \<Rightarrow> ''; audit report failed: '' @ truncateNonEmpty e 16384)"

definition buildAsyncSideEffectDrainError :: "string option \<Rightarrow> nat \<times> work_failure list \<Rightarrow> string" where
  "buildAsyncSideEffectDrainError waitError failures =
     (let omitted = fst failures - length (snd failures);
          details = map failure_detail (snd failures)
            @ (if omitted > 0 then [js_string_of_nat omitted @ '' additional failure(s) omitted''] else []);
          prefix = (case waitError of None \<Rightarrow> ''audited async side-effect drain failed''
                    | Some e \<Rightarrow> truncateNonEmpty e 16384)
      in if fst failures = 0 then prefix
         else prefix @ '' with '' @ js_string_of_nat (fst failures) @ '' failed task(s): '' @ js_join '' | '' details)"

text \<open>
  One epoch of a drain, once its waiting is over: either nothing is pending any more, or the wait
  ended with an error such as the time limit.
\<close>

definition finish_drain_epoch :: "string option \<Rightarrow> (side_effects, unit) action" where
  "finish_drain_epoch waitError st =
     (case consumeAsyncSideEffectFailures st of
        (failures, st') \<Rightarrow>
          if waitError \<noteq> None \<or> fst failures > 0
          then (Inl (buildAsyncSideEffectDrainError waitError failures), st')
          else (Inr (), st'))"

section \<open>Facts\<close>

lemma js_sort_by_nat: "js_sort (\<lambda>l r. int (k l) - int (k r)) xs = sort_key k xs"
proof -
  have "js_insert (\<lambda>l r. int (k l) - int (k r)) x ys = insort_key k x ys" for x ys
    by (induction ys) auto
  then show ?thesis
    unfolding js_sort_def by (induction xs) auto
qed

lemma sort_key_snoc: "k f \<notin> k ` set xs \<Longrightarrow> sort_key k (xs @ [f]) = insort_key k f (sort_key k xs)"
  by (induction xs) (auto simp: insort_key_left_comm)

lemma take_insort: "take n (insort_key k f (take n xs)) = take n (insort_key k f xs)"
  by (induction xs arbitrary: n) (auto simp: take_Cons split: nat.split)

lemma take_insort_length:
  "length xs \<le> n \<Longrightarrow> (if length (insort_key k f xs) > n then butlast (insort_key k f xs) else insort_key k f xs)
     = take n (insort_key k f xs)"
  by (cases "n = length xs") (auto simp: butlast_conv_take)

lemma retained_after:
  assumes "retainedFailures st = take 16 (sort_key sequence fs)" and "sequence f \<notin> sequence ` set fs"
  shows "retainedFailures (recordAsyncSideEffectFailure f st) = take 16 (sort_key sequence (fs @ [f]))"
proof -
  define rs where "rs = take 16 (sort_key sequence fs)"
  have "set rs \<subseteq> set fs" unfolding rs_def by (metis set_sort set_take_subset)
  with assms(2) have fresh: "sequence f \<notin> sequence ` set rs" by auto
  have sorted: "sort_key sequence rs = rs"
    unfolding rs_def by (simp add: sorted_sort_id sorted_sort_key take_map [symmetric] sorted_wrt_take sort_key_id_if_sorted)
  have "retainedFailures (recordAsyncSideEffectFailure f st) = take 16 (insort_key sequence f rs)"
    unfolding recordAsyncSideEffectFailure_def js_sort_by_nat MAX_RETAINED_ASYNC_SIDE_EFFECT_FAILURES_def
      Let_def assms(1) [folded rs_def] sort_key_snoc [OF fresh] sorted
    using take_insort_length [of rs 16 sequence f] by (simp add: rs_def)
  also have "\<dots> = take 16 (sort_key sequence (fs @ [f]))"
    unfolding rs_def using assms(2) by (simp add: take_insort sort_key_snoc)
  finally show ?thesis .
qed

lemma work_failed_fields [simp]:
  "retainedFailures (work_failed f st) = retainedFailures (recordAsyncSideEffectFailure f st)"
  "settledFailureCount (work_failed f st) = Suc (settledFailureCount st)"
  by (simp_all add: work_failed_def work_succeeded_def recordAsyncSideEffectFailure_def Let_def)

lemma BoundedString_truncate: "7 \<le> n \<Longrightarrow> BoundedString n (truncateNonEmpty s n)"
proof -
  assume "7 \<le> n"
  moreover have "js_trim s \<noteq> [] \<Longrightarrow> 1 \<le> length (js_trim s)" by (cases "js_trim s") auto
  ultimately show ?thesis
    by (auto simp: truncateNonEmpty_def BoundedString_def Let_def min_def)
qed

lemma build_failure_payload:
  assumes "IsoDatetimeString zod failed_at"
  shows "\<exists>p. buildAsyncSideEffectFailurePayload zod failed_at audit err = Inr p
    \<and> RuntimeSideEffectFailedPayload_ok zod p"
proof -
  have *: "nullable (BoundedString n) (map_option (\<lambda>r. truncateNonEmpty r n) v)" if "7 \<le> n" for v n
    using BoundedString_truncate [OF that] by (auto simp: nullable_def split: option.split)
  have "nullable BoundedLabel (fst (toErrorDetails err))" "BoundedReason (snd (toErrorDetails err))"
    using BoundedString_truncate [of 1024] BoundedString_truncate [of 16384]
    by (auto simp: toErrorDetails_def truncateOptional_def nullable_def Let_def split: thrown.split)
  then show ?thesis
    using assms BoundedString_truncate [of 1024] BoundedString_truncate [of 256]
      BoundedString_truncate [of 65536] * [of 65536]
    by (simp add: buildAsyncSideEffectFailurePayload_def RuntimeSideEffectFailedPayload_ok_def Let_def)
qed

text \<open>whatever was thrown and whatever the audited work was called, the failure report meets its
  schema, so reporting a failure does not itself fail on validation: blank texts are replaced and
  long ones cut to the schema's limits.\<close>

theorem failure_reports_are_well_formed:
  assumes "IsoDatetimeString zod failed_at"
  shows "\<exists>p. buildAsyncSideEffectFailurePayload zod failed_at audit err = Inr p
    \<and> RuntimeSideEffectFailedPayload_ok zod p"
  by (rule build_failure_payload [OF assms])

theorem failure_reports_are_well_formed_witness:
  "\<exists>p. buildAsyncSideEffectFailurePayload sample_zod ''2024-05-01T10:00:00.000Z''
      \<lparr> source = ''EventPublisher'', operation = [], subjectType = ''run'', subjectId = ''   '',
        a_workspaceId = ''w'', a_runId = Some [], causedBy = None, committedEventId = None,
        a_severity = None, warningCode = ''W'', warningMessage = ''m'' \<rparr> (Other_value []) = Inr p
    \<and> RuntimeSideEffectFailedPayload_ok sample_zod p"
  by (rule failure_reports_are_well_formed) code_simp

text \<open>in whatever order the failures of detached work settle, the retained ones are the sixteen
  that were scheduled first, in scheduling order, and the count is that of all of them.\<close>

theorem retained_failures_are_the_earliest:
  assumes "distinct (map sequence fs)"
  shows "retainedFailures (fold work_failed fs initial_side_effects) = take 16 (sort_key sequence fs)
    \<and> settledFailureCount (fold work_failed fs initial_side_effects) = length fs"
  using assms
proof (induction fs rule: rev_induct)
  case (snoc f fs)
  then show ?case
    using retained_after [of "fold work_failed fs initial_side_effects" fs f] by simp
qed (simp add: initial_side_effects_def)

definition sample_failure :: "nat \<Rightarrow> work_failure" where
  "sample_failure n = \<lparr> sequence = n, wf_source = ''s'', wf_operation = ''o'',
     workError = Other_value ''e'', reportError = None \<rparr>"

theorem retained_failures_are_the_earliest_witness:
  "retainedFailures (fold work_failed (map sample_failure (rev [1..<21])) initial_side_effects)
     = map sample_failure [1..<17]
   \<and> settledFailureCount (fold work_failed (map sample_failure (rev [1..<21])) initial_side_effects) = 20"
proof -
  have "distinct (map sequence (map sample_failure (rev [1..<21])))" by code_simp
  moreover have "take 16 (sort_key sequence (map sample_failure (rev [1..<21]))) = map sample_failure [1..<17]"
    by code_simp
  moreover have "length (map sample_failure (rev [1..<21])) = 20" by code_simp
  ultimately show ?thesis
    using retained_failures_are_the_earliest [of "map sample_failure (rev [1..<21])"] by simp
qed

end
