(* ===== verification/EventPublisher.thy ===== *)
theory EventPublisher
  imports AsyncSideEffects
begin

text \<open>
  \<^verbatim>\<open>core/src/runtime/event-publisher.ts\<close>: the owner of every write that is recorded in the event log.
  Rows and the mutation they describe are written in one transaction; in-process listeners are told
  after the commit, and their failures become audit rows instead of failures of the call. The
  run-hot-state service and the notifier are ports: parameters that may throw and keep a state of
  their own. Whether a row parses as a workspace run event is the parameter \<open>pe_run_event\<close>.
\<close>

record 'n pub_env =
  pe_log :: log_env
  pe_run_event :: "event_entry \<Rightarrow> bool"
  pe_hot_apply :: "event_entry \<Rightarrow> ('n, unit) action"
  pe_notify_entry :: "event_entry \<Rightarrow> ('n, unit) action"
  pe_name_of :: "string \<Rightarrow> string"
  pe_failed_at :: string

section \<open>Synchronous callbacks\<close>

definition SYNC_MUTATION_MESSAGE :: string where
  "SYNC_MUTATION_MESSAGE =
     ''appendManyWithMutation: mutate callback must be synchronous. ''
     @ ''Move any awaitable work outside of appendManyWithMutation.''"

definition assertSynchronousMutationResult :: "'a callback_result \<Rightarrow> ('s, 'a) action" where
  "assertSynchronousMutationResult r =
     (case r of Promised \<Rightarrow> throw SYNC_MUTATION_MESSAGE | Sync v \<Rightarrow> ret v)"

text \<open>
  Inside a transaction the log appends on the caller's connection and answers with the row itself,
  so the promise branch of \<^verbatim>\<open>appendEventLogSynchronously\<close> is never taken.
\<close>

definition appendEventLogSynchronously :: "log_env \<Rightarrow> event_input \<Rightarrow> ('d store, event_entry) action" where
  "appendEventLogSynchronously env input =
     and_then (appendInCurrentTransaction env input) (\<lambda>entry. assertSynchronousMutationResult (Sync entry))"

section \<open>Transactions\<close>

definition appendManyInTransaction ::
  "log_env \<Rightarrow> event_input list \<Rightarrow> (event_entry list \<Rightarrow> ('d store, 'a callback_result) action)
     \<Rightarrow> ('d store, event_entry list \<times> 'a) action" where
  "appendManyInTransaction env eventInputs mutate =
     (if eventInputs = [] then throw (coded_error ''CONFLICT'' ''Empty EventPublisher batches cannot mutate'')
      else transactional
        (and_then (for_each (appendEventLogSynchronously env) eventInputs) (\<lambda>collected.
         and_then (mutate collected) (\<lambda>r.
         and_then (assertSynchronousMutationResult r) (\<lambda>result. ret (Sync (collected, result)))))))"

record ('s, 'a) produced =
  p_events :: "event_input list"
  p_result :: 'a
  p_apply :: "('s, event_input list option) action option"

definition mutate_then_append ::
  "log_env \<Rightarrow> ('d store, ('d store, 'a) produced callback_result) action
     \<Rightarrow> ('d store, event_entry list \<times> 'a) action" where
  "mutate_then_append env mutate = transactional
     (and_then mutate (\<lambda>r.
      and_then (assertSynchronousMutationResult r) (\<lambda>prod.
      and_then (for_each (appendEventLogSynchronously env) (p_events prod)) (\<lambda>collected.
      and_then (case p_apply prod of
                  None \<Rightarrow> ret []
                | Some app \<Rightarrow>
                    and_then app (\<lambda>post. case post of
                        None \<Rightarrow> ret []
                      | Some inputs \<Rightarrow> for_each (appendEventLogSynchronously env) inputs)) (\<lambda>more_rows.
      ret (Sync (collected @ more_rows, p_result prod)))))))"

record ('s, 'a) decision =
  d_eventInputs :: "event_input list"
  d_apply :: "event_entry list \<Rightarrow> ('s, 'a callback_result) action"

definition decide_append_apply ::
  "log_env \<Rightarrow> ('d store, ('d store, 'a) decision callback_result) action
     \<Rightarrow> ('d store, event_entry list \<times> 'a) action" where
  "decide_append_apply env decide = transactional
     (and_then decide (\<lambda>r.
      and_then (assertSynchronousMutationResult r) (\<lambda>dec.
      and_then (for_each (appendEventLogSynchronously env) (d_eventInputs dec)) (\<lambda>entries.
      and_then (d_apply dec entries) (\<lambda>q.
      and_then (assertSynchronousMutationResult q) (\<lambda>result. ret (Sync (entries, result))))))))"

section \<open>Propagation\<close>

definition propagate :: "'n pub_env \<Rightarrow> event_entry \<Rightarrow> (('d, 'n) world, unit) action" where
  "propagate env entry =
     and_then (if pe_run_event env entry then on_ports (pe_hot_apply env entry) else ret ())
       (\<lambda>_. on_ports (pe_notify_entry env entry))"

definition propagation_error :: "event_entry \<Rightarrow> string" where
  "propagation_error entry = ''Event '' @ event_type entry @ '' was appended but propagation failed.''"

text \<open>The entries whose propagation failed, in order; a failure does not stop the loop.\<close>

primrec propagateEntries :: "'n pub_env \<Rightarrow> event_entry list \<Rightarrow> ('d, 'n) world \<Rightarrow> event_entry list \<times> ('d, 'n) world" where
  "propagateEntries env [] w = ([], w)"
| "propagateEntries env (entry # entries) w =
     (case propagate env entry w of
        (Inr _, w1) \<Rightarrow> propagateEntries env entries w1
      | (Inl _, w1) \<Rightarrow>
          (case propagateEntries env entries w1 of (failures, w2) \<Rightarrow> (entry # failures, w2)))"

definition propagation_audit :: "event_entry \<Rightarrow> audited_side_effect" where
  "propagation_audit entry =
     \<lparr> source = ''EventPublisher'', operation = ''post_commit_propagation'', subjectType = entity_type entry,
       subjectId = entity_id entry, a_workspaceId = workspace_id entry, a_runId = run_id entry,
       causedBy = caused_by entry, committedEventId = Some (event_id entry),
       a_severity = Some Warning, warningCode = ''ALAYA_EVENT_PROPAGATION_FAILED_AFTER_COMMIT'',
       warningMessage = ''[EventPublisher] Propagation failed after commit'' \<rparr>"

definition reportPostCommitPropagationFailure ::
  "'n pub_env \<Rightarrow> event_entry \<Rightarrow> (('d, 'n) world, unit) action" where
  "reportPostCommitPropagationFailure env entry =
     and_then (reportAsyncSideEffectFailureWithOutcome (pe_log env) (pe_name_of env)
       (Some (pe_notify_entry env)) True (pe_failed_at env)
       (propagation_audit entry)
       (Error_object ''EventPublisherPropagationError'' (propagation_error entry)
          (''EventPublisherPropagationError: '' @ propagation_error entry)))
       (\<lambda>_. ret ())"

definition propagateCommitted :: "'n pub_env \<Rightarrow> event_entry list \<Rightarrow> (('d, 'n) world, unit) action" where
  "propagateCommitted env entries w =
     (case propagateEntries env entries w of
        (failures, w1) \<Rightarrow>
          and_then (for_each (reportPostCommitPropagationFailure env) failures) (\<lambda>_. ret ()) w1)"

section \<open>The public operations\<close>

definition committed ::
  "'n pub_env \<Rightarrow> ('d store, event_entry list \<times> 'a) action \<Rightarrow> (('d, 'n) world, event_entry list \<times> 'a) action" where
  "committed env txn =
     and_then (on_store txn) (\<lambda>er. and_then (propagateCommitted env (fst er)) (\<lambda>_. ret er))"

definition appendManyWithMutation ::
  "'n pub_env \<Rightarrow> event_input list \<Rightarrow> (event_entry list \<Rightarrow> ('d store, 'a callback_result) action)
     \<Rightarrow> (('d, 'n) world, 'a) action" where
  "appendManyWithMutation env eventInputs mutate =
     and_then (committed env (appendManyInTransaction (pe_log env) eventInputs mutate)) (\<lambda>er. ret (snd er))"

definition mutateThenAppendMany ::
  "'n pub_env \<Rightarrow> ('d store, ('d store, 'a) produced callback_result) action
     \<Rightarrow> (('d, 'n) world, event_entry list \<times> 'a) action" where
  "mutateThenAppendMany env mutate = committed env (mutate_then_append (pe_log env) mutate)"

definition decideAppendThenApply ::
  "'n pub_env \<Rightarrow> ('d store, ('d store, 'a) decision callback_result) action \<Rightarrow> (('d, 'n) world, 'a) action" where
  "decideAppendThenApply env decide =
     and_then (committed env (decide_append_apply (pe_log env) decide)) (\<lambda>er. ret (snd er))"

text \<open>The detached variant returns with the rows committed; propagation is scheduled work per row.\<close>

definition appendManyWithMutationAndDetachPropagation ::
  "'n pub_env \<Rightarrow> event_input list \<Rightarrow> (event_entry list \<Rightarrow> ('d store, 'a callback_result) action)
     \<Rightarrow> (('d, 'n) world \<times> side_effects, 'a) action" where
  "appendManyWithMutationAndDetachPropagation env eventInputs mutate ws =
     (case appendManyInTransaction (pe_log env) eventInputs mutate (w_store (fst ws)) of
        (Inl err, s) \<Rightarrow> (Inl err, ((fst ws)\<lparr>w_store := s\<rparr>, snd ws))
      | (Inr (entries, mutateResult), s) \<Rightarrow>
          (Inr mutateResult,
           ((fst ws)\<lparr>w_store := s\<rparr>, fold (\<lambda>_. scheduleAuditedAsyncSideEffect True) entries (snd ws))))"

definition publish :: "'n pub_env \<Rightarrow> event_input \<Rightarrow> (('d, 'n) world, event_entry) action" where
  "publish env eventInput =
     and_then (on_store (append_event (pe_log env) eventInput)) (\<lambda>entry w.
       case propagateEntries env [entry] w of
         ([], w1) \<Rightarrow> (Inr entry, w1)
       | (failure # _, w1) \<Rightarrow> (Inl (propagation_error failure), w1))"

section \<open>Wiring\<close>

text \<open>
  \<^verbatim>\<open>bindEventPublisher\<close>: an existing publisher is used as it is; otherwise a log with \<^verbatim>\<open>append\<close>
  and a notifier with \<^verbatim>\<open>notifyEntry\<close> are required, and the run-hot-state service defaults to a no-op.
\<close>

definition bindEventPublisher ::
  "'p option \<Rightarrow> 'l option \<Rightarrow> 'm option \<Rightarrow> 'h option \<Rightarrow> 'h \<Rightarrow> ('l \<Rightarrow> 'm \<Rightarrow> 'h \<Rightarrow> 'p) \<Rightarrow> string \<Rightarrow> string + 'p" where
  "bindEventPublisher eventPublisher log_append notifyEntry runHotStateService no_op new_publisher purpose =
     (case eventPublisher of
        Some p \<Rightarrow> Inr p
      | None \<Rightarrow>
          (case log_append of
             None \<Rightarrow> Inl (coded_error ''CONFLICT'' (purpose @ '' requires an event publisher''))
           | Some l \<Rightarrow>
               (case notifyEntry of
                  None \<Rightarrow> Inl (coded_error ''CONFLICT'' (purpose @ '' requires a runtime notifier''))
                | Some n \<Rightarrow>
                    Inr (new_publisher l n (case runHotStateService of None \<Rightarrow> no_op | Some h \<Rightarrow> h)))))"

section \<open>Facts\<close>

lemma appendEventLogSynchronously_eq [simp]: "appendEventLogSynchronously env = appendInCurrentTransaction env"
  by (intro ext) (auto simp: appendEventLogSynchronously_def assertSynchronousMutationResult_def and_then_def
      split: prod.split sum.split)

lemma on_store_apply: "on_store m w = (fst (m (w_store w)), w\<lparr>w_store := snd (m (w_store w))\<rparr>)"
  by (simp add: on_store_def case_prod_unfold)

lemma on_ports_apply: "on_ports m w = (fst (m (w_ports w)), w\<lparr>w_ports := snd (m (w_ports w))\<rparr>)"
  by (simp add: on_ports_def case_prod_unfold)

text \<open>What the database holds: all of it but the count of identifiers drawn.\<close>

definition durable :: "'d store \<Rightarrow> event_entry list \<times> 'd" where
  "durable st = (events st, tables st)"

lemma transactional_throws: "transactional fn st = (Inl err, st') \<Longrightarrow> durable st' = durable st"
  by (auto simp: durable_def dest: transactional_Inl)

lemma sync_returns: "assertSynchronousMutationResult r s = (Inr v, s') \<longleftrightarrow> r = Sync v \<and> s' = s"
  by (auto simp: assertSynchronousMutationResult_def split: callback_result.split)

lemma appendMany_throws:
  "appendManyInTransaction env inputs mutate st = (Inl err, st') \<Longrightarrow> durable st' = durable st"
  by (auto simp: appendManyInTransaction_def split: if_splits dest: transactional_throws)

lemma appendMany_returns:
  "appendManyInTransaction env inputs mutate st = (Inr (es, a), st') \<longleftrightarrow>
     inputs \<noteq> [] \<and> (\<exists>s1. for_each (appendInCurrentTransaction env) inputs st = (Inr es, s1)
       \<and> mutate es s1 = (Inr (Sync a), st'))"
  by (auto simp: appendManyInTransaction_def transactional_Inr and_then_returns sync_returns)

lemma propagate_keeps_store: "w_store (snd (propagate env entry w)) = w_store w"
  by (auto simp: propagate_def and_then_def on_ports_apply split: sum.split)

lemma propagateEntries_keeps_store: "w_store (snd (propagateEntries env es w)) = w_store w"
proof (induction es arbitrary: w)
  case (Cons e es)
  have "w_store (snd (propagate env e w)) = w_store w" by (rule propagate_keeps_store)
  then show ?case
    using Cons by (auto simp: case_prod_unfold split: sum.split)
qed simp

text \<open>
  An audit report neither throws (the payload always meets its schema) nor touches the tables: it
  can only append rows to the log.
\<close>

definition grows :: "('d, 'n) world \<Rightarrow> ('d, 'n) world \<Rightarrow> bool" where
  "grows w w' \<longleftrightarrow> tables (w_store w') = tables (w_store w)
     \<and> (\<exists>es. events (w_store w') = events (w_store w) @ es)"

lemma grows_refl: "grows w w"
  by (simp add: grows_def)

lemma grows_trans: "grows a b \<Longrightarrow> grows b c \<Longrightarrow> grows a c"
  by (auto simp: grows_def)

lemma append_event_grows: "grows w (w\<lparr>w_store := snd (append_event env ev (w_store w))\<rparr>)"
proof (cases "append_event env ev (w_store w)")
  case (Pair r s)
  show ?thesis
  proof (cases r)
    case (Inr entry)
    with Pair have "appendInCurrentTransaction env ev (w_store w) = (Inr entry, s)"
      by (simp add: append_event_eq)
    then have "events s = events (w_store w) @ [entry]" "tables s = tables (w_store w)"
      by (simp_all add: append_returns)
    with Pair show ?thesis by (simp add: grows_def)
  qed (use Pair append_event_throws [of env ev "w_store w"] in \<open>auto simp: grows_def\<close>)
qed

lemma emitWarning_store [simp]: "w_store (emitWarning c d w) = w_store w"
  by (simp add: emitWarning_def)

lemma grows_same_store: "w_store w' = w_store w \<Longrightarrow> grows w w'"
  by (simp add: grows_def)

lemma audited_append_grows:
  "grows w (snd (and_then (on_store (append_event env ev))
     (\<lambda>entry. case notify of None \<Rightarrow> ret () | Some n \<Rightarrow> on_ports (n entry)) w))"
proof -
  define w1 where "w1 = w\<lparr>w_store := snd (append_event env ev (w_store w))\<rparr>"
  have "grows w w1" unfolding w1_def by (rule append_event_grows)
  moreover have "grows w1 (snd (case notify of None \<Rightarrow> ret () w1 | Some n \<Rightarrow> on_ports (n e) w1))" for e
    by (auto simp: on_ports_apply intro: grows_same_store grows_refl split: option.split)
  ultimately show ?thesis
    by (auto simp: and_then_def on_store_apply w1_def [symmetric] option.case_distrib [where h = "\<lambda>m. m w1"]
        split: sum.split intro: grows_trans)
qed

lemma report_outcome:
  assumes "IsoDatetimeString (le_zod env) failed_at"
  shows "\<exists>r w'. reportAsyncSideEffectFailureWithOutcome env name_of notify has_log failed_at audit err w = (Inr r, w')
    \<and> grows w w'"
proof -
  obtain p where p: "buildAsyncSideEffectFailurePayload (le_zod env) failed_at audit err = Inr p"
    using build_failure_payload [OF assms] by blast
  define w1 where "w1 = emitWarning (warningCode audit) (json_stringify (JObject (json_of_failure p))) w"
  define m where "m = and_then (on_store (append_event env (audit_event audit p)))
    (\<lambda>entry. case notify of None \<Rightarrow> ret () | Some n \<Rightarrow> on_ports (n entry)) w1"
  have "grows w w1" by (simp add: w1_def grows_same_store)
  moreover have "grows w1 (snd m)" unfolding m_def by (rule audited_append_grows)
  ultimately have "grows w (snd m)" and "grows w w1" by (auto intro: grows_trans)
  then show ?thesis
    unfolding reportAsyncSideEffectFailureWithOutcome_def p
    by (cases m; cases "fst m")
      (auto simp: and_then_def Let_def w1_def [symmetric] m_def [unfolded and_then_def, symmetric]
        simp del: json_stringify.simps intro: grows_trans [OF _ grows_same_store])
qed

lemma report_propagation_returns:
  assumes "IsoDatetimeString (le_zod (pe_log env)) (pe_failed_at env)"
  shows "\<exists>w'. reportPostCommitPropagationFailure env entry w = (Inr (), w') \<and> grows w w'"
proof -
  obtain r w' where "reportAsyncSideEffectFailureWithOutcome (pe_log env) (pe_name_of env)
      (Some (pe_notify_entry env)) True (pe_failed_at env) (propagation_audit entry)
      (Error_object ''EventPublisherPropagationError'' (propagation_error entry)
        (''EventPublisherPropagationError: '' @ propagation_error entry)) w = (Inr r, w')"
    and "grows w w'"
    using report_outcome [OF assms] by blast
  then show ?thesis by (simp add: reportPostCommitPropagationFailure_def and_then_def)
qed

lemma report_all_returns:
  assumes "IsoDatetimeString (le_zod (pe_log env)) (pe_failed_at env)"
  shows "\<exists>us w'. for_each (reportPostCommitPropagationFailure env) fs w = (Inr us, w') \<and> grows w w'"
proof (induction fs arbitrary: w)
  case (Cons f fs)
  obtain w1 where w1: "reportPostCommitPropagationFailure env f w = (Inr (), w1)" "grows w w1"
    using report_propagation_returns [OF assms] by blast
  obtain us w2 where w2: "for_each (reportPostCommitPropagationFailure env) fs w1 = (Inr us, w2)" "grows w1 w2"
    using Cons by blast
  show ?case using w1 w2 by (auto simp: and_then_def intro: grows_trans)
qed (simp add: grows_refl)

text \<open>After a commit nothing throws any more, and the tables stay as committed.\<close>

lemma propagateCommitted_returns:
  assumes "IsoDatetimeString (le_zod (pe_log env)) (pe_failed_at env)"
  shows "\<exists>w'. propagateCommitted env es w = (Inr (), w') \<and> grows w w'"
proof -
  obtain fs w1 where w1: "propagateEntries env es w = (fs, w1)" by (cases "propagateEntries env es w")
  then have "grows w w1" using propagateEntries_keeps_store [of env es w] by (simp add: grows_same_store)
  then show ?thesis
    using report_all_returns [OF assms, of fs w1]
    by (auto simp: propagateCommitted_def w1 and_then_def intro: grows_trans)
qed

lemma committed_cases:
  assumes "IsoDatetimeString (le_zod (pe_log env)) (pe_failed_at env)"
  shows "(\<exists>err s. txn (w_store w) = (Inl err, s) \<and> committed env txn w = (Inl err, w\<lparr>w_store := s\<rparr>))
    \<or> (\<exists>es a s w'. txn (w_store w) = (Inr (es, a), s) \<and> committed env txn w = (Inr (es, a), w')
        \<and> grows (w\<lparr>w_store := s\<rparr>) w')"
proof (cases "txn (w_store w)")
  case (Pair r s)
  show ?thesis
  proof (cases r)
    case (Inl err)
    with Pair show ?thesis by (auto simp: committed_def and_then_def on_store_apply)
  next
    case (Inr er)
    obtain w' where "propagateCommitted env (fst er) (w\<lparr>w_store := s\<rparr>) = (Inr (), w')"
      and "grows (w\<lparr>w_store := s\<rparr>) w'"
      using propagateCommitted_returns [OF assms] by blast
    with Pair Inr show ?thesis by (cases er) (auto simp: committed_def and_then_def on_store_apply)
  qed
qed

text \<open>The two outcomes of \<^verbatim>\<open>appendManyWithMutation\<close>, as its callers use them.\<close>

lemma appendManyWithMutation_throws:
  assumes "IsoDatetimeString (le_zod (pe_log env)) (pe_failed_at env)"
    and "appendManyWithMutation env inputs mutate w = (Inl err, w')"
  shows "durable (w_store w') = durable (w_store w)"
proof -
  from committed_cases [OF assms(1), of "appendManyInTransaction (pe_log env) inputs mutate" w] assms(2)
  obtain s where s: "appendManyInTransaction (pe_log env) inputs mutate (w_store w) = (Inl err, s)"
    and "w' = w\<lparr>w_store := s\<rparr>"
    by (auto simp: appendManyWithMutation_def and_then_def)
  with appendMany_throws [OF s] show ?thesis by simp
qed

lemma appendManyWithMutation_returns:
  assumes "IsoDatetimeString (le_zod (pe_log env)) (pe_failed_at env)"
    and "appendManyWithMutation env inputs mutate w = (Inr a, w')"
  obtains es s1 s2 audit where "inputs \<noteq> []"
    and "for_each (appendInCurrentTransaction (pe_log env)) inputs (w_store w) = (Inr es, s1)"
    and "mutate es s1 = (Inr (Sync a), s2)"
    and "tables (w_store w') = tables s2" and "events (w_store w') = events s2 @ audit"
proof -
  from committed_cases [OF assms(1), of "appendManyInTransaction (pe_log env) inputs mutate" w] assms(2)
  obtain es s2 where "appendManyInTransaction (pe_log env) inputs mutate (w_store w) = (Inr (es, a), s2)"
    and "grows (w\<lparr>w_store := s2\<rparr>) w'"
    by (auto simp: appendManyWithMutation_def and_then_def)
  with that show thesis by (auto simp: appendMany_returns grows_def)
qed

lemma appendManyWithMutation_succeeds:
  assumes "IsoDatetimeString (le_zod (pe_log env)) (pe_failed_at env)"
    and "for_each (appendInCurrentTransaction (pe_log env)) inputs (w_store w) = (Inr es, s1)"
    and "mutate es s1 = (Inr (Sync a), s2)" and "inputs \<noteq> []"
  shows "\<exists>w'. appendManyWithMutation env inputs mutate w = (Inr a, w')"
proof -
  have "appendManyInTransaction (pe_log env) inputs mutate (w_store w) = (Inr (es, a), s2)"
    using assms(2-4) by (auto simp: appendMany_returns)
  with committed_cases [OF assms(1), of "appendManyInTransaction (pe_log env) inputs mutate" w] show ?thesis
    by (auto simp: appendManyWithMutation_def and_then_def)
qed

text \<open>One row with its mutation, the form most services use.\<close>

lemma append_one_with_mutation:
  assumes "IsoDatetimeString (le_zod (pe_log env)) (pe_failed_at env)"
    and "appendManyWithMutation env [ev] mutate w = (Inr a, w')"
  obtains entry s1 s2 audit where "appendInCurrentTransaction (pe_log env) ev (w_store w) = (Inr entry, s1)"
    and "mutate [entry] s1 = (Inr (Sync a), s2)"
    and "tables (w_store w') = tables s2" and "events (w_store w') = events s2 @ audit"
proof -
  obtain es s1 s2 audit where
    *: "for_each (appendInCurrentTransaction (pe_log env)) [ev] (w_store w) = (Inr es, s1)"
      "mutate es s1 = (Inr (Sync a), s2)" "tables (w_store w') = tables s2" "events (w_store w') = events s2 @ audit"
    by (rule appendManyWithMutation_returns [OF assms])
  from *(1) obtain entry where "es = [entry]" "appendInCurrentTransaction (pe_log env) ev (w_store w) = (Inr entry, s1)"
    by (auto simp: and_then_returns)
  with * that show thesis by blast
qed

section \<open>Properties\<close>

text \<open>C9: the rows and the mutation of \<^verbatim>\<open>appendManyWithMutation\<close> are one unit. When the call throws,
  the log and the tables are exactly as before it; when it returns, every row was appended in order,
  the mutation ran on the log with those rows and returned the result, and what listeners did after
  the commit changed no table and removed no row.\<close>

theorem event_and_mutation_commit_together:
  assumes "IsoDatetimeString (le_zod (pe_log env)) (pe_failed_at env)"
  shows "case appendManyWithMutation env inputs mutate w of
      (Inl err, w') \<Rightarrow> durable (w_store w') = durable (w_store w)
    | (Inr a, w') \<Rightarrow> \<exists>es s1 s2. inputs \<noteq> []
        \<and> for_each (appendInCurrentTransaction (pe_log env)) inputs (w_store w) = (Inr es, s1)
        \<and> mutate es s1 = (Inr (Sync a), s2)
        \<and> tables (w_store w') = tables s2
        \<and> (\<exists>audit_rows. events (w_store w') = events s2 @ audit_rows)"
proof (cases "appendManyWithMutation env inputs mutate w")
  case (Pair r w')
  show ?thesis
  proof (cases r)
    case (Inl err)
    with Pair appendManyWithMutation_throws [OF assms, of inputs mutate w err w'] show ?thesis by simp
  next
    case (Inr a)
    with Pair have "appendManyWithMutation env inputs mutate w = (Inr a, w')" by simp
    then obtain es s1 s2 audit where "inputs \<noteq> []"
        "for_each (appendInCurrentTransaction (pe_log env)) inputs (w_store w) = (Inr es, s1)"
        "mutate es s1 = (Inr (Sync a), s2)" "tables (w_store w') = tables s2" "events (w_store w') = events s2 @ audit"
      by (rule appendManyWithMutation_returns [OF assms])
    with Pair Inr show ?thesis by simp
  qed
qed

definition quiet_env :: "nat pub_env" where
  "quiet_env = \<lparr> pe_log = \<lparr> le_uuid = (\<lambda>n. ''e'' @ js_string_of_nat n), le_now = (\<lambda>_. ''2024-05-01T10:00:00.000Z''),
       le_event_type = (\<lambda>_. True), le_zod = sample_zod \<rparr>,
     pe_run_event = (\<lambda>_. False), pe_hot_apply = (\<lambda>_. ret ()), pe_notify_entry = (\<lambda>_. throw ''listener down''),
     pe_name_of = (\<lambda>_. ''Error''), pe_failed_at = ''2024-05-01T10:00:01.000Z'' \<rparr>"

definition sample_event :: event_input where
  "sample_event = \<lparr> event_type = ''t'', entity_type = ''thing'', entity_id = ''x'', workspace_id = ''w'',
     run_id = None, caused_by = None, payload_json = [] \<rparr>"

definition sample_world :: "(nat, nat) world" where
  "sample_world = \<lparr> w_store = \<lparr> events = [], tables = 0, draws = 0 \<rparr>, w_ports = 0, w_warnings = [] \<rparr>"

definition set_table :: "nat \<Rightarrow> event_entry list \<Rightarrow> (nat store, nat callback_result) action" where
  "set_table n es st = (Inr (Sync (length es)), st\<lparr>tables := n\<rparr>)"

theorem event_and_mutation_commit_together_witness:
  "case appendManyWithMutation quiet_env [sample_event] (set_table 7) sample_world of
      (Inl err, w') \<Rightarrow> durable (w_store w') = durable (w_store sample_world)
    | (Inr a, w') \<Rightarrow> \<exists>es s1 s2. [sample_event] \<noteq> []
        \<and> for_each (appendInCurrentTransaction (pe_log quiet_env)) [sample_event] (w_store sample_world) = (Inr es, s1)
        \<and> set_table 7 es s1 = (Inr (Sync a), s2)
        \<and> tables (w_store w') = tables s2
        \<and> (\<exists>audit_rows. events (w_store w') = events s2 @ audit_rows)"
  by (rule event_and_mutation_commit_together) code_simp

text \<open>listeners have no say in a committed write: two publishers over the same log answer a
  mutation alike, whatever their run-hot-state services and notifiers do or throw.\<close>

theorem listeners_do_not_decide_the_result:
  assumes "pe_log env = pe_log env'" and "w_store w = w_store w'"
    and "IsoDatetimeString (le_zod (pe_log env)) (pe_failed_at env)"
    and "IsoDatetimeString (le_zod (pe_log env')) (pe_failed_at env')"
  shows "fst (appendManyWithMutation env inputs mutate w) = fst (appendManyWithMutation env' inputs mutate w')"
  using committed_cases [OF assms(3), of "appendManyInTransaction (pe_log env) inputs mutate" w]
    committed_cases [OF assms(4), of "appendManyInTransaction (pe_log env') inputs mutate" w']
  unfolding assms(1,2) by (auto simp: appendManyWithMutation_def and_then_def assms(1))

theorem listeners_do_not_decide_the_result_witness:
  "fst (appendManyWithMutation quiet_env [sample_event] (set_table 7) sample_world)
   = fst (appendManyWithMutation (quiet_env\<lparr>pe_notify_entry := \<lambda>_. ret ()\<rparr>) [sample_event] (set_table 7) sample_world)"
proof (rule listeners_do_not_decide_the_result)
  show "IsoDatetimeString (le_zod (pe_log quiet_env)) (pe_failed_at quiet_env)" by code_simp
  show "IsoDatetimeString (le_zod (pe_log (quiet_env\<lparr>pe_notify_entry := \<lambda>_. ret ()\<rparr>)))
      (pe_failed_at (quiet_env\<lparr>pe_notify_entry := \<lambda>_. ret ()\<rparr>))" by code_simp
qed simp_all

text \<open>C0: \<^verbatim>\<open>publish\<close> answers with an error of its own exactly when a listener failed, and in both cases
  the row is in the log: a caller that sees the error must not append again.\<close>

theorem publish_keeps_the_row:
  assumes "append_event (pe_log env) ev (w_store w) = (Inr entry, s)"
  shows "w_store (snd (publish env ev w)) = s
    \<and> fst (publish env ev w) =
        (case fst (propagate env entry (w\<lparr>w_store := s\<rparr>)) of
           Inr _ \<Rightarrow> Inr entry
         | Inl _ \<Rightarrow> Inl (''Event '' @ event_type ev @ '' was appended but propagation failed.''))"
proof -
  have "event_type entry = event_type ev"
    using assms by (auto simp: append_event_eq append_returns)
  moreover have "w_store (snd (propagate env entry (w\<lparr>w_store := s\<rparr>))) = s"
    by (simp add: propagate_keeps_store)
  ultimately show ?thesis
    using assms
    by (auto simp: publish_def and_then_def on_store_apply case_prod_unfold propagation_error_def split: sum.split)
qed

lemma sample_now_ok: "IsoDatetimeString sample_zod ''2024-05-01T10:00:00.000Z''"
  by code_simp

theorem publish_keeps_the_row_witness:
  "fst (publish quiet_env sample_event sample_world) = Inl ''Event t was appended but propagation failed.''
   \<and> length (events (w_store (snd (publish quiet_env sample_event sample_world)))) = 1"
proof -
  have zero: "js_string_of_nat 0 = ''0''" by code_simp
  have a: "append_event (pe_log quiet_env) sample_event (w_store sample_world) =
      (Inr (complete_entry sample_event ''e0'' 0 ''2024-05-01T10:00:00.000Z''),
       \<lparr> events = [complete_entry sample_event ''e0'' 0 ''2024-05-01T10:00:00.000Z''], tables = 0, draws = 1 \<rparr>)"
    using sample_now_ok zero
    by (simp add: append_event_eq append_returns quiet_env_def sample_world_def sample_event_def EventLogEntry_ok_def
        computeNextRevision_def complete_entry_def BoundedString_def nullable_def EVENT_LOG_PAYLOAD_MAX_CHARS_def js_join_def)
  show ?thesis
    using publish_keeps_the_row [OF a] by (simp add: propagate_def quiet_env_def sample_event_def and_then_def on_ports_apply)
qed

end
