(* ===== verification/StateTable.thy ===== *)
theory StateTable
  imports EventPublisher
begin

text \<open>
  Tables whose rows carry an identifier and a state that is only changed by
  \<^verbatim>\<open>UPDATE ... WHERE id = ? AND state = ?\<close>, a compare-and-set. Worker runs and deferred obligations
  are stored this way. The contract is the locale \<open>state_rows\<close>; its lemmas say what a sequence of
  such updates can do to a row, whoever interleaves with whom.
\<close>

definition find_by :: "('r \<Rightarrow> string) \<Rightarrow> string \<Rightarrow> 'r list \<Rightarrow> 'r option" where
  "find_by key i rs = List.find (\<lambda>r. key r = i) rs"

text \<open>The rows after the update, and the number of rows changed.\<close>

definition cas_update ::
  "('r \<Rightarrow> string) \<Rightarrow> ('r \<Rightarrow> 't) \<Rightarrow> string \<Rightarrow> 't \<Rightarrow> ('r \<Rightarrow> 'r) \<Rightarrow> 'r list \<Rightarrow> 'r list" where
  "cas_update key st i expected f rs = map (\<lambda>r. if key r = i \<and> st r = expected then f r else r) rs"

definition cas_changes :: "('r \<Rightarrow> string) \<Rightarrow> ('r \<Rightarrow> 't) \<Rightarrow> string \<Rightarrow> 't \<Rightarrow> 'r list \<Rightarrow> nat" where
  "cas_changes key st i expected rs = length (filter (\<lambda>r. key r = i \<and> st r = expected) rs)"

definition cas_delete :: "('r \<Rightarrow> string) \<Rightarrow> ('r \<Rightarrow> 't) \<Rightarrow> string \<Rightarrow> 't \<Rightarrow> 'r list \<Rightarrow> 'r list" where
  "cas_delete key st i expected rs = filter (\<lambda>r. \<not> (key r = i \<and> st r = expected)) rs"

lemma find_by_None: "find_by key i rs = None \<longleftrightarrow> i \<notin> key ` set rs"
  by (auto simp: find_by_def find_None_iff)

lemma find_by_Some_mem: "find_by key i rs = Some r \<Longrightarrow> r \<in> set rs \<and> key r = i"
  by (auto simp: find_by_def find_Some_iff)

lemma find_by_unique: "distinct (map key rs) \<Longrightarrow> r \<in> set rs \<Longrightarrow> find_by key (key r) rs = Some r"
  by (induction rs) (force simp: find_by_def)+

lemma find_by_iff: "distinct (map key rs) \<Longrightarrow> find_by key i rs = Some r \<longleftrightarrow> r \<in> set rs \<and> key r = i"
  using find_by_unique find_by_Some_mem by metis

lemma find_by_append: "find_by key i (rs @ [r]) =
  (case find_by key i rs of Some x \<Rightarrow> Some x | None \<Rightarrow> if key r = i then Some r else None)"
  by (induction rs) (auto simp: find_by_def)

lemma cas_changes_0: "cas_changes key st i e rs = 0 \<longleftrightarrow> (\<forall>r \<in> set rs. \<not> (key r = i \<and> st r = e))"
  by (auto simp: cas_changes_def filter_empty_conv)

lemma cas_changes_find:
  "distinct (map key rs) \<Longrightarrow>
     cas_changes key st i e rs \<noteq> 0 \<longleftrightarrow> (\<exists>r. find_by key i rs = Some r \<and> st r = e)"
  by (auto simp: cas_changes_0 find_by_iff)

locale state_rows =
  fixes key :: "'r \<Rightarrow> string"
    and state_of :: "'r \<Rightarrow> 't"
    and advance :: "'t \<Rightarrow> 'x \<Rightarrow> 'r \<Rightarrow> 'r"
    and allowed :: "'t \<Rightarrow> 't \<Rightarrow> bool"
  assumes key_advance: "key (advance t x r) = key r"
    and state_advance: "state_of (advance t x r) = t"
begin

abbreviation update :: "string \<Rightarrow> 't \<Rightarrow> 't \<Rightarrow> 'x \<Rightarrow> 'r list \<Rightarrow> 'r list" where
  "update i e t x \<equiv> cas_update key state_of i e (advance t x)"

lemma keys_update: "map key (update i e t x rs) = map key rs"
  by (auto simp: cas_update_def key_advance)

lemma find_update:
  "find_by key j (update i e t x rs) =
     map_option (\<lambda>r. if j = i \<and> state_of r = e then advance t x r else r) (find_by key j rs)"
  by (induction rs) (auto simp: cas_update_def find_by_def key_advance)

lemma find_update_other: "j \<noteq> i \<Longrightarrow> find_by key j (update i e t x rs) = find_by key j rs"
  by (simp add: find_update option.map_ident)

text \<open>Whatever updates run and in whatever order, each checked against the table: a row's states form a path.\<close>

lemma updates_follow_table:
  assumes "list_all (\<lambda>(i, e, t, x). allowed e t) us" and "find_by key j rs = Some r"
  shows "\<exists>r'. find_by key j (fold (\<lambda>(i, e, t, x). update i e t x) us rs) = Some r'
    \<and> allowed\<^sup>*\<^sup>* (state_of r) (state_of r')"
  using assms
proof (induction us arbitrary: rs r)
  case (Cons u us)
  obtain i e t x where u: "u = (i, e, t, x)" by (cases u)
  define r1 where "r1 = (if j = i \<and> state_of r = e then advance t x r else r)"
  have "find_by key j (update i e t x rs) = Some r1"
    using Cons.prems(2) by (auto simp: find_update r1_def)
  moreover have "allowed\<^sup>*\<^sup>* (state_of r) (state_of r1)"
    using Cons.prems(1) u by (auto simp: r1_def state_advance)
  ultimately show ?case
    using Cons.IH [of "update i e t x rs" r1] Cons.prems(1) u by (auto intro: rtranclp_trans)
qed auto

end

end
