(* ===== verification/WorkerRun.thy ===== *)
theory WorkerRun
  imports StateTable
begin

text \<open>
  Delegated worker runs: the transition table of \<^verbatim>\<open>core/src/runtime/worker-run-state-machine.ts\<close>, the
  table of \<^verbatim>\<open>storage/src/repos/runtime/worker-run-repo.ts\<close> with its compare-and-set statements, and
  \<^verbatim>\<open>core/src/runtime/worker-run-lifecycle-service.ts\<close>, which changes a state and records the change in
  one transaction of the event publisher. Columns the repository stores as JSON text are kept as the
  values that text encodes.
\<close>

section \<open>Data\<close>

datatype worker_run_state = Init | Active | Run_completed | Suspended | Aborted | Frozen

datatype engine_class = Coding_engine | Conversation_engine

datatype tool_category =
  Cat_read | Cat_write | Cat_exec | Cat_network | Cat_validation | Cat_evidence | Cat_memory | Cat_governance

datatype return_kind =
  Handoff | Gap | Patch_diff | Verification_result | Analysis_note | Proposal_candidate | Evidence_pointer_set

record local_budget =
  max_worker_delegations :: nat
  max_tool_calls :: nat
  max_output_tokens :: nat
  max_wall_time_ms :: nat

record return_format =
  allowed_return_kinds :: "return_kind list"
  requires_structured_summary :: bool

record security_snapshot =
  governance_lease_ref :: string
  hard_constraint_refs :: "string list"
  denied_tool_categories :: "tool_category list"

record worker_run =
  worker_run_id :: string
  principal_run_id :: string
  wr_workspace_id :: string
  requesting_run_id :: string
  wr_engine_class :: engine_class
  wr_state :: worker_run_state
  subtask_description :: string
  local_surface_ref :: string
  local_evidence_pointer :: "string option"
  restricted_tool_set :: "string list"
  wr_local_budget :: local_budget
  agreed_return_format :: return_format
  principal_security_snapshot :: security_snapshot
  wr_created_at :: string
  wr_updated_at :: string

definition worker_state_name :: "worker_run_state \<Rightarrow> string" where
  "worker_state_name s = (case s of Init \<Rightarrow> ''init'' | Active \<Rightarrow> ''active'' | Run_completed \<Rightarrow> ''completed''
     | Suspended \<Rightarrow> ''suspended'' | Aborted \<Rightarrow> ''aborted'' | Frozen \<Rightarrow> ''frozen'')"

definition DelegatedWorkerRun_ok :: "(string \<Rightarrow> bool) \<Rightarrow> worker_run \<Rightarrow> bool" where
  "DelegatedWorkerRun_ok zod r \<longleftrightarrow>
     NonEmptyString (worker_run_id r) \<and> NonEmptyString (principal_run_id r) \<and> NonEmptyString (wr_workspace_id r)
     \<and> NonEmptyString (requesting_run_id r) \<and> NonEmptyString (subtask_description r)
     \<and> NonEmptyString (local_surface_ref r) \<and> nullable NonEmptyString (local_evidence_pointer r)
     \<and> list_all NonEmptyString (restricted_tool_set r)
     \<and> allowed_return_kinds (agreed_return_format r) \<noteq> []
     \<and> NonEmptyString (governance_lease_ref (principal_security_snapshot r))
     \<and> list_all NonEmptyString (hard_constraint_refs (principal_security_snapshot r))
     \<and> IsoDatetimeString zod (wr_created_at r) \<and> IsoDatetimeString zod (wr_updated_at r)"

definition parseWorkerRun :: "(string \<Rightarrow> bool) \<Rightarrow> worker_run \<Rightarrow> string + worker_run" where
  "parseWorkerRun zod r =
     (if DelegatedWorkerRun_ok zod r then Inr r
      else Inl (coded_error ''VALIDATION_FAILED'' ''Failed to validate worker run.''))"

section \<open>The state machine\<close>

definition ALLOWED_TRANSITIONS :: "worker_run_state \<Rightarrow> worker_run_state list" where
  "ALLOWED_TRANSITIONS s = (case s of
       Init \<Rightarrow> [Active, Frozen]
     | Active \<Rightarrow> [Run_completed, Suspended, Aborted, Frozen]
     | Suspended \<Rightarrow> [Active, Aborted, Frozen]
     | Run_completed \<Rightarrow> [Frozen]
     | Aborted \<Rightarrow> [Frozen]
     | Frozen \<Rightarrow> [])"

definition assertWorkerTransition :: "worker_run_state \<Rightarrow> worker_run_state \<Rightarrow> string + unit" where
  "assertWorkerTransition s t =
     (if t \<in> set (ALLOWED_TRANSITIONS s) then Inr ()
      else Inl (coded_error ''VALIDATION'' (''Illegal worker state transition: '' @ worker_state_name s
                  @ '' -> '' @ worker_state_name t)))"

section \<open>The table\<close>

record worker_row = worker_run +
  requesting_principal_run_id :: "string option"
  requesting_worker_run_id :: "string option"

definition toInsertableRow :: "(string \<Rightarrow> bool) \<Rightarrow> worker_run \<Rightarrow> string + worker_row" where
  "toInsertableRow zod r =
     (case parseWorkerRun zod r of
        Inl e \<Rightarrow> Inl e
      | Inr p \<Rightarrow> Inr (worker_run.extend p
          \<lparr> requesting_principal_run_id = Some (requesting_run_id p), requesting_worker_run_id = None \<rparr>))"

definition mapRowToDomain :: "(string \<Rightarrow> bool) \<Rightarrow> worker_row \<Rightarrow> string + worker_run" where
  "mapRowToDomain zod row =
     (case (case requesting_principal_run_id row of Some p \<Rightarrow> Some p | None \<Rightarrow> requesting_worker_run_id row) of
        None \<Rightarrow> Inl (coded_error ''VALIDATION_FAILED''
                  ''Failed to validate worker run row: requesting run id is missing.'')
      | Some q \<Rightarrow> parseWorkerRun zod ((worker_run.truncate row)\<lparr>requesting_run_id := q\<rparr>))"

text \<open>The row checks of the schema: the primary key, and \<^verbatim>\<open>CHECK(updated_at >= created_at)\<close> on the texts.\<close>

definition row_check :: "worker_row \<Rightarrow> bool" where
  "row_check row \<longleftrightarrow> wr_created_at row \<le> wr_updated_at row"

definition insertWorkerRunRow :: "worker_row \<Rightarrow> (worker_row list, unit) action" where
  "insertWorkerRunRow row rs =
     (if worker_run_id row \<in> worker_run_id ` set rs \<or> \<not> row_check row then (Inl ''constraint failed'', rs)
      else (Inr (), rs @ [row]))"

definition wr_getById :: "(string \<Rightarrow> bool) \<Rightarrow> string \<Rightarrow> (worker_row list, worker_run option) action" where
  "wr_getById zod i =
     and_then (lift_result (storage_parseNonEmptyString i ''worker run id'')) (\<lambda>i rs.
       case find_by worker_run_id i rs of
         None \<Rightarrow> (Inr None, rs)
       | Some row \<Rightarrow> (case mapRowToDomain zod row of Inl e \<Rightarrow> (Inl e, rs) | Inr r \<Rightarrow> (Inr (Some r), rs)))"

definition wr_insert :: "(string \<Rightarrow> bool) \<Rightarrow> worker_run \<Rightarrow> (worker_row list, worker_run) action" where
  "wr_insert zod r =
     and_then (lift_result (toInsertableRow zod r)) (\<lambda>row rs.
       case insertWorkerRunRow row rs of
         (Inl _, rs') \<Rightarrow> (Inl (coded_error ''QUERY_FAILED''
                            (''Failed to insert worker run '' @ worker_run_id row @ ''.'')), rs')
       | (Inr _, rs') \<Rightarrow>
           and_then (wr_getById zod (worker_run_id row)) (\<lambda>inserted.
             case inserted of
               None \<Rightarrow> throw (coded_error ''NOT_FOUND''
                         (''Worker run '' @ worker_run_id row @ '' was not found after insert.''))
             | Some x \<Rightarrow> ret x) rs')"

definition in_flight :: "worker_run_state \<Rightarrow> bool" where
  "in_flight s \<longleftrightarrow> s \<in> {Init, Active, Suspended}"

definition in_flight_for :: "string \<Rightarrow> worker_row \<Rightarrow> bool" where
  "in_flight_for p row \<longleftrightarrow> requesting_principal_run_id row = Some p \<and> in_flight (wr_state row)"

definition assertNoActiveWorkerForPrincipal :: "string \<Rightarrow> (worker_row list, unit) action" where
  "assertNoActiveWorkerForPrincipal p rs =
     (if length (filter (in_flight_for p) rs) > 0
      then (Inl (coded_error ''CONFLICT''
             (''Serial delegation: principal '' @ p @ '' already has an in-flight worker'')), rs)
      else (Inr (), rs))"

text \<open>
  One immediate transaction: it either inserts the row or, on any throw, leaves the table alone. The
  row read back and a storage error pass through; what the insert itself refuses becomes
  \<^verbatim>\<open>QUERY_FAILED\<close>.
\<close>

definition insertIfNoActiveForPrincipal ::
  "(string \<Rightarrow> bool) \<Rightarrow> string \<Rightarrow> worker_run \<Rightarrow> (worker_row list, worker_run) action" where
  "insertIfNoActiveForPrincipal zod principalRunId r rs =
     (case storage_parseNonEmptyString principalRunId ''principal run id'' of
        Inl e \<Rightarrow> (Inl e, rs)
      | Inr p \<Rightarrow>
          (case toInsertableRow zod r of
             Inl e \<Rightarrow> (Inl e, rs)
           | Inr row \<Rightarrow>
               (case assertNoActiveWorkerForPrincipal p rs of
                  (Inl e, _) \<Rightarrow> (Inl e, rs)
                | (Inr _, rs1) \<Rightarrow>
                    (case insertWorkerRunRow row rs1 of
                       (Inl _, _) \<Rightarrow> (Inl (coded_error ''QUERY_FAILED''
                           (''Failed to atomically insert worker run '' @ worker_run_id row @ ''.'')), rs)
                     | (Inr _, rs2) \<Rightarrow>
                         (case find_by worker_run_id (worker_run_id row) rs2 of
                            None \<Rightarrow> (Inl (coded_error ''NOT_FOUND''
                                (''Worker run '' @ worker_run_id row @ '' was not found after insert.'')), rs2)
                          | Some inserted \<Rightarrow> (mapRowToDomain zod inserted, rs2))))))"

definition deleteIfState :: "(string \<Rightarrow> bool) \<Rightarrow> string \<Rightarrow> worker_run_state \<Rightarrow> (worker_row list, unit) action" where
  "deleteIfState zod workerRunId expectedState =
     and_then (lift_result (storage_parseNonEmptyString workerRunId ''worker run id'')) (\<lambda>i rs.
       if cas_changes worker_run_id wr_state i expectedState rs > 0
       then (Inr (), cas_delete worker_run_id wr_state i expectedState rs)
       else and_then (wr_getById zod i) (\<lambda>existing.
              case existing of
                None \<Rightarrow> throw (coded_error ''NOT_FOUND'' (''Worker run '' @ i @ '' was not found.''))
              | Some x \<Rightarrow> throw (coded_error ''CONFLICT''
                  (''CAS delete failed for worker run '' @ i @ '': expected '' @ worker_state_name expectedState
                   @ '', found '' @ worker_state_name (wr_state x) @ ''.''))) rs)"

definition set_worker_state :: "worker_run_state \<Rightarrow> string \<Rightarrow> worker_row \<Rightarrow> worker_row" where
  "set_worker_state s updatedAt row = row\<lparr>wr_state := s, wr_updated_at := updatedAt\<rparr>"

definition updateState ::
  "(string \<Rightarrow> bool) \<Rightarrow> string \<Rightarrow> worker_run_state \<Rightarrow> worker_run_state \<Rightarrow> string \<Rightarrow> (worker_row list, worker_run) action" where
  "updateState zod workerRunId expectedState nextState updatedAt =
     and_then (lift_result (storage_parseNonEmptyString workerRunId ''worker run id'')) (\<lambda>i rs.
       if \<not> IsoDatetimeString zod updatedAt
       then (Inl (coded_error ''VALIDATION_FAILED'' ''Failed to validate worker run updated_at.''), rs)
       else let rs' = cas_update worker_run_id wr_state i expectedState (set_worker_state nextState updatedAt) rs
            in if \<not> list_all (\<lambda>row. worker_run_id row = i \<and> wr_state row = expectedState
                     \<longrightarrow> row_check (set_worker_state nextState updatedAt row)) rs
               then (Inl (coded_error ''QUERY_FAILED'' (''Failed to update worker run '' @ i @ ''.'')), rs)
               else if cas_changes worker_run_id wr_state i expectedState rs = 0
               then (Inl (coded_error ''CONFLICT''
                      (''CAS failed for worker run '' @ i @ '': state mismatch or not found.'')), rs)
               else (case find_by worker_run_id i rs' of
                       None \<Rightarrow> (Inl (coded_error ''NOT_FOUND''
                                  (''Worker run '' @ i @ '' was not found after update.'')), rs')
                     | Some row \<Rightarrow> (mapRowToDomain zod row, rs')))"

text \<open>\<^verbatim>\<open>ORDER BY created_at ASC LIMIT 1\<close> over the principal's active rows.\<close>

definition findActiveByPrincipalRunId ::
  "(string \<Rightarrow> bool) \<Rightarrow> string \<Rightarrow> (worker_row list, worker_run option) action" where
  "findActiveByPrincipalRunId zod principalRunId =
     and_then (lift_result (storage_parseNonEmptyString principalRunId ''principal run id'')) (\<lambda>p rs.
       case sort_key wr_created_at (filter (\<lambda>row. principal_run_id row = p \<and> wr_state row = Active) rs) of
         [] \<Rightarrow> (Inr None, rs)
       | row # _ \<Rightarrow> (case mapRowToDomain zod row of Inl e \<Rightarrow> (Inl e, rs) | Inr r \<Rightarrow> (Inr (Some r), rs)))"

section \<open>The lifecycle service\<close>

datatype suspend_reason = Lease_cascade | Native_surface_drift | Node_fuse | Obligation_violation

definition suspend_reason_name :: "suspend_reason \<Rightarrow> string" where
  "suspend_reason_name r = (case r of Lease_cascade \<Rightarrow> ''lease_cascade''
     | Native_surface_drift \<Rightarrow> ''native_surface_drift'' | Node_fuse \<Rightarrow> ''node_fuse''
     | Obligation_violation \<Rightarrow> ''obligation_violation'')"

record state_changed_payload =
  workerId :: string
  sc_state :: worker_run_state
  previousState :: worker_run_state
  suspendReason :: "suspend_reason option"
  returnedObjectRefs :: "string list option"
  abortReason :: "string option"
  rollbackAttempted :: "bool option"
  panicSource :: "string option"
  panicSummary :: "string option"

definition no_extras :: state_changed_payload where
  "no_extras = \<lparr> workerId = [], sc_state = Init, previousState = Init, suspendReason = None,
     returnedObjectRefs = None, abortReason = None, rollbackAttempted = None, panicSource = None, panicSummary = None \<rparr>"

definition WorkerStateChangedPayload_ok :: "state_changed_payload \<Rightarrow> bool" where
  "WorkerStateChangedPayload_ok p \<longleftrightarrow>
     BoundedId (workerId p) \<and> sc_state p \<noteq> Init
     \<and> nullable (list_all BoundedId) (returnedObjectRefs p) \<and> nullable BoundedReason (abortReason p)
     \<and> nullable BoundedLabel (panicSource p) \<and> nullable BoundedReason (panicSummary p)
     \<and> (sc_state p \<noteq> Suspended \<longrightarrow> suspendReason p = None)"

definition optional_field :: "string \<Rightarrow> ('a \<Rightarrow> json) \<Rightarrow> 'a option \<Rightarrow> json_object" where
  "optional_field name f v = (case v of None \<Rightarrow> [] | Some x \<Rightarrow> [(name, f x)])"

definition json_of_state_changed :: "state_changed_payload \<Rightarrow> json_object" where
  "json_of_state_changed p =
     [(''workerId'', JString (workerId p)), (''state'', JString (worker_state_name (sc_state p))),
      (''previousState'', JString (worker_state_name (previousState p)))]
     @ optional_field ''suspendReason'' (\<lambda>r. JString (suspend_reason_name r)) (suspendReason p)
     @ optional_field ''returnedObjectRefs'' (\<lambda>xs. JArray (map JString xs)) (returnedObjectRefs p)
     @ optional_field ''abortReason'' JString (abortReason p)
     @ optional_field ''rollbackAttempted'' JBool (rollbackAttempted p)
     @ optional_field ''panicSource'' JString (panicSource p)
     @ optional_field ''panicSummary'' JString (panicSummary p)"

definition requireNonEmptyString :: "string \<Rightarrow> string \<Rightarrow> string + string" where
  "requireNonEmptyString field value =
     (let normalized = js_trim value
      in if normalized = [] then Inl (coded_error ''VALIDATION'' (field @ '' must be a non-empty string''))
         else Inr normalized)"

primrec parseStringArray_from :: "nat \<Rightarrow> string \<Rightarrow> string list \<Rightarrow> string + string list" where
  "parseStringArray_from n field [] = Inr []"
| "parseStringArray_from n field (v # vs) =
     (case requireNonEmptyString (field @ ''['' @ js_string_of_nat n @ '']'') v of
        Inl e \<Rightarrow> Inl e
      | Inr x \<Rightarrow> (case parseStringArray_from (Suc n) field vs of Inl e \<Rightarrow> Inl e | Inr xs \<Rightarrow> Inr (x # xs)))"

definition parseStringArray :: "string \<Rightarrow> string list \<Rightarrow> string + string list" where
  "parseStringArray field values = parseStringArray_from 0 field values"

text \<open>The service reads its clock at the moment of the call: \<open>now\<close>. The tables are the worker rows.\<close>

record 'n lifecycle_env =
  lc_pub :: "'n pub_env"
  lc_dates :: date_api
  lc_now :: string

type_synonym 'n worker_world = "(worker_row list, 'n) world"

definition on_tables :: "('d, 'a) action \<Rightarrow> ('d store, 'a) action" where
  "on_tables m st = (case m (tables st) of (r, d) \<Rightarrow> (r, st\<lparr>tables := d\<rparr>))"

definition resolveNow :: "'n lifecycle_env \<Rightarrow> string + string" where
  "resolveNow env =
     (case date_parse (lc_dates env) (lc_now env) of
        None \<Rightarrow> Inl (coded_error ''VALIDATION'' ''now must return a valid ISO timestamp'')
      | Some _ \<Rightarrow> Inr (lc_now env))"

definition requireWorkerRun :: "(string \<Rightarrow> bool) \<Rightarrow> string \<Rightarrow> (worker_row list, worker_run) action" where
  "requireWorkerRun zod workerRunId =
     and_then (lift_result (requireNonEmptyString ''workerRunId'' workerRunId)) (\<lambda>i.
     and_then (wr_getById zod i) (\<lambda>found.
       case found of None \<Rightarrow> throw (coded_error ''NOT_FOUND'' ''Worker run not found'') | Some r \<Rightarrow> ret r))"

definition buildStateChangedEvent :: "worker_run \<Rightarrow> state_changed_payload \<Rightarrow> event_input" where
  "buildStateChangedEvent r payload =
     \<lparr> event_type = ''worker.state_changed'', entity_type = ''worker_run'', entity_id = worker_run_id r,
       workspace_id = wr_workspace_id r, run_id = Some (principal_run_id r),
       caused_by = Some ''worker_lifecycle'', payload_json = json_of_state_changed payload \<rparr>"

abbreviation lc_zod :: "'n lifecycle_env \<Rightarrow> string \<Rightarrow> bool" where
  "lc_zod env \<equiv> le_zod (pe_log (lc_pub env))"

text \<open>The part of a transition after the snapshot was read: its checks, and the guarded write.\<close>

definition commit_transition ::
  "'n lifecycle_env \<Rightarrow> worker_run \<Rightarrow> worker_run_state \<Rightarrow> state_changed_payload \<Rightarrow> ('n worker_world, worker_run) action" where
  "commit_transition env snapshot nextState extras =
     and_then (lift_result (assertWorkerTransition (wr_state snapshot) nextState)) (\<lambda>_.
     and_then (lift_result (resolveNow env)) (\<lambda>updatedAt.
       let payload = extras\<lparr>workerId := worker_run_id snapshot, sc_state := nextState,
                            previousState := wr_state snapshot\<rparr>
       in if \<not> WorkerStateChangedPayload_ok payload then throw ''ZodError''
          else appendManyWithMutation (lc_pub env) [buildStateChangedEvent snapshot payload]
                 (\<lambda>_. and_then (on_tables (updateState (lc_zod env) (worker_run_id snapshot)
                          (wr_state snapshot) nextState updatedAt)) (\<lambda>r. ret (Sync r)))))"

definition transition ::
  "'n lifecycle_env \<Rightarrow> string \<Rightarrow> worker_run_state \<Rightarrow> state_changed_payload \<Rightarrow> ('n worker_world, worker_run) action" where
  "transition env workerRunId nextState extras =
     and_then (on_store (on_tables (requireWorkerRun (lc_zod env) workerRunId))) (\<lambda>snapshot.
       commit_transition env snapshot nextState extras)"

definition dispatch_run :: "'n lifecycle_env \<Rightarrow> string \<Rightarrow> ('n worker_world, worker_run) action" where
  "dispatch_run env i = transition env i Active no_extras"

definition complete_run :: "'n lifecycle_env \<Rightarrow> string \<Rightarrow> string list \<Rightarrow> ('n worker_world, worker_run) action" where
  "complete_run env i refs =
     and_then (lift_result (parseStringArray ''returnedObjectRefs'' refs)) (\<lambda>xs.
       transition env i Run_completed (no_extras\<lparr>returnedObjectRefs := Some xs\<rparr>))"

definition suspend_run :: "'n lifecycle_env \<Rightarrow> string \<Rightarrow> suspend_reason \<Rightarrow> ('n worker_world, worker_run) action" where
  "suspend_run env i reason = transition env i Suspended (no_extras\<lparr>suspendReason := Some reason\<rparr>)"

definition resume_run :: "'n lifecycle_env \<Rightarrow> string \<Rightarrow> ('n worker_world, worker_run) action" where
  "resume_run env i = transition env i Active no_extras"

definition abort_run :: "'n lifecycle_env \<Rightarrow> string \<Rightarrow> string \<Rightarrow> bool \<Rightarrow> ('n worker_world, worker_run) action" where
  "abort_run env i reason rolledBack =
     and_then (lift_result (requireNonEmptyString ''reason'' reason)) (\<lambda>rs.
       transition env i Aborted (no_extras\<lparr>abortReason := Some rs, rollbackAttempted := Some rolledBack\<rparr>))"

definition freeze_run :: "'n lifecycle_env \<Rightarrow> string \<Rightarrow> string \<Rightarrow> string \<Rightarrow> ('n worker_world, worker_run) action" where
  "freeze_run env i psource summary =
     and_then (lift_result (requireNonEmptyString ''panicSource'' psource)) (\<lambda>src.
     and_then (lift_result (requireNonEmptyString ''summary'' summary)) (\<lambda>summ.
       transition env i Frozen (no_extras\<lparr>panicSource := Some src, panicSummary := Some summ\<rparr>)))"

section \<open>Facts\<close>

abbreviation worker_move :: "worker_run_state \<Rightarrow> worker_run_state \<Rightarrow> bool" where
  "worker_move s t \<equiv> t \<in> set (ALLOWED_TRANSITIONS s)"

interpretation worker_rows: state_rows worker_run_id wr_state set_worker_state worker_move
  by unfold_locales (simp_all add: set_worker_state_def)

lemma on_tables_returns:
  "on_tables m st = (r, st') \<longleftrightarrow> (\<exists>d. m (tables st) = (r, d) \<and> st' = st\<lparr>tables := d\<rparr>)"
  by (auto simp: on_tables_def split: prod.splits)

lemma updateState_returns:
  assumes "updateState zod i e t now rs = (Inr r, rs')"
  shows "rs' = cas_update worker_run_id wr_state i e (set_worker_state t now) rs"
    and "cas_changes worker_run_id wr_state i e rs \<noteq> 0"
  using assms
  by (auto simp: updateState_def and_then_def storage_parseNonEmptyString_def Let_def
      split: if_splits option.splits)

lemma wr_getById_Some:
  assumes "wr_getById zod i rs = (Inr (Some r), rs')"
  obtains row where "rs' = rs" and "find_by worker_run_id i rs = Some row"
    and "mapRowToDomain zod row = Inr r" and "worker_run_id r = i" and "wr_state r = wr_state row"
proof -
  from assms obtain row where row: "rs' = rs" "find_by worker_run_id i rs = Some row" "mapRowToDomain zod row = Inr r"
    by (auto simp: wr_getById_def and_then_def storage_parseNonEmptyString_def split: if_splits option.splits sum.splits)
  then have "worker_run_id r = worker_run_id row" "wr_state r = wr_state row"
    by (auto simp: mapRowToDomain_def parseWorkerRun_def worker_run.defs split: option.splits if_splits)
  with row that show thesis by (auto dest: find_by_Some_mem)
qed

lemma wr_getById_keeps: "snd (wr_getById zod i rs) = rs"
  by (auto simp: wr_getById_def and_then_def storage_parseNonEmptyString_def split: option.splits sum.splits)

lemma requireWorkerRun_returns:
  assumes "requireWorkerRun zod i rs = (Inr r, rs')"
  obtains row where "rs' = rs" and "find_by worker_run_id (js_trim i) rs = Some row"
    and "worker_run_id r = js_trim i" and "wr_state r = wr_state row"
  using assms
  by (fastforce simp: requireWorkerRun_def and_then_returns requireNonEmptyString_def Let_def
      split: if_splits option.splits elim!: wr_getById_Some)

lemma requireWorkerRun_throws: "requireWorkerRun zod i rs = (Inl e, rs') \<Longrightarrow> rs' = rs"
  using wr_getById_keeps [of zod "js_trim i" rs]
  by (auto simp: requireWorkerRun_def and_then_def requireNonEmptyString_def Let_def
      split: if_splits option.splits sum.splits prod.splits)

text \<open>The write of a transition, on any database state, however old the snapshot is.\<close>

lemma commit_transition_returns:
  assumes ok: "IsoDatetimeString (lc_zod env) (pe_failed_at (lc_pub env))"
    and ret: "commit_transition env snap t extras w = (Inr r, w')"
  obtains entry audit where "worker_move (wr_state snap) t"
    and "cas_changes worker_run_id wr_state (worker_run_id snap) (wr_state snap) (tables (w_store w)) \<noteq> 0"
    and "tables (w_store w') = cas_update worker_run_id wr_state (worker_run_id snap) (wr_state snap)
          (set_worker_state t (lc_now env)) (tables (w_store w))"
    and "events (w_store w') = events (w_store w) @ entry # audit"
    and "entity_type entry = ''worker_run''" and "entity_id entry = worker_run_id snap"
    and "payload_json entry = json_of_state_changed
          (extras\<lparr>workerId := worker_run_id snap, sc_state := t, previousState := wr_state snap\<rparr>)"
proof -
  define payload where "payload = extras\<lparr>workerId := worker_run_id snap, sc_state := t, previousState := wr_state snap\<rparr>"
  define mutate where "mutate = (\<lambda>_ :: event_entry list. and_then (on_tables (updateState (lc_zod env)
    (worker_run_id snap) (wr_state snap) t (lc_now env))) (\<lambda>r. ret (Sync r)))"
  from ret have move: "worker_move (wr_state snap) t"
    and pub: "appendManyWithMutation (lc_pub env) [buildStateChangedEvent snap payload] mutate w = (Inr r, w')"
    by (auto simp: commit_transition_def and_then_returns assertWorkerTransition_def resolveNow_def Let_def
        payload_def mutate_def split: if_splits option.splits)
  obtain entry s1 s2 audit where
    app: "appendInCurrentTransaction (pe_log (lc_pub env)) (buildStateChangedEvent snap payload) (w_store w) = (Inr entry, s1)"
    and mut: "mutate [entry] s1 = (Inr (Sync r), s2)"
    and after: "tables (w_store w') = tables s2" "events (w_store w') = events s2 @ audit"
    by (rule append_one_with_mutation [OF ok pub])
  from app have entry: "events s1 = events (w_store w) @ [entry]" "tables s1 = tables (w_store w)"
      "entity_type entry = ''worker_run''" "entity_id entry = worker_run_id snap"
      "payload_json entry = json_of_state_changed payload"
    by (auto simp: append_returns buildStateChangedEvent_def)
  obtain d where "updateState (lc_zod env) (worker_run_id snap) (wr_state snap) t (lc_now env) (tables s1) = (Inr r, d)"
    and "s2 = s1\<lparr>tables := d\<rparr>"
    using mut by (auto simp: mutate_def and_then_returns on_tables_returns)
  with updateState_returns entry(2) have upd: "tables s2 = cas_update worker_run_id wr_state (worker_run_id snap)
        (wr_state snap) (set_worker_state t (lc_now env)) (tables (w_store w))" "events s2 = events s1"
      "cas_changes worker_run_id wr_state (worker_run_id snap) (wr_state snap) (tables (w_store w)) \<noteq> 0"
    by auto
  with that [of entry audit] move entry after show thesis unfolding payload_def by simp
qed

lemma commit_transition_throws:
  assumes ok: "IsoDatetimeString (lc_zod env) (pe_failed_at (lc_pub env))"
    and "commit_transition env snap t extras w = (Inl err, w')"
  shows "durable (w_store w') = durable (w_store w)"
proof -
  show ?thesis
    using assms(2)
    by (auto simp: commit_transition_def and_then_def Let_def resolveNow_def assertWorkerTransition_def
        split: if_splits option.splits intro: appendManyWithMutation_throws [OF ok])
qed

lemma commit_transition_rows:
  assumes "IsoDatetimeString (lc_zod env) (pe_failed_at (lc_pub env))"
  shows "tables (w_store (snd (commit_transition env snap t extras w))) = tables (w_store w)
    \<or> (worker_move (wr_state snap) t \<and> tables (w_store (snd (commit_transition env snap t extras w))) =
        cas_update worker_run_id wr_state (worker_run_id snap) (wr_state snap)
          (set_worker_state t (lc_now env)) (tables (w_store w)))"
proof (cases "commit_transition env snap t extras w")
  case (Pair r w')
  show ?thesis
  proof (cases r)
    case (Inl e)
    with Pair show ?thesis using commit_transition_throws [OF assms] by (fastforce simp: durable_def)
  next
    case (Inr a)
    with Pair show ?thesis by (auto elim!: commit_transition_returns [OF assms])
  qed
qed

section \<open>Interleaved callers\<close>

text \<open>
  What any number of concurrent callers can do: commit a transition prepared from a snapshot read at
  some earlier time, insert a run for its requesting principal, or (where \<open>deletions\<close> are allowed)
  delete a run in an expected state.
\<close>

inductive worker_step :: "'n lifecycle_env \<Rightarrow> bool \<Rightarrow> 'n worker_world \<Rightarrow> 'n worker_world \<Rightarrow> bool"
  for env deletions where
  commit: "commit_transition env snap t extras w = (r, w') \<Longrightarrow> worker_step env deletions w w'"
| insert: "on_store (on_tables (insertIfNoActiveForPrincipal (lc_zod env) (requesting_run_id x) x)) w = (r, w')
    \<Longrightarrow> worker_step env deletions w w'"
| delete: "deletions \<Longrightarrow> on_store (on_tables (deleteIfState (lc_zod env) i s)) w = (r, w')
    \<Longrightarrow> worker_step env deletions w w'"

lemma insertIfNoActive_rows:
  assumes "insertIfNoActiveForPrincipal zod p x rs = (r, rs')"
  shows "rs' = rs \<or> (\<exists>row. rs' = rs @ [row] \<and> worker_run_id row \<notin> worker_run_id ` set rs
    \<and> requesting_principal_run_id row = Some (requesting_run_id x) \<and> wr_state row = wr_state x
    \<and> filter (in_flight_for p) rs = [])"
  using assms
  by (auto simp: insertIfNoActiveForPrincipal_def storage_parseNonEmptyString_def toInsertableRow_def
      parseWorkerRun_def assertNoActiveWorkerForPrincipal_def insertWorkerRunRow_def worker_run.defs
      split: if_splits sum.splits option.splits)

lemma deleteIfState_rows: "\<exists>P. snd (deleteIfState zod i s rs) = filter P rs"
proof -
  have "\<exists>P. rs = filter P rs" by (intro exI [of _ "\<lambda>_. True"]) simp
  then show ?thesis
    using wr_getById_keeps [of zod i rs]
    by (auto simp: deleteIfState_def and_then_def storage_parseNonEmptyString_def cas_delete_def
        split: prod.splits sum.splits option.splits)
qed

lemma worker_step_rows:
  assumes "worker_step env deletions w w'" and "IsoDatetimeString (lc_zod env) (pe_failed_at (lc_pub env))"
  shows "tables (w_store w') = tables (w_store w)
    \<or> (\<exists>i s t. worker_move s t \<and> tables (w_store w') =
        cas_update worker_run_id wr_state i s (set_worker_state t (lc_now env)) (tables (w_store w)))
    \<or> (\<exists>row. tables (w_store w') = tables (w_store w) @ [row] \<and> worker_run_id row \<notin> worker_run_id ` set (tables (w_store w))
        \<and> (\<forall>p. in_flight_for p row \<longrightarrow> filter (in_flight_for p) (tables (w_store w)) = []))
    \<or> (deletions \<and> (\<exists>P. tables (w_store w') = filter P (tables (w_store w))))"
  using assms(1)
proof cases
  case (commit snap t extras r)
  then show ?thesis using commit_transition_rows [OF assms(2), of snap t extras w] by auto
next
  case (insert x r)
  then have "insertIfNoActiveForPrincipal (lc_zod env) (requesting_run_id x) x (tables (w_store w))
      = (r, tables (w_store w'))"
    by (auto simp: on_store_apply on_tables_def case_prod_unfold)
  from insertIfNoActive_rows [OF this] show ?thesis by (auto simp: in_flight_for_def)
next
  case (delete i s r)
  then have "tables (w_store w') = snd (deleteIfState (lc_zod env) i s (tables (w_store w)))"
    by (auto simp: on_store_apply on_tables_def case_prod_unfold)
  with delete(1) deleteIfState_rows [of "lc_zod env" i s "tables (w_store w)"] show ?thesis by auto
qed

text \<open>Runs that only fall out of flight, and the one insert that brings one in, keep delegation serial.\<close>

definition serial_delegation :: "worker_row list \<Rightarrow> bool" where
  "serial_delegation rs \<longleftrightarrow>
     distinct (map worker_run_id rs) \<and> (\<forall>p. length (filter (in_flight_for p) rs) \<le> 1)"

lemma move_in_flight: "worker_move s t \<Longrightarrow> in_flight t \<Longrightarrow> in_flight s"
  by (cases s) (auto simp: ALLOWED_TRANSITIONS_def in_flight_def)

lemma update_in_flight:
  "worker_move s t \<Longrightarrow>
     length (filter (in_flight_for p) (cas_update worker_run_id wr_state i s (set_worker_state t now) rs))
       \<le> length (filter (in_flight_for p) rs)"
  by (induction rs) (auto simp: cas_update_def in_flight_for_def set_worker_state_def dest: move_in_flight)

lemma filter_filter_le: "length (filter P (filter Q xs)) \<le> length (filter P xs)"
  by (induction xs) auto

lemma worker_step_serial:
  assumes "worker_step env deletions w w'" and "IsoDatetimeString (lc_zod env) (pe_failed_at (lc_pub env))"
    and inv: "serial_delegation (tables (w_store w))"
  shows "serial_delegation (tables (w_store w'))"
proof -
  define rs where "rs = tables (w_store w)"
  have d: "distinct (map worker_run_id rs)" and one: "length (filter (in_flight_for p) rs) \<le> 1" for p
    using inv by (auto simp: serial_delegation_def rs_def)
  from worker_step_rows [OF assms(1,2), folded rs_def] consider
      "tables (w_store w') = rs"
    | i s t where "worker_move s t"
        "tables (w_store w') = cas_update worker_run_id wr_state i s (set_worker_state t (lc_now env)) rs"
    | row where "tables (w_store w') = rs @ [row]" "worker_run_id row \<notin> worker_run_id ` set rs"
        "\<forall>p. in_flight_for p row \<longrightarrow> filter (in_flight_for p) rs = []"
    | P where "tables (w_store w') = filter P rs"
    by blast
  then show ?thesis
  proof cases
    case 2
    then show ?thesis
      using d one order_trans [OF update_in_flight one] by (simp add: serial_delegation_def worker_rows.keys_update)
  next
    case 3
    with d one show ?thesis by (auto simp: serial_delegation_def)
  next
    case 4
    then show ?thesis
      using d order_trans [OF filter_filter_le one]
      by (simp add: serial_delegation_def distinct_map_filter del: filter_filter)
  qed (use inv in \<open>simp add: rs_def\<close>)
qed

lemma worker_step_moves:
  assumes "worker_step env False w w'" and "IsoDatetimeString (lc_zod env) (pe_failed_at (lc_pub env))"
    and "find_by worker_run_id i (tables (w_store w)) = Some row"
  shows "\<exists>row'. find_by worker_run_id i (tables (w_store w')) = Some row'
    \<and> worker_move\<^sup>=\<^sup>= (wr_state row) (wr_state row')"
  using worker_step_rows [OF assms(1,2)] assms(3)
  by (auto simp: worker_rows.find_update find_by_append worker_rows.state_advance)

text \<open>When every check of a call passes, it returns.\<close>

lemma updateState_succeeds:
  assumes "find_by worker_run_id i rs = Some row" and "distinct (map worker_run_id rs)" and "js_trim i \<noteq> []"
    and "mapRowToDomain zod row = Inr r" and "IsoDatetimeString zod now" and "wr_created_at row \<le> now"
  shows "updateState zod i (wr_state row) t now rs =
    (Inr (r\<lparr>wr_state := t, wr_updated_at := now\<rparr>),
     cas_update worker_run_id wr_state i (wr_state row) (set_worker_state t now) rs)"
proof -
  have mem: "row \<in> set rs" "worker_run_id row = i" using assms(1) by (auto dest: find_by_Some_mem)
  have uniq: "x = row" if "x \<in> set rs" "worker_run_id x = i" for x
    using that assms(1,2) find_by_unique by fastforce
  have "list_all (\<lambda>x. worker_run_id x = i \<and> wr_state x = wr_state row
      \<longrightarrow> row_check (set_worker_state t now x)) rs"
    using uniq assms(6) by (auto simp: list_all_iff row_check_def set_worker_state_def)
  moreover have "cas_changes worker_run_id wr_state i (wr_state row) rs \<noteq> 0"
    using mem by (auto simp: cas_changes_0)
  moreover have "find_by worker_run_id i (cas_update worker_run_id wr_state i (wr_state row) (set_worker_state t now) rs)
      = Some (set_worker_state t now row)"
    using assms(1) by (simp add: worker_rows.find_update)
  moreover have "mapRowToDomain zod (set_worker_state t now row) = Inr (r\<lparr>wr_state := t, wr_updated_at := now\<rparr>)"
    using assms(4,5)
    by (auto simp: mapRowToDomain_def parseWorkerRun_def DelegatedWorkerRun_ok_def set_worker_state_def
        worker_run.defs split: option.splits if_splits)
  ultimately show ?thesis
    using assms(3,5) by (simp add: updateState_def and_then_def storage_parseNonEmptyString_def Let_def)
qed

section \<open>Properties\<close>

text \<open>a transition of a worker run is checked against the table and recorded with it: when the call
  returns, the run's row was in a state from which the table allows the new one, only that row
  changed, and the log gained the row that names the old and the new state; when it throws, neither
  the log nor the table changed.\<close>

theorem worker_transition_is_checked_and_recorded:
  assumes "IsoDatetimeString (lc_zod env) (pe_failed_at (lc_pub env))"
  shows "case transition env i t extras w of
      (Inl err, w') \<Rightarrow> durable (w_store w') = durable (w_store w)
    | (Inr r, w') \<Rightarrow> \<exists>row entry audit.
        find_by worker_run_id (js_trim i) (tables (w_store w)) = Some row
        \<and> t \<in> set (ALLOWED_TRANSITIONS (wr_state row))
        \<and> find_by worker_run_id (js_trim i) (tables (w_store w')) = Some (row\<lparr>wr_state := t, wr_updated_at := lc_now env\<rparr>)
        \<and> (\<forall>j. j \<noteq> js_trim i \<longrightarrow> find_by worker_run_id j (tables (w_store w')) = find_by worker_run_id j (tables (w_store w)))
        \<and> events (w_store w') = events (w_store w) @ entry # audit
        \<and> entity_id entry = js_trim i
        \<and> payload_json entry = json_of_state_changed
            (extras\<lparr>workerId := js_trim i, sc_state := t, previousState := wr_state row\<rparr>)"
proof (cases "on_store (on_tables (requireWorkerRun (lc_zod env) i)) w")
  case (Pair r0 w0)
  show ?thesis
  proof (cases r0)
    case (Inl e)
    with Pair have "tables (w_store w0) = tables (w_store w)" "events (w_store w0) = events (w_store w)"
      using requireWorkerRun_throws [of "lc_zod env" i "tables (w_store w)"]
      by (auto simp: on_store_apply on_tables_def case_prod_unfold) (metis prod.collapse)
    with Pair Inl show ?thesis by (simp add: transition_def and_then_def durable_def)
  next
    case (Inr snap)
    with Pair have "requireWorkerRun (lc_zod env) i (tables (w_store w)) = (Inr snap, tables (w_store w0))"
      and ev: "events (w_store w0) = events (w_store w)"
      by (auto simp: on_store_apply on_tables_def case_prod_unfold) (metis prod.collapse)
    then obtain row where row: "tables (w_store w0) = tables (w_store w)"
      "find_by worker_run_id (js_trim i) (tables (w_store w)) = Some row"
      "worker_run_id snap = js_trim i" "wr_state snap = wr_state row"
      by (auto elim: requireWorkerRun_returns)
    have t: "transition env i t extras w = commit_transition env snap t extras w0"
      using Pair Inr by (simp add: transition_def and_then_def)
    show ?thesis
    proof (cases "commit_transition env snap t extras w0")
      case (Pair r w')
      show ?thesis
      proof (cases r)
        case (Inl e)
        with Pair commit_transition_throws [OF assms, of snap t extras w0 e w'] t row(1) ev
        show ?thesis by (simp add: durable_def)
      next
        case (Inr x)
        with Pair have "commit_transition env snap t extras w0 = (Inr x, w')" by simp
        then obtain entry audit where "worker_move (wr_state snap) t"
          "tables (w_store w') = cas_update worker_run_id wr_state (worker_run_id snap) (wr_state snap)
             (set_worker_state t (lc_now env)) (tables (w_store w0))"
          "events (w_store w') = events (w_store w0) @ entry # audit" "entity_id entry = worker_run_id snap"
          "payload_json entry = json_of_state_changed
             (extras\<lparr>workerId := worker_run_id snap, sc_state := t, previousState := wr_state snap\<rparr>)"
          by (rule commit_transition_returns [OF assms])
        with Pair Inr t row ev show ?thesis
          by (auto simp: worker_rows.find_update set_worker_state_def option.map_ident)
      qed
    qed
  qed
qed

text \<open>C13: whatever concurrent callers do with snapshots read earlier, a worker run only moves along the
  table, and so a completed or aborted run can only be frozen and a frozen run stays frozen.\<close>

theorem worker_runs_stay_on_the_table:
  assumes "(worker_step env False)\<^sup>*\<^sup>* w w'" and "IsoDatetimeString (lc_zod env) (pe_failed_at (lc_pub env))"
    and "find_by worker_run_id i (tables (w_store w)) = Some row"
  shows "\<exists>row'. find_by worker_run_id i (tables (w_store w')) = Some row'
    \<and> (\<lambda>s t. t \<in> set (ALLOWED_TRANSITIONS s))\<^sup>*\<^sup>* (wr_state row) (wr_state row')
    \<and> (wr_state row = Frozen \<longrightarrow> wr_state row' = Frozen)
    \<and> (wr_state row \<in> {Run_completed, Aborted} \<longrightarrow> wr_state row' \<in> {wr_state row, Frozen})"
proof -
  from assms(1) have "\<exists>row'. find_by worker_run_id i (tables (w_store w')) = Some row'
      \<and> worker_move\<^sup>*\<^sup>* (wr_state row) (wr_state row')"
  proof (induction rule: rtranclp_induct)
    case (step y z)
    then obtain ry where ry: "find_by worker_run_id i (tables (w_store y)) = Some ry"
      "worker_move\<^sup>*\<^sup>* (wr_state row) (wr_state ry)" by blast
    from worker_step_moves [OF step(2) assms(2) ry(1)] ry(2) show ?case
      by (auto intro: rtranclp.rtrancl_into_rtrancl)
  qed (use assms(3) in auto)
  moreover have "worker_move\<^sup>*\<^sup>* s t \<Longrightarrow> (s = Frozen \<longrightarrow> t = Frozen)
      \<and> (s \<in> {Run_completed, Aborted} \<longrightarrow> t \<in> {s, Frozen})" for s t
    by (induction rule: rtranclp_induct) (auto simp: ALLOWED_TRANSITIONS_def)
  ultimately show ?thesis by blast
qed

text \<open>C14: whatever concurrent callers do, no principal ever has two delegated workers in flight
  (initialised, active or suspended).\<close>

theorem delegation_stays_serial:
  assumes "(worker_step env True)\<^sup>*\<^sup>* w w'" and "IsoDatetimeString (lc_zod env) (pe_failed_at (lc_pub env))"
    and "tables (w_store w) = []"
  shows "length (filter (in_flight_for p) (tables (w_store w'))) \<le> 1"
proof -
  from assms(1) have "serial_delegation (tables (w_store w'))"
    by (induction rule: rtranclp_induct)
      (use assms(3) worker_step_serial [OF _ assms(2)] in \<open>auto simp: serial_delegation_def\<close>)
  then show ?thesis by (simp add: serial_delegation_def)
qed

text \<open>a run can always be stopped: from every state but frozen, \<^verbatim>\<open>freeze\<close> on a readable run with
  a valid clock, a source, a summary and a log that accepts the row returns, and the run is frozen.\<close>

theorem unfrozen_run_can_be_frozen:
  assumes "IsoDatetimeString (lc_zod env) (pe_failed_at (lc_pub env))"
    and row: "find_by worker_run_id (js_trim i) (tables (w_store w)) = Some row"
      "distinct (map worker_run_id (tables (w_store w)))" "mapRowToDomain (lc_zod env) row = Inr snap"
      "wr_state row \<noteq> Frozen"
    and "BoundedId (js_trim i)" and "BoundedLabel (js_trim src)" and "BoundedReason (js_trim summary)"
    and clock: "date_parse (lc_dates env) (lc_now env) = Some epoch" "IsoDatetimeString (lc_zod env) (lc_now env)"
      "wr_created_at row \<le> lc_now env"
    and log: "appendInCurrentTransaction (pe_log (lc_pub env)) (buildStateChangedEvent snap
      (no_extras\<lparr>panicSource := Some (js_trim src), panicSummary := Some (js_trim summary),
         workerId := js_trim i, sc_state := Frozen, previousState := wr_state row\<rparr>)) (w_store w) = (Inr entry, s1)"
  shows "fst (freeze_run env i src summary w) = Inr (snap\<lparr>wr_state := Frozen, wr_updated_at := lc_now env\<rparr>)"
proof -
  have ne: "js_trim i \<noteq> []" "js_trim src \<noteq> []" "js_trim summary \<noteq> []"
    using assms by (auto simp: BoundedString_def)
  have snap: "worker_run_id snap = js_trim i" "wr_state snap = wr_state row"
    using row(1,3) by (auto simp: mapRowToDomain_def parseWorkerRun_def worker_run.defs split: option.splits if_splits
        dest: find_by_Some_mem)
  have read: "on_store (on_tables (requireWorkerRun (lc_zod env) i)) w = (Inr snap, w)"
    using ne(1) row by (simp add: on_store_def on_tables_def requireWorkerRun_def requireNonEmptyString_def and_then_def
        wr_getById_def storage_parseNonEmptyString_def Let_def)
  have move: "assertWorkerTransition (wr_state snap) Frozen = Inr ()"
    using row(4) snap(2) by (cases "wr_state row") (auto simp: assertWorkerTransition_def ALLOWED_TRANSITIONS_def)
  define payload where "payload = no_extras\<lparr>panicSource := Some (js_trim src), panicSummary := Some (js_trim summary),
    workerId := js_trim i, sc_state := Frozen, previousState := wr_state row\<rparr>"
  have payload: "WorkerStateChangedPayload_ok payload"
    using assms by (simp add: WorkerStateChangedPayload_ok_def payload_def no_extras_def nullable_def)
  define mutate where "mutate = (\<lambda>_ :: event_entry list. and_then (on_tables (updateState (lc_zod env)
    (worker_run_id snap) (wr_state snap) Frozen (lc_now env))) (\<lambda>r. ret (Sync r)))"
  have call: "freeze_run env i src summary w =
      appendManyWithMutation (lc_pub env) [buildStateChangedEvent snap payload] mutate w"
    using ne read move clock(1) payload snap
    by (simp add: freeze_run_def transition_def commit_transition_def requireNonEmptyString_def and_then_def
        resolveNow_def Let_def mutate_def payload_def del: ret_apply)
  have "tables s1 = tables (w_store w)" using log by (simp add: append_returns)
  with updateState_succeeds [OF row(1,2) _ row(3) clock(2,3)] ne(1) snap
  obtain s2 where "mutate [entry] s1 = (Inr (Sync (snap\<lparr>wr_state := Frozen, wr_updated_at := lc_now env\<rparr>)), s2)"
    by (simp add: mutate_def and_then_def on_tables_def)
  with log have txn: "appendManyInTransaction (pe_log (lc_pub env)) [buildStateChangedEvent snap payload] mutate (w_store w)
      = (Inr ([entry], snap\<lparr>wr_state := Frozen, wr_updated_at := lc_now env\<rparr>), s2)"
    unfolding appendMany_returns payload_def by (simp add: and_then_def)
  show ?thesis
    unfolding call
    using committed_cases [OF assms(1), of "appendManyInTransaction (pe_log (lc_pub env))
        [buildStateChangedEvent snap payload] mutate" w] txn
    by (auto simp: appendManyWithMutation_def and_then_def)
qed

section \<open>Concrete instances\<close>

definition sample_run :: worker_run where
  "sample_run = \<lparr> worker_run_id = ''r1'', principal_run_id = ''p'', wr_workspace_id = ''w'', requesting_run_id = ''p'',
     wr_engine_class = Coding_engine, wr_state = Active, subtask_description = ''task'', local_surface_ref = ''s'',
     local_evidence_pointer = None, restricted_tool_set = [''grep''],
     wr_local_budget = \<lparr> max_worker_delegations = 0, max_tool_calls = 5, max_output_tokens = 9, max_wall_time_ms = 1 \<rparr>,
     agreed_return_format = \<lparr> allowed_return_kinds = [Handoff], requires_structured_summary = True \<rparr>,
     principal_security_snapshot = \<lparr> governance_lease_ref = ''l'', hard_constraint_refs = [], denied_tool_categories = [] \<rparr>,
     wr_created_at = ''2024-05-01T10:00:00.000Z'', wr_updated_at = ''2024-05-01T10:00:00.000Z'' \<rparr>"

definition sample_row :: worker_row where
  "sample_row = worker_run.extend sample_run
     \<lparr> requesting_principal_run_id = Some ''p'', requesting_worker_run_id = None \<rparr>"

definition worker_env :: "nat lifecycle_env" where
  "worker_env = \<lparr> lc_pub = quiet_env, lc_dates = \<lparr> date_parse = (\<lambda>_. Some 0), to_iso_string = (\<lambda>_. []) \<rparr>,
     lc_now = ''2024-05-01T10:00:00.000Z'' \<rparr>"

definition worker_world_of :: "worker_row list \<Rightarrow> nat worker_world" where
  "worker_world_of rs = \<lparr> w_store = \<lparr> events = [], tables = rs, draws = 0 \<rparr>, w_ports = 0, w_warnings = [] \<rparr>"

lemma worker_env_zod [simp]: "lc_zod worker_env = sample_zod" "pe_failed_at (lc_pub worker_env) = ''2024-05-01T10:00:01.000Z''"
  "lc_now worker_env = ''2024-05-01T10:00:00.000Z''" "lc_pub worker_env = quiet_env"
  by (simp_all add: worker_env_def quiet_env_def)

lemma sample_later_ok: "IsoDatetimeString sample_zod ''2024-05-01T10:00:01.000Z''"
  by code_simp

lemma worker_env_clock: "IsoDatetimeString (lc_zod worker_env) (pe_failed_at (lc_pub worker_env))"
  using sample_later_ok unfolding worker_env_zod by (simp add: quiet_env_def)

lemma sample_row_reads: "mapRowToDomain sample_zod sample_row = Inr sample_run"
  using sample_now_ok
  by (simp add: mapRowToDomain_def sample_row_def sample_run_def worker_run.defs parseWorkerRun_def
      DelegatedWorkerRun_ok_def BoundedString_def nullable_def)

theorem worker_transition_is_checked_and_recorded_witness:
  "case transition worker_env ''r1'' Frozen no_extras (worker_world_of [sample_row]) of
      (Inl err, w') \<Rightarrow> durable (w_store w') = ([], [sample_row])
    | (Inr r, w') \<Rightarrow> \<exists>row. find_by worker_run_id ''r1'' [sample_row] = Some row
        \<and> Frozen \<in> set (ALLOWED_TRANSITIONS (wr_state row))
        \<and> find_by worker_run_id ''r1'' (tables (w_store w')) = Some (row\<lparr>wr_state := Frozen, wr_updated_at := ''2024-05-01T10:00:00.000Z''\<rparr>)"
proof -
  have "js_trim ''r1'' = ''r1''" by code_simp
  then show ?thesis
    using worker_transition_is_checked_and_recorded [OF worker_env_clock, where i = "''r1''" and t = Frozen
        and extras = no_extras and w = "worker_world_of [sample_row]"]
    by (auto simp: worker_world_of_def durable_def split: prod.splits sum.splits)
qed

theorem worker_runs_stay_on_the_table_witness:
  "\<exists>row'. find_by worker_run_id ''r1'' (tables (w_store (snd (commit_transition worker_env sample_run Suspended no_extras
      (worker_world_of [sample_row]))))) = Some row'
    \<and> (\<lambda>s t. t \<in> set (ALLOWED_TRANSITIONS s))\<^sup>*\<^sup>* Active (wr_state row')"
proof -
  have row: "find_by worker_run_id ''r1'' (tables (w_store (worker_world_of [sample_row]))) = Some sample_row"
    by (simp add: worker_world_of_def find_by_def sample_row_def sample_run_def worker_run.defs)
  have "worker_step worker_env False (worker_world_of [sample_row])
      (snd (commit_transition worker_env sample_run Suspended no_extras (worker_world_of [sample_row])))"
    by (rule worker_step.commit) (rule prod.collapse [symmetric])
  from worker_runs_stay_on_the_table [OF r_into_rtranclp [where r = "worker_step worker_env False", OF this] worker_env_clock row] show ?thesis
    by (auto simp: sample_row_def sample_run_def worker_run.defs)
qed

theorem delegation_stays_serial_witness:
  "length (filter (in_flight_for ''p'') (tables (w_store (snd (on_store (on_tables
      (insertIfNoActiveForPrincipal (lc_zod worker_env) (requesting_run_id sample_run) sample_run)) (worker_world_of [])))))) \<le> 1"
proof -
  have "worker_step worker_env True (worker_world_of []) (snd (on_store (on_tables
      (insertIfNoActiveForPrincipal (lc_zod worker_env) (requesting_run_id sample_run) sample_run)) (worker_world_of [])))"
    by (rule worker_step.insert) (rule prod.collapse [symmetric])
  from delegation_stays_serial [OF r_into_rtranclp [where r = "worker_step worker_env True", OF this] worker_env_clock] show ?thesis
    by (simp add: worker_world_of_def)
qed

theorem unfrozen_run_can_be_frozen_witness:
  "fst (freeze_run worker_env ''r1'' ''panic'' ''why'' (worker_world_of [sample_row])) =
     Inr (sample_run\<lparr>wr_state := Frozen, wr_updated_at := ''2024-05-01T10:00:00.000Z''\<rparr>)"
proof -
  have trims: "js_trim ''r1'' = ''r1''" "js_trim ''panic'' = ''panic''" "js_trim ''why'' = ''why''" by code_simp+
  have zero: "js_string_of_nat 0 = ''0''" by code_simp
  define ev where "ev = buildStateChangedEvent sample_run (no_extras\<lparr>panicSource := Some ''panic'',
    panicSummary := Some ''why'', workerId := ''r1'', sc_state := Frozen, previousState := Active\<rparr>)"
  define entry where "entry = complete_entry ev ''e0'' 0 ''2024-05-01T10:00:00.000Z''"
  have size: "length (json_stringify (JObject (payload_json ev))) \<le> 200"
    unfolding ev_def by code_simp
  have log: "appendInCurrentTransaction (pe_log quiet_env) ev (w_store (worker_world_of [sample_row]))
      = (Inr entry, \<lparr> events = [entry], tables = [sample_row], draws = 1 \<rparr>)"
    using sample_now_ok zero size
    by (simp add: append_returns entry_def EventLogEntry_ok_def quiet_env_def worker_world_of_def computeNextRevision_def
        BoundedString_def EVENT_LOG_PAYLOAD_MAX_CHARS_def nullable_def del: json_stringify.simps)
      (simp add: ev_def buildStateChangedEvent_def sample_run_def BoundedString_def)
  have fields: "wr_state sample_row = Active" "wr_created_at sample_row = ''2024-05-01T10:00:00.000Z''"
    "worker_run_id sample_row = ''r1''"
    by (simp_all add: sample_row_def sample_run_def worker_run.defs)
  have "fst (freeze_run worker_env ''r1'' ''panic'' ''why'' (worker_world_of [sample_row])) =
      Inr (sample_run\<lparr>wr_state := Frozen, wr_updated_at := lc_now worker_env\<rparr>)"
  proof (rule unfrozen_run_can_be_frozen [OF worker_env_clock, where row = sample_row and epoch = 0])
    show "appendInCurrentTransaction (pe_log (lc_pub worker_env)) (buildStateChangedEvent sample_run
        (no_extras\<lparr>panicSource := Some (js_trim ''panic''), panicSummary := Some (js_trim ''why''),
          workerId := js_trim ''r1'', sc_state := Frozen, previousState := wr_state sample_row\<rparr>))
        (w_store (worker_world_of [sample_row])) = (Inr entry, \<lparr> events = [entry], tables = [sample_row], draws = 1 \<rparr>)"
      unfolding trims fields worker_env_zod log [unfolded ev_def] by (rule refl)
    show "mapRowToDomain (lc_zod worker_env) sample_row = Inr sample_run"
      using sample_row_reads by (simp add: quiet_env_def)
    show "IsoDatetimeString (lc_zod worker_env) (lc_now worker_env)"
      using sample_now_ok by (simp add: quiet_env_def)
  qed (simp_all add: trims fields worker_world_of_def find_by_def BoundedString_def worker_env_def)
  then show ?thesis by simp
qed

end
