(* ===== verification/DeferredObligation.thy ===== *)
theory DeferredObligation
  imports StateTable
begin

text \<open>
  Deferred obligations: \<^verbatim>\<open>core/src/governance/policy/deferred-obligation-service.ts\<close> over the table of
  \<^verbatim>\<open>storage/src/repos/governance/deferred-obligation-repo.ts\<close>. An obligation is created pending with its
  log row, and leaves that state once, fulfilled or expired, by a compare-and-set in the transaction
  that appends the row. The optional extra rows of \<^verbatim>\<open>create\<close> are the argument \<open>additional\<close>.
\<close>

section \<open>Data\<close>

datatype obligation_kind = Safety_finding | Data_cleanup | Evidence_refresh | Governance_pledge

datatype obligation_state = Ob_pending | Ob_fulfilled | Ob_expired | Ob_waived

record obligation =
  obligation_id :: string
  ob_kind :: obligation_kind
  ob_state :: obligation_state
  description :: string
  source_run_id :: string
  ob_workspace_id :: string
  target_entity_id :: "string option"
  ob_created_at :: string
  expires_at :: string
  fulfilled_at :: "string option"

definition obligation_kind_name :: "obligation_kind \<Rightarrow> string" where
  "obligation_kind_name k = (case k of Safety_finding \<Rightarrow> ''safety_finding'' | Data_cleanup \<Rightarrow> ''data_cleanup''
     | Evidence_refresh \<Rightarrow> ''evidence_refresh'' | Governance_pledge \<Rightarrow> ''governance_pledge'')"

definition obligation_state_name :: "obligation_state \<Rightarrow> string" where
  "obligation_state_name s = (case s of Ob_pending \<Rightarrow> ''pending'' | Ob_fulfilled \<Rightarrow> ''fulfilled''
     | Ob_expired \<Rightarrow> ''expired'' | Ob_waived \<Rightarrow> ''waived'')"

definition DeferredObligation_ok :: "(string \<Rightarrow> bool) \<Rightarrow> obligation \<Rightarrow> bool" where
  "DeferredObligation_ok zod ob \<longleftrightarrow>
     NonEmptyString (obligation_id ob) \<and> NonEmptyString (description ob) \<and> NonEmptyString (source_run_id ob)
     \<and> NonEmptyString (ob_workspace_id ob) \<and> nullable NonEmptyString (target_entity_id ob)
     \<and> IsoDatetimeString zod (ob_created_at ob) \<and> IsoDatetimeString zod (expires_at ob)
     \<and> nullable (IsoDatetimeString zod) (fulfilled_at ob)"

definition parseDeferredObligation :: "(string \<Rightarrow> bool) \<Rightarrow> obligation \<Rightarrow> string + obligation" where
  "parseDeferredObligation zod ob =
     (if DeferredObligation_ok zod ob then Inr ob
      else Inl (coded_error ''VALIDATION_FAILED'' ''Failed to validate deferred obligation.''))"

section \<open>The table\<close>

text \<open>The schema's row check: exactly the fulfilled obligations carry a time of fulfilment.\<close>

definition ob_row_check :: "obligation \<Rightarrow> bool" where
  "ob_row_check ob \<longleftrightarrow> (ob_state ob = Ob_fulfilled \<longleftrightarrow> fulfilled_at ob \<noteq> None)"

definition ob_query_failed :: "string \<Rightarrow> string + 'a \<Rightarrow> string + 'a" where
  "ob_query_failed message r = (case r of Inl _ \<Rightarrow> Inl (coded_error ''QUERY_FAILED'' message) | Inr x \<Rightarrow> Inr x)"

definition ob_readById :: "(string \<Rightarrow> bool) \<Rightarrow> string \<Rightarrow> obligation list \<Rightarrow> string + obligation option" where
  "ob_readById zod i rs =
     ob_query_failed (''Failed to load deferred obligation '' @ i @ ''.'')
       (case find_by obligation_id i rs of
          None \<Rightarrow> Inr None
        | Some row \<Rightarrow> map_sum id Some (parseDeferredObligation zod row))"

definition ob_getById :: "(string \<Rightarrow> bool) \<Rightarrow> string \<Rightarrow> (obligation list, obligation option) action" where
  "ob_getById zod i =
     and_then (lift_result (storage_parseNonEmptyString i ''obligation id'')) (\<lambda>i rs. (ob_readById zod i rs, rs))"

definition ob_create :: "(string \<Rightarrow> bool) \<Rightarrow> obligation \<Rightarrow> (obligation list, obligation) action" where
  "ob_create zod ob =
     and_then (lift_result (parseDeferredObligation zod ob)) (\<lambda>parsed rs.
       if obligation_id parsed \<in> obligation_id ` set rs \<or> \<not> ob_row_check parsed
       then (Inl (coded_error ''QUERY_FAILED''
              (''Failed to insert deferred obligation '' @ obligation_id parsed @ ''.'')), rs)
       else let rs' = rs @ [parsed]
            in case ob_readById zod (obligation_id parsed) rs' of
                 Inl e \<Rightarrow> (Inl e, rs')
               | Inr None \<Rightarrow> (Inl (coded_error ''NOT_FOUND''
                     (''Deferred obligation '' @ obligation_id parsed @ '' was not found after insert.'')), rs')
               | Inr (Some inserted) \<Rightarrow> (Inr inserted, rs'))"

definition parseIsoDatetimeNow :: "(string \<Rightarrow> bool) \<Rightarrow> string \<Rightarrow> string + string" where
  "parseIsoDatetimeNow zod now =
     (if IsoDatetimeString zod now then Inr now
      else Inl (coded_error ''VALIDATION_FAILED'' ''Failed to validate timestamp.''))"

definition parseFulfilledAtForState ::
  "(string \<Rightarrow> bool) \<Rightarrow> string \<Rightarrow> obligation_state \<Rightarrow> string option \<Rightarrow> string + string option" where
  "parseFulfilledAtForState zod systemNow nextState value =
     (if nextState = Ob_fulfilled
      then map_sum id Some (parseIsoDatetimeNow zod (case value of None \<Rightarrow> systemNow | Some v \<Rightarrow> v))
      else Inr None)"

definition set_ob_state :: "obligation_state \<Rightarrow> string option \<Rightarrow> obligation \<Rightarrow> obligation" where
  "set_ob_state s at_time ob = ob\<lparr>ob_state := s, fulfilled_at := at_time\<rparr>"

definition throwStateUpdateFailure ::
  "(string \<Rightarrow> bool) \<Rightarrow> string \<Rightarrow> obligation_state \<Rightarrow> obligation list \<Rightarrow> string" where
  "throwStateUpdateFailure zod i expectedState rs =
     (case ob_readById zod i rs of
        Inl e \<Rightarrow> e
      | Inr None \<Rightarrow> coded_error ''NOT_FOUND'' (''Deferred obligation '' @ i @ '' was not found.'')
      | Inr (Some existing) \<Rightarrow> coded_error ''CONFLICT''
          (''CAS failed for deferred obligation '' @ i @ '': expected '' @ obligation_state_name expectedState
           @ '', found '' @ obligation_state_name (ob_state existing) @ ''.''))"

definition ob_updateState ::
  "(string \<Rightarrow> bool) \<Rightarrow> string \<Rightarrow> string \<Rightarrow> obligation_state \<Rightarrow> obligation_state \<Rightarrow> string option
     \<Rightarrow> (obligation list, obligation) action" where
  "ob_updateState zod systemNow obligationId expectedState nextState fulfilledAt =
     and_then (lift_result (storage_parseNonEmptyString obligationId ''obligation id'')) (\<lambda>i.
     and_then (lift_result (parseFulfilledAtForState zod systemNow nextState fulfilledAt)) (\<lambda>at_time rs.
       if \<not> list_all (\<lambda>row. obligation_id row = i \<and> ob_state row = expectedState
              \<longrightarrow> ob_row_check (set_ob_state nextState at_time row)) rs
       then (Inl (coded_error ''QUERY_FAILED'' (''Failed to update deferred obligation '' @ i @ ''.'')), rs)
       else if cas_changes obligation_id ob_state i expectedState rs = 0
       then (Inl (throwStateUpdateFailure zod i expectedState rs), rs)
       else let rs' = cas_update obligation_id ob_state i expectedState (set_ob_state nextState at_time) rs
            in case ob_readById zod i rs' of
                 Inl e \<Rightarrow> (Inl e, rs')
               | Inr None \<Rightarrow> (Inl (coded_error ''NOT_FOUND''
                     (''Deferred obligation '' @ i @ '' was not found after update.'')), rs')
               | Inr (Some updated) \<Rightarrow> (Inr updated, rs')))"

primrec parse_all :: "(string \<Rightarrow> bool) \<Rightarrow> obligation list \<Rightarrow> string + obligation list" where
  "parse_all zod [] = Inr []"
| "parse_all zod (ob # obs) =
     (case parseDeferredObligation zod ob of
        Inl e \<Rightarrow> Inl e
      | Inr x \<Rightarrow> (case parse_all zod obs of Inl e \<Rightarrow> Inl e | Inr xs \<Rightarrow> Inr (x # xs)))"

definition pending_where :: "(obligation \<Rightarrow> bool) \<Rightarrow> obligation list \<Rightarrow> obligation list" where
  "pending_where P rs = filter (\<lambda>ob. P ob \<and> ob_state ob = Ob_pending) rs"

definition ob_findActiveByRun :: "(string \<Rightarrow> bool) \<Rightarrow> string \<Rightarrow> (obligation list, obligation list) action" where
  "ob_findActiveByRun zod runId =
     and_then (lift_result (storage_parseNonEmptyString runId ''run id'')) (\<lambda>run rs.
       (ob_query_failed (''Failed to load active deferred obligations for run '' @ run @ ''.'')
          (parse_all zod (sort_key ob_created_at (pending_where (\<lambda>ob. source_run_id ob = run) rs))), rs))"

definition ob_findActiveByWorkspace :: "(string \<Rightarrow> bool) \<Rightarrow> string \<Rightarrow> (obligation list, obligation list) action" where
  "ob_findActiveByWorkspace zod workspaceId =
     and_then (lift_result (storage_parseNonEmptyString workspaceId ''workspace id'')) (\<lambda>ws rs.
       (ob_query_failed (''Failed to load active deferred obligations for workspace '' @ ws @ ''.'')
          (parse_all zod (sort_key ob_created_at (pending_where (\<lambda>ob. ob_workspace_id ob = ws) rs))), rs))"

text \<open>\<^verbatim>\<open>alaya_utc_compare(expires_at, ?) < 0\<close>, where no verdict is SQL null and so not selected.\<close>

definition ob_findExpired :: "(string \<Rightarrow> bool) \<Rightarrow> string \<Rightarrow> (obligation list, obligation list) action" where
  "ob_findExpired zod now =
     and_then (lift_result (parseIsoDatetimeNow zod now)) (\<lambda>t rs.
       (ob_query_failed ''Failed to load expired deferred obligations.''
          (parse_all zod (sort_key expires_at (pending_where (\<lambda>ob. case compareUtcInstants zod (expires_at ob) t of
             None \<Rightarrow> False | Some v \<Rightarrow> v < 0) rs))), rs))"

section \<open>The service\<close>

record 'n obligation_env =
  oe_pub :: "'n pub_env"
  oe_now :: string
  oe_newId :: string

type_synonym 'n obligation_world = "(obligation list, 'n) world"

abbreviation oe_zod :: "'n obligation_env \<Rightarrow> string \<Rightarrow> bool" where
  "oe_zod env \<equiv> le_zod (pe_log (oe_pub env))"

record create_input =
  ci_kind :: obligation_kind
  ci_description :: string
  ci_sourceRunId :: string
  ci_workspaceId :: string
  ci_targetEntityId :: "string option"
  ci_expiresAt :: string

definition parseIsoDatetime :: "(string \<Rightarrow> bool) \<Rightarrow> string \<Rightarrow> string \<Rightarrow> string + string" where
  "parseIsoDatetime zod field value =
     (if IsoDatetimeString zod value then Inr value
      else Inl (coded_error ''VALIDATION'' (field @ '' must be a valid ISO datetime string'')))"

definition ob_resolveNow :: "'n obligation_env \<Rightarrow> string + string" where
  "ob_resolveNow env = parseIsoDatetime (oe_zod env) ''now'' (oe_now env)"

definition resolveObligationId :: "'n obligation_env \<Rightarrow> string + string" where
  "resolveObligationId env = parseNonEmptyString (oe_newId env) ''obligationId''"

definition normalizeOptionalString :: "string option \<Rightarrow> string + string option" where
  "normalizeOptionalString value =
     (case value of None \<Rightarrow> Inr None | Some v \<Rightarrow> map_sum id Some (parseNonEmptyString v ''targetEntityId''))"

definition obligation_created_json :: "obligation \<Rightarrow> json_object" where
  "obligation_created_json ob =
     [(''obligation_id'', JString (obligation_id ob)), (''kind'', JString (obligation_kind_name (ob_kind ob))),
      (''state'', JString (obligation_state_name (ob_state ob))), (''description'', JString (description ob)),
      (''source_run_id'', JString (source_run_id ob)), (''workspace_id'', JString (ob_workspace_id ob))]
     @ (case target_entity_id ob of None \<Rightarrow> [] | Some t \<Rightarrow> [(''target_entity_id'', JString t)])
     @ [(''created_at'', JString (ob_created_at ob)), (''expires_at'', JString (expires_at ob))]"

definition obligation_event :: "string \<Rightarrow> obligation \<Rightarrow> json_object \<Rightarrow> event_input" where
  "obligation_event etype ob payload =
     \<lparr> event_type = etype, entity_type = ''deferred_obligation'', entity_id = obligation_id ob,
       workspace_id = ob_workspace_id ob, run_id = Some (source_run_id ob),
       caused_by = Some ''deferred_obligation_service'', payload_json = payload \<rparr>"

text \<open>The obligation of a request; the schema refuses texts beyond its limits.\<close>

definition build_obligation :: "'n obligation_env \<Rightarrow> create_input \<Rightarrow> string + obligation" where
  "build_obligation env params =
     (case ob_resolveNow env of Inl e \<Rightarrow> Inl e | Inr now \<Rightarrow>
     (case resolveObligationId env of Inl e \<Rightarrow> Inl e | Inr i \<Rightarrow>
     (case parseNonEmptyString (ci_description params) ''description'' of Inl e \<Rightarrow> Inl e | Inr d \<Rightarrow>
     (case parseNonEmptyString (ci_sourceRunId params) ''sourceRunId'' of Inl e \<Rightarrow> Inl e | Inr run \<Rightarrow>
     (case parseNonEmptyString (ci_workspaceId params) ''workspaceId'' of Inl e \<Rightarrow> Inl e | Inr ws \<Rightarrow>
     (case normalizeOptionalString (ci_targetEntityId params) of Inl e \<Rightarrow> Inl e | Inr target \<Rightarrow>
     (case parseIsoDatetime (oe_zod env) ''expiresAt'' (ci_expiresAt params) of Inl e \<Rightarrow> Inl e | Inr expiry \<Rightarrow>
        let ob = \<lparr> obligation_id = i, ob_kind = ci_kind params, ob_state = Ob_pending, description = d,
                   source_run_id = run, ob_workspace_id = ws, target_entity_id = target,
                   ob_created_at = now, expires_at = expiry, fulfilled_at = None \<rparr>
        in if DeferredObligation_ok (oe_zod env) ob then Inr ob else Inl ''ZodError'')))))))"

definition create_obligation ::
  "'n obligation_env \<Rightarrow> create_input \<Rightarrow> (obligation \<Rightarrow> event_input list) \<Rightarrow> ('n obligation_world, obligation) action" where
  "create_obligation env params additional =
     and_then (lift_result (build_obligation env params)) (\<lambda>ob.
       appendManyWithMutation (oe_pub env)
         (obligation_event ''obligation.created'' ob (obligation_created_json ob) # additional ob)
         (\<lambda>_ st. case ob_create (oe_zod env) ob (tables st) of (r, d) \<Rightarrow> (map_sum id Sync r, st\<lparr>tables := d\<rparr>)))"

definition requirePendingObligation :: "(string \<Rightarrow> bool) \<Rightarrow> string \<Rightarrow> (obligation list, obligation) action" where
  "requirePendingObligation zod i =
     and_then (ob_getById zod i) (\<lambda>found.
       case found of
         None \<Rightarrow> throw (coded_error ''NOT_FOUND'' (''Deferred obligation '' @ i @ '' not found''))
       | Some ob \<Rightarrow>
           if ob_state ob \<noteq> Ob_pending
           then throw (coded_error ''CONFLICT'' (''Deferred obligation '' @ i
                  @ '' is not pending; current state is '' @ obligation_state_name (ob_state ob) @ ''.''))
           else ret ob)"

definition read_obligation :: "'n obligation_env \<Rightarrow> string \<Rightarrow> ('n obligation_world, obligation) action" where
  "read_obligation env i w =
     (fst (requirePendingObligation (oe_zod env) i (tables (w_store w))), w)"

text \<open>The write that settles an obligation, and the two calls that prepare it.\<close>

definition settle_obligation ::
  "'n obligation_env \<Rightarrow> string \<Rightarrow> obligation \<Rightarrow> obligation_state \<Rightarrow> string \<Rightarrow> json_object \<Rightarrow> string option
     \<Rightarrow> ('n obligation_world, obligation) action" where
  "settle_obligation env i snapshot nextState etype payload fulfilledAt =
     (if \<not> NonEmptyString i then throw ''ZodError''
      else appendManyWithMutation (oe_pub env)
        [(obligation_event etype snapshot payload)\<lparr>entity_id := i\<rparr>]
        (\<lambda>_ st. case ob_updateState (oe_zod env) (oe_now env) i Ob_pending nextState fulfilledAt (tables st) of
            (r, d) \<Rightarrow> (map_sum id Sync r, st\<lparr>tables := d\<rparr>)))"

definition fulfill :: "'n obligation_env \<Rightarrow> string \<Rightarrow> ('n obligation_world, obligation) action" where
  "fulfill env obligationId =
     and_then (lift_result (parseNonEmptyString obligationId ''obligationId'')) (\<lambda>i.
     and_then (read_obligation env i) (\<lambda>snapshot.
     and_then (lift_result (ob_resolveNow env)) (\<lambda>fulfilledAt.
       settle_obligation env i snapshot Ob_fulfilled ''obligation.fulfilled''
         [(''obligation_id'', JString i), (''fulfilled_at'', JString fulfilledAt)] (Some fulfilledAt))))"

definition expire :: "'n obligation_env \<Rightarrow> string \<Rightarrow> ('n obligation_world, obligation) action" where
  "expire env obligationId =
     and_then (lift_result (parseNonEmptyString obligationId ''obligationId'')) (\<lambda>i.
     and_then (read_obligation env i) (\<lambda>snapshot.
     and_then (lift_result (ob_resolveNow env)) (\<lambda>now.
       if (case compareUtcInstants (oe_zod env) (expires_at snapshot) now of None \<Rightarrow> 1 | Some v \<Rightarrow> v) > 0
       then throw (coded_error ''CONFLICT''
              (''Deferred obligation '' @ i @ '' is not currently eligible for expiry.''))
       else settle_obligation env i snapshot Ob_expired ''obligation.expired''
         [(''obligation_id'', JString i), (''expired_at'', JString now)] None)))"

definition findActiveByRun :: "'n obligation_env \<Rightarrow> string \<Rightarrow> ('n obligation_world, obligation list) action" where
  "findActiveByRun env runId =
     and_then (lift_result (parseNonEmptyString runId ''runId'')) (\<lambda>run w.
       (fst (ob_findActiveByRun (oe_zod env) run (tables (w_store w))), w))"

section \<open>Facts\<close>

abbreviation ob_move :: "obligation_state \<Rightarrow> obligation_state \<Rightarrow> bool" where
  "ob_move s t \<equiv> s = Ob_pending \<and> t \<in> {Ob_fulfilled, Ob_expired}"

interpretation obligation_rows: state_rows obligation_id ob_state set_ob_state ob_move
  by unfold_locales (simp_all add: set_ob_state_def)

lemma ob_readById_Some:
  "ob_readById zod i rs = Inr (Some ob) \<Longrightarrow> find_by obligation_id i rs = Some ob \<and> DeferredObligation_ok zod ob"
  by (auto simp: ob_readById_def ob_query_failed_def parseDeferredObligation_def split: option.splits sum.splits if_splits)

lemma ob_updateState_returns:
  assumes "ob_updateState zod systemNow i e t at_time rs = (Inr ob, rs')"
  obtains x where "rs' = cas_update obligation_id ob_state i e (set_ob_state t x) rs"
    and "cas_changes obligation_id ob_state i e rs \<noteq> 0" and "find_by obligation_id i rs' = Some ob"
  using assms
  by (auto simp: ob_updateState_def and_then_returns storage_parseNonEmptyString_def Let_def
      split: if_splits sum.splits option.splits dest: ob_readById_Some)

lemma ob_create_returns:
  assumes "ob_create zod ob rs = (Inr x, rs')"
  shows "rs' = rs @ [ob] \<and> obligation_id ob \<notin> obligation_id ` set rs \<and> x = ob \<and> DeferredObligation_ok zod ob"
proof -
  from assms have ok: "DeferredObligation_ok zod ob" "obligation_id ob \<notin> obligation_id ` set rs" "ob_row_check ob"
    by (auto simp: ob_create_def and_then_def parseDeferredObligation_def split: if_splits)
  have "find_by obligation_id (obligation_id ob) rs = None" using ok(2) by (simp add: find_by_None)
  then have "ob_readById zod (obligation_id ob) (rs @ [ob]) = Inr (Some ob)"
    using ok(1) by (simp add: ob_readById_def find_by_append parseDeferredObligation_def ob_query_failed_def)
  with assms ok show ?thesis
    by (auto simp: ob_create_def and_then_def parseDeferredObligation_def)
qed

lemma requirePending_returns:
  assumes "fst (requirePendingObligation zod i rs) = Inr ob"
  shows "find_by obligation_id i rs = Some ob \<and> ob_state ob = Ob_pending \<and> DeferredObligation_ok zod ob"
proof -
  from assms have "ob_readById zod i rs = Inr (Some ob)" and "ob_state ob = Ob_pending"
    by (auto simp: requirePendingObligation_def ob_getById_def and_then_def storage_parseNonEmptyString_def
        split: if_splits sum.splits option.splits)
  then show ?thesis using ob_readById_Some by blast
qed

lemma read_obligation_returns:
  assumes "read_obligation env i w = (Inr ob, w')"
  shows "w' = w" and "find_by obligation_id i (tables (w_store w)) = Some ob" and "ob_state ob = Ob_pending"
    and "DeferredObligation_ok (oe_zod env) ob"
  using assms requirePending_returns [of "oe_zod env" i "tables (w_store w)" ob]
  by (auto simp: read_obligation_def)

lemma sync_action: "(case m d of (r, e) \<Rightarrow> (map_sum id Sync r, st\<lparr>tables := e\<rparr>)) = (Inr (Sync a), s2) \<longleftrightarrow>
  (\<exists>e. m d = (Inr a, e) \<and> s2 = st\<lparr>tables := e\<rparr>)"
  by (cases "m d"; cases "fst (m d)") auto

lemma settle_returns:
  assumes ok: "IsoDatetimeString (oe_zod env) (pe_failed_at (oe_pub env))"
    and ret: "settle_obligation env i snap t etype payload at_time w = (Inr ob, w')"
  obtains x entry audit where
    "tables (w_store w') = cas_update obligation_id ob_state i Ob_pending (set_ob_state t x) (tables (w_store w))"
    and "cas_changes obligation_id ob_state i Ob_pending (tables (w_store w)) \<noteq> 0"
    and "find_by obligation_id i (tables (w_store w')) = Some ob"
    and "events (w_store w') = events (w_store w) @ entry # audit"
    and "entity_id entry = i" and "event_type entry = etype"
proof -
  define ev where "ev = (obligation_event etype snap payload)\<lparr>entity_id := i\<rparr>"
  define mutate where "mutate = (\<lambda>(_ :: event_entry list) (st :: obligation list store). case ob_updateState (oe_zod env) (oe_now env) i Ob_pending t at_time (tables st) of
            (r, d) \<Rightarrow> (map_sum id Sync r, st\<lparr>tables := d\<rparr>))"
  from ret have pub: "appendManyWithMutation (oe_pub env) [ev] mutate w = (Inr ob, w')"
    by (auto simp: settle_obligation_def ev_def mutate_def split: if_splits)
  obtain entry s1 s2 audit where
    app: "appendInCurrentTransaction (pe_log (oe_pub env)) ev (w_store w) = (Inr entry, s1)"
    and mut: "mutate [entry] s1 = (Inr (Sync ob), s2)"
    and after: "tables (w_store w') = tables s2" "events (w_store w') = events s2 @ audit"
    by (rule append_one_with_mutation [OF ok pub])
  from app have entry: "events s1 = events (w_store w) @ [entry]" "tables s1 = tables (w_store w)"
      "entity_id entry = i" "event_type entry = etype"
    by (auto simp: append_returns ev_def obligation_event_def)
  obtain d where "ob_updateState (oe_zod env) (oe_now env) i Ob_pending t at_time (tables s1) = (Inr ob, d)"
    and d: "s2 = s1\<lparr>tables := d\<rparr>"
    using mut unfolding mutate_def sync_action by auto
  then obtain x where "d = cas_update obligation_id ob_state i Ob_pending (set_ob_state t x) (tables (w_store w))"
    and "cas_changes obligation_id ob_state i Ob_pending (tables (w_store w)) \<noteq> 0"
    and "find_by obligation_id i d = Some ob"
    using entry(2) by (metis ob_updateState_returns)
  with that [of x entry audit] entry after d show thesis by simp
qed

lemma settle_throws:
  assumes ok: "IsoDatetimeString (oe_zod env) (pe_failed_at (oe_pub env))"
    and "settle_obligation env i snap t etype payload at_time w = (Inl err, w')"
  shows "durable (w_store w') = durable (w_store w)"
  using assms(2) by (auto simp: settle_obligation_def split: if_splits intro: appendManyWithMutation_throws [OF ok])

section \<open>Settling at most once\<close>

text \<open>An attempt to settle an obligation from a snapshot read at any earlier time.\<close>

record attempt =
  at_snapshot :: obligation
  at_next :: obligation_state
  at_event :: string
  at_payload :: json_object
  at_fulfilled :: "string option"

definition try_settle :: "'n obligation_env \<Rightarrow> string \<Rightarrow> attempt \<Rightarrow> 'n obligation_world \<Rightarrow> bool \<times> 'n obligation_world" where
  "try_settle env i a w =
     (case settle_obligation env i (at_snapshot a) (if at_next a = Ob_fulfilled then Ob_fulfilled else Ob_expired)
             (at_event a) (at_payload a) (at_fulfilled a) w of
        (r, w') \<Rightarrow> (\<not> isl r, w'))"

primrec settled_in :: "'n obligation_env \<Rightarrow> (string \<times> attempt) list \<Rightarrow> 'n obligation_world \<Rightarrow> string list" where
  "settled_in env [] w = []"
| "settled_in env (q # qs) w =
     (case try_settle env (fst q) (snd q) w of (won, w') \<Rightarrow> (if won then [fst q] else []) @ settled_in env qs w')"

definition is_open :: "'n obligation_world \<Rightarrow> string \<Rightarrow> bool" where
  "is_open w i \<longleftrightarrow> (\<exists>ob. find_by obligation_id i (tables (w_store w)) = Some ob \<and> ob_state ob = Ob_pending)"

definition ob_good :: "'n obligation_env \<Rightarrow> 'n obligation_world \<Rightarrow> bool" where
  "ob_good env w \<longleftrightarrow> IsoDatetimeString (oe_zod env) (pe_failed_at (oe_pub env))
     \<and> distinct (map obligation_id (tables (w_store w)))"

lemma try_settle_cases:
  assumes "ob_good env w" and "try_settle env i a w = (won, w')"
  shows "if won then is_open w i \<and> (\<exists>x t. t \<noteq> Ob_pending \<and> tables (w_store w') =
        cas_update obligation_id ob_state i Ob_pending (set_ob_state t x) (tables (w_store w)))
      else tables (w_store w') = tables (w_store w)"
proof -
  have ok: "IsoDatetimeString (oe_zod env) (pe_failed_at (oe_pub env))"
    and d: "distinct (map obligation_id (tables (w_store w)))" using assms(1) by (auto simp: ob_good_def)
  define t where "t = (if at_next a = Ob_fulfilled then Ob_fulfilled else Ob_expired)"
  obtain r where r: "settle_obligation env i (at_snapshot a) t (at_event a) (at_payload a) (at_fulfilled a) w = (r, w')"
    and won: "won = (\<not> isl r)"
    using assms(2) by (auto simp: try_settle_def t_def split: prod.splits)
  show ?thesis
  proof (cases r)
    case (Inl e)
    with r won settle_throws [OF ok, of i "at_snapshot a" t "at_event a" "at_payload a" "at_fulfilled a" w e w']
    show ?thesis by (simp add: durable_def)
  next
    case (Inr ob)
    with r have "settle_obligation env i (at_snapshot a) t (at_event a) (at_payload a) (at_fulfilled a) w = (Inr ob, w')"
      by simp
    then obtain x where
      "tables (w_store w') = cas_update obligation_id ob_state i Ob_pending (set_ob_state t x) (tables (w_store w))"
      and "cas_changes obligation_id ob_state i Ob_pending (tables (w_store w)) \<noteq> 0"
      by (rule settle_returns [OF ok])
    moreover from this have "is_open w i" using cas_changes_find [OF d, of ob_state i Ob_pending] by (simp add: is_open_def)
    moreover have "t \<noteq> Ob_pending" by (simp add: t_def)
    ultimately show ?thesis using won Inr by auto
  qed
qed

lemma is_open_update:
  "tables (w_store w') = cas_update obligation_id ob_state i Ob_pending (set_ob_state t x) (tables (w_store w)) \<Longrightarrow>
     t \<noteq> Ob_pending \<Longrightarrow> is_open w' j \<Longrightarrow> is_open w j \<and> j \<noteq> i"
  by (auto simp: is_open_def obligation_rows.find_update obligation_rows.state_advance split: if_splits
      dest!: arg_cong [where f = ob_state])

lemma is_open_same: "tables (w_store w') = tables (w_store w) \<Longrightarrow> is_open w' j = is_open w j"
  by (simp add: is_open_def)

interpretation settlements: exclusive_claims "ob_good env" is_open "try_settle env" for env
proof unfold_locales
  fix w :: "'a obligation_world" and i j a
  assume good: "ob_good env w"
  obtain won w' where t: "try_settle env i a w = (won, w')" by (cases "try_settle env i a w")
  note c = try_settle_cases [OF good t]
  show "ob_good env (snd (try_settle env i a w))"
    using good c t by (auto simp: ob_good_def obligation_rows.keys_update split: if_splits)
  show "fst (try_settle env i a w) \<Longrightarrow> is_open w i" using c t by simp
  show "fst (try_settle env i a w) \<Longrightarrow> \<not> is_open (snd (try_settle env i a w)) i"
    using c t is_open_update [of w' i _ _ w i] by (auto split: if_splits)
  show "is_open (snd (try_settle env i a w)) j \<Longrightarrow> is_open w j"
    using c t is_open_update [of w' i _ _ w j] is_open_same [of w' w j] by (auto split: if_splits)
qed

lemma settled_in_winners: "settled_in env qs w = settlements.winners env qs w"
  by (induction qs arbitrary: w) (simp_all add: settlements.winners.simps case_prod_unfold Let_def)

section \<open>Properties\<close>

text \<open>C17: however many callers try to fulfil or expire obligations, from snapshots of any age and in any
  order, each obligation is settled by at most one of them, and only if it was pending.\<close>

theorem obligation_is_settled_at_most_once:
  assumes "ob_good env w"
  shows "distinct (settled_in env attempts w) \<and> (\<forall>i \<in> set (settled_in env attempts w). is_open w i)"
  using settlements.winners_distinct [OF assms] settlements.winners_available [OF assms]
  by (simp add: settled_in_winners)

definition sample_obligation :: obligation where
  "sample_obligation = \<lparr> obligation_id = ''o1'', ob_kind = Data_cleanup, ob_state = Ob_pending, description = ''d'',
     source_run_id = ''r'', ob_workspace_id = ''w'', target_entity_id = None,
     ob_created_at = ''2024-05-01T09:00:00.000Z'', expires_at = ''2024-05-01T10:00Z'', fulfilled_at = None \<rparr>"

definition obligation_env_at :: "string \<Rightarrow> nat obligation_env" where
  "obligation_env_at now = \<lparr> oe_pub = quiet_env, oe_now = now, oe_newId = ''o2'' \<rparr>"

definition obligation_world_of :: "obligation list \<Rightarrow> nat obligation_world" where
  "obligation_world_of rs = \<lparr> w_store = \<lparr> events = [], tables = rs, draws = 0 \<rparr>, w_ports = 0, w_warnings = [] \<rparr>"

lemma obligation_env_clock: "IsoDatetimeString (oe_zod (obligation_env_at now)) (pe_failed_at (oe_pub (obligation_env_at now)))"
proof -
  have "IsoDatetimeString sample_zod ''2024-05-01T10:00:01.000Z''" by code_simp
  then show ?thesis by (simp add: obligation_env_at_def quiet_env_def)
qed

lemma obligation_env_documented: "zod_documented (oe_zod (obligation_env_at now))"
  using sample_zod_documented by (simp add: obligation_env_at_def quiet_env_def)

theorem obligation_is_settled_at_most_once_witness:
  "distinct (settled_in (obligation_env_at ''2024-05-01T11:00Z'')
     (replicate 2 (''o1'', \<lparr> at_snapshot = sample_obligation, at_next = Ob_fulfilled, at_event = ''obligation.fulfilled'',
        at_payload = [], at_fulfilled = Some ''2024-05-01T11:00Z'' \<rparr>)) (obligation_world_of [sample_obligation]))"
proof -
  have "ob_good (obligation_env_at ''2024-05-01T11:00Z'') (obligation_world_of [sample_obligation])"
    using obligation_env_clock by (simp add: ob_good_def obligation_world_of_def)
  from obligation_is_settled_at_most_once [OF this] show ?thesis by blast
qed

text \<open>an obligation expires only once it is due. \<^verbatim>\<open>expire\<close> returns only if the obligation was pending
  and its expiry is not later than the clock; it is then expired and the expiry is in the log. When it
  throws, nothing changed.\<close>

theorem obligation_expires_only_when_due:
  assumes doc: "zod_documented (oe_zod env)" and ok: "IsoDatetimeString (oe_zod env) (pe_failed_at (oe_pub env))"
  shows "case expire env i w of
      (Inl err, w') \<Rightarrow> durable (w_store w') = durable (w_store w)
    | (Inr ob, w') \<Rightarrow> \<exists>row entry audit. find_by obligation_id i (tables (w_store w)) = Some row
        \<and> ob_state row = Ob_pending \<and> \<not> earlier (oe_now env) (expires_at row)
        \<and> find_by obligation_id i (tables (w_store w')) = Some ob \<and> ob_state ob = Ob_expired
        \<and> events (w_store w') = events (w_store w) @ entry # audit
        \<and> event_type entry = ''obligation.expired'' \<and> entity_id entry = i"
proof (cases "expire env i w")
  case (Pair r w')
  define due where "due snap \<longleftrightarrow> \<not> (case compareUtcInstants (oe_zod env) (expires_at snap) (oe_now env) of None \<Rightarrow> 1 | Some v \<Rightarrow> v) > 0"
    for snap :: obligation
  define settle where "settle snap = settle_obligation env i snap Ob_expired ''obligation.expired''
    [(''obligation_id'', JString i), (''expired_at'', JString (oe_now env))] None" for snap :: obligation
  show ?thesis
  proof (cases r)
    case (Inl err)
    have "durable (w_store w') = durable (w_store w)"
      using Pair Inl
      by (auto simp: expire_def and_then_def parseNonEmptyString_def read_obligation_def ob_resolveNow_def parseIsoDatetime_def
          split: if_splits sum.splits dest: settle_throws [OF ok])
    with Pair Inl show ?thesis by simp
  next
    case (Inr ob)
    with Pair obtain snap w1 where snap: "read_obligation env i w = (Inr snap, w1)" and d: "due snap"
      and s: "settle snap w1 = (Inr ob, w')"
      by (auto simp: expire_def and_then_returns parseNonEmptyString_def ob_resolveNow_def parseIsoDatetime_def
          due_def settle_def split: if_splits)
    from d obtain v where "compareUtcInstants (oe_zod env) (expires_at snap) (oe_now env) = Some v" "\<not> v > 0"
      by (auto simp: due_def split: option.splits)
    then have late: "\<not> earlier (oe_now env) (expires_at snap)" using compare_verdicts(3) [OF doc] by blast
    note row = read_obligation_returns [OF snap]
    obtain x entry audit where *:
      "tables (w_store w') = cas_update obligation_id ob_state i Ob_pending (set_ob_state Ob_expired x) (tables (w_store w1))"
      "find_by obligation_id i (tables (w_store w')) = Some ob"
      "events (w_store w') = events (w_store w1) @ entry # audit" "entity_id entry = i" "event_type entry = ''obligation.expired''"
      using s unfolding settle_def by (rule settle_returns [OF ok])
    then have "ob_state ob = Ob_expired"
      using row by (auto simp: obligation_rows.find_update set_ob_state_def)
    with * row late Pair Inr show ?thesis by simp
  qed
qed

theorem obligation_expires_only_when_due_witness:
  "case expire (obligation_env_at ''2024-05-01T09:59Z'') ''o1'' (obligation_world_of [sample_obligation]) of
      (Inl err, w') \<Rightarrow> durable (w_store w') = ([], [sample_obligation])
    | (Inr ob, w') \<Rightarrow> ob_state ob = Ob_expired"
  using obligation_expires_only_when_due [OF obligation_env_documented [of "''2024-05-01T09:59Z''"]
        obligation_env_clock, where i = "''o1''" and w = "obligation_world_of [sample_obligation]"]
  by (auto simp: obligation_world_of_def durable_def split: prod.splits sum.splits)

text \<open>what \<^verbatim>\<open>create\<close> returns is what later reads find: the obligation is pending, carries the texts and
  the expiry of the request, is returned by \<^verbatim>\<open>getById\<close>, and its log row precedes the additional ones.\<close>

theorem created_obligation_is_found:
  assumes ok: "IsoDatetimeString (oe_zod env) (pe_failed_at (oe_pub env))"
    and ret: "create_obligation env params additional w = (Inr ob, w')"
  shows "ob_state ob = Ob_pending \<and> description ob = ci_description params \<and> expires_at ob = ci_expiresAt params
    \<and> fst (ob_getById (oe_zod env) (obligation_id ob) (tables (w_store w'))) = Inr (Some ob)
    \<and> (\<exists>entry more_entries. events (w_store w') = events (w_store w) @ entry # more_entries
        \<and> entity_id entry = obligation_id ob \<and> payload_json entry = obligation_created_json ob)"
proof -
  from ret obtain ob0 where b: "build_obligation env params = Inr ob0"
    and pub: "appendManyWithMutation (oe_pub env)
         (obligation_event ''obligation.created'' ob0 (obligation_created_json ob0) # additional ob0)
         (\<lambda>_ st. case ob_create (oe_zod env) ob0 (tables st) of (r, d) \<Rightarrow> (map_sum id Sync r, st\<lparr>tables := d\<rparr>)) w = (Inr ob, w')"
    by (auto simp: create_obligation_def and_then_returns)
  from b have fields: "ob_state ob0 = Ob_pending" "description ob0 = ci_description params" "expires_at ob0 = ci_expiresAt params"
    "js_trim (obligation_id ob0) \<noteq> []"
    by (auto simp: build_obligation_def Let_def parseNonEmptyString_def parseIsoDatetime_def resolveObligationId_def
        split: sum.splits if_splits)
  obtain es s1 s2 audit where es: "for_each (appendInCurrentTransaction (pe_log (oe_pub env)))
        (obligation_event ''obligation.created'' ob0 (obligation_created_json ob0) # additional ob0) (w_store w) = (Inr es, s1)"
    and mut: "(case ob_create (oe_zod env) ob0 (tables s1) of (r, d) \<Rightarrow> (map_sum id Sync r, s1\<lparr>tables := d\<rparr>)) = (Inr (Sync ob), s2)"
    and after: "tables (w_store w') = tables s2" "events (w_store w') = events s2 @ audit"
    by (rule appendManyWithMutation_returns [OF ok pub])
  obtain d where d: "ob_create (oe_zod env) ob0 (tables s1) = (Inr ob, d)" "s2 = s1\<lparr>tables := d\<rparr>"
    using mut unfolding sync_action by auto
  from ob_create_returns [OF d(1)] have c: "ob = ob0" "d = tables s1 @ [ob]"
    "obligation_id ob \<notin> obligation_id ` set (tables s1)" "DeferredObligation_ok (oe_zod env) ob" by auto
  then have "find_by obligation_id (obligation_id ob) d = Some ob"
    using find_by_None [of obligation_id "obligation_id ob" "tables s1"] by (simp add: find_by_append)
  then have "fst (ob_getById (oe_zod env) (obligation_id ob) d) = Inr (Some ob)"
    using c fields by (simp add: ob_getById_def and_then_def storage_parseNonEmptyString_def ob_readById_def
        ob_query_failed_def parseDeferredObligation_def)
  moreover obtain entry rest where "es = entry # rest" "entity_id entry = obligation_id ob0"
    "payload_json entry = obligation_created_json ob0"
    using es by (auto simp: and_then_returns append_returns obligation_event_def)
  moreover have "events s1 = events (w_store w) @ es" using es by (rule log_appender.for_each_appends)
  ultimately show ?thesis using c(1) fields after d(2) by auto
qed

definition sample_request :: create_input where
  "sample_request = \<lparr> ci_kind = Data_cleanup, ci_description = ''d'', ci_sourceRunId = ''r'', ci_workspaceId = ''w'',
     ci_targetEntityId = None, ci_expiresAt = ''2024-05-01T10:00:00.000Z'' \<rparr>"

definition requested_obligation :: obligation where
  "requested_obligation = \<lparr> obligation_id = ''o2'', ob_kind = Data_cleanup, ob_state = Ob_pending, description = ''d'',
     source_run_id = ''r'', ob_workspace_id = ''w'', target_entity_id = None,
     ob_created_at = ''2024-05-01T10:00:00.000Z'', expires_at = ''2024-05-01T10:00:00.000Z'', fulfilled_at = None \<rparr>"

lemma sample_request_builds:
  "build_obligation (obligation_env_at ''2024-05-01T10:00:00.000Z'') sample_request = Inr requested_obligation"
proof -
  have "js_trim ''d'' = ''d''" "js_trim ''r'' = ''r''" "js_trim ''w'' = ''w''" "js_trim ''o2'' = ''o2''" by code_simp+
  then show ?thesis
    using sample_now_ok
    by (simp add: build_obligation_def obligation_env_at_def quiet_env_def sample_request_def requested_obligation_def
        ob_resolveNow_def parseIsoDatetime_def resolveObligationId_def parseNonEmptyString_def normalizeOptionalString_def
        DeferredObligation_ok_def BoundedString_def nullable_def)
qed

lemma sample_request_created:
  "\<exists>w'. create_obligation (obligation_env_at ''2024-05-01T10:00:00.000Z'') sample_request (\<lambda>_. []) (obligation_world_of [])
     = (Inr requested_obligation, w')"
proof -
  have zero: "js_string_of_nat 0 = ''0''" by code_simp
  define env where "env = obligation_env_at ''2024-05-01T10:00:00.000Z''"
  define ev where "ev = obligation_event ''obligation.created'' requested_obligation (obligation_created_json requested_obligation)"
  define entry where "entry = complete_entry ev ''e0'' 0 ''2024-05-01T10:00:00.000Z''"
  define mutate where "mutate = (\<lambda>(_ :: event_entry list) (st :: obligation list store).
    case ob_create (oe_zod env) requested_obligation (tables st) of (r, d) \<Rightarrow> (map_sum id Sync r, st\<lparr>tables := d\<rparr>))"
  have size: "length (json_stringify (JObject (payload_json ev))) \<le> 300" unfolding ev_def by code_simp
  have "appendInCurrentTransaction (pe_log quiet_env) ev (w_store (obligation_world_of []))
      = (Inr entry, \<lparr> events = [entry], tables = [], draws = 1 \<rparr>)"
    using sample_now_ok zero size
    by (simp add: append_returns entry_def EventLogEntry_ok_def quiet_env_def obligation_world_of_def computeNextRevision_def
        BoundedString_def EVENT_LOG_PAYLOAD_MAX_CHARS_def nullable_def del: json_stringify.simps)
      (simp add: ev_def obligation_event_def requested_obligation_def BoundedString_def)
  then have log: "for_each (appendInCurrentTransaction (pe_log (oe_pub env))) [ev] (w_store (obligation_world_of []))
      = (Inr [entry], \<lparr> events = [entry], tables = [], draws = 1 \<rparr>)"
    by (simp add: and_then_def env_def obligation_env_at_def)
  have mut: "mutate [entry] \<lparr> events = [entry], tables = [], draws = 1 \<rparr> = (Inr (Sync requested_obligation),
      \<lparr> events = [entry], tables = [requested_obligation], draws = 1 \<rparr>)"
    using sample_now_ok
    by (simp add: mutate_def ob_create_def and_then_def parseDeferredObligation_def env_def obligation_env_at_def quiet_env_def
        DeferredObligation_ok_def requested_obligation_def BoundedString_def nullable_def ob_row_check_def ob_readById_def
        find_by_def ob_query_failed_def)
  from appendManyWithMutation_succeeds [where mutate = mutate, OF obligation_env_clock [of "''2024-05-01T10:00:00.000Z''", folded env_def] log mut]
  show ?thesis
    by (simp add: create_obligation_def and_then_def sample_request_builds [folded env_def] env_def [symmetric]
        ev_def [symmetric] mutate_def [symmetric])
qed

theorem created_obligation_is_found_witness:
  "\<exists>w'. create_obligation (obligation_env_at ''2024-05-01T10:00:00.000Z'') sample_request (\<lambda>_. [])
      (obligation_world_of []) = (Inr requested_obligation, w')
    \<and> fst (ob_getById sample_zod ''o2'' (tables (w_store w'))) = Inr (Some requested_obligation)"
proof -
  obtain w' where w': "create_obligation (obligation_env_at ''2024-05-01T10:00:00.000Z'') sample_request (\<lambda>_. [])
      (obligation_world_of []) = (Inr requested_obligation, w')" using sample_request_created by blast
  from created_obligation_is_found [OF obligation_env_clock this]
  have "fst (ob_getById sample_zod ''o2'' (tables (w_store w'))) = Inr (Some requested_obligation)"
    by (simp add: obligation_env_at_def quiet_env_def requested_obligation_def)
  with w' show ?thesis by blast
qed

end
