(* ===== verification/ProofEffect.thy ===== *)
theory ProofEffect
  imports CoreShared
begin

text \<open>
  Governed effects that must carry their proofs: \<^verbatim>\<open>core/src/governance/effects/dual-time.ts\<close> (when a
  statement holds, as the source grounds it) and \<^verbatim>\<open>proof-effect-policy.ts\<close> (whether an effect on a
  target is allowed). The lookups of receipts, revocations, erasures and competing claims are a
  record of functions; the digest of a request is a parameter.
\<close>

section \<open>Dual time\<close>

datatype time_grounding = From_source | Unknown | From_storage

record dual_time =
  recorded_at :: string
  event_time :: "string option"
  valid_from :: "string option"
  valid_to :: "string option"

record dual_time_input = dual_time +
  event_time_source :: time_grounding
  valid_time_source :: time_grounding

definition requireRecordedAt :: "date_api \<Rightarrow> string option \<Rightarrow> string \<Rightarrow> string + string" where
  "requireRecordedAt api value fieldName =
     (case value of
        None \<Rightarrow> Inl (coded_error ''VALIDATION'' (fieldName @ '' is required''))
      | Some v \<Rightarrow>
          if js_trim v = [] then Inl (coded_error ''VALIDATION'' (fieldName @ '' is required''))
          else ensureIsoDatetime api v fieldName)"

definition parseOptionalTime :: "date_api \<Rightarrow> string option \<Rightarrow> string \<Rightarrow> string + string option" where
  "parseOptionalTime api value fieldName =
     (case value of None \<Rightarrow> Inr None | Some v \<Rightarrow> map_sum id Some (ensureIsoDatetime api v fieldName))"

definition sourceOrNull :: "date_api \<Rightarrow> string option \<Rightarrow> time_grounding \<Rightarrow> string \<Rightarrow> string + string option" where
  "sourceOrNull api value grounding fieldName =
     (if grounding \<noteq> From_source then Inr None else parseOptionalTime api value fieldName)"

definition groundDualTime :: "(string \<Rightarrow> bool) \<Rightarrow> date_api \<Rightarrow> dual_time_input \<Rightarrow> string + dual_time" where
  "groundDualTime zod api input =
     (case requireRecordedAt api (Some (recorded_at input)) ''recorded_at'' of Inl e \<Rightarrow> Inl e | Inr recorded \<Rightarrow>
     (case sourceOrNull api (event_time input) (event_time_source input) ''event_time'' of Inl e \<Rightarrow> Inl e | Inr event \<Rightarrow>
     (case sourceOrNull api (valid_from input) (valid_time_source input) ''valid_from'' of Inl e \<Rightarrow> Inl e | Inr start \<Rightarrow>
       if valid_time_source input = From_source \<and> start = None \<and> valid_to input \<noteq> None
       then Inl (coded_error ''VALIDATION'' ''valid_to requires a source-grounded valid_from'')
       else
         (case (if start = None then Inr None else parseOptionalTime api (valid_to input) ''valid_to'') of
            Inl e \<Rightarrow> Inl e
          | Inr finish \<Rightarrow>
              (case (start, finish) of
                 (Some a, Some b) \<Rightarrow>
                   if compareUtcInstants zod b a \<noteq> Some 1
                   then Inl (coded_error ''VALIDATION'' ''valid interval must be half-open'')
                   else Inr \<lparr> recorded_at = recorded, event_time = event, valid_from = start, valid_to = finish \<rparr>
               | _ \<Rightarrow> Inr \<lparr> recorded_at = recorded, event_time = event, valid_from = start, valid_to = finish \<rparr>)))))"

definition classifyGovernedValidity ::
  "(string \<Rightarrow> bool) \<Rightarrow> date_api \<Rightarrow> 'x dual_time_scheme \<Rightarrow> string \<Rightarrow> string + field_valid_time_class" where
  "classifyGovernedValidity zod api time asOf =
     (case ensureIsoDatetime api asOf ''asOf'' of
        Inl e \<Rightarrow> Inl e
      | Inr t \<Rightarrow> Inr (classifyFieldValidTime zod (valid_from time) (valid_to time) t))"

definition isHardActive :: "(string \<Rightarrow> bool) \<Rightarrow> date_api \<Rightarrow> 'x dual_time_scheme \<Rightarrow> string \<Rightarrow> string + bool" where
  "isHardActive zod api time asOf =
     map_sum id (\<lambda>c. c = HardActive) (classifyGovernedValidity zod api time asOf)"

record competing_state = dual_time +
  cs_id :: string
  fallback_recorded_at :: bool

definition compareOptionalIso :: "(string \<Rightarrow> bool) \<Rightarrow> string option \<Rightarrow> string option \<Rightarrow> int" where
  "compareOptionalIso zod left right =
     (if left = right then 0
      else case (left, right) of
        (None, _) \<Rightarrow> 1
      | (Some _, None) \<Rightarrow> -1
      | (Some l, Some r) \<Rightarrow> (case compareUtcInstants zod l r of Some v \<Rightarrow> v | None \<Rightarrow> compareCodeUnits l r))"

definition compareCompetingStates :: "(string \<Rightarrow> bool) \<Rightarrow> competing_state \<Rightarrow> competing_state \<Rightarrow> int" where
  "compareCompetingStates zod l r =
     (let a = compareOptionalIso zod (valid_from l) (valid_from r) in if a \<noteq> 0 then a else
      let b = compareOptionalIso zod (event_time l) (event_time r) in if b \<noteq> 0 then b else
      let c = compareCodeUnits (recorded_at l) (recorded_at r) in if c \<noteq> 0 then c else
      compareCodeUnits (cs_id l) (cs_id r))"

definition orderCompetingStates :: "(string \<Rightarrow> bool) \<Rightarrow> competing_state list \<Rightarrow> competing_state list" where
  "orderCompetingStates zod states =
     js_sort (compareCompetingStates zod)
       (map (\<lambda>s. s\<lparr>fallback_recorded_at := valid_from s = None \<and> event_time s = None\<rparr>) states)"

section \<open>Requests, proofs and facts\<close>

datatype authorizing_kind =
  Source_grounding | Lineage | Scope_adoption | Confirmation | Predecessor | Successor | Governance_snapshot

datatype soft_kind = Soft_strength | Similarity | Embedding | Relevance

datatype proof_kind = Actor_authority | Authorizing_kind authorizing_kind | Soft_kind soft_kind

record proof_base =
  pr_id :: string
  pr_workspace_id :: string
  pr_recorded_at :: string
  revoked :: bool

record target_binding =
  b_target :: string
  b_scope :: string
  b_valid_from :: "string option"
  b_valid_to :: "string option"
  b_event_time :: "string option"

datatype proof_record =
    Authority_proof proof_base target_binding (pa_actor: string) (pa_run: string) (pa_delivery: string)
  | Authorizing_proof proof_base target_binding authorizing_kind
  | Soft_proof proof_base soft_kind

definition proof_kind_of :: "proof_record \<Rightarrow> proof_kind" where
  "proof_kind_of p = (case p of Authority_proof _ _ _ _ _ \<Rightarrow> Actor_authority
     | Authorizing_proof _ _ k \<Rightarrow> Authorizing_kind k | Soft_proof _ k \<Rightarrow> Soft_kind k)"

definition proof_base_of :: "proof_record \<Rightarrow> proof_base" where
  "proof_base_of p = (case p of Authority_proof b _ _ _ _ \<Rightarrow> b | Authorizing_proof b _ _ \<Rightarrow> b | Soft_proof b _ \<Rightarrow> b)"

record proof_witness =
  receipt_id :: string
  w_kind :: string
  authority_event_id :: "string option"
  source_record_id :: "string option"
  source_content_digest :: "string option"

record effect_request =
  q_workspace_id :: string
  q_actor_id :: string
  q_run_id :: string
  q_delivery_id :: string
  q_action :: string
  q_target :: string
  q_scope :: string
  effective_as_of :: string
  supporting_receipt_ids :: "string list"
  supporting_proof_witnesses :: "proof_witness list"
  governance_frontier :: string
  policy_operator_id :: string
  policy_operator_version :: string

definition FieldContractDigest :: "string \<Rightarrow> bool" where
  "FieldContractDigest s \<longleftrightarrow>
     length s = 71 \<and> take 7 s = ''sha256:''
     \<and> list_all (\<lambda>c. is_digit c \<or> c \<in> set ''abcdef'') (drop 7 s)"

definition ProofEffectWitness_ok :: "proof_witness \<Rightarrow> bool" where
  "ProofEffectWitness_ok w \<longleftrightarrow>
     BoundedString 256 (receipt_id w) \<and> BoundedString 128 (w_kind w)
     \<and> nullable (BoundedString 256) (authority_event_id w) \<and> nullable (BoundedString 256) (source_record_id w)
     \<and> nullable (BoundedString 256) (source_content_digest w)"

definition EffectRequest_ok :: "(string \<Rightarrow> bool) \<Rightarrow> effect_request \<Rightarrow> bool" where
  "EffectRequest_ok zod q \<longleftrightarrow>
     BoundedId (q_workspace_id q) \<and> BoundedId (q_actor_id q) \<and> BoundedId (q_run_id q) \<and> BoundedId (q_delivery_id q)
     \<and> BoundedString 128 (q_action q) \<and> BoundedString 256 (q_target q) \<and> BoundedString 256 (q_scope q)
     \<and> IsoDatetimeString zod (effective_as_of q)
     \<and> list_all (BoundedString 256) (supporting_receipt_ids q)
     \<and> list_all ProofEffectWitness_ok (supporting_proof_witnesses q)
     \<and> FieldContractDigest (governance_frontier q)
     \<and> BoundedString 128 (policy_operator_id q) \<and> BoundedString 64 (policy_operator_version q)"

record competing_claim = dual_time +
  cc_id :: string
  has_evidence :: bool
  scope_compatible :: bool

record proof_lookup =
  findReceipts :: "string \<Rightarrow> string list \<Rightarrow> proof_record list"
  isBridgeRevoked :: "string \<Rightarrow> string \<Rightarrow> string \<Rightarrow> bool"
  competingClaims :: "string \<Rightarrow> string \<Rightarrow> string \<Rightarrow> competing_claim list"
  isErased :: "string \<Rightarrow> string \<Rightarrow> bool"
  readTargetTime :: "string \<Rightarrow> string \<Rightarrow> dual_time option"

record proof_facts =
  receipts :: "proof_record list"
  missingIds :: "string list"
  authorizing :: "proof_record list"
  invalidAuthorizing :: "proof_record list"
  kinds :: "proof_kind set"
  targetTime :: "dual_time option"
  bridgeRevoked :: bool
  erased :: bool
  competing :: "competing_claim list"

section \<open>The policy\<close>

datatype effect_decision = Allow | Deny | Defer | Require_confirmation

definition HARD_ACTIONS :: "string list" where
  "HARD_ACTIONS = [''correct'', ''supersede'', ''revoke'', ''seal'', ''erase'', ''activate'']"

definition isAuthorizingProof :: "proof_record \<Rightarrow> bool" where
  "isAuthorizingProof p = (case p of Soft_proof _ _ \<Rightarrow> False | _ \<Rightarrow> True)"

definition instantAtOrBefore :: "(string \<Rightarrow> bool) \<Rightarrow> string \<Rightarrow> string \<Rightarrow> bool" where
  "instantAtOrBefore zod left right =
     (case compareUtcInstants zod left right of None \<Rightarrow> False | Some order \<Rightarrow> order \<noteq> 1)"

definition binding_applicable ::
  "(string \<Rightarrow> bool) \<Rightarrow> proof_base \<Rightarrow> target_binding \<Rightarrow> effect_request \<Rightarrow> bool" where
  "binding_applicable zod base b q \<longleftrightarrow>
     \<not> (revoked base \<or> pr_workspace_id base \<noteq> q_workspace_id q)
     \<and> \<not> (b_target b \<noteq> q_target q \<or> b_scope b \<noteq> q_scope q)
     \<and> (case (b_event_time b, b_valid_from b) of
          (Some e, Some f) \<Rightarrow>
            instantAtOrBefore zod (pr_recorded_at base) (effective_as_of q)
            \<and> instantAtOrBefore zod e (effective_as_of q)
            \<and> instantAtOrBefore zod f (effective_as_of q)
            \<and> (case b_valid_to b of None \<Rightarrow> True | Some t \<Rightarrow> compareUtcInstants zod (effective_as_of q) t = Some (-1))
        | _ \<Rightarrow> False)"

definition isProofApplicable :: "(string \<Rightarrow> bool) \<Rightarrow> effect_request \<Rightarrow> proof_record \<Rightarrow> bool" where
  "isProofApplicable zod q p =
     (case p of
        Authority_proof base b actor run delivery \<Rightarrow>
          actor = q_actor_id q \<and> run = q_run_id q \<and> delivery = q_delivery_id q \<and> binding_applicable zod base b q
      | Authorizing_proof base b _ \<Rightarrow> binding_applicable zod base b q
      | Soft_proof _ _ \<Rightarrow> False)"

definition missingReceiptIds :: "string list \<Rightarrow> proof_record list \<Rightarrow> string list" where
  "missingReceiptIds requested found =
     filter (\<lambda>i. i \<notin> (\<lambda>p. pr_id (proof_base_of p)) ` set found) requested"

definition validityOverlaps :: "(string \<Rightarrow> bool) \<Rightarrow> string \<Rightarrow> competing_claim \<Rightarrow> competing_claim \<Rightarrow> bool" where
  "validityOverlaps zod asOf l r =
     (case (valid_from l, valid_from r) of
        (Some lf, Some rf) \<Rightarrow>
          (let leftEnd = (case valid_to l of None \<Rightarrow> asOf | Some t \<Rightarrow> t);
               rightEnd = (case valid_to r of None \<Rightarrow> asOf | Some t \<Rightarrow> t)
           in compareUtcInstants zod lf rightEnd = Some (-1) \<and> compareUtcInstants zod rf leftEnd = Some (-1))
      | _ \<Rightarrow> False)"

fun some_pair :: "('a \<Rightarrow> 'a \<Rightarrow> bool) \<Rightarrow> 'a list \<Rightarrow> bool" where
  "some_pair P [] = False"
| "some_pair P (x # xs) = (list_ex (P x) xs \<or> some_pair P xs)"

definition hasHardDispute :: "(string \<Rightarrow> bool) \<Rightarrow> competing_claim list \<Rightarrow> string \<Rightarrow> bool" where
  "hasHardDispute zod claims asOf =
     (let evidenced = filter (\<lambda>c. has_evidence c \<and> scope_compatible c) claims
      in if length evidenced < 2 then False else some_pair (validityOverlaps zod asOf) evidenced)"

definition hasPossibleConflict :: "competing_claim list \<Rightarrow> bool" where
  "hasPossibleConflict claims = list_ex (\<lambda>c. valid_from c = None) claims"

definition classifySuccessorAction :: "effect_request \<Rightarrow> proof_facts \<Rightarrow> effect_decision" where
  "classifySuccessorAction q facts =
     (if Authorizing_kind Predecessor \<notin> kinds facts \<or> Authorizing_kind Successor \<notin> kinds facts then Deny
      else if Authorizing_kind Source_grounding \<notin> kinds facts \<and> Authorizing_kind Lineage \<notin> kinds facts then Deny
      else if (case targetTime facts of None \<Rightarrow> True | Some t \<Rightarrow> valid_from t = None) then Defer
      else if hasPossibleConflict (competing facts) then Defer
      else if length (effective_as_of q) > 0 then Allow else Deny)"

definition classifyAction ::
  "(string \<Rightarrow> bool) \<Rightarrow> date_api \<Rightarrow> effect_request \<Rightarrow> proof_facts \<Rightarrow> string + effect_decision" where
  "classifyAction zod api q facts =
     (if q_action q = ''activate'' then
        (case targetTime facts of
           None \<Rightarrow> Inr Deny
         | Some t \<Rightarrow>
             map_sum id (\<lambda>active. if active \<and> Authorizing_kind Source_grounding \<in> kinds facts then Allow else Deny)
               (isHardActive zod api t (effective_as_of q)))
      else if q_action q = ''correct'' \<or> q_action q = ''supersede'' then Inr (classifySuccessorAction q facts)
      else if q_action q = ''revoke'' then Inr (if Actor_authority \<in> kinds facts then Allow else Deny)
      else if q_action q = ''seal'' \<or> q_action q = ''erase'' then
        Inr (if Actor_authority \<notin> kinds facts then Deny
             else if Authorizing_kind Confirmation \<in> kinds facts then Allow else Require_confirmation)
      else Inr Deny)"

definition collectFacts :: "(string \<Rightarrow> bool) \<Rightarrow> proof_lookup \<Rightarrow> effect_request \<Rightarrow> proof_facts" where
  "collectFacts zod lookup q =
     (let found = findReceipts lookup (q_workspace_id q) (supporting_receipt_ids q);
          auth = filter isAuthorizingProof found
      in \<lparr> receipts = found, missingIds = missingReceiptIds (supporting_receipt_ids q) found,
           authorizing = auth, invalidAuthorizing = filter (\<lambda>p. \<not> isProofApplicable zod q p) auth,
           kinds = proof_kind_of ` set found,
           targetTime = readTargetTime lookup (q_workspace_id q) (q_target q),
           bridgeRevoked = isBridgeRevoked lookup (q_workspace_id q) (q_scope q) (effective_as_of q),
           erased = isErased lookup (q_workspace_id q) (q_target q),
           competing = competingClaims lookup (q_workspace_id q) (q_target q) (q_scope q) \<rparr>)"

definition classify ::
  "(string \<Rightarrow> bool) \<Rightarrow> date_api \<Rightarrow> effect_request \<Rightarrow> proof_facts \<Rightarrow> string + effect_decision" where
  "classify zod api q facts =
     (if q_action q \<notin> set HARD_ACTIONS \<and> q_action q \<noteq> ''restore'' then Inr Deny
      else if q_action q = ''restore'' then Inr Deny
      else if erased facts \<and> q_action q \<noteq> ''erase'' then Inr Deny
      else if bridgeRevoked facts then Inr Deny
      else if missingIds facts \<noteq> [] \<or> authorizing facts = [] \<or> invalidAuthorizing facts \<noteq> [] then Inr Deny
      else if Actor_authority \<notin> kinds facts then Inr Deny
      else if hasHardDispute zod (competing facts) (effective_as_of q) then Inr Defer
      else classifyAction zod api q facts)"

record decision_receipt =
  identity :: string
  dr_request :: effect_request
  dr_decision :: effect_decision
  dr_recorded_at :: string

definition buildEffectDecisionReceipt ::
  "effect_request \<Rightarrow> effect_decision \<Rightarrow> string \<Rightarrow> (effect_request \<Rightarrow> string) \<Rightarrow> decision_receipt" where
  "buildEffectDecisionReceipt q d recordedAt digest =
     \<lparr> identity = digest q, dr_request = q, dr_decision = d, dr_recorded_at = recordedAt \<rparr>"

definition decide_effect ::
  "(string \<Rightarrow> bool) \<Rightarrow> date_api \<Rightarrow> proof_lookup \<Rightarrow> (effect_request \<Rightarrow> string) \<Rightarrow> string \<Rightarrow> effect_request
     \<Rightarrow> string + decision_receipt" where
  "decide_effect zod api lookup digest now q =
     (if \<not> EffectRequest_ok zod q then Inl ''ZodError''
      else case classify zod api q (collectFacts zod lookup q) of
             Inl e \<Rightarrow> Inl e
           | Inr d \<Rightarrow>
               (case ensureIsoDatetime api now ''now'' of
                  Inl e \<Rightarrow> Inl e
                | Inr recordedAt \<Rightarrow> Inr (buildEffectDecisionReceipt q d recordedAt digest)))"

section \<open>Properties\<close>

text \<open>A binding that covers the request: same workspace, target and scope, not revoked, recorded and
  begun by the time of the effect and not yet over.\<close>

definition covers :: "(string \<Rightarrow> bool) \<Rightarrow> proof_base \<Rightarrow> target_binding \<Rightarrow> effect_request \<Rightarrow> bool" where
  "covers zod base b q \<longleftrightarrow>
     \<not> revoked base \<and> pr_workspace_id base = q_workspace_id q \<and> b_target b = q_target q \<and> b_scope b = q_scope q
     \<and> \<not> earlier (effective_as_of q) (pr_recorded_at base)
     \<and> (\<exists>f. b_valid_from b = Some f \<and> \<not> earlier (effective_as_of q) f)
     \<and> (\<forall>t. b_valid_to b = Some t \<longrightarrow> earlier (effective_as_of q) t)"

lemma instantAtOrBefore_iff:
  assumes "zod_documented zod"
  shows "instantAtOrBefore zod a b \<longleftrightarrow> IsoDatetimeString zod a \<and> IsoDatetimeString zod b \<and> \<not> earlier b a"
proof (cases "compareUtcInstants zod a b")
  case None
  then show ?thesis using compare_None [of zod a b] by (auto simp: instantAtOrBefore_def)
next
  case (Some v)
  then show ?thesis
    using compare_None [of zod a b] compare_verdicts(4) [OF assms Some] by (simp add: instantAtOrBefore_def)
qed

lemma compare_minus_1:
  assumes "zod_documented zod" and "compareUtcInstants zod a b = Some (-1)"
  shows "earlier a b"
  using compare_verdicts(1) [OF assms] by simp

lemma compare_plus_1:
  assumes "zod_documented zod" and "compareUtcInstants zod a b = Some 1"
  shows "earlier b a"
  using compare_verdicts(4) [OF assms] by simp

lemma binding_applicable_covers:
  "zod_documented zod \<Longrightarrow> binding_applicable zod base b q \<Longrightarrow> covers zod base b q"
  by (auto simp: binding_applicable_def covers_def instantAtOrBefore_iff compare_minus_1 split: option.splits)

lemma classify_Allow:
  assumes "classify zod api q facts = Inr Allow"
  shows "q_action q \<in> set HARD_ACTIONS" and "\<not> (erased facts \<and> q_action q \<noteq> ''erase'')"
    and "\<not> bridgeRevoked facts" and "missingIds facts = []" and "invalidAuthorizing facts = []"
    and "Actor_authority \<in> kinds facts" and "\<not> hasHardDispute zod (competing facts) (effective_as_of q)"
    and "classifyAction zod api q facts = Inr Allow"
  using assms by (auto simp: classify_def split: if_splits)

lemma facts_authority:
  assumes "Actor_authority \<in> kinds (collectFacts zod lookup q)"
    and "invalidAuthorizing (collectFacts zod lookup q) = []" and "zod_documented zod"
  shows "\<exists>base b. Authority_proof base b (q_actor_id q) (q_run_id q) (q_delivery_id q)
    \<in> set (findReceipts lookup (q_workspace_id q) (supporting_receipt_ids q)) \<and> covers zod base b q"
proof -
  define found where "found = findReceipts lookup (q_workspace_id q) (supporting_receipt_ids q)"
  from assms(1) obtain p where p: "p \<in> set found" "proof_kind_of p = Actor_authority"
    by (auto simp: collectFacts_def Let_def found_def)
  from p(2) obtain base b a r d where shape: "p = Authority_proof base b a r d"
    by (cases p) (simp_all add: proof_kind_of_def)
  with p assms(2) have "isProofApplicable zod q p"
    by (auto simp: collectFacts_def Let_def found_def [symmetric] filter_empty_conv isAuthorizingProof_def)
  with shape have "a = q_actor_id q" "r = q_run_id q" "d = q_delivery_id q" "binding_applicable zod base b q"
    by (auto simp: isProofApplicable_def)
  with p(1) shape binding_applicable_covers [OF assms(3)] show ?thesis unfolding found_def by blast
qed

text \<open>C10: an effect is allowed only with its proofs. The action is one of the governed ones; there is a
  receipt of the requesting actor's authority, for its run and delivery, that covers the workspace,
  the target, the scope and the time of the effect and is not revoked; every receipt the request
  names was found; the bridge of the scope is not revoked; an erased target admits only erasure;
  sealing and erasing carry a confirmation; and no two evidenced claims on the target overlap.\<close>

theorem allowed_effect_is_proven:
  assumes doc: "zod_documented zod" and allow: "decide_effect zod api lookup digest now q = Inr receipt"
      "dr_decision receipt = Allow"
  shows "q_action q \<in> {''correct'', ''supersede'', ''revoke'', ''seal'', ''erase'', ''activate''}
    \<and> (\<exists>base b. Authority_proof base b (q_actor_id q) (q_run_id q) (q_delivery_id q)
          \<in> set (findReceipts lookup (q_workspace_id q) (supporting_receipt_ids q)) \<and> covers zod base b q)
    \<and> set (supporting_receipt_ids q) \<subseteq>
        (\<lambda>p. pr_id (proof_base_of p)) ` set (findReceipts lookup (q_workspace_id q) (supporting_receipt_ids q))
    \<and> \<not> isBridgeRevoked lookup (q_workspace_id q) (q_scope q) (effective_as_of q)
    \<and> (isErased lookup (q_workspace_id q) (q_target q) \<longrightarrow> q_action q = ''erase'')
    \<and> (q_action q \<in> {''seal'', ''erase''} \<longrightarrow> Authorizing_kind Confirmation
        \<in> proof_kind_of ` set (findReceipts lookup (q_workspace_id q) (supporting_receipt_ids q)))
    \<and> \<not> hasHardDispute zod (competingClaims lookup (q_workspace_id q) (q_target q) (q_scope q)) (effective_as_of q)"
proof -
  define facts where "facts = collectFacts zod lookup q"
  from allow have c: "classify zod api q facts = Inr Allow"
    by (auto simp: decide_effect_def buildEffectDecisionReceipt_def facts_def split: if_splits sum.splits)
  note f = classify_Allow [OF c]
  have fields: "kinds facts = proof_kind_of ` set (findReceipts lookup (q_workspace_id q) (supporting_receipt_ids q))"
    "missingIds facts = missingReceiptIds (supporting_receipt_ids q)
       (findReceipts lookup (q_workspace_id q) (supporting_receipt_ids q))"
    "bridgeRevoked facts = isBridgeRevoked lookup (q_workspace_id q) (q_scope q) (effective_as_of q)"
    "erased facts = isErased lookup (q_workspace_id q) (q_target q)"
    "competing facts = competingClaims lookup (q_workspace_id q) (q_target q) (q_scope q)"
    by (simp_all add: facts_def collectFacts_def Let_def)
  have "q_action q \<in> {''seal'', ''erase''} \<Longrightarrow> Authorizing_kind Confirmation \<in> kinds facts"
    using f(8) by (auto simp: classifyAction_def split: if_splits)
  moreover have "set (supporting_receipt_ids q) \<subseteq>
      (\<lambda>p. pr_id (proof_base_of p)) ` set (findReceipts lookup (q_workspace_id q) (supporting_receipt_ids q))"
    using f(4) unfolding fields by (auto simp: missingReceiptIds_def filter_empty_conv)
  moreover have "q_action q \<in> {''correct'', ''supersede'', ''revoke'', ''seal'', ''erase'', ''activate''}"
    using f(1) by (auto simp: HARD_ACTIONS_def)
  ultimately show ?thesis
    using facts_authority [OF f(6) [unfolded facts_def] f(5) [unfolded facts_def] doc] f(2,3,7)
    unfolding fields by blast
qed

definition sample_request_effect :: effect_request where
  "sample_request_effect = \<lparr> q_workspace_id = ''w'', q_actor_id = ''ann'', q_run_id = ''r'', q_delivery_id = ''d'',
     q_action = ''revoke'', q_target = ''t'', q_scope = ''s'', effective_as_of = ''2024-05-01T10:00:00.000Z'',
     supporting_receipt_ids = [''p1''], supporting_proof_witnesses = [],
     governance_frontier = ''sha256:'' @ replicate 64 (CHR ''a''), policy_operator_id = ''o'', policy_operator_version = ''1'' \<rparr>"

definition sample_lookup :: proof_lookup where
  "sample_lookup = \<lparr> findReceipts = (\<lambda>_ _. [Authority_proof
       \<lparr> pr_id = ''p1'', pr_workspace_id = ''w'', pr_recorded_at = ''2024-05-01T09:00Z'', revoked = False \<rparr>
       \<lparr> b_target = ''t'', b_scope = ''s'', b_valid_from = Some ''2024-05-01T09:00Z'', b_valid_to = None,
         b_event_time = Some ''2024-05-01T09:00Z'' \<rparr> ''ann'' ''r'' ''d'']),
     isBridgeRevoked = (\<lambda>_ _ _. False), competingClaims = (\<lambda>_ _ _. []), isErased = (\<lambda>_ _. False),
     readTargetTime = (\<lambda>_ _. None) \<rparr>"

definition sample_dates :: date_api where
  "sample_dates = \<lparr> date_parse = (\<lambda>s. if IsoDatetimeString sample_zod s then Some 0 else None),
     to_iso_string = (\<lambda>_. ''2024-05-01T10:00:00.000Z'') \<rparr>"

lemma sample_effect_allowed:
  "decide_effect sample_zod sample_dates sample_lookup q_target ''2024-05-01T10:00:00.000Z'' sample_request_effect
     = Inr (buildEffectDecisionReceipt sample_request_effect Allow ''2024-05-01T10:00:00.000Z'' q_target)"
  by code_simp

theorem allowed_effect_is_proven_witness:
  "\<exists>base b. Authority_proof base b ''ann'' ''r'' ''d''
      \<in> set (findReceipts sample_lookup ''w'' [''p1'']) \<and> covers sample_zod base b sample_request_effect"
  using allowed_effect_is_proven [OF sample_zod_documented sample_effect_allowed]
  by (auto simp: sample_request_effect_def buildEffectDecisionReceipt_def)

text \<open>what \<^verbatim>\<open>groundDualTime\<close> returns is well formed: an end of validity comes with a start that is
  strictly earlier, and a time that the source does not ground is never filled in from storage.\<close>

theorem grounded_times_are_well_formed:
  assumes doc: "zod_documented zod" and "groundDualTime zod api input = Inr t"
  shows "(\<forall>b. valid_to t = Some b \<longrightarrow> (\<exists>a. valid_from t = Some a \<and> earlier a b))
    \<and> (event_time_source input \<noteq> From_source \<longrightarrow> event_time t = None)
    \<and> (valid_time_source input \<noteq> From_source \<longrightarrow> valid_from t = None \<and> valid_to t = None)"
  using assms(2)
  by (auto simp: groundDualTime_def sourceOrNull_def split: sum.splits if_splits option.splits
      intro: compare_plus_1 [OF doc])

definition two_dates :: date_api where
  "two_dates = \<lparr> date_parse = (\<lambda>s. if s = ''2024-05-01T09:00Z'' then Some 1 else if s = ''2024-05-01T10:00Z'' then Some 2 else None),
     to_iso_string = (\<lambda>n. if n = 1 then ''2024-05-01T09:00:00.000Z'' else ''2024-05-01T10:00:00.000Z'') \<rparr>"

lemma sample_grounding:
  "groundDualTime sample_zod two_dates \<lparr> recorded_at = ''2024-05-01T10:00Z'', event_time = Some ''2024-05-01T09:00Z'',
       valid_from = Some ''2024-05-01T09:00Z'', valid_to = Some ''2024-05-01T10:00Z'',
       event_time_source = From_storage, valid_time_source = From_source \<rparr>
     = Inr \<lparr> recorded_at = ''2024-05-01T10:00:00.000Z'', event_time = None,
         valid_from = Some ''2024-05-01T09:00:00.000Z'', valid_to = Some ''2024-05-01T10:00:00.000Z'' \<rparr>"
  by code_simp

theorem grounded_times_are_well_formed_witness:
  "earlier ''2024-05-01T09:00:00.000Z'' ''2024-05-01T10:00:00.000Z''"
  using grounded_times_are_well_formed [OF sample_zod_documented sample_grounding] by simp

end
