(* ===== verification/RelationProjection.thy ===== *)
theory RelationProjection
  imports CoreShared JsonValue
begin

text \<open>
  Temporal relation assertions and the paths they project at an instant:
  \<^verbatim>\<open>core/src/relations/relation-assertions/relation-projection-policy.ts\<close> and
  \<^verbatim>\<open>relation-projection-builder.ts\<close>, with the validity test of
  \<^verbatim>\<open>protocol/src/relations/relation-assertion.ts\<close> and the profiles of
  \<^verbatim>\<open>protocol/src/relations/relation-projection-policy.ts\<close>. SHA-256, the stable rendering of a value,
  the locale's comparison and the path schema's verdict are parameters; anchors and formation
  receipts, which these functions only copy, are opaque values.
\<close>

section \<open>Data\<close>

datatype relation_validity =
    Bounded_validity string string
  | Open_validity string
  | Timeless_validity string

datatype resolution_kind = Contradicted | Retracted | Expired_relation | Superseded | Governance_retired

record evidence_receipt =
  evidence_id :: string
  source_event_anchor :: json

record relation_assertion =
  assertion_id :: string
  ra_workspace_id :: string
  evidence_receipts :: "evidence_receipt list"
  formation_receipt :: json
  anchors :: json
  relation_kind :: string
  validity :: relation_validity
  admitted_at :: string
  admission_event_id :: string

record relation_resolution =
  resolution_id :: string
  rr_assertion_id :: string
  rr_workspace_id :: string
  rr_event_id :: string
  rr_kind :: resolution_kind
  resolved_at :: string
  rr_reason :: string

record projection_profile =
  governanceClass :: string
  recallBias :: rat
  salience :: rat
  strength :: rat

definition profile :: "string \<Rightarrow> rat \<Rightarrow> rat \<Rightarrow> rat \<Rightarrow> projection_profile" where
  "profile c b s t = \<lparr> governanceClass = c, recallBias = b, salience = s, strength = t \<rparr>"

definition TEMPORAL_RELATION_PROJECTION_PROFILES :: "(string \<times> projection_profile) list" where
  "TEMPORAL_RELATION_PROJECTION_PROFILES =
     [(''answers_with'', profile ''recall_allowed'' (1 / 2) (1 / 2) (1 / 2)),
      (''coheres_with'', profile ''hint_only'' (1 / 2) (3 / 10) (3 / 10)),
      (''co_recalled'', profile ''attention_only'' (1 / 2) (3 / 10) (3 / 10)),
      (''contradicts'', profile ''recall_allowed'' (- 4 / 10) (9 / 10) (9 / 10)),
      (''derives_from'', profile ''attention_only'' (1 / 2) (1 / 2) (1 / 2)),
      (''exception_to'', profile ''recall_allowed'' 0 (9 / 10) (9 / 10)),
      (''incompatible_with'', profile ''recall_allowed'' (- 3 / 10) (9 / 10) (9 / 10)),
      (''shares_entity'', profile ''hint_only'' (1 / 2) (2 / 10) (2 / 10)),
      (''signal_graph_ref'', profile ''recall_allowed'' (1 / 2) (6 / 10) (6 / 10)),
      (''supersedes'', profile ''recall_allowed'' (- 1 / 2) (9 / 10) (9 / 10)),
      (''supports'', profile ''attention_only'' (1 / 2) (1 / 2) (1 / 2)),
      (''time_concern'', profile ''recall_allowed'' (7 / 10) (6 / 10) (4 / 10))]"

text \<open>Reading a key of the frozen object literal: an own profile, a member inherited from
  \<^verbatim>\<open>Object.prototype\<close>, which is defined but carries none of the fields, or \<^verbatim>\<open>undefined\<close>.\<close>

datatype profile_lookup = Undefined_profile | Inherited_member | Own_profile projection_profile

definition object_prototype_members :: "string list" where
  "object_prototype_members =
     [''constructor'', ''hasOwnProperty'', ''isPrototypeOf'', ''propertyIsEnumerable'', ''toLocaleString'',
      ''toString'', ''valueOf'', ''__proto__'', ''__defineGetter__'', ''__defineSetter__'',
      ''__lookupGetter__'', ''__lookupSetter__'']"

definition lookup_profile :: "string \<Rightarrow> profile_lookup" where
  "lookup_profile kind =
     (case map_of TEMPORAL_RELATION_PROJECTION_PROFILES kind of
        Some p \<Rightarrow> Own_profile p
      | None \<Rightarrow> if List.member object_prototype_members kind then Inherited_member else Undefined_profile)"

definition supportsTemporalRelationProjection :: "string \<Rightarrow> bool" where
  "supportsTemporalRelationProjection kind \<longleftrightarrow> lookup_profile kind \<noteq> Undefined_profile"

record effect_vector =
  ev_salience :: rat
  recall_bias :: rat
  verification_bias :: rat
  unfinishedness_bias :: rat
  default_manifestation_preference :: string

record plasticity_state =
  ps_strength :: rat
  direction_bias :: string
  stability_class :: string
  support_events_count :: nat
  contradiction_events_count :: nat

record path_relation =
  path_id :: string
  pp_workspace_id :: string
  pp_anchors :: json
  pp_relation_kind :: string
  why_this_relation_exists :: "string list"
  pp_effect_vector :: effect_vector
  pp_plasticity_state :: plasticity_state
  lifecycle_status :: string
  retirement_rule :: string
  evidence_basis :: "string list"
  governance_class :: string
  pp_created_at :: string
  pp_updated_at :: string

section \<open>Activity at an instant\<close>

definition compare_or :: "(string \<Rightarrow> bool) \<Rightarrow> int \<Rightarrow> string \<Rightarrow> string \<Rightarrow> int" where
  "compare_or zod dflt l r = (case compareUtcInstants zod l r of None \<Rightarrow> dflt | Some v \<Rightarrow> v)"

definition isRelationValidityActiveAt ::
  "(string \<Rightarrow> bool) \<Rightarrow> relation_validity \<Rightarrow> string \<Rightarrow> string set \<Rightarrow> string + bool" where
  "isRelationValidityActiveAt zod v asOf permitted =
     (if \<not> IsoDatetimeString zod asOf then Inl ''ZodError''
      else Inr (case v of
          Bounded_validity f t \<Rightarrow> compare_or zod (-1) asOf f \<ge> 0 \<and> compare_or zod 0 asOf t < 0
        | Open_validity f \<Rightarrow> compare_or zod (-1) asOf f \<ge> 0
        | Timeless_validity p \<Rightarrow> p \<in> permitted))"

definition hasResolutionAtOrBefore :: "(string \<Rightarrow> bool) \<Rightarrow> relation_resolution list \<Rightarrow> string \<Rightarrow> bool" where
  "hasResolutionAtOrBefore zod rs asOf =
     list_ex (\<lambda>r. case compareUtcInstants zod (resolved_at r) asOf of None \<Rightarrow> False | Some order \<Rightarrow> order \<noteq> 1) rs"

definition project_path :: "relation_assertion \<Rightarrow> projection_profile \<Rightarrow> path_relation" where
  "project_path a prof =
     \<lparr> path_id = assertion_id a, pp_workspace_id = ra_workspace_id a, pp_anchors = anchors a,
       pp_relation_kind = relation_kind a,
       why_this_relation_exists = [''temporal assertion '' @ assertion_id a],
       pp_effect_vector = \<lparr> ev_salience = salience prof, recall_bias = recallBias prof, verification_bias = 0,
         unfinishedness_bias = 0, default_manifestation_preference = ''lens_entry'' \<rparr>,
       pp_plasticity_state = \<lparr> ps_strength = strength prof, direction_bias = ''bidirectional_asymmetric'',
         stability_class = ''stable'', support_events_count = 1, contradiction_events_count = 0 \<rparr>,
       lifecycle_status = ''active'', retirement_rule = ''manual'',
       evidence_basis = map evidence_id (evidence_receipts a), governance_class = governanceClass prof,
       pp_created_at = admitted_at a, pp_updated_at = admitted_at a \<rparr>"

text \<open>\<open>path_ok\<close> is the verdict of the path schema on the projected path; without a salience, a bias
  and a strength the schema always refuses.\<close>

definition parse_path :: "(path_relation \<Rightarrow> bool) \<Rightarrow> relation_assertion \<Rightarrow> profile_lookup \<Rightarrow> string + path_relation option" where
  "parse_path path_ok a looked_up =
     (case looked_up of
        Own_profile prof \<Rightarrow>
          if path_ok (project_path a prof) then Inr (Some (project_path a prof)) else Inl ''ZodError''
      | _ \<Rightarrow> Inl ''ZodError'')"

definition buildTemporalPathProjection ::
  "(string \<Rightarrow> bool) \<Rightarrow> (path_relation \<Rightarrow> bool) \<Rightarrow> relation_assertion \<Rightarrow> relation_resolution list \<Rightarrow> string \<Rightarrow> string set
     \<Rightarrow> string + path_relation option" where
  "buildTemporalPathProjection zod path_ok a rs asOf permitted =
     (let looked_up = lookup_profile (relation_kind a)
      in if looked_up = Undefined_profile \<or> compareUtcInstants zod (admitted_at a) asOf = Some 1
           \<or> hasResolutionAtOrBefore zod rs asOf
         then Inr None
         else (case isRelationValidityActiveAt zod (validity a) asOf permitted of
                 Inl e \<Rightarrow> Inl e
               | Inr active \<Rightarrow> if \<not> active then Inr None else parse_path path_ok a looked_up))"

section \<open>The projection of a history\<close>

text \<open>A map from assertion ids to their resolutions, in order.\<close>

definition groupResolutionsByAssertion :: "relation_resolution list \<Rightarrow> string \<Rightarrow> relation_resolution list option" where
  "groupResolutionsByAssertion rs =
     fold (\<lambda>r g. g(rr_assertion_id r \<mapsto> (case g (rr_assertion_id r) of None \<Rightarrow> [] | Some xs \<Rightarrow> xs) @ [r])) rs Map.empty"

primrec project_all ::
  "(string \<Rightarrow> bool) \<Rightarrow> (path_relation \<Rightarrow> bool) \<Rightarrow> (string \<Rightarrow> relation_resolution list option) \<Rightarrow> string \<Rightarrow> string set
     \<Rightarrow> relation_assertion list \<Rightarrow> string + path_relation list" where
  "project_all zod path_ok grouped asOf permitted [] = Inr []"
| "project_all zod path_ok grouped asOf permitted (a # as) =
     (case buildTemporalPathProjection zod path_ok a
             (case grouped (assertion_id a) of None \<Rightarrow> [] | Some xs \<Rightarrow> xs) asOf permitted of
        Inl e \<Rightarrow> Inl e
      | Inr p \<Rightarrow>
          (case project_all zod path_ok grouped asOf permitted as of
             Inl e \<Rightarrow> Inl e
           | Inr ps \<Rightarrow> Inr ((case p of None \<Rightarrow> [] | Some x \<Rightarrow> [x]) @ ps)))"

definition buildActiveRelationProjections ::
  "(string \<Rightarrow> bool) \<Rightarrow> (path_relation \<Rightarrow> bool) \<Rightarrow> (string \<Rightarrow> string \<Rightarrow> int) \<Rightarrow> relation_assertion list \<Rightarrow> relation_resolution list
     \<Rightarrow> string \<Rightarrow> string set \<Rightarrow> string + path_relation list" where
  "buildActiveRelationProjections zod path_ok localeCompare as rs asOf permitted =
     map_sum id (js_sort (\<lambda>l r. localeCompare (path_id l) (path_id r)))
       (project_all zod path_ok (groupResolutionsByAssertion rs) asOf permitted as)"

definition consider_instant :: "(string \<Rightarrow> bool) \<Rightarrow> string \<Rightarrow> string \<Rightarrow> string option \<Rightarrow> string option" where
  "consider_instant zod asOf timestamp nxt =
     (if compareUtcInstants zod timestamp asOf = Some 1
         \<and> (case nxt of None \<Rightarrow> True | Some n \<Rightarrow> compareUtcInstants zod timestamp n = Some (-1))
      then Some timestamp else nxt)"

definition validity_bounds :: "relation_validity \<Rightarrow> string list" where
  "validity_bounds v = (case v of Bounded_validity f t \<Rightarrow> [f, t] | Open_validity f \<Rightarrow> [f] | Timeless_validity _ \<Rightarrow> [])"

definition history_bounds :: "relation_assertion list \<Rightarrow> relation_resolution list \<Rightarrow> string list" where
  "history_bounds as rs = concat (map (\<lambda>a. admitted_at a # validity_bounds (validity a)) as) @ map resolved_at rs"

definition findNextProjectionRefreshAt ::
  "(string \<Rightarrow> bool) \<Rightarrow> relation_assertion list \<Rightarrow> relation_resolution list \<Rightarrow> string \<Rightarrow> string option" where
  "findNextProjectionRefreshAt zod as rs asOf = fold (consider_instant zod asOf) (history_bounds as rs) None"

record history_options =
  h_activate :: bool
  currentHistoryDigest :: "string option"

definition EMPTY_RELATION_HISTORY_DIGEST :: string where
  "EMPTY_RELATION_HISTORY_DIGEST = ''e3b0c44298fc1c149afbf4c8996fb92427ae41e4649b934ca495991b7852b855''"

definition LEGACY_STRUCTURED_EMPTY_HISTORY_DIGEST :: string where
  "LEGACY_STRUCTURED_EMPTY_HISTORY_DIGEST = ''d9327aacd57129254839ac80dcf2b0cb97efb4f5cb844c83073b22f4d400ea74''"

record digest_env =
  sha256 :: "string \<Rightarrow> string"
  stable_paths :: "path_relation list \<Rightarrow> string"
  stable_history :: "relation_assertion list \<Rightarrow> relation_resolution list \<Rightarrow> string"
  locale_compare :: "string \<Rightarrow> string \<Rightarrow> int"

definition hashStructuredRelationHistory ::
  "digest_env \<Rightarrow> relation_assertion list \<Rightarrow> relation_resolution list \<Rightarrow> string" where
  "hashStructuredRelationHistory env as rs = sha256 env (stable_history env as rs)"

definition buildRelationHistoryDigest ::
  "digest_env \<Rightarrow> relation_assertion list \<Rightarrow> relation_resolution list \<Rightarrow> history_options \<Rightarrow> string" where
  "buildRelationHistoryDigest env as rs history =
     (if as \<noteq> [] \<or> rs \<noteq> [] then hashStructuredRelationHistory env as rs
      else if h_activate history then EMPTY_RELATION_HISTORY_DIGEST
      else case currentHistoryDigest history of
             Some current \<Rightarrow>
               if current = EMPTY_RELATION_HISTORY_DIGEST \<or> current = LEGACY_STRUCTURED_EMPTY_HISTORY_DIGEST
               then current else EMPTY_RELATION_HISTORY_DIGEST
           | None \<Rightarrow> EMPTY_RELATION_HISTORY_DIGEST)"

text \<open>The result without the constant names of its schema generations and policy.\<close>

record projection_result =
  activeProjectionCount :: nat
  nextProjectionRefreshAt :: "string option"
  generation :: string
  historyDigest :: string
  g_asOf :: string
  projectionDigest :: string
  projections :: "path_relation list"
  createdAt :: string

definition buildRelationProjection ::
  "(string \<Rightarrow> bool) \<Rightarrow> (path_relation \<Rightarrow> bool) \<Rightarrow> digest_env \<Rightarrow> relation_assertion list \<Rightarrow> relation_resolution list
     \<Rightarrow> string \<Rightarrow> string set \<Rightarrow> history_options \<Rightarrow> string + projection_result" where
  "buildRelationProjection zod path_ok env as rs asOf permitted history =
     (case buildActiveRelationProjections zod path_ok (locale_compare env) as rs asOf permitted of
        Inl e \<Rightarrow> Inl e
      | Inr ps \<Rightarrow>
          let historyDigest' = buildRelationHistoryDigest env as rs history
          in Inr \<lparr> activeProjectionCount = length ps,
               nextProjectionRefreshAt = findNextProjectionRefreshAt zod as rs asOf,
               generation = ''temporal-'' @ take 48 (sha256 env (historyDigest' @ ''|'' @ asOf)),
               historyDigest = historyDigest', g_asOf = asOf, projectionDigest = sha256 env (stable_paths env ps),
               projections = ps, createdAt = asOf \<rparr>)"

section \<open>Facts\<close>

lemma grouped_eq: "(case groupResolutionsByAssertion rs i of None \<Rightarrow> [] | Some xs \<Rightarrow> xs) = filter (\<lambda>r. rr_assertion_id r = i) rs"
proof -
  define step where "step = (\<lambda>r (g :: string \<Rightarrow> relation_resolution list option).
    g(rr_assertion_id r \<mapsto> (case g (rr_assertion_id r) of None \<Rightarrow> [] | Some xs \<Rightarrow> xs) @ [r]))"
  have "(case fold step rs g i of None \<Rightarrow> [] | Some xs \<Rightarrow> xs) =
      (case g i of None \<Rightarrow> [] | Some xs \<Rightarrow> xs) @ filter (\<lambda>r. rr_assertion_id r = i) rs" for g
    by (induction rs arbitrary: g) (auto simp: step_def split: option.split)
  from this [of Map.empty] show ?thesis by (simp add: groupResolutionsByAssertion_def step_def)
qed

text \<open>A history whose timestamps are all instants.\<close>

definition dated_history :: "(string \<Rightarrow> bool) \<Rightarrow> relation_assertion list \<Rightarrow> relation_resolution list \<Rightarrow> bool" where
  "dated_history zod as rs \<longleftrightarrow> list_all (IsoDatetimeString zod) (history_bounds as rs)"

lemma verdict:
  assumes "zod_documented zod" "IsoDatetimeString zod l" "IsoDatetimeString zod r"
  shows "compareUtcInstants zod l r = Some 1 \<longleftrightarrow> earlier r l"
    and "compareUtcInstants zod l r = Some (-1) \<longleftrightarrow> earlier l r"
    and "compare_or zod d l r \<ge> 0 \<longleftrightarrow> \<not> earlier l r" and "compare_or zod d l r < 0 \<longleftrightarrow> earlier l r"
  using compare_chronological [OF assms] earlier_total [of l r] earlier_asym [of l r] earlier_not_simultaneous [of l r]
    earlier_not_simultaneous [of r l] simultaneous_sym [of l r]
  by (auto simp: compare_or_def split: if_splits)

text \<open>The earliest bound later than the reference.\<close>

lemma fold_consider:
  assumes doc: "zod_documented zod" and a: "IsoDatetimeString zod a"
    and "list_all (IsoDatetimeString zod) bs"
    and "case nxt of None \<Rightarrow> True | Some n \<Rightarrow> IsoDatetimeString zod n \<and> earlier a n"
  shows "case fold (consider_instant zod a) bs nxt of
      None \<Rightarrow> nxt = None \<and> (\<forall>b \<in> set bs. \<not> earlier a b)
    | Some n \<Rightarrow> IsoDatetimeString zod n \<and> earlier a n \<and> (\<forall>b \<in> set bs. earlier a b \<longrightarrow> \<not> earlier b n)
        \<and> (case nxt of None \<Rightarrow> True | Some m \<Rightarrow> \<not> earlier m n)"
  using assms(3,4)
proof (induction bs arbitrary: nxt)
  case Nil
  then show ?case by (cases nxt) auto
next
  case (Cons b bs)
  define nxt' where "nxt' = consider_instant zod a b nxt"
  have b: "IsoDatetimeString zod b" using Cons.prems by simp
  have "case nxt' of None \<Rightarrow> True | Some n \<Rightarrow> IsoDatetimeString zod n \<and> earlier a n"
    using Cons.prems b verdict(1) [OF doc b a] by (auto simp: nxt'_def consider_instant_def split: option.splits)
  note IH = Cons.IH [OF _ this]
  have ok: "list_all (IsoDatetimeString zod) bs" using Cons.prems by simp
  have fold: "fold (consider_instant zod a) (b # bs) nxt = fold (consider_instant zod a) bs nxt'" by (simp add: nxt'_def)
  show ?case
  proof (cases "fold (consider_instant zod a) bs nxt'")
    case None
    with IH [OF ok] have "nxt' = None" "\<forall>b \<in> set bs. \<not> earlier a b" by auto
    then show ?thesis
      unfolding fold None using verdict(1) [OF doc b a] by (auto simp: nxt'_def consider_instant_def split: if_splits)
  next
    case (Some n)
    with IH [OF ok] have n: "IsoDatetimeString zod n" "earlier a n" "\<forall>b \<in> set bs. earlier a b \<longrightarrow> \<not> earlier b n"
      and m: "case nxt' of None \<Rightarrow> True | Some m \<Rightarrow> \<not> earlier m n" by auto
    have step: "earlier a b \<Longrightarrow> (\<exists>m. nxt' = Some m \<and> \<not> earlier b m)"
      "\<And>k. nxt = Some k \<Longrightarrow> (\<exists>m. nxt' = Some m \<and> \<not> earlier k m)"
      using Cons.prems verdict(1) [OF doc b a] verdict(2) [OF doc b] earlier_asym
      by (auto simp: nxt'_def consider_instant_def split: option.splits)
    have chain: "\<not> earlier x m \<Longrightarrow> \<not> earlier m n \<Longrightarrow> \<not> earlier x n" for x m
      by (metis earlier_total earlier_trans earlier_not_simultaneous earlier_def simultaneous_def)
    from step m have "earlier a b \<longrightarrow> \<not> earlier b n" and "case nxt of None \<Rightarrow> True | Some m \<Rightarrow> \<not> earlier m n"
      using chain by (auto split: option.splits)
    with n show ?thesis unfolding fold Some by auto
  qed
qed

text \<open>Between the reference and the next refresh no bound is crossed.\<close>

lemma no_bound_crossed:
  assumes doc: "zod_documented zod" and a: "IsoDatetimeString zod a" and dated: "dated_history zod as rs"
    and after: "\<not> earlier t a" and before: "\<And>n. findNextProjectionRefreshAt zod as rs a = Some n \<Longrightarrow> earlier t n"
    and b: "b \<in> set (history_bounds as rs)"
  shows "earlier t b \<longleftrightarrow> earlier a b"
proof -
  have f: "case findNextProjectionRefreshAt zod as rs a of
      None \<Rightarrow> (\<forall>b \<in> set (history_bounds as rs). \<not> earlier a b)
    | Some n \<Rightarrow> (\<forall>b \<in> set (history_bounds as rs). earlier a b \<longrightarrow> \<not> earlier b n)"
    using fold_consider [OF doc a, of "history_bounds as rs" None] dated
    by (auto simp: findNextProjectionRefreshAt_def dated_history_def split: option.splits)
  have le: "earlier t b \<Longrightarrow> earlier a b"
    using after by (metis earlier_total earlier_trans earlier_def simultaneous_def)
  have "earlier t b" if "earlier a b"
  proof (cases "findNextProjectionRefreshAt zod as rs a")
    case None
    with f b that show ?thesis by auto
  next
    case (Some n)
    with f b that before have "\<not> earlier b n" "earlier t n" by auto
    then show ?thesis by (metis earlier_total earlier_trans earlier_def simultaneous_def)
  qed
  with le show ?thesis by blast
qed

text \<open>The projection sees the instant only through the bounds it has not reached.\<close>

lemma at_bounds:
  assumes doc: "zod_documented zod" and i: "IsoDatetimeString zod i" "IsoDatetimeString zod j"
    and b: "IsoDatetimeString zod b" and same: "earlier i b \<longleftrightarrow> earlier j b"
  shows "compareUtcInstants zod b i = Some 1 \<longleftrightarrow> compareUtcInstants zod b j = Some 1"
    and "compare_or zod d i b \<ge> 0 \<longleftrightarrow> compare_or zod d j b \<ge> 0"
    and "compare_or zod d i b < 0 \<longleftrightarrow> compare_or zod d j b < 0"
  using verdict [OF doc b i(1)] verdict [OF doc b i(2)] verdict [OF doc i(1) b] verdict [OF doc i(2) b] same by auto

lemma validity_at_bounds:
  assumes doc: "zod_documented zod" and i: "IsoDatetimeString zod i" "IsoDatetimeString zod j"
    and dated: "\<forall>b \<in> set (validity_bounds v). IsoDatetimeString zod b \<and> (earlier i b \<longleftrightarrow> earlier j b)"
  shows "isRelationValidityActiveAt zod v i permitted = isRelationValidityActiveAt zod v j permitted"
  using dated at_bounds(2,3) [OF doc i]
  by (cases v) (simp_all add: isRelationValidityActiveAt_def validity_bounds_def i)

lemma resolution_at_bounds:
  assumes doc: "zod_documented zod" and i: "IsoDatetimeString zod i" "IsoDatetimeString zod j"
    and dated: "\<forall>r \<in> set rs. IsoDatetimeString zod (resolved_at r) \<and> (earlier i (resolved_at r) \<longleftrightarrow> earlier j (resolved_at r))"
  shows "hasResolutionAtOrBefore zod rs i = hasResolutionAtOrBefore zod rs j"
proof -
  have "(case compareUtcInstants zod (resolved_at r) i of None \<Rightarrow> False | Some order \<Rightarrow> order \<noteq> 1) =
        (case compareUtcInstants zod (resolved_at r) j of None \<Rightarrow> False | Some order \<Rightarrow> order \<noteq> 1)" if "r \<in> set rs" for r
    using that dated at_bounds(1) [OF doc i, of "resolved_at r"] compare_None [of zod "resolved_at r"] i
    by (auto split: option.split)
  then show ?thesis by (auto simp: hasResolutionAtOrBefore_def list_ex_iff)
qed

lemma project_all_cong:
  "(\<And>a. a \<in> set as \<Longrightarrow> buildTemporalPathProjection zod ok a (case g (assertion_id a) of None \<Rightarrow> [] | Some xs \<Rightarrow> xs) i p
      = buildTemporalPathProjection zod ok a (case g (assertion_id a) of None \<Rightarrow> [] | Some xs \<Rightarrow> xs) j p) \<Longrightarrow>
   project_all zod ok g i p as = project_all zod ok g j p as"
  by (induction as) (auto split: sum.split)

lemma projections_at_bounds:
  assumes doc: "zod_documented zod" and i: "IsoDatetimeString zod i" "IsoDatetimeString zod j"
    and dated: "dated_history zod as rs"
    and same: "\<And>b. b \<in> set (history_bounds as rs) \<Longrightarrow> earlier i b \<longleftrightarrow> earlier j b"
  shows "buildActiveRelationProjections zod ok cmp as rs i p = buildActiveRelationProjections zod ok cmp as rs j p"
proof -
  have b: "IsoDatetimeString zod b \<and> (earlier i b \<longleftrightarrow> earlier j b)" if "b \<in> set (history_bounds as rs)" for b
    using that dated same by (simp add: dated_history_def list_all_iff)
  have "buildTemporalPathProjection zod ok a (filter (\<lambda>r. rr_assertion_id r = k) rs) i p =
        buildTemporalPathProjection zod ok a (filter (\<lambda>r. rr_assertion_id r = k) rs) j p" if a: "a \<in> set as" for a k
  proof -
    have "\<forall>b \<in> set (admitted_at a # validity_bounds (validity a)). b \<in> set (history_bounds as rs)"
      "\<forall>r \<in> set rs. resolved_at r \<in> set (history_bounds as rs)"
      using a by (auto simp: history_bounds_def)
    then show ?thesis
      using at_bounds(1) [OF doc i, of "admitted_at a"] validity_at_bounds [OF doc i, of "validity a" p]
        resolution_at_bounds [OF doc i, of "filter (\<lambda>r. rr_assertion_id r = k) rs"] b
      by (simp add: buildTemporalPathProjection_def Let_def cong: if_cong)
  qed
  then have "project_all zod ok (groupResolutionsByAssertion rs) i p as = project_all zod ok (groupResolutionsByAssertion rs) j p as"
    by (intro project_all_cong) (simp only: grouped_eq)
  then show ?thesis by (simp only: buildActiveRelationProjections_def)
qed

section \<open>Properties\<close>

text \<open>C28: The refresh instant of a relation projection is sound: from the instant a
  projection is built for until strictly before the refresh instant it announces, and for ever when
  it announces none, rebuilding it on the same history gives the same paths. The instant announced
  is later than the one the projection was built for.\<close>

theorem projection_constant_until_refresh:
  assumes "zod_documented zod" and "dated_history zod as rs"
    and "IsoDatetimeString zod asOf" and "IsoDatetimeString zod t" and "\<not> earlier t asOf"
    and "findNextProjectionRefreshAt zod as rs asOf = None \<or> earlier t (the (findNextProjectionRefreshAt zod as rs asOf))"
  shows "buildActiveRelationProjections zod path_ok localeCompare as rs t permitted
           = buildActiveRelationProjections zod path_ok localeCompare as rs asOf permitted
         \<and> (case findNextProjectionRefreshAt zod as rs asOf of None \<Rightarrow> True | Some n \<Rightarrow> earlier asOf n)"
proof
  have "earlier t n" if "findNextProjectionRefreshAt zod as rs asOf = Some n" for n
    using assms(6) that by simp
  note crossed = no_bound_crossed [OF assms(1,3,2,5) this]
  show "buildActiveRelationProjections zod path_ok localeCompare as rs t permitted
          = buildActiveRelationProjections zod path_ok localeCompare as rs asOf permitted"
    by (rule projections_at_bounds [OF assms(1,4,3,2)]) (rule crossed)
  show "case findNextProjectionRefreshAt zod as rs asOf of None \<Rightarrow> True | Some n \<Rightarrow> earlier asOf n"
    using fold_consider [OF assms(1,3), of "history_bounds as rs" None] assms(2)
    by (auto simp: findNextProjectionRefreshAt_def dated_history_def split: option.splits)
qed

definition sample_assertion :: "string \<Rightarrow> string \<Rightarrow> relation_validity \<Rightarrow> relation_assertion" where
  "sample_assertion k kind v = \<lparr> assertion_id = k, ra_workspace_id = ''w'',
     evidence_receipts = [\<lparr> evidence_id = ''e'', source_event_anchor = JNull \<rparr>], formation_receipt = JNull,
     anchors = JNull, relation_kind = kind, validity = v, admitted_at = ''2024-05-01T10:00Z'',
     admission_event_id = ''ev'' \<rparr>"

definition sample_history :: "relation_assertion list" where
  "sample_history = [sample_assertion ''b'' ''supports'' (Bounded_validity ''2024-05-02T00:00Z'' ''2024-05-04T00:00Z''),
     sample_assertion ''a'' ''contradicts'' (Open_validity ''2024-05-01T00:00Z'')]"

theorem projection_constant_until_refresh_witness:
  "findNextProjectionRefreshAt sample_zod sample_history [] ''2024-05-02T00:00Z'' = Some ''2024-05-04T00:00Z''
   \<and> map_sum id (map path_id) (buildActiveRelationProjections sample_zod (\<lambda>_. True) compareCodeUnits sample_history []
       ''2024-05-03T23:59Z'' {}) = Inr [''a'', ''b'']"
proof -
  have "buildActiveRelationProjections sample_zod (\<lambda>_. True) compareCodeUnits sample_history [] ''2024-05-03T23:59Z'' {}
      = buildActiveRelationProjections sample_zod (\<lambda>_. True) compareCodeUnits sample_history [] ''2024-05-02T00:00Z'' {}"
    by (rule projection_constant_until_refresh [OF sample_zod_documented, THEN conjunct1]) code_simp+
  moreover have "findNextProjectionRefreshAt sample_zod sample_history [] ''2024-05-02T00:00Z'' = Some ''2024-05-04T00:00Z''"
    by code_simp
  moreover have "map_sum id (map path_id) (buildActiveRelationProjections sample_zod (\<lambda>_. True) compareCodeUnits sample_history []
       ''2024-05-02T00:00Z'' {}) = Inr [''a'', ''b'']" by code_simp
  ultimately show ?thesis by simp
qed

lemma inherited_lookup: "List.member object_prototype_members kind \<Longrightarrow> lookup_profile kind = Inherited_member"
proof -
  have "list_all (\<lambda>k. lookup_profile k = Inherited_member) object_prototype_members" by code_simp
  then show "List.member object_prototype_members kind \<Longrightarrow> lookup_profile kind = Inherited_member"
    by (simp add: list_all_iff)
qed

lemma project_all_fails:
  "a \<in> set as \<Longrightarrow> buildTemporalPathProjection zod ok a (case g (assertion_id a) of None \<Rightarrow> [] | Some xs \<Rightarrow> xs) i p = Inl e \<Longrightarrow>
   \<exists>e'. project_all zod ok g i p as = Inl e'"
  by (induction as) (auto split: sum.split)

text \<open>C29: A relation kind that names a member of \<^verbatim>\<open>Object.prototype\<close> counts as supported, because
  the profile table is an object literal read without an own-property test; but no path can be
  built from it, so while an assertion of that kind is active the projection of the whole history
  fails, the other assertions included.\<close>

theorem inherited_kind_blocks_projection:
  assumes "a \<in> set as" and "List.member object_prototype_members (relation_kind a)"
    and "compareUtcInstants zod (admitted_at a) asOf \<noteq> Some 1"
    and "list_all (\<lambda>r. rr_assertion_id r \<noteq> assertion_id a) rs"
    and "isRelationValidityActiveAt zod (validity a) asOf permitted = Inr True"
  shows "supportsTemporalRelationProjection (relation_kind a)
         \<and> (\<exists>e. buildActiveRelationProjections zod path_ok localeCompare as rs asOf permitted = Inl e)"
proof
  note kind = inherited_lookup [OF assms(2)]
  then show "supportsTemporalRelationProjection (relation_kind a)" by (simp add: supportsTemporalRelationProjection_def)
  have none: "filter (\<lambda>r. rr_assertion_id r = assertion_id a) rs = []"
    using assms(4) by (auto simp: filter_empty_conv list_all_iff)
  have "buildTemporalPathProjection zod path_ok a
      (case groupResolutionsByAssertion rs (assertion_id a) of None \<Rightarrow> [] | Some xs \<Rightarrow> xs) asOf permitted = Inl ''ZodError''"
    unfolding grouped_eq none buildTemporalPathProjection_def
    using assms(3,5) by (simp add: kind hasResolutionAtOrBefore_def parse_path_def Let_def)
  from project_all_fails [where g = "groupResolutionsByAssertion rs", OF assms(1) this]
  show "\<exists>e. buildActiveRelationProjections zod path_ok localeCompare as rs asOf permitted = Inl e"
    by (auto simp: buildActiveRelationProjections_def)
qed

theorem inherited_kind_blocks_projection_witness:
  "\<exists>e. buildActiveRelationProjections sample_zod (\<lambda>_. True) compareCodeUnits
      (sample_assertion ''c'' ''constructor'' (Open_validity ''2024-05-01T00:00Z'') # sample_history) []
      ''2024-05-02T00:00Z'' {} = Inl e"
  by (rule inherited_kind_blocks_projection
        [of "sample_assertion ''c'' ''constructor'' (Open_validity ''2024-05-01T00:00Z'')", THEN conjunct2])
    (simp, code_simp+)

end
