(* ===== verification/StronglyConnected.thy ===== *)
theory StronglyConnected
  imports Prelude
begin

text \<open>
  Counting the strongly connected components of a graph:
  \<^verbatim>\<open>countStronglyConnectedComponents\<close> of \<^verbatim>\<open>packages/graph-algorithms/src/index.ts\<close>, Tarjan's algorithm
  with an explicit stack and the recursion of the source. The adjacency map is an association list
  and its sets are lists in insertion order; the stack has its top first. The recursion carries
  fuel, because the number of unvisited nodes that bounds it is not visible in its arguments;
  \<open>graph_size\<close> is enough of it. The depth the host's call stack allows is not modelled.
\<close>

section \<open>The algorithm\<close>

type_synonym adjacency = "(string \<times> string list) list"

record tarjan_state =
  t_index :: nat
  componentCount :: nat
  t_stack :: "string list"
  onStack :: "string set"
  indices :: "string \<rightharpoonup> nat"
  lowLinks :: "string \<rightharpoonup> nat"

definition createTarjanState :: tarjan_state where
  "createTarjanState = \<lparr> t_index = 0, componentCount = 0, t_stack = [], onStack = {},
     indices = Map.empty, lowLinks = Map.empty \<rparr>"

definition neighbors :: "adjacency \<Rightarrow> string \<Rightarrow> string list" where
  "neighbors adj k = (case map_of adj k of None \<Rightarrow> [] | Some ns \<Rightarrow> ns)"

definition readTrackedNumber :: "(string \<rightharpoonup> nat) \<Rightarrow> string \<Rightarrow> string \<Rightarrow> string \<Rightarrow> nat js_outcome" where
  "readTrackedNumber m k label invariantLabel =
     (case m k of
        Some value \<Rightarrow> Returned value
      | None \<Rightarrow> Threw (invariantLabel @ '' Tarjan invariant violated: missing '' @ label @ '' for '' @ k @ ''.''))"

definition trackTarjanNode :: "string \<Rightarrow> tarjan_state \<Rightarrow> tarjan_state" where
  "trackTarjanNode k st = st\<lparr> indices := (indices st)(k \<mapsto> t_index st), lowLinks := (lowLinks st)(k \<mapsto> t_index st),
     t_index := t_index st + 1, t_stack := k # t_stack st, onStack := insert k (onStack st) \<rparr>"

text \<open>The loop that pops the stack down to a node. The source's check for an absent candidate is dead:
  the loop runs only while the stack is not empty.\<close>

primrec pop_until :: "string \<Rightarrow> string list \<Rightarrow> string set \<Rightarrow> string list \<times> string set" where
  "pop_until k [] on = ([], on)"
| "pop_until k (c # cs) on = (if c = k then (cs, on - {c}) else pop_until k cs (on - {c}))"

definition settleStronglyConnectedComponent :: "string \<Rightarrow> tarjan_state \<Rightarrow> tarjan_state" where
  "settleStronglyConnectedComponent k st =
     (case pop_until k (t_stack st) (onStack st) of (stack, on) \<Rightarrow>
        st\<lparr> componentCount := componentCount st + 1, t_stack := stack, onStack := on \<rparr>)"

text \<open>\<^verbatim>\<open>state.lowLinks.set(nodeKey, Math.min(low-link of nodeKey, value of neighbor))\<close>.\<close>

definition lower_link :: "string \<Rightarrow> string \<Rightarrow> nat js_outcome \<Rightarrow> tarjan_state \<Rightarrow> tarjan_state js_outcome" where
  "lower_link invariantLabel k other st =
     (case readTrackedNumber (lowLinks st) k ''low-link'' invariantLabel of
        Returned own \<Rightarrow>
          (case other of
             Returned value \<Rightarrow> Returned (st\<lparr> lowLinks := (lowLinks st)(k \<mapsto> min own value) \<rparr>)
           | Threw e \<Rightarrow> Threw e | Diverged \<Rightarrow> Diverged)
      | Threw e \<Rightarrow> Threw e | Diverged \<Rightarrow> Diverged)"

definition visit_neighbor ::
  "(string \<Rightarrow> tarjan_state \<Rightarrow> tarjan_state js_outcome) \<Rightarrow> string \<Rightarrow> string \<Rightarrow> string \<Rightarrow> tarjan_state \<Rightarrow> tarjan_state js_outcome" where
  "visit_neighbor connect invariantLabel k u st =
     (if indices st u = None then
        (case connect u st of
           Returned st' \<Rightarrow> lower_link invariantLabel k (readTrackedNumber (lowLinks st') u ''low-link'' invariantLabel) st'
         | Threw e \<Rightarrow> Threw e | Diverged \<Rightarrow> Diverged)
      else if u \<in> onStack st then
        lower_link invariantLabel k (readTrackedNumber (indices st) u ''index'' invariantLabel) st
      else Returned st)"

primrec visit_neighbors ::
  "(string \<Rightarrow> tarjan_state \<Rightarrow> tarjan_state js_outcome) \<Rightarrow> string \<Rightarrow> string \<Rightarrow> string list \<Rightarrow> tarjan_state \<Rightarrow> tarjan_state js_outcome" where
  "visit_neighbors connect invariantLabel k [] st = Returned st"
| "visit_neighbors connect invariantLabel k (u # us) st =
     (case visit_neighbor connect invariantLabel k u st of
        Returned st' \<Rightarrow> visit_neighbors connect invariantLabel k us st'
      | Threw e \<Rightarrow> Threw e | Diverged \<Rightarrow> Diverged)"

definition settle_if_root :: "string \<Rightarrow> string \<Rightarrow> tarjan_state \<Rightarrow> tarjan_state js_outcome" where
  "settle_if_root invariantLabel k st =
     (case readTrackedNumber (lowLinks st) k ''low-link'' invariantLabel of
        Returned low \<Rightarrow>
          (case readTrackedNumber (indices st) k ''index'' invariantLabel of
             Returned i \<Rightarrow> Returned (if low = i then settleStronglyConnectedComponent k st else st)
           | Threw e \<Rightarrow> Threw e | Diverged \<Rightarrow> Diverged)
      | Threw e \<Rightarrow> Threw e | Diverged \<Rightarrow> Diverged)"

primrec strongConnectNode :: "nat \<Rightarrow> adjacency \<Rightarrow> string \<Rightarrow> string \<Rightarrow> tarjan_state \<Rightarrow> tarjan_state js_outcome" where
  "strongConnectNode 0 adj invariantLabel k st = Diverged"
| "strongConnectNode (Suc fuel) adj invariantLabel k st =
     (case visit_neighbors (strongConnectNode fuel adj invariantLabel) invariantLabel k (neighbors adj k)
             (trackTarjanNode k st) of
        Returned st' \<Rightarrow> settle_if_root invariantLabel k st'
      | Threw e \<Rightarrow> Threw e | Diverged \<Rightarrow> Diverged)"

primrec connect_roots :: "nat \<Rightarrow> adjacency \<Rightarrow> string \<Rightarrow> string list \<Rightarrow> tarjan_state \<Rightarrow> tarjan_state js_outcome" where
  "connect_roots fuel adj invariantLabel [] st = Returned st"
| "connect_roots fuel adj invariantLabel (k # ks) st =
     (if indices st k = None then
        (case strongConnectNode fuel adj invariantLabel k st of
           Returned st' \<Rightarrow> connect_roots fuel adj invariantLabel ks st'
         | Threw e \<Rightarrow> Threw e | Diverged \<Rightarrow> Diverged)
      else connect_roots fuel adj invariantLabel ks st)"

definition graph_size :: "string list \<Rightarrow> adjacency \<Rightarrow> nat" where
  "graph_size ks adj = length ks + sum_list (map (\<lambda>(k, ns). length ns) adj)"

definition countStronglyConnectedComponents :: "string list \<Rightarrow> adjacency \<Rightarrow> string \<Rightarrow> nat js_outcome" where
  "countStronglyConnectedComponents nodeKeys adj invariantLabel =
     (case connect_roots (graph_size nodeKeys adj) adj invariantLabel nodeKeys createTarjanState of
        Returned st \<Rightarrow> Returned (componentCount st)
      | Threw e \<Rightarrow> Threw e | Diverged \<Rightarrow> Diverged)"

section \<open>Reachability and components\<close>

definition edge :: "adjacency \<Rightarrow> string \<Rightarrow> string \<Rightarrow> bool" where
  "edge adj x y \<longleftrightarrow> y \<in> set (neighbors adj x)"

abbreviation reaches :: "adjacency \<Rightarrow> string \<Rightarrow> string \<Rightarrow> bool" where
  "reaches adj \<equiv> (edge adj)\<^sup>*\<^sup>*"

definition component :: "adjacency \<Rightarrow> string \<Rightarrow> string set" where
  "component adj x = {y. reaches adj x y \<and> reaches adj y x}"

lemma component_self: "x \<in> component adj x"
  by (simp add: component_def)

lemma component_eq: "y \<in> component adj x \<Longrightarrow> component adj y = component adj x"
  unfolding component_def by (auto intro: rtranclp_trans)

lemma reaches_closed: "reaches adj x y \<Longrightarrow> x \<in> A \<Longrightarrow> (\<And>x y. x \<in> A \<Longrightarrow> edge adj x y \<Longrightarrow> y \<in> A) \<Longrightarrow> y \<in> A"
  by (induction rule: rtranclp_induct) auto

section \<open>The invariant\<close>

abbreviation visited :: "tarjan_state \<Rightarrow> string set" where
  "visited st \<equiv> dom (indices st)"

abbreviation idx :: "tarjan_state \<Rightarrow> string \<Rightarrow> nat" where
  "idx st x \<equiv> the (indices st x)"

abbreviation low :: "tarjan_state \<Rightarrow> string \<Rightarrow> nat" where
  "low st x \<equiv> the (lowLinks st x)"

definition settled :: "tarjan_state \<Rightarrow> string set" where
  "settled st = visited st - set (t_stack st)"

text \<open>\<open>G\<close> holds the nodes whose calls are still running. The order of the stack is the order of
  discovery; a running node precedes and is reached by every stacked node.\<close>

definition stack_ok :: "string set \<Rightarrow> tarjan_state \<Rightarrow> bool" where
  "stack_ok G st \<longleftrightarrow> onStack st = set (t_stack st) \<and> set (t_stack st) \<subseteq> visited st \<and> dom (lowLinks st) = visited st
     \<and> G \<subseteq> set (t_stack st) \<and> finite (visited st) \<and> (\<forall>x \<in> visited st. idx st x < t_index st)
     \<and> sorted_wrt (\<lambda>x y. idx st y < idx st x) (t_stack st)"

definition tarjan_inv :: "adjacency \<Rightarrow> string set \<Rightarrow> tarjan_state \<Rightarrow> bool" where
  "tarjan_inv adj G st \<longleftrightarrow> stack_ok G st
     \<and> (\<forall>x \<in> visited st - G. \<forall>y. edge adj x y \<longrightarrow> y \<in> visited st)
     \<and> (\<forall>x \<in> settled st. \<forall>y. edge adj x y \<longrightarrow> y \<in> settled st)
     \<and> (\<forall>x \<in> set (t_stack st). \<forall>y \<in> set (t_stack st). idx st x \<le> idx st y \<longrightarrow> reaches adj x y)
     \<and> (\<forall>y \<in> set (t_stack st). \<exists>g \<in> G. idx st g \<le> idx st y \<and> reaches adj y g)
     \<and> componentCount st = card (component adj ` settled st)"

lemma tarjan_invD:
  assumes "tarjan_inv adj G st"
  shows "stack_ok G st"
    and "x \<in> visited st \<Longrightarrow> x \<notin> G \<Longrightarrow> edge adj x y \<Longrightarrow> y \<in> visited st"
    and "x \<in> settled st \<Longrightarrow> edge adj x y \<Longrightarrow> y \<in> settled st"
    and "x \<in> set (t_stack st) \<Longrightarrow> y \<in> set (t_stack st) \<Longrightarrow> idx st x \<le> idx st y \<Longrightarrow> reaches adj x y"
    and "y \<in> set (t_stack st) \<Longrightarrow> \<exists>g \<in> G. idx st g \<le> idx st y \<and> reaches adj y g"
    and "componentCount st = card (component adj ` settled st)"
  using assms unfolding tarjan_inv_def by blast+

lemma stack_okD:
  assumes "stack_ok G st"
  shows "onStack st = set (t_stack st)" and "set (t_stack st) \<subseteq> visited st" and "dom (lowLinks st) = visited st"
    and "G \<subseteq> set (t_stack st)" and "finite (visited st)" and "x \<in> visited st \<Longrightarrow> idx st x < t_index st"
    and "sorted_wrt (\<lambda>x y. idx st y < idx st x) (t_stack st)"
  using assms unfolding stack_ok_def by blast+

text \<open>What a call leaves: the old stack with new nodes on top, old entries untouched, and a low-link
  that is the index of the node itself or of an older stacked node it reaches, not above any older
  stacked node the new ones have an edge to.\<close>

definition extends :: "adjacency \<Rightarrow> string \<Rightarrow> tarjan_state \<Rightarrow> tarjan_state \<Rightarrow> bool" where
  "extends adj v st st' \<longleftrightarrow> indices st \<subseteq>\<^sub>m indices st' \<and> (\<forall>x \<in> visited st. lowLinks st' x = lowLinks st x)
     \<and> v \<in> visited st' \<and> t_index st \<le> idx st' v \<and> visited st' \<subseteq> visited st \<union> {y. reaches adj v y}
     \<and> low st' v \<le> idx st' v
     \<and> (low st' v = idx st' v \<or> (\<exists>w \<in> set (t_stack st). idx st' w = low st' v \<and> reaches adj v w))"

definition covers :: "adjacency \<Rightarrow> string set \<Rightarrow> string set \<Rightarrow> string \<Rightarrow> tarjan_state \<Rightarrow> bool" where
  "covers adj new old v st \<longleftrightarrow> (\<forall>x \<in> new. \<forall>y \<in> old. edge adj x y \<longrightarrow> low st v \<le> idx st y)"

definition explored :: "adjacency \<Rightarrow> string \<Rightarrow> string set \<Rightarrow> tarjan_state \<Rightarrow> tarjan_state \<Rightarrow> bool" where
  "explored adj v G st st' \<longleftrightarrow> tarjan_inv adj G st' \<and> extends adj v st st'
     \<and> (\<exists>new. t_stack st' = new @ t_stack st \<and> set new \<inter> visited st = {}
          \<and> covers adj (set new) (set (t_stack st)) v st')"

definition exploring :: "adjacency \<Rightarrow> string \<Rightarrow> string set \<Rightarrow> string set \<Rightarrow> tarjan_state \<Rightarrow> tarjan_state \<Rightarrow> bool" where
  "exploring adj v seen G st st' \<longleftrightarrow> tarjan_inv adj (insert v G) st' \<and> extends adj v st st'
     \<and> stack_ok G st \<and> v \<notin> visited st \<and> seen \<subseteq> visited st'
     \<and> (\<forall>y \<in> seen \<inter> set (t_stack st). low st' v \<le> idx st' y)
     \<and> (\<exists>new. t_stack st' = new @ v # t_stack st \<and> set new \<inter> visited st = {}
          \<and> covers adj (set new) (set (t_stack st)) v st')"

section \<open>The steps keep it\<close>

text \<open>Only the domain of the low-links matters to the invariant.\<close>

lemma tarjan_inv_low:
  assumes "tarjan_inv adj G st" and "v \<in> visited st"
  shows "tarjan_inv adj G (st\<lparr> lowLinks := (lowLinks st)(v \<mapsto> n) \<rparr>)"
proof -
  define st' where "st' = st\<lparr> lowLinks := (lowLinks st)(v \<mapsto> n) \<rparr>"
  have "dom (lowLinks st) = visited st" using assms(1) by (simp add: tarjan_inv_def stack_ok_def)
  with assms(2) have same: "dom (lowLinks st') = dom (lowLinks st)" "indices st' = indices st" "t_stack st' = t_stack st"
    "onStack st' = onStack st" "t_index st' = t_index st" "componentCount st' = componentCount st"
    by (auto simp: st'_def)
  have "tarjan_inv adj G st' = tarjan_inv adj G st"
    unfolding tarjan_inv_def stack_ok_def settled_def by (simp only: same)
  with assms(1) show ?thesis by (simp only: st'_def)
qed

lemma stack_newer:
  assumes "sorted_wrt (\<lambda>x y. idx st y < idx st x) (new @ v # old)"
  shows "y \<in> set old \<Longrightarrow> idx st y < idx st v" and "x \<in> set new \<Longrightarrow> idx st v < idx st x"
  using assms by (auto simp: sorted_wrt_append)

lemma start_exploring:
  assumes inv: "tarjan_inv adj G st" and new: "v \<notin> visited st" and reach: "\<And>x. x \<in> set (t_stack st) \<Longrightarrow> reaches adj x v"
  shows "exploring adj v {} G st (trackTarjanNode v st)"
proof -
  define st' where "st' = trackTarjanNode v st"
  note ok = stack_okD [OF tarjan_invD(1) [OF inv]]
  have st': "indices st' = (indices st)(v \<mapsto> t_index st)" "lowLinks st' = (lowLinks st)(v \<mapsto> t_index st)"
    "t_index st' = t_index st + 1" "t_stack st' = v # t_stack st" "onStack st' = insert v (onStack st)"
    "componentCount st' = componentCount st"
    by (simp_all add: st'_def trackTarjanNode_def)
  have same: "idx st' x = idx st x" if "x \<in> visited st" for x using that new st' by auto
  have stacked: "x \<in> set (t_stack st) \<Longrightarrow> idx st' x = idx st x \<and> idx st x < t_index st \<and> x \<noteq> v" for x
    using ok(2,6) same new by blast
  have settled: "settled st' = settled st" using new ok(2) by (auto simp: settled_def st')
  have sorted: "sorted_wrt (\<lambda>x y. idx st' y < idx st' x) (t_stack st')"
  proof -
    have "sorted_wrt (\<lambda>x y. idx st' y < idx st' x) (t_stack st)"
      using ok(7) stacked by (simp add: sorted_wrt_iff_nth_less)
    moreover have "idx st' y < idx st' v" if "y \<in> set (t_stack st)" for y
      using stacked [OF that] st'(1) by simp
    ultimately show ?thesis by (simp add: st'(4))
  qed
  have ok': "stack_ok (insert v G) st'"
    using ok sorted same new unfolding stack_ok_def st'(2-5) by (auto simp: st'(1) less_Suc_eq)
  have "tarjan_inv adj (insert v G) st'"
    unfolding tarjan_inv_def settled
  proof (intro conjI ballI allI impI)
    show "stack_ok (insert v G) st'" by (rule ok')
    show "y \<in> visited st'" if "x \<in> visited st' - insert v G" "edge adj x y" for x y
      using that tarjan_invD(2) [OF inv, of x y] st'(1) by auto
    show "y \<in> settled st" if "x \<in> settled st" "edge adj x y" for x y
      using that tarjan_invD(3) [OF inv] by blast
    show "reaches adj x y" if x: "x \<in> set (t_stack st')" and y: "y \<in> set (t_stack st')" and le: "idx st' x \<le> idx st' y" for x y
    proof (cases "y = v")
      case True
      then show ?thesis using x reach st'(4) by auto
    next
      case False
      then have y': "y \<in> set (t_stack st)" using y st'(4) by auto
      have "x \<noteq> v"
      proof
        assume "x = v"
        then have "t_index st \<le> idx st' y" using le st'(1) by simp
        then show False using stacked [OF y'] by linarith
      qed
      then have "x \<in> set (t_stack st)" using x st'(4) by auto
      then show ?thesis using y' le tarjan_invD(4) [OF inv, of x y] stacked by metis
    qed
    show "\<exists>g \<in> insert v G. idx st' g \<le> idx st' y \<and> reaches adj y g" if "y \<in> set (t_stack st')" for y
    proof (cases "y = v")
      case False
      then have y: "y \<in> set (t_stack st)" using that st'(4) by auto
      from tarjan_invD(5) [OF inv y] obtain g where "g \<in> G" "idx st g \<le> idx st y" "reaches adj y g" by blast
      then show ?thesis using stacked y ok(4) by (metis insertCI subsetD)
    qed auto
    show "componentCount st' = card (component adj ` settled st)" using tarjan_invD(6) [OF inv] st'(6) by simp
  qed
  moreover have "extends adj v st st'"
    using new unfolding extends_def st'(1,2) by (auto simp: map_le_def)
  ultimately show ?thesis
    using tarjan_invD(1) [OF inv] new st'(4) unfolding exploring_def st'_def [symmetric] by (auto simp: covers_def)
qed

text \<open>While a node is being explored every stacked node reaches it, and so its neighbours.\<close>

lemma exploring_reach:
  assumes ex: "exploring adj v seen G st st'" and x: "x \<in> set (t_stack st')"
  shows "reaches adj x v"
proof -
  from ex have inv: "tarjan_inv adj (insert v G) st'" and G: "G \<subseteq> set (t_stack st)"
    unfolding exploring_def stack_ok_def by blast+
  from ex obtain new where S: "t_stack st' = new @ v # t_stack st" unfolding exploring_def by blast
  note newer = stack_newer [OF stack_okD(7) [OF tarjan_invD(1) [OF inv], unfolded S]]
  from tarjan_invD(5) [OF inv x] obtain g where g: "g \<in> insert v G" "reaches adj x g" by blast
  then have "reaches adj g v"
    using tarjan_invD(4) [OF inv, of g v] newer(1) [of g] G S by (cases "g = v") fastforce+
  with g show ?thesis by (metis rtranclp_trans)
qed

lemma extendsD:
  assumes "extends adj v st st'"
  shows "x \<in> visited st \<Longrightarrow> indices st' x = indices st x" and "x \<in> visited st \<Longrightarrow> lowLinks st' x = lowLinks st x"
    and "visited st \<subseteq> visited st'" and "v \<in> visited st'" and "t_index st \<le> idx st' v"
    and "visited st' \<subseteq> visited st \<union> {y. reaches adj v y}" and "low st' v \<le> idx st' v"
    and "low st' v = idx st' v \<or> (\<exists>w \<in> set (t_stack st). idx st' w = low st' v \<and> reaches adj v w)"
proof -
  have le: "indices st \<subseteq>\<^sub>m indices st'" using assms unfolding extends_def by blast
  then show "x \<in> visited st \<Longrightarrow> indices st' x = indices st x" unfolding map_le_def by metis
  from le show "visited st \<subseteq> visited st'" by (rule map_le_implies_dom_le)
qed (use assms in \<open>unfold extends_def, blast+\<close>)

lemma exploringD:
  assumes "exploring adj v seen G st st'"
  shows "tarjan_inv adj (insert v G) st'" and "extends adj v st st'" and "stack_ok G st" and "v \<notin> visited st"
    and "seen \<subseteq> visited st'" and "y \<in> seen \<Longrightarrow> y \<in> set (t_stack st) \<Longrightarrow> low st' v \<le> idx st' y"
    and "\<exists>new. t_stack st' = new @ v # t_stack st \<and> set new \<inter> visited st = {}
          \<and> covers adj (set new) (set (t_stack st)) v st'"
  using assms unfolding exploring_def by blast+

text \<open>A low-link lowered to the index of an older stacked node, or to nothing below the node's own.\<close>

lemma extends_low:
  assumes ext: "extends adj v st st'" and v: "v \<notin> visited st"
    and n: "idx st' v \<le> n \<or> (\<exists>w \<in> set (t_stack st). idx st' w = n \<and> reaches adj v w)"
  shows "extends adj v st (st'\<lparr> lowLinks := (lowLinks st')(v \<mapsto> min (low st' v) n) \<rparr>)"
proof -
  have "min (low st' v) n = idx st' v \<or> (\<exists>w \<in> set (t_stack st). idx st' w = min (low st' v) n \<and> reaches adj v w)"
    using n extendsD(7,8) [OF ext] by (auto simp: min_def)
  moreover have "min (low st' v) n \<le> idx st' v" using extendsD(7) [OF ext] by simp
  moreover have "\<forall>x \<in> visited st. x \<noteq> v" using v by blast
  ultimately show ?thesis using ext unfolding extends_def by simp
qed

lemma lower_exploring:
  assumes ex: "exploring adj v seen G st st'" and u: "u \<in> visited st'"
    and n: "idx st' v \<le> n \<or> (\<exists>w \<in> set (t_stack st). idx st' w = n \<and> reaches adj v w)"
    and un: "u \<in> set (t_stack st) \<Longrightarrow> n \<le> idx st' u"
  shows "exploring adj v (insert u seen) G st (st'\<lparr> lowLinks := (lowLinks st')(v \<mapsto> min (low st' v) n) \<rparr>)"
proof -
  define st'' where "st'' = st'\<lparr> lowLinks := (lowLinks st')(v \<mapsto> min (low st' v) n) \<rparr>"
  have same: "indices st'' = indices st'" "t_stack st'' = t_stack st'" "low st'' v = min (low st' v) n"
    by (simp_all add: st''_def)
  note D = exploringD [OF ex]
  obtain new where "t_stack st' = new @ v # t_stack st" "set new \<inter> visited st = {}"
    "covers adj (set new) (set (t_stack st)) v st'" using D(7) by blast
  then have "\<exists>new. t_stack st'' = new @ v # t_stack st \<and> set new \<inter> visited st = {} \<and> covers adj (set new) (set (t_stack st)) v st''"
    unfolding covers_def same by (metis min.coboundedI1)
  moreover have "low st'' v \<le> idx st'' y" if "y \<in> insert u seen \<inter> set (t_stack st)" for y
    using that un D(6) unfolding same by (auto intro: min.coboundedI1 min.coboundedI2)
  moreover have "tarjan_inv adj (insert v G) st''"
    unfolding st''_def by (rule tarjan_inv_low [OF D(1) extendsD(4) [OF D(2)]])
  moreover have "extends adj v st st''" unfolding st''_def by (rule extends_low [OF D(2,4) n])
  moreover have "insert u seen \<subseteq> visited st''" using u D(5) same(1) by simp
  ultimately have "exploring adj v (insert u seen) G st st''" using D(3,4) unfolding exploring_def by blast
  then show ?thesis unfolding st''_def .
qed

lemma stacked_neighbor:
  assumes ex: "exploring adj v seen G st st'" and edge: "edge adj v u" and u: "u \<in> set (t_stack st')"
  shows "exploring adj v (insert u seen) G st (st'\<lparr> lowLinks := (lowLinks st')(v \<mapsto> min (low st' v) (idx st' u)) \<rparr>)"
proof (rule lower_exploring [OF ex])
  note inv = exploringD(1) [OF ex]
  note ok = stack_okD [OF tarjan_invD(1) [OF inv]]
  show "u \<in> visited st'" using u ok(2) by blast
  from exploringD(7) [OF ex] obtain new where S: "t_stack st' = new @ v # t_stack st" by blast
  note newer = stack_newer [OF ok(7) [unfolded S]]
  show "idx st' v \<le> idx st' u \<or> (\<exists>w \<in> set (t_stack st). idx st' w = idx st' u \<and> reaches adj v w)"
  proof (cases "u \<in> set (t_stack st)")
    case True
    with edge show ?thesis by blast
  next
    case False
    with u S have "u \<in> set new \<or> u = v" by auto
    with newer(2) show ?thesis by (auto intro: less_imp_le)
  qed
qed simp

lemma settled_neighbor:
  assumes ex: "exploring adj v seen G st st'" and u: "u \<in> visited st'" "u \<notin> set (t_stack st')"
  shows "exploring adj v (insert u seen) G st st'"
proof -
  from exploringD(7) [OF ex] u(2) have "u \<notin> set (t_stack st)" by auto
  with ex u(1) show ?thesis unfolding exploring_def by blast
qed

lemma extends_call:
  assumes v: "extends adj v st st1" "v \<notin> visited st" and edge: "edge adj v u" and u: "extends adj u st1 st2"
    and older: "\<And>w. w \<in> set (t_stack st1) \<Longrightarrow> w \<notin> set (t_stack st) \<Longrightarrow> idx st1 v \<le> idx st1 w"
    and sub: "set (t_stack st) \<subseteq> set (t_stack st1)" "set (t_stack st1) \<subseteq> visited st1" and below: "idx st1 v < t_index st1"
  shows "extends adj v st (st2\<lparr> lowLinks := (lowLinks st2)(v \<mapsto> min (low st2 v) (low st2 u)) \<rparr>)"
proof (rule extends_low)
  note V = extendsD [OF v(1)] and U = extendsD [OF u]
  have vu: "reaches adj u y \<Longrightarrow> reaches adj v y" for y using edge by (meson converse_rtranclp_into_rtranclp)
  have "indices st \<subseteq>\<^sub>m indices st2" using v(1) u unfolding extends_def by (meson map_le_trans)
  moreover have "\<forall>x \<in> visited st. lowLinks st2 x = lowLinks st x" using V(2,3) U(2) by (metis subsetD)
  moreover have "v \<in> visited st2" using V(4) U(3) by blast
  moreover have same: "idx st2 v = idx st1 v" "low st2 v = low st1 v" using U(1,2) [OF V(4)] by simp_all
  moreover have "visited st2 \<subseteq> visited st \<union> {y. reaches adj v y}" using U(6) V(6) vu by blast
  moreover have stacked: "idx st2 w = idx st1 w" if "w \<in> set (t_stack st1)" for w
    using U(1) [of w] that sub(2) by (metis subsetD)
  moreover have "low st1 v = idx st1 v \<or> (\<exists>w \<in> set (t_stack st). idx st2 w = low st1 v \<and> reaches adj v w)"
    using V(8) stacked sub(1) by (metis subsetD)
  ultimately show "extends adj v st st2" unfolding extends_def same using V(5,7) by blast
  show "v \<notin> visited st" by (rule v(2))
  show "idx st2 v \<le> low st2 u \<or> (\<exists>w \<in> set (t_stack st). idx st2 w = low st2 u \<and> reaches adj v w)"
    using U(8)
  proof
    assume "low st2 u = idx st2 u"
    with U(5) below same show ?thesis by linarith
  next
    assume "\<exists>w \<in> set (t_stack st1). idx st2 w = low st2 u \<and> reaches adj u w"
    then obtain w where w: "w \<in> set (t_stack st1)" "idx st2 w = low st2 u" "reaches adj u w" by blast
    with vu older [OF w(1)] same stacked [OF w(1)] show ?thesis by metis
  qed
qed

lemma called_neighbor:
  assumes ex: "exploring adj v seen G st st1" and edge: "edge adj v u" and u: "u \<notin> visited st1"
    and call: "explored adj u (insert v G) st1 st2"
  shows "exploring adj v (insert u seen) G st (st2\<lparr> lowLinks := (lowLinks st2)(v \<mapsto> min (low st2 v) (low st2 u)) \<rparr>)"
proof -
  define st3 where "st3 = st2\<lparr> lowLinks := (lowLinks st2)(v \<mapsto> min (low st2 v) (low st2 u)) \<rparr>"
  note D = exploringD [OF ex]
  note ok = stack_okD [OF tarjan_invD(1) [OF D(1)]]
  from call have inv: "tarjan_inv adj (insert v G) st2" and U: "extends adj u st1 st2" unfolding explored_def by blast+
  note U' = extendsD [OF U]
  have v: "v \<in> visited st1" by (rule extendsD(4) [OF D(2)])
  obtain new where new: "t_stack st1 = new @ v # t_stack st" "set new \<inter> visited st = {}"
    "covers adj (set new) (set (t_stack st)) v st1" using D(7) by blast
  obtain more_new where more_new: "t_stack st2 = more_new @ t_stack st1" "set more_new \<inter> visited st1 = {}"
    "covers adj (set more_new) (set (t_stack st1)) u st2" using call unfolding explored_def by blast
  have same: "indices st3 = indices st2" "t_stack st3 = t_stack st2" "low st3 v = min (low st1 v) (low st2 u)"
    using U'(2) [OF v] by (simp_all add: st3_def)
  have old: "idx st2 w = idx st1 w" if "w \<in> set (t_stack st)" for w
  proof -
    have "w \<in> visited st1" using that ok(2) new(1) by auto
    then show ?thesis using U'(1) by simp
  qed
  have "extends adj v st st3"
    unfolding st3_def
  proof (rule extends_call [OF D(2,4) edge U])
    show "set (t_stack st) \<subseteq> set (t_stack st1)" using new(1) by auto
    show "set (t_stack st1) \<subseteq> visited st1" by (rule ok(2))
    show "idx st1 v < t_index st1" by (rule ok(6) [OF v])
    show "idx st1 v \<le> idx st1 w" if "w \<in> set (t_stack st1)" "w \<notin> set (t_stack st)" for w
      using that stack_newer(2) [OF ok(7) [unfolded new(1)], of w] new(1) by (auto intro: less_imp_le)
  qed
  moreover have "tarjan_inv adj (insert v G) st3"
    unfolding st3_def using inv v U'(3) by (intro tarjan_inv_low) blast+
  moreover have "insert u seen \<subseteq> visited st3" using D(5) U'(3,4) same(1) by auto
  moreover have "low st3 v \<le> idx st3 y" if "y \<in> insert u seen \<inter> set (t_stack st)" for y
  proof -
    from that u ok(2) new(1) have "y \<in> seen" "y \<in> set (t_stack st)" by auto
    with D(6) old same show ?thesis by (metis min.coboundedI1)
  qed
  moreover have "t_stack st3 = (more_new @ new) @ v # t_stack st \<and> set (more_new @ new) \<inter> visited st = {}
      \<and> covers adj (set (more_new @ new)) (set (t_stack st)) v st3"
  proof (intro conjI)
    show "t_stack st3 = (more_new @ new) @ v # t_stack st" using new(1) more_new(1) same(2) by simp
    show "set (more_new @ new) \<inter> visited st = {}" 
      using new(2) more_new(2) extendsD(3) [OF D(2)] unfolding set_append by blast
    show "covers adj (set (more_new @ new)) (set (t_stack st)) v st3"
      unfolding covers_def
    proof (intro ballI impI)
      fix x y assume x: "x \<in> set (more_new @ new)" and y: "y \<in> set (t_stack st)" and xy: "edge adj x y"
      have "low st2 u \<le> idx st2 y \<or> low st1 v \<le> idx st1 y"
        using x y xy new(1,3) more_new(3) unfolding covers_def by auto
      then show "low st3 v \<le> idx st3 y" using old [OF y] same by (auto intro: min.coboundedI1 min.coboundedI2)
    qed
  qed
  ultimately have "exploring adj v (insert u seen) G st st3" using D(3,4) unfolding exploring_def by blast
  then show ?thesis unfolding st3_def .
qed

lemma pop_until_split:
  "v \<notin> set new \<Longrightarrow> pop_until v (new @ v # old) on = (old, on - insert v (set new))"
  by (induction new arbitrary: on) auto

text \<open>A node whose low-link stayed at its index closes a component: itself and what lies above it.\<close>

lemma popped_component:
  assumes ex: "exploring adj v (set (neighbors adj v)) G st st'" and S: "t_stack st' = new @ v # t_stack st"
    and x: "x \<in> insert v (set new)"
  shows "x \<in> component adj v"
proof -
  note inv = exploringD(1) [OF ex]
  note newer = stack_newer [OF stack_okD(7) [OF tarjan_invD(1) [OF inv], unfolded S]]
  have "x \<in> set (t_stack st')" using x S by auto
  moreover from this have "reaches adj v x"
    using tarjan_invD(4) [OF inv, of v x] newer(2) [of x] x S by (cases "x = v") (auto intro: less_imp_le)
  ultimately show ?thesis using exploring_reach [OF ex] by (simp add: component_def)
qed

lemma finish_settled:
  assumes ex: "exploring adj v (set (neighbors adj v)) G st st'" and low: "low st' v = idx st' v"
  shows "explored adj v G st (settleStronglyConnectedComponent v st')"
proof -
  define st'' where "st'' = settleStronglyConnectedComponent v st'"
  note D = exploringD [OF ex]
  note inv = D(1)
  note ok = stack_okD [OF tarjan_invD(1) [OF inv]]
  obtain new where S: "t_stack st' = new @ v # t_stack st" and fresh: "set new \<inter> visited st = {}"
    and cov: "covers adj (set new) (set (t_stack st)) v st'" using D(7) by blast
  note newer = stack_newer [OF ok(7) [unfolded S]]
  have v_new: "v \<notin> set new" using newer(2) by blast
  have apart: "insert v (set new) \<inter> set (t_stack st) = {}"
    using fresh D(4) stack_okD(2) [OF D(3)] by blast
  have st'': "indices st'' = indices st'" "lowLinks st'' = lowLinks st'" "t_index st'' = t_index st'"
    "componentCount st'' = componentCount st' + 1" "t_stack st'' = t_stack st" "onStack st'' = set (t_stack st)"
    using ok(1) S v_new apart
    by (auto simp: st''_def settleStronglyConnectedComponent_def S pop_until_split)
  have settled: "settled st'' = settled st' \<union> insert v (set new)"
    using apart ok(2) S unfolding settled_def st'' by auto
  have unsettled: "v \<notin> settled st'" using S unfolding settled_def by simp
  have G: "G \<subseteq> set (t_stack st)" by (rule stack_okD(4) [OF D(3)])
  have ok'': "stack_ok G st''"
    using ok G S unfolding stack_ok_def st'' by (auto simp: sorted_wrt_append)
  have "tarjan_inv adj G st''"
    unfolding tarjan_inv_def
  proof (intro conjI ballI allI impI)
    show "stack_ok G st''" by (rule ok'')
    show vis: "y \<in> visited st''" if "x \<in> visited st'' - G" "edge adj x y" for x y
      using that tarjan_invD(2) [OF inv, of x y] D(5) unfolding st'' edge_def by blast
    show "y \<in> settled st''" if x: "x \<in> settled st''" and xy: "edge adj x y" for x y
    proof (cases "x \<in> settled st'")
      case True
      then show ?thesis using tarjan_invD(3) [OF inv _ xy] settled by blast
    next
      case False
      then have x': "x \<in> insert v (set new)" using x settled by blast
      then have "x \<in> visited st'' - G" using x apart G unfolding settled_def st'' by blast
      from vis [OF this xy] have "y \<in> visited st''" .
      moreover have "y \<notin> set (t_stack st)"
      proof
        assume y: "y \<in> set (t_stack st)"
        have "low st' v \<le> idx st' y"
          using x' y xy cov D(6) [of y] unfolding covers_def edge_def by blast
        then show False using newer(1) [OF y] low by simp
      qed
      ultimately show ?thesis unfolding settled_def st'' by blast
    qed
    show "reaches adj x y" if "x \<in> set (t_stack st'')" "y \<in> set (t_stack st'')" "idx st'' x \<le> idx st'' y" for x y
      using that tarjan_invD(4) [OF inv, of x y] S unfolding st'' by simp
    show "\<exists>g \<in> G. idx st'' g \<le> idx st'' y \<and> reaches adj y g" if "y \<in> set (t_stack st'')" for y
    proof -
      have y: "y \<in> set (t_stack st)" using that st''(5) by simp
      then have "y \<in> set (t_stack st')" using S by simp
      from tarjan_invD(5) [OF inv this] obtain g where g: "g \<in> insert v G" "idx st' g \<le> idx st' y" "reaches adj y g" by blast
      have "g \<noteq> v"
      proof
        assume "g = v"
        with g(2) newer(1) [OF y] show False by simp
      qed
      with g show ?thesis unfolding st'' by blast
    qed
    show "componentCount st'' = card (component adj ` settled st'')"
    proof -
      have "component adj ` insert v (set new) = (\<lambda>_. component adj v) ` insert v (set new)"
        by (rule image_cong [OF refl]) (rule component_eq [OF popped_component [OF ex S]])
      then have "component adj ` settled st'' = insert (component adj v) (component adj ` settled st')"
        unfolding settled image_Un by auto
      moreover have "component adj v \<notin> component adj ` settled st'"
      proof
        assume "component adj v \<in> component adj ` settled st'"
        then obtain x where x: "x \<in> settled st'" "component adj v = component adj x" by blast
        then have "reaches adj x v" using component_self [of v adj] by (simp add: component_def)
        from reaches_closed [OF this x(1)] tarjan_invD(3) [OF inv] unsettled show False by blast
      qed
      moreover have "finite (settled st')" using ok(5) unfolding settled_def by simp
      ultimately show ?thesis using tarjan_invD(6) [OF inv] st''(4) by simp
    qed
  qed
  moreover have "extends adj v st st''" using D(2) unfolding extends_def st'' .
  ultimately have "explored adj v G st st''"
    unfolding explored_def st''(5) by (auto simp: covers_def)
  then show ?thesis unfolding st''_def .
qed

lemma finish_stacked:
  assumes ex: "exploring adj v (set (neighbors adj v)) G st st'" and low: "low st' v \<noteq> idx st' v"
  shows "explored adj v G st st'"
proof -
  note D = exploringD [OF ex]
  note inv = D(1)
  note ok = stack_okD [OF tarjan_invD(1) [OF inv]]
  obtain new where S: "t_stack st' = new @ v # t_stack st" and fresh: "set new \<inter> visited st = {}"
    and cov: "covers adj (set new) (set (t_stack st)) v st'" using D(7) by blast
  note newer = stack_newer [OF ok(7) [unfolded S]]
  from low extendsD(8) [OF D(2)] obtain w where w: "w \<in> set (t_stack st)" "reaches adj v w" by blast
  obtain h where h: "h \<in> G" "idx st' h \<le> idx st' w" "reaches adj w h"
    using tarjan_invD(5) [OF inv, of w] newer(1) [OF w(1)] w(1) S by (auto dest: leD)
  have "tarjan_inv adj G st'"
    unfolding tarjan_inv_def
  proof (intro conjI ballI allI impI)
    show "stack_ok G st'" using tarjan_invD(1) [OF inv] unfolding stack_ok_def by blast
    show "y \<in> visited st'" if "x \<in> visited st' - G" "edge adj x y" for x y
      using that tarjan_invD(2) [OF inv, of x y] D(5) unfolding edge_def by blast
    show "\<exists>g \<in> G. idx st' g \<le> idx st' y \<and> reaches adj y g" if y: "y \<in> set (t_stack st')" for y
    proof -
      from tarjan_invD(5) [OF inv y] obtain g where g: "g \<in> insert v G" "idx st' g \<le> idx st' y" "reaches adj y g" by blast
      show ?thesis
      proof (cases "g = v")
        case True
        then have "reaches adj y h" using g(3) w(2) h(3) by (meson rtranclp_trans)
        moreover have "idx st' h \<le> idx st' y" using h(2) newer(1) [OF w(1)] g(2) [unfolded True] by linarith
        ultimately show ?thesis using h(1) by blast
      qed (use g in blast)
    qed
  qed (use tarjan_invD [OF inv] in blast)+
  moreover have "covers adj (set (new @ [v])) (set (t_stack st)) v st'"
    using cov D(6) unfolding covers_def edge_def by auto
  moreover have "set (new @ [v]) \<inter> visited st = {}" using fresh D(4) by auto
  ultimately show ?thesis
    using D(2) S unfolding explored_def by (metis append.assoc append_Cons append_Nil)
qed

section \<open>The traversal\<close>

text \<open>What is assumed of a recursive call, with \<open>fuel\<close> at least the number of unvisited nodes of \<open>U\<close>.\<close>

definition connects :: "adjacency \<Rightarrow> string set \<Rightarrow> nat \<Rightarrow> (string \<Rightarrow> tarjan_state \<Rightarrow> tarjan_state js_outcome) \<Rightarrow> bool" where
  "connects adj U fuel connect \<longleftrightarrow> (\<forall>G v st. tarjan_inv adj G st \<longrightarrow> v \<in> U - visited st \<longrightarrow>
     (\<forall>x \<in> set (t_stack st). reaches adj x v) \<longrightarrow> card (U - visited st) \<le> fuel \<longrightarrow>
     (\<exists>st'. connect v st = Returned st' \<and> explored adj v G st st'))"

lemma visit_neighbor_explores:
  assumes call: "connects adj U fuel connect" and ex: "exploring adj v seen G st st'"
    and u: "edge adj v u" "u \<in> U" and fuel: "card (U - visited st') \<le> fuel"
  shows "\<exists>st''. visit_neighbor connect lab v u st' = Returned st'' \<and> exploring adj v (insert u seen) G st st''
    \<and> visited st' \<subseteq> visited st''"
proof -
  note D = exploringD [OF ex]
  note ok = stack_okD [OF tarjan_invD(1) [OF D(1)]]
  have v: "v \<in> visited st'" by (rule extendsD(4) [OF D(2)])
  consider (unvisited) "u \<notin> visited st'" | (stacked) "u \<in> set (t_stack st')"
    | (settled) "u \<in> visited st'" "u \<notin> set (t_stack st')" by blast
  then show ?thesis
  proof cases
    case unvisited
    have "\<forall>x \<in> set (t_stack st'). reaches adj x u"
      using exploring_reach [OF ex] u(1) by (meson rtranclp.rtrancl_into_rtrancl)
    then obtain st1 where st1: "connect u st' = Returned st1" "explored adj u (insert v G) st' st1"
      using call D(1) u(2) unvisited fuel unfolding connects_def by blast
    define st2 where "st2 = st1\<lparr> lowLinks := (lowLinks st1)(v \<mapsto> min (low st1 v) (low st1 u)) \<rparr>"
    from st1(2) have ext: "extends adj u st' st1" and inv: "tarjan_inv adj (insert v G) st1" unfolding explored_def by blast+
    then have "v \<in> dom (lowLinks st1)" "u \<in> dom (lowLinks st1)"
      using extendsD(3,4) [OF ext] v stack_okD(3) [OF tarjan_invD(1) [OF inv]] by auto
    then have "visit_neighbor connect lab v u st' = Returned st2"
      using unvisited st1(1) by (auto simp: visit_neighbor_def lower_link_def readTrackedNumber_def st2_def)
    moreover have "visited st' \<subseteq> visited st2" using extendsD(3) [OF ext] by (simp add: st2_def)
    ultimately show ?thesis using called_neighbor [OF ex u(1) unvisited st1(2)] unfolding st2_def [symmetric] by blast
  next
    case stacked
    define st2 where "st2 = st'\<lparr> lowLinks := (lowLinks st')(v \<mapsto> min (low st' v) (idx st' u)) \<rparr>"
    have "v \<in> dom (lowLinks st')" "u \<in> visited st'" "u \<in> onStack st'" using v ok(1,2,3) stacked by auto
    then have "visit_neighbor connect lab v u st' = Returned st2"
      by (auto simp: visit_neighbor_def lower_link_def readTrackedNumber_def st2_def)
    moreover have "visited st' \<subseteq> visited st2" by (simp add: st2_def)
    ultimately show ?thesis using stacked_neighbor [OF ex u(1) stacked] unfolding st2_def [symmetric] by blast
  next
    case settled
    then have "visit_neighbor connect lab v u st' = Returned st'"
      using ok(1) by (auto simp: visit_neighbor_def)
    with settled_neighbor [OF ex settled] show ?thesis by blast
  qed
qed

lemma visit_neighbors_explores:
  assumes call: "connects adj U fuel connect" and fin: "finite U"
  shows "exploring adj v seen G st st' \<Longrightarrow> \<forall>u \<in> set us. edge adj v u \<and> u \<in> U \<Longrightarrow> card (U - visited st') \<le> fuel \<Longrightarrow>
    \<exists>st''. visit_neighbors connect lab v us st' = Returned st'' \<and> exploring adj v (seen \<union> set us) G st st''"
proof (induction us arbitrary: seen st')
  case (Cons u us)
  from visit_neighbor_explores [OF call Cons.prems(1) _ _ Cons.prems(3), of u lab] Cons.prems(2)
  obtain st1 where st1: "visit_neighbor connect lab v u st' = Returned st1" "exploring adj v (insert u seen) G st st1"
    "visited st' \<subseteq> visited st1" by auto
  have "card (U - visited st1) \<le> card (U - visited st')" using fin st1(3) by (intro card_mono) auto
  with Cons.prems(3) have fuel: "card (U - visited st1) \<le> fuel" by linarith
  have "\<forall>u \<in> set us. edge adj v u \<and> u \<in> U" using Cons.prems(2) by simp
  from Cons.IH [OF st1(2) this fuel] st1(1) show ?case by simp
qed simp

lemma settle_if_root_explores:
  assumes ex: "exploring adj v (set (neighbors adj v)) G st st'"
  shows "\<exists>st''. settle_if_root lab v st' = Returned st'' \<and> explored adj v G st st''"
proof -
  note D = exploringD [OF ex]
  have "v \<in> visited st'" "v \<in> dom (lowLinks st')"
    using extendsD(4) [OF D(2)] stack_okD(3) [OF tarjan_invD(1) [OF D(1)]] by auto
  then have "settle_if_root lab v st' =
      Returned (if low st' v = idx st' v then settleStronglyConnectedComponent v st' else st')"
    by (auto simp: settle_if_root_def readTrackedNumber_def)
  with finish_settled [OF ex] finish_stacked [OF ex] show ?thesis by auto
qed

lemma strongConnectNode_connects:
  assumes fin: "finite U" and closed: "\<forall>x y. edge adj x y \<longrightarrow> y \<in> U"
  shows "connects adj U fuel (strongConnectNode fuel adj lab)"
proof (induction fuel)
  case 0
  have "card (U - visited st) \<noteq> 0" if "v \<in> U - visited st" for v st using that fin by auto
  then show ?case unfolding connects_def by (metis le_zero_eq)
next
  case (Suc fuel)
  show ?case
    unfolding connects_def
  proof (intro allI impI)
    fix G v st
    assume inv: "tarjan_inv adj G st" and v: "v \<in> U - visited st"
      and reach: "\<forall>x \<in> set (t_stack st). reaches adj x v" and fuel: "card (U - visited st) \<le> Suc fuel"
    have start: "exploring adj v {} G st (trackTarjanNode v st)"
      by (rule start_exploring [OF inv]) (use v reach in blast)+
    have "U - visited (trackTarjanNode v st) = (U - visited st) - {v}" by (auto simp: trackTarjanNode_def)
    then have "card (U - visited (trackTarjanNode v st)) \<le> fuel" using v fuel fin by simp
    moreover have "\<forall>u \<in> set (neighbors adj v). edge adj v u \<and> u \<in> U" using closed by (simp add: edge_def)
    ultimately obtain st1 where "visit_neighbors (strongConnectNode fuel adj lab) lab v (neighbors adj v) (trackTarjanNode v st) = Returned st1"
      "exploring adj v ({} \<union> set (neighbors adj v)) G st st1"
      using visit_neighbors_explores [OF Suc.IH fin start] by blast
    with settle_if_root_explores [of adj v G st st1 lab]
    show "\<exists>st'. strongConnectNode (Suc fuel) adj lab v st = Returned st' \<and> explored adj v G st st'" by simp
  qed
qed

text \<open>Between two roots nothing is running, so the stack is empty and everything visited is settled.\<close>

lemma idle_stack: "tarjan_inv adj {} st \<Longrightarrow> t_stack st = []"
  using tarjan_invD(5) [of adj "{}" st] by (cases "t_stack st") auto

lemma connect_roots_visits:
  assumes fin: "finite U" and closed: "\<forall>x y. edge adj x y \<longrightarrow> y \<in> U" and fuel: "card U \<le> fuel"
  shows "tarjan_inv adj {} st \<Longrightarrow> set ks \<subseteq> U \<Longrightarrow>
    \<exists>st'. connect_roots fuel adj lab ks st = Returned st' \<and> tarjan_inv adj {} st' \<and> visited st \<subseteq> visited st'
      \<and> set ks \<subseteq> visited st' \<and> visited st' \<subseteq> visited st \<union> {y. \<exists>k \<in> set ks. reaches adj k y}"
proof (induction ks arbitrary: st)
  case (Cons k ks)
  have ks: "set ks \<subseteq> U" and k: "k \<in> U" using Cons.prems(2) by auto
  obtain st1 where st1: "tarjan_inv adj {} st1" "visited st \<subseteq> visited st1" "k \<in> visited st1"
    "visited st1 \<subseteq> visited st \<union> {y. reaches adj k y}"
    "connect_roots fuel adj lab (k # ks) st = connect_roots fuel adj lab ks st1"
  proof (cases "k \<in> visited st")
    case True
    then have "connect_roots fuel adj lab (k # ks) st = connect_roots fuel adj lab ks st" by auto
    with that [of st] True Cons.prems(1) show ?thesis by blast
  next
    case False
    have "card (U - visited st) \<le> fuel" using card_mono [OF fin Diff_subset] fuel by (meson le_trans)
    then obtain st1 where st1: "strongConnectNode fuel adj lab k st = Returned st1" "explored adj k {} st st1"
      using strongConnectNode_connects [OF fin closed, of fuel lab] Cons.prems(1) k False idle_stack [OF Cons.prems(1)]
      unfolding connects_def by fastforce
    have "connect_roots fuel adj lab (k # ks) st = connect_roots fuel adj lab ks st1"
      using False st1(1) by (simp add: domIff)
    moreover from st1(2) have "tarjan_inv adj {} st1" and ext: "extends adj k st st1" unfolding explored_def by blast+
    ultimately show ?thesis using that [of st1] extendsD(3,4,6) [OF ext] by blast
  qed
  from Cons.IH [OF st1(1) ks] obtain st2 where st2: "connect_roots fuel adj lab ks st1 = Returned st2" "tarjan_inv adj {} st2"
    "visited st1 \<subseteq> visited st2" "set ks \<subseteq> visited st2" "visited st2 \<subseteq> visited st1 \<union> {y. \<exists>k \<in> set ks. reaches adj k y}"
    by blast
  then have "visited st \<subseteq> visited st2" "set (k # ks) \<subseteq> visited st2"
    "visited st2 \<subseteq> visited st \<union> {y. \<exists>k \<in> set (k # ks). reaches adj k y}"
    using st1(2,3,4) unfolding list.set by blast+
  with st2(1,2) show ?case unfolding st1(5) by blast
qed simp

lemma edge_in_values: "edge adj x y \<Longrightarrow> y \<in> set (concat (map snd adj))"
proof -
  assume e: "edge adj x y"
  show ?thesis
  proof (cases "map_of adj x")
    case (Some ns)
    with e have "y \<in> set ns" by (simp add: edge_def neighbors_def)
    with map_of_SomeD [OF Some] show ?thesis by force
  qed (use e in \<open>simp add: edge_def neighbors_def\<close>)
qed

lemma initial_inv: "tarjan_inv adj {} createTarjanState"
  by (simp add: tarjan_inv_def stack_ok_def settled_def createTarjanState_def)

section \<open>Property\<close>

text \<open>C8: The count is right: for every list of nodes and every adjacency map the
  algorithm returns, without tripping any of its internal checks, the number of classes of mutually
  reachable nodes among the nodes reachable from the list, which also are the nodes the map
  mentions only as neighbours.\<close>

theorem countStronglyConnectedComponents_correct:
  "countStronglyConnectedComponents nodeKeys adj invariantLabel
   = Returned (card (component adj ` {y. \<exists>k. k \<in> set nodeKeys \<and> reaches adj k y}))"
proof -
  define U where "U = set nodeKeys \<union> set (concat (map snd adj))"
  have fin: "finite U" by (simp add: U_def)
  have closed: "\<forall>x y. edge adj x y \<longrightarrow> y \<in> U" using edge_in_values unfolding U_def by blast
  have "length (concat (map snd adj)) = sum_list (map (\<lambda>(k, ns). length ns) adj)"
    by (induction adj) auto
  moreover have "card U \<le> length nodeKeys + length (concat (map snd adj))"
    unfolding U_def by (meson add_mono card_Un_le card_length le_trans)
  ultimately have fuel: "card U \<le> graph_size nodeKeys adj" by (simp add: graph_size_def)
  have sub: "set nodeKeys \<subseteq> U" by (simp add: U_def)
  from connect_roots_visits [where lab = invariantLabel and adj = adj, OF fin closed fuel initial_inv sub]
  obtain st where st: "connect_roots (graph_size nodeKeys adj) adj invariantLabel nodeKeys createTarjanState = Returned st"
    "tarjan_inv adj {} st" "set nodeKeys \<subseteq> visited st" "visited st \<subseteq> {y. \<exists>k \<in> set nodeKeys. reaches adj k y}"
    by (auto simp: createTarjanState_def simp del: connect_roots.simps)
  have settled: "settled st = visited st" using idle_stack [OF st(2)] by (simp add: settled_def)
  have "y \<in> visited st" if "k \<in> set nodeKeys" "reaches adj k y" for k y
    using reaches_closed [OF that(2), of "visited st"] st(3) that(1) tarjan_invD(3) [OF st(2)] settled by blast
  then have "visited st = {y. \<exists>k. k \<in> set nodeKeys \<and> reaches adj k y}" using st(4) by auto
  with st(1) tarjan_invD(6) [OF st(2)] settled show ?thesis by (simp add: countStronglyConnectedComponents_def)
qed

end
