(* ===== verification/CachedView.thy ===== *)
theory CachedView
  imports VersionedCache
begin

text \<open>
  The versioned cache as a partial view of a source of truth, for clients whose calls run one at a
  time: every cached value is the true one, whatever has been evicted or not yet loaded. The laws
  are the contract the governance leases rely on.
\<close>

locale cached_view =
  fixes view :: "(string \<Rightarrow> 'v option) \<Rightarrow> 'c \<Rightarrow> bool"
    and put :: "string \<Rightarrow> 'v \<Rightarrow> 'c \<Rightarrow> 'c"
    and forget :: "string \<Rightarrow> 'c \<Rightarrow> 'c"
    and forget_all :: "'c \<Rightarrow> 'c"
  assumes put_law: "view truth c \<Longrightarrow> view (truth(k \<mapsto> v)) (put k v c)"
    and forget_law: "view truth c \<Longrightarrow> view (truth(k := x)) (forget k c)"
    and forget_all_law: "view truth c \<Longrightarrow> view truth' (forget_all c)"
begin

text \<open>A write of the truth at one key, then of the cache: the value, or nothing.\<close>

lemma put_when:
  assumes "view truth c" and "\<And>j. j \<noteq> k \<Longrightarrow> truth' j = truth j" and "truth' k = Some v"
  shows "view truth' (put k v c)"
proof -
  have "truth' = truth(k \<mapsto> v)" using assms(2,3) by auto
  then show ?thesis using put_law [OF assms(1)] by simp
qed

lemma forget_when:
  assumes "view truth c" and "\<And>j. j \<noteq> k \<Longrightarrow> truth' j = truth j"
  shows "view truth' (forget k c)"
proof -
  have "truth' = truth(k := truth' k)" using assms(2) by auto
  then show ?thesis using forget_law [OF assms(1), of k "truth' k"] by simp
qed

end

definition caches :: "(string \<Rightarrow> 'v option) \<Rightarrow> 'v vcache \<Rightarrow> bool" where
  "caches truth c \<longleftrightarrow> cache_inv c \<and> vc_pending c = Map.empty
     \<and> (\<forall>(k, v) \<in> set (vc_store c). truth k = Some v)"

lemma cachesD:
  assumes "caches truth c"
  shows "cache_inv c" and "vc_pending c = Map.empty" and "(k, v) \<in> set (vc_store c) \<Longrightarrow> truth k = Some v"
    and "map_of (vc_store c) k = Some v \<Longrightarrow> truth k = Some v"
  using assms map_of_SomeD unfolding caches_def by fastforce+

lemma caches_empty: "caches truth (empty_cache n)"
  by (auto simp: caches_def cache_inv_def empty_cache_def versions_live_def)

lemma write_value_set:
  assumes "cache_inv c"
  shows "set (vc_store (write_value k v c)) \<subseteq> {p \<in> set (vc_store c). fst p \<noteq> k} \<union> {(k, v)}"
proof -
  have d: "distinct (map fst (vc_store c))" using assms by (simp add: cache_inv_def)
  show ?thesis unfolding write_value_store [OF d] by (rule order_trans [OF set_drop_subset]) auto
qed

lemma bump_inv_store: "set (vc_store (write_value k v (bump k c))) \<subseteq> {p \<in> set (vc_store c). fst p \<noteq> k} \<union> {(k, v)}"
  if "cache_inv c"
proof -
  have d: "distinct (map fst (vc_store (bump k c)))" using that by (simp add: cache_inv_def)
  show ?thesis unfolding write_value_store [OF d] by (rule order_trans [OF set_drop_subset]) auto
qed

lemma caches_set: "caches truth c \<Longrightarrow> caches (truth(k \<mapsto> v)) (cache_set k v c)"
proof -
  assume c: "caches truth c"
  note D = cachesD [OF c]
  have "cache_inv (cache_set k v c)" using call_inv [OF D(1), of "Set_call k v"] by simp
  moreover have "vc_pending (cache_set k v c) = Map.empty" using D(2) by (simp add: cache_set_def)
  moreover have "set (vc_store (cache_set k v c)) \<subseteq> {p \<in> set (vc_store c). fst p \<noteq> k} \<union> {(k, v)}"
    unfolding cache_set_def by (rule bump_inv_store [OF D(1)])
  ultimately show ?thesis using D(3) unfolding caches_def by fastforce
qed

lemma caches_delete: "caches truth c \<Longrightarrow> caches (truth(k := x)) (cache_delete k c)"
proof -
  assume c: "caches truth c"
  note D = cachesD [OF c]
  have "cache_inv (cache_delete k c)" using call_inv [OF D(1), of "Delete_call k"] by simp
  moreover have "vc_pending (cache_delete k c) = Map.empty" "vc_store (cache_delete k c) = filter (\<lambda>p. fst p \<noteq> k) (vc_store c)"
    using D(2) by (auto simp: cache_delete_def Let_def)
  ultimately show ?thesis using D(3) unfolding caches_def by fastforce
qed

lemma caches_invalidate: "caches truth c \<Longrightarrow> caches truth' (invalidate c)"
  using call_inv [of c Invalidate_call] by (auto simp: caches_def invalidate_def)

lemma cache_set_hit:
  assumes "cache_inv c"
  shows "map_of (vc_store (cache_set k v c)) k = Some v"
proof -
  have d: "distinct (map fst (vc_store (bump k c)))" using assms by (simp add: cache_inv_def)
  define xs where "xs = filter (\<lambda>p. fst p \<noteq> k) (vc_store c)"
  have "1 \<le> vc_max c" using assms by (simp add: cache_inv_def)
  then have "Suc (length xs) - vc_max c \<le> length xs" by simp
  then have "vc_store (cache_set k v c) = drop (Suc (length xs) - vc_max c) xs @ [(k, v)]"
    unfolding cache_set_def write_value_store [OF d] by (simp add: xs_def)
  moreover have "map_of (drop n xs) k = None" for n
    unfolding map_of_eq_None_iff by (auto simp: xs_def dest!: in_set_dropD)
  ultimately show ?thesis by (simp add: map_add_def)
qed

interpretation versioned_view: cached_view caches cache_set cache_delete invalidate
  by unfold_locales (rule caches_set caches_delete caches_invalidate; assumption)+

text \<open>Refreshing an entry to itself or to nothing, and moving it to the end.\<close>

lemma caches_refresh:
  assumes c: "caches truth c" and n: "n = None \<or> n = map_of (vc_store c) k"
  shows "caches truth (snd (refresh k (\<lambda>_. n) c))" and "fst (refresh k (\<lambda>_. n) c) = n \<or> map_of (vc_store c) k = None"
proof -
  note D = cachesD [OF c]
  have "cache_inv (snd (refresh k (\<lambda>_. n) c))" by (rule refresh_inv [OF D(1)])
  moreover have "set (vc_store (snd (refresh k (\<lambda>_. n) c))) \<subseteq> set (vc_store c)"
    using n by (auto simp: refresh_def Let_def split: option.split)
  ultimately show "caches truth (snd (refresh k (\<lambda>_. n) c))" using D(2,3) unfolding caches_def by auto
  show "fst (refresh k (\<lambda>_. n) c) = n \<or> map_of (vc_store c) k = None"
    by (auto simp: refresh_def Let_def split: option.split)
qed

lemma caches_touch: "caches truth c \<Longrightarrow> caches truth (touch k c)"
proof -
  assume c: "caches truth c"
  note D = cachesD [OF c]
  have "set (vc_store (touch k c)) \<subseteq> set (vc_store c)"
    by (auto simp: touch_def Let_def split: option.split dest: map_of_SomeD)
  then show ?thesis using D touch_inv [OF D(1)] unfolding caches_def by auto
qed

text \<open>A load that starts and settles with nothing in between.\<close>

lemma startLoad_inv:
  assumes "cache_inv c"
  shows "cache_inv (snd (startLoad k c))"
proof -
  have "vc_pending c j = Some i \<Longrightarrow> i < Suc (vc_next c)" for j i
    using assms by (auto simp: cache_inv_def intro: less_SucI)
  moreover have "store_has j c \<or> vc_pending c j \<noteq> None" if "vc_versions c j \<noteq> None" for j
    using assms that unfolding cache_inv_def versions_live_def by blast
  ultimately show ?thesis
    using assms unfolding cache_inv_def versions_live_def store_has_def startLoad_def by simp
qed

lemma startLoad_then:
  assumes c: "caches truth c" and t: "startLoad k c = (t, c1)"
  shows "caches truth (finishPending t c1)"
proof -
  note D = cachesD [OF c]
  have inv: "cache_inv c1" using startLoad_inv [OF D(1), of k] t by simp
  have "vc_store (finishPending t c1) = vc_store c" "vc_pending (finishPending t c1) = Map.empty"
    using t D(2) by (auto simp: startLoad_def finishPending_def Let_def)
  then show ?thesis using finishPending_inv [OF inv, of t] D(3) unfolding caches_def by auto
qed

lemma caches_load:
  assumes c: "caches truth c" and k: "\<not> store_has k c" and t: "startLoad k c = (t, c1)"
    and n: "Option.bind (truth k) f = None \<or> Option.bind (truth k) f = truth k"
  shows "caches truth (snd (finish_load t (truth k) f c1))" and "fst (finish_load t (truth k) f c1) = Option.bind (truth k) f"
proof -
  note D = cachesD [OF c]
  have inv: "cache_inv c1" using startLoad_inv [OF D(1), of k] t by simp
  have t': "lt_key t = k" "vc_store c1 = vc_store c" "\<not> is_stale t c1" "vc_pending c1 = [k \<mapsto> lt_id t]"
    using t D(2) k by (force simp: startLoad_def is_stale_def store_has_def version_of_def)+
  then have load: "finishLoad t (truth k) f c1 =
      (Option.bind (truth k) f, case Option.bind (truth k) f of None \<Rightarrow> c1 | Some v \<Rightarrow> write_value k v c1)"
    by (simp add: finishLoad_def Let_def is_stale_def)
  then show "fst (finish_load t (truth k) f c1) = Option.bind (truth k) f"
    by (simp add: finish_load_def)
  define c2 where "c2 = (case Option.bind (truth k) f of None \<Rightarrow> c1 | Some v \<Rightarrow> write_value k v c1)"
  have "snd (finish_load t (truth k) f c1) = finishPending t c2"
    by (simp add: finish_load_def load c2_def)
  moreover have "cache_inv (finishPending t c2)"
    using finishPending_inv finishLoad_inv [OF inv, of t "truth k" f] by (simp add: load c2_def)
  moreover have "vc_pending (finishPending t c2) = Map.empty"
  proof -
    have "vc_pending c2 = [k \<mapsto> lt_id t]" using t'(4) by (auto simp: c2_def split: option.split)
    then show ?thesis using t'(1) by (auto simp: finishPending_def Let_def)
  qed
  moreover have "\<forall>(j, v) \<in> set (vc_store (finishPending t c2)). truth j = Some v"
  proof -
    have "vc_store (finishPending t c2) = vc_store c2" by (simp add: finishPending_def Let_def)
    moreover have "set (vc_store c2) \<subseteq> set (vc_store c) \<union> {(k, v) |v. truth k = Some v}"
      using n write_value_set [OF inv, of k] t'(2) by (fastforce simp: c2_def split: option.splits)
    ultimately show ?thesis using D(3) by fastforce
  qed
  ultimately show "caches truth (snd (finish_load t (truth k) f c1))" unfolding caches_def by simp
qed

end
