(* ===== verification/GovernanceLease.thy ===== *)
theory GovernanceLease
  imports EventPublisher CachedView
begin

text \<open>
  Governance leases: \<^verbatim>\<open>core/src/governance/policy/governance-lease-service.ts\<close> with
  \<^verbatim>\<open>run-workspace-guard.ts\<close>, the lease query of the event log
  (\<^verbatim>\<open>storage/src/repos/runtime/event-log/reads/event-log-governance-queries.ts\<close>) and the schemas of
  \<^verbatim>\<open>protocol/src/governance/governance-lease.ts\<close> and \<^verbatim>\<open>protocol/src/events/green-governance.ts\<close>. The
  truth is the log; the service keeps a cache of what a replay of a run's lease events gives. Calls
  run one after another here; loads that overlap with writes are the subject of \<open>VersionedCache\<close>.
  The run lookup, the UUID check and the host's date functions are parameters, a failing read of the
  log is the field \<open>lv_read_error\<close>, and a call takes what the clock answers at each of its readings.
\<close>

section \<open>Leases\<close>

record piercing_condition =
  condition_kind :: string
  pc_description :: string

record governance_lease =
  gl_runtime_id :: string
  gl_object_kind :: string
  gl_task_surface_ref :: "string option"
  gl_expires_at :: "string option"
  gl_derived_from :: "string option"
  gl_retention_policy :: string
  gl_lease_id :: string
  gl_holder :: string
  gl_piercing_conditions :: "piercing_condition list"

record stored_lease =
  sl_lease :: governance_lease
  sl_workspaceId :: string

record 'n lease_env =
  lv_pub :: "'n pub_env"
  lv_api :: date_api
  lv_uuid_ok :: "string \<Rightarrow> bool"
  lv_run_lookup :: "string \<Rightarrow> string + string option"
  lv_read_error :: "string option"

record ('d, 'n) lease_state =
  ls_world :: "('d, 'n) world"
  ls_cache :: "stored_lease vcache"

abbreviation lv_log :: "'n lease_env \<Rightarrow> log_env" where
  "lv_log env \<equiv> pe_log (lv_pub env)"

abbreviation lv_zod :: "'n lease_env \<Rightarrow> string \<Rightarrow> bool" where
  "lv_zod env \<equiv> le_zod (lv_log env)"

abbreviation ls_events :: "('d, 'n) lease_state \<Rightarrow> event_entry list" where
  "ls_events s \<equiv> events (w_store (ls_world s))"

definition LEASE_DURATION_MS :: int where
  "LEASE_DURATION_MS = 5 * 60 * 1000"

definition piercing_kinds :: "string list" where
  "piercing_kinds = [''unsubmitted_changes'', ''severe_diagnostic_jump'', ''explicit_lifecycle_event'']"

definition HIGH_SIGNAL_PIERCING_CONDITIONS :: "piercing_condition list" where
  "HIGH_SIGNAL_PIERCING_CONDITIONS =
     [\<lparr> condition_kind = ''unsubmitted_changes'',
        pc_description = ''Critical unsubmitted changes persist across run boundaries'' \<rparr>,
      \<lparr> condition_kind = ''severe_diagnostic_jump'', pc_description = ''Diagnostic severity jumped 2+ levels'' \<rparr>,
      \<lparr> condition_kind = ''explicit_lifecycle_event'',
        pc_description = ''Explicit lifecycle action: commit, branch switch, or session end'' \<rparr>]"

definition LEASE_ACQUIRED :: string where "LEASE_ACQUIRED = ''soul.governance_lease.acquired''"
definition LEASE_RELEASED :: string where "LEASE_RELEASED = ''soul.governance_lease.released''"
definition LEASE_PIERCED :: string where "LEASE_PIERCED = ''soul.governance_lease.pierced''"

definition GovernanceLease_ok :: "'n lease_env \<Rightarrow> governance_lease \<Rightarrow> bool" where
  "GovernanceLease_ok env l \<longleftrightarrow>
     lv_uuid_ok env (gl_runtime_id l) \<and> gl_object_kind l = ''governance_lease''
     \<and> nullable NonEmptyString (gl_task_surface_ref l) \<and> nullable (IsoDatetimeString (lv_zod env)) (gl_expires_at l)
     \<and> nullable NonEmptyString (gl_derived_from l) \<and> NonEmptyString (gl_lease_id l) \<and> NonEmptyString (gl_holder l)
     \<and> list_all (\<lambda>c. List.member piercing_kinds (condition_kind c) \<and> NonEmptyString (pc_description c)) (gl_piercing_conditions l)"

definition parseGovernanceLease :: "'n lease_env \<Rightarrow> governance_lease \<Rightarrow> string + governance_lease" where
  "parseGovernanceLease env l =
     (if GovernanceLease_ok env l then Inr l
      else Inl (coded_error ''VALIDATION'' ''Invalid governance lease payload''))"

definition lease_literal :: "string \<Rightarrow> string option \<Rightarrow> string \<Rightarrow> governance_lease" where
  "lease_literal i expiresAt h =
     \<lparr> gl_runtime_id = i, gl_object_kind = ''governance_lease'', gl_task_surface_ref = None, gl_expires_at = expiresAt,
       gl_derived_from = None, gl_retention_policy = ''session_only'', gl_lease_id = i, gl_holder = h,
       gl_piercing_conditions = HIGH_SIGNAL_PIERCING_CONDITIONS \<rparr>"

definition buildHolder :: "string \<Rightarrow> string \<Rightarrow> string" where
  "buildHolder runId turnId = ''run:'' @ runId @ '':turn:'' @ turnId"

section \<open>Payloads\<close>

definition json_text :: "json_object \<Rightarrow> string \<Rightarrow> string option" where
  "json_text obj k = (case map_of obj k of Some (JString t) \<Rightarrow> Some t | _ \<Rightarrow> None)"

definition json_nullable_text :: "json_object \<Rightarrow> string \<Rightarrow> string option option" where
  "json_nullable_text obj k =
     (case map_of obj k of Some (JString t) \<Rightarrow> Some (Some t) | Some JNull \<Rightarrow> Some None | _ \<Rightarrow> None)"

definition text_ok :: "(string \<Rightarrow> bool) \<Rightarrow> string option \<Rightarrow> bool" where
  "text_ok p v \<longleftrightarrow> (case v of None \<Rightarrow> False | Some t \<Rightarrow> p t)"

definition acquired_payload_ok :: "(string \<Rightarrow> bool) \<Rightarrow> json_object \<Rightarrow> bool" where
  "acquired_payload_ok zod obj \<longleftrightarrow>
     text_ok NonEmptyString (json_text obj ''lease_id'') \<and> text_ok NonEmptyString (json_text obj ''holder'')
     \<and> text_ok NonEmptyString (json_text obj ''run_id'')
     \<and> (case json_nullable_text obj ''expires_at'' of None \<Rightarrow> False | Some e \<Rightarrow> nullable (IsoDatetimeString zod) e)
     \<and> text_ok (IsoDatetimeString zod) (json_text obj ''occurred_at'')"

definition released_payload_ok :: "(string \<Rightarrow> bool) \<Rightarrow> json_object \<Rightarrow> bool" where
  "released_payload_ok zod obj \<longleftrightarrow>
     text_ok NonEmptyString (json_text obj ''lease_id'') \<and> text_ok NonEmptyString (json_text obj ''run_id'')
     \<and> text_ok (IsoDatetimeString zod) (json_text obj ''occurred_at'')"

definition pierced_payload_ok :: "(string \<Rightarrow> bool) \<Rightarrow> json_object \<Rightarrow> bool" where
  "pierced_payload_ok zod obj \<longleftrightarrow>
     text_ok NonEmptyString (json_text obj ''lease_id'')
     \<and> text_ok (List.member piercing_kinds) (json_text obj ''piercing_condition_kind'')
     \<and> text_ok NonEmptyString (json_text obj ''run_id'')
     \<and> text_ok (IsoDatetimeString zod) (json_text obj ''occurred_at'')"

definition parsePersistedGovernanceLeasePayload :: "(json_object \<Rightarrow> bool) \<Rightarrow> event_entry \<Rightarrow> string + json_object" where
  "parsePersistedGovernanceLeasePayload schema e =
     (if schema (payload_json e) then Inr (payload_json e)
      else Inl (coded_error ''CONFLICT''
        (''Malformed '' @ event_type e @ '' payload persisted at '' @ event_id e @ ''.'')))"

section \<open>Replay\<close>

text \<open>The lease rows of a run, by creation time and then by row number.\<close>

definition queryGovernanceLeaseEventsByRun :: "event_entry list \<Rightarrow> string \<Rightarrow> event_entry list" where
  "queryGovernanceLeaseEventsByRun es runId =
     sort_key created_at (filter (\<lambda>e. run_id e = Some runId
       \<and> List.member [LEASE_ACQUIRED, LEASE_RELEASED, LEASE_PIERCED] (event_type e)) es)"

definition buildStoredLeaseFromAcquire :: "'n lease_env \<Rightarrow> event_entry \<Rightarrow> string + stored_lease" where
  "buildStoredLeaseFromAcquire env e =
     (case parsePersistedGovernanceLeasePayload (acquired_payload_ok (lv_zod env)) e of
        Inl err \<Rightarrow> Inl err
      | Inr p \<Rightarrow>
          (case parseGovernanceLease env (lease_literal (the (json_text p ''lease_id''))
                  (the (json_nullable_text p ''expires_at'')) (the (json_text p ''holder''))) of
             Inl err \<Rightarrow> Inl err
           | Inr l \<Rightarrow> Inr \<lparr> sl_lease = l, sl_workspaceId = workspace_id e \<rparr>))"

definition clearMatchingStoredLease :: "'n lease_env \<Rightarrow> stored_lease option \<Rightarrow> event_entry \<Rightarrow> string + stored_lease option" where
  "clearMatchingStoredLease env active e =
     (case parsePersistedGovernanceLeasePayload
             (if event_type e = LEASE_RELEASED then released_payload_ok (lv_zod env) else pierced_payload_ok (lv_zod env)) e of
        Inl err \<Rightarrow> Inl err
      | Inr p \<Rightarrow>
          Inr (case active of
                 None \<Rightarrow> None
               | Some a \<Rightarrow> if json_text p ''lease_id'' = Some (gl_lease_id (sl_lease a)) then None else Some a))"

definition applyPersistedLeaseEvent :: "'n lease_env \<Rightarrow> stored_lease option \<Rightarrow> event_entry \<Rightarrow> string + stored_lease option" where
  "applyPersistedLeaseEvent env active e =
     (if entity_type e \<noteq> ''governance_lease'' then Inr active
      else if event_type e = LEASE_ACQUIRED then map_sum id Some (buildStoredLeaseFromAcquire env e)
      else if event_type e = LEASE_RELEASED \<or> event_type e = LEASE_PIERCED then clearMatchingStoredLease env active e
      else Inr active)"

primrec apply_all :: "'n lease_env \<Rightarrow> stored_lease option \<Rightarrow> event_entry list \<Rightarrow> string + stored_lease option" where
  "apply_all env active [] = Inr active"
| "apply_all env active (e # es) =
     (case applyPersistedLeaseEvent env active e of Inl err \<Rightarrow> Inl err | Inr a \<Rightarrow> apply_all env a es)"

definition replay :: "'n lease_env \<Rightarrow> string \<Rightarrow> event_entry list \<Rightarrow> string + stored_lease option" where
  "replay env runId es = apply_all env None (queryGovernanceLeaseEventsByRun es runId)"

definition rehydrate_failed :: "string \<Rightarrow> string" where
  "rehydrate_failed runId = coded_error ''CONFLICT'' (''Failed to rehydrate governance lease for run '' @ runId @ ''.'')"

text \<open>A failed read is an error of the call, with a warning, and never the answer that no lease is held.\<close>

definition rehydrateFromEventLog :: "'n lease_env \<Rightarrow> string \<Rightarrow> (('d, 'n) world, stored_lease option) action" where
  "rehydrateFromEventLog env runId w =
     (case lv_read_error env of
        Some message \<Rightarrow>
          (Inl (rehydrate_failed runId),
           emitWarning ''ALAYA_GOVERNANCE_LEASE_REHYDRATE_FAILED''
             (json_stringify (JObject [(''run_id'', JString runId), (''error'', JString message)])) w)
      | None \<Rightarrow> (replay env runId (events (w_store w)), w))"

section \<open>The cached answer\<close>

definition activeLeaseOrUndefined :: "'n lease_env \<Rightarrow> string \<Rightarrow> stored_lease \<Rightarrow> string + stored_lease option" where
  "activeLeaseOrUndefined env referenceTime cached =
     (case isExpired (lv_zod env) (gl_expires_at (sl_lease cached)) referenceTime of
        Inl err \<Rightarrow> Inl err
      | Inr e \<Rightarrow> Inr (if e then None else Some cached))"

text \<open>\<^verbatim>\<open>cache.refresh\<close> with a callback that may throw; the cache is then as it was.\<close>

definition refresh_lease :: "'n lease_env \<Rightarrow> string \<Rightarrow> string \<Rightarrow> stored_lease vcache
    \<Rightarrow> (string + stored_lease option) \<times> stored_lease vcache" where
  "refresh_lease env referenceTime runId c =
     (case map_of (vc_store c) runId of
        None \<Rightarrow> (Inr None, c)
      | Some cached \<Rightarrow>
          (case activeLeaseOrUndefined env referenceTime cached of
             Inl err \<Rightarrow> (Inl err, c)
           | Inr normalized \<Rightarrow> (case refresh runId (\<lambda>_. normalized) c of (v, c1) \<Rightarrow> (Inr v, c1))))"

primrec clear_keys :: "'n lease_env \<Rightarrow> string \<Rightarrow> string list \<Rightarrow> (stored_lease vcache, unit) action" where
  "clear_keys env referenceTime [] c = (Inr (), c)"
| "clear_keys env referenceTime (k # ks) c =
     (case refresh_lease env referenceTime k c of
        (Inl err, c1) \<Rightarrow> (Inl err, c1)
      | (Inr _, c1) \<Rightarrow> clear_keys env referenceTime ks c1)"

definition on_cache :: "(stored_lease vcache, 'a) action \<Rightarrow> (('d, 'n) lease_state, 'a) action" where
  "on_cache m s = (case m (ls_cache s) of (r, c) \<Rightarrow> (r, s\<lparr>ls_cache := c\<rparr>))"

definition on_world :: "(('d, 'n) world, 'a) action \<Rightarrow> (('d, 'n) lease_state, 'a) action" where
  "on_world m s = (case m (ls_world s) of (r, w) \<Rightarrow> (r, s\<lparr>ls_world := w\<rparr>))"

definition clearExpiredAt :: "'n lease_env \<Rightarrow> string \<Rightarrow> (('d, 'n) lease_state, unit) action" where
  "clearExpiredAt env referenceTime s =
     on_cache (clear_keys env referenceTime (map fst (vc_store (ls_cache s)))) s"

text \<open>
  \<^verbatim>\<open>cache.resolve\<close> of a call that runs alone: a cached entry is refreshed and moved to the end; a
  miss loads, and the load settles before anything else happens. An error of the load or of the
  expiry check still runs the \<^verbatim>\<open>finally\<close> handler. Between such calls no load is pending.
\<close>

definition resolve_cached :: "'n lease_env \<Rightarrow> string \<Rightarrow> string \<Rightarrow> (stored_lease vcache, stored_lease option) action" where
  "resolve_cached env referenceTime runId c =
     (case refresh_lease env referenceTime runId c of
        (Inl err, c1) \<Rightarrow> (Inl err, c1)
      | (Inr v, c1) \<Rightarrow> (Inr v, if v \<noteq> None \<and> v = map_of (vc_store c) runId then touch runId c1 else c1))"

definition settle_load :: "'n lease_env \<Rightarrow> string \<Rightarrow> load_ticket \<Rightarrow> stored_lease option
    \<Rightarrow> (stored_lease vcache, stored_lease option) action" where
  "settle_load env referenceTime t loaded c =
     (case loaded of
        None \<Rightarrow> (case finish_load t None Some c of (v, c1) \<Rightarrow> (Inr v, c1))
      | Some l \<Rightarrow>
          (case activeLeaseOrUndefined env referenceTime l of
             Inl err \<Rightarrow> (Inl err, finishPending t c)
           | Inr normalized \<Rightarrow> (case finish_load t loaded (\<lambda>_. normalized) c of (v, c1) \<Rightarrow> (Inr v, c1))))"

definition resolveStoredLease :: "'n lease_env \<Rightarrow> string \<Rightarrow> string \<Rightarrow> (('d, 'n) lease_state, stored_lease option) action" where
  "resolveStoredLease env now runId =
     and_then (lift_result (readNow (lv_api env) (Some now) [] ''now'')) (\<lambda>referenceTime s.
       if store_has runId (ls_cache s) then on_cache (resolve_cached env referenceTime runId) s
       else case startLoad runId (ls_cache s) of
              (t, c1) \<Rightarrow>
                (case rehydrateFromEventLog env runId (ls_world s) of
                   (Inl err, w) \<Rightarrow> (Inl err, s\<lparr>ls_world := w, ls_cache := finishPending t c1\<rparr>)
                 | (Inr loaded, w) \<Rightarrow>
                     on_cache (settle_load env referenceTime t loaded) (s\<lparr>ls_world := w, ls_cache := c1\<rparr>)))"

definition getActive :: "'n lease_env \<Rightarrow> string \<Rightarrow> string \<Rightarrow> (('d, 'n) lease_state, governance_lease option) action" where
  "getActive env now runId =
     (case normalizeOptionalNonEmptyString (Some runId) of
        None \<Rightarrow> ret None
      | Some parsedRunId \<Rightarrow> and_then (resolveStoredLease env now parsedRunId) (\<lambda>v. ret (map_option sl_lease v)))"

definition isHeld :: "'n lease_env \<Rightarrow> string \<Rightarrow> string \<Rightarrow> (('d, 'n) lease_state, bool) action" where
  "isHeld env now runId = and_then (getActive env now runId) (\<lambda>v. ret (v \<noteq> None))"

definition clearExpired :: "'n lease_env \<Rightarrow> string \<Rightarrow> (('d, 'n) lease_state, unit) action" where
  "clearExpired env now = and_then (lift_result (readNow (lv_api env) (Some now) [] ''now'')) (clearExpiredAt env)"

section \<open>Lease events\<close>

text \<open>\<^verbatim>\<open>publish\<close> fails with an \<^verbatim>\<open>EventPublisherPropagationError\<close> exactly when the row itself was appended.\<close>

definition row_appended :: "'n lease_env \<Rightarrow> event_input \<Rightarrow> ('d, 'n) world \<Rightarrow> bool" where
  "row_appended env ev w \<longleftrightarrow> \<not> isl (fst (append_event (lv_log env) ev (w_store w)))"

definition publishLeaseEvent :: "'n lease_env \<Rightarrow> event_input \<Rightarrow> (('d, 'n) lease_state, unit) action" where
  "publishLeaseEvent env ev s =
     (case on_world (publish (lv_pub env) ev) s of
        (Inr _, s1) \<Rightarrow> (Inr (), s1)
      | (Inl err, s1) \<Rightarrow>
          (Inl err, if row_appended env ev (ls_world s) then s1\<lparr>ls_cache := invalidate (ls_cache s1)\<rparr> else s1))"

definition lease_event :: "string \<Rightarrow> string \<Rightarrow> string \<Rightarrow> string \<Rightarrow> json_object \<Rightarrow> event_input" where
  "lease_event etype leaseId workspaceId runId payload =
     \<lparr> event_type = etype, entity_type = ''governance_lease'', entity_id = leaseId, workspace_id = workspaceId,
       run_id = Some runId, caused_by = Some ''system'', payload_json = payload \<rparr>"

definition checked_payload :: "(json_object \<Rightarrow> bool) \<Rightarrow> json_object \<Rightarrow> string + json_object" where
  "checked_payload schema obj = (if schema obj then Inr obj else Inl ''ZodError'')"

definition acquired_json :: "governance_lease \<Rightarrow> string \<Rightarrow> string \<Rightarrow> json_object" where
  "acquired_json l runId occurredAt =
     [(''lease_id'', JString (gl_lease_id l)), (''holder'', JString (gl_holder l)), (''run_id'', JString runId),
      (''expires_at'', case gl_expires_at l of None \<Rightarrow> JNull | Some e \<Rightarrow> JString e),
      (''occurred_at'', JString occurredAt)]"

definition released_json :: "governance_lease \<Rightarrow> string \<Rightarrow> string \<Rightarrow> json_object" where
  "released_json l runId occurredAt =
     [(''lease_id'', JString (gl_lease_id l)), (''run_id'', JString runId), (''occurred_at'', JString occurredAt)]"

definition pierced_json :: "governance_lease \<Rightarrow> string \<Rightarrow> string \<Rightarrow> string \<Rightarrow> json_object" where
  "pierced_json l kind runId occurredAt =
     [(''lease_id'', JString (gl_lease_id l)), (''piercing_condition_kind'', JString kind), (''run_id'', JString runId),
      (''occurred_at'', JString occurredAt)]"

section \<open>The service\<close>

definition assertGovernanceRunWorkspace :: "(string \<Rightarrow> string + string option) \<Rightarrow> string \<Rightarrow> string \<Rightarrow> string + unit" where
  "assertGovernanceRunWorkspace lookup runId workspaceId =
     (case lookup runId of
        Inl err \<Rightarrow> Inl err
      | Inr None \<Rightarrow> Inl (coded_error ''NOT_FOUND'' (''Run '' @ runId @ '' was not found.''))
      | Inr (Some w) \<Rightarrow>
          if w \<noteq> workspaceId then Inl (coded_error ''VALIDATION'' ''workspaceId does not match run workspace.'') else Inr ())"

definition normalizeExpiresAt :: "date_api \<Rightarrow> string \<Rightarrow> string + string" where
  "normalizeExpiresAt api value = readNow api (Some value) [] ''expiresAt''"

definition parseConditionKind :: "string \<Rightarrow> string + string" where
  "parseConditionKind value =
     (if js_trim value \<noteq> [] \<and> List.member piercing_kinds value then Inr value
      else Inl (coded_error ''VALIDATION'' ''conditionKind must be a supported governance lease piercing condition''))"

record acquire_params =
  ap_runId :: string
  ap_workspaceId :: string
  ap_turnId :: "string option"
  ap_expiresAt :: "string option"

definition acquire :: "'n lease_env \<Rightarrow> string \<Rightarrow> string \<Rightarrow> acquire_params \<Rightarrow> (('d, 'n) lease_state, governance_lease) action" where
  "acquire env now runtimeId params =
     and_then (lift_result (readNow (lv_api env) (Some now) [] ''now'')) (\<lambda>occurredAt.
     and_then (lift_result (parseNonEmptyString (ap_runId params) ''runId'')) (\<lambda>runId.
     and_then (lift_result (parseNonEmptyString (ap_workspaceId params) ''workspaceId'')) (\<lambda>workspaceId.
     and_then (lift_result (assertGovernanceRunWorkspace (lv_run_lookup env) runId workspaceId)) (\<lambda>_.
     and_then (lift_result (case ap_expiresAt params of
                 Some e \<Rightarrow> Inr e | None \<Rightarrow> addDuration (lv_api env) occurredAt LEASE_DURATION_MS)) (\<lambda>rawExpiry.
     and_then (lift_result (normalizeExpiresAt (lv_api env) rawExpiry)) (\<lambda>expiresAt.
     and_then (lift_result (parseGovernanceLease env (lease_literal runtimeId (Some expiresAt)
                 (buildHolder runId (case normalizeOptionalNonEmptyString (ap_turnId params) of
                    None \<Rightarrow> runtimeId | Some t \<Rightarrow> t))))) (\<lambda>lease.
     and_then (clearExpiredAt env occurredAt) (\<lambda>_.
     and_then (lift_result (checked_payload (acquired_payload_ok (lv_zod env)) (acquired_json lease runId occurredAt))) (\<lambda>payload.
     and_then (publishLeaseEvent env (lease_event LEASE_ACQUIRED (gl_runtime_id lease) workspaceId runId payload)) (\<lambda>_.
     and_then (on_cache (\<lambda>c. (Inr (), cache_set runId \<lparr> sl_lease = lease, sl_workspaceId = workspaceId \<rparr> c))) (\<lambda>_.
     ret lease)))))))))))"

definition delete_cached :: "string \<Rightarrow> (('d, 'n) lease_state, unit) action" where
  "delete_cached runId = on_cache (\<lambda>c. (Inr (), cache_delete runId c))"

definition release :: "'n lease_env \<Rightarrow> string \<Rightarrow> string \<Rightarrow> string \<Rightarrow> (('d, 'n) lease_state, unit) action" where
  "release env now1 now2 runId =
     and_then (lift_result (parseNonEmptyString runId ''runId'')) (\<lambda>parsedRunId.
     and_then (resolveStoredLease env now1 parsedRunId) (\<lambda>found.
       case found of
         None \<Rightarrow> delete_cached parsedRunId
       | Some active \<Rightarrow>
           and_then (lift_result (readNow (lv_api env) (Some now2) [] ''now'')) (\<lambda>occurredAt.
           and_then (lift_result (checked_payload (released_payload_ok (lv_zod env))
             (released_json (sl_lease active) parsedRunId occurredAt))) (\<lambda>payload.
           and_then (publishLeaseEvent env (lease_event LEASE_RELEASED (gl_runtime_id (sl_lease active))
             (sl_workspaceId active) parsedRunId payload)) (\<lambda>_.
           delete_cached parsedRunId)))))"

definition pierce :: "'n lease_env \<Rightarrow> string \<Rightarrow> string \<Rightarrow> string \<Rightarrow> string \<Rightarrow> string \<Rightarrow> string
    \<Rightarrow> (('d, 'n) lease_state, unit) action" where
  "pierce env now1 now2 runId0 conditionKind0 description workspaceId0 =
     and_then (lift_result (parseNonEmptyString runId0 ''runId'')) (\<lambda>runId.
     and_then (lift_result (parseNonEmptyString workspaceId0 ''workspaceId'')) (\<lambda>workspaceId.
     and_then (lift_result (parseConditionKind conditionKind0)) (\<lambda>conditionKind.
     and_then (lift_result (parseNonEmptyString description ''description'')) (\<lambda>_.
     and_then (getActive env now1 runId) (\<lambda>found.
       case found of
         None \<Rightarrow> ret ()
       | Some active \<Rightarrow>
           and_then (lift_result (readNow (lv_api env) (Some now2) [] ''now'')) (\<lambda>occurredAt.
           and_then (lift_result (checked_payload (pierced_payload_ok (lv_zod env))
             (pierced_json active conditionKind runId occurredAt))) (\<lambda>payload.
           and_then (publishLeaseEvent env (lease_event LEASE_PIERCED (gl_runtime_id active) workspaceId runId payload)) (\<lambda>_.
           delete_cached runId))))))))"

section \<open>The log\<close>

definition lease_row :: "string \<Rightarrow> event_entry \<Rightarrow> bool" where
  "lease_row r e \<longleftrightarrow> run_id e = Some r \<and> List.member [LEASE_ACQUIRED, LEASE_RELEASED, LEASE_PIERCED] (event_type e)"

lemma query_in_order:
  assumes "sorted (map created_at es)"
  shows "queryGovernanceLeaseEventsByRun es r = filter (lease_row r) es"
proof -
  have "sorted (map created_at (filter (lease_row r) es))" using assms by (rule sorted_filter)
  then show ?thesis
    by (simp add: queryGovernanceLeaseEventsByRun_def lease_row_def [abs_def] sort_key_id_if_sorted)
qed

lemma apply_all_append:
  "apply_all env a (xs @ ys) = (case apply_all env a xs of Inl err \<Rightarrow> Inl err | Inr b \<Rightarrow> apply_all env b ys)"
  by (induction xs arbitrary: a) (auto split: sum.split)

lemma replay_snoc:
  assumes "sorted (map created_at (es @ [e]))"
  shows "replay env r (es @ [e]) = (case replay env r es of
      Inl err \<Rightarrow> Inl err | Inr a \<Rightarrow> if lease_row r e then applyPersistedLeaseEvent env a e else Inr a)"
proof -
  have "sorted (map created_at es)" using assms by (simp add: sorted_append)
  then show ?thesis
    unfolding replay_def query_in_order [OF assms] by (simp add: query_in_order apply_all_append split: sum.split)
qed

definition truth :: "'n lease_env \<Rightarrow> event_entry list \<Rightarrow> string \<Rightarrow> stored_lease option" where
  "truth env es r = (case replay env r es of Inl _ \<Rightarrow> None | Inr v \<Rightarrow> v)"

text \<open>The clock that stamps rows does not go backwards, rows are in the order of their stamps, and every
  run's lease events can be replayed.\<close>

definition clock_forward :: "'n lease_env \<Rightarrow> bool" where
  "clock_forward env \<longleftrightarrow> (\<forall>i j. i \<le> j \<longrightarrow> le_now (lv_log env) i \<le> le_now (lv_log env) j)"

definition log_ok :: "'n lease_env \<Rightarrow> 'd store \<Rightarrow> bool" where
  "log_ok env st \<longleftrightarrow> sorted (map created_at (events st))
     \<and> (\<forall>e \<in> set (events st). created_at e \<le> le_now (lv_log env) (draws st))
     \<and> (\<forall>r. replay env r (events st) = Inr (truth env (events st) r))"

definition coherent :: "'n lease_env \<Rightarrow> ('d, 'n) lease_state \<Rightarrow> bool" where
  "coherent env s \<longleftrightarrow> log_ok env (w_store (ls_world s)) \<and> caches (truth env (ls_events s)) (ls_cache s)"

lemma log_ok_draw:
  assumes "clock_forward env" "log_ok env st"
  shows "log_ok env (st\<lparr>draws := Suc (draws st)\<rparr>)"
proof -
  have "le_now (lv_log env) (draws st) \<le> le_now (lv_log env) (Suc (draws st))" using assms(1) by (simp add: clock_forward_def)
  then show ?thesis using assms(2) unfolding log_ok_def by (auto intro: order_trans)
qed

text \<open>A lease row of a run changes what is replayed for that run only.\<close>

lemma log_ok_append:
  assumes clock: "clock_forward env" and ok: "log_ok env st" and now: "created_at e = le_now (lv_log env) (draws st)"
    and row: "lease_row r e" and applied: "applyPersistedLeaseEvent env (truth env (events st) r) e = Inr x"
  shows "log_ok env (st\<lparr>draws := Suc (draws st), events := events st @ [e]\<rparr>)"
    and "truth env (events st @ [e]) = (truth env (events st))(r := x)"
proof -
  have sorted: "sorted (map created_at (events st @ [e]))"
    using ok now by (auto simp: log_ok_def sorted_append)
  have replay: "replay env q (events st @ [e]) = Inr (((truth env (events st))(r := x)) q)" for q
  proof -
    have "lease_row q e \<longleftrightarrow> q = r" using row by (auto simp: lease_row_def)
    then show ?thesis using ok applied unfolding replay_snoc [OF sorted] log_ok_def by simp
  qed
  then show truth: "truth env (events st @ [e]) = (truth env (events st))(r := x)" by (auto simp: truth_def)
  have "le_now (lv_log env) (draws st) \<le> le_now (lv_log env) (Suc (draws st))" using clock by (simp add: clock_forward_def)
  then have "\<forall>e' \<in> set (events st @ [e]). created_at e' \<le> le_now (lv_log env) (Suc (draws st))"
    using ok now unfolding log_ok_def by (auto intro: order_trans)
  with sorted replay truth show "log_ok env (st\<lparr>draws := Suc (draws st), events := events st @ [e]\<rparr>)"
    unfolding log_ok_def by simp
qed

section \<open>Publishing\<close>

lemma append_event_cases:
  obtains (refused) err where "append_event env ev st = (Inl err, st\<lparr>draws := Suc (draws st)\<rparr>)"
  | (logged) entry where "append_event env ev st = (Inr entry, st\<lparr>draws := Suc (draws st), events := events st @ [entry]\<rparr>)"
      "entry = complete_entry ev (le_uuid env (draws st))
         (computeNextRevision (events st) (entity_type ev) (entity_id ev)) (le_now env (draws st))"
proof (cases "appendInCurrentTransaction env ev st")
  case (Pair r st')
  show thesis
  proof (cases r)
    case (Inl err)
    with Pair have "appendInCurrentTransaction env ev st = (Inl err, st')" by simp
    moreover from append_throws [OF this] have "st' = st\<lparr>draws := Suc (draws st)\<rparr>" .
    ultimately show thesis
      by (intro refused) (simp add: append_event_def transactional_def and_then_def rollback_def)
  next
    case (Inr entry)
    with Pair have a: "appendInCurrentTransaction env ev st = (Inr entry, st')" by simp
    then have "append_event env ev st = (Inr entry, st')" by (simp add: append_event_eq)
    with a show thesis by (intro logged) (simp_all add: append_returns)
  qed
qed

lemma publishLeaseEvent_cases:
  obtains (refused) err s' where "publishLeaseEvent env ev s = (Inl err, s')" "ls_cache s' = ls_cache s"
      "w_store (ls_world s') = (w_store (ls_world s))\<lparr>draws := Suc (draws (w_store (ls_world s)))\<rparr>"
  | (logged) res entry s' where "publishLeaseEvent env ev s = (res, s')"
      "ls_cache s' = (if isl res then invalidate (ls_cache s) else ls_cache s)"
      "w_store (ls_world s') = (w_store (ls_world s))\<lparr>draws := Suc (draws (w_store (ls_world s))), events := ls_events s @ [entry]\<rparr>"
      "entry = complete_entry ev (le_uuid (lv_log env) (draws (w_store (ls_world s))))
         (computeNextRevision (ls_events s) (entity_type ev) (entity_id ev)) (le_now (lv_log env) (draws (w_store (ls_world s))))"
proof (cases rule: append_event_cases [of "lv_log env" ev "w_store (ls_world s)"])
  case (refused err)
  then have "publish (lv_pub env) ev (ls_world s) =
      (Inl err, (ls_world s)\<lparr>w_store := (w_store (ls_world s))\<lparr>draws := Suc (draws (w_store (ls_world s)))\<rparr>\<rparr>)"
    by (simp add: publish_def and_then_def on_store_apply)
  with refused have "publishLeaseEvent env ev s = (Inl err, s\<lparr>ls_world :=
      (ls_world s)\<lparr>w_store := (w_store (ls_world s))\<lparr>draws := Suc (draws (w_store (ls_world s)))\<rparr>\<rparr>\<rparr>)"
    by (simp add: publishLeaseEvent_def on_world_def row_appended_def)
  from that(1) [OF this] show thesis by simp
next
  case (logged entry)
  define w1 where "w1 = (ls_world s)\<lparr>w_store := (w_store (ls_world s))\<lparr>draws := Suc (draws (w_store (ls_world s))), events := ls_events s @ [entry]\<rparr>\<rparr>"
  obtain fs w2 where w2: "propagateEntries (lv_pub env) [entry] w1 = (fs, w2)" by fastforce
  then have "w_store w2 = w_store w1" using propagateEntries_keeps_store [of "lv_pub env" "[entry]" w1] by simp
  moreover have "publish (lv_pub env) ev (ls_world s) =
      (case fs of [] \<Rightarrow> (Inr entry, w2) | failure # _ \<Rightarrow> (Inl (propagation_error failure), w2))"
    using logged(1) w2 by (simp add: publish_def and_then_def on_store_apply w1_def [symmetric] del: propagateEntries.simps split: list.split)
  ultimately obtain res where "publishLeaseEvent env ev s =
      (res, s\<lparr>ls_world := w2, ls_cache := if isl res then invalidate (ls_cache s) else ls_cache s\<rparr>)"
    using logged(1) by (cases fs) (auto simp: publishLeaseEvent_def on_world_def row_appended_def)
  from that(2) [OF this, of entry] \<open>w_store w2 = w_store w1\<close> logged(2) show thesis by (simp add: w1_def)
qed

lemma on_cache_apply: "on_cache m s = (fst (m (ls_cache s)), s\<lparr>ls_cache := snd (m (ls_cache s))\<rparr>)"
  by (simp add: on_cache_def case_prod_unfold)

text \<open>A lease row followed by the matching write of the cache.\<close>

lemma publish_then_coherent:
  assumes clock: "clock_forward env" and s: "coherent env s"
    and ev: "\<And>entry. entry = complete_entry ev u n t \<Longrightarrow> lease_row r entry"
    and step: "\<And>u n t. \<exists>x. applyPersistedLeaseEvent env (truth env (ls_events s) r) (complete_entry ev u n t) = Inr x
      \<and> caches ((truth env (ls_events s))(r := x)) (f (ls_cache s))"
  shows "coherent env (snd (and_then (publishLeaseEvent env ev) (\<lambda>_. and_then (on_cache (\<lambda>c. (Inr (), f c))) (\<lambda>_. ret a)) s))"
proof (cases rule: publishLeaseEvent_cases [of env ev s])
  case (refused err s')
  with s log_ok_draw [OF clock, of "w_store (ls_world s)"] show ?thesis by (simp add: and_then_def coherent_def)
next
  case (logged res entry s')
  define e where "e = complete_entry ev (le_uuid (lv_log env) (draws (w_store (ls_world s))))
         (computeNextRevision (ls_events s) (entity_type ev) (entity_id ev)) (le_now (lv_log env) (draws (w_store (ls_world s))))"
  have row: "lease_row r e" using ev by (simp add: e_def lease_row_def)
  obtain x where x: "applyPersistedLeaseEvent env (truth env (ls_events s) r) e = Inr x"
    "caches ((truth env (ls_events s))(r := x)) (f (ls_cache s))" using step unfolding e_def by blast
  have now: "created_at e = le_now (lv_log env) (draws (w_store (ls_world s)))" by (simp add: e_def)
  have "log_ok env (w_store (ls_world s))" using s by (simp add: coherent_def)
  note ok = log_ok_append [OF clock this now row x(1)]
  have st: "w_store (ls_world s') = (w_store (ls_world s))\<lparr>draws := Suc (draws (w_store (ls_world s))), events := ls_events s @ [e]\<rparr>"
    using logged(3,4) by (simp add: e_def)
  have inv: "caches q (invalidate (ls_cache s))" for q
    using s caches_invalidate unfolding coherent_def by blast
  show ?thesis
  proof (cases res)
    case (Inl err)
    with logged(1,2) st ok inv show ?thesis by (simp add: and_then_def coherent_def)
  next
    case (Inr u)
    with logged(1,2) st ok x(2) show ?thesis by (simp add: and_then_def on_cache_apply coherent_def)
  qed
qed

section \<open>Answers\<close>

definition current_lease :: "'n lease_env \<Rightarrow> string \<Rightarrow> stored_lease option \<Rightarrow> string + stored_lease option" where
  "current_lease env referenceTime v = (case v of None \<Rightarrow> Inr None | Some l \<Rightarrow> activeLeaseOrUndefined env referenceTime l)"

lemma active_or_none: "activeLeaseOrUndefined env ref l = Inr n \<Longrightarrow> n = None \<or> n = Some l"
  by (auto simp: activeLeaseOrUndefined_def split: sum.splits if_splits)

lemma refresh_lease_coherent:
  assumes c: "caches q c"
  shows "caches q (snd (refresh_lease env ref r c))"
    and "map_of (vc_store c) r = Some l \<Longrightarrow> fst (refresh_lease env ref r c) = activeLeaseOrUndefined env ref l"
proof -
  have "caches q (snd (refresh r (\<lambda>_. n) c))" if "map_of (vc_store c) r = Some l" "activeLeaseOrUndefined env ref l = Inr n" for l n
    by (rule caches_refresh(1) [OF c]) (use that active_or_none [OF that(2)] in auto)
  then show "caches q (snd (refresh_lease env ref r c))"
    using c by (auto simp: refresh_lease_def case_prod_unfold split: option.split sum.split)
  assume l: "map_of (vc_store c) r = Some l"
  show "fst (refresh_lease env ref r c) = activeLeaseOrUndefined env ref l"
  proof (cases "activeLeaseOrUndefined env ref l")
    case (Inr n)
    with caches_refresh(2) [OF c, of n r] active_or_none [OF Inr] l have "fst (refresh r (\<lambda>_. n) c) = n" by auto
    with l Inr show ?thesis by (simp add: refresh_lease_def case_prod_unfold)
  qed (use l in \<open>simp add: refresh_lease_def\<close>)
qed

lemma clear_keys_coherent: "caches q c \<Longrightarrow> caches q (snd (clear_keys env ref ks c))"
proof (induction ks arbitrary: c)
  case (Cons k ks)
  from refresh_lease_coherent(1) [OF Cons.prems, where env = env and ref = ref and r = k] Cons.IH show ?case
    by (auto simp: case_prod_unfold split: sum.split)
qed simp

lemma clearExpiredAt_coherent: "coherent env s \<Longrightarrow> coherent env (snd (clearExpiredAt env ref s))"
  using clear_keys_coherent by (auto simp: coherent_def clearExpiredAt_def on_cache_apply)

lemma clearExpiredAt_world: "ls_world (snd (clearExpiredAt env ref s)) = ls_world s"
  by (simp add: clearExpiredAt_def on_cache_apply)

lemma resolve_cached_coherent:
  assumes c: "caches q c" and has: "store_has r c"
  shows "caches q (snd (resolve_cached env ref r c))" and "fst (resolve_cached env ref r c) = current_lease env ref (q r)"
proof -
  from has obtain l where l: "map_of (vc_store c) r = Some l"
    by (metis not_None_eq map_of_eq_None_iff store_has_def)
  note R = refresh_lease_coherent [OF c, where env = env and ref = ref and r = r]
  show "caches q (snd (resolve_cached env ref r c))"
    using R(1) caches_touch by (auto simp: resolve_cached_def case_prod_unfold split: sum.split)
  have "fst (resolve_cached env ref r c) = fst (refresh_lease env ref r c)"
    by (auto simp: resolve_cached_def case_prod_unfold split: sum.split)
  then show "fst (resolve_cached env ref r c) = current_lease env ref (q r)"
    using R(2) [OF l] cachesD(4) [OF c l] by (simp add: current_lease_def)
qed

lemma settle_load_coherent:
  assumes c: "caches q c" and miss: "\<not> store_has r c" and t: "startLoad r c = (t, c1)"
  shows "caches q (snd (settle_load env ref t (q r) c1))" and "fst (settle_load env ref t (q r) c1) = current_lease env ref (q r)"
proof -
  have *: "caches q (snd (settle_load env ref t (q r) c1)) \<and> fst (settle_load env ref t (q r) c1) = current_lease env ref (q r)"
  proof (cases "q r")
    case None
    with caches_load [OF c miss t, of Some] show ?thesis
      by (simp add: settle_load_def current_lease_def case_prod_unfold)
  next
    case (Some l)
    show ?thesis
    proof (cases "activeLeaseOrUndefined env ref l")
      case (Inl err)
      with Some startLoad_then [OF c t] show ?thesis by (simp add: settle_load_def current_lease_def)
    next
      case (Inr n)
      with Some active_or_none [OF Inr] caches_load [OF c miss t, of "\<lambda>_. n"] show ?thesis
        by (auto simp: settle_load_def current_lease_def case_prod_unfold)
    qed
  qed
  from * show "caches q (snd (settle_load env ref t (q r) c1))" by blast
  from * show "fst (settle_load env ref t (q r) c1) = current_lease env ref (q r)" by blast
qed

text \<open>What a resolution answers, from the log and the clock; the cache only matters when the log cannot be read.\<close>

definition lease_answer :: "'n lease_env \<Rightarrow> string \<Rightarrow> string \<Rightarrow> ('d, 'n) lease_state \<Rightarrow> string + stored_lease option" where
  "lease_answer env now r s =
     (case readNow (lv_api env) (Some now) [] ''now'' of
        Inl err \<Rightarrow> Inl err
      | Inr ref \<Rightarrow>
          if lv_read_error env = None \<or> store_has r (ls_cache s) then current_lease env ref (truth env (ls_events s) r)
          else Inl (rehydrate_failed r))"

lemma resolveStoredLease_spec:
  assumes s: "coherent env s"
  shows "coherent env (snd (resolveStoredLease env now r s))"
    and "w_store (ls_world (snd (resolveStoredLease env now r s))) = w_store (ls_world s)"
    and "fst (resolveStoredLease env now r s) = lease_answer env now r s"
proof -
  from s have log: "log_ok env (w_store (ls_world s))" and c: "caches (truth env (ls_events s)) (ls_cache s)"
    by (simp_all add: coherent_def)
  have "coherent env (snd (resolveStoredLease env now r s))
      \<and> w_store (ls_world (snd (resolveStoredLease env now r s))) = w_store (ls_world s)
      \<and> fst (resolveStoredLease env now r s) = lease_answer env now r s"
  proof (cases "readNow (lv_api env) (Some now) [] ''now''")
    case (Inl err)
    with s show ?thesis by (simp add: resolveStoredLease_def and_then_def lease_answer_def)
  next
    case (Inr ref)
    obtain t c1 where t: "startLoad r (ls_cache s) = (t, c1)" by fastforce
    consider (hit) "store_has r (ls_cache s)" | (broken) m where "\<not> store_has r (ls_cache s)" "lv_read_error env = Some m"
      | (miss) "\<not> store_has r (ls_cache s)" "lv_read_error env = None" by (cases "lv_read_error env") auto
    then show ?thesis
    proof cases
      case hit
      with Inr log resolve_cached_coherent [OF c hit, where env = env and ref = ref] show ?thesis
        by (simp add: resolveStoredLease_def and_then_def on_cache_apply coherent_def lease_answer_def)
    next
      case broken
      with Inr log t startLoad_then [OF c t] show ?thesis
        by (simp add: resolveStoredLease_def and_then_def coherent_def lease_answer_def rehydrateFromEventLog_def
            del: json_stringify.simps)
    next
      case miss
      moreover have "replay env r (ls_events s) = Inr (truth env (ls_events s) r)" using log by (simp add: log_ok_def)
      ultimately show ?thesis
        using Inr log t settle_load_coherent [OF c miss(1) t, of env ref]
        by (simp add: resolveStoredLease_def and_then_def coherent_def lease_answer_def rehydrateFromEventLog_def on_cache_apply)
    qed
  qed
  then show "coherent env (snd (resolveStoredLease env now r s))"
    and "w_store (ls_world (snd (resolveStoredLease env now r s))) = w_store (ls_world s)"
    and "fst (resolveStoredLease env now r s) = lease_answer env now r s" by blast+
qed

section \<open>The service keeps log and cache in step\<close>

lemma json_text_simps [simp]:
  "json_text [] k = None"
  "json_text ((j, v) # obj) k = (if j = k then (case v of JString t \<Rightarrow> Some t | _ \<Rightarrow> None) else json_text obj k)"
  "json_nullable_text ((j, v) # obj) k =
     (if j = k then (case v of JString t \<Rightarrow> Some (Some t) | JNull \<Rightarrow> Some None | _ \<Rightarrow> None) else json_nullable_text obj k)"
  by (auto simp: json_text_def json_nullable_text_def split: json.split)

lemma lease_event_types [simp]:
  "LEASE_ACQUIRED \<noteq> LEASE_RELEASED" "LEASE_ACQUIRED \<noteq> LEASE_PIERCED" "LEASE_RELEASED \<noteq> LEASE_PIERCED"
  "LEASE_RELEASED \<noteq> LEASE_ACQUIRED" "LEASE_PIERCED \<noteq> LEASE_ACQUIRED" "LEASE_PIERCED \<noteq> LEASE_RELEASED"
  by (simp_all add: LEASE_ACQUIRED_def LEASE_RELEASED_def LEASE_PIERCED_def)

lemma lease_event_fields [simp]:
  "event_type (lease_event ty i ws r p) = ty" "entity_type (lease_event ty i ws r p) = ''governance_lease''"
  "workspace_id (lease_event ty i ws r p) = ws" "run_id (lease_event ty i ws r p) = Some r"
  "payload_json (lease_event ty i ws r p) = p"
  by (simp_all add: lease_event_def)

lemma lease_literal_fields [simp]:
  "gl_runtime_id (lease_literal i e h) = i" "gl_lease_id (lease_literal i e h) = i"
  "gl_expires_at (lease_literal i e h) = e" "gl_holder (lease_literal i e h) = h"
  by (simp_all add: lease_literal_def)

text \<open>The row of an acquisition replays to exactly the lease that was cached.\<close>

lemma acquired_replays:
  assumes "GovernanceLease_ok env (lease_literal i x h)"
    and "acquired_payload_ok (lv_zod env) (acquired_json (lease_literal i x h) r t)"
  shows "applyPersistedLeaseEvent env a
      (complete_entry (lease_event LEASE_ACQUIRED j ws r (acquired_json (lease_literal i x h) r t)) u n now)
    = Inr (Some \<lparr> sl_lease = lease_literal i x h, sl_workspaceId = ws \<rparr>)"
proof -
  have fields: "json_text (acquired_json (lease_literal i x h) r t) ''lease_id'' = Some i"
    "json_text (acquired_json (lease_literal i x h) r t) ''holder'' = Some h"
    "json_nullable_text (acquired_json (lease_literal i x h) r t) ''expires_at'' = Some x"
    by (simp_all add: acquired_json_def split: option.split)
  show ?thesis
    using assms
    by (simp add: applyPersistedLeaseEvent_def buildStoredLeaseFromAcquire_def parsePersistedGovernanceLeasePayload_def
        parseGovernanceLease_def fields)
qed

definition without :: "string \<Rightarrow> stored_lease option \<Rightarrow> stored_lease option" where
  "without i a = (case a of None \<Rightarrow> None | Some l \<Rightarrow> if i = gl_lease_id (sl_lease l) then None else Some l)"

lemma released_replays:
  assumes "released_payload_ok (lv_zod env) (released_json l r t)"
  shows "applyPersistedLeaseEvent env a (complete_entry (lease_event LEASE_RELEASED j ws r (released_json l r t)) u n now)
    = Inr (without (gl_lease_id l) a)"
proof -
  have "json_text (released_json l r t) ''lease_id'' = Some (gl_lease_id l)" by (simp add: released_json_def)
  with assms show ?thesis
    by (simp add: applyPersistedLeaseEvent_def clearMatchingStoredLease_def parsePersistedGovernanceLeasePayload_def
        without_def split: option.split)
qed

lemma pierced_replays:
  assumes "pierced_payload_ok (lv_zod env) (pierced_json l kind r t)"
  shows "applyPersistedLeaseEvent env a (complete_entry (lease_event LEASE_PIERCED j ws r (pierced_json l kind r t)) u n now)
    = Inr (without (gl_lease_id l) a)"
proof -
  have "json_text (pierced_json l kind r t) ''lease_id'' = Some (gl_lease_id l)" by (simp add: pierced_json_def)
  with assms show ?thesis
    by (simp add: applyPersistedLeaseEvent_def clearMatchingStoredLease_def parsePersistedGovernanceLeasePayload_def
        without_def split: option.split)
qed

lemma keeps_lift_then: "(\<And>a. r = Inr a \<Longrightarrow> keeps I (f a)) \<Longrightarrow> keeps I (and_then (lift_result r) f)"
  by (cases r) (auto simp: keeps_def and_then_def)

lemma then_ret: "and_then m ret = m"
  by (intro ext) (auto simp: and_then_def ret_def split: prod.split sum.split)

lemma keeps_publish:
  assumes clock: "clock_forward env" and ev: "run_id ev = Some r" "event_type ev \<in> {LEASE_ACQUIRED, LEASE_RELEASED, LEASE_PIERCED}"
    and replays: "\<And>a u n t. applyPersistedLeaseEvent env a (complete_entry ev u n t) = Inr (g a)"
    and follows: "\<And>q c. caches q c \<Longrightarrow> caches (q(r := g (q r))) (f c)"
  shows "keeps (coherent env) (and_then (publishLeaseEvent env ev) (\<lambda>_. and_then (on_cache (\<lambda>c. (Inr (), f c))) (\<lambda>_. ret a)))"
  unfolding keeps_def
proof (intro allI impI)
  fix s assume s: "coherent env s"
  show "coherent env (snd (and_then (publishLeaseEvent env ev) (\<lambda>_. and_then (on_cache (\<lambda>c. (Inr (), f c))) (\<lambda>_. ret a)) s))"
  proof (rule publish_then_coherent [OF clock s])
    show "lease_row r entry" if "entry = complete_entry ev u n t" for entry u n t
      using that ev by (auto simp: lease_row_def)
    show "\<exists>x. applyPersistedLeaseEvent env (truth env (ls_events s) r) (complete_entry ev u n t) = Inr x
        \<and> caches ((truth env (ls_events s))(r := x)) (f (ls_cache s))" for u n t
      using replays follows s by (auto simp: coherent_def)
  qed
qed

lemma keeps_delete_cached: "keeps (coherent env) (delete_cached r)"
  using versioned_view.forget_when by (auto simp: keeps_def coherent_def delete_cached_def on_cache_apply)

lemma keeps_clearExpiredAt: "keeps (coherent env) (clearExpiredAt env ref)"
  using clearExpiredAt_coherent by (auto simp: keeps_def)

lemma keeps_resolve: "keeps (coherent env) (resolveStoredLease env now r)"
  using resolveStoredLease_spec(1) by (auto simp: keeps_def)

lemma keeps_getActive: "keeps (coherent env) (getActive env now r)"
  unfolding getActive_def by (auto intro!: keeps_and_then keeps_resolve keeps_intros split: option.split)

lemma acquire_keeps_coherent:
  assumes "clock_forward env"
  shows "keeps (coherent env) (acquire env now i params)"
  unfolding acquire_def
proof (intro keeps_lift_then, rule keeps_and_then [OF keeps_clearExpiredAt], intro keeps_lift_then)
  fix occurredAt rawExpiry expiresAt lease runId workspaceId payload
  assume l: "parseGovernanceLease env (lease_literal i (Some expiresAt)
      (buildHolder runId (case normalizeOptionalNonEmptyString (ap_turnId params) of None \<Rightarrow> i | Some t \<Rightarrow> t))) = Inr lease"
    and p: "checked_payload (acquired_payload_ok (lv_zod env)) (acquired_json lease runId occurredAt) = Inr payload"
  then obtain h where lease: "lease = lease_literal i (Some expiresAt) h" "GovernanceLease_ok env (lease_literal i (Some expiresAt) h)"
    by (auto simp: parseGovernanceLease_def split: if_splits)
  from p have payload: "payload = acquired_json lease runId occurredAt" "acquired_payload_ok (lv_zod env) payload"
    by (auto simp: checked_payload_def split: if_splits)
  show "keeps (coherent env) (and_then (publishLeaseEvent env (lease_event LEASE_ACQUIRED (gl_runtime_id lease) workspaceId runId payload))
     (\<lambda>_. and_then (on_cache (\<lambda>c. (Inr (), cache_set runId \<lparr> sl_lease = lease, sl_workspaceId = workspaceId \<rparr> c))) (\<lambda>_. ret lease)))"
  proof (rule keeps_publish [OF assms, where r = runId])
    show "applyPersistedLeaseEvent env a (complete_entry (lease_event LEASE_ACQUIRED (gl_runtime_id lease) workspaceId runId payload) u n t)
        = Inr (Some \<lparr> sl_lease = lease, sl_workspaceId = workspaceId \<rparr>)" for a u n t
      using acquired_replays [OF lease(2), of runId occurredAt] payload unfolding lease(1) by simp
    show "caches (q(runId := Some \<lparr> sl_lease = lease, sl_workspaceId = workspaceId \<rparr>))
        (cache_set runId \<lparr> sl_lease = lease, sl_workspaceId = workspaceId \<rparr> c)" if "caches q c" for q c
      by (rule versioned_view.put_law [OF that])
  qed simp_all
qed

lemma keeps_publish_forget:
  assumes clock: "clock_forward env" and ev: "run_id ev = Some r" "event_type ev \<in> {LEASE_ACQUIRED, LEASE_RELEASED, LEASE_PIERCED}"
    and replays: "\<And>a u n t. applyPersistedLeaseEvent env a (complete_entry ev u n t) = Inr (g a)"
  shows "keeps (coherent env) (and_then (publishLeaseEvent env ev) (\<lambda>_. delete_cached r))"
proof -
  have "keeps (coherent env) (and_then (publishLeaseEvent env ev) (\<lambda>_. and_then (on_cache (\<lambda>c. (Inr (), cache_delete r c))) (\<lambda>_. ret ())))"
    by (rule keeps_publish [OF clock ev replays versioned_view.forget_law])
  then show ?thesis by (simp add: delete_cached_def then_ret)
qed

lemma release_keeps_coherent:
  assumes "clock_forward env"
  shows "keeps (coherent env) (release env now1 now2 runId)"
  unfolding release_def
proof (intro keeps_lift_then keeps_and_then keeps_resolve)
  fix r found
  show "keeps (coherent env) (case found of
         None \<Rightarrow> delete_cached r
       | Some active \<Rightarrow>
           and_then (lift_result (readNow (lv_api env) (Some now2) [] ''now'')) (\<lambda>occurredAt.
           and_then (lift_result (checked_payload (released_payload_ok (lv_zod env))
             (released_json (sl_lease active) r occurredAt))) (\<lambda>payload.
           and_then (publishLeaseEvent env (lease_event LEASE_RELEASED (gl_runtime_id (sl_lease active))
             (sl_workspaceId active) r payload)) (\<lambda>_.
           delete_cached r))))"
  proof (cases found)
    case (Some active)
    show ?thesis
      unfolding Some option.case
      by (intro keeps_lift_then keeps_publish_forget [OF assms, where g = "without (gl_lease_id (sl_lease active))"])
        (auto simp: checked_payload_def released_replays split: if_splits)
  qed (simp add: keeps_delete_cached)
qed

lemma pierce_keeps_coherent:
  assumes "clock_forward env"
  shows "keeps (coherent env) (pierce env now1 now2 r0 kind0 description ws0)"
  unfolding pierce_def
proof (intro keeps_lift_then keeps_and_then keeps_getActive)
  fix r ws kind and found :: "governance_lease option"
  show "keeps (coherent env) (case found of
         None \<Rightarrow> ret ()
       | Some active \<Rightarrow>
           and_then (lift_result (readNow (lv_api env) (Some now2) [] ''now'')) (\<lambda>occurredAt.
           and_then (lift_result (checked_payload (pierced_payload_ok (lv_zod env))
             (pierced_json active kind r occurredAt))) (\<lambda>payload.
           and_then (publishLeaseEvent env (lease_event LEASE_PIERCED (gl_runtime_id active) ws r payload)) (\<lambda>_.
           delete_cached r))))"
  proof (cases found)
    case (Some active)
    show ?thesis
      unfolding Some option.case
      by (intro keeps_lift_then keeps_publish_forget [OF assms, where g = "without (gl_lease_id active)"])
        (auto simp: checked_payload_def pierced_replays split: if_splits)
  qed (simp add: keeps_intros)
qed

section \<open>Sequences of calls\<close>

datatype lease_call =
    Acquire_lease string string acquire_params
  | Release_lease string string string
  | Pierce_lease string string string string string string
  | Get_lease string string
  | Clear_leases string

primrec lease_step :: "'n lease_env \<Rightarrow> lease_call \<Rightarrow> ('d, 'n) lease_state \<Rightarrow> ('d, 'n) lease_state" where
  "lease_step env (Acquire_lease now i params) s = snd (acquire env now i params s)"
| "lease_step env (Release_lease now1 now2 r) s = snd (release env now1 now2 r s)"
| "lease_step env (Pierce_lease now1 now2 r kind description ws) s = snd (pierce env now1 now2 r kind description ws s)"
| "lease_step env (Get_lease now r) s = snd (getActive env now r s)"
| "lease_step env (Clear_leases now) s = snd (clearExpired env now s)"

lemma lease_step_coherent: "clock_forward env \<Longrightarrow> coherent env s \<Longrightarrow> coherent env (lease_step env q s)"
  by (cases q)
    (auto simp: clearExpired_def intro!: keepsD acquire_keeps_coherent release_keeps_coherent pierce_keeps_coherent
      keeps_getActive keeps_and_then keeps_clearExpiredAt keeps_intros)

lemma lease_steps_coherent: "clock_forward env \<Longrightarrow> coherent env s \<Longrightarrow> coherent env (fold (lease_step env) calls s)"
  by (induction calls arbitrary: s) (auto intro: lease_step_coherent)

lemma getActive_answer:
  assumes "coherent env s"
  shows "fst (getActive env now r s) =
    (case normalizeOptionalNonEmptyString (Some r) of None \<Rightarrow> Inr None
     | Some k \<Rightarrow> map_sum id (map_option sl_lease) (lease_answer env now k s))"
proof (cases "normalizeOptionalNonEmptyString (Some r)")
  case (Some k)
  show ?thesis
    unfolding getActive_def Some option.case resolveStoredLease_spec(3) [OF assms, symmetric]
    by (auto simp: and_then_def split: prod.split sum.split)
qed (simp add: getActive_def)

lemma trimmed_key: "js_trim r = r \<Longrightarrow> r \<noteq> [] \<Longrightarrow> normalizeOptionalNonEmptyString (Some r) = Some r"
  by (simp add: normalizeOptionalNonEmptyString_def)

section \<open>Properties\<close>

text \<open>C25: The lease cache is only a cache: after any sequence of acquisitions, releases,
  piercings and queries, with rows published or their propagation failing at any point, every run's
  lease is answered exactly as by a service restarted on the same log with nothing cached.\<close>

theorem restart_changes_no_lease_answer:
  assumes "clock_forward env" and "coherent env s0" and "lv_read_error env = None"
  shows "fst (getActive env now r (fold (lease_step env) calls s0))
    = fst (getActive env now r ((fold (lease_step env) calls s0)\<lparr>ls_cache := empty_cache 1024\<rparr>))"
proof -
  define s where "s = fold (lease_step env) calls s0"
  have live: "coherent env s" unfolding s_def by (rule lease_steps_coherent [OF assms(1,2)])
  then have restarted: "coherent env (s\<lparr>ls_cache := empty_cache 1024\<rparr>)" by (simp add: coherent_def caches_empty)
  show ?thesis
    unfolding s_def [symmetric] getActive_answer [OF live] getActive_answer [OF restarted]
    using assms(3) by (simp add: lease_answer_def split: option.split sum.split)
qed

text \<open>A run whose lease is held is never reported free: whatever the cache holds and
  whether or not the log can be read, \<^verbatim>\<open>isHeld\<close> answers that the lease is held or fails.\<close>

theorem held_run_is_never_reported_free:
  assumes "coherent env s" and "js_trim r = r" and "r \<noteq> []"
    and "readNow (lv_api env) (Some now) [] ''now'' = Inr ref"
    and "current_lease env ref (truth env (ls_events s) r) = Inr (Some l)"
  shows "fst (isHeld env now r s) =
    (if lv_read_error env = None \<or> store_has r (ls_cache s) then Inr True
     else Inl (''CONFLICT: Failed to rehydrate governance lease for run '' @ r @ ''.''))"
proof -
  have "fst (isHeld env now r s) = map_sum id (\<lambda>v. v \<noteq> None) (fst (getActive env now r s))"
    by (auto simp: isHeld_def and_then_def split: prod.split sum.split)
  then show ?thesis
    using assms by (simp add: getActive_answer trimmed_key lease_answer_def rehydrate_failed_def coded_error_def)
qed

lemma acquire_returns:
  assumes clock: "clock_forward env" and s: "coherent env s" and acq: "acquire env now i params s = (Inr lease, s')"
  shows "coherent env s'"
    and "truth env (ls_events s') (ap_runId params) = Some \<lparr> sl_lease = lease, sl_workspaceId = ap_workspaceId params \<rparr>"
    and "store_has (ap_runId params) (ls_cache s')"
proof -
  show coh: "coherent env s'" using keepsD' [OF acquire_keeps_coherent [OF clock] s acq] .
  define stored where "stored = \<lparr> sl_lease = lease, sl_workspaceId = ap_workspaceId params \<rparr>"
  obtain occurredAt s1 ev s2 where s1: "clearExpiredAt env occurredAt s = (Inr (), s1)"
    and s2: "publishLeaseEvent env ev s1 = (Inr (), s2)" and s': "s' = s2\<lparr>ls_cache := cache_set (ap_runId params) stored (ls_cache s2)\<rparr>"
    using acq by (auto simp: acquire_def and_then_returns on_cache_apply parseNonEmptyString_def stored_def split: if_splits)
  have "coherent env s1" using keepsD' [OF keeps_clearExpiredAt s s1] .
  then have "cache_inv (ls_cache s1)" by (auto simp: coherent_def caches_def)
  moreover have "ls_cache s2 = ls_cache s1"
    by (cases rule: publishLeaseEvent_cases [of env ev s1]) (use s2 in auto)
  ultimately have hit: "map_of (vc_store (ls_cache s')) (ap_runId params) = Some stored"
    unfolding s' by (simp add: cache_set_hit)
  from coh have "caches (truth env (ls_events s')) (ls_cache s')" by (simp add: coherent_def)
  from cachesD(4) [OF this hit]
  show "truth env (ls_events s') (ap_runId params) = Some \<lparr> sl_lease = lease, sl_workspaceId = ap_workspaceId params \<rparr>"
    by (simp add: stored_def)
  from map_of_SomeD [OF hit] show "store_has (ap_runId params) (ls_cache s')" by (force simp: store_has_def)
qed

lemma logged_truth:
  assumes clock: "clock_forward env" and s: "coherent env s" and pub: "publishLeaseEvent env ev s = (Inr (), s')"
    and ev: "run_id ev = Some r" "event_type ev \<in> {LEASE_ACQUIRED, LEASE_RELEASED, LEASE_PIERCED}"
    and replays: "\<And>a u n t. applyPersistedLeaseEvent env a (complete_entry ev u n t) = Inr (g a)"
  obtains entry where "ls_events s' = ls_events s @ [entry]" "event_type entry = event_type ev" "payload_json entry = payload_json ev"
    "truth env (ls_events s') = (truth env (ls_events s))(r := g (truth env (ls_events s) r))" "ls_cache s' = ls_cache s"
proof (cases rule: publishLeaseEvent_cases [of env ev s])
  case (logged res entry s1)
  from logged(1) pub have s1: "s1 = s'" "res = Inr ()" by auto
  have "log_ok env (w_store (ls_world s))" using s by (simp add: coherent_def)
  moreover have "created_at entry = le_now (lv_log env) (draws (w_store (ls_world s)))" "lease_row r entry"
    using ev by (auto simp: logged(4) lease_row_def)
  ultimately have "truth env (ls_events s @ [entry]) = (truth env (ls_events s))(r := g (truth env (ls_events s) r))"
    by (rule log_ok_append(2) [OF clock]) (simp add: logged(4) replays)
  moreover have "ls_events s1 = ls_events s @ [entry]" using logged(3) by simp
  ultimately show thesis using that [of entry] logged(2,4) s1 by simp
qed (use pub in simp)

lemma acquire_changes_one_run:
  assumes clock: "clock_forward env" and s: "coherent env s" and acq: "acquire env now i params s = (Inr lease, s')"
  shows "ap_runId params \<noteq> []"
    and "truth env (ls_events s') =
      (truth env (ls_events s))(ap_runId params := Some \<lparr> sl_lease = lease, sl_workspaceId = ap_workspaceId params \<rparr>)"
proof -
  obtain occurredAt expiresAt h s1 payload s2 where parsed: "parseGovernanceLease env (lease_literal i (Some expiresAt) h) = Inr lease"
    and s1: "clearExpiredAt env occurredAt s = (Inr (), s1)"
    and payload: "payload = acquired_json lease (ap_runId params) occurredAt" "acquired_payload_ok (lv_zod env) payload"
    and pub: "publishLeaseEvent env (lease_event LEASE_ACQUIRED (gl_runtime_id lease) (ap_workspaceId params) (ap_runId params) payload) s1 = (Inr (), s2)"
    and s': "s' = s2\<lparr>ls_cache := cache_set (ap_runId params) \<lparr> sl_lease = lease, sl_workspaceId = ap_workspaceId params \<rparr> (ls_cache s2)\<rparr>"
    and ne: "js_trim (ap_runId params) \<noteq> []"
    using acq by (auto simp: acquire_def and_then_returns on_cache_apply parseNonEmptyString_def checked_payload_def split: if_splits)
  from parsed have lease: "lease = lease_literal i (Some expiresAt) h" "GovernanceLease_ok env (lease_literal i (Some expiresAt) h)"
    by (auto simp: parseGovernanceLease_def split: if_splits)
  have "coherent env s1" "ls_events s1 = ls_events s"
    using keepsD' [OF keeps_clearExpiredAt s s1] clearExpiredAt_world [of env occurredAt s] by (simp_all add: s1)
  moreover have "truth env (ls_events s2) = (truth env (ls_events s1))(ap_runId params := Some \<lparr> sl_lease = lease, sl_workspaceId = ap_workspaceId params \<rparr>)"
    by (rule logged_truth [OF clock \<open>coherent env s1\<close> pub, where r = "ap_runId params" and g = "\<lambda>_. Some \<lparr> sl_lease = lease, sl_workspaceId = ap_workspaceId params \<rparr>"])
      (use acquired_replays [OF lease(2), of "ap_runId params" occurredAt] payload lease(1) in auto)
  ultimately show "truth env (ls_events s') =
      (truth env (ls_events s))(ap_runId params := Some \<lparr> sl_lease = lease, sl_workspaceId = ap_workspaceId params \<rparr>)"
    using s' by simp
  have "js_trim [] = []" by code_simp
  then show "ap_runId params \<noteq> []" using ne by metis
qed

lemma release_ends:
  assumes clock: "clock_forward env" and s: "coherent env s" and rel: "release env now1 now2 r s = (Inr (), s')"
    and held: "lease_answer env now1 r s = Inr (Some l)" and l: "truth env (ls_events s) r = Some l"
  shows "truth env (ls_events s') = (truth env (ls_events s))(r := None)"
proof -
  obtain s1 where s1: "resolveStoredLease env now1 r s = (Inr (Some l), s1)"
    using resolveStoredLease_spec(3) [OF s, of now1 r] held by (metis prod.collapse)
  note R = resolveStoredLease_spec [OF s, of now1 r, unfolded s1 snd_conv]
  obtain payload s2 occurredAt where pub: "publishLeaseEvent env (lease_event LEASE_RELEASED (gl_runtime_id (sl_lease l)) (sl_workspaceId l) r payload) s1 = (Inr (), s2)"
    and payload: "payload = released_json (sl_lease l) r occurredAt" "released_payload_ok (lv_zod env) payload"
    and s': "delete_cached r s2 = (Inr (), s')"
    using rel s1 by (auto simp: release_def and_then_returns parseNonEmptyString_def checked_payload_def split: if_splits)
  have "truth env (ls_events s2) = (truth env (ls_events s1))(r := without (gl_lease_id (sl_lease l)) (truth env (ls_events s1) r))"
    by (rule logged_truth [OF clock R(1) pub, where r = r and g = "without (gl_lease_id (sl_lease l))"])
      (use payload released_replays in auto)
  moreover have "ls_events s' = ls_events s2" using s' by (auto simp: delete_cached_def on_cache_apply)
  moreover have "ls_events s1 = ls_events s" using R(2) by simp
  ultimately show ?thesis using l by (simp add: without_def)
qed

text \<open>When the log can be read, a lookup shows what the log says of the trimmed run id.\<close>

lemma getActive_reads_truth:
  assumes "coherent env s" "lv_read_error env = None" "readNow (lv_api env) (Some now) [] ''now'' = Inr ref"
  shows "fst (getActive env now q s) =
    (if js_trim q = [] then Inr None else map_sum id (map_option sl_lease) (current_lease env ref (truth env (ls_events s) (js_trim q))))"
  using assms by (simp add: getActive_answer lease_answer_def normalizeOptionalNonEmptyString_def)

text \<open>C26: a lease that was acquired is the one found until it expires, and a release that
  returns while it is held ends it; no other run's answer changes. A lookup trims the run id it is given
  and \<^verbatim>\<open>acquire\<close> and \<^verbatim>\<open>release\<close> do not, so the lease is found by the ids that trim to the id it was
  acquired under. One acquired under an id with surrounding white space is found by none, that id
  included: all answers stay what they were before.\<close>

theorem acquired_lease_is_held_until_released:
  assumes "clock_forward env" and "coherent env s" and "lv_read_error env = None"
    and "acquire env now i params s = (Inr lease, s')"
    and "readNow (lv_api env) (Some now') [] ''now'' = Inr ref" and "isExpired (lv_zod env) (gl_expires_at lease) ref = Inr False"
  shows "(\<forall>q. fst (getActive env now' q s') =
           (if js_trim q = ap_runId params then Inr (Some lease) else fst (getActive env now' q s)))
    \<and> (case release env now' now2 (ap_runId params) s' of
         (Inl _, _) \<Rightarrow> True
       | (Inr _, s'') \<Rightarrow> \<forall>q. fst (getActive env now' q s'') =
           (if js_trim q = ap_runId params then Inr None else fst (getActive env now' q s)))"
proof
  define r l where "r = ap_runId params" and "l = \<lparr> sl_lease = lease, sl_workspaceId = ap_workspaceId params \<rparr>"
  note A = acquire_returns(1) [OF assms(1,2,4)] acquire_changes_one_run [OF assms(1,2,4), folded r_def l_def]
  have current: "current_lease env ref (Some l) = Inr (Some l)"
    using assms(6) by (simp add: current_lease_def activeLeaseOrUndefined_def l_def)
  note reads = getActive_reads_truth [OF _ assms(3,5)]
  show "\<forall>q. fst (getActive env now' q s') = (if js_trim q = ap_runId params then Inr (Some lease) else fst (getActive env now' q s))"
    using A(2) current by (simp add: reads [OF A(1)] reads [OF assms(2)] A(3) r_def [symmetric] l_def)
  have held: "lease_answer env now' r s' = Inr (Some l)" using assms(3,5) A(3) current by (simp add: lease_answer_def)
  have "\<forall>q. fst (getActive env now' q s'') = (if js_trim q = r then Inr None else fst (getActive env now' q s))"
    if rel: "release env now' now2 r s' = (Inr u, s'')" for u s''
  proof -
    have rel: "release env now' now2 r s' = (Inr (), s'')" using rel by simp
    have coh: "coherent env s''" using keepsD' [OF release_keeps_coherent [OF assms(1)] A(1) rel] .
    have "truth env (ls_events s'') = (truth env (ls_events s))(r := None)"
      using release_ends [OF assms(1) A(1) rel held] A(3) by simp
    then show ?thesis using A(2) by (simp add: reads [OF coh] reads [OF assms(2)] current_lease_def)
  qed
  then show "case release env now' now2 (ap_runId params) s' of (Inl _, _) \<Rightarrow> True
      | (Inr _, s'') \<Rightarrow> \<forall>q. fst (getActive env now' q s'') =
          (if js_trim q = ap_runId params then Inr None else fst (getActive env now' q s))"
    unfolding r_def by (auto split: prod.split sum.split)
qed

text \<open>C27: A piercing that names its run with surrounding white space finds the lease, because
  the lookup trims, but is logged and evicted under the untrimmed name: the call returns, the log has a
  row that says the lease was pierced, and the lease is still held.\<close>

theorem padded_pierce_leaves_the_lease:
  assumes "clock_forward env" and "coherent env s" and "lv_read_error env = None" and "js_trim r \<noteq> r"
    and "fst (getActive env now1 r s) = Inr (Some lease)"
    and "pierce env now1 now2 r kind description ws s = (Inr (), s')"
  shows "fst (getActive env now1 (js_trim r) s') = Inr (Some lease)
    \<and> (\<exists>entry. ls_events s' = ls_events s @ [entry] \<and> event_type entry = ''soul.governance_lease.pierced''
        \<and> json_text (payload_json entry) ''lease_id'' = Some (gl_lease_id lease))"
proof -
  obtain s1 where s1: "getActive env now1 r s = (Inr (Some lease), s1)" using assms(5) by (metis prod.collapse)
  have coh1: "coherent env s1" using keepsD' [OF keeps_getActive assms(2) s1] .
  have same: "ls_events s1 = ls_events s"
  proof -
    have "ls_events (snd (getActive env now1 r s)) = ls_events s"
      using resolveStoredLease_spec(2) [OF assms(2), of now1]
      by (auto simp: getActive_def and_then_def split: option.split prod.split sum.split) (metis snd_conv)+
    then show ?thesis using s1 by simp
  qed
  obtain ev s2 t where pub: "publishLeaseEvent env ev s1 = (Inr (), s2)" and s': "delete_cached r s2 = (Inr (), s')"
    and ev: "ev = lease_event LEASE_PIERCED (gl_runtime_id lease) ws r (pierced_json lease kind r t)"
      "pierced_payload_ok (lv_zod env) (pierced_json lease kind r t)"
    using assms(6) s1
    by (auto simp: pierce_def and_then_returns parseNonEmptyString_def parseConditionKind_def checked_payload_def split: if_splits)
  obtain entry where entry: "ls_events s2 = ls_events s1 @ [entry]" "event_type entry = event_type ev" "payload_json entry = payload_json ev"
    "truth env (ls_events s2) = (truth env (ls_events s1))(r := without (gl_lease_id lease) (truth env (ls_events s1) r))"
    by (rule logged_truth [OF assms(1) coh1 pub, where r = r and g = "without (gl_lease_id lease)"])
      (use ev pierced_replays in auto)
  have s'2: "ls_events s' = ls_events s2" using s' by (auto simp: delete_cached_def on_cache_apply)
  have "coherent env s'" using keepsD' [OF pierce_keeps_coherent [OF assms(1)] assms(2,6)] .
  moreover have "truth env (ls_events s') (js_trim r) = truth env (ls_events s) (js_trim r)"
    using entry(4) s'2 same assms(4) by simp
  moreover have "js_trim r \<noteq> []" using assms(5) by (auto simp: getActive_def normalizeOptionalNonEmptyString_def)
  ultimately have "fst (getActive env now1 (js_trim r) s') = fst (getActive env now1 r s)"
    using assms(2,3) by (simp add: getActive_answer normalizeOptionalNonEmptyString_def lease_answer_def split: sum.split)
  then show ?thesis
    using assms(5) entry(1,2,3) s'2 same ev(1) by (auto simp: LEASE_PIERCED_def pierced_json_def)
qed

section \<open>A sample run\<close>

definition sample_dates :: date_api where
  "sample_dates = \<lparr> date_parse = (\<lambda>t. if t = ''2024-05-01T10:05:00.000Z'' then Some 300000 else Some 0),
     to_iso_string = (\<lambda>e. if e = 300000 then ''2024-05-01T10:05:00.000Z'' else ''2024-05-01T10:00:00.000Z'') \<rparr>"

definition sample_lease_env :: "string option \<Rightarrow> nat lease_env" where
  "sample_lease_env failure = \<lparr> lv_pub = quiet_env\<lparr>pe_notify_entry := \<lambda>_. ret ()\<rparr>, lv_api = sample_dates,
     lv_uuid_ok = (\<lambda>_. True), lv_run_lookup = (\<lambda>_. Inr (Some ''w'')), lv_read_error = failure \<rparr>"

definition no_leases :: "(nat, nat) lease_state" where
  "no_leases = \<lparr> ls_world = sample_world, ls_cache = empty_cache 1024 \<rparr>"

definition sample_params :: acquire_params where
  "sample_params = \<lparr> ap_runId = ''r'', ap_workspaceId = ''w'', ap_turnId = None, ap_expiresAt = None \<rparr>"

definition sample_lease :: governance_lease where
  "sample_lease = lease_literal ''u'' (Some ''2024-05-01T10:05:00.000Z'') ''run:r:turn:u''"

lemma sample_clock: "clock_forward (sample_lease_env failure)"
  by (simp add: clock_forward_def sample_lease_env_def quiet_env_def)

lemma sample_coherent: "coherent (sample_lease_env failure) no_leases"
  by (auto simp: coherent_def log_ok_def no_leases_def sample_world_def caches_empty truth_def replay_def
      queryGovernanceLeaseEventsByRun_def)

lemma sample_readings: "readNow (lv_api (sample_lease_env failure)) (Some ''2024-05-01T10:00:00.000Z'') [] ''now'' = Inr ''2024-05-01T10:00:00.000Z''"
  by (simp add: readNow_def ensureIsoDatetime_def sample_lease_env_def sample_dates_def iso_of_epoch_def)

lemma sample_instants: "IsoDatetimeString sample_zod ''2024-05-01T10:05:00.000Z''" "IsoDatetimeString sample_zod ''2024-05-01T10:00:00.000Z''"
  by code_simp+

lemma sample_not_expired: "isExpired (lv_zod (sample_lease_env failure)) (gl_expires_at sample_lease) ''2024-05-01T10:00:00.000Z'' = Inr False"
proof -
  have "isExpired sample_zod (Some ''2024-05-01T10:05:00.000Z'') ''2024-05-01T10:00:00.000Z'' = Inr False" by code_simp
  then show ?thesis by (simp add: sample_lease_env_def quiet_env_def sample_lease_def)
qed

lemma sample_lease_ok: "GovernanceLease_ok (sample_lease_env failure) sample_lease"
  using sample_instants
  by (simp add: GovernanceLease_ok_def sample_lease_env_def quiet_env_def sample_lease_def lease_literal_def nullable_def
      BoundedString_def HIGH_SIGNAL_PIERCING_CONDITIONS_def piercing_kinds_def)

lemma sample_payload_ok:
  "acquired_payload_ok (lv_zod (sample_lease_env failure)) (acquired_json sample_lease ''r'' ''2024-05-01T10:00:00.000Z'')"
  using sample_instants
  by (simp add: acquired_payload_ok_def sample_lease_env_def quiet_env_def sample_lease_def acquired_json_def text_ok_def
      BoundedString_def nullable_def)

lemma sample_publishes:
  assumes "length (json_stringify (JObject payload)) \<le> 500" and "ty \<in> {LEASE_ACQUIRED, LEASE_RELEASED, LEASE_PIERCED}"
    and "r \<noteq> []" "length r \<le> 256"
    and "''e'' @ js_string_of_nat (draws (w_store (ls_world s))) \<notin> event_id ` set (ls_events s)"
    and "length (js_string_of_nat (draws (w_store (ls_world s)))) \<le> 255"
  obtains s' where "publishLeaseEvent (sample_lease_env failure) (lease_event ty ''u'' ''w'' r payload) s = (Inr (), s')"
    "draws (w_store (ls_world s')) = Suc (draws (w_store (ls_world s)))"
    "event_id ` set (ls_events s') = insert (''e'' @ js_string_of_nat (draws (w_store (ls_world s)))) (event_id ` set (ls_events s))"
proof -
  define ev where "ev = lease_event ty ''u'' ''w'' r payload"
  define st where "st = w_store (ls_world s)"
  define e where "e = complete_entry ev (''e'' @ js_string_of_nat (draws st)) (computeNextRevision (events st) (entity_type ev) (entity_id ev))
    ''2024-05-01T10:00:00.000Z''"
  have "EventLogEntry_ok (lv_log (sample_lease_env failure)) e"
    using assms(1,3,4,6) sample_instants le_trans [OF assms(1), of EVENT_LOG_PAYLOAD_MAX_CHARS]
    by (cases r) (simp_all add: EventLogEntry_ok_def e_def ev_def st_def lease_event_def sample_lease_env_def quiet_env_def
        BoundedString_def nullable_def complete_entry_def EVENT_LOG_PAYLOAD_MAX_CHARS_def del: json_stringify.simps)
  then have "append_event (lv_log (sample_lease_env failure)) ev st = (Inr e, st\<lparr>draws := Suc (draws st), events := events st @ [e]\<rparr>)"
    using assms(5) by (simp add: append_event_eq append_returns e_def st_def sample_lease_env_def quiet_env_def)
  then have "publish (lv_pub (sample_lease_env failure)) ev (ls_world s) =
      (Inr e, (ls_world s)\<lparr>w_store := st\<lparr>draws := Suc (draws st), events := events st @ [e]\<rparr>\<rparr>)"
    by (simp add: publish_def and_then_def on_store_apply propagate_def sample_lease_env_def quiet_env_def on_ports_apply st_def)
  then have "publishLeaseEvent (sample_lease_env failure) ev s =
      (Inr (), s\<lparr>ls_world := (ls_world s)\<lparr>w_store := st\<lparr>draws := Suc (draws st), events := events st @ [e]\<rparr>\<rparr>\<rparr>)"
    by (simp add: publishLeaseEvent_def on_world_def)
  from that [OF this [unfolded ev_def]] show thesis by (simp add: st_def e_def)
qed

lemma sample_acquire: "\<exists>s'. acquire (sample_lease_env failure) ''2024-05-01T10:00:00.000Z'' ''u'' sample_params no_leases = (Inr sample_lease, s')
    \<and> draws (w_store (ls_world s')) = 1 \<and> event_id ` set (ls_events s') = {''e0''}"
proof -
  have trims: "js_trim ''r'' = ''r''" "js_trim ''w'' = ''w''" by code_simp+
  have expiry: "addDuration (lv_api (sample_lease_env failure)) ''2024-05-01T10:00:00.000Z'' LEASE_DURATION_MS = Inr ''2024-05-01T10:05:00.000Z''"
    "normalizeExpiresAt (lv_api (sample_lease_env failure)) ''2024-05-01T10:05:00.000Z'' = Inr ''2024-05-01T10:05:00.000Z''"
    by (simp_all add: addDuration_def normalizeExpiresAt_def readNow_def ensureIsoDatetime_def sample_lease_env_def sample_dates_def
        iso_of_epoch_def LEASE_DURATION_MS_def)
  have parsed: "parseGovernanceLease (sample_lease_env failure) (lease_literal ''u'' (Some ''2024-05-01T10:05:00.000Z'') (buildHolder ''r'' ''u'')) = Inr sample_lease"
    using sample_lease_ok by (simp add: parseGovernanceLease_def sample_lease_def buildHolder_def)
  have guard: "assertGovernanceRunWorkspace (lv_run_lookup (sample_lease_env failure)) ''r'' ''w'' = Inr ()"
    by (simp add: assertGovernanceRunWorkspace_def sample_lease_env_def)
  have cleared: "clearExpiredAt (sample_lease_env failure) t no_leases = (Inr (), no_leases)" for t
    by (simp add: clearExpiredAt_def on_cache_apply no_leases_def empty_cache_def)
  have zero: "js_string_of_nat 0 = ''0''" by code_simp
  have "length (json_stringify (JObject (acquired_json sample_lease ''r'' ''2024-05-01T10:00:00.000Z''))) \<le> 500" by code_simp
  then obtain s1 where "publishLeaseEvent (sample_lease_env failure)
      (lease_event LEASE_ACQUIRED ''u'' ''w'' ''r'' (acquired_json sample_lease ''r'' ''2024-05-01T10:00:00.000Z'')) no_leases = (Inr (), s1)"
    "draws (w_store (ls_world s1)) = 1" "event_id ` set (ls_events s1) = {''e0''}"
    by (rule sample_publishes [where s = no_leases and ty = LEASE_ACQUIRED and r = "''r''" and failure = failure])
      (simp_all add: no_leases_def sample_world_def zero)
  moreover have "gl_runtime_id sample_lease = ''u''" by (simp add: sample_lease_def)
  ultimately show ?thesis
    using sample_payload_ok [of failure]
    by (simp add: acquire_def and_then_def sample_readings parseNonEmptyString_def trims sample_params_def guard expiry parsed
        normalizeOptionalNonEmptyString_def cleared checked_payload_def on_cache_apply)
qed

theorem restart_changes_no_lease_answer_witness:
  "fst (getActive (sample_lease_env None) ''2024-05-01T10:00:00.000Z'' ''r''
      ((fold (lease_step (sample_lease_env None)) [Acquire_lease ''2024-05-01T10:00:00.000Z'' ''u'' sample_params] no_leases)
        \<lparr>ls_cache := empty_cache 1024\<rparr>)) = Inr (Some sample_lease)"
proof -
  obtain s' where s': "acquire (sample_lease_env None) ''2024-05-01T10:00:00.000Z'' ''u'' sample_params no_leases = (Inr sample_lease, s')"
    using sample_acquire by blast
  note A = acquire_returns [OF sample_clock sample_coherent s']
  have "fst (getActive (sample_lease_env None) ''2024-05-01T10:00:00.000Z'' ''r'' s') = Inr (Some sample_lease)"
  proof -
    have "normalizeOptionalNonEmptyString (Some ''r'') = Some ''r''" by code_simp
    then show ?thesis
      using A(2,3) sample_not_expired [of None]
      by (simp add: getActive_answer [OF A(1)] lease_answer_def sample_readings current_lease_def activeLeaseOrUndefined_def sample_params_def)
  qed
  then show ?thesis
    using restart_changes_no_lease_answer [OF sample_clock sample_coherent, of None "''2024-05-01T10:00:00.000Z''" "''r''"
        "[Acquire_lease ''2024-05-01T10:00:00.000Z'' ''u'' sample_params]"] s'
    by (simp add: sample_lease_env_def)
qed

lemma sample_held:
  obtains s' where "acquire (sample_lease_env failure) ''2024-05-01T10:00:00.000Z'' ''u'' sample_params no_leases = (Inr sample_lease, s')"
    "coherent (sample_lease_env failure) s'" "store_has ''r'' (ls_cache s')"
    "truth (sample_lease_env failure) (ls_events s') ''r'' = Some \<lparr> sl_lease = sample_lease, sl_workspaceId = ''w'' \<rparr>"
    "draws (w_store (ls_world s')) = 1" "event_id ` set (ls_events s') = {''e0''}"
proof -
  obtain s' where s': "acquire (sample_lease_env failure) ''2024-05-01T10:00:00.000Z'' ''u'' sample_params no_leases = (Inr sample_lease, s')"
    "draws (w_store (ls_world s')) = 1" "event_id ` set (ls_events s') = {''e0''}"
    using sample_acquire by blast
  note A = acquire_returns [OF sample_clock sample_coherent s'(1)]
  from that [OF s'(1) A(1)] A(2,3) s'(2,3) show thesis by (simp add: sample_params_def)
qed

lemma sample_current:
  "current_lease (sample_lease_env failure) ''2024-05-01T10:00:00.000Z'' (Some \<lparr> sl_lease = sample_lease, sl_workspaceId = ''w'' \<rparr>)
   = Inr (Some \<lparr> sl_lease = sample_lease, sl_workspaceId = ''w'' \<rparr>)"
  using sample_not_expired by (simp add: current_lease_def activeLeaseOrUndefined_def)

theorem held_run_is_never_reported_free_witness:
  "\<exists>s :: (nat, nat) lease_state. fst (isHeld (sample_lease_env (Some ''disk'')) ''2024-05-01T10:00:00.000Z'' ''r'' s) = Inr True
     \<and> fst (isHeld (sample_lease_env (Some ''disk'')) ''2024-05-01T10:00:00.000Z'' ''r'' (s\<lparr>ls_cache := empty_cache 1\<rparr>))
       = Inl ''CONFLICT: Failed to rehydrate governance lease for run r.''"
proof -
  define env where "env = sample_lease_env (Some ''disk'')"
  obtain s :: "(nat, nat) lease_state" where s: "coherent env s" "store_has ''r'' (ls_cache s)"
    "truth env (ls_events s) ''r'' = Some \<lparr> sl_lease = sample_lease, sl_workspaceId = ''w'' \<rparr>"
    unfolding env_def by (rule sample_held [of "Some ''disk''"])
  from s(1) have s2: "coherent env (s\<lparr>ls_cache := empty_cache 1\<rparr>)" by (simp add: coherent_def caches_empty)
  have trim: "js_trim ''r'' = ''r''" by code_simp
  note now = sample_readings [of "Some ''disk''", folded env_def] and cur = sample_current [of "Some ''disk''", folded env_def]
  have "fst (isHeld env ''2024-05-01T10:00:00.000Z'' ''r'' s) = Inr True"
    using held_run_is_never_reported_free [OF s(1) trim _ now] s(2,3) cur by simp
  moreover have "fst (isHeld env ''2024-05-01T10:00:00.000Z'' ''r'' (s\<lparr>ls_cache := empty_cache 1\<rparr>))
      = Inl ''CONFLICT: Failed to rehydrate governance lease for run r.''"
    using held_run_is_never_reported_free [OF s2 trim _ now] s(3) cur
    by (simp add: store_has_def empty_cache_def env_def sample_lease_env_def)
  ultimately show ?thesis unfolding env_def by blast
qed

theorem acquired_lease_is_held_until_released_witness:
  "\<exists>s'. acquire (sample_lease_env None) ''2024-05-01T10:00:00.000Z'' ''u'' sample_params no_leases = (Inr sample_lease, s')
     \<and> fst (getActive (sample_lease_env None) ''2024-05-01T10:00:00.000Z'' '' r '' s') = Inr (Some sample_lease)"
proof -
  obtain s' where s': "acquire (sample_lease_env None) ''2024-05-01T10:00:00.000Z'' ''u'' sample_params no_leases = (Inr sample_lease, s')"
    using sample_acquire by blast
  have trim: "js_trim '' r '' = ap_runId sample_params" by code_simp
  have "lv_read_error (sample_lease_env None) = None" by (simp add: sample_lease_env_def)
  note held = acquired_lease_is_held_until_released [OF sample_clock sample_coherent this s' sample_readings sample_not_expired,
      THEN conjunct1, THEN spec, of "'' r ''", unfolded if_P [OF trim]]
  show ?thesis by (intro exI conjI) (rule s', rule held)
qed

theorem padded_pierce_leaves_the_lease_witness:
  "\<exists>s s' :: (nat, nat) lease_state. pierce (sample_lease_env None) ''2024-05-01T10:00:00.000Z'' ''2024-05-01T10:00:00.000Z'' '' r''
       ''unsubmitted_changes'' ''d'' ''w'' s = (Inr (), s')
     \<and> fst (getActive (sample_lease_env None) ''2024-05-01T10:00:00.000Z'' ''r'' s') = Inr (Some sample_lease)"
proof -
  define env where "env = sample_lease_env None"
  define now where "now = ''2024-05-01T10:00:00.000Z''"
  note reading = sample_readings [of None, folded env_def now_def] and cur = sample_current [of None, folded env_def now_def]
  obtain s :: "(nat, nat) lease_state" where s: "coherent env s" "store_has ''r'' (ls_cache s)"
    "truth env (ls_events s) ''r'' = Some \<lparr> sl_lease = sample_lease, sl_workspaceId = ''w'' \<rparr>"
    "draws (w_store (ls_world s)) = 1" "event_id ` set (ls_events s) = {''e0''}"
    unfolding env_def by (rule sample_held [of None])
  have trims: "js_trim '' r'' = ''r''" "js_trim ''w'' = ''w''" "js_trim ''d'' = ''d''"
    "js_trim ''unsubmitted_changes'' = ''unsubmitted_changes''" "js_string_of_nat (Suc 0) = ''1''" by code_simp+
  have active: "fst (getActive env now '' r'' s) = Inr (Some sample_lease)"
    using s(2,3) cur reading by (simp add: getActive_answer [OF s(1)] normalizeOptionalNonEmptyString_def trims lease_answer_def)
  obtain s1 where s1: "getActive env now '' r'' s = (Inr (Some sample_lease), s1)" using active by (metis prod.collapse)
  have "w_store (ls_world (snd (getActive env now '' r'' s))) = w_store (ls_world s)"
    using resolveStoredLease_spec(2) [OF s(1), of now "''r''"]
    by (auto simp: getActive_def normalizeOptionalNonEmptyString_def trims and_then_def split: prod.split sum.split)
  then have st: "w_store (ls_world s1) = w_store (ls_world s)" using s1 by simp
  have len: "length (json_stringify (JObject (pierced_json sample_lease ''unsubmitted_changes'' '' r'' now))) \<le> 500"
    unfolding now_def by code_simp
  have ok: "pierced_payload_ok (lv_zod env) (pierced_json sample_lease ''unsubmitted_changes'' '' r'' now)"
    using sample_instants
    by (simp add: pierced_payload_ok_def env_def now_def sample_lease_env_def quiet_env_def pierced_json_def sample_lease_def text_ok_def
        BoundedString_def piercing_kinds_def)
  obtain s2 where "publishLeaseEvent env (lease_event LEASE_PIERCED ''u'' ''w'' '' r''
      (pierced_json sample_lease ''unsubmitted_changes'' '' r'' now)) s1 = (Inr (), s2)"
    unfolding env_def by (rule sample_publishes [OF len, of LEASE_PIERCED "'' r''" s1 None]) (auto simp: st s(4,5) trims)
  moreover have "gl_runtime_id sample_lease = ''u''" by (simp add: sample_lease_def)
  ultimately obtain s' where s': "pierce env now now '' r'' ''unsubmitted_changes'' ''d'' ''w'' s = (Inr (), s')"
    using s1 reading ok
    by (simp add: pierce_def and_then_def parseNonEmptyString_def parseConditionKind_def trims piercing_kinds_def checked_payload_def
        delete_cached_def on_cache_apply)
  have "lv_read_error env = None" by (simp add: env_def sample_lease_env_def)
  from padded_pierce_leaves_the_lease [OF sample_clock [of None, folded env_def] s(1) this _ active s'] s'
  show ?thesis unfolding env_def now_def by (auto simp: trims)
qed

end
