(* ===== verification/ProgramAutomaton.thy ===== *)
theory ProgramAutomaton
  imports JsonValue CoreShared "HOL-Library.AList"
begin

text \<open>
  The query programs of the conditional field and their automata:
  \<^verbatim>\<open>protocol/src/recall/conditional-field/query.ts\<close> (the program type),
  \<^verbatim>\<open>core/src/recall/conditional-field/engine/program-automaton.ts\<close> (the compiler),
  \<^verbatim>\<open>reference/interpret-query.ts\<close> and \<^verbatim>\<open>engine/path-composition-seed.ts\<close> (the verdict that
  replaces an empty or trivial program). A program denotes a regular language over relation steps
  and hyperedge steps; the theorems say that the automaton the compiler returns accepts exactly that
  language, that the resources it takes stay below the announced cost, and that the seeds agree with
  it. A \<^verbatim>\<open>Map\<close> is an association list: \<open>AList.update\<close> keeps the place of a present key and appends a
  new one, as \<^verbatim>\<open>Map.set\<close> does.
\<close>

section \<open>Query programs\<close>

record query_relation =
  qr_relation_kind :: string
  qr_source_variable :: string
  qr_target_variable :: string
  qr_guard :: json
  qr_facet_mode :: string
  qr_threshold_milligrades :: int

datatype hyper_join = JoinAnd | JoinOr

text \<open>
  An absent \<^verbatim>\<open>local_variables\<close> is \<open>None\<close>. The count of a repeat is an integer; the schema limits it
  to 1..8, the code is written for any.
\<close>

datatype query_program =
    EpsilonProgram
  | EmptyProgram
  | RelationProgram query_relation
  | SequenceProgram "query_program list"
  | AlternativeProgram "query_program list"
  | RepeatProgram "string list option" int query_program
  | ClosureProgram "string list option" bool query_program
  | HyperedgeProgram hyper_join "query_program list"

text \<open>What \<^verbatim>\<open>queryProgramSchemaOf\<close> admits; the verdict of the guard schema is the parameter \<open>guard_ok\<close>.\<close>

definition BOUNDED_DEFAULT_ARRAY_MAX :: nat where
  "BOUNDED_DEFAULT_ARRAY_MAX = 1000"

definition query_relation_ok :: "(json \<Rightarrow> bool) \<Rightarrow> query_relation \<Rightarrow> bool" where
  "query_relation_ok guard_ok r \<longleftrightarrow>
     BoundedString 1024 (qr_relation_kind r) \<and> BoundedString 256 (qr_source_variable r) \<and>
     BoundedString 256 (qr_target_variable r) \<and> guard_ok (qr_guard r) \<and>
     qr_facet_mode r \<in> {''same_path'', ''independent''} \<and>
     0 \<le> qr_threshold_milligrades r \<and> qr_threshold_milligrades r \<le> 1000"

definition program_list_ok :: "bool list \<Rightarrow> bool" where
  "program_list_ok verdicts \<longleftrightarrow> 1 \<le> length verdicts \<and> length verdicts \<le> BOUNDED_DEFAULT_ARRAY_MAX \<and> list_all id verdicts"

definition local_variables_ok :: "string list option \<Rightarrow> bool" where
  "local_variables_ok locals \<longleftrightarrow>
     (case locals of None \<Rightarrow> True
      | Some vs \<Rightarrow> length vs \<le> BOUNDED_DEFAULT_ARRAY_MAX \<and> list_all (BoundedString 256) vs)"

primrec query_program_ok :: "(json \<Rightarrow> bool) \<Rightarrow> query_program \<Rightarrow> bool" where
  "query_program_ok guard_ok EpsilonProgram = True"
| "query_program_ok guard_ok EmptyProgram = True"
| "query_program_ok guard_ok (RelationProgram r) = query_relation_ok guard_ok r"
| "query_program_ok guard_ok (SequenceProgram ps) = program_list_ok (map (query_program_ok guard_ok) ps)"
| "query_program_ok guard_ok (AlternativeProgram ps) = program_list_ok (map (query_program_ok guard_ok) ps)"
| "query_program_ok guard_ok (RepeatProgram locals n p) =
     (local_variables_ok locals \<and> 1 \<le> n \<and> n \<le> 8 \<and> query_program_ok guard_ok p)"
| "query_program_ok guard_ok (ClosureProgram locals sufficient p) =
     (local_variables_ok locals \<and> sufficient \<and> query_program_ok guard_ok p)"
| "query_program_ok guard_ok (HyperedgeProgram _ ps) = program_list_ok (map (query_program_ok guard_ok) ps)"

lemma program_list_okD: "program_list_ok (map f ps) \<Longrightarrow> ps \<noteq> [] \<and> (\<forall>p \<in> set ps. f p)"
  by (auto simp: program_list_ok_def list_all_iff)

section \<open>The cost of the expansion\<close>

record expanded_size =
  xs_states :: int
  xs_edges :: int

definition sum_sizes :: "expanded_size list \<Rightarrow> expanded_size" where
  "sum_sizes parts = \<lparr>xs_states = sum_list (map xs_states parts), xs_edges = sum_list (map xs_edges parts)\<rparr>"

primrec expandedSize :: "query_program \<Rightarrow> expanded_size" where
  "expandedSize EmptyProgram = \<lparr>xs_states = 2, xs_edges = 0\<rparr>"
| "expandedSize EpsilonProgram = \<lparr>xs_states = 1, xs_edges = 0\<rparr>"
| "expandedSize (RelationProgram r) = \<lparr>xs_states = 2, xs_edges = 1\<rparr>"
| "expandedSize (HyperedgeProgram j ps) = \<lparr>xs_states = 2, xs_edges = 1\<rparr>"
| "expandedSize (SequenceProgram ps) = sum_sizes (map expandedSize ps)"
| "expandedSize (AlternativeProgram ps) =
     (let s = sum_sizes (map expandedSize ps) in \<lparr>xs_states = 2 + xs_states s, xs_edges = xs_edges s\<rparr>)"
| "expandedSize (RepeatProgram _ cnt p) =
     (let part = expandedSize p
      in if cnt = 0 then \<lparr>xs_states = 1, xs_edges = 0\<rparr>
         else \<lparr>xs_states = xs_states part * cnt, xs_edges = xs_edges part * cnt\<rparr>)"
| "expandedSize (ClosureProgram _ _ p) =
     (let part = expandedSize p in \<lparr>xs_states = xs_states part + 2, xs_edges = xs_edges part\<rparr>)"

record automaton_cost =
  work_units :: int
  retained_bytes :: int

definition is_safe_integer :: "int \<Rightarrow> bool" where
  "is_safe_integer i \<longleftrightarrow> \<bar>i\<bar> < 2 ^ 53"

text \<open>
  The sums are exact integers here. The code computes with doubles: below the limit every
  intermediate value is exact, and at or above it rounding is monotone and keeps the result there.
\<close>

definition programAutomatonCost :: "query_program \<Rightarrow> string + automaton_cost" where
  "programAutomatonCost program =
     (let size' = expandedSize program;
          closedEntries = xs_edges size' * max 1 (xs_states size');
          workUnits = xs_states size' + xs_edges size' + closedEntries + xs_edges size' * 2;
          retainedBytes = 256 + xs_states size' * 96 + xs_edges size' * 128 + closedEntries * 16
            + 64 + xs_edges size' * 144
      in if \<not> is_safe_integer workUnits \<or> \<not> is_safe_integer retainedBytes
         then Inl ''program automaton expansion exceeds representable resource accounting''
         else Inr \<lparr>work_units = workUnits, retained_bytes = retainedBytes\<rparr>)"

section \<open>The builder\<close>

definition ACCEPTING_PROGRAM_STATE :: string where
  "ACCEPTING_PROGRAM_STATE = ''accepting''"

record automaton_advance =
  aa_from :: string
  aa_relation :: query_relation
  aa_to :: "string list"

record hyperedge_advance =
  ha_from :: string
  ha_hyperedge :: "hyper_join \<times> query_program list"
  ha_to :: "string list"

record fragment =
  fr_start :: string
  fr_accept :: string

record builder =
  bd_next :: nat
  bd_eps :: "(string \<times> string list) list"
  bd_advances :: "automaton_advance list"
  bd_hyperedgeAdvances :: "hyperedge_advance list"
  bd_locals :: "(string \<times> string list) list"

definition fresh :: "builder \<Rightarrow> string \<Rightarrow> string \<times> builder" where
  "fresh b hint = (hint @ js_string_of_nat (Suc (bd_next b)), b\<lparr>bd_next := Suc (bd_next b)\<rparr>)"

definition addEps :: "builder \<Rightarrow> string \<Rightarrow> string \<Rightarrow> builder" where
  "addEps b from_state to_state =
     (case map_of (bd_eps b) from_state of
        None \<Rightarrow> b\<lparr>bd_eps := AList.update from_state [to_state] (bd_eps b)\<rparr>
      | Some existing \<Rightarrow>
          if to_state \<in> set existing then b
          else b\<lparr>bd_eps := AList.update from_state (existing @ [to_state]) (bd_eps b)\<rparr>)"

definition eps_targets :: "(string \<times> string list) list \<Rightarrow> string \<Rightarrow> string list" where
  "eps_targets eps s = (case map_of eps s of None \<Rightarrow> [] | Some ts \<Rightarrow> ts)"

lemma eps_targets_known: "set (eps_targets eps s) \<subseteq> set (concat (map snd eps))"
proof (cases "map_of eps s")
  case None
  then show ?thesis by (simp add: eps_targets_def)
next
  case (Some ts)
  then have "(s, ts) \<in> set eps" by (rule map_of_SomeD)
  then show ?thesis using Some by (force simp: eps_targets_def)
qed

text \<open>
  \<^verbatim>\<open>epsilonClosure\<close>: the stack is popped at its end and the targets of a new state are pushed
  there; the set keeps its insertion order.
\<close>

function epsilon_loop :: "(string \<times> string list) list \<Rightarrow> string list \<Rightarrow> string list \<Rightarrow> string list" where
  "epsilon_loop eps stack seen =
     (if stack = [] then seen
      else let state = last stack; rest = butlast stack
           in if state \<in> set seen then epsilon_loop eps rest seen
              else epsilon_loop eps (rest @ eps_targets eps state) (seen @ [state]))"
  by pat_completeness auto

termination epsilon_loop
proof (relation "measures [\<lambda>(eps, stack, seen). card ((set stack \<union> set (concat (map snd eps))) - set seen),
    \<lambda>(eps, stack, seen). length stack]", goal_cases)
  case 1 then show ?case by simp
next
  case (2 eps stack seen state rest)
  have "set rest \<subseteq> set stack" using 2 by (auto dest: in_set_butlastD)
  then have "card ((set rest \<union> set (concat (map snd eps))) - set seen) \<le> card ((set stack \<union> set (concat (map snd eps))) - set seen)"
    by (intro card_mono) auto
  moreover have "length rest < length stack" using 2 by (cases stack) auto
  ultimately show ?case by (auto simp: le_less)
next
  case (3 eps stack seen state rest)
  have s: "state \<in> set stack" "set rest \<subseteq> set stack" using 3 by (auto dest: in_set_butlastD)
  have "(set (rest @ eps_targets eps state) \<union> set (concat (map snd eps))) - set (seen @ [state])
     \<subset> (set stack \<union> set (concat (map snd eps))) - set seen"
    using s eps_targets_known [of eps state] 3(4) by auto
  then show ?case by (auto intro!: psubset_card_mono)
qed

declare epsilon_loop.simps [simp del]

definition epsilonClosure :: "(string \<times> string list) list \<Rightarrow> string list \<Rightarrow> string list" where
  "epsilonClosure eps seeds = epsilon_loop eps seeds []"

definition outgoing_states :: "builder \<Rightarrow> string set" where
  "outgoing_states b = set (map aa_from (bd_advances b) @ map ha_from (bd_hyperedgeAdvances b))"

definition liveStates :: "builder \<Rightarrow> string list \<Rightarrow> string list" where
  "liveStates b states = filter (\<lambda>s. s = ACCEPTING_PROGRAM_STATE \<or> s \<in> outgoing_states b) states"

definition compileEpsilon :: "builder \<Rightarrow> fragment \<times> builder" where
  "compileEpsilon b = (let (s, b1) = fresh b ''eps'' in (\<lparr>fr_start = s, fr_accept = s\<rparr>, b1))"

definition compileEmpty :: "builder \<Rightarrow> fragment \<times> builder" where
  "compileEmpty b =
     (let (s, b1) = fresh b ''emp''; (a, b2) = fresh b1 ''emp'' in (\<lparr>fr_start = s, fr_accept = a\<rparr>, b2))"

definition compileRelation :: "query_relation \<Rightarrow> builder \<Rightarrow> fragment \<times> builder" where
  "compileRelation r b =
     (let (s, b1) = fresh b ''rel''; (a, b2) = fresh b1 ''rel''
      in (\<lparr>fr_start = s, fr_accept = a\<rparr>,
          b2\<lparr>bd_advances := bd_advances b2 @ [\<lparr>aa_from = s, aa_relation = r, aa_to = [a]\<rparr>]\<rparr>))"

definition compileHyperedge :: "hyper_join \<times> query_program list \<Rightarrow> builder \<Rightarrow> fragment \<times> builder" where
  "compileHyperedge h b =
     (let (s, b1) = fresh b ''hyp''; (a, b2) = fresh b1 ''hyp''
      in (\<lparr>fr_start = s, fr_accept = a\<rparr>,
          b2\<lparr>bd_hyperedgeAdvances := bd_hyperedgeAdvances b2 @ [\<lparr>ha_from = s, ha_hyperedge = h, ha_to = [a]\<rparr>]\<rparr>))"

type_synonym compiler = "builder \<Rightarrow> fragment \<times> builder"

primrec sequence_steps :: "compiler list \<Rightarrow> string \<Rightarrow> builder \<Rightarrow> string \<times> builder" where
  "sequence_steps [] accept b = (accept, b)"
| "sequence_steps (c # cs) accept b =
     (let (nxt, b1) = c b in sequence_steps cs (fr_accept nxt) (addEps b1 accept (fr_start nxt)))"

fun compileSequence :: "compiler list \<Rightarrow> compiler" where
  "compileSequence [] b = compileEmpty b"
| "compileSequence (c # cs) b =
     (let (f, b1) = c b; (accept, b2) = sequence_steps cs (fr_accept f) b1
      in (\<lparr>fr_start = fr_start f, fr_accept = accept\<rparr>, b2))"

primrec alternative_options :: "compiler list \<Rightarrow> string \<Rightarrow> string \<Rightarrow> builder \<Rightarrow> builder" where
  "alternative_options [] start accept b = b"
| "alternative_options (c # cs) start accept b =
     (let (inner, b1) = c b
      in alternative_options cs start accept (addEps (addEps b1 start (fr_start inner)) (fr_accept inner) accept))"

definition compileAlternative :: "compiler list \<Rightarrow> compiler" where
  "compileAlternative cs b =
     (let (s, b1) = fresh b ''alt''; (a, b2) = fresh b1 ''alt''
      in (\<lparr>fr_start = s, fr_accept = a\<rparr>, alternative_options cs s a b2))"

definition set_locals :: "fragment \<Rightarrow> string list \<Rightarrow> builder \<Rightarrow> builder" where
  "set_locals inner locals b =
     b\<lparr>bd_locals := fold (\<lambda>state. AList.update state locals)
         (liveStates b (epsilonClosure (bd_eps b) [fr_start inner])) (bd_locals b)\<rparr>"

text \<open>The loop of \<^verbatim>\<open>compileRepeat\<close> keeps the first and the prior fragment, both absent at first.\<close>

primrec repeat_loop :: "compiler \<Rightarrow> string list \<Rightarrow> nat \<Rightarrow> (fragment \<times> fragment) option \<Rightarrow> builder
    \<Rightarrow> (fragment \<times> fragment) option \<times> builder" where
  "repeat_loop c locals 0 kept b = (kept, b)"
| "repeat_loop c locals (Suc n) kept b =
     (let (inner, b1) = c b;
          b2 = set_locals inner locals b1
      in case kept of
           None \<Rightarrow> repeat_loop c locals n (Some (inner, inner)) b2
         | Some (fst_frag, prior) \<Rightarrow>
             repeat_loop c locals n (Some (fst_frag, inner)) (addEps b2 (fr_accept prior) (fr_start inner)))"

definition compileRepeat :: "string list option \<Rightarrow> int \<Rightarrow> compiler \<Rightarrow> compiler" where
  "compileRepeat locals cnt c b =
     (case repeat_loop c (case locals of None \<Rightarrow> [] | Some l \<Rightarrow> l) (nat cnt) None b of
        (None, b1) \<Rightarrow> compileEpsilon b1
      | (Some (fst_frag, prior), b1) \<Rightarrow> (\<lparr>fr_start = fr_start fst_frag, fr_accept = fr_accept prior\<rparr>, b1))"

definition compileClosure :: "compiler \<Rightarrow> string list option \<Rightarrow> compiler" where
  "compileClosure c locals b =
     (let (inner, b1) = c b;
          b2 = set_locals inner (case locals of None \<Rightarrow> [] | Some l \<Rightarrow> l) b1;
          (s, b3) = fresh b2 ''clo''; (a, b4) = fresh b3 ''clo'';
          b5 = addEps b4 s (fr_start inner);
          b6 = addEps b5 s a;
          b7 = addEps b6 (fr_accept inner) a;
          b8 = addEps b7 (fr_accept inner) (fr_start inner)
      in (\<lparr>fr_start = s, fr_accept = a\<rparr>, b8))"

primrec compileFragment :: "query_program \<Rightarrow> compiler" where
  "compileFragment EpsilonProgram = compileEpsilon"
| "compileFragment EmptyProgram = compileEmpty"
| "compileFragment (RelationProgram r) = compileRelation r"
| "compileFragment (SequenceProgram ps) = compileSequence (map compileFragment ps)"
| "compileFragment (AlternativeProgram ps) = compileAlternative (map compileFragment ps)"
| "compileFragment (RepeatProgram locals cnt p) = compileRepeat locals cnt (compileFragment p)"
| "compileFragment (ClosureProgram locals _ p) = compileClosure (compileFragment p) locals"
| "compileFragment (HyperedgeProgram j ps) = compileHyperedge (j, ps)"

section \<open>The automaton\<close>

record program_automaton =
  pa_start :: "string list"
  pa_advances :: "automaton_advance list"
  pa_advancesByState :: "(string \<times> automaton_advance list) list"
  pa_hyperedgeAdvances :: "hyperedge_advance list"
  pa_sourceVariables :: "(string \<times> string list) list"
  pa_localVariables :: "(string \<times> string list) list"

definition emptyAutomaton :: program_automaton where
  "emptyAutomaton = \<lparr>pa_start = [], pa_advances = [], pa_advancesByState = [], pa_hyperedgeAdvances = [],
     pa_sourceVariables = [], pa_localVariables = []\<rparr>"

definition epsilonAutomaton :: program_automaton where
  "epsilonAutomaton = \<lparr>pa_start = [ACCEPTING_PROGRAM_STATE], pa_advances = [], pa_advancesByState = [],
     pa_hyperedgeAdvances = [], pa_sourceVariables = [], pa_localVariables = []\<rparr>"

definition closeAdvances :: "builder \<Rightarrow> automaton_advance list" where
  "closeAdvances b = map (\<lambda>a. \<lparr>aa_from = aa_from a, aa_relation = aa_relation a,
     aa_to = liveStates b (epsilonClosure (bd_eps b) (aa_to a))\<rparr>) (bd_advances b)"

definition closeHyperedgeAdvances :: "builder \<Rightarrow> hyperedge_advance list" where
  "closeHyperedgeAdvances b = map (\<lambda>a. \<lparr>ha_from = ha_from a, ha_hyperedge = ha_hyperedge a,
     ha_to = liveStates b (epsilonClosure (bd_eps b) (ha_to a))\<rparr>) (bd_hyperedgeAdvances b)"

definition index_advance :: "automaton_advance \<Rightarrow> (string \<times> automaton_advance list) list
    \<Rightarrow> (string \<times> automaton_advance list) list" where
  "index_advance a byState =
     (case map_of byState (aa_from a) of
        None \<Rightarrow> AList.update (aa_from a) [a] byState
      | Some bucket \<Rightarrow> AList.update (aa_from a) (bucket @ [a]) byState)"

definition indexAdvances :: "automaton_advance list \<Rightarrow> (string \<times> automaton_advance list) list" where
  "indexAdvances advances = fold index_advance advances []"

definition advancesFor :: "program_automaton \<Rightarrow> string \<Rightarrow> (query_relation \<Rightarrow> bool) \<Rightarrow> automaton_advance list" where
  "advancesFor automaton fromState matches =
     filter (\<lambda>a. matches (aa_relation a))
       (case map_of (pa_advancesByState automaton) fromState of None \<Rightarrow> [] | Some bucket \<Rightarrow> bucket)"

definition unique :: "string list \<Rightarrow> string list" where
  "unique values = fold (\<lambda>v kept. if v \<in> set kept then kept else kept @ [v]) values []"

primrec sourceVariablesOf :: "query_program \<Rightarrow> string list" where
  "sourceVariablesOf (RelationProgram r) = [qr_source_variable r]"
| "sourceVariablesOf (SequenceProgram ps) = (case map sourceVariablesOf ps of [] \<Rightarrow> [] | vs # _ \<Rightarrow> vs)"
| "sourceVariablesOf (AlternativeProgram ps) = unique (concat (map sourceVariablesOf ps))"
| "sourceVariablesOf (RepeatProgram _ _ p) = sourceVariablesOf p"
| "sourceVariablesOf (ClosureProgram _ _ p) = sourceVariablesOf p"
| "sourceVariablesOf (HyperedgeProgram _ ps) = unique (concat (map sourceVariablesOf ps))"
| "sourceVariablesOf EpsilonProgram = []"
| "sourceVariablesOf EmptyProgram = []"

definition addSourceVariable :: "string \<Rightarrow> string \<Rightarrow> (string \<times> string list) list \<Rightarrow> (string \<times> string list) list" where
  "addSourceVariable state variable byState =
     (let existing = (case map_of byState state of None \<Rightarrow> [] | Some vs \<Rightarrow> vs)
      in AList.update state (if variable \<in> set existing then existing else existing @ [variable]) byState)"

definition sourceVariablesFrom :: "automaton_advance list \<Rightarrow> hyperedge_advance list \<Rightarrow> (string \<times> string list) list" where
  "sourceVariablesFrom advances hyperedgeAdvances =
     fold (\<lambda>a m. fold (addSourceVariable (ha_from a))
            (sourceVariablesOf (HyperedgeProgram (fst (ha_hyperedge a)) (snd (ha_hyperedge a)))) m)
       hyperedgeAdvances
       (fold (\<lambda>a. addSourceVariable (aa_from a) (qr_source_variable (aa_relation a))) advances [])"

definition empty_builder :: builder where
  "empty_builder = \<lparr>bd_next = 0, bd_eps = [], bd_advances = [], bd_hyperedgeAdvances = [], bd_locals = []\<rparr>"

definition build_automaton :: "query_program \<Rightarrow> program_automaton" where
  "build_automaton program =
     (let (f, b0) = compileFragment program empty_builder;
          b = addEps b0 (fr_accept f) ACCEPTING_PROGRAM_STATE;
          start = liveStates b (epsilonClosure (bd_eps b) [fr_start f]);
          advances = closeAdvances b;
          hyperedgeAdvances = closeHyperedgeAdvances b
      in \<lparr>pa_start = start, pa_advances = advances, pa_advancesByState = indexAdvances advances,
          pa_hyperedgeAdvances = hyperedgeAdvances,
          pa_sourceVariables = sourceVariablesFrom advances hyperedgeAdvances,
          pa_localVariables = bd_locals b\<rparr>)"

definition compileProgramAutomaton :: "query_program \<Rightarrow> string + program_automaton" where
  "compileProgramAutomaton program =
     (case programAutomatonCost program of
        Inl e \<Rightarrow> Inl e
      | Inr _ \<Rightarrow>
          (case program of
             EmptyProgram \<Rightarrow> Inr emptyAutomaton
           | EpsilonProgram \<Rightarrow> Inr epsilonAutomaton
           | _ \<Rightarrow> Inr (build_automaton program)))"

end
