(* ===== verification/AutomatonRuns.thy ===== *)
theory AutomatonRuns
  imports Main
begin

text \<open>
  Generic facts on nondeterministic automata with epsilon steps, used by the query programs: runs of
  a transition set, what one more epsilon edge adds to them, how runs of disjoint regions stay apart,
  and the regular operations on languages.
\<close>

section \<open>Languages\<close>

definition conc :: "'a list set \<Rightarrow> 'a list set \<Rightarrow> 'a list set" where
  "conc A B = {u @ v |u v. u \<in> A \<and> v \<in> B}"

primrec lang_power :: "nat \<Rightarrow> 'a list set \<Rightarrow> 'a list set" where
  "lang_power 0 A = {[]}"
| "lang_power (Suc n) A = conc A (lang_power n A)"

inductive_set star :: "'a list set \<Rightarrow> 'a list set" for A where
  star_Nil: "[] \<in> star A"
| star_step: "u \<in> A \<Longrightarrow> v \<in> star A \<Longrightarrow> u @ v \<in> star A"

lemma concI: "u \<in> A \<Longrightarrow> v \<in> B \<Longrightarrow> u @ v \<in> conc A B"
  by (auto simp: conc_def)

lemma conc_epsilon [simp]: "conc {[]} A = A" "conc A {[]} = A"
  by (auto simp: conc_def)

lemma conc_empty [simp]: "conc {} A = {}" "conc A {} = {}"
  by (auto simp: conc_def)

lemma conc_assoc: "conc (conc A B) C = conc A (conc B C)"
proof
  show "conc (conc A B) C \<subseteq> conc A (conc B C)"
    by (clarsimp simp: conc_def) blast
  show "conc A (conc B C) \<subseteq> conc (conc A B) C"
    by (clarsimp simp: conc_def) (metis append_assoc)
qed

lemma conc_empty_iff: "conc A B = {} \<longleftrightarrow> A = {} \<or> B = {}"
  by (auto simp: conc_def)

lemma star_empty [simp]: "star {} = {[]}"
  by (auto intro: star.intros elim: star.cases)

lemma star_unfold: "star A = insert [] (conc A (star A))"
  by (auto simp: conc_def intro: star.intros elim: star.cases)

lemma star_epsilon [simp]: "star {[]} = {[]}"
proof -
  have "w = []" if "w \<in> star {[]}" for w :: "'a list" using that by induction auto
  then show ?thesis by (auto intro: star.intros)
qed

section \<open>Runs\<close>

type_synonym ('q, 'a) transitions = "('q \<times> 'a option \<times> 'q) set"

inductive runs :: "('q, 'a) transitions \<Rightarrow> 'q \<Rightarrow> 'a list \<Rightarrow> 'q \<Rightarrow> bool" for \<delta> where
  stop: "runs \<delta> q [] q"
| epsilon: "(q, None, p) \<in> \<delta> \<Longrightarrow> runs \<delta> p w r \<Longrightarrow> runs \<delta> q w r"
| symbol: "(q, Some a, p) \<in> \<delta> \<Longrightarrow> runs \<delta> p w r \<Longrightarrow> runs \<delta> q (a # w) r"

definition between :: "('q, 'a) transitions \<Rightarrow> 'q \<Rightarrow> 'q \<Rightarrow> 'a list set" where
  "between \<delta> q r = {w. runs \<delta> q w r}"

definition stays_in :: "'q set \<Rightarrow> ('q, 'a) transitions \<Rightarrow> bool" where
  "stays_in A \<delta> \<longleftrightarrow> (\<forall>q l p. (q, l, p) \<in> \<delta> \<longrightarrow> q \<in> A \<and> p \<in> A)"

lemma stays_inI: "(\<And>q l p. (q, l, p) \<in> \<delta> \<Longrightarrow> q \<in> A \<and> p \<in> A) \<Longrightarrow> stays_in A \<delta>"
  unfolding stays_in_def by blast

lemma stays_in_Un [simp]: "stays_in A (D \<union> E) \<longleftrightarrow> stays_in A D \<and> stays_in A E"
  by (auto simp: stays_in_def)

lemma stays_in_insert [simp]: "stays_in A (insert (q, l, p) D) \<longleftrightarrow> q \<in> A \<and> p \<in> A \<and> stays_in A D"
  by (auto simp: stays_in_def)

lemma stays_in_empty [simp]: "stays_in A {}"
  by (simp add: stays_in_def)

lemma stays_in_mono: "stays_in A D \<Longrightarrow> A \<subseteq> B \<Longrightarrow> stays_in B D"
  by (auto simp: stays_in_def)

lemma runs_mono: "runs D q w r \<Longrightarrow> D \<subseteq> E \<Longrightarrow> runs E q w r"
  by (induction rule: runs.induct) (auto intro: runs.intros)

lemma runs_append: "runs D q u p \<Longrightarrow> runs D p v r \<Longrightarrow> runs D q (u @ v) r"
  by (induction rule: runs.induct) (auto intro: runs.intros)

lemma runs_star: "v \<in> star (between D q q) \<Longrightarrow> runs D q v q"
  by (induction rule: star.induct) (auto simp: between_def intro: runs.intros runs_append)

lemma runs_region:
  assumes "stays_in A D" "stays_in B E" "A \<inter> B = {}"
  shows "runs (D \<union> E) q w r \<Longrightarrow> q \<in> A \<Longrightarrow> runs D q w r \<and> r \<in> A"
proof (induction rule: runs.induct)
  case (epsilon q p w r)
  then have "(q, None, p) \<in> D" using assms by (auto simp: stays_in_def)
  then show ?case using epsilon assms(1) by (auto simp: stays_in_def intro: runs.epsilon)
next
  case (symbol q a p w r)
  then have "(q, Some a, p) \<in> D" using assms by (auto simp: stays_in_def)
  then show ?case using symbol assms(1) by (auto simp: stays_in_def intro: runs.symbol)
qed (auto intro: runs.stop)

lemma between_left:
  assumes "stays_in A D" "stays_in B E" "A \<inter> B = {}" "q \<in> A"
  shows "between (D \<union> E) q r = between D q r"
  using runs_region [OF assms(1-3)] assms(4) runs_mono [of D q _ r "D \<union> E"] by (auto simp: between_def)

lemma between_right:
  assumes "stays_in A D" "stays_in B E" "A \<inter> B = {}" "q \<in> B"
  shows "between (D \<union> E) q r = between E q r"
  using between_left [of B E A D q r] assms by (auto simp: Un_commute Int_commute)

lemma between_outside:
  assumes "stays_in A D" "q \<in> A" "r \<notin> A"
  shows "between D q r = {}"
  using runs_region [of A D "{}" "{}" q _ r] assms by (auto simp: between_def)

text \<open>One more epsilon edge \<open>a \<rightarrow> s\<close>: a run uses it not at all, or for the first and for the last time.\<close>

lemma runs_insert_cases:
  "runs (insert (a, None, s) D) q w r \<Longrightarrow>
     runs D q w r \<or> (\<exists>u v x. w = u @ v @ x \<and> runs D q u a \<and> v \<in> star (between D s a) \<and> runs D s x r)"
proof (induction rule: runs.induct)
  case (stop q) then show ?case by (auto intro: runs.stop)
next
  case (epsilon q p w r)
  show ?case
  proof (cases "(q, None, p) \<in> D")
    case True
    with epsilon.IH show ?thesis by (metis runs.epsilon)
  next
    case False
    with epsilon.hyps have e: "q = a" "p = s" by auto
    have at_a: "runs D q [] a" using e by (auto intro: runs.stop)
    from epsilon.IH show ?thesis
    proof
      assume "runs D p w r"
      then show ?thesis using e at_a star_Nil [of "between D s a"] by (metis append_Nil)
    next
      assume "\<exists>u v x. w = u @ v @ x \<and> runs D p u a \<and> v \<in> star (between D s a) \<and> runs D s x r"
      then obtain u v x where w: "w = u @ v @ x" "runs D s u a" "v \<in> star (between D s a)" "runs D s x r"
        using e by auto
      have "u @ v \<in> star (between D s a)" using w by (auto simp: between_def intro: star_step)
      then show ?thesis using w at_a by (metis append_Nil append_assoc)
    qed
  qed
next
  case (symbol q l p w r)
  then have "(q, Some l, p) \<in> D" by auto
  with symbol.IH show ?case by (metis runs.symbol append_Cons)
qed

lemma between_insert:
  "between (insert (a, None, s) D) q r =
     between D q r \<union> conc (between D q a) (conc (star (between D s a)) (between D s r))"
    (is "?L = ?R")
proof
  show "?L \<subseteq> ?R" using runs_insert_cases [of a s D q _ r] by (force simp: between_def conc_def)
next
  let ?E = "insert (a, None, s) D"
  have sub: "D \<subseteq> ?E" by auto
  have loop: "runs ?E s v s" if "v \<in> star (between D s a)" for v
    using that
  proof induction
    case (star_step u v)
    then have "runs ?E s u a" by (auto simp: between_def intro: runs_mono [OF _ sub])
    then have "runs ?E s (u @ []) s" by (rule runs_append) (auto intro: runs.intros)
    then show ?case using star_step.IH by (auto intro: runs_append)
  qed (rule runs.stop)
  have "runs ?E q (u @ v @ x) r" if "runs D q u a" "v \<in> star (between D s a)" "runs D s x r" for u v x
  proof -
    have "runs ?E a (v @ x) r" using loop [OF that(2)] runs_mono [OF that(3) sub]
      by (meson insertI1 runs.epsilon runs_append)
    then show ?thesis using runs_mono [OF that(1) sub] by (rule runs_append [rotated])
  qed
  then show "?R \<subseteq> ?L" by (auto simp: between_def conc_def intro: runs_mono [OF _ sub])
qed

text \<open>Dead ends: a state nothing leaves, a state nothing enters.\<close>

lemma between_from_sink: "(\<And>l p. (q, l, p) \<notin> D) \<Longrightarrow> between D q r = (if q = r then {[]} else {})"
  by (auto simp: between_def intro: runs.stop elim: runs.cases)

lemma runs_into: "runs D q w r \<Longrightarrow> (\<And>p l. (p, l, r) \<notin> D) \<Longrightarrow> w = [] \<and> q = r"
  by (induction rule: runs.induct) auto

lemma between_into_start: "(\<And>p l. (p, l, r) \<notin> D) \<Longrightarrow> between D q r = (if q = r then {[]} else {})"
  by (auto simp: between_def intro: runs.stop dest: runs_into)

section \<open>Putting fragments together\<close>

text \<open>Two fragments in disjoint regions joined by one edge from the first accept to the second start.\<close>

lemma between_joined:
  assumes "stays_in A D" "stays_in B E" "A \<inter> B = {}" "s \<in> A" "a \<in> A" "t \<in> B" "b \<in> B"
  shows "between (insert (a, None, t) (D \<union> E)) s b = conc (between D s a) (between E t b)"
proof -
  have 1: "between (D \<union> E) s b = {}" using assms between_outside [of A D s b] by (auto simp: between_left)
  have 2: "between (D \<union> E) t a = {}" using assms between_outside [of B E t a] by (auto simp: between_right)
  show ?thesis using assms by (simp add: between_insert 1 2 between_left between_right)
qed

text \<open>A fragment \<open>(t, b)\<close> hung as one more choice between an entry \<open>s\<close> and an exit \<open>a\<close>.\<close>

lemma between_choice:
  assumes D: "stays_in A D" and E: "stays_in B E" and dis: "A \<inter> B = {}"
    and mem: "s \<in> A" "a \<in> A" "t \<in> B" "b \<in> B"
    and differ: "s \<noteq> a" and into: "\<And>p l. (p, l, s) \<notin> D" and out_of: "\<And>l p. (a, l, p) \<notin> D"
  shows "between (insert (b, None, a) (insert (s, None, t) (D \<union> E))) s a = between D s a \<union> between E t b"
proof -
  have ne: "b \<noteq> s" "b \<noteq> a" "t \<noteq> s" "t \<noteq> a" using dis mem by auto
  have ts: "between (D \<union> E) t s = {}" "between (D \<union> E) t a = {}"
    using between_right [OF D E dis mem(3)] between_outside [OF E mem(3)] dis mem by auto
  have sb: "between (D \<union> E) s b = {}" using assms between_outside [of A D s b] by (auto simp: between_left)
  have ss: "between (D \<union> E) s s = {[]}"
    using assms between_into_start [of s D s] by (simp add: between_left)
  have aa: "between (D \<union> E) a p = (if a = p then {[]} else {})" for p
    using between_from_sink [of a D p] out_of assms by (simp add: between_left)
  have sa: "between (D \<union> E) s a = between D s a" using assms by (simp add: between_left)
  have tb: "between (D \<union> E) t b = between E t b" using assms by (simp add: between_right)
  let ?D1 = "insert (s, None, t) (D \<union> E)"
  have d1_sa: "between ?D1 s a = between D s a" and d1_sb: "between ?D1 s b = between E t b"
    by (simp_all add: between_insert ts sb ss sa tb)
  have d1_ab: "between ?D1 a b = {}" and d1_aa: "between ?D1 a a = {[]}"
    using ne differ dis mem by (auto simp: between_insert ts aa)
  show ?thesis by (simp add: between_insert [of b a] d1_sa d1_sb d1_ab d1_aa)
qed

text \<open>An edge from the accept of a fragment back to its start: one or more rounds.\<close>

lemma between_repeated: "between (insert (a, None, s) D) s a = conc (between D s a) (star (between D s a))"
proof -
  let ?L = "between D s a"
  have unfold: "star ?L = insert [] (conc ?L (star ?L))" by (rule star_unfold)
  have comm: "conc (star ?L) ?L = conc ?L (star ?L)"
  proof -
    have "w \<in> conc ?L (star ?L)" if "v \<in> star ?L" "x \<in> ?L" "w = v @ x" for v x w
      using that
    proof (induction arbitrary: w)
      case star_Nil then show ?case by (auto simp: conc_def) (metis append_Nil2 star.star_Nil)
    next
      case (star_step u v)
      from star_step.IH [OF star_step.prems(1) refl] obtain y z where "v @ x = y @ z" "y \<in> ?L" "z \<in> star ?L"
        by (auto simp: conc_def)
      then show ?case using star_step.hyps star_step.prems by (auto simp: conc_def intro: star.star_step)
    qed
    moreover have "w \<in> conc (star ?L) ?L" if "v \<in> star ?L" "x \<in> ?L" "w = x @ v" for v x w
      using that
    proof (induction arbitrary: x w)
      case star_Nil then show ?case by (auto simp: conc_def) (metis append_Nil star.star_Nil)
    next
      case (star_step u v)
      from star_step.IH [OF star_step.hyps(1) refl] obtain y z where "u @ v = y @ z" "y \<in> star ?L" "z \<in> ?L"
        by (auto simp: conc_def)
      then show ?case using star_step.prems by (auto simp: conc_def) (metis append_assoc star.star_step)
    qed
    ultimately show ?thesis by (auto simp: conc_def)
  qed
  have "conc ?L (conc (star ?L) ?L) \<subseteq> conc ?L (star ?L)"
    unfolding comm by (subst (2) unfold) (auto simp: conc_def)
  moreover have "?L \<subseteq> conc ?L (star ?L)" using unfold by (auto simp: conc_def)
  moreover have "w \<in> ?L \<union> conc ?L (conc (star ?L) ?L)" if "w \<in> conc ?L (star ?L)" for w
    using that unfolding comm by (subst (asm) unfold) (auto simp: conc_def)
  ultimately show ?thesis by (auto simp: between_insert)
qed

end
