(* ===== verification/ProgramLanguage.thy ===== *)
theory ProgramLanguage
  imports ProgramAutomaton AutomatonRuns
begin

text \<open>
  What a query program means and that its automaton means the same. \<open>program_lang\<close> is the regular
  language of a program over relation and hyperedge steps; \<open>builds\<close> is the contract of one compile
  function (the transitions it adds stay in the region of fresh states, and the runs from its start to
  its accept spell the language); closing the advances under epsilon keeps the language.
\<close>

section \<open>The language of a program\<close>

datatype step_symbol = RelationStep query_relation | HyperedgeStep "hyper_join \<times> query_program list"

type_synonym program_language = "step_symbol list set"

fun sequence_lang :: "program_language list \<Rightarrow> program_language" where
  "sequence_lang [] = {}"
| "sequence_lang [L] = L"
| "sequence_lang (L # Ls) = conc L (sequence_lang Ls)"

primrec program_lang :: "query_program \<Rightarrow> program_language" where
  "program_lang EpsilonProgram = {[]}"
| "program_lang EmptyProgram = {}"
| "program_lang (RelationProgram r) = {[RelationStep r]}"
| "program_lang (HyperedgeProgram j ps) = {[HyperedgeStep (j, ps)]}"
| "program_lang (SequenceProgram ps) = sequence_lang (map program_lang ps)"
| "program_lang (AlternativeProgram ps) = \<Union> (set (map program_lang ps))"
| "program_lang (RepeatProgram _ n p) = lang_power (nat n) (program_lang p)"
| "program_lang (ClosureProgram _ _ p) = star (program_lang p)"

lemma sequence_lang_foldr: "Ls \<noteq> [] \<Longrightarrow> sequence_lang Ls = foldr conc Ls {[]}"
  by (induction Ls rule: sequence_lang.induct) auto

section \<open>States and transitions of a builder\<close>

definition hints :: "string set" where
  "hints = {''eps'', ''emp'', ''rel'', ''alt'', ''hyp'', ''clo''}"

definition region :: "nat \<Rightarrow> nat \<Rightarrow> string set" where
  "region lo hi = {h @ js_string_of_nat n |h n. h \<in> hints \<and> lo < n \<and> n \<le> hi}"

lemma hint_length: "h \<in> hints \<Longrightarrow> length h = 3"
  by (auto simp: hints_def)

lemma state_name_inject:
  "h \<in> hints \<Longrightarrow> g \<in> hints \<Longrightarrow> h @ js_string_of_nat m = g @ js_string_of_nat n \<Longrightarrow> m = n"
  using hint_length [of h] hint_length [of g] by (simp add: js_string_of_nat_inject)

lemma region_disjoint: "hi \<le> lo' \<Longrightarrow> region lo hi \<inter> region lo' hi' = {}"
proof -
  have False if "hi \<le> lo'" "h \<in> hints" "g \<in> hints" "h @ js_string_of_nat m = g @ js_string_of_nat n" "m \<le> hi" "lo' < n"
    for h g m n
    using state_name_inject [OF that(2-4)] that by simp
  then show "hi \<le> lo' \<Longrightarrow> region lo hi \<inter> region lo' hi' = {}" unfolding region_def by blast
qed

lemma region_mono: "lo' \<le> lo \<Longrightarrow> hi \<le> hi' \<Longrightarrow> region lo hi \<subseteq> region lo' hi'"
  by (force simp: region_def)

lemma accepting_not_in_region: "ACCEPTING_PROGRAM_STATE \<notin> region lo hi"
proof
  assume "ACCEPTING_PROGRAM_STATE \<in> region lo hi"
  then obtain h n where "h \<in> hints" "''accepting'' = h @ js_string_of_nat n"
    by (auto simp: region_def ACCEPTING_PROGRAM_STATE_def)
  then show False by (auto simp: hints_def)
qed

definition relation_edges :: "automaton_advance list \<Rightarrow> (string, step_symbol) transitions" where
  "relation_edges as = (\<Union>a \<in> set as. (\<lambda>t. (aa_from a, Some (RelationStep (aa_relation a)), t)) ` set (aa_to a))"

definition hyperedge_edges :: "hyperedge_advance list \<Rightarrow> (string, step_symbol) transitions" where
  "hyperedge_edges as = (\<Union>a \<in> set as. (\<lambda>t. (ha_from a, Some (HyperedgeStep (ha_hyperedge a)), t)) ` set (ha_to a))"

definition transitions_of :: "builder \<Rightarrow> (string, step_symbol) transitions" where
  "transitions_of b = {(s, None, t) |s t. t \<in> set (eps_targets (bd_eps b) s)} \<union>
     relation_edges (bd_advances b) \<union> hyperedge_edges (bd_hyperedgeAdvances b)"

lemma eps_targets_update: "eps_targets (AList.update k ts eps) s = (if s = k then ts else eps_targets eps s)"
  by (simp add: eps_targets_def update_conv')

lemma addEps_eps: "set (eps_targets (bd_eps (addEps b s t)) p) = set (eps_targets (bd_eps b) p) \<union> (if p = s then {t} else {})"
  by (auto simp: addEps_def eps_targets_update split: option.splits) (auto simp: eps_targets_def split: option.splits)

lemma addEps_fields [simp]:
  "bd_next (addEps b s t) = bd_next b" "bd_advances (addEps b s t) = bd_advances b"
  "bd_hyperedgeAdvances (addEps b s t) = bd_hyperedgeAdvances b" "bd_locals (addEps b s t) = bd_locals b"
  by (auto simp: addEps_def split: option.splits)

lemma transitions_addEps [simp]: "transitions_of (addEps b s t) = insert (s, None, t) (transitions_of b)"
  by (auto simp: transitions_of_def addEps_eps split: if_splits)

lemma transitions_push_relation:
  "transitions_of (b\<lparr>bd_advances := bd_advances b @ [\<lparr>aa_from = s, aa_relation = r, aa_to = [t]\<rparr>]\<rparr>) =
     insert (s, Some (RelationStep r), t) (transitions_of b)"
  by (auto simp: transitions_of_def relation_edges_def)

lemma transitions_push_hyperedge:
  "transitions_of (b\<lparr>bd_hyperedgeAdvances := bd_hyperedgeAdvances b @ [\<lparr>ha_from = s, ha_hyperedge = h, ha_to = [t]\<rparr>]\<rparr>) =
     insert (s, Some (HyperedgeStep h), t) (transitions_of b)"
  by (auto simp: transitions_of_def hyperedge_edges_def)

lemma set_locals_fields [simp]:
  "bd_next (set_locals f l b) = bd_next b" "bd_advances (set_locals f l b) = bd_advances b"
  "bd_hyperedgeAdvances (set_locals f l b) = bd_hyperedgeAdvances b" "bd_eps (set_locals f l b) = bd_eps b"
  "transitions_of (set_locals f l b) = transitions_of b"
  by (simp_all add: set_locals_def transitions_of_def)

lemma fresh_state:
  assumes "fresh b h = (s, b')" "h \<in> hints"
  shows "bd_next b' = Suc (bd_next b)" "transitions_of b' = transitions_of b"
    "s \<in> region (bd_next b) (bd_next b')" "bd_advances b' = bd_advances b"
    "bd_hyperedgeAdvances b' = bd_hyperedgeAdvances b" "bd_eps b' = bd_eps b"
  using assms by (auto simp: fresh_def transitions_of_def) (auto simp: region_def)

lemma fresh_twice:
  assumes "fresh b h = (s, b1)" "fresh b1 g = (a, b2)" "h \<in> hints" "g \<in> hints"
  shows "s \<noteq> a" "s \<in> region (bd_next b) (bd_next b2)" "a \<in> region (bd_next b) (bd_next b2)"
    "bd_next b2 = Suc (Suc (bd_next b))" "transitions_of b2 = transitions_of b"
proof -
  note f = fresh_state [OF assms(1,3)] and g = fresh_state [OF assms(2,4)]
  show "s \<noteq> a" using f(3) g(3) region_disjoint [of "bd_next b1" "bd_next b1" "bd_next b" "bd_next b2"] by auto
  show "s \<in> region (bd_next b) (bd_next b2)" "a \<in> region (bd_next b) (bd_next b2)"
    using f g region_mono [of "bd_next b" "bd_next b" "bd_next b1" "bd_next b2"]
      region_mono [of "bd_next b" "bd_next b1" "bd_next b2" "bd_next b2"] by auto
qed (use fresh_state [OF assms(1,3)] fresh_state [OF assms(2,4)] in auto)

section \<open>The contract of a compile function\<close>

definition spells :: "string set \<Rightarrow> (string, step_symbol) transitions \<Rightarrow> fragment \<Rightarrow> program_language \<Rightarrow> bool" where
  "spells A D f L \<longleftrightarrow> stays_in A D \<and> fr_start f \<in> A \<and> fr_accept f \<in> A \<and> between D (fr_start f) (fr_accept f) = L"

definition builds :: "builder \<Rightarrow> fragment \<Rightarrow> builder \<Rightarrow> program_language \<Rightarrow> bool" where
  "builds b f b' L \<longleftrightarrow> bd_next b \<le> bd_next b' \<and>
     (\<exists>D. transitions_of b' = transitions_of b \<union> D \<and> spells (region (bd_next b) (bd_next b')) D f L)"

definition compiles :: "compiler \<Rightarrow> program_language \<Rightarrow> bool" where
  "compiles c L \<longleftrightarrow> (\<forall>b f b'. c b = (f, b') \<longrightarrow> builds b f b' L)"

lemma compilesD: "compiles c L \<Longrightarrow> c b = (f, b') \<Longrightarrow> builds b f b' L"
  by (auto simp: compiles_def)

lemma builds_next: "builds b f b' L \<Longrightarrow> bd_next b \<le> bd_next b'"
  by (simp add: builds_def)

lemma spells_mono: "spells A D f L \<Longrightarrow> A \<subseteq> B \<Longrightarrow> spells B D f L"
  by (auto simp: spells_def intro: stays_in_mono)

lemma compiles_epsilon: "compiles compileEpsilon {[]}"
  unfolding compiles_def
proof (intro allI impI)
  fix b f b' assume c: "compileEpsilon b = (f, b')"
  obtain s b1 where fr: "fresh b ''eps'' = (s, b1)" by fastforce
  have e: "f = \<lparr>fr_start = s, fr_accept = s\<rparr>" "b' = b1" using c fr by (simp_all add: compileEpsilon_def)
  note st = fresh_state [OF fr]
  have "spells (region (bd_next b) (bd_next b1)) {} f {[]}"
    using e st by (auto simp: spells_def hints_def between_from_sink)
  then show "builds b f b' {[]}" using st e by (auto simp: builds_def hints_def intro!: exI [of _ "{}"])
qed

lemma compiles_empty: "compiles compileEmpty {}"
  unfolding compiles_def
proof (intro allI impI)
  fix b f b' assume c: "compileEmpty b = (f, b')"
  obtain s b1 a b2 where fr: "fresh b ''emp'' = (s, b1)" "fresh b1 ''emp'' = (a, b2)" by fastforce
  have e: "f = \<lparr>fr_start = s, fr_accept = a\<rparr>" "b' = b2" using c fr by (simp_all add: compileEmpty_def)
  note st = fresh_twice [OF fr]
  have "spells (region (bd_next b) (bd_next b2)) {} f {}"
    using e st by (auto simp: spells_def hints_def between_from_sink)
  then show "builds b f b' {}" using st e by (auto simp: builds_def hints_def intro!: exI [of _ "{}"])
qed

text \<open>A relation and a hyperedge are the same construction: one symbol between two fresh states.\<close>

lemma builds_symbol:
  assumes fr: "fresh b h = (s, b1)" "fresh b1 h = (a, b2)" and h: "h \<in> hints"
    and b': "bd_next b' = bd_next b2" "transitions_of b' = insert (s, Some x, a) (transitions_of b2)"
  shows "builds b \<lparr>fr_start = s, fr_accept = a\<rparr> b' {[x]}"
proof -
  note st = fresh_twice [OF fr h h]
  have sink: "between {(s, Some x, a)} a r = (if a = r then {[]} else {})" for r
    using st by (intro between_from_sink) auto
  have "between {(s, Some x, a)} s a = {[x]}"
  proof -
    have "w = [x]" if "runs {(s, Some x, a)} s w a" for w
      using that
    proof cases
      case (symbol l p v)
      then have "v \<in> between {(s, Some x, a)} a a" by (auto simp: between_def)
      then show ?thesis using symbol by (simp add: sink)
    qed (use st in auto)
    then show ?thesis by (auto simp: between_def intro: runs.intros)
  qed
  then have "spells (region (bd_next b) (bd_next b')) {(s, Some x, a)} \<lparr>fr_start = s, fr_accept = a\<rparr> {[x]}"
    using st b' by (auto simp: spells_def)
  then show ?thesis using st b' by (auto simp: builds_def intro!: exI [of _ "{(s, Some x, a)}"])
qed

lemma compiles_relation: "compiles (compileRelation r) {[RelationStep r]}"
  unfolding compiles_def
proof (intro allI impI)
  fix b f b' assume c: "compileRelation r b = (f, b')"
  obtain s b1 a b2 where fr: "fresh b ''rel'' = (s, b1)" "fresh b1 ''rel'' = (a, b2)" by fastforce
  show "builds b f b' {[RelationStep r]}"
    using c fr builds_symbol [OF fr, of b' "RelationStep r"]
    by (auto simp: compileRelation_def hints_def transitions_push_relation)
qed

lemma compiles_hyperedge: "compiles (compileHyperedge h) {[HyperedgeStep h]}"
  unfolding compiles_def
proof (intro allI impI)
  fix b f b' assume c: "compileHyperedge h b = (f, b')"
  obtain s b1 a b2 where fr: "fresh b ''hyp'' = (s, b1)" "fresh b1 ''hyp'' = (a, b2)" by fastforce
  show "builds b f b' {[HyperedgeStep h]}"
    using c fr builds_symbol [OF fr, of b' "HyperedgeStep h"]
    by (auto simp: compileHyperedge_def hints_def transitions_push_hyperedge)
qed

section \<open>Composite programs\<close>

lemma builds_set_locals [simp]: "builds b f (set_locals g l b') L = builds b f b' L"
  by (simp add: builds_def)

lemma builds_join:
  assumes 1: "builds b f b1 L" and 2: "builds b1 g b2 M"
  shows "builds b \<lparr>fr_start = fr_start f, fr_accept = fr_accept g\<rparr> (addEps b2 (fr_accept f) (fr_start g)) (conc L M)"
proof -
  let ?A = "region (bd_next b) (bd_next b1)" and ?B = "region (bd_next b1) (bd_next b2)"
  let ?C = "region (bd_next b) (bd_next b2)"
  obtain D where D: "transitions_of b1 = transitions_of b \<union> D" "spells ?A D f L"
    using 1 by (auto simp: builds_def)
  obtain E where E: "transitions_of b2 = transitions_of b1 \<union> E" "spells ?B E g M"
    using 2 by (auto simp: builds_def)
  let ?F = "insert (fr_accept f, None, fr_start g) (D \<union> E)"
  have sub: "?A \<subseteq> ?C" "?B \<subseteq> ?C" using builds_next [OF 1] builds_next [OF 2] by (simp_all add: region_mono)
  have "between ?F (fr_start f) (fr_accept g) = conc L M"
    using between_joined [of ?A D ?B E "fr_start f" "fr_accept f" "fr_start g" "fr_accept g"] D(2) E(2) region_disjoint [of "bd_next b1" "bd_next b1"]
    by (simp add: spells_def)
  moreover have "stays_in ?C ?F"
    using spells_mono [OF D(2) sub(1)] spells_mono [OF E(2) sub(2)] by (simp add: spells_def)
  ultimately have "spells ?C ?F \<lparr>fr_start = fr_start f, fr_accept = fr_accept g\<rparr> (conc L M)"
    using D(2) E(2) sub by (auto simp: spells_def)
  then show ?thesis
    using D(1) E(1) builds_next [OF 1] builds_next [OF 2] by (auto simp: builds_def intro!: exI [of _ ?F])
qed

lemma sequence_steps_builds:
  "list_all2 compiles cs Ls \<Longrightarrow> builds b f b1 L \<Longrightarrow> sequence_steps cs (fr_accept f) b1 = (a, b2) \<Longrightarrow>
     builds b \<lparr>fr_start = fr_start f, fr_accept = a\<rparr> b2 (conc L (foldr conc Ls {[]}))"
proof (induction cs arbitrary: Ls f b1 L)
  case Nil then show ?case by (simp add: builds_def spells_def)
next
  case (Cons c cs)
  from Cons.prems(1) obtain M Ms where Ls: "Ls = M # Ms" "compiles c M" "list_all2 compiles cs Ms"
    by (auto simp: list_all2_Cons1)
  obtain g b3 where g: "c b1 = (g, b3)" by fastforce
  let ?j = "\<lparr>fr_start = fr_start f, fr_accept = fr_accept g\<rparr>"
  have j: "builds b ?j (addEps b3 (fr_accept f) (fr_start g)) (conc L M)"
    using builds_join [OF Cons.prems(2) compilesD [OF Ls(2) g]] .
  have "sequence_steps cs (fr_accept ?j) (addEps b3 (fr_accept f) (fr_start g)) = (a, b2)"
    using Cons.prems(3) g by simp
  from Cons.IH [OF Ls(3) j this] show ?case using Ls(1) by (simp add: conc_assoc)
qed

lemma compiles_sequence:
  assumes "list_all2 compiles cs Ls"
  shows "compiles (compileSequence cs) (sequence_lang Ls)"
proof (cases cs)
  case Nil
  then have "compileSequence cs = compileEmpty" by (auto simp: fun_eq_iff)
  then show ?thesis using assms Nil compiles_empty by simp
next
  case (Cons c ds)
  obtain M Ms where Ls: "Ls = M # Ms" "compiles c M" "list_all2 compiles ds Ms"
    using assms Cons by (auto simp: list_all2_Cons1)
  show ?thesis
    unfolding compiles_def
  proof (intro allI impI)
    fix b f b' assume "compileSequence cs b = (f, b')"
    then obtain g b1 a where g: "c b = (g, b1)" "sequence_steps ds (fr_accept g) b1 = (a, b')"
      "f = \<lparr>fr_start = fr_start g, fr_accept = a\<rparr>"
      using Cons by (auto split: prod.splits)
    have "builds b f b' (conc M (foldr conc Ms {[]}))"
      using sequence_steps_builds [OF Ls(3) compilesD [OF Ls(2) g(1)] g(2)] g(3) by simp
    then show "builds b f b' (sequence_lang Ls)" using Ls(1) sequence_lang_foldr [of Ls] by simp
  qed
qed

text \<open>The state of the loop over alternatives: \<open>s\<close> has no incoming edge, \<open>a\<close> no outgoing one.\<close>

definition offers :: "nat \<Rightarrow> (string, step_symbol) transitions \<Rightarrow> builder \<Rightarrow> string \<Rightarrow> string \<Rightarrow> program_language \<Rightarrow> bool" where
  "offers lo T b s a L \<longleftrightarrow> lo \<le> bd_next b \<and> s \<noteq> a \<and>
     (\<exists>D. transitions_of b = T \<union> D \<and> spells (region lo (bd_next b)) D \<lparr>fr_start = s, fr_accept = a\<rparr> L \<and>
        (\<forall>p l. (p, l, s) \<notin> D) \<and> (\<forall>l p. (a, l, p) \<notin> D))"

lemma offers_option:
  assumes "offers lo T b s a L" and bu: "builds b f b1 M"
  shows "offers lo T (addEps (addEps b1 s (fr_start f)) (fr_accept f) a) s a (L \<union> M)"
proof -
  let ?A = "region lo (bd_next b)" and ?B = "region (bd_next b) (bd_next b1)" and ?C = "region lo (bd_next b1)"
  obtain D where D: "transitions_of b = T \<union> D" "spells ?A D \<lparr>fr_start = s, fr_accept = a\<rparr> L" "lo \<le> bd_next b" "s \<noteq> a"
    "\<And>p l. (p, l, s) \<notin> D" "\<And>l p. (a, l, p) \<notin> D"
    using assms(1) by (auto simp: offers_def)
  obtain E where E: "transitions_of b1 = transitions_of b \<union> E" "spells ?B E f M"
    using bu by (auto simp: builds_def)
  let ?F = "insert (fr_accept f, None, a) (insert (s, None, fr_start f) (D \<union> E))"
  have sub: "?A \<subseteq> ?C" "?B \<subseteq> ?C" using builds_next [OF bu] D(3) by (simp_all add: region_mono)
  have dis: "?A \<inter> ?B = {}" by (rule region_disjoint) simp
  have "between ?F s a = L \<union> M"
    using between_choice [of ?A D ?B E s a "fr_start f" "fr_accept f"] D E(2) dis by (simp add: spells_def)
  moreover have "stays_in ?C ?F"
    using spells_mono [OF D(2) sub(1)] spells_mono [OF E(2) sub(2)] by (simp add: spells_def)
  ultimately have "spells ?C ?F \<lparr>fr_start = s, fr_accept = a\<rparr> (L \<union> M)"
    using D(2) E(2) sub by (auto simp: spells_def)
  moreover have "(p, l, s) \<notin> ?F" "(a, l, p) \<notin> ?F" for p l
    using D E(2) dis by (auto simp: spells_def stays_in_def)
  ultimately show ?thesis
    using D(1,3,4) E(1) builds_next [OF bu] by (auto simp: offers_def intro!: exI [of _ ?F])
qed

lemma alternative_options_offers:
  "list_all2 compiles cs Ls \<Longrightarrow> offers lo T b s a L \<Longrightarrow> offers lo T (alternative_options cs s a b) s a (L \<union> \<Union> (set Ls))"
proof (induction cs arbitrary: Ls b L)
  case Nil then show ?case by simp
next
  case (Cons c cs)
  from Cons.prems(1) obtain M Ms where Ls: "Ls = M # Ms" "compiles c M" "list_all2 compiles cs Ms"
    by (auto simp: list_all2_Cons1)
  obtain g b1 where g: "c b = (g, b1)" by fastforce
  show ?case
    using Cons.IH [OF Ls(3) offers_option [OF Cons.prems(2) compilesD [OF Ls(2) g]]] g Ls(1)
    by (simp add: Un_assoc)
qed

lemma offers_builds: "offers (bd_next b) (transitions_of b) b' s a L \<Longrightarrow> builds b \<lparr>fr_start = s, fr_accept = a\<rparr> b' L"
  by (auto simp: offers_def builds_def)

lemma compiles_alternative:
  assumes "list_all2 compiles cs Ls"
  shows "compiles (compileAlternative cs) (\<Union> (set Ls))"
  unfolding compiles_def
proof (intro allI impI)
  fix b f b' assume c: "compileAlternative cs b = (f, b')"
  obtain s b1 a b2 where fr: "fresh b ''alt'' = (s, b1)" "fresh b1 ''alt'' = (a, b2)" by fastforce
  note st = fresh_twice [OF fr]
  have "offers (bd_next b) (transitions_of b) b2 s a {}"
    using st by (auto simp: offers_def spells_def hints_def between_from_sink intro!: exI [of _ "{}"])
  from alternative_options_offers [OF assms this] show "builds b f b' (\<Union> (set Ls))"
    using c fr by (auto simp: compileAlternative_def intro: offers_builds)
qed

lemma repeat_loop_builds:
  assumes c: "compiles c L"
  shows "builds b \<lparr>fr_start = fr_start f, fr_accept = fr_accept g\<rparr> b1 M \<Longrightarrow>
    \<exists>h b2. repeat_loop c l n (Some (f, g)) b1 = (Some (f, h), b2) \<and>
      builds b \<lparr>fr_start = fr_start f, fr_accept = fr_accept h\<rparr> b2 (conc M (lang_power n L))"
proof (induction n arbitrary: g b1 M)
  case 0 then show ?case by simp
next
  case (Suc n)
  obtain h b2 where h: "c b1 = (h, b2)" by fastforce
  have "builds b1 h (set_locals h l b2) L" using compilesD [OF c h] by simp
  from builds_join [OF Suc.prems this]
  have "builds b \<lparr>fr_start = fr_start f, fr_accept = fr_accept h\<rparr>
      (addEps (set_locals h l b2) (fr_accept g) (fr_start h)) (conc M L)" by simp
  from Suc.IH [OF this] show ?case using h by (auto simp: Let_def conc_assoc)
qed

lemma compiles_repeat:
  assumes c: "compiles c L"
  shows "compiles (compileRepeat l k c) (lang_power (nat k) L)"
  unfolding compiles_def
proof (intro allI impI)
  fix b f b' assume co: "compileRepeat l k c b = (f, b')"
  show "builds b f b' (lang_power (nat k) L)"
  proof (cases "nat k")
    case 0
    then show ?thesis using co compilesD [OF compiles_epsilon, of b f b'] by (simp add: compileRepeat_def)
  next
    case (Suc n)
    obtain g b1 where g: "c b = (g, b1)" by fastforce
    define b2 where "b2 = set_locals g (case l of None \<Rightarrow> [] | Some l \<Rightarrow> l) b1"
    have "builds b \<lparr>fr_start = fr_start g, fr_accept = fr_accept g\<rparr> b2 L"
      using compilesD [OF c g] by (simp add: builds_def spells_def b2_def)
    from repeat_loop_builds [OF c this, of "case l of None \<Rightarrow> [] | Some l \<Rightarrow> l" n] show ?thesis
      using co g Suc by (auto simp: compileRepeat_def Let_def b2_def)
  qed
qed

lemma compiles_closure:
  assumes c: "compiles c L"
  shows "compiles (compileClosure c l) (star L)"
  unfolding compiles_def
proof (intro allI impI)
  fix b f b' assume co: "compileClosure c l b = (f, b')"
  obtain g b1 where g: "c b = (g, b1)" by fastforce
  let ?b2 = "set_locals g (case l of None \<Rightarrow> [] | Some l \<Rightarrow> l) b1"
  obtain s b3 a b4 where fr: "fresh ?b2 ''clo'' = (s, b3)" "fresh b3 ''clo'' = (a, b4)" by fastforce
  have e: "f = \<lparr>fr_start = s, fr_accept = a\<rparr>"
    "b' = addEps (addEps (addEps (addEps b4 s (fr_start g)) s a) (fr_accept g) a) (fr_accept g) (fr_start g)"
    using co g fr by (auto simp: compileClosure_def Let_def)
  note st = fresh_twice [OF fr, simplified hints_def, simplified]
  let ?A = "region (bd_next b1) (bd_next b4)" and ?B = "region (bd_next b) (bd_next b1)" and ?C = "region (bd_next b) (bd_next b4)"
  have bu: "builds b g b1 L" using compilesD [OF c g] .
  obtain D where D: "transitions_of b1 = transitions_of b \<union> D" "spells ?B D g L"
    using bu by (auto simp: builds_def)
  let ?E = "insert (fr_accept g, None, fr_start g) D" and ?S = "{(s, None, a)} :: (string, step_symbol) transitions"
  let ?F = "insert (fr_accept g, None, a) (insert (s, None, fr_start g) (?S \<union> ?E))"
  have sub: "?A \<subseteq> ?C" "?B \<subseteq> ?C" using builds_next [OF bu] st by (simp_all add: region_mono)
  have dis: "?A \<inter> ?B = {}" using region_disjoint [of "bd_next b1" "bd_next b1"] by blast
  have inner: "between ?E (fr_start g) (fr_accept g) = conc L (star L)"
    using D(2) by (simp add: between_repeated spells_def)
  have skip: "between ?S s a = {[]}"
    using st by (simp add: between_insert between_from_sink)
  have "between ?F s a = between ?S s a \<union> between ?E (fr_start g) (fr_accept g)"
    by (rule between_choice [of ?A _ ?B]) (use D(2) dis st in \<open>auto simp: spells_def\<close>)
  then have "between ?F s a = star L" unfolding inner skip using star_unfold [of L] by simp
  moreover have "stays_in ?C ?F"
    using spells_mono [OF D(2) sub(2)] st sub by (auto simp: spells_def)
  ultimately have "spells ?C ?F f (star L)" using st sub e by (auto simp: spells_def)
  moreover have "transitions_of b' = transitions_of b \<union> ?F" using e st D(1) by auto
  ultimately show "builds b f b' (star L)"
    using e st builds_next [OF bu] by (auto simp: builds_def intro!: exI [of _ ?F])
qed

lemma compileFragment_compiles: "compiles (compileFragment p) (program_lang p)"
proof (induction p)
  case (SequenceProgram ps)
  then show ?case by (auto intro!: compiles_sequence simp: list_all2_map1 list_all2_map2 list_all2_same)
next
  case (AlternativeProgram ps)
  have "compiles (compileAlternative (map compileFragment ps)) (\<Union> (set (map program_lang ps)))"
    by (rule compiles_alternative) (auto simp: list_all2_map1 list_all2_map2 list_all2_same AlternativeProgram)
  then show ?case by simp
qed (auto intro: compiles_epsilon compiles_empty compiles_relation compiles_hyperedge compiles_repeat compiles_closure)

section \<open>The epsilon closure\<close>

definition epsilon_step :: "(string \<times> string list) list \<Rightarrow> (string \<times> string) set" where
  "epsilon_step eps = {(s, t). t \<in> set (eps_targets eps s)}"

lemma in_last_butlast: "xs \<noteq> [] \<Longrightarrow> set xs = insert (last xs) (set (butlast xs))"
  by (metis append_butlast_last_id list.simps(15) rotate1.simps(2) set_rotate1)

lemma epsilon_loop_distinct: "distinct seen \<Longrightarrow> distinct (epsilon_loop eps stack seen)"
proof (induction eps stack seen rule: epsilon_loop.induct)
  case (1 eps stack seen)
  then show ?case by (subst epsilon_loop.simps) (simp add: Let_def)
qed

lemma epsilon_loop_covers: "set seen \<union> set stack \<subseteq> set (epsilon_loop eps stack seen)"
proof (induction eps stack seen rule: epsilon_loop.induct)
  case (1 eps stack seen)
  then show ?case
    by (subst epsilon_loop.simps) (auto simp: Let_def in_last_butlast)
qed

lemma epsilon_loop_sound:
  "set (epsilon_loop eps stack seen) \<subseteq> set seen \<union> (epsilon_step eps)\<^sup>* `` set stack"
proof (induction eps stack seen rule: epsilon_loop.induct)
  case (1 eps stack seen)
  show ?case
  proof (cases "stack = []")
    case False
    let ?x = "last stack"
    have x: "set stack = insert ?x (set (butlast stack))" using False by (rule in_last_butlast)
    have "(epsilon_step eps)\<^sup>* `` set (eps_targets eps ?x) \<subseteq> (epsilon_step eps)\<^sup>* `` {?x}"
      by (auto simp: epsilon_step_def intro: converse_rtrancl_into_rtrancl)
    then show ?thesis
      using 1(1) [OF False refl refl] 1(2) [OF False refl refl] False x
      by (subst epsilon_loop.simps) (auto simp: Let_def Image_Un split: if_splits, blast+)
  qed (simp add: epsilon_loop.simps)
qed

lemma epsilon_loop_closed:
  "(\<forall>s \<in> set seen. set (eps_targets eps s) \<subseteq> set seen \<union> set stack) \<Longrightarrow>
   s \<in> set (epsilon_loop eps stack seen) \<Longrightarrow> set (eps_targets eps s) \<subseteq> set (epsilon_loop eps stack seen)"
proof (induction eps stack seen rule: epsilon_loop.induct)
  case (1 eps stack seen)
  show ?case
  proof (cases "stack = []")
    case True then show ?thesis using 1(3,4) by (simp add: epsilon_loop.simps)
  next
    case False
    have x: "set stack = insert (last stack) (set (butlast stack))" using False by (rule in_last_butlast)
    show ?thesis
    proof (cases "last stack \<in> set seen")
      case True
      then have "\<forall>s \<in> set seen. set (eps_targets eps s) \<subseteq> set seen \<union> set (butlast stack)" using 1(3) x by auto
      then show ?thesis using 1(1) [OF False refl refl True] 1(4) False True
        by (simp add: epsilon_loop.simps [of eps stack] Let_def)
    next
      case new: False
      have "\<forall>s \<in> set (seen @ [last stack]). set (eps_targets eps s)
          \<subseteq> set (seen @ [last stack]) \<union> set (butlast stack @ eps_targets eps (last stack))"
        using 1(3) x by auto
      then show ?thesis using 1(2) [OF False refl refl new] 1(4) False new
        by (simp add: epsilon_loop.simps [of eps stack] Let_def)
    qed
  qed
qed

theorem epsilonClosure_reachable: "set (epsilonClosure eps seeds) = (epsilon_step eps)\<^sup>* `` set seeds"
proof
  show "set (epsilonClosure eps seeds) \<subseteq> (epsilon_step eps)\<^sup>* `` set seeds"
    using epsilon_loop_sound [of eps seeds "[]"] by (simp add: epsilonClosure_def)
next
  have closed: "t \<in> set (epsilonClosure eps seeds)"
    if "(s, t) \<in> (epsilon_step eps)\<^sup>*" "s \<in> set (epsilonClosure eps seeds)" for s t
    using that epsilon_loop_closed [of "[]" eps seeds]
    by induction (auto simp: epsilonClosure_def epsilon_step_def)
  then show "(epsilon_step eps)\<^sup>* `` set seeds \<subseteq> set (epsilonClosure eps seeds)"
    using epsilon_loop_covers [of "[]" seeds eps] by (auto simp: epsilonClosure_def)
qed

lemma epsilonClosure_distinct: "distinct (epsilonClosure eps seeds)"
  by (simp add: epsilonClosure_def epsilon_loop_distinct)

section \<open>Acceptance by the closed automaton\<close>

text \<open>
  A reader of the automaton keeps a list of states; a relation step follows the advances
  \<^verbatim>\<open>advancesFor\<close> finds for each of them, a hyperedge step the hyperedge advances that leave it. The
  word is accepted when \<^verbatim>\<open>accepting\<close> is among the states at its end.
\<close>

definition symbol_targets :: "program_automaton \<Rightarrow> string \<Rightarrow> step_symbol \<Rightarrow> string list" where
  "symbol_targets a q x =
     (case x of
        RelationStep r \<Rightarrow> concat (map aa_to (advancesFor a q (\<lambda>r'. r' = r)))
      | HyperedgeStep h \<Rightarrow> concat (map ha_to (filter (\<lambda>e. ha_from e = q \<and> ha_hyperedge e = h) (pa_hyperedgeAdvances a))))"

primrec accepts_from :: "program_automaton \<Rightarrow> string list \<Rightarrow> step_symbol list \<Rightarrow> bool" where
  "accepts_from a qs [] = (ACCEPTING_PROGRAM_STATE \<in> set qs)"
| "accepts_from a qs (x # w) = accepts_from a (concat (map (\<lambda>q. symbol_targets a q x) qs)) w"

definition accepts :: "program_automaton \<Rightarrow> step_symbol list \<Rightarrow> bool" where
  "accepts a w = accepts_from a (pa_start a) w"

lemma accepts_from_any: "accepts_from a qs w \<longleftrightarrow> (\<exists>q \<in> set qs. accepts_from a [q] w)"
proof (induction w arbitrary: qs)
  case (Cons x w)
  have "accepts_from a [q] (x # w) \<longleftrightarrow> (\<exists>t \<in> set (symbol_targets a q x). accepts_from a [t] w)" for q
    using Cons.IH [of "symbol_targets a q x"] by simp
  then show ?case
    using Cons.IH [of "concat (map (\<lambda>q. symbol_targets a q x) qs)"] by (simp del: accepts_from.simps add: accepts_from.simps(2) [of a qs])
qed simp

lemma map_of_index_fold:
  "map_of (fold index_advance as m) s =
     (let bucket = filter (\<lambda>a. aa_from a = s) as
      in if bucket = [] then map_of m s
         else Some ((case map_of m s of None \<Rightarrow> [] | Some b \<Rightarrow> b) @ bucket))"
proof (induction as arbitrary: m)
  case (Cons a as)
  show ?case unfolding fold.simps o_apply Cons.IH
    by (auto simp: index_advance_def update_conv' Let_def split: option.splits)
qed simp

lemma advancesFor_index:
  "pa_advancesByState a = indexAdvances (pa_advances a) \<Longrightarrow>
     advancesFor a s matches = filter (\<lambda>x. aa_from x = s \<and> matches (aa_relation x)) (pa_advances a)"
proof -
  assume "pa_advancesByState a = indexAdvances (pa_advances a)"
  then have "(case map_of (pa_advancesByState a) s of None \<Rightarrow> [] | Some bucket \<Rightarrow> bucket) = filter (\<lambda>x. aa_from x = s) (pa_advances a)"
    by (simp add: indexAdvances_def map_of_index_fold Let_def)
  then show ?thesis by (simp add: advancesFor_def conj_commute)
qed

lemma runs_Nil_epsilon: "runs (transitions_of b) q [] r \<longleftrightarrow> (q, r) \<in> (epsilon_step (bd_eps b))\<^sup>*"
proof -
  have step: "(s, None, t) \<in> transitions_of b \<longleftrightarrow> (s, t) \<in> epsilon_step (bd_eps b)" for s t
    by (auto simp: transitions_of_def epsilon_step_def relation_edges_def hyperedge_edges_def)
  have "(q, r) \<in> (epsilon_step (bd_eps b))\<^sup>*" if "runs (transitions_of b) q w r" "w = []" for w
    using that by induction (auto simp: step intro: converse_rtrancl_into_rtrancl)
  moreover have "runs (transitions_of b) q [] r" if "(q, r) \<in> (epsilon_step (bd_eps b))\<^sup>*"
    using that by (induction rule: converse_rtrancl_induct) (auto simp: step [symmetric] intro: runs.intros)
  ultimately show ?thesis by blast
qed

lemma runs_first_symbol:
  "runs D q (x # w) r \<longleftrightarrow> (\<exists>p t. runs D q [] p \<and> (p, Some x, t) \<in> D \<and> runs D t w r)"
proof
  have "\<exists>p t. runs D q [] p \<and> (p, Some x, t) \<in> D \<and> runs D t w r" if "runs D q v r" "v = x # w" for v
    using that by induction (auto intro: runs.intros)
  then show "runs D q (x # w) r \<Longrightarrow> \<exists>p t. runs D q [] p \<and> (p, Some x, t) \<in> D \<and> runs D t w r" by blast
next
  assume "\<exists>p t. runs D q [] p \<and> (p, Some x, t) \<in> D \<and> runs D t w r"
  then obtain p t where "runs D q [] p" "runs D p (x # w) r" by (auto intro: runs.symbol)
  then show "runs D q (x # w) r" using runs_append [of D q "[]" p] by simp
qed

definition close_builder :: "builder \<Rightarrow> program_automaton \<Rightarrow> bool" where
  "close_builder b a \<longleftrightarrow> pa_advances a = closeAdvances b \<and> pa_hyperedgeAdvances a = closeHyperedgeAdvances b \<and>
     pa_advancesByState a = indexAdvances (pa_advances a)"

text \<open>The states a builder advances to on a symbol, before closing.\<close>

definition raw_targets :: "builder \<Rightarrow> string \<Rightarrow> step_symbol \<Rightarrow> string list list" where
  "raw_targets b p x =
     (case x of
        RelationStep r \<Rightarrow> map aa_to (filter (\<lambda>a. aa_from a = p \<and> aa_relation a = r) (bd_advances b))
      | HyperedgeStep h \<Rightarrow> map ha_to (filter (\<lambda>a. ha_from a = p \<and> ha_hyperedge a = h) (bd_hyperedgeAdvances b)))"

lemma raw_targets_edges: "(p, Some x, t) \<in> transitions_of b \<longleftrightarrow> (\<exists>ts \<in> set (raw_targets b p x). t \<in> set ts)"
  by (cases x) (fastforce simp: raw_targets_def transitions_of_def relation_edges_def hyperedge_edges_def)+

lemma symbol_targets_closed:
  assumes "close_builder b a"
  shows "symbol_targets a p x = concat (map (\<lambda>ts. liveStates b (epsilonClosure (bd_eps b) ts)) (raw_targets b p x))"
  using assms
  by (cases x) (auto simp: symbol_targets_def raw_targets_def close_builder_def advancesFor_index closeAdvances_def
      closeHyperedgeAdvances_def filter_map comp_def)

lemma raw_targets_live: "raw_targets b p x \<noteq> [] \<Longrightarrow> p \<in> outgoing_states b"
  by (cases x) (auto simp: raw_targets_def outgoing_states_def filter_empty_conv)

lemma accepts_from_closed:
  assumes "close_builder b a"
  shows "accepts_from a (liveStates b (epsilonClosure (bd_eps b) qs)) w \<longleftrightarrow>
    (\<exists>q \<in> set qs. runs (transitions_of b) q w ACCEPTING_PROGRAM_STATE)"
proof (induction w arbitrary: qs)
  case Nil
  show ?case by (auto simp: liveStates_def epsilonClosure_reachable runs_Nil_epsilon)
next
  case (Cons x w)
  let ?T = "transitions_of b" and ?A = ACCEPTING_PROGRAM_STATE
  have "accepts_from a (liveStates b (epsilonClosure (bd_eps b) qs)) (x # w) \<longleftrightarrow>
      (\<exists>p \<in> set (liveStates b (epsilonClosure (bd_eps b) qs)). \<exists>t \<in> set (symbol_targets a p x). accepts_from a [t] w)"
    by (simp add: accepts_from_any [of a "concat _"])
  also have "\<dots> \<longleftrightarrow> (\<exists>p \<in> set (epsilonClosure (bd_eps b) qs). \<exists>ts \<in> set (raw_targets b p x).
      accepts_from a (liveStates b (epsilonClosure (bd_eps b) ts)) w)"
  proof -
    have any: "(\<exists>t \<in> set (symbol_targets a p x). accepts_from a [t] w) \<longleftrightarrow>
        (\<exists>ts \<in> set (raw_targets b p x). accepts_from a (liveStates b (epsilonClosure (bd_eps b) ts)) w)" for p
      unfolding symbol_targets_closed [OF assms] accepts_from_any [of a "liveStates b _"] by simp
    have live: "p \<in> set (liveStates b qs')" if "p \<in> set qs'" "raw_targets b p x \<noteq> []" for p qs'
      using that raw_targets_live by (simp add: liveStates_def)
    have "set (liveStates b qs') \<subseteq> set qs'" for qs' by (auto simp: liveStates_def)
    then show ?thesis unfolding any using live by (metis empty_iff empty_set subsetD)
  qed
  also have "\<dots> \<longleftrightarrow> (\<exists>p \<in> set (epsilonClosure (bd_eps b) qs). \<exists>t. (p, Some x, t) \<in> ?T \<and> runs ?T t w ?A)"
    by (auto simp: Cons.IH raw_targets_edges)
  also have "\<dots> \<longleftrightarrow> (\<exists>q \<in> set qs. runs ?T q (x # w) ?A)"
    by (auto simp: runs_first_symbol [of _ _ x] epsilonClosure_reachable runs_Nil_epsilon)
  finally show ?case .
qed

section \<open>The automaton accepts the language\<close>

lemma build_automaton_accepts: "accepts (build_automaton p) w \<longleftrightarrow> w \<in> program_lang p"
proof -
  obtain f b0 where f: "compileFragment p empty_builder = (f, b0)" by fastforce
  let ?b = "addEps b0 (fr_accept f) ACCEPTING_PROGRAM_STATE" and ?R = "region 0 (bd_next b0)"
  have none: "transitions_of empty_builder = {}"
    by (simp add: transitions_of_def empty_builder_def eps_targets_def relation_edges_def hyperedge_edges_def)
  have bu: "builds empty_builder f b0 (program_lang p)" using compilesD [OF compileFragment_compiles f] .
  then have sp: "spells ?R (transitions_of b0) f (program_lang p)"
    unfolding builds_def none by (auto simp: empty_builder_def)
  have "between (transitions_of ?b) (fr_start f) ACCEPTING_PROGRAM_STATE = program_lang p"
  proof -
    have "between (insert (fr_accept f, None, ACCEPTING_PROGRAM_STATE) (transitions_of b0 \<union> {})) (fr_start f) ACCEPTING_PROGRAM_STATE
        = conc (between (transitions_of b0) (fr_start f) (fr_accept f)) (between {} ACCEPTING_PROGRAM_STATE ACCEPTING_PROGRAM_STATE)"
      by (rule between_joined [of ?R _ "{ACCEPTING_PROGRAM_STATE}"])
        (use sp accepting_not_in_region in \<open>auto simp: spells_def\<close>)
    then show ?thesis using sp by (simp add: spells_def between_from_sink)
  qed
  moreover have "close_builder ?b (build_automaton p)"
    using f by (simp add: close_builder_def build_automaton_def Let_def)
  moreover have "pa_start (build_automaton p) = liveStates ?b (epsilonClosure (bd_eps ?b) [fr_start f])"
    using f by (simp add: build_automaton_def Let_def)
  ultimately show ?thesis
    using accepts_from_closed [of ?b "build_automaton p" "[fr_start f]" w] by (auto simp: accepts_def between_def)
qed

lemma accepts_empty: "accepts emptyAutomaton w = False"
proof -
  have "accepts_from emptyAutomaton [] w = False" by (induction w) auto
  then show ?thesis by (simp add: accepts_def emptyAutomaton_def)
qed

lemma accepts_epsilon: "accepts epsilonAutomaton w \<longleftrightarrow> w = []"
proof (cases w)
  case (Cons x v)
  have "accepts_from epsilonAutomaton [] v = False" by (induction v) auto
  moreover have "symbol_targets epsilonAutomaton ACCEPTING_PROGRAM_STATE x = []"
    by (cases x) (simp_all add: symbol_targets_def epsilonAutomaton_def advancesFor_def)
  ultimately show ?thesis using Cons by (simp add: accepts_def epsilonAutomaton_def)
qed (simp add: accepts_def epsilonAutomaton_def)

text \<open>C6: 
  the automaton of a query program accepts exactly the sequences of relation and hyperedge steps
  that the program denotes, whatever the nesting of sequences, alternatives, repeats and closures.
\<close>

theorem automaton_accepts_program_language:
  assumes "compileProgramAutomaton p = Inr a"
  shows "accepts a w \<longleftrightarrow> w \<in> program_lang p"
  using assms
  by (cases p) (auto simp: compileProgramAutomaton_def accepts_empty accepts_epsilon build_automaton_accepts split: sum.splits)

text \<open>A relation for the concrete instances below.\<close>

definition sample_relation :: query_relation where
  "sample_relation = \<lparr>qr_relation_kind = ''k'', qr_source_variable = ''x'', qr_target_variable = ''z'', qr_guard = JNull,
     qr_facet_mode = ''same_path'', qr_threshold_milligrades = 0\<rparr>"

lemma sample_relation_ok: "query_relation_ok (\<lambda>_. True) sample_relation"
  by (simp add: query_relation_ok_def sample_relation_def BoundedString_def)

lemma automaton_accepts_program_language_witness:
  "\<exists>a. compileProgramAutomaton (RepeatProgram None 2 (ClosureProgram None True (RelationProgram sample_relation))) = Inr a \<and>
     accepts a [RelationStep sample_relation, RelationStep sample_relation, RelationStep sample_relation]"
proof -
  let ?p = "RepeatProgram None 2 (ClosureProgram None True (RelationProgram sample_relation))"
  have c: "compileProgramAutomaton ?p = Inr (build_automaton ?p)"
    by (simp add: compileProgramAutomaton_def programAutomatonCost_def is_safe_integer_def Let_def)
  have s: "[x] @ v \<in> star {[x]}" if "v \<in> star {[x]}" for x :: step_symbol and v
    using star_step [of "[x]" "{[x]}" v] that by simp
  have "[RelationStep sample_relation, RelationStep sample_relation] \<in> star {[RelationStep sample_relation]}" "[RelationStep sample_relation] \<in> star {[RelationStep sample_relation]}"
    using s [OF s [OF star_Nil]] s [OF star_Nil] by simp_all
  then have "[RelationStep sample_relation] @ [RelationStep sample_relation, RelationStep sample_relation] @ [] \<in> program_lang ?p"
    by (simp only: program_lang.simps numeral_2_eq_2 nat_numeral lang_power.simps) (intro concI, auto)
  then show ?thesis using automaton_accepts_program_language [OF c] c by force
qed

section \<open>Sizes\<close>

text \<open>
  The states and edges a compile function creates, as \<^verbatim>\<open>expandedSize\<close> predicts them, and that every
  edge has two states of its own.
\<close>

definition edge_count :: "builder \<Rightarrow> nat" where
  "edge_count b = length (bd_advances b) + length (bd_hyperedgeAdvances b)"

definition grows :: "compiler \<Rightarrow> int \<Rightarrow> int \<Rightarrow> bool" where
  "grows c n e \<longleftrightarrow> (\<forall>b f b'. c b = (f, b') \<longrightarrow>
     int (bd_next b') = int (bd_next b) + n \<and> int (edge_count b') = int (edge_count b) + e)"

lemma growsD: "grows c n e \<Longrightarrow> c b = (f, b') \<Longrightarrow>
    int (bd_next b') = int (bd_next b) + n \<and> int (edge_count b') = int (edge_count b) + e"
  by (simp add: grows_def)

lemma edge_count_simps [simp]:
  "edge_count (addEps b s t) = edge_count b" "edge_count (set_locals f l b) = edge_count b"
  by (simp_all add: edge_count_def)

lemma fresh_counts:
  assumes "fresh b h = (s, b')"
  shows "edge_count b' = edge_count b" "bd_next b' = Suc (bd_next b)"
  using assms by (auto simp: edge_count_def fresh_def)

lemma grows_basic:
  "grows compileEpsilon 1 0" "grows compileEmpty 2 0" "grows (compileRelation r) 2 1" "grows (compileHyperedge h) 2 1"
  by (simp_all add: grows_def edge_count_def compileEpsilon_def compileEmpty_def compileRelation_def compileHyperedge_def
      fresh_def Let_def)

lemma grows_sequence_steps:
  "list_all2 (\<lambda>c s. grows c (xs_states s) (xs_edges s)) cs ss \<Longrightarrow> sequence_steps cs a b = (a', b') \<Longrightarrow>
     int (bd_next b') = int (bd_next b) + xs_states (sum_sizes ss) \<and>
     int (edge_count b') = int (edge_count b) + xs_edges (sum_sizes ss)"
proof (induction cs arbitrary: ss a b)
  case (Cons c cs)
  then obtain s ts where ss: "ss = s # ts" "grows c (xs_states s) (xs_edges s)"
    "list_all2 (\<lambda>c s. grows c (xs_states s) (xs_edges s)) cs ts" by (auto simp: list_all2_Cons1)
  obtain f b1 where f: "c b = (f, b1)" by fastforce
  have "sequence_steps cs (fr_accept f) (addEps b1 a (fr_start f)) = (a', b')" using Cons.prems(2) f by simp
  from Cons.IH [OF ss(3) this] show ?case using growsD [OF ss(2) f] ss(1) by (simp add: sum_sizes_def)
qed (simp add: sum_sizes_def)

lemma grows_sequence:
  assumes "list_all2 (\<lambda>c s. grows c (xs_states s) (xs_edges s)) cs ss" "cs \<noteq> []"
  shows "grows (compileSequence cs) (xs_states (sum_sizes ss)) (xs_edges (sum_sizes ss))"
proof -
  obtain c ds where cs: "cs = c # ds" using assms(2) by (cases cs) auto
  obtain s ts where ss: "ss = s # ts" "grows c (xs_states s) (xs_edges s)"
    "list_all2 (\<lambda>c s. grows c (xs_states s) (xs_edges s)) ds ts" using assms(1) cs by (auto simp: list_all2_Cons1)
  show ?thesis
    unfolding grows_def
  proof (intro allI impI)
    fix b f b' assume "compileSequence cs b = (f, b')"
    then obtain g b1 a where g: "c b = (g, b1)" "sequence_steps ds (fr_accept g) b1 = (a, b')"
      using cs by (auto split: prod.splits)
    show "int (bd_next b') = int (bd_next b) + xs_states (sum_sizes ss) \<and>
        int (edge_count b') = int (edge_count b) + xs_edges (sum_sizes ss)"
      using grows_sequence_steps [OF ss(3) g(2)] growsD [OF ss(2) g(1)] ss(1) by (simp add: sum_sizes_def)
  qed
qed

lemma grows_alternative_options:
  "list_all2 (\<lambda>c s. grows c (xs_states s) (xs_edges s)) cs ss \<Longrightarrow>
     int (bd_next (alternative_options cs s a b)) = int (bd_next b) + xs_states (sum_sizes ss) \<and>
     int (edge_count (alternative_options cs s a b)) = int (edge_count b) + xs_edges (sum_sizes ss)"
proof (induction cs arbitrary: ss b)
  case (Cons c cs)
  then obtain s1 ts where ss: "ss = s1 # ts" "grows c (xs_states s1) (xs_edges s1)"
    "list_all2 (\<lambda>c s. grows c (xs_states s) (xs_edges s)) cs ts" by (auto simp: list_all2_Cons1)
  obtain f b1 where f: "c b = (f, b1)" by fastforce
  show ?case using Cons.IH [OF ss(3)] f growsD [OF ss(2) f] ss(1) by (simp add: sum_sizes_def)
qed (simp add: sum_sizes_def)

lemma grows_alternative:
  assumes "list_all2 (\<lambda>c s. grows c (xs_states s) (xs_edges s)) cs ss"
  shows "grows (compileAlternative cs) (2 + xs_states (sum_sizes ss)) (xs_edges (sum_sizes ss))"
  unfolding grows_def
proof (intro allI impI)
  fix b f b' assume c: "compileAlternative cs b = (f, b')"
  obtain s b1 a b2 where fr: "fresh b ''alt'' = (s, b1)" "fresh b1 ''alt'' = (a, b2)" by fastforce
  then have "b' = alternative_options cs s a b2" using c by (simp add: compileAlternative_def)
  then show "int (bd_next b') = int (bd_next b) + (2 + xs_states (sum_sizes ss)) \<and>
      int (edge_count b') = int (edge_count b) + xs_edges (sum_sizes ss)"
    using grows_alternative_options [OF assms, of s a b2] fresh_counts [OF fr(1)] fresh_counts [OF fr(2)]
    by simp
qed

lemma grows_repeat_loop:
  assumes c: "grows c n e"
  shows "repeat_loop c l k kept b = (kept', b') \<Longrightarrow>
    int (bd_next b') = int (bd_next b) + int k * n \<and> int (edge_count b') = int (edge_count b) + int k * e \<and>
    (kept' = None \<longleftrightarrow> kept = None \<and> k = 0)"
proof (induction k arbitrary: kept b)
  case (Suc k)
  obtain f b1 where f: "c b = (f, b1)" by fastforce
  show ?case
  proof (cases kept)
    case None
    then show ?thesis using Suc.IH [of "Some (f, f)"] Suc.prems f growsD [OF c f] by (simp add: algebra_simps)
  next
    case (Some fp)
    then show ?thesis using Suc.IH [of "Some (fst fp, f)"] Suc.prems f growsD [OF c f]
      by (simp add: algebra_simps split: prod.splits)
  qed
qed auto

lemma grows_repeat:
  assumes "grows c n e" "0 < k"
  shows "grows (compileRepeat l k c) (n * k) (e * k)"
  unfolding grows_def
proof (intro allI impI)
  fix b f b' assume co: "compileRepeat l k c b = (f, b')"
  obtain kept b1 where r: "repeat_loop c (case l of None \<Rightarrow> [] | Some l \<Rightarrow> l) (nat k) None b = (kept, b1)" by fastforce
  note g = grows_repeat_loop [OF assms(1) r]
  then obtain x y where "kept = Some (x, y)" using assms(2) by (cases kept) auto
  then have "b' = b1" using co r by (simp add: compileRepeat_def)
  then show "int (bd_next b') = int (bd_next b) + n * k \<and> int (edge_count b') = int (edge_count b) + e * k"
    using g assms(2) by (simp add: mult.commute)
qed

lemma grows_closure:
  assumes "grows c n e"
  shows "grows (compileClosure c l) (n + 2) e"
  unfolding grows_def
proof (intro allI impI)
  fix b f b' assume co: "compileClosure c l b = (f, b')"
  obtain g b1 where g: "c b = (g, b1)" by fastforce
  let ?b2 = "set_locals g (case l of None \<Rightarrow> [] | Some l \<Rightarrow> l) b1"
  obtain s b3 a b4 where fr: "fresh ?b2 ''clo'' = (s, b3)" "fresh b3 ''clo'' = (a, b4)" by fastforce
  have "b' = addEps (addEps (addEps (addEps b4 s (fr_start g)) s a) (fr_accept g) a) (fr_accept g) (fr_start g)"
    using co g fr by (auto simp: compileClosure_def Let_def)
  then show "int (bd_next b') = int (bd_next b) + (n + 2) \<and> int (edge_count b') = int (edge_count b) + e"
    using growsD [OF assms g] fresh_counts [OF fr(1)] fresh_counts [OF fr(2)] by simp
qed

lemma compileFragment_grows:
  "query_program_ok guard_ok p \<Longrightarrow> grows (compileFragment p) (xs_states (expandedSize p)) (xs_edges (expandedSize p))"
proof (induction p)
  case (SequenceProgram ps)
  have ok: "\<forall>p \<in> set ps. query_program_ok guard_ok p" "ps \<noteq> []" using SequenceProgram.prems by (auto dest!: program_list_okD)
  then show ?case
    using SequenceProgram.IH grows_sequence [of "map compileFragment ps" "map expandedSize ps"]
    by (simp add: list_all2_map1 list_all2_map2 list_all2_same)
next
  case (AlternativeProgram ps)
  have ok: "\<forall>p \<in> set ps. query_program_ok guard_ok p" using AlternativeProgram.prems by (auto dest!: program_list_okD)
  then show ?case
    using AlternativeProgram.IH grows_alternative [of "map compileFragment ps" "map expandedSize ps"]
    by (simp add: list_all2_map1 list_all2_map2 list_all2_same Let_def)
next
  case (RepeatProgram l k p)
  then show ?case by (auto simp: Let_def intro!: grows_repeat)
next
  case (ClosureProgram l s p)
  then show ?case by (auto simp: Let_def intro!: grows_closure)
qed (auto intro: grows_basic)

lemma expandedSize_edges:
  "query_program_ok guard_ok p \<Longrightarrow> 0 \<le> xs_edges (expandedSize p) \<and> 2 * xs_edges (expandedSize p) \<le> xs_states (expandedSize p)"
proof (induction p)
  case (SequenceProgram ps)
  have "\<forall>p \<in> set ps. query_program_ok guard_ok p" using SequenceProgram.prems by (auto dest!: program_list_okD)
  then have "\<forall>p \<in> set ps. 0 \<le> xs_edges (expandedSize p) \<and> 2 * xs_edges (expandedSize p) \<le> xs_states (expandedSize p)"
    using SequenceProgram.IH by blast
  then have "0 \<le> xs_edges (sum_sizes (map expandedSize ps)) \<and> 2 * xs_edges (sum_sizes (map expandedSize ps)) \<le> xs_states (sum_sizes (map expandedSize ps))"
    by (induction ps) (auto simp: sum_sizes_def)
  then show ?case by simp
next
  case (AlternativeProgram ps)
  have "\<forall>p \<in> set ps. query_program_ok guard_ok p" using AlternativeProgram.prems by (auto dest!: program_list_okD)
  then have "\<forall>p \<in> set ps. 0 \<le> xs_edges (expandedSize p) \<and> 2 * xs_edges (expandedSize p) \<le> xs_states (expandedSize p)"
    using AlternativeProgram.IH by blast
  then have "0 \<le> xs_edges (sum_sizes (map expandedSize ps)) \<and> 2 * xs_edges (sum_sizes (map expandedSize ps)) \<le> xs_states (sum_sizes (map expandedSize ps))"
    by (induction ps) (auto simp: sum_sizes_def)
  then show ?case by (simp add: Let_def)
next
  case (RepeatProgram l k p)
  then show ?case by (auto simp: Let_def mult.assoc [symmetric] intro!: mult_right_mono)
qed (auto simp: Let_def)

definition number_of_advances :: "program_automaton \<Rightarrow> nat" where
  "number_of_advances a = length (pa_advances a) + length (pa_hyperedgeAdvances a)"

definition number_of_targets :: "program_automaton \<Rightarrow> nat" where
  "number_of_targets a = sum_list (map (\<lambda>x. length (aa_to x)) (pa_advances a)) + sum_list (map (\<lambda>x. length (ha_to x)) (pa_hyperedgeAdvances a))"

lemma sum_list_bounded: "(\<And>x. h x \<le> k) \<Longrightarrow> sum_list (map h xs) \<le> length xs * (k::nat)"
  by (induction xs) (simp_all add: add_mono)

lemma live_targets_bound: "length (liveStates b (epsilonClosure (bd_eps b) ts)) \<le> Suc (edge_count b)"
proof -
  let ?l = "liveStates b (epsilonClosure (bd_eps b) ts)"
  have "distinct ?l" by (simp add: liveStates_def epsilonClosure_distinct)
  then have "length ?l = card (set ?l)" by (simp add: distinct_card)
  also have "\<dots> \<le> card (insert ACCEPTING_PROGRAM_STATE (outgoing_states b))"
    by (rule card_mono) (auto simp: liveStates_def outgoing_states_def)
  also have "\<dots> \<le> Suc (card (outgoing_states b))" by (rule card_insert_le_m1) simp_all
  also have "card (outgoing_states b) \<le> edge_count b"
    unfolding outgoing_states_def edge_count_def by (rule order_trans [OF card_length]) simp
  finally show ?thesis by simp
qed

lemma closed_targets_bound:
  assumes "pa_advances a = closeAdvances b" "pa_hyperedgeAdvances a = closeHyperedgeAdvances b"
  shows "number_of_targets a \<le> edge_count b * Suc (edge_count b)"
proof -
  let ?k = "Suc (edge_count b)" and ?len = "\<lambda>ts. length (liveStates b (epsilonClosure (bd_eps b) ts))"
  have "sum_list (map (\<lambda>x. ?len (aa_to x)) (bd_advances b)) \<le> length (bd_advances b) * ?k"
    by (rule sum_list_bounded) (rule live_targets_bound)
  moreover have "sum_list (map (\<lambda>x. ?len (ha_to x)) (bd_hyperedgeAdvances b)) \<le> length (bd_hyperedgeAdvances b) * ?k"
    by (rule sum_list_bounded) (rule live_targets_bound)
  moreover have "edge_count b * ?k = length (bd_advances b) * ?k + length (bd_hyperedgeAdvances b) * ?k"
    by (simp only: edge_count_def add_mult_distrib)
  ultimately show ?thesis
    by (simp only: number_of_targets_def assms closeAdvances_def closeHyperedgeAdvances_def map_map comp_def
        automaton_advance.simps hyperedge_advance.simps)
qed

text \<open>C0: 
  the announced cost is an upper bound: the advances the automaton of a schema-valid program really
  has, their index entries and the closed targets stored with them are covered by the work units
  that were charged before any state was created.
\<close>

theorem cost_covers_the_automaton:
  assumes "query_program_ok guard_ok p" "compileProgramAutomaton p = Inr a"
  shows "\<exists>cost. programAutomatonCost p = Inr cost \<and>
     int (3 * number_of_advances a + number_of_targets a) \<le> work_units cost"
proof -
  let ?n = "xs_states (expandedSize p)" and ?e = "xs_edges (expandedSize p)"
  obtain cost where cost: "programAutomatonCost p = Inr cost"
    using assms(2) by (auto simp: compileProgramAutomaton_def split: sum.splits)
  then have w: "work_units cost = ?n + ?e + ?e * max 1 ?n + ?e * 2"
    by (auto simp: programAutomatonCost_def Let_def split: if_splits)
  have e: "0 \<le> ?e" "2 * ?e \<le> ?n" using expandedSize_edges [OF assms(1)] by auto
  have "int (number_of_advances a) \<le> ?e \<and> int (number_of_targets a) \<le> ?e * max 1 ?n"
  proof (cases "a = build_automaton p")
    case False
    then have "a = emptyAutomaton \<or> a = epsilonAutomaton"
      using assms(2) by (cases p) (auto simp: compileProgramAutomaton_def split: sum.splits)
    then show ?thesis using e by (auto simp: emptyAutomaton_def epsilonAutomaton_def number_of_advances_def number_of_targets_def)
  next
    case True
    obtain f b0 where f: "compileFragment p empty_builder = (f, b0)" by fastforce
    let ?b = "addEps b0 (fr_accept f) ACCEPTING_PROGRAM_STATE"
    have cnt: "int (edge_count ?b) = ?e"
      using growsD [OF compileFragment_grows [OF assms(1)] f] by (simp add: empty_builder_def edge_count_def)
    have a: "pa_advances a = closeAdvances ?b" "pa_hyperedgeAdvances a = closeHyperedgeAdvances ?b"
      using f True by (simp_all add: build_automaton_def Let_def)
    have n: "number_of_advances a = edge_count ?b"
      by (simp add: number_of_advances_def a closeAdvances_def closeHyperedgeAdvances_def edge_count_def)
    have "number_of_targets a \<le> edge_count ?b * Suc (edge_count ?b)"
      by (rule closed_targets_bound) (use a in simp_all)
    then have "int (number_of_targets a) \<le> ?e * (1 + ?e)" using cnt by (metis of_nat_Suc of_nat_le_iff of_nat_mult)
    also have "?e * (1 + ?e) \<le> ?e * max 1 ?n" using e by (intro mult_left_mono) (cases "?e = 0", auto)
    finally show ?thesis using n cnt by simp
  qed
  then show ?thesis using cost w e by auto
qed

lemma cost_covers_the_automaton_witness:
  "\<exists>a cost. compileProgramAutomaton (SequenceProgram [RelationProgram sample_relation, RelationProgram sample_relation]) = Inr a \<and>
     programAutomatonCost (SequenceProgram [RelationProgram sample_relation, RelationProgram sample_relation]) = Inr cost \<and>
     int (3 * number_of_advances a + number_of_targets a) \<le> work_units cost"
proof -
  let ?p = "SequenceProgram [RelationProgram sample_relation, RelationProgram sample_relation]"
  have c: "compileProgramAutomaton ?p = Inr (build_automaton ?p)"
    by (simp add: compileProgramAutomaton_def programAutomatonCost_def is_safe_integer_def sum_sizes_def Let_def)
  have "query_program_ok (\<lambda>_. True) ?p" by (simp add: sample_relation_ok program_list_ok_def local_variables_ok_def BOUNDED_DEFAULT_ARRAY_MAX_def)
  from cost_covers_the_automaton [OF this c] show ?thesis using c by blast
qed

end
