(* ===== verification/QueryInterpretation.thy ===== *)
theory QueryInterpretation
  imports ProgramLanguage
begin

text \<open>
  The verdict on a query program before it runs
  (\<^verbatim>\<open>core/src/recall/conditional-field/reference/interpret-query.ts\<close>) and the seeds taken from it
  (\<^verbatim>\<open>runtimeProgram\<close>, \<^verbatim>\<open>queryAdmitsGuaranteedSeed\<close> and \<^verbatim>\<open>seedProgramStates\<close> of
  \<^verbatim>\<open>engine/path-composition-seed.ts\<close>). The theorems compare the syntactic verdict with the language of
  the program and the seeds with the automaton.
\<close>

datatype interpret_result = InterpretedEpsilon | InterpretedEmpty | InterpretedProgram query_program | InterpretedUnsupported

fun asPrograms :: "interpret_result \<Rightarrow> query_program list" where
  "asPrograms InterpretedEpsilon = [EpsilonProgram]"
| "asPrograms InterpretedEmpty = [EmptyProgram]"
| "asPrograms (InterpretedProgram p) = [p]"
| "asPrograms InterpretedUnsupported = []"

text \<open>
  The loops over the parts take the results of the parts; \<^verbatim>\<open>interpretQuery\<close> has no effect, so that
  stopping early skips nothing that could be observed.
\<close>

fun interpretSequence :: "interpret_result list \<Rightarrow> interpret_result list \<Rightarrow> interpret_result" where
  "interpretSequence [] kept =
     (if length kept = 0 then InterpretedEpsilon
      else if length kept = 1 then hd kept
      else InterpretedProgram (SequenceProgram (concat (map asPrograms kept))))"
| "interpretSequence (result # rest) kept =
     (if result = InterpretedUnsupported then result
      else if result = InterpretedEmpty then InterpretedEmpty
      else if result \<noteq> InterpretedEpsilon then interpretSequence rest (kept @ [result])
      else interpretSequence rest kept)"

fun interpretAlternative :: "interpret_result list \<Rightarrow> interpret_result list \<Rightarrow> interpret_result" where
  "interpretAlternative [] kept =
     (if length kept = 0 then InterpretedEmpty
      else if length kept = 1 then hd kept
      else InterpretedProgram (AlternativeProgram (concat (map asPrograms kept))))"
| "interpretAlternative (result # rest) kept =
     (if result = InterpretedUnsupported then result
      else if result \<noteq> InterpretedEmpty then interpretAlternative rest (kept @ [result])
      else interpretAlternative rest kept)"

fun interpretHyperedge :: "hyper_join \<Rightarrow> interpret_result list \<Rightarrow> query_program list \<Rightarrow> interpret_result" where
  "interpretHyperedge join [] premises = InterpretedProgram (HyperedgeProgram join premises)"
| "interpretHyperedge join (result # rest) premises =
     (if result = InterpretedUnsupported then result
      else case asPrograms result of
             [] \<Rightarrow> InterpretedUnsupported
           | restored # _ \<Rightarrow> interpretHyperedge join rest (premises @ [restored]))"

primrec interpretQuery :: "query_program \<Rightarrow> bool \<Rightarrow> interpret_result" where
  "interpretQuery EpsilonProgram productKeySufficient = InterpretedEpsilon"
| "interpretQuery EmptyProgram productKeySufficient = InterpretedEmpty"
| "interpretQuery (RelationProgram r) productKeySufficient = InterpretedProgram (RelationProgram r)"
| "interpretQuery (SequenceProgram ps) productKeySufficient =
     interpretSequence (map (\<lambda>f. f productKeySufficient) (map interpretQuery ps)) []"
| "interpretQuery (AlternativeProgram ps) productKeySufficient =
     interpretAlternative (map (\<lambda>f. f productKeySufficient) (map interpretQuery ps)) []"
| "interpretQuery (RepeatProgram locals k body) productKeySufficient =
     (if k < 1 \<or> k > 8 then InterpretedUnsupported
      else interpretSequence (replicate (nat k) (interpretQuery body productKeySufficient)) [])"
| "interpretQuery (ClosureProgram locals sufficient body) productKeySufficient =
     (if \<not> sufficient then InterpretedUnsupported
      else if \<not> productKeySufficient then InterpretedProgram (ClosureProgram locals sufficient body)
      else interpretQuery body productKeySufficient)"
| "interpretQuery (HyperedgeProgram join ps) productKeySufficient =
     interpretHyperedge join (map (\<lambda>f. f productKeySufficient) (map interpretQuery ps)) []"

datatype runtime_program = RuntimeEmpty | RuntimeEpsilon | RuntimeProgram query_program

definition runtimeProgram :: "query_program \<Rightarrow> runtime_program" where
  "runtimeProgram program =
     (case interpretQuery program False of
        InterpretedEmpty \<Rightarrow> RuntimeEmpty
      | InterpretedEpsilon \<Rightarrow> RuntimeEpsilon
      | InterpretedUnsupported \<Rightarrow> RuntimeEmpty
      | InterpretedProgram _ \<Rightarrow> RuntimeProgram program)"

definition queryAdmitsGuaranteedSeed :: "query_program \<Rightarrow> bool" where
  "queryAdmitsGuaranteedSeed program \<longleftrightarrow> runtimeProgram program \<noteq> RuntimeEmpty"

definition seedProgramStates :: "query_program \<Rightarrow> program_automaton option \<Rightarrow> string + string list" where
  "seedProgramStates program compiled =
     (case runtimeProgram program of
        RuntimeEmpty \<Rightarrow> Inr []
      | RuntimeEpsilon \<Rightarrow> Inr [ACCEPTING_PROGRAM_STATE]
      | RuntimeProgram runtime \<Rightarrow>
          (case compiled of
             Some a \<Rightarrow> Inr (pa_start a)
           | None \<Rightarrow> map_sum id pa_start (compileProgramAutomaton runtime)))"

section \<open>Verdicts and languages\<close>

text \<open>What a verdict says of a language: nothing is unsupported, empty means empty, epsilon means \<open>{[]}\<close>.\<close>

fun agrees :: "interpret_result \<Rightarrow> program_language \<Rightarrow> bool" where
  "agrees InterpretedUnsupported L = False"
| "agrees InterpretedEmpty L = (L = {})"
| "agrees InterpretedEpsilon L = (L = {[]})"
| "agrees (InterpretedProgram p) L = (L \<noteq> {})"

lemma agrees_empty: "agrees r L \<Longrightarrow> r = InterpretedEmpty \<longleftrightarrow> L = {}"
  by (cases r) auto

lemma foldr_conc_empty_iff: "foldr conc Ls {[]} = {} \<longleftrightarrow> {} \<in> set Ls"
  by (induction Ls) (auto simp: conc_empty_iff)

lemma interpretSequence_verdict:
  "list_all2 agrees rs Ls \<Longrightarrow> (\<forall>k \<in> set kept. \<exists>p. k = InterpretedProgram p) \<Longrightarrow>
     interpretSequence rs kept \<noteq> InterpretedUnsupported \<and>
     (interpretSequence rs kept = InterpretedEmpty \<longleftrightarrow> {} \<in> set Ls) \<and>
     (interpretSequence rs kept = InterpretedEpsilon \<longrightarrow> kept = [] \<and> (\<forall>L \<in> set Ls. L = {[]}))"
proof (induction rs arbitrary: Ls kept)
  case Nil
  then show ?case by (cases kept) auto
next
  case (Cons r rs)
  then obtain L Ms where Ls: "Ls = L # Ms" "agrees r L" "list_all2 agrees rs Ms" by (auto simp: list_all2_Cons1)
  show ?case
  proof (cases r)
    case (InterpretedProgram p)
    then have "\<forall>k \<in> set (kept @ [r]). \<exists>p. k = InterpretedProgram p" using Cons.prems(2) by auto
    from Cons.IH [OF Ls(3) this] show ?thesis using InterpretedProgram Ls by auto
  next
    case InterpretedEpsilon
    then show ?thesis using Cons.IH [OF Ls(3) Cons.prems(2)] Ls by auto
  qed (use Ls in auto)
qed

lemma conc_epsilons: "(\<forall>L \<in> set Ls. L = {[]}) \<Longrightarrow> foldr conc Ls {[]} = {[]}"
  by (induction Ls) auto

lemma interpretSequence_agrees:
  assumes "list_all2 agrees rs Ls"
  shows "agrees (interpretSequence rs []) (foldr conc Ls {[]})"
  using interpretSequence_verdict [OF assms, of "[]"] conc_epsilons [of Ls] foldr_conc_empty_iff [of Ls]
  by (cases "interpretSequence rs []") auto

text \<open>The alternatives kept so far, with the languages they had.\<close>

lemma interpretAlternative_agrees:
  "list_all2 agrees rs Ls \<Longrightarrow> list_all2 agrees kept Ms \<Longrightarrow> InterpretedEmpty \<notin> set kept \<Longrightarrow>
     agrees (interpretAlternative rs kept) (\<Union> (set Ms) \<union> \<Union> (set Ls))"
proof (induction rs arbitrary: Ls kept Ms)
  case Nil
  show ?case
  proof (cases kept)
    case Nil
    then show ?thesis using Nil.prems by auto
  next
    case (Cons k ks)
    then obtain M Ns where M: "Ms = M # Ns" "agrees k M" "list_all2 agrees ks Ns"
      using Nil.prems(2) by (auto simp: list_all2_Cons1)
    have "M \<noteq> {}" using M(2) Nil.prems(3) Cons by (cases k) auto
    then show ?thesis using M Cons Nil.prems(1) by (cases ks) auto
  qed
next
  case (Cons r rs)
  then obtain L Ns where Ls: "Ls = L # Ns" "agrees r L" "list_all2 agrees rs Ns" by (auto simp: list_all2_Cons1)
  show ?case
  proof (cases "r = InterpretedEmpty")
    case True
    then show ?thesis using Cons.IH [OF Ls(3) Cons.prems(2,3)] Ls by auto
  next
    case False
    have "list_all2 agrees (kept @ [r]) (Ms @ [L])" using Cons.prems(2) Ls(2) by (auto intro: list_all2_appendI)
    from Cons.IH [OF Ls(3) this] show ?thesis using False Ls Cons.prems(3) by (cases r) (auto simp: ac_simps)
  qed
qed

lemma interpretHyperedge_program:
  "InterpretedUnsupported \<notin> set rs \<Longrightarrow> \<exists>qs. interpretHyperedge j rs ps = InterpretedProgram (HyperedgeProgram j qs)"
proof (induction rs arbitrary: ps)
  case (Cons r rs)
  then show ?case by (cases r) auto
qed simp

lemma lang_power_foldr: "lang_power n L = foldr conc (replicate n L) {[]}"
  by (induction n) auto

lemma interpretQuery_agrees: "query_program_ok guard_ok p \<Longrightarrow> agrees (interpretQuery p False) (program_lang p)"
proof (induction p)
  case (SequenceProgram ps)
  have ok: "\<forall>p \<in> set ps. query_program_ok guard_ok p" "ps \<noteq> []" using SequenceProgram.prems by (auto dest!: program_list_okD)
  then have "list_all2 agrees (map (\<lambda>p. interpretQuery p False) ps) (map program_lang ps)"
    using SequenceProgram.IH by (simp add: list_all2_map1 list_all2_map2 list_all2_same)
  from interpretSequence_agrees [OF this] show ?case
    using ok(2) sequence_lang_foldr [of "map program_lang ps"] by (simp add: comp_def)
next
  case (AlternativeProgram ps)
  have ok: "\<forall>p \<in> set ps. query_program_ok guard_ok p" "ps \<noteq> []" using AlternativeProgram.prems by (auto dest!: program_list_okD)
  then have "list_all2 agrees (map (\<lambda>p. interpretQuery p False) ps) (map program_lang ps)"
    using AlternativeProgram.IH by (simp add: list_all2_map1 list_all2_map2 list_all2_same)
  from interpretAlternative_agrees [OF this, of "[]" "[]"] show ?case by (simp add: comp_def)
next
  case (RepeatProgram l k p)
  then have "list_all2 agrees (replicate (nat k) (interpretQuery p False)) (replicate (nat k) (program_lang p))"
    by (simp add: list_all2_conv_all_nth)
  from interpretSequence_agrees [OF this] show ?case
    using RepeatProgram.prems by (simp add: lang_power_foldr)
next
  case (ClosureProgram l s p)
  have "[] \<in> star (program_lang p)" by (rule star_Nil)
  then show ?case using ClosureProgram.prems by auto
next
  case (HyperedgeProgram j ps)
  have "agrees (interpretQuery q False) (program_lang q)" if "q \<in> set ps" for q
    using HyperedgeProgram.IH [OF that] HyperedgeProgram.prems that by (auto dest!: program_list_okD)
  then have "InterpretedUnsupported \<notin> set (map (\<lambda>p. interpretQuery p False) ps)"
    by (auto) (metis agrees.simps(1))
  from interpretHyperedge_program [OF this, of j "[]"] show ?case by (auto simp: comp_def)
qed auto

text \<open>C0: 
  the verdict of the interpreter on a schema-valid program is right: it is never unsupported, it is
  empty exactly when the program denotes no sequence of steps at all, and epsilon only when the empty
  sequence is the only one; the program is admitted as a guaranteed seed exactly when its language
  is not empty.
\<close>

theorem interpretation_decides_emptiness:
  assumes "query_program_ok guard_ok p"
  shows "interpretQuery p False \<noteq> InterpretedUnsupported \<and>
    (interpretQuery p False = InterpretedEmpty \<longleftrightarrow> program_lang p = {}) \<and>
    (interpretQuery p False = InterpretedEpsilon \<longrightarrow> program_lang p = {[]}) \<and>
    (queryAdmitsGuaranteedSeed p \<longleftrightarrow> program_lang p \<noteq> {})"
  using interpretQuery_agrees [OF assms]
  by (cases "interpretQuery p False") (auto simp: queryAdmitsGuaranteedSeed_def runtimeProgram_def)

lemma interpretation_decides_emptiness_witness:
  "interpretQuery (SequenceProgram [RepeatProgram None 3 EpsilonProgram, AlternativeProgram [EmptyProgram]]) False = InterpretedEmpty \<and>
   program_lang (SequenceProgram [RepeatProgram None 3 EpsilonProgram, AlternativeProgram [EmptyProgram]]) = {}"
proof -
  let ?p = "SequenceProgram [RepeatProgram None 3 EpsilonProgram, AlternativeProgram [EmptyProgram]]"
  have "query_program_ok (\<lambda>_. True) ?p" by (simp add: sample_relation_ok program_list_ok_def local_variables_ok_def BOUNDED_DEFAULT_ARRAY_MAX_def)
  moreover have "interpretQuery ?p False = InterpretedEmpty" by (simp add: numeral_3_eq_3)
  ultimately show ?thesis using interpretation_decides_emptiness [of "\<lambda>_. True" ?p] by simp
qed

text \<open>No advance leaves the accepting state, whatever the program.\<close>

lemma nothing_leaves_accepting: "accepts_from (build_automaton p) [ACCEPTING_PROGRAM_STATE] w \<longleftrightarrow> w = []"
proof (cases w)
  case (Cons x v)
  obtain f b0 where f: "compileFragment p empty_builder = (f, b0)" by fastforce
  let ?b = "addEps b0 (fr_accept f) ACCEPTING_PROGRAM_STATE"
  have "transitions_of empty_builder = {}"
    by (simp add: transitions_of_def empty_builder_def eps_targets_def relation_edges_def hyperedge_edges_def)
  then have "stays_in (region 0 (bd_next b0)) (transitions_of b0)" "fr_accept f \<in> region 0 (bd_next b0)"
    using compilesD [OF compileFragment_compiles f] by (auto simp: builds_def spells_def empty_builder_def)
  then have none: "(ACCEPTING_PROGRAM_STATE, Some y, t) \<notin> transitions_of ?b" for y t
    using accepting_not_in_region [of 0 "bd_next b0"] by (auto simp: stays_in_def)
  have cl: "close_builder ?b (build_automaton p)" using f by (simp add: close_builder_def build_automaton_def Let_def)
  have "liveStates ?b (epsilonClosure (bd_eps ?b) ts) = []" if "ts \<in> set (raw_targets ?b ACCEPTING_PROGRAM_STATE x)" for ts
  proof -
    have "ts = []" using none that by (metis hd_in_set raw_targets_edges)
    then show ?thesis by (simp add: epsilonClosure_def epsilon_loop.simps liveStates_def)
  qed
  then have "symbol_targets (build_automaton p) ACCEPTING_PROGRAM_STATE x = []"
    unfolding symbol_targets_closed [OF cl] by simp
  moreover have "accepts_from (build_automaton p) [] u = False" for u by (induction u) auto
  ultimately show ?thesis using Cons by simp
qed simp

text \<open>C21: 
  the seeds of a program agree with its automaton: whether the shortcut for an empty or a trivial
  program is taken or the start states of the automaton are used, the words accepted from the seeds
  are the language of the program.
\<close>

theorem seeds_accept_program_language:
  assumes "query_program_ok guard_ok p" "compileProgramAutomaton p = Inr a" "seedProgramStates p None = Inr qs"
  shows "accepts_from a qs w \<longleftrightarrow> w \<in> program_lang p"
proof (cases "interpretQuery p False")
  case InterpretedEpsilon
  then have "qs = [ACCEPTING_PROGRAM_STATE]" "program_lang p = {[]}"
    using assms(3) interpretQuery_agrees [OF assms(1)] by (simp_all add: seedProgramStates_def runtimeProgram_def)
  moreover have "a = build_automaton p \<or> a = emptyAutomaton \<or> a = epsilonAutomaton"
    using assms(2) by (cases p) (auto simp: compileProgramAutomaton_def split: sum.splits)
  moreover have "p \<noteq> EmptyProgram" using InterpretedEpsilon by auto
  ultimately show ?thesis
    using nothing_leaves_accepting [of p w] accepts_epsilon [of w] assms(2)
    by (cases p) (auto simp: accepts_def epsilonAutomaton_def compileProgramAutomaton_def split: sum.splits)
next
  case InterpretedEmpty
  have "accepts_from a [] w = False" by (induction w) auto
  then show ?thesis
    using assms(3) InterpretedEmpty interpretQuery_agrees [OF assms(1)] by (auto simp: seedProgramStates_def runtimeProgram_def)
next
  case (InterpretedProgram q)
  then have "qs = pa_start a" using assms by (simp add: seedProgramStates_def runtimeProgram_def)
  then show ?thesis using automaton_accepts_program_language [OF assms(2), of w] by (simp add: accepts_def)
next
  case InterpretedUnsupported
  then show ?thesis using interpretQuery_agrees [OF assms(1)] by simp
qed

lemma seeds_accept_program_language_witness:
  "\<exists>a qs. seedProgramStates (AlternativeProgram [EmptyProgram, RelationProgram sample_relation]) None = Inr qs \<and>
     compileProgramAutomaton (AlternativeProgram [EmptyProgram, RelationProgram sample_relation]) = Inr a \<and>
     accepts_from a qs [RelationStep sample_relation] \<and> \<not> accepts_from a qs []"
proof -
  let ?p = "AlternativeProgram [EmptyProgram, RelationProgram sample_relation]"
  have c: "compileProgramAutomaton ?p = Inr (build_automaton ?p)"
    by (simp add: compileProgramAutomaton_def programAutomatonCost_def is_safe_integer_def sum_sizes_def Let_def)
  have s: "seedProgramStates ?p None = Inr (pa_start (build_automaton ?p))"
    unfolding seedProgramStates_def runtimeProgram_def by (simp add: c)
  have ok: "query_program_ok (\<lambda>_. True) ?p" by (simp add: sample_relation_ok program_list_ok_def local_variables_ok_def BOUNDED_DEFAULT_ARRAY_MAX_def)
  note acc = seeds_accept_program_language [OF ok c s]
  have "accepts_from (build_automaton ?p) (pa_start (build_automaton ?p)) [RelationStep sample_relation]"
    "\<not> accepts_from (build_automaton ?p) (pa_start (build_automaton ?p)) []"
    by (simp_all only: acc) simp_all
  then show ?thesis using c s by blast
qed

end
