(* ===== verification/BindingEnvironment.thy ===== *)
theory BindingEnvironment
  imports QueryInterpretation UtcInstants PersistentStringMap
begin

text \<open>
  The binding contexts of the conditional field
  (\<^verbatim>\<open>core/src/recall/conditional-field/engine/binding-environment.ts\<close>): the text form of a variable
  environment, the store that retains the long ones under their digest, and the operations that seed
  and align an environment with an automaton. The digest is a parameter \<open>hex_of\<close>: the SHA-256 hex of
  \<^verbatim>\<open>JSON.stringify(packed)\<close>, documented to be 64 lower-case hexadecimal digits. An environment, a
  \<^verbatim>\<open>Map\<close>, is an association list with distinct keys; a string is a list of 8-bit code units.
\<close>

section \<open>The store of long contexts\<close>

datatype binding_error = BindingContextUnavailable string | BindingContextResource string | DigestInvalid

record binding_store =
  bs_rows :: "(string, string) pnode"
  bs_retainedBytes :: int
  bs_limit :: int
  bs_sealed :: bool

definition new_store :: "int \<Rightarrow> binding_store" where
  "new_store limit = \<lparr>bs_rows = Undef, bs_retainedBytes = 0, bs_limit = limit, bs_sealed = False\<rparr>"

definition fork :: "int option \<Rightarrow> binding_store \<Rightarrow> binding_store" where
  "fork availableBytes s =
     (let available = (case availableBytes of None \<Rightarrow> max 0 (bs_limit s - bs_retainedBytes s) | Some b \<Rightarrow> b)
      in \<lparr>bs_rows = bs_rows s, bs_retainedBytes = bs_retainedBytes s,
          bs_limit = bs_retainedBytes s + available, bs_sealed = False\<rparr>)"

definition setAvailableBytes :: "int \<Rightarrow> binding_store \<Rightarrow> binding_store" where
  "setAvailableBytes bytes s = s\<lparr>bs_limit := bs_retainedBytes s + max 0 bytes\<rparr>"

definition snapshot :: "binding_store \<Rightarrow> binding_store" where
  "snapshot s = (fork None s)\<lparr>bs_sealed := True\<rparr>"

definition store_get :: "binding_store \<Rightarrow> string \<Rightarrow> string option" where
  "store_get s digest = pm_get (bs_rows s) digest"

definition retain :: "string \<Rightarrow> string \<Rightarrow> binding_store \<Rightarrow> (binding_error + unit) \<times> binding_store" where
  "retain digest packed s =
     (if bs_sealed s
      then (Inl (BindingContextResource ''fork the retained field binding owner before extending it''), s)
      else case store_get s digest of
             Some prior \<Rightarrow>
               if prior \<noteq> packed then (Inl (BindingContextUnavailable ''binding digest collision''), s)
               else (Inr (), s)
           | None \<Rightarrow>
               let bytes = 128 + 2 * (int (length digest) + int (length packed))
               in if bs_retainedBytes s + bytes > bs_limit s
                  then (Inl (BindingContextResource ''binding context memory exhausted''), s)
                  else (Inr (), s\<lparr>bs_rows := pm_with (bs_rows s) digest packed,
                                 bs_retainedBytes := bs_retainedBytes s + bytes\<rparr>))"

section \<open>The text form\<close>

definition UNBOUND_BINDING :: string where
  "UNBOUND_BINDING = ''unbound''"

definition is_hex_char :: "char \<Rightarrow> bool" where
  "is_hex_char c \<longleftrightarrow> c \<in> set ''0123456789abcdef''"

definition is_sha256_hex :: "string \<Rightarrow> bool" where
  "is_sha256_hex s \<longleftrightarrow> length s = 64 \<and> list_all is_hex_char s"

definition is_sha256_digest :: "string \<Rightarrow> bool" where
  "is_sha256_digest s \<longleftrightarrow> take 7 s = ''sha256:'' \<and> is_sha256_hex (drop 7 s)"

definition formatConditionalFieldDigest :: "string \<Rightarrow> binding_error + string" where
  "formatConditionalFieldDigest hex = (if \<not> is_sha256_hex hex then Inl DigestInvalid else Inr (''sha256:'' @ hex))"

definition escape_char :: "char \<Rightarrow> string" where
  "escape_char c =
     (if c = CHR ''%'' then ''%25'' else if c = CHR ''='' then ''%3D'' else if c = CHR '';'' then ''%3B'' else [c])"

definition escapeBindingPart :: "string \<Rightarrow> string" where
  "escapeBindingPart value = concat (map escape_char value)"

fun unescapeBindingPart :: "string \<Rightarrow> string" where
  "unescapeBindingPart (c1 # c2 # c3 # rest) =
     (if [c1, c2, c3] = ''%25'' then CHR ''%'' # unescapeBindingPart rest
      else if [c1, c2, c3] = ''%3D'' then CHR ''='' # unescapeBindingPart rest
      else if [c1, c2, c3] = ''%3B'' then CHR '';'' # unescapeBindingPart rest
      else c1 # unescapeBindingPart (c2 # c3 # rest))"
| "unescapeBindingPart s = s"

type_synonym environment = "(string \<times> string) list"

definition pack_environment :: "environment \<Rightarrow> string" where
  "pack_environment env =
     js_join '';'' (map (\<lambda>(variable, value). escapeBindingPart variable @ ''='' @ escapeBindingPart value)
       (js_sort (\<lambda>l r. compareCodeUnits (fst l) (fst r)) env))"

definition encodeBindingContext :: "(string \<Rightarrow> string) \<Rightarrow> environment \<Rightarrow> binding_store option
    \<Rightarrow> (binding_error + string) \<times> binding_store option" where
  "encodeBindingContext hex_of env owner =
     (if env = [] then (Inr UNBOUND_BINDING, owner)
      else let packed = pack_environment env in
        if length packed \<le> 256 then (Inr packed, owner)
        else case formatConditionalFieldDigest (hex_of packed) of
          Inl e \<Rightarrow> (Inl e, owner)
        | Inr digest \<Rightarrow>
            (case owner of
               None \<Rightarrow> (Inl (BindingContextUnavailable ''long binding requires an execution owner''), owner)
             | Some s \<Rightarrow>
                 (case retain digest packed s of
                    (Inl e, s') \<Rightarrow> (Inl e, Some s')
                  | (Inr _, s') \<Rightarrow> (Inr digest, Some s'))))"

definition recoverBindingContext :: "string \<Rightarrow> binding_store option \<Rightarrow> binding_error + string" where
  "recoverBindingContext context owner =
     (if \<not> is_sha256_digest context then Inr context
      else case (case owner of None \<Rightarrow> None | Some s \<Rightarrow> store_get s context) of
        None \<Rightarrow> Inl (BindingContextUnavailable ''binding context is unavailable in this execution'')
      | Some packed \<Rightarrow> Inr packed)"

text \<open>One part of the packed text; a part without a name before the first \<open>=\<close> is skipped.\<close>

definition parse_part :: "string \<Rightarrow> environment \<Rightarrow> environment" where
  "parse_part part env =
     (let name = takeWhile (\<lambda>c. c \<noteq> CHR ''='') part
      in if CHR ''='' \<notin> set part \<or> name = [] then env
         else AList.update (unescapeBindingPart name) (unescapeBindingPart (drop (Suc (length name)) part)) env)"

definition parse_packed :: "string \<Rightarrow> environment" where
  "parse_packed packed =
     (if length packed = 0 \<or> packed = UNBOUND_BINDING \<or> packed = ''default'' then []
      else fold parse_part (js_split CHR '';'' packed) [])"

definition parseBindingContext :: "string \<Rightarrow> binding_store option \<Rightarrow> binding_error + environment" where
  "parseBindingContext context owner = map_sum id parse_packed (recoverBindingContext context owner)"

section \<open>Environments against an automaton\<close>

definition unifyBinding :: "environment \<Rightarrow> string \<Rightarrow> string \<Rightarrow> environment option" where
  "unifyBinding env variable val =
     (case map_of env variable of
        None \<Rightarrow> Some (AList.update variable val env)
      | Some existing \<Rightarrow> if existing = val then Some env else None)"

definition bindingsFromHypothesis :: "(string \<times> string) list option \<Rightarrow> environment" where
  "bindingsFromHypothesis hypothesis =
     (case hypothesis of None \<Rightarrow> [] | Some bindings \<Rightarrow> fold (\<lambda>(variable, val). AList.update variable val) bindings [])"

primrec unify_all :: "string list \<Rightarrow> string \<Rightarrow> environment \<Rightarrow> environment option" where
  "unify_all [] objectId env = Some env"
| "unify_all (v # vs) objectId env =
     (case unifyBinding env v objectId of None \<Rightarrow> None | Some nxt \<Rightarrow> unify_all vs objectId nxt)"

definition names_at :: "(string \<times> 'x list) list \<Rightarrow> string \<Rightarrow> 'x list" where
  "names_at m state = (case map_of m state of None \<Rightarrow> [] | Some vs \<Rightarrow> vs)"

text \<open>Both functions answer \<open>None\<close> (\<^verbatim>\<open>undefined\<close>) when a variable is bound to another object.\<close>

definition seedBindingContext :: "(string \<Rightarrow> string) \<Rightarrow> program_automaton option \<Rightarrow> string
    \<Rightarrow> (string \<times> string) list option \<Rightarrow> string \<Rightarrow> binding_store option
    \<Rightarrow> (binding_error + string option) \<times> binding_store option" where
  "seedBindingContext hex_of automaton objectId hypothesisBindings programState owner =
     (case unify_all (case automaton of None \<Rightarrow> [] | Some a \<Rightarrow> names_at (pa_sourceVariables a) programState) objectId
             (bindingsFromHypothesis hypothesisBindings) of
        None \<Rightarrow> (Inr None, owner)
      | Some env \<Rightarrow> (let (r, owner') = encodeBindingContext hex_of env owner in (map_sum id Some r, owner')))"

definition alignOutgoingBinding :: "(string \<Rightarrow> string) \<Rightarrow> string \<Rightarrow> string \<Rightarrow> program_automaton \<Rightarrow> string
    \<Rightarrow> binding_store option \<Rightarrow> (binding_error + string option) \<times> binding_store option" where
  "alignOutgoingBinding hex_of binding objectId automaton programState owner =
     (case parseBindingContext binding owner of
        Inl e \<Rightarrow> (Inl e, owner)
      | Inr parsed \<Rightarrow>
          (let env = fold AList.delete (names_at (pa_localVariables automaton) programState) parsed
           in case unify_all (map (\<lambda>a. qr_source_variable (aa_relation a)) (names_at (pa_advancesByState automaton) programState))
                     objectId env of
                None \<Rightarrow> (Inr None, owner)
              | Some env' \<Rightarrow> (let (r, owner') = encodeBindingContext hex_of env' owner in (map_sum id Some r, owner'))))"

section \<open>Escaping and packing are reversible\<close>

lemma escape_char_safe: "CHR ''='' \<notin> set (escape_char c) \<and> CHR '';'' \<notin> set (escape_char c)"
  by (auto simp: escape_char_def)

lemma escape_safe: "CHR ''='' \<notin> set (escapeBindingPart s) \<and> CHR '';'' \<notin> set (escapeBindingPart s)"
  using escape_char_safe by (auto simp: escapeBindingPart_def)

lemma escape_nonempty: "escapeBindingPart s = [] \<longleftrightarrow> s = []"
  by (cases s) (auto simp: escapeBindingPart_def escape_char_def)

lemma unescape_plain: "c \<noteq> CHR ''%'' \<Longrightarrow> unescapeBindingPart (c # s) = c # unescapeBindingPart s"
  by (cases s rule: unescapeBindingPart.cases) auto

lemma unescape_escape: "unescapeBindingPart (escapeBindingPart s) = s"
proof (induction s)
  case Nil then show ?case by (simp add: escapeBindingPart_def)
next
  case (Cons c s)
  then show ?case
    by (cases "c = CHR ''%'' \<or> c = CHR ''='' \<or> c = CHR '';''")
      (auto simp: escapeBindingPart_def escape_char_def unescape_plain)
qed

lemma split_join:
  "(\<forall>p \<in> set ps. CHR '';'' \<notin> set p) \<Longrightarrow> ps \<noteq> [] \<Longrightarrow> js_split CHR '';'' (js_join '';'' ps) = ps"
proof (induction ps)
  case (Cons p ps)
  show ?case
  proof (cases ps)
    case Nil
    then show ?thesis using Cons.prems by (simp add: js_join_def js_split_no_sep)
  next
    case (Cons q qs)
    then have "js_join '';'' (p # ps) = p @ CHR '';'' # js_join '';'' ps" by (simp add: js_join_def)
    then show ?thesis using Cons.IH Cons.prems Cons by (simp add: js_split_at)
  qed
qed simp

lemma parse_part_entry:
  "k \<noteq> [] \<Longrightarrow> parse_part (escapeBindingPart k @ ''='' @ escapeBindingPart v) env = AList.update k v env"
proof -
  assume k: "k \<noteq> []"
  have "takeWhile (\<lambda>c. c \<noteq> CHR ''='') (escapeBindingPart k @ CHR ''='' # escapeBindingPart v) = escapeBindingPart k"
    using escape_safe [of k] by (subst takeWhile_append2) auto
  then show ?thesis using k by (simp add: parse_part_def escape_nonempty unescape_escape)
qed

lemma parse_entries:
  "(\<forall>k \<in> set (map fst es). k \<noteq> []) \<Longrightarrow>
     fold parse_part (map (\<lambda>(k, v). escapeBindingPart k @ ''='' @ escapeBindingPart v) es) env =
     fold (\<lambda>(k, v). AList.update k v) es env"
proof (induction es arbitrary: env)
  case (Cons e es)
  obtain k v where e: "e = (k, v)" by fastforce
  then show ?case using Cons parse_part_entry [of k v env] by simp
qed simp

lemma map_of_fold_update: "map_of (fold (\<lambda>(k, v). AList.update k v) es env) = map_of env ++ map_of (List.rev es)"
  by (induction es arbitrary: env) (auto simp: update_conv' fun_eq_iff map_add_def split: option.splits)

lemma parse_pack:
  assumes "distinct (map fst env)" "[] \<notin> set (map fst env)" "env \<noteq> []"
  shows "map_of (parse_packed (pack_environment env)) = map_of env \<and> CHR ''='' \<in> set (pack_environment env)"
proof -
  let ?sorted = "js_sort (\<lambda>l r. compareCodeUnits (fst l) (fst r)) env"
  let ?part = "\<lambda>(k, v). escapeBindingPart k @ ''='' @ escapeBindingPart v"
  have ne: "?sorted \<noteq> []" using assms(3) set_js_sort [of "\<lambda>l r. compareCodeUnits (fst l) (fst r)" env] by (metis set_empty)
  have keys: "set (map fst ?sorted) = set (map fst env)" by simp
  have d: "distinct (map fst ?sorted)"
    using assms(1) distinct_map_mset [of ?sorted env fst] by simp
  have packed: "pack_environment env = js_join '';'' (map ?part ?sorted)" by (simp add: pack_environment_def)
  have sep: "\<forall>p \<in> set (map ?part ?sorted). CHR '';'' \<notin> set p" using escape_safe by auto
  obtain x xs where x: "?sorted = x # xs" using ne by (cases ?sorted) auto
  have eq: "CHR ''='' \<in> set (pack_environment env)"
    unfolding packed x by (cases x) (auto simp: js_join_def split: list.splits)
  then have "pack_environment env \<noteq> []" "pack_environment env \<noteq> UNBOUND_BINDING" "pack_environment env \<noteq> ''default''"
    by (auto simp: UNBOUND_BINDING_def)
  then have "parse_packed (pack_environment env) = fold parse_part (map ?part ?sorted) []"
    using split_join [OF sep] ne by (simp add: parse_packed_def packed)
  also have "\<dots> = fold (\<lambda>(k, v). AList.update k v) ?sorted []"
    by (rule parse_entries) (unfold keys, use assms(2) in blast)
  finally have "map_of (parse_packed (pack_environment env)) = map_of (List.rev ?sorted)"
    by (simp add: map_of_fold_update)
  also have "\<dots> = map_of env"
  proof -
    have "distinct (map fst (List.rev ?sorted))" using d by (simp add: rev_map [symmetric])
    then show ?thesis using map_of_inject_set [OF _ assms(1)] by simp
  qed
  finally show ?thesis using eq by blast
qed

section \<open>Retained contexts stay readable\<close>

definition store_ok :: "binding_store \<Rightarrow> bool" where
  "store_ok s \<longleftrightarrow> pm_inv (bs_rows s)"

lemma new_store_ok: "store_ok (new_store limit)"
  by (simp add: store_ok_def new_store_def pm.invar_empty)

lemma retain_keeps:
  "store_ok s \<Longrightarrow> store_ok (snd (retain d p s))"
  "store_ok s \<Longrightarrow> store_get s x = Some y \<Longrightarrow> store_get (snd (retain d p s)) x = Some y"
  by (auto simp: retain_def store_ok_def store_get_def Let_def pm.invar_upd pm.get_upd split: option.splits)

lemma retain_stores: "store_ok s \<Longrightarrow> retain d p s = (Inr u, s') \<Longrightarrow> store_get s' d = Some p"
  by (auto simp: retain_def store_ok_def store_get_def Let_def pm.get_upd split: option.splits if_splits)

datatype store_operation = EncodeOperation environment | ForkOperation "int option" | SnapshotOperation | AvailableOperation int

fun apply_operation :: "(string \<Rightarrow> string) \<Rightarrow> store_operation \<Rightarrow> binding_store \<Rightarrow> binding_store" where
  "apply_operation hex_of (EncodeOperation env) s =
     (case snd (encodeBindingContext hex_of env (Some s)) of None \<Rightarrow> s | Some s' \<Rightarrow> s')"
| "apply_operation hex_of (ForkOperation b) s = fork b s"
| "apply_operation hex_of SnapshotOperation s = snapshot s"
| "apply_operation hex_of (AvailableOperation b) s = setAvailableBytes b s"

lemma encode_store:
  "\<exists>s'. snd (encodeBindingContext hex_of env (Some s)) = Some s' \<and> (s' = s \<or> (\<exists>d p. s' = snd (retain d p s)))"
  by (auto simp: encodeBindingContext_def Let_def split: sum.splits prod.splits) (metis snd_conv)+

lemma apply_operation_keeps:
  assumes "store_ok s"
  shows "store_ok (apply_operation hex_of p s) \<and> (store_get s x = Some y \<longrightarrow> store_get (apply_operation hex_of p s) x = Some y)"
proof (cases p)
  case (EncodeOperation env)
  obtain s' where s': "snd (encodeBindingContext hex_of env (Some s)) = Some s'" "s' = s \<or> (\<exists>d p. s' = snd (retain d p s))"
    using encode_store [of hex_of env s] by blast
  have "apply_operation hex_of p s = s'" using EncodeOperation s'(1) by simp
  then show ?thesis using s'(2) retain_keeps(1) [OF assms] retain_keeps(2) [OF assms, of x y] assms by auto
qed (use assms in \<open>auto simp: fork_def snapshot_def setAvailableBytes_def store_ok_def store_get_def Let_def\<close>)

lemma operations_keep:
  "store_ok s \<Longrightarrow> store_get s x = Some y \<Longrightarrow> store_get (fold (apply_operation hex_of) ps s) x = Some y"
proof (induction ps arbitrary: s)
  case (Cons p ps)
  then show ?case using apply_operation_keeps [OF Cons.prems(1), of hex_of p x y] by simp
qed simp

lemma digest_without_equals: "is_sha256_digest s \<Longrightarrow> CHR ''='' \<notin> set s"
proof -
  assume a: "is_sha256_digest s"
  have "\<not> is_hex_char CHR ''=''" by (simp add: is_hex_char_def)
  then have "CHR ''='' \<notin> set (drop 7 s)" using a unfolding is_sha256_digest_def is_sha256_hex_def list_all_iff by blast
  moreover have "take 7 s = ''sha256:''" using a unfolding is_sha256_digest_def by blast
  then have "CHR ''='' \<notin> set (take 7 s)" by simp
  ultimately show ?thesis by (metis Un_iff append_take_drop_id set_append)
qed

text \<open>C19: 
  a binding context can always be read back: the environment encoded into it, with whatever names and
  values (the separators are escaped), is the one parsed from it, at once and after any number of
  further encodes, forks, snapshots and budget changes of the store that retains the long ones.
\<close>

theorem binding_context_round_trip:
  assumes hex: "\<forall>s. is_sha256_hex (hex_of s)" and ok: "store_ok s"
    and env: "distinct (map fst env)" "[] \<notin> set (map fst env)"
    and enc: "encodeBindingContext hex_of env (Some s) = (Inr ctx, Some s')"
  shows "\<exists>env'. parseBindingContext ctx (Some (fold (apply_operation hex_of) ps s')) = Inr env' \<and> map_of env' = map_of env"
proof (cases "env = []")
  case True
  then have "ctx = UNBOUND_BINDING" using enc by (simp add: encodeBindingContext_def)
  then show ?thesis using True
    by (simp add: parseBindingContext_def recoverBindingContext_def parse_packed_def is_sha256_digest_def UNBOUND_BINDING_def)
next
  case ne: False
  let ?p = "pack_environment env" and ?final = "fold (apply_operation hex_of) ps s'"
  note pk = parse_pack [OF env ne]
  show ?thesis
  proof (cases "length ?p \<le> 256")
    case True
    then have "ctx = ?p" using enc ne by (simp add: encodeBindingContext_def)
    moreover have "\<not> is_sha256_digest ?p" using digest_without_equals pk by blast
    ultimately show ?thesis using pk by (simp add: parseBindingContext_def recoverBindingContext_def)
  next
    case False
    have h: "is_sha256_hex (hex_of ?p)" using hex by blast
    then have r: "ctx = ''sha256:'' @ hex_of ?p" "\<exists>u. retain ctx ?p s = (Inr u, s')"
      using enc ne False
      by (auto simp: encodeBindingContext_def Let_def formatConditionalFieldDigest_def split: prod.splits sum.splits)
    then have "store_get s' ctx = Some ?p" "store_ok s'"
      using retain_stores [OF ok] retain_keeps(1) [OF ok, of ctx ?p] by auto
    then have "store_get ?final ctx = Some ?p" by (rule operations_keep [rotated])
    moreover have "is_sha256_digest ctx" using r(1) h by (simp add: is_sha256_digest_def)
    ultimately show ?thesis using pk by (simp add: parseBindingContext_def recoverBindingContext_def)
  qed
qed

lemma binding_context_round_trip_witness:
  "\<exists>env'. parseBindingContext ''a%3D=b%3Bc'' (Some (fold (apply_operation (\<lambda>_. replicate 64 CHR ''0'')) [SnapshotOperation] (new_store 10))) = Inr env'
     \<and> map_of env' = map_of [(''a='', ''b;c'')]"
proof -
  let ?h = "\<lambda>_. replicate 64 CHR ''0''"
  have "encodeBindingContext ?h [(''a='', ''b;c'')] (Some (new_store 10)) = (Inr ''a%3D=b%3Bc'', Some (new_store 10))"
    by (simp add: encodeBindingContext_def pack_environment_def js_sort_def js_join_def escapeBindingPart_def escape_char_def)
  moreover have "\<forall>s. is_sha256_hex (?h s)" by (simp add: is_sha256_hex_def is_hex_char_def list_all_iff)
  ultimately show ?thesis
    using binding_context_round_trip [of ?h "new_store 10" "[(''a='', ''b;c'')]" "''a%3D=b%3Bc''" "new_store 10" "[SnapshotOperation]"]
      new_store_ok [of 10] by simp
qed

section \<open>Locals of nested constructs\<close>

text \<open>
  The states a run of a program starts in (the live ones of the closure of its first state), which are
  those that a closure or repeat around the program gives its local variables, and the variables that the
  advances of a state start from.
\<close>

definition entered :: "fragment \<Rightarrow> builder \<Rightarrow> string list" where
  "entered f b = liveStates b (epsilonClosure (bd_eps b) [fr_start f])"

definition entry_states :: "query_program \<Rightarrow> string list" where
  "entry_states program = (let (f, b) = compileFragment program empty_builder in entered f b)"

definition locals_of :: "string list option \<Rightarrow> string list" where
  "locals_of locals = (case locals of None \<Rightarrow> [] | Some l \<Rightarrow> l)"

definition source_variables_at :: "program_automaton \<Rightarrow> string \<Rightarrow> string list" where
  "source_variables_at automaton q = map (\<lambda>a. qr_source_variable (aa_relation a)) (names_at (pa_advancesByState automaton) q)"

lemma map_of_fold_same: "map_of (fold (\<lambda>q. AList.update q l) qs m) q = (if q \<in> set qs then Some l else map_of m q)"
  by (induction qs arbitrary: m) (simp_all add: update_conv')

lemma set_locals_entered: "q \<in> set (entered f b) \<Longrightarrow> map_of (bd_locals (set_locals f l b)) q = Some l"
  by (simp add: set_locals_def entered_def map_of_fold_same)

lemma entered_reachable: "set (entered f b) = {q. (fr_start f, q) \<in> (epsilon_step (bd_eps b))\<^sup>* \<and> (q = ACCEPTING_PROGRAM_STATE \<or> q \<in> outgoing_states b)}"
  by (auto simp: entered_def liveStates_def epsilonClosure_reachable)

lemma addEps_step: "epsilon_step (bd_eps (addEps b x y)) = insert (x, y) (epsilon_step (bd_eps b))"
  by (auto simp: epsilon_step_def addEps_eps split: if_splits)

lemma closure_compiled:
  assumes "c b = (f, b1)" "compileClosure c locals b = (g, b2)"
  shows "bd_locals b2 = bd_locals (set_locals f (locals_of locals) b1)" "bd_advances b2 = bd_advances b1"
    "set (entered f b1) \<subseteq> set (entered g b2)"
proof -
  note compiled = assms(2) [unfolded compileClosure_def assms(1) Let_def prod.case fresh_def]
  show "bd_locals b2 = bd_locals (set_locals f (locals_of locals) b1)" "bd_advances b2 = bd_advances b1"
    using compiled by (auto simp: locals_of_def)
  have "outgoing_states b2 = outgoing_states b1" using compiled by (auto simp: outgoing_states_def)
  moreover have step: "insert (fr_start g, fr_start f) (epsilon_step (bd_eps b1)) \<subseteq> epsilon_step (bd_eps b2)"
    using compiled by (auto simp: addEps_step)
  then have "(fr_start f, q) \<in> (epsilon_step (bd_eps b1))\<^sup>* \<Longrightarrow> (fr_start g, q) \<in> (epsilon_step (bd_eps b2))\<^sup>*" for q
    using rtrancl_mono [of "epsilon_step (bd_eps b1)" "epsilon_step (bd_eps b2)"] by (meson converse_rtrancl_into_rtrancl insert_subset subsetD)
  ultimately show "set (entered f b1) \<subseteq> set (entered g b2)" by (auto simp: entered_reachable)
qed

lemma build_parts:
  assumes "compileFragment program empty_builder = (f, b)"
  shows "pa_localVariables (build_automaton program) = bd_locals b"
    "source_variables_at (build_automaton program) q =
      map (\<lambda>a. qr_source_variable (aa_relation a)) (filter (\<lambda>a. aa_from a = q) (bd_advances b))"
  using assms
  by (simp_all add: build_automaton_def Let_def source_variables_at_def names_at_def indexAdvances_def map_of_index_fold closeAdvances_def
      filter_map o_def)

lemma nested_parts:
  fixes body :: query_program and inner_locals :: "string list option" and k :: bool
  defines "alone \<equiv> ClosureProgram inner_locals k body"
  assumes q: "q \<in> set (entry_states body)"
  shows "names_at (pa_localVariables (build_automaton alone)) q = locals_of inner_locals"
    "names_at (pa_localVariables (build_automaton (ClosureProgram outer_locals m alone))) q = locals_of outer_locals"
    "source_variables_at (build_automaton (ClosureProgram outer_locals m alone)) q = source_variables_at (build_automaton alone) q"
proof -
  obtain f b where body: "compileFragment body empty_builder = (f, b)" by fastforce
  obtain g b1 where one: "compileFragment alone empty_builder = (g, b1)" by fastforce
  obtain h b2 where two: "compileFragment (ClosureProgram outer_locals m alone) empty_builder = (h, b2)" by fastforce
  note inner = closure_compiled [of "compileFragment body", OF body one [unfolded alone_def compileFragment.simps]]
  note outer = closure_compiled [of "compileFragment alone", OF one two [unfolded compileFragment.simps]]
  have at: "q \<in> set (entered f b)" "q \<in> set (entered g b1)" using q inner(3) by (auto simp: entry_states_def body)
  show "names_at (pa_localVariables (build_automaton alone)) q = locals_of inner_locals"
    using set_locals_entered [OF at(1)] by (simp add: build_parts(1) [OF one] inner(1) names_at_def)
  show "names_at (pa_localVariables (build_automaton (ClosureProgram outer_locals m alone))) q = locals_of outer_locals"
    using set_locals_entered [OF at(2)] by (simp add: build_parts(1) [OF two] outer(1) names_at_def)
  show "source_variables_at (build_automaton (ClosureProgram outer_locals m alone)) q = source_variables_at (build_automaton alone) q"
    by (simp add: build_parts(2) [OF one] build_parts(2) [OF two] outer(2))
qed

lemma unify_one:
  "unifyBinding env u objectId = Some env1 \<Longrightarrow> map_of env v = Some a \<Longrightarrow> map_of env1 v = Some a"
  "map_of env v = Some a \<Longrightarrow> a \<noteq> objectId \<Longrightarrow> unifyBinding env v objectId = None"
  "map_of env v = None \<or> map_of env v = Some objectId \<Longrightarrow>
    \<exists>env1. unifyBinding env v objectId = Some env1 \<and> (\<forall>u. map_of env1 u = (if u = v then Some objectId else map_of env u))"
  by (auto simp: unifyBinding_def update_conv' split: option.splits if_splits)

lemma unify_refused: "v \<in> set vs \<Longrightarrow> map_of env v = Some a \<Longrightarrow> a \<noteq> objectId \<Longrightarrow> unify_all vs objectId env = None"
proof (induction vs arbitrary: env)
  case (Cons u vs)
  show ?case
  proof (cases "unifyBinding env u objectId")
    case (Some env1)
    have "u \<noteq> v" using unify_one(2) [OF Cons.prems(2,3)] Some by auto
    moreover have "map_of env1 v = Some a" by (rule unify_one(1) [OF Some Cons.prems(2)])
    ultimately show ?thesis using Cons.IH [of env1] Cons.prems Some by simp
  qed simp
qed simp

lemma unify_fresh:
  "(\<forall>u \<in> set vs. map_of env u = None \<or> map_of env u = Some objectId) \<Longrightarrow>
    \<exists>env'. unify_all vs objectId env = Some env' \<and> (\<forall>u. map_of env' u = (if u \<in> set vs then Some objectId else map_of env u))"
proof (induction vs arbitrary: env)
  case (Cons v vs)
  obtain env1 where env1: "unifyBinding env v objectId = Some env1" "\<And>u. map_of env1 u = (if u = v then Some objectId else map_of env u)"
    using unify_one(3) [of env v objectId] Cons.prems by auto
  have "\<forall>u \<in> set vs. map_of env1 u = None \<or> map_of env1 u = Some objectId" using Cons.prems by (simp add: env1(2))
  from Cons.IH [OF this] obtain env2 where "unify_all vs objectId env1 = Some env2"
    "\<forall>u. map_of env2 u = (if u \<in> set vs then Some objectId else map_of env1 u)" by blast
  then show ?case using env1 by (intro exI [of _ env2]) simp
qed simp

lemma map_of_without: "map_of (fold AList.delete ks env) u = (if u \<in> set ks then None else map_of env u)"
  by (induction ks arbitrary: env) (auto simp: delete_conv')

lemma align_eq:
  assumes "parseBindingContext ctx owner = Inr env"
  shows "fst (alignOutgoingBinding hex_of ctx objectId automaton q owner) =
    (case unify_all (source_variables_at automaton q) objectId (fold AList.delete (names_at (pa_localVariables automaton) q) env) of
       None \<Rightarrow> Inr None | Some env' \<Rightarrow> map_sum id Some (fst (encodeBindingContext hex_of env' owner)))"
  using assms by (auto simp: alignOutgoingBinding_def source_variables_at_def Let_def split: option.split prod.split)

lemma closure_automaton: "compileProgramAutomaton (ClosureProgram l s p) = Inr a \<Longrightarrow> a = build_automaton (ClosureProgram l s p)"
  by (simp add: compileProgramAutomaton_def split: sum.splits)

text \<open>C38: 
  nesting loses local variables: \<^verbatim>\<open>compileClosure\<close> sets the locals of the states its body is entered in,
  replacing those an inner closure had set there. Take a closure over any body, a state its body is
  entered in, and a context in which a variable that the state's advances start from is bound to another
  object. When the variables of these advances are local to the closure, the closure alone clears them
  and binds them to the next object. As the body of another closure of which the variable is no
  local, the automaton has the same advances in the state but the locals of the outer closure; the
  variable is kept and the next object is refused.
\<close>

theorem nested_locals_are_overwritten:
  assumes alone: "compileProgramAutomaton (ClosureProgram inner_locals s1 body) = Inr alone"
    and nested: "compileProgramAutomaton (ClosureProgram outer_locals s2 (ClosureProgram inner_locals s1 body)) = Inr nested"
    and q: "q \<in> set (entry_states body)"
    and bound: "parseBindingContext ctx owner = Inr env" "map_of env v = Some other" "other \<noteq> objectId"
    and v: "v \<in> set (source_variables_at alone q)" "v \<notin> set (locals_of outer_locals)"
  shows "names_at (pa_localVariables alone) q = locals_of inner_locals \<and>
    names_at (pa_localVariables nested) q = locals_of outer_locals \<and>
    source_variables_at nested q = source_variables_at alone q \<and>
    fst (alignOutgoingBinding hex_of ctx objectId nested q owner) = Inr None \<and>
    (set (source_variables_at alone q) \<subseteq> set (locals_of inner_locals) \<longrightarrow>
      (\<exists>env'. fst (alignOutgoingBinding hex_of ctx objectId alone q owner) = map_sum id Some (fst (encodeBindingContext hex_of env' owner)) \<and>
         (\<forall>u \<in> set (source_variables_at alone q). map_of env' u = Some objectId)))"
proof -
  note parts = nested_parts [OF q]
  note parts = parts(1) [where inner_locals = inner_locals and k = s1]
    parts(2,3) [where inner_locals = inner_locals and k = s1 and outer_locals = outer_locals and m = s2]
  note parts = parts [folded closure_automaton [OF alone] closure_automaton [OF nested]]
  have "map_of (fold AList.delete (locals_of outer_locals) env) v = Some other" using bound(2) v(2) by (simp add: map_of_without)
  from unify_refused [OF v(1) this bound(3)]
  have refused: "fst (alignOutgoingBinding hex_of ctx objectId nested q owner) = Inr None"
    unfolding align_eq [OF bound(1)] parts(2) parts(3) by simp
  have "\<exists>env'. fst (alignOutgoingBinding hex_of ctx objectId alone q owner) = map_sum id Some (fst (encodeBindingContext hex_of env' owner)) \<and>
      (\<forall>u \<in> set (source_variables_at alone q). map_of env' u = Some objectId)"
    if "set (source_variables_at alone q) \<subseteq> set (locals_of inner_locals)"
  proof -
    have "\<forall>u \<in> set (source_variables_at alone q). map_of (fold AList.delete (locals_of inner_locals) env) u = None"
      using that by (auto simp: map_of_without)
    then obtain env' where "unify_all (source_variables_at alone q) objectId (fold AList.delete (locals_of inner_locals) env) = Some env'"
      "\<forall>u \<in> set (source_variables_at alone q). map_of env' u = Some objectId"
      using unify_fresh [of "source_variables_at alone q"] by (metis (no_types, lifting))
    then show ?thesis unfolding align_eq [OF bound(1)] parts(1) by auto
  qed
  then show ?thesis using refused parts(1,2,3) by blast
qed

lemma nested_locals_are_overwritten_witness:
  "\<exists>alone nested. compileProgramAutomaton (ClosureProgram (Some [''x'']) True (RelationProgram sample_relation)) = Inr alone \<and>
     compileProgramAutomaton (ClosureProgram None True (ClosureProgram (Some [''x'']) True (RelationProgram sample_relation))) = Inr nested \<and>
     fst (alignOutgoingBinding (\<lambda>s. s) ''x=a'' ''b'' nested ''rel1'' None) = Inr None \<and>
     fst (alignOutgoingBinding (\<lambda>s. s) ''x=a'' ''b'' alone ''rel1'' None) \<noteq> Inr None"
proof -
  let ?alone = "ClosureProgram (Some [''x'']) True (RelationProgram sample_relation)"
  have cost: "compileProgramAutomaton ?alone = Inr (build_automaton ?alone)"
    "compileProgramAutomaton (ClosureProgram None True ?alone) = Inr (build_automaton (ClosureProgram None True ?alone))"
    by (simp_all add: compileProgramAutomaton_def programAutomatonCost_def is_safe_integer_def Let_def)
  have relation: "compileFragment (RelationProgram sample_relation) empty_builder =
     (\<lparr>fr_start = ''rel1'', fr_accept = ''rel2''\<rparr>,
      \<lparr>bd_next = 2, bd_eps = [], bd_advances = [\<lparr>aa_from = ''rel1'', aa_relation = sample_relation, aa_to = [''rel2'']\<rparr>],
        bd_hyperedgeAdvances = [], bd_locals = []\<rparr>)" by code_simp
  have entered: "''rel1'' \<in> set (entry_states (RelationProgram sample_relation))"
    unfolding entry_states_def relation by (simp add: entered_reachable outgoing_states_def)
  obtain g b1 where one: "compileFragment ?alone empty_builder = (g, b1)" by fastforce
  note inner = closure_compiled [of "compileFragment (RelationProgram sample_relation)", OF relation one [unfolded compileFragment.simps(7)]]
  have variables: "source_variables_at (build_automaton ?alone) ''rel1'' = [''x'']"
    unfolding build_parts(2) [OF one] inner(2) by (simp add: sample_relation_def)
  have parsed: "parseBindingContext ''x=a'' None = Inr [(''x'', ''a'')]"
    by (simp add: parseBindingContext_def recoverBindingContext_def is_sha256_digest_def parse_packed_def UNBOUND_BINDING_def parse_part_def)
  have "''x'' \<in> set (source_variables_at (build_automaton ?alone) ''rel1'')" "''x'' \<notin> set (locals_of None)"
    by (simp_all add: variables locals_of_def)
  moreover have other: "map_of [(''x'', ''a'')] ''x'' = Some ''a''" "''a'' \<noteq> ''b''" by simp_all
  ultimately have both: "fst (alignOutgoingBinding (\<lambda>s. s) ''x=a'' ''b'' (build_automaton (ClosureProgram None True ?alone)) ''rel1'' None) = Inr None"
    "\<exists>env'. fst (alignOutgoingBinding (\<lambda>s. s) ''x=a'' ''b'' (build_automaton ?alone) ''rel1'' None) =
      map_sum id Some (fst (encodeBindingContext (\<lambda>s. s) env' None))"
    using nested_locals_are_overwritten [OF cost entered parsed other, where hex_of = "\<lambda>s. s"] by (simp_all add: variables locals_of_def) blast
  have "map_sum id Some r \<noteq> Inr None" for r :: "binding_error + string" by (cases r) simp_all
  with both show ?thesis using cost by metis
qed

end
