(* ===== verification/BoundedTopK.thy ===== *)
theory BoundedTopK
  imports Prelude
begin

text \<open>
  The bounded selection of \<^verbatim>\<open>core/src/recall/runtime/global-memory/bounded-top-k.ts\<close>: a binary heap
  in an array with the worst kept value at its root. A comparator returns the sign of a number; the
  two loops are functions with a termination proof (the index shrinks towards the root, or grows
  towards the end of the array).
\<close>

section \<open>The heap\<close>

definition swap_at :: "nat \<Rightarrow> nat \<Rightarrow> 'a list \<Rightarrow> 'a list" where
  "swap_at i j xs = xs[i := xs ! j, j := xs ! i]"

function bubbleWorstUp :: "('a \<Rightarrow> 'a \<Rightarrow> int) \<Rightarrow> 'a list \<Rightarrow> nat \<Rightarrow> 'a list" where
  "bubbleWorstUp compare heap index =
     (if index > 0
      then let parentIndex = (index - 1) div 2
           in if compare (heap ! index) (heap ! parentIndex) \<le> 0 then heap
              else bubbleWorstUp compare (swap_at parentIndex index heap) parentIndex
      else heap)"
  by pat_completeness auto

termination bubbleWorstUp by (relation "measure (\<lambda>(compare, heap, index). index)") auto

declare bubbleWorstUp.simps [simp del]

definition worseChildIndex :: "('a \<Rightarrow> 'a \<Rightarrow> int) \<Rightarrow> 'a list \<Rightarrow> nat \<Rightarrow> nat" where
  "worseChildIndex compare heap leftIndex =
     (let rightIndex = leftIndex + 1
      in if rightIndex < length heap \<and> compare (heap ! rightIndex) (heap ! leftIndex) > 0
         then rightIndex else leftIndex)"

function sink_loop :: "('a \<Rightarrow> 'a \<Rightarrow> int) \<Rightarrow> 'a list \<Rightarrow> nat \<Rightarrow> 'a list" where
  "sink_loop compare heap index =
     (let leftIndex = index * 2 + 1
      in if leftIndex \<ge> length heap then heap
         else let worse = worseChildIndex compare heap leftIndex
              in if compare (heap ! worse) (heap ! index) \<le> 0 then heap
                 else sink_loop compare (swap_at index worse heap) worse)"
  by pat_completeness auto

termination sink_loop
  by (relation "measure (\<lambda>(compare, heap, index). length heap - index)")
    (auto simp: swap_at_def worseChildIndex_def Let_def)

declare sink_loop.simps [simp del]

definition sinkWorstDown :: "('a \<Rightarrow> 'a \<Rightarrow> int) \<Rightarrow> 'a list \<Rightarrow> 'a list" where
  "sinkWorstDown compare heap = sink_loop compare heap 0"

section \<open>The selection\<close>

definition keep_value :: "('a \<Rightarrow> 'a \<Rightarrow> int) \<Rightarrow> int \<Rightarrow> 'a \<Rightarrow> 'a list \<Rightarrow> 'a list" where
  "keep_value compare limit val heap =
     (if int (length heap) < limit then bubbleWorstUp compare (heap @ [val]) (length (heap @ [val]) - 1)
      else if compare val (heap ! 0) < 0 then sinkWorstDown compare (heap[0 := val])
      else heap)"

definition selectBoundedTopK :: "'a list \<Rightarrow> int \<Rightarrow> ('a \<Rightarrow> 'a \<Rightarrow> int) \<Rightarrow> 'a list" where
  "selectBoundedTopK values limit compare =
     (if limit \<le> 0 then [] else js_sort compare (fold (keep_value compare limit) values []))"

section \<open>What the selection promises\<close>

text \<open>
  The best \<open>k\<close> of a multiset: in order, taken from it, as many as there are up to \<open>k\<close>, and none of
  the rest is strictly better than one of them. Among values the comparator does not tell apart any
  choice is allowed.
\<close>

definition best_of :: "('a \<Rightarrow> 'a \<Rightarrow> int) \<Rightarrow> nat \<Rightarrow> 'a multiset \<Rightarrow> 'a list \<Rightarrow> bool" where
  "best_of compare k values chosen \<longleftrightarrow>
     sorted_wrt (\<lambda>x y. compare x y \<le> 0) chosen \<and> mset chosen \<subseteq># values \<and>
     length chosen = min k (size values) \<and>
     (\<forall>x \<in> set chosen. \<forall>y \<in># values - mset chosen. compare x y \<le> 0)"

text \<open>The order laws of a comparator with consistent signs.\<close>

locale js_order = js_comparator cmp for cmp :: "'a \<Rightarrow> 'a \<Rightarrow> int" +
  assumes cmp_sign: "0 \<le> cmp x y \<Longrightarrow> cmp y x \<le> 0"
begin

abbreviation le :: "'a \<Rightarrow> 'a \<Rightarrow> bool" where
  "le x y \<equiv> cmp x y \<le> 0"

lemma cmp_refl: "le x x"
  using cmp_flip [of x x] by simp

definition up_ok :: "'a list \<Rightarrow> nat \<Rightarrow> bool" where
  "up_ok h k \<longleftrightarrow> (\<forall>i. 0 < i \<and> i < length h \<and> i \<noteq> k \<longrightarrow> le (h ! i) (h ! ((i - 1) div 2))) \<and>
     (\<forall>i. 0 < i \<and> i < length h \<and> (i - 1) div 2 = k \<and> 0 < k \<longrightarrow> le (h ! i) (h ! ((k - 1) div 2)))"

definition down_ok :: "'a list \<Rightarrow> nat \<Rightarrow> bool" where
  "down_ok h k \<longleftrightarrow> (\<forall>i. 0 < i \<and> i < length h \<and> (i - 1) div 2 \<noteq> k \<longrightarrow> le (h ! i) (h ! ((i - 1) div 2))) \<and>
     (\<forall>i. 0 < i \<and> i < length h \<and> (i - 1) div 2 = k \<and> 0 < k \<longrightarrow> le (h ! i) (h ! ((k - 1) div 2)))"

definition heap_ok :: "'a list \<Rightarrow> bool" where
  "heap_ok h \<longleftrightarrow> (\<forall>i. 0 < i \<and> i < length h \<longrightarrow> le (h ! i) (h ! ((i - 1) div 2)))"

lemma root_is_worst: "heap_ok h \<Longrightarrow> i < length h \<Longrightarrow> le (h ! i) (h ! 0)"
proof (induction i rule: less_induct)
  case (less i)
  show ?case
  proof (cases "i = 0")
    case False
    then have "le (h ! i) (h ! ((i - 1) div 2))" using less.prems by (simp add: heap_ok_def)
    moreover have "le (h ! ((i - 1) div 2)) (h ! 0)" using less False by auto
    ultimately show ?thesis by (rule cmp_trans)
  qed (simp add: cmp_refl)
qed

lemma length_swap_at [simp]: "length (swap_at i j xs) = length xs"
  by (simp add: swap_at_def)

lemma nth_swap_at:
  "i < length xs \<Longrightarrow> j < length xs \<Longrightarrow> k < length xs \<Longrightarrow>
     swap_at i j xs ! k = (if k = j then xs ! i else if k = i then xs ! j else xs ! k)"
  by (simp add: swap_at_def nth_list_update)

lemma mset_swap_at: "i < length xs \<Longrightarrow> j < length xs \<Longrightarrow> mset (swap_at i j xs) = mset xs"
  by (simp add: swap_at_def mset_swap)

lemma up_ok_step:
  assumes up: "up_ok h k" and k: "0 < k" "k < length h" and worse: "\<not> le (h ! k) (h ! ((k - 1) div 2))"
  shows "up_ok (swap_at ((k - 1) div 2) k h) ((k - 1) div 2)"
proof -
  let ?p = "(k - 1) div 2"
  let ?g = "swap_at ?p k h"
  have p: "?p < length h" "?p < k" using k by auto
  have flip: "le (h ! ?p) (h ! k)" using cmp_flip worse by blast
  have g: "?g ! i = (if i = k then h ! ?p else if i = ?p then h ! k else h ! i)" if "i < length h" for i
    using that k p by (simp add: nth_swap_at)
  have one: "le (?g ! i) (?g ! ((i - 1) div 2))" if i: "0 < i" "i < length h" "i \<noteq> ?p" for i
  proof -
    have q: "(i - 1) div 2 < length h" using i by auto
    consider "i = k" | "i \<noteq> k" "(i - 1) div 2 = k" | "i \<noteq> k" "(i - 1) div 2 = ?p" | "i \<noteq> k" "(i - 1) div 2 \<noteq> k" "(i - 1) div 2 \<noteq> ?p"
      by blast
    then show ?thesis
    proof cases
      case 1 then show ?thesis using g flip p k by auto
    next
      case 2
      then show ?thesis using g i q up k p by (auto simp: up_ok_def)
    next
      case 3
      then have "le (h ! i) (h ! ?p)" using up i by (auto simp: up_ok_def)
      then have "le (h ! i) (h ! k)" using flip by (rule cmp_trans)
      then show ?thesis using g i q 3 p by simp
    next
      case 4
      then have "le (h ! i) (h ! ((i - 1) div 2))" using up i by (auto simp: up_ok_def)
      then show ?thesis using g i q 4 by simp
    qed
  qed
  have two: "le (?g ! i) (?g ! ((?p - 1) div 2))" if i: "0 < i" "i < length h" "(i - 1) div 2 = ?p" "0 < ?p" for i
  proof -
    have gp: "le (h ! ?p) (h ! ((?p - 1) div 2))" using up i(4) p by (auto simp: up_ok_def)
    have far: "(?p - 1) div 2 < ?p" using i(4) by auto
    then have right: "?g ! ((?p - 1) div 2) = h ! ((?p - 1) div 2)" using g p by simp
    show ?thesis
    proof (cases "i = k")
      case True then show ?thesis using g i gp right by simp
    next
      case False
      then have "le (h ! i) (h ! ?p)" using up i by (auto simp: up_ok_def)
      then have "le (h ! i) (h ! ((?p - 1) div 2))" using gp by (rule cmp_trans)
      moreover have "i \<noteq> ?p" using i by auto
      ultimately show ?thesis using g i False right by simp
    qed
  qed
  show ?thesis unfolding up_ok_def using one two by auto
qed

lemma bubbleWorstUp_ok:
  "up_ok h k \<Longrightarrow> k < length h \<Longrightarrow> heap_ok (bubbleWorstUp cmp h k) \<and> mset (bubbleWorstUp cmp h k) = mset h"
proof (induction k arbitrary: h rule: less_induct)
  case (less k)
  let ?p = "(k - 1) div 2"
  show ?case
  proof (cases "k = 0")
    case True
    then show ?thesis using less.prems by (subst (1 2) bubbleWorstUp.simps) (auto simp: up_ok_def heap_ok_def)
  next
    case False
    show ?thesis
    proof (cases "le (h ! k) (h ! ?p)")
      case True
      then have "heap_ok h" using less.prems by (auto simp: up_ok_def heap_ok_def)
      then show ?thesis using True by (subst (1 2) bubbleWorstUp.simps) (simp add: Let_def)
    next
      case worse: False
      have p: "?p < k" "?p < length h" using False less.prems(2) by auto
      have "up_ok (swap_at ?p k h) ?p" using up_ok_step less.prems False worse by blast
      then have "heap_ok (bubbleWorstUp cmp (swap_at ?p k h) ?p) \<and> mset (bubbleWorstUp cmp (swap_at ?p k h) ?p) = mset h"
        using less.IH [OF p(1), of "swap_at ?p k h"] p less.prems(2) by (simp add: mset_swap_at)
      moreover have "bubbleWorstUp cmp h k = bubbleWorstUp cmp (swap_at ?p k h) ?p"
        using False worse by (subst bubbleWorstUp.simps) (simp add: Let_def)
      ultimately show ?thesis by simp
    qed
  qed
qed

lemma worseChildIndex_props:
  assumes "l < length h"
  shows "worseChildIndex cmp h l < length h" "worseChildIndex cmp h l = l \<or> worseChildIndex cmp h l = l + 1"
    "\<forall>i. (i = l \<or> i = l + 1) \<and> i < length h \<longrightarrow> le (h ! i) (h ! worseChildIndex cmp h l)"
  using assms cmp_refl cmp_sign [of "h ! (l + 1)" "h ! l"] by (auto simp: worseChildIndex_def Let_def)

lemma children_of: "0 < (i::nat) \<Longrightarrow> (i - 1) div 2 = k \<longleftrightarrow> i = k * 2 + 1 \<or> i = k * 2 + 2"
  by auto

lemma down_ok_step:
  assumes down: "down_ok h k" and l: "k * 2 + 1 < length h"
    and c: "c = worseChildIndex cmp h (k * 2 + 1)" and worse: "\<not> le (h ! c) (h ! k)"
  shows "down_ok (swap_at k c h) c"
proof -
  let ?g = "swap_at k c h"
  note w = worseChildIndex_props [OF l, folded c]
  have ck: "k < c" "c < length h" "0 < c" "(c - 1) div 2 = k" using w by auto
  have flip: "le (h ! k) (h ! c)" using cmp_flip worse by blast
  have g: "?g ! i = (if i = c then h ! k else if i = k then h ! c else h ! i)" if "i < length h" for i
    using that ck by (simp add: nth_swap_at)
  have one: "le (?g ! i) (?g ! ((i - 1) div 2))" if i: "0 < i" "i < length h" "(i - 1) div 2 \<noteq> c" for i
  proof -
    have q: "(i - 1) div 2 < length h" using i by auto
    consider "i = c" | "i \<noteq> c" "(i - 1) div 2 = k" | "i = k" "(i - 1) div 2 \<noteq> k" | "i \<noteq> c" "i \<noteq> k" "(i - 1) div 2 \<noteq> k" by blast
    then show ?thesis
    proof cases
      case 1 then show ?thesis using g flip ck by simp
    next
      case 2
      then have "i = k * 2 + 1 \<or> i = k * 2 + 1 + 1" using children_of [OF i(1), of k] by auto
      then have "le (h ! i) (h ! c)" using w(3) i(2) by blast
      moreover have "i \<noteq> k" using 2 i by auto
      ultimately show ?thesis using g i 2 ck by simp
    next
      case 3
      then have "le (h ! c) (h ! ((k - 1) div 2))" using down ck i by (auto simp: down_ok_def)
      then show ?thesis using g i 3 q ck by simp
    next
      case 4
      then have "le (h ! i) (h ! ((i - 1) div 2))" using down i by (auto simp: down_ok_def)
      then show ?thesis using g i 4 q by simp
    qed
  qed
  have two: "le (?g ! i) (?g ! ((c - 1) div 2))" if i: "0 < i" "i < length h" "(i - 1) div 2 = c" for i
  proof -
    have "(i - 1) div 2 \<noteq> k" using i ck by auto
    then have "le (h ! i) (h ! c)" using down i by (auto simp: down_ok_def)
    moreover have "i \<noteq> c" "i \<noteq> k" using i ck by auto
    ultimately show ?thesis using g i ck by simp
  qed
  show ?thesis unfolding down_ok_def using one two by auto
qed

lemma sink_loop_ok: "down_ok h k \<Longrightarrow> k < length h \<Longrightarrow> heap_ok (sink_loop cmp h k) \<and> mset (sink_loop cmp h k) = mset h"
proof (induction "length h - k" arbitrary: h k rule: less_induct)
  case less
  let ?l = "k * 2 + 1"
  show ?case
  proof (cases "?l < length h")
    case False
    then have "(i - 1) div 2 \<noteq> k" if "0 < i" "i < length h" for i using children_of [OF that(1)] that by auto
    then have "heap_ok h" using less.prems by (auto simp: down_ok_def heap_ok_def)
    then show ?thesis using False by (subst (1 2) sink_loop.simps) (simp add: Let_def)
  next
    case True
    define c where "c = worseChildIndex cmp h ?l"
    note w = worseChildIndex_props [OF True, folded c_def]
    show ?thesis
    proof (cases "le (h ! c) (h ! k)")
      case le: True
      have "le (h ! i) (h ! ((i - 1) div 2))" if i: "0 < i" "i < length h" for i
      proof (cases "(i - 1) div 2 = k")
        case True
        then have "i = ?l \<or> i = ?l + 1" using children_of [OF i(1)] by auto
        then have "le (h ! i) (h ! c)" using w(3) i by blast
        then show ?thesis using le True cmp_trans by blast
      qed (use less.prems i in \<open>auto simp: down_ok_def\<close>)
      then have "heap_ok h" by (auto simp: heap_ok_def)
      moreover have "sink_loop cmp h k = h" using le True by (subst sink_loop.simps) (simp add: Let_def c_def)
      ultimately show ?thesis by simp
    next
      case worse: False
      have "down_ok (swap_at k c h) c" using down_ok_step [OF less.prems(1) True c_def worse] .
      moreover have ck: "k < c" "c < length h" using w by auto
      ultimately have "heap_ok (sink_loop cmp (swap_at k c h) c) \<and> mset (sink_loop cmp (swap_at k c h) c) = mset h"
        using less.hyps [of "swap_at k c h" c] by (simp add: mset_swap_at)
      moreover have "sink_loop cmp h k = sink_loop cmp (swap_at k c h) c"
        using worse True by (subst sink_loop.simps) (simp add: Let_def c_def)
      ultimately show ?thesis by simp
    qed
  qed
qed

text \<open>The loop over the values: the heap holds the best ones seen so far.\<close>

definition keeps_best :: "nat \<Rightarrow> 'a multiset \<Rightarrow> 'a list \<Rightarrow> bool" where
  "keeps_best k seen h \<longleftrightarrow> heap_ok h \<and> mset h \<subseteq># seen \<and> length h = min k (size seen) \<and>
     (\<forall>x \<in> set h. \<forall>y \<in># seen - mset h. le x y)"

lemma keep_value_best:
  assumes kb: "keeps_best (nat limit) seen h" and limit: "0 < limit"
  shows "keeps_best (nat limit) (add_mset v seen) (keep_value cmp limit v h)"
proof -
  note kb' = kb [unfolded keeps_best_def]
  have sub: "mset h \<subseteq># seen" and len: "length h = min (nat limit) (size seen)" and h: "heap_ok h"
    and best: "\<And>x y. x \<in> set h \<Longrightarrow> y \<in># seen - mset h \<Longrightarrow> le x y"
    using kb' by auto
  show ?thesis
  proof (cases "int (length h) < limit")
    case True
    then have all: "length h = size seen" using len by auto
    then have "mset h = seen" using sub by (metis mset_subset_size nless_le size_mset subset_mset.less_le)
    moreover have below: "(i - 1) div 2 < length h" if "0 < i" "i < length (h @ [v])" for i using that by auto
    have "up_ok (h @ [v]) (length h)"
      using h below by (auto simp: up_ok_def heap_ok_def nth_append)
    then have "heap_ok (bubbleWorstUp cmp (h @ [v]) (length h)) \<and> mset (bubbleWorstUp cmp (h @ [v]) (length h)) = mset (h @ [v])"
      by (rule bubbleWorstUp_ok) simp
    ultimately show ?thesis using True limit
      by (simp add: keeps_best_def keep_value_def) (metis True Suc_leI \<open>mset h = seen\<close> min.absorb2 mset.simps(2) size_add_mset size_mset zless_nat_eq_int_zless)
  next
    case False
    then have full: "length h = nat limit" "h \<noteq> []" using len limit by auto
    have root: "h ! 0 \<in> set h" "\<And>x. x \<in> set h \<Longrightarrow> le x (h ! 0)"
      using full(2) root_is_worst [OF h] by (simp, auto simp: in_set_conv_nth)
    show ?thesis
    proof (cases "cmp v (h ! 0) < 0")
      case better: True
      obtain w t where ht: "h = w # t" using full by (cases h) auto
      have "down_ok (h[0 := v]) 0" using h by (auto simp: down_ok_def heap_ok_def nth_list_update)
      then have sk: "heap_ok (sinkWorstDown cmp (h[0 := v]))" "mset (sinkWorstDown cmp (h[0 := v])) = add_mset v (mset t)"
        using sink_loop_ok [of "h[0 := v]" 0] full ht by (auto simp: sinkWorstDown_def)
      have rest: "add_mset v seen - add_mset v (mset t) = add_mset w (seen - mset h)"
      proof -
        have "count (mset t) w < count seen w" using mset_subset_eq_count [OF sub, of w] ht by simp
        then show ?thesis using ht by (simp add: multiset_eq_iff)
      qed
      have mem: "le x y" if "x \<in># add_mset v (mset t)" "y \<in># add_mset w (seen - mset h)" for x y
      proof -
        have vw: "le v w" using better ht by simp
        have xw: "le x w" using that(1) vw root(2) ht by auto
        show ?thesis using that(2) xw best [of w] ht by (auto intro: cmp_trans)
      qed
      have "keep_value cmp limit v h = sinkWorstDown cmp (h[0 := v])" using False better by (simp add: keep_value_def)
      moreover have "length (sinkWorstDown cmp (h[0 := v])) = length h" using sk(2) ht by (metis length_Cons size_add_mset size_mset)
      moreover have "add_mset v (mset t) \<subseteq># add_mset v seen" using sub ht by (auto simp: insert_subset_eq_iff intro: subset_mset.order_trans [OF _ diff_subset_eq_self])
      ultimately show ?thesis using sk rest mem len full by (auto simp: keeps_best_def set_mset_mset [symmetric] simp del: set_mset_mset)
    next
      case keep: False
      then have "le (h ! 0) v" using cmp_sign [of v "h ! 0"] by simp
      then have "le x v" if "x \<in> set h" for x using root(2) [OF that] cmp_trans by blast
      moreover have "add_mset v seen - mset h = add_mset v (seen - mset h)" using mset_subset_eq_count [OF sub] by (simp add: multiset_eq_iff Suc_diff_le)
      moreover have "mset h \<subseteq># add_mset v seen" using sub by (metis add_mset_add_single mset_subset_eq_add_left subset_mset.order_trans)
      ultimately show ?thesis using kb' False keep full len by (auto simp: keeps_best_def keep_value_def)
    qed
  qed
qed

lemma length_js_sort: "length (js_sort cmp xs) = length xs"
  by (metis mset_js_sort size_mset)

lemma fold_keeps_best:
  "0 < limit \<Longrightarrow> keeps_best (nat limit) seen h \<Longrightarrow> keeps_best (nat limit) (seen + mset vs) (fold (keep_value cmp limit) vs h)"
proof (induction vs arbitrary: seen h)
  case (Cons v vs)
  then show ?case using Cons.IH [OF Cons.prems(1) keep_value_best [OF Cons.prems(2,1), of v]] by simp
qed simp

lemma selectBoundedTopK_best: "best_of cmp (nat limit) (mset values) (selectBoundedTopK values limit cmp)"
proof (cases "limit \<le> 0")
  case True then show ?thesis by (simp add: selectBoundedTopK_def best_of_def)
next
  case False
  then have "keeps_best (nat limit) ({#} + mset values) (fold (keep_value cmp limit) values [])"
    by (intro fold_keeps_best) (auto simp: keeps_best_def heap_ok_def)
  then show ?thesis using False ordered_sort [of "fold (keep_value cmp limit) values []"]
      length_js_sort [of "fold (keep_value cmp limit) values []"]
    by (simp add: keeps_best_def best_of_def selectBoundedTopK_def)
qed

text \<open>Selecting in rounds: what a later round drops was beaten, so the early rounds lose nothing.\<close>

lemma best_of_rounds:
  assumes 1: "best_of cmp k A s" and 2: "best_of cmp k (mset s + B) t"
  shows "best_of cmp k (A + B) t"
proof -
  have s: "mset s \<subseteq># A" "length s = min k (size A)" "\<And>x y. x \<in> set s \<Longrightarrow> y \<in># A - mset s \<Longrightarrow> le x y"
    using 1 by (auto simp: best_of_def)
  have t: "mset t \<subseteq># mset s + B" "length t = min k (length s + size B)" "\<And>x y. x \<in> set t \<Longrightarrow> y \<in># mset s + B - mset t \<Longrightarrow> le x y"
    using 2 by (auto simp: best_of_def)
  have sub: "mset t \<subseteq># A + B" using t(1) s(1) by (meson mset_subset_eq_mono_add_right_cancel subset_mset.order_trans)
  have split: "A + B - mset t = (A - mset s) + (mset s + B - mset t)"
    using s(1) t(1) by (simp add: multiset_eq_iff subseteq_mset_def)
  have beaten: "le x y" if x: "x \<in> set t" and y: "y \<in># A - mset s" for x y
  proof -
    have "size (A - mset s) = size A - length s" using size_Diff_submset [OF s(1)] by simp
    moreover have "0 < size (A - mset s)" using y by (metis empty_iff nonempty_has_size set_mset_empty)
    ultimately have "size A > k" using s(2) by auto
    then have lens: "length s = k" "length t = k" using s(2) t(2) by auto
    show ?thesis
    proof (cases "x \<in> set s")
      case True then show ?thesis using s(3) y by blast
    next
      case False
      have "mset s - mset t \<noteq> {#}"
      proof
        assume "mset s - mset t = {#}"
        then have "mset s = mset t" using lens by (metis Diff_eq_empty_iff_mset mset_subset_size nat_neq_iff size_mset subset_mset.le_imp_less_or_eq)
        then show False using False x by (metis set_mset_mset)
      qed
      then obtain z where z: "z \<in># mset s - mset t" by blast
      then have "z \<in># mset s + B - mset t" by (metis add.commute in_diff_count trans_less_add2 count_union)
      then have "le x z" using t(3) x by blast
      moreover have "z \<in> set s" using z by (metis in_diffD set_mset_mset)
      then have "le z y" using s(3) y by blast
      ultimately show ?thesis by (rule cmp_trans)
    qed
  qed
  have "length t = min k (size (A + B))" using t(2) s(2) by auto
  moreover have "le x y" if "x \<in> set t" "y \<in># A + B - mset t" for x y
    using that beaten t(3) unfolding split by auto
  ultimately show ?thesis using 2 sub by (auto simp: best_of_def)
qed

end

section \<open>Comparators that agree on the values\<close>

lemma set_swap_at: "i < length xs \<Longrightarrow> j < length xs \<Longrightarrow> set (swap_at i j xs) = set xs"
  by (metis swap_at_def mset_swap set_mset_mset)

lemma bubbleWorstUp_cong:
  "(\<forall>x \<in> set h. \<forall>y \<in> set h. c x y = c' x y) \<Longrightarrow> k < length h \<Longrightarrow> bubbleWorstUp c h k = bubbleWorstUp c' h k"
proof (induction k arbitrary: h rule: less_induct)
  case (less k)
  show ?case
  proof (cases "k = 0")
    case False
    let ?p = "(k - 1) div 2"
    have p: "?p < k" "?p < length h" using False less.prems(2) by auto
    have "c (h ! k) (h ! ?p) = c' (h ! k) (h ! ?p)" using less.prems p by auto
    moreover have "bubbleWorstUp c (swap_at ?p k h) ?p = bubbleWorstUp c' (swap_at ?p k h) ?p"
      using less.IH [OF p(1), of "swap_at ?p k h"] p less.prems by (simp add: set_swap_at) (simp add: swap_at_def)
    ultimately show ?thesis by (subst (1 2) bubbleWorstUp.simps) (simp add: Let_def)
  qed (simp add: bubbleWorstUp.simps)
qed

lemma sink_loop_cong:
  "(\<forall>x \<in> set h. \<forall>y \<in> set h. c x y = c' x y) \<Longrightarrow> k < length h \<Longrightarrow> sink_loop c h k = sink_loop c' h k"
proof (induction "length h - k" arbitrary: h k rule: less_induct)
  case less
  show ?case
  proof (cases "k * 2 + 1 < length h")
    case False
    then show ?thesis by (subst (1 2) sink_loop.simps) (simp add: Let_def)
  next
    case True
    let ?w = "worseChildIndex c h (k * 2 + 1)"
    have w: "?w = worseChildIndex c' h (k * 2 + 1)" "k < ?w" "?w < length h"
      using True less.prems by (auto simp: worseChildIndex_def Let_def)
    have "c (h ! ?w) (h ! k) = c' (h ! ?w) (h ! k)" using less.prems w(3) by auto
    moreover have "sink_loop c (swap_at k ?w h) ?w = sink_loop c' (swap_at k ?w h) ?w"
      using less.hyps [of "swap_at k ?w h" ?w] w(2,3) less.prems by (simp add: set_swap_at) (simp add: swap_at_def)
    ultimately show ?thesis using True w(1) by (subst (1 2) sink_loop.simps) (simp add: Let_def)
  qed
qed

lemma js_sort_cong: "(\<forall>x \<in> set xs. \<forall>y \<in> set xs. c x y = c' x y) \<Longrightarrow> js_sort c xs = js_sort c' xs"
proof -
  have ins: "(\<forall>y \<in> set ys. c x y = c' x y) \<Longrightarrow> js_insert c x ys = js_insert c' x ys" for x ys
    by (induction ys) auto
  assume "\<forall>x \<in> set xs. \<forall>y \<in> set xs. c x y = c' x y"
  then have "js_sort c xs = js_sort c' xs"
  proof (induction xs)
    case (Cons x xs)
    have "js_sort c (x # xs) = js_insert c x (js_sort c' xs)" using Cons by (simp add: js_sort_def)
    also have "\<dots> = js_insert c' x (js_sort c' xs)" by (rule ins) (use Cons.prems in simp)
    finally show ?case by (simp add: js_sort_def)
  qed (simp add: js_sort_def)
  then show ?thesis .
qed

lemma set_bubbleWorstUp: "k < length h \<Longrightarrow> mset (bubbleWorstUp c h k) = mset h"
proof (induction k arbitrary: h rule: less_induct)
  case (less k)
  show ?case
  proof (cases "k = 0")
    case False
    let ?p = "(k - 1) div 2"
    have p: "?p < k" "?p < length h" using False less.prems by auto
    have m: "mset (swap_at ?p k h) = mset h" using p less.prems by (simp add: swap_at_def mset_swap)
    then have "mset (bubbleWorstUp c (swap_at ?p k h) ?p) = mset h"
      using less.IH [OF p(1), of "swap_at ?p k h"] p(2) by (simp add: swap_at_def)
    then show ?thesis by (subst bubbleWorstUp.simps) (simp add: Let_def)
  qed (simp add: bubbleWorstUp.simps)
qed

lemma mset_sink_loop: "k < length h \<Longrightarrow> mset (sink_loop c h k) = mset h"
proof (induction "length h - k" arbitrary: h k rule: less_induct)
  case less
  show ?case
  proof (cases "k * 2 + 1 < length h")
    case False
    then show ?thesis by (subst sink_loop.simps) (simp add: Let_def)
  next
    case True
    let ?w = "worseChildIndex c h (k * 2 + 1)"
    have w: "k < ?w" "?w < length h" using True by (auto simp: worseChildIndex_def Let_def)
    have m: "mset (swap_at k ?w h) = mset h" using w by (simp add: swap_at_def mset_swap)
    have "mset (sink_loop c (swap_at k ?w h) ?w) = mset h"
      using less.hyps [of "swap_at k ?w h" ?w] w m less.prems by (simp add: swap_at_def)
    then show ?thesis using True by (subst sink_loop.simps) (simp add: Let_def)
  qed
qed

lemma set_keep_value: "set (keep_value c limit v h) \<subseteq> insert v (set h)"
proof -
  have up: "set (bubbleWorstUp c (h @ [v]) (length h)) = insert v (set h)"
    using arg_cong [OF set_bubbleWorstUp [of "length h" "h @ [v]" c], of set_mset] by simp
  have down: "set (sink_loop c (h[0 := v]) 0) \<subseteq> insert v (set h)"
  proof (cases "h = []")
    case False
    then show ?thesis
      using arg_cong [OF mset_sink_loop [of 0 "h[0 := v]" c], of set_mset] set_update_subset_insert [of h 0 v] by simp
  qed (simp add: sink_loop.simps)
  show ?thesis using up down by (auto simp: keep_value_def sinkWorstDown_def)
qed

lemma keep_value_cong:
  assumes "\<forall>x \<in> V. \<forall>y \<in> V. c x y = c' x y" "set h \<subseteq> V" "v \<in> V" "0 < limit"
  shows "keep_value c limit v h = keep_value c' limit v h"
proof (cases "int (length h) < limit")
  case True
  have "bubbleWorstUp c (h @ [v]) (length h) = bubbleWorstUp c' (h @ [v]) (length h)"
    by (rule bubbleWorstUp_cong) (use assms in auto)
  then show ?thesis using True by (simp add: keep_value_def)
next
  case False
  then have ne: "h \<noteq> []" using assms(4) by auto
  then have "c v (h ! 0) = c' v (h ! 0)" using assms by (meson length_greater_0_conv nth_mem subsetD)
  moreover have "sink_loop c (h[0 := v]) 0 = sink_loop c' (h[0 := v]) 0"
  proof (rule sink_loop_cong)
    have "set (h[0 := v]) \<subseteq> V" using set_update_subset_insert [of h 0 v] assms(2,3) by auto
    then show "\<forall>x \<in> set (h[0 := v]). \<forall>y \<in> set (h[0 := v]). c x y = c' x y" using assms(1) by (meson subsetD)
  qed (use ne in simp)
  ultimately show ?thesis using False by (simp add: keep_value_def sinkWorstDown_def)
qed

lemma selectBoundedTopK_cong:
  assumes "\<forall>x \<in> set values. \<forall>y \<in> set values. c x y = c' x y"
  shows "selectBoundedTopK values limit c = selectBoundedTopK values limit c'"
proof (cases "limit \<le> 0")
  case True then show ?thesis by (simp add: selectBoundedTopK_def)
next
  case False
  have "set vs \<subseteq> set values \<Longrightarrow> set h \<subseteq> set values \<Longrightarrow>
      fold (keep_value c limit) vs h = fold (keep_value c' limit) vs h \<and> set (fold (keep_value c limit) vs h) \<subseteq> set values" for vs h
  proof (induction vs arbitrary: h)
    case (Cons v vs)
    have "keep_value c limit v h = keep_value c' limit v h" using keep_value_cong [OF assms, of h v limit] Cons.prems False by auto
    moreover have "set (keep_value c limit v h) \<subseteq> set values" using set_keep_value [of c limit v h] Cons.prems by auto
    ultimately show ?case using Cons.IH [of "keep_value c limit v h"] Cons.prems(1) by (metis (no_types) fold_simps(2) insert_subset list.simps(15))
  qed simp
  from this [of "values" "[]"] have f: "fold (keep_value c limit) values [] = fold (keep_value c' limit) values []"
    "set (fold (keep_value c limit) values []) \<subseteq> set values" by auto
  have "js_sort c (fold (keep_value c limit) values []) = js_sort c' (fold (keep_value c limit) values [])"
    by (rule js_sort_cong) (use assms f(2) in auto)
  then show ?thesis using False f(1) by (simp add: selectBoundedTopK_def)
qed

lemma best_of_cong:
  assumes "\<forall>x \<in># values. \<forall>y \<in># values. c x y = c' x y"
  shows "best_of c k values chosen = best_of c' k values chosen"
proof -
  have "sorted_wrt (\<lambda>x y. c x y \<le> 0) chosen = sorted_wrt (\<lambda>x y. c' x y \<le> 0) chosen" if "mset chosen \<subseteq># values"
  proof -
    have "\<forall>x \<in> set chosen. x \<in># values" using that by (metis mset_subset_eqD set_mset_mset)
    then show ?thesis using assms by (auto intro: sorted_wrt_mono_rel [rotated])
  qed
  moreover have "(\<forall>x \<in> set chosen. \<forall>y \<in># values - mset chosen. c x y \<le> 0) = (\<forall>x \<in> set chosen. \<forall>y \<in># values - mset chosen. c' x y \<le> 0)"
    if "mset chosen \<subseteq># values"
  proof -
    have "\<forall>x \<in> set chosen. x \<in># values" using that by (metis mset_subset_eqD set_mset_mset)
    then show ?thesis using assms by (metis in_diffD)
  qed
  ultimately show ?thesis unfolding best_of_def by blast
qed

end
