(* ===== verification/GlobalMemoryRecall.thy ===== *)
theory GlobalMemoryRecall
  imports BoundedTopK CoreShared GardenTier "HOL-Library.AList"
begin

text \<open>
  Global memories: the table of \<^verbatim>\<open>storage/src/repos/memory/global-memory-repo.ts\<close> with its page reads,
  and the selection of the entries to recall from it
  (\<^verbatim>\<open>core/src/recall/runtime/global-memory/selection.ts\<close>), page by page, over \<^verbatim>\<open>BoundedTopK\<close>. The tokens
  of a text (\<^verbatim>\<open>splitLexicalTokens\<close> filtered by \<^verbatim>\<open>isAdmittedLexicalTerm\<close>) and the collation are parameters;
  the database itself is taken not to fail.
\<close>

section \<open>Entries and the repository\<close>

record global_memory_entry =
  gm_global_object_id :: string
  gm_object_kind :: string
  gm_canonical_identity :: string
  gm_dimension :: string
  gm_scope_class :: string
  gm_content :: string
  gm_domain_tags :: "string list"
  gm_provenance :: string
  gm_activation_score :: "rat option"
  gm_version :: int
  gm_created_at :: string
  gm_updated_at :: string

datatype storage_error = QUERY_FAILED string | VALIDATION_FAILED string

definition memoryDimensionValues :: "string list" where
  "memoryDimensionValues = [''preference'', ''constraint'', ''decision'', ''procedure'', ''fact'', ''hazard'', ''glossary'',
     ''episode'', ''observation'']"

definition scopeClassValues :: "string list" where
  "scopeClassValues = [''project'', ''global_domain'', ''global_core'']"

definition GlobalMemoryEntry_ok :: "(string \<Rightarrow> bool) \<Rightarrow> global_memory_entry \<Rightarrow> bool" where
  "GlobalMemoryEntry_ok zod e \<longleftrightarrow>
     BoundedString 65536 (gm_global_object_id e) \<and> gm_object_kind e = ''global_memory_entry'' \<and>
     BoundedString 65536 (gm_canonical_identity e) \<and> gm_dimension e \<in> set memoryDimensionValues \<and>
     gm_scope_class e \<in> set scopeClassValues \<and> BoundedString 65536 (gm_content e) \<and>
     list_all (BoundedString 65536) (gm_domain_tags e) \<and> BoundedString 65536 (gm_provenance e) \<and>
     (case gm_activation_score e of None \<Rightarrow> True | Some q \<Rightarrow> 0 \<le> q \<and> q \<le> 1) \<and>
     0 \<le> gm_version e \<and> IsoDatetimeString zod (gm_created_at e) \<and> IsoDatetimeString zod (gm_updated_at e)"

definition parseGlobalMemoryEntry :: "(string \<Rightarrow> bool) \<Rightarrow> global_memory_entry \<Rightarrow> storage_error + global_memory_entry" where
  "parseGlobalMemoryEntry zod e =
     (if GlobalMemoryEntry_ok zod e then Inr e else Inl (VALIDATION_FAILED ''Failed to validate global memory entry.''))"

text \<open>The tags are stored as JSON text; \<^verbatim>\<open>JSON.parse\<close> gives back the array that was stringified.\<close>

definition parseDomainTags :: "string list \<Rightarrow> storage_error + string list" where
  "parseDomainTags parsed =
     (if list_ex (\<lambda>tag. length (js_trim tag) = 0) parsed
      then Inl (VALIDATION_FAILED ''Failed to validate global memory entry domain_tags.'') else Inr parsed)"

definition parseGlobalMemoryEntryRow :: "(string \<Rightarrow> bool) \<Rightarrow> global_memory_entry \<Rightarrow> storage_error + global_memory_entry" where
  "parseGlobalMemoryEntryRow zod row =
     (case parseDomainTags (gm_domain_tags row) of
        Inl _ \<Rightarrow> Inl (VALIDATION_FAILED ''Failed to validate global memory entry row.'')
      | Inr tags \<Rightarrow>
          if GlobalMemoryEntry_ok zod (row\<lparr>gm_domain_tags := tags\<rparr>) then Inr (row\<lparr>gm_domain_tags := tags\<rparr>)
          else Inl (VALIDATION_FAILED ''Failed to validate global memory entry row.''))"

primrec parse_rows :: "('r \<Rightarrow> 'e + 'v) \<Rightarrow> 'r list \<Rightarrow> 'e + 'v list" where
  "parse_rows parse [] = Inr []"
| "parse_rows parse (r # rs) =
     (case parse r of Inl e \<Rightarrow> Inl e
      | Inr v \<Rightarrow> (case parse_rows parse rs of Inl e \<Rightarrow> Inl e | Inr vs \<Rightarrow> Inr (v # vs)))"

type_synonym global_memory_table = "global_memory_entry list"

text \<open>The conflict clause keeps \<^verbatim>\<open>created_at\<close>; the other columns take the new values.\<close>

fun upsert_row :: "global_memory_entry \<Rightarrow> global_memory_table \<Rightarrow> global_memory_table" where
  "upsert_row e [] = [e]"
| "upsert_row e (r # rs) =
     (if gm_global_object_id r = gm_global_object_id e then e\<lparr>gm_created_at := gm_created_at r\<rparr> # rs
      else r # upsert_row e rs)"

definition parseRepoText :: "string \<Rightarrow> string \<Rightarrow> storage_error + string" where
  "parseRepoText val field =
     (if length (js_trim val) = 0 then Inl (VALIDATION_FAILED (''Failed to validate '' @ field @ ''.'')) else Inr val)"

definition findByGlobalObjectId :: "(string \<Rightarrow> bool) \<Rightarrow> string \<Rightarrow> global_memory_table \<Rightarrow> storage_error + global_memory_entry option" where
  "findByGlobalObjectId zod globalObjectId tbl =
     (case parseRepoText globalObjectId ''global_object_id'' of
        Inl e \<Rightarrow> Inl e
      | Inr parsed \<Rightarrow>
          (case find (\<lambda>r. gm_global_object_id r = parsed) tbl of
             None \<Rightarrow> Inr None
           | Some row \<Rightarrow> map_sum id Some (parseGlobalMemoryEntryRow zod row)))"

definition upsert :: "(string \<Rightarrow> bool) \<Rightarrow> global_memory_entry \<Rightarrow> global_memory_table
    \<Rightarrow> (storage_error + global_memory_entry) \<times> global_memory_table" where
  "upsert zod e tbl =
     (case parseGlobalMemoryEntry zod e of
        Inl err \<Rightarrow> (Inl err, tbl)
      | Inr parsed \<Rightarrow>
          (let tbl' = upsert_row parsed tbl
           in case findByGlobalObjectId zod (gm_global_object_id parsed) tbl' of
                Inl err \<Rightarrow> (Inl err, tbl')
              | Inr None \<Rightarrow> (Inl (QUERY_FAILED (''Persisted global memory entry '' @ gm_global_object_id parsed @ '' could not be reloaded.'')), tbl')
              | Inr (Some persisted) \<Rightarrow> (Inr persisted, tbl')))"

record list_filters =
  lf_dimension :: "string option"
  lf_scope_class :: "string option"

definition no_filters :: list_filters where
  "no_filters = \<lparr>lf_dimension = None, lf_scope_class = None\<rparr>"

definition parse_filter :: "string list \<Rightarrow> string \<Rightarrow> string option \<Rightarrow> storage_error + string option" where
  "parse_filter allowed field val =
     (case val of None \<Rightarrow> Inr None
      | Some v \<Rightarrow> if v \<in> set allowed then Inr (Some v)
                 else Inl (VALIDATION_FAILED (''Failed to validate global memory '' @ field @ ''.'')))"

definition row_matches :: "string option \<Rightarrow> string option \<Rightarrow> global_memory_entry \<Rightarrow> bool" where
  "row_matches wanted_dimension wanted_scope row \<longleftrightarrow> (wanted_dimension = None \<or> wanted_dimension = Some (gm_dimension row)) \<and> (wanted_scope = None \<or> wanted_scope = Some (gm_scope_class row))"

definition rows_in_order :: "global_memory_table \<Rightarrow> global_memory_table" where
  "rows_in_order tbl = js_sort (\<lambda>l r. compareCodeUnits (gm_global_object_id l) (gm_global_object_id r)) tbl"

definition listInternal :: "(string \<Rightarrow> bool) \<Rightarrow> list_filters \<Rightarrow> (nat \<times> nat) option \<Rightarrow> global_memory_table
    \<Rightarrow> storage_error + global_memory_entry list" where
  "listInternal zod filters page tbl =
     (case parse_filter memoryDimensionValues ''dimension'' (lf_dimension filters) of
        Inl e \<Rightarrow> Inl e
      | Inr wanted_dimension \<Rightarrow>
     (case parse_filter scopeClassValues ''scope_class'' (lf_scope_class filters) of
        Inl e \<Rightarrow> Inl e
      | Inr wanted_scope \<Rightarrow>
          (let rows = rows_in_order (filter (row_matches wanted_dimension wanted_scope) tbl);
               selected = (case page of None \<Rightarrow> rows | Some (limit, offset) \<Rightarrow> take limit (drop offset rows))
           in parse_rows (parseGlobalMemoryEntryRow zod) selected)))"

definition MAX_REPO_LIST_PAGE_LIMIT :: int where
  "MAX_REPO_LIST_PAGE_LIMIT = 500"

definition parsePageLimit :: "int \<Rightarrow> string \<Rightarrow> storage_error + nat" where
  "parsePageLimit val field =
     (if val < 0 \<or> val > MAX_REPO_LIST_PAGE_LIMIT then Inl (VALIDATION_FAILED (''Failed to validate '' @ field @ ''.''))
      else Inr (nat val))"

definition parsePageOffset :: "int \<Rightarrow> string \<Rightarrow> storage_error + nat" where
  "parsePageOffset val field =
     (if val < 0 then Inl (VALIDATION_FAILED (''Failed to validate '' @ field @ ''.'')) else Inr (nat val))"

definition repo_list :: "(string \<Rightarrow> bool) \<Rightarrow> list_filters \<Rightarrow> global_memory_table \<Rightarrow> storage_error + global_memory_entry list" where
  "repo_list zod filters tbl = listInternal zod filters (Some (500, 0)) tbl"

definition repo_listAll :: "(string \<Rightarrow> bool) \<Rightarrow> list_filters \<Rightarrow> global_memory_table \<Rightarrow> storage_error + global_memory_entry list" where
  "repo_listAll zod filters tbl = listInternal zod filters None tbl"

definition repo_listPage :: "(string \<Rightarrow> bool) \<Rightarrow> list_filters \<Rightarrow> int \<Rightarrow> int \<Rightarrow> global_memory_table
    \<Rightarrow> storage_error + global_memory_entry list" where
  "repo_listPage zod filters limit offset tbl =
     (case parsePageLimit limit ''global memory page limit'' of
        Inl e \<Rightarrow> Inl e
      | Inr l \<Rightarrow>
          (case parsePageOffset offset ''global memory page offset'' of
             Inl e \<Rightarrow> Inl e
           | Inr off \<Rightarrow> listInternal zod filters (Some (l, off)) tbl))"

section \<open>The selection\<close>

text \<open>The difference of two scores, of which only the sign is used.\<close>

definition score_difference :: "rat \<Rightarrow> rat \<Rightarrow> int" where
  "score_difference a b = (if a < b then -1 else if a = b then 0 else 1)"

definition compareGlobalMemoryRecallEntries :: "(string \<Rightarrow> string) \<Rightarrow> global_memory_entry \<Rightarrow> global_memory_entry \<Rightarrow> int" where
  "compareGlobalMemoryRecallEntries collate left right =
     (let leftScore = (case gm_activation_score left of None \<Rightarrow> -1 | Some s \<Rightarrow> s);
          rightScore = (case gm_activation_score right of None \<Rightarrow> -1 | Some s \<Rightarrow> s)
      in if leftScore \<noteq> rightScore then score_difference rightScore leftScore
         else if gm_updated_at left \<noteq> gm_updated_at right then localeCompare collate (gm_updated_at right) (gm_updated_at left)
         else if gm_created_at left \<noteq> gm_created_at right then localeCompare collate (gm_created_at right) (gm_created_at left)
         else localeCompare collate (gm_global_object_id left) (gm_global_object_id right))"

definition joinGlobalMemoryLexicalSurface :: "global_memory_entry \<Rightarrow> string" where
  "joinGlobalMemoryLexicalSurface e =
     (let parts = [gm_canonical_identity e, gm_content e, gm_provenance e] @ gm_domain_tags e
      in hd parts @ concat (map (\<lambda>p. '' '' @ p) (tl parts)))"

definition matchesGlobalMemoryQuery :: "(string \<Rightarrow> string list) \<Rightarrow> global_memory_entry \<Rightarrow> string list \<Rightarrow> bool" where
  "matchesGlobalMemoryQuery tokens_of e queryTokens =
     (if length queryTokens = 0 then False
      else let documentTokens = set (tokens_of (joinGlobalMemoryLexicalSurface e))
           in list_all (\<lambda>t. t \<in> documentTokens) queryTokens)"

definition filterGlobalRecallEntries :: "(string \<Rightarrow> string list) \<Rightarrow> string list option \<Rightarrow> global_memory_entry list
    \<Rightarrow> global_memory_entry list" where
  "filterGlobalRecallEntries tokens_of queryTokens entries =
     (case queryTokens of None \<Rightarrow> entries | Some ts \<Rightarrow> filter (\<lambda>e. matchesGlobalMemoryQuery tokens_of e ts) entries)"

definition GLOBAL_RECALL_CORPUS_PAGE_LIMIT :: nat where
  "GLOBAL_RECALL_CORPUS_PAGE_LIMIT = 500"

text \<open>The pages are read until a short one; a source that never returns one makes the loop endless.\<close>

partial_function (option) paged_loop ::
  "(nat \<Rightarrow> nat \<Rightarrow> storage_error + global_memory_entry list) \<Rightarrow> (global_memory_entry list \<Rightarrow> global_memory_entry list)
     \<Rightarrow> int \<Rightarrow> (global_memory_entry \<Rightarrow> global_memory_entry \<Rightarrow> int) \<Rightarrow> nat \<Rightarrow> global_memory_entry list
     \<Rightarrow> (storage_error + global_memory_entry list) option" where
  "paged_loop listPage keep limit compare offset selected =
     (case listPage GLOBAL_RECALL_CORPUS_PAGE_LIMIT offset of
        Inl e \<Rightarrow> Some (Inl e)
      | Inr page \<Rightarrow>
          if length page < GLOBAL_RECALL_CORPUS_PAGE_LIMIT
          then Some (Inr (selectBoundedTopK (selected @ keep page) limit compare))
          else paged_loop listPage keep limit compare (offset + GLOBAL_RECALL_CORPUS_PAGE_LIMIT)
                 (selectBoundedTopK (selected @ keep page) limit compare))"

record recall_source =
  rs_list :: "storage_error + global_memory_entry list"
  rs_listAll :: "(storage_error + global_memory_entry list) option"
  rs_listPage :: "(nat \<Rightarrow> nat \<Rightarrow> storage_error + global_memory_entry list) option"

definition selectGlobalMemoryRecallEntries :: "(string \<Rightarrow> string list) \<Rightarrow> (string \<Rightarrow> string) \<Rightarrow> recall_source
    \<Rightarrow> string list option \<Rightarrow> int \<Rightarrow> (storage_error + global_memory_entry list) option" where
  "selectGlobalMemoryRecallEntries tokens_of collate src queryTokens limit =
     (case rs_listPage src of
        Some listPage \<Rightarrow>
          paged_loop listPage (filterGlobalRecallEntries tokens_of queryTokens) limit
            (compareGlobalMemoryRecallEntries collate) 0 []
      | None \<Rightarrow>
          Some (map_sum id (\<lambda>entries. selectBoundedTopK (filterGlobalRecallEntries tokens_of queryTokens entries) limit
              (compareGlobalMemoryRecallEntries collate))
            (case rs_listAll src of None \<Rightarrow> rs_list src | Some l \<Rightarrow> l)))"

text \<open>The source the daemon builds on the repository (\<^verbatim>\<open>createGlobalMemoryRecallPort\<close>).\<close>

definition repo_source :: "(string \<Rightarrow> bool) \<Rightarrow> global_memory_table \<Rightarrow> recall_source" where
  "repo_source zod tbl =
     \<lparr>rs_list = repo_list zod no_filters tbl, rs_listAll = Some (repo_listAll zod no_filters tbl),
      rs_listPage = Some (\<lambda>limit offset. repo_listPage zod no_filters (int limit) (int offset) tbl)\<rparr>"

section \<open>The order of the entries\<close>

text \<open>
  The comparator by the collation keys of the timestamps: a total preorder for any collation. It is the
  comparator of the code on entries whose timestamps the collation tells apart; on others the code
  stops at the first pair of different timestamps with equal keys.
\<close>

definition key_compare :: "(string \<Rightarrow> string) \<Rightarrow> global_memory_entry \<Rightarrow> global_memory_entry \<Rightarrow> int" where
  "key_compare collate left right =
     (let leftScore = (case gm_activation_score left of None \<Rightarrow> -1 | Some s \<Rightarrow> s);
          rightScore = (case gm_activation_score right of None \<Rightarrow> -1 | Some s \<Rightarrow> s)
      in if leftScore \<noteq> rightScore then score_difference rightScore leftScore
         else if collate (gm_updated_at left) \<noteq> collate (gm_updated_at right) then localeCompare collate (gm_updated_at right) (gm_updated_at left)
         else if collate (gm_created_at left) \<noteq> collate (gm_created_at right) then localeCompare collate (gm_created_at right) (gm_created_at left)
         else localeCompare collate (gm_global_object_id left) (gm_global_object_id right))"

interpretation memory_order: js_order "key_compare collate" for collate
proof
  show "key_compare collate x y \<le> 0 \<or> key_compare collate y x \<le> 0" for x y
    by (auto simp: key_compare_def localeCompare_def score_difference_def Let_def)
  show "key_compare collate x z \<le> 0" if "key_compare collate x y \<le> 0" "key_compare collate y z \<le> 0" for x y z
    using that by (auto simp: key_compare_def localeCompare_def score_difference_def Let_def split: if_splits)
  show "key_compare collate y x \<le> 0" if "0 \<le> key_compare collate x y" for x y
    using that by (auto simp: key_compare_def localeCompare_def score_difference_def Let_def split: if_splits)
qed

interpretation task_order: js_order "compareTasks collate" for collate
proof
  show "compareTasks collate y x \<le> 0" if "0 \<le> compareTasks collate x y" for x y
    using that by (auto simp: compareTasks_def localeCompare_def split: if_splits)
qed

definition timestamps :: "global_memory_entry set \<Rightarrow> string set" where
  "timestamps es = gm_updated_at ` es \<union> gm_created_at ` es"

lemma compare_is_key_compare:
  assumes "inj_on collate (timestamps V)" "x \<in> V" "y \<in> V"
  shows "compareGlobalMemoryRecallEntries collate x y = key_compare collate x y"
proof -
  have "collate (gm_updated_at x) = collate (gm_updated_at y) \<longleftrightarrow> gm_updated_at x = gm_updated_at y"
    "collate (gm_created_at x) = collate (gm_created_at y) \<longleftrightarrow> gm_created_at x = gm_created_at y"
    using assms by (auto simp: timestamps_def inj_on_eq_iff)
  then show ?thesis by (simp add: compareGlobalMemoryRecallEntries_def key_compare_def)
qed

lemma select_entries_best:
  assumes "inj_on collate (timestamps (set es))"
  shows "best_of (compareGlobalMemoryRecallEntries collate) (nat limit) (mset es) (selectBoundedTopK es limit (compareGlobalMemoryRecallEntries collate))"
proof -
  have agree: "\<forall>x \<in> set es. \<forall>y \<in> set es. compareGlobalMemoryRecallEntries collate x y = key_compare collate x y"
    using compare_is_key_compare [OF assms] by blast
  then show ?thesis
    using memory_order.selectBoundedTopK_best [of collate limit es] selectBoundedTopK_cong [OF agree, of limit]
      best_of_cong [of "mset es" "compareGlobalMemoryRecallEntries collate" "key_compare collate"] by simp
qed

lemma best_of_entries_rounds:
  assumes inj: "inj_on collate (timestamps (set_mset (A + B)))"
    and 1: "best_of (compareGlobalMemoryRecallEntries collate) k A s"
    and 2: "best_of (compareGlobalMemoryRecallEntries collate) k (mset s + B) t"
  shows "best_of (compareGlobalMemoryRecallEntries collate) k (A + B) t"
proof -
  have sub: "mset s \<subseteq># A" using 1 by (simp add: best_of_def)
  have agree: "\<forall>x \<in># A + B. \<forall>y \<in># A + B. compareGlobalMemoryRecallEntries collate x y = key_compare collate x y"
    using compare_is_key_compare [OF inj] by blast
  have in1: "x \<in># A + B" if "x \<in># A" for x using that by simp
  have in2: "x \<in># A + B" if "x \<in># mset s + B" for x using that sub by (auto dest: mset_subset_eqD)
  have "best_of (key_compare collate) k A s" using 1 best_of_cong [of A] agree in1 by blast
  moreover have "best_of (key_compare collate) k (mset s + B) t" using 2 best_of_cong [of "mset s + B"] agree in2 by blast
  ultimately have "best_of (key_compare collate) k (A + B) t" by (rule memory_order.best_of_rounds)
  then show ?thesis using best_of_cong [of "A + B"] agree by blast
qed

section \<open>Reading the repository page by page\<close>

definition rows_readable :: "(string \<Rightarrow> bool) \<Rightarrow> global_memory_table \<Rightarrow> bool" where
  "rows_readable zod tbl \<longleftrightarrow> (\<forall>r \<in> set tbl. parseGlobalMemoryEntryRow zod r = Inr r)"

lemma parse_rows_readable: "(\<forall>r \<in> set rs. parse r = Inr r) \<Longrightarrow> parse_rows parse rs = Inr rs"
  by (induction rs) auto

lemma row_matches_all [simp]: "row_matches None None = (\<lambda>_. True)"
  by (auto simp: row_matches_def fun_eq_iff)

lemma rows_in_order_same [simp]:
  "mset (rows_in_order tbl) = mset tbl" "set (rows_in_order tbl) = set tbl"
  by (simp_all add: rows_in_order_def)

lemma set_page: "set (take n (drop m xs)) \<subseteq> set xs"
  by (meson set_drop_subset set_take_subset subset_trans)

lemma repo_page:
  assumes "rows_readable zod tbl"
  shows "repo_listPage zod no_filters (int GLOBAL_RECALL_CORPUS_PAGE_LIMIT) (int offset) tbl = Inr (take 500 (drop offset (rows_in_order tbl)))"
proof -
  have "\<forall>r \<in> set (take 500 (drop offset (rows_in_order tbl))). parseGlobalMemoryEntryRow zod r = Inr r"
    using assms set_page [of 500 offset "rows_in_order tbl"] unfolding rows_readable_def by auto
  then show ?thesis
    by (simp add: repo_listPage_def parsePageLimit_def parsePageOffset_def MAX_REPO_LIST_PAGE_LIMIT_def
        GLOBAL_RECALL_CORPUS_PAGE_LIMIT_def listInternal_def parse_filter_def no_filters_def parse_rows_readable)
qed

lemma filter_entries_append:
  "filterGlobalRecallEntries t q (xs @ ys) = filterGlobalRecallEntries t q xs @ filterGlobalRecallEntries t q ys"
  by (auto simp: filterGlobalRecallEntries_def split: option.splits)

lemma mset_filter_entries: "mset xs = mset ys \<Longrightarrow> mset (filterGlobalRecallEntries t q xs) = mset (filterGlobalRecallEntries t q ys)"
  by (auto simp: filterGlobalRecallEntries_def mset_filter split: option.splits)

lemma set_filter_entries: "set (filterGlobalRecallEntries t q xs) \<subseteq> set xs"
  by (auto simp: filterGlobalRecallEntries_def split: option.splits)

lemma paged_loop_best:
  fixes t q collate limit tbl
  defines "rows \<equiv> rows_in_order tbl" and "keep \<equiv> filterGlobalRecallEntries t q"
    and "cmp \<equiv> compareGlobalMemoryRecallEntries collate"
  assumes readable: "rows_readable zod tbl" and inj: "inj_on collate (timestamps (set tbl))"
  shows "best_of cmp (nat limit) (mset (keep (take offset rows))) selected \<Longrightarrow>
    \<exists>chosen. paged_loop (\<lambda>limit offset. repo_listPage zod no_filters (int limit) (int offset) tbl) keep limit cmp offset selected = Some (Inr chosen)
      \<and> best_of cmp (nat limit) (mset (keep rows)) chosen"
proof (induction "length rows - offset" arbitrary: offset selected rule: less_induct)
  case less
  let ?page = "take 500 (drop offset rows)"
  let ?sel = "selectBoundedTopK (selected @ keep ?page) limit cmp"
  have page: "repo_listPage zod no_filters (int GLOBAL_RECALL_CORPUS_PAGE_LIMIT) (int offset) tbl = Inr ?page"
    using repo_page [OF readable] by (simp add: rows_def)
  have rows_set: "set rows = set tbl" by (simp add: rows_def)
  have split: "take (offset + 500) rows = take offset rows @ ?page" by (rule take_add)
  have sub: "set (keep (take offset rows)) \<subseteq> set tbl" "set (keep ?page) \<subseteq> set tbl"
    using set_filter_entries [of t q "take offset rows"] set_filter_entries [of t q ?page] set_page [of 500 offset rows]
      set_take_subset [of offset rows] rows_set unfolding keep_def by auto
  have sel_sub: "set selected \<subseteq> set tbl"
    using less.prems sub(1) unfolding best_of_def by (metis mset_subset_eqD set_mset_mset subset_iff)
  have injs: "inj_on collate (timestamps V)" if "V \<subseteq> set tbl" for V
    by (rule inj_on_subset [OF inj]) (use that in \<open>auto simp: timestamps_def\<close>)
  have "best_of cmp (nat limit) (mset (selected @ keep ?page)) ?sel"
    unfolding cmp_def by (rule select_entries_best) (rule injs, use sel_sub sub(2) in auto)
  then have "best_of cmp (nat limit) (mset selected + mset (keep ?page)) ?sel" by simp
  then have best: "best_of cmp (nat limit) (mset (keep (take offset rows)) + mset (keep ?page)) ?sel"
    unfolding cmp_def
    by (rule best_of_entries_rounds [rotated 2]) (use less.prems in \<open>simp_all add: cmp_def\<close>, rule injs, use sub in auto)
  have all: "mset (keep (take offset rows)) + mset (keep ?page) = mset (keep (take (offset + 500) rows))"
    unfolding split keep_def by (simp add: filter_entries_append)
  show ?case
  proof (cases "length ?page < 500")
    case True
    then have "take (offset + 500) rows = rows" by auto
    then have "best_of cmp (nat limit) (mset (keep rows)) ?sel" using best all by simp
    moreover have "length rows - offset < 500" using True by (auto simp: min_def split: if_splits)
    ultimately show ?thesis using page by (subst paged_loop.simps) (simp add: GLOBAL_RECALL_CORPUS_PAGE_LIMIT_def)
  next
    case False
    then have dec: "length rows - (offset + 500) < length rows - offset" by auto
    have "best_of cmp (nat limit) (mset (keep (take (offset + 500) rows))) ?sel" using best all by simp
    from less.hyps [OF dec this] show ?thesis
      using False page by (subst paged_loop.simps) (simp add: GLOBAL_RECALL_CORPUS_PAGE_LIMIT_def)
  qed
qed

text \<open>C20: 
  recalling global memories page by page loses nothing: over a repository whose rows can be read back,
  the selection always comes to an end, and what it returns is, in order, the best \<open>limit\<close> of all
  entries of the table that match the query, however many pages there are.
\<close>

theorem paged_selection_is_best:
  assumes "rows_readable zod tbl" and "inj_on collate (timestamps (set tbl))"
  shows "\<exists>chosen. selectGlobalMemoryRecallEntries tokens_of collate (repo_source zod tbl) queryTokens limit = Some (Inr chosen) \<and>
    best_of (compareGlobalMemoryRecallEntries collate) (nat limit) (mset (filterGlobalRecallEntries tokens_of queryTokens tbl)) chosen"
proof -
  have "best_of (compareGlobalMemoryRecallEntries collate) (nat limit)
      (mset (filterGlobalRecallEntries tokens_of queryTokens (take 0 (rows_in_order tbl)))) []"
    by (auto simp: best_of_def filterGlobalRecallEntries_def split: option.splits)
  from paged_loop_best [OF assms this] show ?thesis
    using mset_filter_entries [OF rows_in_order_same(1) [of tbl], of tokens_of queryTokens]
    by (simp add: selectGlobalMemoryRecallEntries_def repo_source_def)
qed

definition sample_entry :: "string \<Rightarrow> rat \<Rightarrow> string list \<Rightarrow> global_memory_entry" where
  "sample_entry oid score tags =
     \<lparr>gm_global_object_id = oid, gm_object_kind = ''global_memory_entry'', gm_canonical_identity = ''c'',
      gm_dimension = ''fact'', gm_scope_class = ''global_core'', gm_content = ''x'', gm_domain_tags = tags,
      gm_provenance = ''p'', gm_activation_score = Some score, gm_version = 1,
      gm_created_at = ''2024-05-01T00:00:00Z'', gm_updated_at = ''2024-05-01T00:00:00Z''\<rparr>"

lemma sample_entry_ok:
  "0 \<le> score \<Longrightarrow> score \<le> 1 \<Longrightarrow> BoundedString 65536 oid \<Longrightarrow> list_all (BoundedString 65536) tags \<Longrightarrow>
     GlobalMemoryEntry_ok (\<lambda>_. True) (sample_entry oid score tags)"
  by (simp add: GlobalMemoryEntry_ok_def sample_entry_def memoryDimensionValues_def scopeClassValues_def BoundedString_def
      IsoDatetimeString_def DatetimeString_def)

lemma paged_selection_is_best_witness:
  "\<exists>chosen. selectGlobalMemoryRecallEntries (\<lambda>_. []) (\<lambda>s. s)
       (repo_source (\<lambda>_. True) [sample_entry ''a'' 0 [], sample_entry ''b'' 1 []]) None 1 = Some (Inr chosen) \<and>
     best_of (compareGlobalMemoryRecallEntries (\<lambda>s. s)) 1 (mset [sample_entry ''a'' 0 [], sample_entry ''b'' 1 []]) chosen"
proof -
  let ?tbl = "[sample_entry ''a'' 0 [], sample_entry ''b'' 1 []]"
  have "parseGlobalMemoryEntryRow (\<lambda>_. True) (sample_entry oid score []) = Inr (sample_entry oid score [])"
    if "BoundedString 65536 oid" "0 \<le> score" "score \<le> 1" for oid score
    using sample_entry_ok [OF that(2,3,1), of "[]"] by (simp add: parseGlobalMemoryEntryRow_def parseDomainTags_def sample_entry_def)
  then have "rows_readable (\<lambda>_. True) ?tbl" by (simp add: rows_readable_def BoundedString_def)
  then show ?thesis
    using paged_selection_is_best [of "\<lambda>_. True" ?tbl "\<lambda>s. s" "\<lambda>_. []" None 1] by (simp add: filterGlobalRecallEntries_def)
qed

section \<open>A row that cannot be read back\<close>

lemma parse_rows_fails: "r \<in> set rs \<Longrightarrow> parse r = Inl e \<Longrightarrow> \<exists>e'. parse_rows parse rs = Inl e'"
  by (induction rs) (auto split: sum.splits)

lemma parse_rows_length: "parse_rows parse rs = Inr vs \<Longrightarrow> length vs = length rs"
  by (induction rs arbitrary: vs) (auto split: sum.splits)

lemma repo_page_rows:
  "repo_listPage zod no_filters (int GLOBAL_RECALL_CORPUS_PAGE_LIMIT) (int offset) tbl =
     parse_rows (parseGlobalMemoryEntryRow zod) (take 500 (drop offset (rows_in_order tbl)))"
  by (simp add: repo_listPage_def parsePageLimit_def parsePageOffset_def MAX_REPO_LIST_PAGE_LIMIT_def
      GLOBAL_RECALL_CORPUS_PAGE_LIMIT_def listInternal_def parse_filter_def no_filters_def)

lemma paged_loop_fails:
  fixes zod tbl
  defines "rows \<equiv> rows_in_order tbl"
  assumes bad: "parseGlobalMemoryEntryRow zod r = Inl e"
  shows "r \<in> set (drop offset rows) \<Longrightarrow>
    \<exists>err. paged_loop (\<lambda>limit offset. repo_listPage zod no_filters (int limit) (int offset) tbl) keep limit cmp offset selected = Some (Inl err)"
proof (induction "length rows - offset" arbitrary: offset selected rule: less_induct)
  case less
  let ?page = "take 500 (drop offset rows)"
  have page: "repo_listPage zod no_filters (int GLOBAL_RECALL_CORPUS_PAGE_LIMIT) (int offset) tbl = parse_rows (parseGlobalMemoryEntryRow zod) ?page"
    using repo_page_rows by (simp add: rows_def)
  show ?case
  proof (cases "parse_rows (parseGlobalMemoryEntryRow zod) ?page")
    case (Inl err)
    then show ?thesis using page by (subst paged_loop.simps) simp
  next
    case (Inr vs)
    then have "r \<notin> set ?page" using parse_rows_fails [of r ?page "parseGlobalMemoryEntryRow zod"] bad by auto
    moreover have "set (drop offset rows) = set ?page \<union> set (drop (offset + 500) rows)"
      by (metis add.commute append_take_drop_id drop_drop set_append)
    ultimately have later: "r \<in> set (drop (offset + 500) rows)" using less.prems by blast
    then have len: "offset + 500 < length rows" by (metis drop_all empty_iff empty_set leI)
    then have "length vs = 500" using parse_rows_length [OF Inr] by simp
    moreover have "length rows - (offset + 500) < length rows - offset" using len by auto
    from less.hyps [OF this later] have
      "\<exists>err. paged_loop (\<lambda>limit offset. repo_listPage zod no_filters (int limit) (int offset) tbl) keep limit cmp (offset + 500)
         (selectBoundedTopK (selected @ keep vs) limit cmp) = Some (Inl err)" .
    ultimately show ?thesis using page Inr by (subst paged_loop.simps) (simp add: GLOBAL_RECALL_CORPUS_PAGE_LIMIT_def)
  qed
qed

lemma upsert_row_finds:
  "\<exists>row. find (\<lambda>r. gm_global_object_id r = gm_global_object_id e) (upsert_row e tbl) = Some row \<and> row \<in> set (upsert_row e tbl)
     \<and> gm_domain_tags row = gm_domain_tags e"
  by (induction tbl) auto

lemma blank_tag_row:
  "'' '' \<in> set (gm_domain_tags row) \<Longrightarrow>
     parseGlobalMemoryEntryRow zod row = Inl (VALIDATION_FAILED ''Failed to validate global memory entry row.'')"
proof -
  assume blank: "'' '' \<in> set (gm_domain_tags row)"
  have "js_trim '' '' = []" by (simp add: js_trim_def js_space_def)
  then have "list_ex (\<lambda>tag. length (js_trim tag) = 0) (gm_domain_tags row)" using blank by (auto simp: list_ex_iff)
  then show ?thesis by (simp add: parseGlobalMemoryEntryRow_def parseDomainTags_def)
qed

text \<open>C39: 
  one entry with a blank domain tag blocks the recall of every global memory: the schema admits the
  tag (it is not empty), so that \<^verbatim>\<open>upsert\<close> stores the row, but reading a row refuses tags that are
  blank. The call fails after the row is stored, and from then on the selection over the repository
  fails as well, whatever the other rows, the query and the limit are.
\<close>

theorem blank_tag_blocks_recall:
  assumes "GlobalMemoryEntry_ok zod e" "'' '' \<in> set (gm_domain_tags e)"
  shows "\<exists>err err' tbl'. upsert zod e tbl = (Inl err, tbl') \<and> (\<exists>row \<in> set tbl'. gm_domain_tags row = gm_domain_tags e) \<and>
    selectGlobalMemoryRecallEntries tokens_of collate (repo_source zod tbl') queryTokens limit = Some (Inl err')"
proof -
  obtain row where row: "find (\<lambda>r. gm_global_object_id r = gm_global_object_id e) (upsert_row e tbl) = Some row"
    "row \<in> set (upsert_row e tbl)" "gm_domain_tags row = gm_domain_tags e"
    using upsert_row_finds by blast
  have bad: "parseGlobalMemoryEntryRow zod row = Inl (VALIDATION_FAILED ''Failed to validate global memory entry row.'')"
    using assms(2) row(3) by (simp add: blank_tag_row)
  have "\<exists>err. upsert zod e tbl = (Inl err, upsert_row e tbl)"
    using assms(1) row(1) bad by (auto simp: upsert_def parseGlobalMemoryEntry_def findByGlobalObjectId_def parseRepoText_def Let_def)
  moreover have "\<exists>err'. selectGlobalMemoryRecallEntries tokens_of collate (repo_source zod (upsert_row e tbl)) queryTokens limit = Some (Inl err')"
    using paged_loop_fails [OF bad, of 0 "upsert_row e tbl"] row(2) by (simp add: selectGlobalMemoryRecallEntries_def repo_source_def)
  ultimately show ?thesis using row(2,3) by blast
qed

lemma blank_tag_blocks_recall_witness:
  "\<exists>err err' tbl'. upsert (\<lambda>_. True) (sample_entry ''b'' 1 ['' '']) [sample_entry ''a'' 1 []] = (Inl err, tbl') \<and>
     selectGlobalMemoryRecallEntries (\<lambda>_. []) (\<lambda>s. s) (repo_source (\<lambda>_. True) tbl') None 10 = Some (Inl err')"
proof -
  have "GlobalMemoryEntry_ok (\<lambda>_. True) (sample_entry ''b'' 1 ['' ''])"
    by (rule sample_entry_ok) (simp_all add: BoundedString_def)
  moreover have "'' '' \<in> set (gm_domain_tags (sample_entry ''b'' 1 ['' '']))" by (simp add: sample_entry_def)
  ultimately show ?thesis using blank_tag_blocks_recall by blast
qed

end
