(* ===== verification/RetainedSequence.thy ===== *)
theory RetainedSequence
  imports PersistentStringMap
begin

text \<open>
  The immutable row sequence of
  \<^verbatim>\<open>core/src/recall/conditional-field/engine/retained-sequence.ts\<close>: rows kept in a persistent map under
  the zero-padded text of their position, so that versions share their rows. The interface that the
  field preparation relies on is the locale \<open>row_sequence\<close>; callbacks are functions of a row and its position.
\<close>

section \<open>Ordinals\<close>

definition pad_start :: "nat \<Rightarrow> char \<Rightarrow> string \<Rightarrow> string" where
  "pad_start n c s = replicate (n - length s) c @ s"

definition ordinal :: "nat \<Rightarrow> string" where
  "ordinal index = pad_start 16 CHR ''0'' (js_string_of_nat index)"

definition decimal_value :: "string \<Rightarrow> nat" where
  "decimal_value s = foldl (\<lambda>a c. a * 10 + (of_char c - 48)) 0 s"

lemma decimal_zeros: "foldl (\<lambda>a c. a * 10 + (of_char c - 48)) 0 (replicate k CHR ''0'') = (0::nat)"
  by (induction k) auto

lemma decimal_value_text: "decimal_value (js_string_of_nat n) = n"
proof (induction n rule: js_string_of_nat.induct)
  case (1 n)
  have digit: "of_char (digit_char d) - 48 = d" if "d < 10" for d
    using that by (simp add: digit_char_def of_char_of)
  show ?case
  proof (cases "n < 10")
    case True
    then show ?thesis by (subst js_string_of_nat.simps) (simp add: decimal_value_def digit)
  next
    case False
    then have "decimal_value (js_string_of_nat n) = decimal_value (js_string_of_nat (n div 10)) * 10 + n mod 10"
      by (subst js_string_of_nat.simps) (simp add: decimal_value_def digit)
    then show ?thesis using 1 False by simp
  qed
qed

lemma ordinal_inject: "ordinal m = ordinal n \<longleftrightarrow> m = n"
proof -
  have "decimal_value (ordinal k) = k" for k
    using decimal_value_text [of k] by (simp add: ordinal_def pad_start_def decimal_value_def decimal_zeros)
  then show ?thesis by metis
qed

section \<open>The sequence\<close>

record 'a retained_sequence =
  sq_rows :: "(string, 'a) pnode"
  sq_length :: nat
  sq_start :: nat

definition seq_empty :: "'a retained_sequence" where
  "seq_empty = \<lparr>sq_rows = Undef, sq_length = 0, sq_start = 0\<rparr>"

definition seq_at :: "'a retained_sequence \<Rightarrow> int \<Rightarrow> 'a option" where
  "seq_at s index =
     (let position = (if index < 0 then int (sq_length s) + index else index)
      in if position < 0 \<or> position \<ge> int (sq_length s) then None
         else pm_get (sq_rows s) (ordinal (sq_start s + nat position)))"

definition seq_append :: "'a retained_sequence \<Rightarrow> 'a \<Rightarrow> 'a retained_sequence" where
  "seq_append s row =
     \<lparr>sq_rows = pm_with (sq_rows s) (ordinal (sq_start s + sq_length s)) row, sq_length = sq_length s + 1, sq_start = sq_start s\<rparr>"

definition seq_replace :: "'a retained_sequence \<Rightarrow> int \<Rightarrow> 'a \<Rightarrow> string + 'a retained_sequence" where
  "seq_replace s index row =
     (if index < 0 \<or> index \<ge> int (sq_length s) then Inl ''retained row index is outside its version''
      else Inr (if seq_at s index = Some row then s
        else s\<lparr>sq_rows := pm_with (sq_rows s) (ordinal (sq_start s + nat index)) row\<rparr>))"

definition seq_concat :: "'a retained_sequence \<Rightarrow> 'a list \<Rightarrow> 'a retained_sequence" where
  "seq_concat s rows = fold (\<lambda>row t. seq_append t row) rows s"

text \<open>\<^verbatim>\<open>RetainedSequence.from\<close> on rows that are not a sequence yet.\<close>

definition seq_from :: "'a list \<Rightarrow> 'a retained_sequence" where
  "seq_from rows = seq_concat seq_empty rows"

definition seq_slice :: "'a retained_sequence \<Rightarrow> int \<Rightarrow> int option \<Rightarrow> 'a retained_sequence" where
  "seq_slice s from until =
     (let len = int (sq_length s);
          stop = (case until of None \<Rightarrow> len | Some e \<Rightarrow> e);
          left = max 0 (min len (if from < 0 then len + from else from));
          right = max left (min len (if stop < 0 then len + stop else stop))
      in if left = 0 \<and> right = len then s
         else \<lparr>sq_rows = sq_rows s, sq_length = nat (right - left), sq_start = sq_start s + nat left\<rparr>)"

definition seq_iterator :: "'a retained_sequence \<Rightarrow> 'a list" where
  "seq_iterator s = map (\<lambda>index. the (seq_at s (int index))) [0..<sq_length s]"

definition seq_map :: "('a \<Rightarrow> nat \<Rightarrow> 'b) \<Rightarrow> 'a retained_sequence \<Rightarrow> 'b list" where
  "seq_map callback s = map2 callback (seq_iterator s) [0..<sq_length s]"

definition seq_flatMap :: "('a \<Rightarrow> nat \<Rightarrow> 'b list) \<Rightarrow> 'a retained_sequence \<Rightarrow> 'b list" where
  "seq_flatMap callback s = concat (seq_map callback s)"

definition seq_filter :: "('a \<Rightarrow> nat \<Rightarrow> bool) \<Rightarrow> 'a retained_sequence \<Rightarrow> 'a list" where
  "seq_filter callback s = map fst (filter (\<lambda>(row, index). callback row index) (zip (seq_iterator s) [0..<sq_length s]))"

definition seq_find :: "('a \<Rightarrow> nat \<Rightarrow> bool) \<Rightarrow> 'a retained_sequence \<Rightarrow> 'a option" where
  "seq_find callback s = map_option fst (find (\<lambda>(row, index). callback row index) (zip (seq_iterator s) [0..<sq_length s]))"

definition seq_findIndex :: "('a \<Rightarrow> nat \<Rightarrow> bool) \<Rightarrow> 'a retained_sequence \<Rightarrow> int" where
  "seq_findIndex callback s =
     (case find (\<lambda>(row, index). callback row index) (zip (seq_iterator s) [0..<sq_length s]) of
        Some (row, index) \<Rightarrow> int index | None \<Rightarrow> -1)"

definition seq_some :: "('a \<Rightarrow> nat \<Rightarrow> bool) \<Rightarrow> 'a retained_sequence \<Rightarrow> bool" where
  "seq_some callback s \<longleftrightarrow> seq_findIndex callback s \<ge> 0"

definition seq_every :: "('a \<Rightarrow> nat \<Rightarrow> bool) \<Rightarrow> 'a retained_sequence \<Rightarrow> bool" where
  "seq_every callback s \<longleftrightarrow> seq_findIndex (\<lambda>row index. \<not> callback row index) s < 0"

text \<open>The effect of the callback is a function on the state it works on.\<close>

definition seq_forEach :: "('a \<Rightarrow> nat \<Rightarrow> 's \<Rightarrow> 's) \<Rightarrow> 'a retained_sequence \<Rightarrow> 's \<Rightarrow> 's" where
  "seq_forEach callback s state = fold (\<lambda>(row, index). callback row index) (zip (seq_iterator s) [0..<sq_length s]) state"

section \<open>The sequence as a list\<close>

definition seq_inv :: "'a retained_sequence \<Rightarrow> bool" where
  "seq_inv s \<longleftrightarrow> pm_inv (sq_rows s) \<and> (\<forall>i < sq_length s. pm_get (sq_rows s) (ordinal (sq_start s + i)) \<noteq> None)"

lemma seq_at_inside: "i < sq_length s \<Longrightarrow> seq_at s (int i) = pm_get (sq_rows s) (ordinal (sq_start s + i))"
  by (simp add: seq_at_def)

lemma length_iterator [simp]: "length (seq_iterator s) = sq_length s"
  by (simp add: seq_iterator_def)

lemma iterator_nth: "seq_inv s \<Longrightarrow> i < sq_length s \<Longrightarrow> pm_get (sq_rows s) (ordinal (sq_start s + i)) = Some (seq_iterator s ! i)"
  by (auto simp: seq_iterator_def seq_inv_def seq_at_inside)

lemma iterator_eqI:
  assumes "seq_inv s" "sq_length s = length xs" "\<And>i. i < length xs \<Longrightarrow> pm_get (sq_rows s) (ordinal (sq_start s + i)) = Some (xs ! i)"
  shows "seq_iterator s = xs"
  using assms by (intro nth_equalityI) (auto simp: iterator_nth dest: iterator_nth [OF assms(1)])

lemma seq_empty_list [simp]: "seq_inv seq_empty" "seq_iterator seq_empty = []" "sq_length seq_empty = 0"
  by (simp_all add: seq_inv_def seq_empty_def seq_iterator_def)

lemma append_get:
  "pm_inv (sq_rows s) \<Longrightarrow> pm_get (sq_rows (seq_append s row)) (ordinal (sq_start s + i)) =
     (if i = sq_length s then Some row else pm_get (sq_rows s) (ordinal (sq_start s + i)))"
  by (simp add: seq_append_def map_laws ordinal_inject)

lemma seq_append_list:
  assumes "seq_inv s"
  shows "seq_inv (seq_append s row) \<and> seq_iterator (seq_append s row) = seq_iterator s @ [row]"
proof -
  have pm: "pm_inv (sq_rows s)" using assms by (simp add: seq_inv_def)
  have fields [simp]: "sq_length (seq_append s row) = sq_length s + 1" "sq_start (seq_append s row) = sq_start s"
    by (simp_all add: seq_append_def)
  have "pm_inv (sq_rows (seq_append s row))" using pm by (simp add: seq_append_def map_laws)
  then have inv: "seq_inv (seq_append s row)"
    using assms append_get [OF pm, of row] by (auto simp: seq_inv_def less_Suc_eq)
  moreover have "seq_iterator (seq_append s row) = seq_iterator s @ [row]"
    by (rule iterator_eqI [OF inv])
      (use append_get [OF pm, of row] iterator_nth [OF assms] in \<open>auto simp: nth_append less_Suc_eq\<close>)
  ultimately show ?thesis by simp
qed

lemma seq_concat_list:
  "seq_inv s \<Longrightarrow> seq_inv (seq_concat s rows) \<and> seq_iterator (seq_concat s rows) = seq_iterator s @ rows"
  unfolding seq_concat_def by (induction rows arbitrary: s) (auto simp: seq_append_list)

lemma seq_slice_list:
  assumes "seq_inv s" "0 \<le> from" "from \<le> until" "until \<le> int (sq_length s)"
  shows "seq_inv (seq_slice s from (Some until)) \<and>
    seq_iterator (seq_slice s from (Some until)) = take (nat (until - from)) (drop (nat from) (seq_iterator s))"
proof (cases "from = 0 \<and> until = int (sq_length s)")
  case True
  then show ?thesis using assms(1) by (simp add: seq_slice_def)
next
  case False
  then have "seq_slice s from (Some until) = \<lparr>sq_rows = sq_rows s, sq_length = nat (until - from), sq_start = sq_start s + nat from\<rparr>"
    using assms(2-) by (auto simp: seq_slice_def Let_def)
  moreover have inv: "seq_inv \<lparr>sq_rows = sq_rows s, sq_length = nat (until - from), sq_start = sq_start s + nat from\<rparr>"
    using assms by (auto simp: seq_inv_def add.assoc)
  moreover have "nat from + i < sq_length s" if "i < nat (until - from)" for i using that assms by linarith
  then have "seq_iterator \<lparr>sq_rows = sq_rows s, sq_length = nat (until - from), sq_start = sq_start s + nat from\<rparr>
      = take (nat (until - from)) (drop (nat from) (seq_iterator s))"
    by (intro iterator_eqI [OF inv]) (use assms in \<open>auto simp: add.assoc iterator_nth\<close>)
  ultimately show ?thesis by simp
qed

lemma seq_tail_list:
  assumes "seq_inv s" "0 < sq_length s"
  shows "seq_inv (seq_slice s 1 None) \<and> seq_iterator (seq_slice s 1 None) = tl (seq_iterator s)"
proof -
  have "seq_slice s 1 None = seq_slice s 1 (Some (int (sq_length s)))" by (simp add: seq_slice_def)
  then show ?thesis using seq_slice_list [OF assms(1), of 1 "int (sq_length s)"] assms(2) by (simp add: drop_Suc)
qed

lemma seq_at_list:
  assumes "seq_inv s"
  shows "seq_at s index = (let position = (if index < 0 then int (sq_length s) + index else index)
    in if 0 \<le> position \<and> position < int (sq_length s) then Some (seq_iterator s ! nat position) else None)"
  using iterator_nth [OF assms] by (auto simp: seq_at_def Let_def)

lemma seq_replace_list:
  assumes "seq_inv s" and t: "seq_replace s index row = Inr t"
  shows "seq_inv t \<and> seq_iterator t = (seq_iterator s)[nat index := row]"
proof -
  from t have i: "0 \<le> index" "index < int (sq_length s)" by (auto simp: seq_replace_def split: if_splits)
  show ?thesis
  proof (cases "seq_at s index = Some row")
    case True
    then have "t = s" "seq_iterator s ! nat index = row"
      using t i by (simp_all add: seq_replace_def seq_at_list [OF assms(1)] Let_def)
    then show ?thesis using assms by (metis list_update_id)
  next
    case False
    then have eq: "t = s\<lparr>sq_rows := pm_with (sq_rows s) (ordinal (sq_start s + nat index)) row\<rparr>"
      using t i by (simp add: seq_replace_def)
    have pm: "pm_inv (sq_rows s)" using assms by (simp add: seq_inv_def)
    have get: "pm_get (sq_rows t) (ordinal (sq_start s + k)) = (if k = nat index then Some row else pm_get (sq_rows s) (ordinal (sq_start s + k)))" for k
      using pm by (simp add: eq map_laws ordinal_inject)
    have "pm_inv (sq_rows t)" using pm by (simp add: eq map_laws)
    then have inv: "seq_inv t" using get assms unfolding seq_inv_def by (auto simp: eq)
    have "seq_iterator t = (seq_iterator s)[nat index := row]"
      by (rule iterator_eqI [OF inv]) (use get iterator_nth [OF assms(1)] in \<open>auto simp: eq nth_list_update\<close>)
    with inv show ?thesis by simp
  qed
qed

section \<open>The interface of the field preparation\<close>

locale row_sequence =
  fixes no_rows :: 'q
    and add_row :: "'q \<Rightarrow> 'r \<Rightarrow> 'q"
    and first_row :: "'q \<Rightarrow> 'r option"
    and drop_first :: "'q \<Rightarrow> 'q"
    and row_count :: "'q \<Rightarrow> nat"
    and rows :: "'q \<Rightarrow> 'r list"
    and invar :: "'q \<Rightarrow> bool"
  assumes invar_none: "invar no_rows" and rows_none: "rows no_rows = []"
    and invar_add: "invar q \<Longrightarrow> invar (add_row q r)" and rows_add: "invar q \<Longrightarrow> rows (add_row q r) = rows q @ [r]"
    and first_rows: "invar q \<Longrightarrow> first_row q = (case rows q of [] \<Rightarrow> None | r # _ \<Rightarrow> Some r)"
    and invar_drop: "invar q \<Longrightarrow> rows q \<noteq> [] \<Longrightarrow> invar (drop_first q)"
    and rows_drop: "invar q \<Longrightarrow> rows q \<noteq> [] \<Longrightarrow> rows (drop_first q) = tl (rows q)"
    and count_rows: "row_count q = length (rows q)"
begin

lemma first_after_add: "invar q \<Longrightarrow> first_row (add_row q r) = (case first_row q of None \<Rightarrow> Some r | Some f \<Rightarrow> Some f)"
  by (simp add: first_rows invar_add rows_add split: list.split)

lemma first_none: "invar q \<Longrightarrow> first_row q = None \<longleftrightarrow> row_count q = 0"
  by (simp add: first_rows count_rows split: list.split)

lemmas laws = invar_none rows_none invar_add rows_add invar_drop rows_drop

end

interpretation sq: row_sequence seq_empty seq_append "\<lambda>s. seq_at s 0" "\<lambda>s. seq_slice s 1 None" sq_length seq_iterator seq_inv
proof
  fix q :: "'a retained_sequence" and r
  assume inv: "seq_inv q"
  show "seq_inv (seq_append q r)" "seq_iterator (seq_append q r) = seq_iterator q @ [r]"
    using seq_append_list [OF inv] by simp_all
  show "seq_at q 0 = (case seq_iterator q of [] \<Rightarrow> None | r # _ \<Rightarrow> Some r)"
    using length_iterator [of q] by (auto simp: seq_at_list [OF inv] simp del: length_iterator split: list.split)
  assume "seq_iterator q \<noteq> []"
  then have "0 < sq_length q" by (metis length_greater_0_conv length_iterator)
  then show "seq_inv (seq_slice q 1 None)" "seq_iterator (seq_slice q 1 None) = tl (seq_iterator q)"
    using seq_tail_list [OF inv] by simp_all
qed simp_all

section \<open>The sequence refines a list\<close>

text \<open>The position that an index names in a list of \<open>n\<close> rows, counted from the end when it is negative.\<close>

definition list_position :: "nat \<Rightarrow> int \<Rightarrow> nat" where
  "list_position n index = (if index < 0 then n - nat (- index) else nat index)"

lemma take_drop_clamped:
  "take (max (min (length xs) a) (min (length xs) b) - min (length xs) a) (drop (min (length xs) a) xs) = take (b - a) (drop a xs)"
proof (cases "a < length xs")
  case True
  then show ?thesis by (cases "b \<le> length xs") (auto simp: max_def)
qed (simp add: max_def)

lemma clamped_position: "max 0 (min (int n) (if index < 0 then int n + index else index)) = int (min n (list_position n index))"
  by (auto simp: list_position_def min_def max_def)

lemma seq_slice_any:
  assumes "seq_inv s"
  shows "seq_inv (seq_slice s lo hi) \<and> seq_iterator (seq_slice s lo hi) =
    (let start = list_position (sq_length s) lo;
         stop = (case hi of None \<Rightarrow> sq_length s | Some e \<Rightarrow> list_position (sq_length s) e)
     in take (stop - start) (drop start (seq_iterator s)))"
proof -
  let ?n = "sq_length s"
  define start where "start = list_position ?n lo"
  define stop where "stop = (case hi of None \<Rightarrow> ?n | Some e \<Rightarrow> list_position ?n e)"
  define left where "left = min ?n start"
  define right where "right = max left (min ?n stop)"
  have low: "max 0 (min (int ?n) (if lo < 0 then int ?n + lo else lo)) = int left"
    by (simp only: clamped_position left_def start_def)
  have high: "max (int left) (min (int ?n) (if e < 0 then int ?n + e else e)) = int right" if "hi = Some e \<or> hi = None \<and> e = int ?n" for e
    using that clamped_position [of ?n e] by (auto simp: right_def stop_def list_position_def)
  have bounds: "left \<le> right" "right \<le> ?n" by (simp_all add: left_def right_def)
  have "seq_slice s lo hi = seq_slice s (int left) (Some (int right))"
  proof -
    have same: "max 0 (min (int ?n) (if int left < 0 then int ?n + int left else int left)) = int left"
      "max (int left) (min (int ?n) (if int right < 0 then int ?n + int right else int right)) = int right"
      using bounds by simp_all
    have "max (int left) (min (int ?n) (if (case hi of None \<Rightarrow> int ?n | Some e \<Rightarrow> e) < 0
        then int ?n + (case hi of None \<Rightarrow> int ?n | Some e \<Rightarrow> e) else (case hi of None \<Rightarrow> int ?n | Some e \<Rightarrow> e))) = int right"
      by (rule high) (simp split: option.split)
    then show ?thesis unfolding seq_slice_def Let_def low option.case same by (simp only: same)
  qed
  moreover have "take (right - left) (drop left (seq_iterator s)) = take (stop - start) (drop start (seq_iterator s))"
    using take_drop_clamped [of "seq_iterator s" start stop] by (simp only: left_def right_def length_iterator)
  ultimately show ?thesis
    using seq_slice_list [OF assms, of "int left" "int right"] bounds
    by (simp add: Let_def start_def [symmetric] stop_def [symmetric] nat_diff_distrib')
qed

lemma zip_positions: "zip xs [0..<length xs] = map (\<lambda>i. (xs ! i, i)) [0..<length xs]"
  by (rule nth_equalityI) simp_all

lemma find_map_index: "List.find P (map h ys) = map_option h (List.find (P \<circ> h) ys)"
  by (induction ys) simp_all

lemma find_upt:
  "List.find P [0..<n] = Some i \<longleftrightarrow> i < n \<and> P i \<and> (\<forall>j < i. \<not> P j)" "List.find P [0..<n] = None \<longleftrightarrow> (\<forall>i < n. \<not> P i)"
  by (auto simp: find_Some_iff find_None_iff)

lemma seq_first:
  fixes s :: "'a retained_sequence"
  defines "first \<equiv> \<lambda>keep :: 'a \<Rightarrow> nat \<Rightarrow> bool. List.find (\<lambda>i. keep (seq_iterator s ! i) i) [0..<sq_length s]"
  shows "seq_find keep s = map_option ((!) (seq_iterator s)) (first keep)"
    "seq_findIndex keep s = (case first keep of None \<Rightarrow> -1 | Some i \<Rightarrow> int i)"
    "seq_some keep s \<longleftrightarrow> first keep \<noteq> None" "seq_every keep s \<longleftrightarrow> first (\<lambda>r i. \<not> keep r i) = None"
proof -
  have pairs: "List.find (\<lambda>(row, index). k row index) (zip (seq_iterator s) [0..<sq_length s]) =
      map_option (\<lambda>i. (seq_iterator s ! i, i)) (first k)" for k
    using zip_positions [of "seq_iterator s"] by (simp add: find_map_index o_def first_def)
  show "seq_find keep s = map_option ((!) (seq_iterator s)) (first keep)"
    by (simp add: seq_find_def pairs option.map_comp o_def)
  show index: "seq_findIndex k s = (case first k of None \<Rightarrow> -1 | Some i \<Rightarrow> int i)" for k
    by (simp add: seq_findIndex_def pairs split: option.split)
  show "seq_some keep s \<longleftrightarrow> first keep \<noteq> None" "seq_every keep s \<longleftrightarrow> first (\<lambda>r i. \<not> keep r i) = None"
    by (simp_all add: seq_some_def seq_every_def index split: option.split)
qed

lemma seq_loops:
  fixes s :: "'a retained_sequence"
  shows "seq_map f s = map (\<lambda>i. f (seq_iterator s ! i) i) [0..<sq_length s]"
    "seq_filter keep s = map ((!) (seq_iterator s)) (filter (\<lambda>i. keep (seq_iterator s ! i) i) [0..<sq_length s])"
    "seq_forEach h s acc = fold (\<lambda>i. h (seq_iterator s ! i) i) [0..<sq_length s] acc"
  using zip_positions [of "seq_iterator s"]
  by (simp_all add: seq_map_def seq_filter_def seq_forEach_def filter_map fold_map o_def)

text \<open>C34: 
  an immutable sequence is a list, operation by operation. Building, appending, concatenating, slicing and
  replacing give a sequence again, whose rows are those of the list operation; an index of a slice or of a
  reading counts from the end when it is negative, and a slice outside the rows is cut. Replacing outside
  the rows is an error and nothing else is. A callback of \<^verbatim>\<open>map\<close>, \<^verbatim>\<open>flatMap\<close>, \<^verbatim>\<open>filter\<close> and \<^verbatim>\<open>forEach\<close>
  sees every row with its position, in order; \<^verbatim>\<open>find\<close> and \<^verbatim>\<open>findIndex\<close> give the first match, and
  \<^verbatim>\<open>some\<close> and \<^verbatim>\<open>every\<close> whether one or all rows match.
\<close>

theorem retained_sequence_refines_list:
  assumes "seq_inv s" and "seq_iterator s = xs"
  shows "sq_length s = length xs \<and> seq_inv (seq_from rows) \<and> seq_iterator (seq_from rows) = rows \<and>
    seq_inv (seq_append s row) \<and> seq_iterator (seq_append s row) = xs @ [row] \<and>
    seq_inv (seq_concat s rows) \<and> seq_iterator (seq_concat s rows) = xs @ rows \<and>
    seq_inv (seq_slice s lo hi) \<and> seq_iterator (seq_slice s lo hi) =
      (let start = list_position (length xs) lo;
           stop = (case hi of None \<Rightarrow> length xs | Some e \<Rightarrow> list_position (length xs) e)
       in take (stop - start) (drop start xs)) \<and>
    seq_at s index = (if - int (length xs) \<le> index \<and> index < int (length xs) then Some (xs ! list_position (length xs) index) else None) \<and>
    (case seq_replace s index row of
       Inl message \<Rightarrow> (index < 0 \<or> int (length xs) \<le> index) \<and> message = ''retained row index is outside its version''
     | Inr t \<Rightarrow> 0 \<le> index \<and> index < int (length xs) \<and> seq_inv t \<and> seq_iterator t = xs[nat index := row]) \<and>
    seq_map f s = map (\<lambda>i. f (xs ! i) i) [0..<length xs] \<and>
    seq_flatMap g s = concat (map (\<lambda>i. g (xs ! i) i) [0..<length xs]) \<and>
    seq_filter keep s = map (\<lambda>i. xs ! i) (filter (\<lambda>i. keep (xs ! i) i) [0..<length xs]) \<and>
    seq_forEach h s acc = fold (\<lambda>i. h (xs ! i) i) [0..<length xs] acc \<and>
    (\<forall>i < length xs. keep (xs ! i) i \<and> (\<forall>j < i. \<not> keep (xs ! j) j) \<longrightarrow>
       seq_find keep s = Some (xs ! i) \<and> seq_findIndex keep s = int i) \<and>
    ((\<forall>i < length xs. \<not> keep (xs ! i) i) \<longrightarrow> seq_find keep s = None \<and> seq_findIndex keep s = -1) \<and>
    (seq_some keep s \<longleftrightarrow> (\<exists>i < length xs. keep (xs ! i) i)) \<and>
    (seq_every keep s \<longleftrightarrow> (\<forall>i < length xs. keep (xs ! i) i))"
proof -
  have len: "sq_length s = length xs" using assms(2) by auto
  have at: "seq_at s index = (if - int (length xs) \<le> index \<and> index < int (length xs) then Some (xs ! list_position (length xs) index) else None)"
    by (auto simp: seq_at_list [OF assms(1)] Let_def assms(2) len list_position_def nat_diff_distrib' intro!: arg_cong [where f = "(!) xs"])
  have replaced: "case seq_replace s index row of
       Inl message \<Rightarrow> (index < 0 \<or> int (length xs) \<le> index) \<and> message = ''retained row index is outside its version''
     | Inr t \<Rightarrow> 0 \<le> index \<and> index < int (length xs) \<and> seq_inv t \<and> seq_iterator t = xs[nat index := row]"
  proof (cases "seq_replace s index row")
    case (Inr t)
    then show ?thesis using seq_replace_list [OF assms(1) Inr] by (simp add: seq_replace_def assms(2) len split: if_splits)
  qed (simp add: seq_replace_def len split: if_splits)
  have finds: "\<forall>i < length xs. keep (xs ! i) i \<and> (\<forall>j < i. \<not> keep (xs ! j) j) \<longrightarrow>
       seq_find keep s = Some (xs ! i) \<and> seq_findIndex keep s = int i"
  proof (intro allI impI)
    fix i assume "i < length xs" "keep (xs ! i) i \<and> (\<forall>j < i. \<not> keep (xs ! j) j)"
    then have "List.find (\<lambda>i. keep (xs ! i) i) [0..<length xs] = Some i" by (simp add: find_upt)
    then show "seq_find keep s = Some (xs ! i) \<and> seq_findIndex keep s = int i" by (simp add: seq_first assms(2) len)
  qed
  have none: "(\<forall>i < length xs. \<not> keep (xs ! i) i) \<longrightarrow> seq_find keep s = None \<and> seq_findIndex keep s = -1"
    using find_upt(2) [of "\<lambda>i. keep (xs ! i) i" "length xs"] by (auto simp: seq_first assms(2) len)
  have tests: "seq_some keep s \<longleftrightarrow> (\<exists>i < length xs. keep (xs ! i) i)" "seq_every keep s \<longleftrightarrow> (\<forall>i < length xs. keep (xs ! i) i)"
    by (simp_all only: seq_first assms(2) len find_upt(2)) simp_all
  note sliced = seq_slice_any [OF assms(1), of lo hi, unfolded len assms(2)]
  show ?thesis
    using seq_concat_list [of seq_empty rows] at replaced finds none tests sliced
    by (simp add: seq_append_list [OF assms(1)] seq_concat_list [OF assms(1)] seq_from_def seq_flatMap_def seq_loops assms(2) len)
qed

lemma retained_sequence_refines_list_witness:
  "seq_iterator (seq_append (seq_from [3, 5 :: nat]) 8) = [3, 5, 8] \<and> seq_at (seq_from [3, 5 :: nat]) (- 1) = Some 5 \<and>
   seq_iterator (seq_slice (seq_from [3, 5 :: nat]) 0 (Some (- 1))) = [3] \<and>
   seq_map (\<lambda>r i. r + i) (seq_from [3, 5 :: nat]) = [3, 6] \<and>
   seq_find (\<lambda>r _. 3 < r) (seq_from [3, 5 :: nat]) = Some 5 \<and> seq_findIndex (\<lambda>r _. 3 < r) (seq_from [3, 5 :: nat]) = 1"
proof -
  have s: "seq_inv (seq_from [3, 5 :: nat])" "seq_iterator (seq_from [3, 5 :: nat]) = [3, 5]"
    using seq_concat_list [of seq_empty "[3, 5 :: nat]"] by (simp_all add: seq_from_def)
  note lists = retained_sequence_refines_list [OF s, where rows = "[]" and row = 8 and index = "-1" and lo = 0 and hi = "Some (-1)"
      and f = "\<lambda>r i. r + i" and keep = "\<lambda>r _. 3 < r" and g = "\<lambda>_ _. [] :: nat list" and h = "\<lambda>_ _ x. x" and acc = "0 :: nat"]
  have "\<exists>i < length [3, 5 :: nat]. i = 1 \<and> 3 < [3, 5 :: nat] ! i \<and> (\<forall>j < i. \<not> 3 < [3, 5 :: nat] ! j)" by simp
  with lists show ?thesis by (auto simp: list_position_def Let_def upt_rec)
qed

end
