(* ===== verification/ProductIdentity.thy ===== *)
theory ProductIdentity
  imports JsonValue UtcInstants
begin

text \<open>
  The canonical identity of a product state
  (\<^verbatim>\<open>protocol/src/recall/conditional-field/product-identity.ts\<close>): the state key as parsed by its schema,
  its canonical text with sorted and unquoted field names, and the shared identity that ignores the
  delivered span. The lemmas show that the texts determine what they were written from.
\<close>

section \<open>State keys\<close>

record interpretation_node =
  in_packet_id :: string
  in_hypothesis_id :: string
  in_node_id :: string

datatype root_kind = Evidence_capsule | Source_record

datatype retained_extent = Body_extent | Excerpt_extent | Gist_extent

record delivered_span =
  ds_content_start :: nat
  ds_content_end :: nat
  ds_retained_extent :: retained_extent
  ds_content_complete :: bool
  ds_original_complete :: bool

record memory_target =
  mt_workspace_id :: string
  mt_object_id :: string
  mt_source_revision :: string

record source_target =
  st_workspace_id :: string
  st_root_kind :: root_kind
  st_root_id :: string
  st_source_version :: string
  st_content_digest :: string
  st_evidence_object_id :: "string option"
  st_span :: "delivered_span option"

datatype recall_target = MemoryEntryTarget memory_target | SourceEvidenceTarget source_target

record product_state_key =
  ps_target :: recall_target
  ps_program_state :: string
  ps_hypothesis_id :: string
  ps_binding_context :: string
  ps_time_state :: string
  ps_interpretation_node :: "interpretation_node option"

section \<open>The objects the schemas parse to\<close>

fun root_kind_text :: "root_kind \<Rightarrow> string" where
  "root_kind_text Evidence_capsule = ''evidence_capsule''"
| "root_kind_text Source_record = ''source_record''"

fun extent_text :: "retained_extent \<Rightarrow> string" where
  "extent_text Body_extent = ''body''"
| "extent_text Excerpt_extent = ''excerpt''"
| "extent_text Gist_extent = ''gist''"

definition interpretation_json :: "interpretation_node \<Rightarrow> json" where
  "interpretation_json n =
     JObject [(''packet_id'', JString (in_packet_id n)), (''hypothesis_id'', JString (in_hypothesis_id n)),
              (''node_id'', JString (in_node_id n))]"

definition span_json :: "delivered_span \<Rightarrow> json" where
  "span_json s =
     JObject [(''content_start'', JInt (int (ds_content_start s))), (''content_end'', JInt (int (ds_content_end s))),
              (''retained_extent'', JString (extent_text (ds_retained_extent s))),
              (''content_complete'', JBool (ds_content_complete s)), (''original_complete'', JBool (ds_original_complete s))]"

definition nullable_json :: "string option \<Rightarrow> json" where
  "nullable_json v = (case v of None \<Rightarrow> JNull | Some s \<Rightarrow> JString s)"

definition source_json :: "source_target \<Rightarrow> json" where
  "source_json t =
     JObject ([(''kind'', JString ''source_evidence''), (''workspace_id'', JString (st_workspace_id t)),
               (''root_kind'', JString (root_kind_text (st_root_kind t))), (''root_id'', JString (st_root_id t)),
               (''source_version'', JString (st_source_version t)), (''content_digest'', JString (st_content_digest t)),
               (''evidence_object_id'', nullable_json (st_evidence_object_id t))] @
              (case st_span t of None \<Rightarrow> [] | Some s \<Rightarrow> [(''span'', span_json s)]))"

definition memory_json :: "memory_target \<Rightarrow> json" where
  "memory_json t =
     JObject [(''kind'', JString ''memory_entry''), (''workspace_id'', JString (mt_workspace_id t)),
              (''object_id'', JString (mt_object_id t)), (''source_revision'', JString (mt_source_revision t))]"

definition target_json :: "recall_target \<Rightarrow> json" where
  "target_json t = (case t of MemoryEntryTarget m \<Rightarrow> memory_json m | SourceEvidenceTarget s \<Rightarrow> source_json s)"

definition state_key_json :: "product_state_key \<Rightarrow> json" where
  "state_key_json k =
     JObject ([(''schema_version'', JInt 1), (''target'', target_json (ps_target k)),
               (''program_state'', JString (ps_program_state k)), (''hypothesis_id'', JString (ps_hypothesis_id k)),
               (''binding_context'', JString (ps_binding_context k)), (''time_state'', JString (ps_time_state k))] @
              (case ps_interpretation_node k of None \<Rightarrow> [] | Some n \<Rightarrow> [(''interpretation_node'', interpretation_json n)]))"

section \<open>The canonical text\<close>

definition by_key :: "string \<times> 'a \<Rightarrow> string \<times> 'a \<Rightarrow> int" where
  "by_key left right = compareCodeUnits (fst left) (fst right)"

fun stableCanonicalStringify :: "json \<Rightarrow> string" where
  "stableCanonicalStringify (JArray xs) = ''['' @ js_join '','' (map stableCanonicalStringify xs) @ '']''"
| "stableCanonicalStringify (JObject kvs) =
     ''{'' @ js_join '','' (map (\<lambda>(k, text). k @ '':'' @ text)
       (js_sort by_key (map (\<lambda>(k, v). (k, stableCanonicalStringify v)) kvs))) @ ''}''"
| "stableCanonicalStringify v = json_stringify v"

definition CANONICAL_PRODUCT_IDENTITY_VERSION :: string where
  "CANONICAL_PRODUCT_IDENTITY_VERSION = ''product-identity.v1''"

definition canonicalProductIdentity :: "product_state_key \<Rightarrow> string" where
  "canonicalProductIdentity key =
     stableCanonicalStringify (JObject [(''identity_version'', JString CANONICAL_PRODUCT_IDENTITY_VERSION), (''key'', state_key_json key)])"

definition sourceEvidenceRootTarget :: "source_target \<Rightarrow> source_target" where
  "sourceEvidenceRootTarget t = (if st_span t = None then t else t\<lparr>st_span := None\<rparr>)"

definition sharedProductIdentity :: "product_state_key \<Rightarrow> string" where
  "sharedProductIdentity key =
     (case ps_target key of
        SourceEvidenceTarget t \<Rightarrow>
          if st_span t = None then canonicalProductIdentity key
          else canonicalProductIdentity (key\<lparr>ps_target := SourceEvidenceTarget (sourceEvidenceRootTarget t)\<rparr>)
      | MemoryEntryTarget _ \<Rightarrow> canonicalProductIdentity key)"

definition sameRecallTarget :: "recall_target \<Rightarrow> recall_target \<Rightarrow> bool" where
  "sameRecallTarget left right \<longleftrightarrow> stableCanonicalStringify (target_json left) = stableCanonicalStringify (target_json right)"

definition sourceEvidenceRootKey :: "source_target \<Rightarrow> string" where
  "sourceEvidenceRootKey t =
     stableCanonicalStringify (JObject [(''workspace_id'', JString (st_workspace_id t)),
       (''root_kind'', JString (root_kind_text (st_root_kind t))), (''root_id'', JString (st_root_id t)),
       (''source_version'', JString (st_source_version t)), (''content_digest'', JString (st_content_digest t)),
       (''evidence_object_id'', nullable_json (st_evidence_object_id t))])"

definition sameSourceEvidenceRoot :: "source_target \<Rightarrow> source_target \<Rightarrow> bool" where
  "sameSourceEvidenceRoot left right \<longleftrightarrow> sourceEvidenceRootKey left = sourceEvidenceRootKey right"

text \<open>What the shared identity is the identity of.\<close>

definition without_span :: "product_state_key \<Rightarrow> product_state_key" where
  "without_span key =
     (case ps_target key of
        SourceEvidenceTarget t \<Rightarrow> key\<lparr>ps_target := SourceEvidenceTarget (t\<lparr>st_span := None\<rparr>)\<rparr>
      | MemoryEntryTarget _ \<Rightarrow> key)"

section \<open>Quoted strings can be told from what follows\<close>

lemma hex_digit_inject: "a < 16 \<Longrightarrow> b < 16 \<Longrightarrow> hex_digit a = hex_digit b \<Longrightarrow> a = b"
  by (auto simp: hex_digit_def char_of_eq_iff take_bit_eq_mod split: if_splits)

lemma of_char_same: "(of_char c :: nat) = of_char d \<Longrightarrow> c = d"
  by simp

lemma hex_code_inject:
  assumes "m < 32" "n < 32" "hex_digit (m div 16) = hex_digit (n div 16)" "hex_digit (m mod 16) = hex_digit (n mod 16)"
  shows "m = n"
proof -
  have "m div 16 = n div 16" using assms by (intro hex_digit_inject) auto
  moreover have "m mod 16 = n mod 16" using assms by (intro hex_digit_inject) auto
  ultimately show ?thesis by (metis div_mult_mod_eq)
qed

lemma escape_special:
  assumes m: "of_char c = (m::nat)" and n: "of_char d = (n::nat)" and eq: "json_escape c @ x = json_escape d @ y"
    and special: "m \<in> {34, 92, 8, 9, 10, 12, 13}"
  shows "m = n \<and> x = y"
proof -
  have "d = CHR 92 \<Longrightarrow> n = 92" using n by auto
  then show ?thesis using eq special unfolding json_escape_def m n Let_def
    by (elim insertE emptyE) (simp_all split: if_splits)
qed

lemma escape_control:
  assumes m: "of_char c = (m::nat)" and n: "of_char d = (n::nat)" and eq: "json_escape c @ x = json_escape d @ y"
    and control: "m < 32" "m \<notin> {34, 92, 8, 9, 10, 12, 13}" "n \<notin> {34, 92, 8, 9, 10, 12, 13}"
  shows "m = n \<and> x = y"
proof -
  have "d = CHR 92 \<Longrightarrow> n = 92" using n by auto
  then show ?thesis using eq control hex_code_inject [of m n] unfolding json_escape_def m n Let_def
    by (simp split: if_splits)
qed

lemma escape_plain:
  assumes m: "of_char c = (m::nat)" and n: "of_char d = (n::nat)" and eq: "json_escape c @ x = json_escape d @ y"
    and plain: "\<not> m < 32" "m \<notin> {34, 92, 8, 9, 10, 12, 13}" "\<not> n < 32" "n \<notin> {34, 92, 8, 9, 10, 12, 13}"
  shows "m = n \<and> x = y"
  using eq plain m n by (simp add: json_escape_def)

lemma json_escape_prefix:
  assumes eq: "json_escape c @ x = json_escape d @ y"
  shows "c = d \<and> x = y"
proof -
  let ?m = "of_char c :: nat" and ?n = "of_char d :: nat" and ?special = "{34, 92, 8, 9, 10, 12, 13 :: nat}"
  consider "?m \<in> ?special" | "?n \<in> ?special" | "?m < 32" "?m \<notin> ?special" "?n \<notin> ?special"
    | "?n < 32" "?m \<notin> ?special" "?n \<notin> ?special" | "\<not> ?m < 32" "\<not> ?n < 32" "?m \<notin> ?special" "?n \<notin> ?special" by blast
  then have "?m = ?n \<and> x = y"
  proof cases
    case 1 then show ?thesis by (rule escape_special [OF refl refl eq])
  next
    case 2 then show ?thesis using escape_special [OF refl refl eq [symmetric]] by metis
  next
    case 3 then show ?thesis by (rule escape_control [OF refl refl eq])
  next
    case 4 then show ?thesis using escape_control [OF refl refl eq [symmetric]] by metis
  next
    case 5 then show ?thesis using escape_plain [OF refl refl eq] by metis
  qed
  then show ?thesis by (simp add: of_char_same)
qed

lemma json_escape_not_quote: "json_escape c @ x \<noteq> CHR 34 # y"
proof -
  have "of_char (CHR 34) = (34::nat)" by simp
  then show ?thesis by (auto simp: json_escape_def Let_def)
qed

lemma quoted_body_prefix:
  "concat (map json_escape s) @ CHR 34 # x = concat (map json_escape t) @ CHR 34 # y \<Longrightarrow> s = t \<and> x = y"
proof (induction s arbitrary: t)
  case Nil
  show ?case
  proof (cases t)
    case (Cons d t')
    then have "json_escape d @ (concat (map json_escape t') @ CHR 34 # y) = CHR 34 # x" using Nil by simp
    then show ?thesis using json_escape_not_quote by blast
  qed (use Nil in simp)
next
  case (Cons c s)
  show ?case
  proof (cases t)
    case Nil
    then have "json_escape c @ (concat (map json_escape s) @ CHR 34 # x) = CHR 34 # y" using Cons.prems by simp
    then show ?thesis using json_escape_not_quote by blast
  next
    case t: (Cons d t')
    then have "json_escape c @ (concat (map json_escape s) @ CHR 34 # x) = json_escape d @ (concat (map json_escape t') @ CHR 34 # y)"
      using Cons.prems by simp
    from json_escape_prefix [OF this] show ?thesis using Cons.IH [of t'] t by auto
  qed
qed

lemma json_quote_prefix: "json_quote s @ x = json_quote t @ y \<longleftrightarrow> s = t \<and> x = y"
  using quoted_body_prefix [of s x t y] by (auto simp: json_quote_def)

lemma json_quote_inject: "json_quote s = json_quote t \<longleftrightarrow> s = t"
  using json_quote_prefix [of s "[]" t "[]"] by simp

lemma digits_only: "list_all (\<lambda>c. 48 \<le> (of_char c :: nat) \<and> (of_char c :: nat) \<le> 57) (js_string_of_nat n)"
proof (induction n rule: js_string_of_nat.induct)
  case (1 n)
  then show ?case by (subst js_string_of_nat.simps) (auto simp: digit_char_def of_char_of)
qed

lemma number_prefix:
  assumes eq: "js_string_of_nat m @ c # x = js_string_of_nat n @ d # y"
    and stop: "of_char c < (48::nat)" "of_char d < (48::nat)"
  shows "m = n \<and> x = y"
proof -
  let ?digit = "\<lambda>c. 48 \<le> (of_char c :: nat) \<and> (of_char c :: nat) \<le> 57"
  have "takeWhile ?digit (js_string_of_nat k @ e # z) = js_string_of_nat k" "dropWhile ?digit (js_string_of_nat k @ e # z) = e # z"
    if "of_char e < (48::nat)" for k e z
    using digits_only [of k] that by (auto simp: takeWhile_append2 dropWhile_append2 list_all_iff)
  then have "js_string_of_nat m = js_string_of_nat n" "c # x = d # y" using eq stop by metis+
  then show ?thesis by (simp add: js_string_of_nat_inject)
qed

section \<open>The texts written out\<close>

lemmas text_simps = js_sort_def by_key_def compareCodeUnits_def js_join_def less_char_def

lemma one_text: "js_string_of_int 1 = ''1''"
  by (simp add: js_string_of_int_def js_string_of_nat.simps digit_char_def char_of_eq_iff)

lemma state_key_text:
  "canonicalProductIdentity key =
     ''{identity_version:'' @ json_quote ''product-identity.v1'' @ '',key:{binding_context:'' @ json_quote (ps_binding_context key) @
     '',hypothesis_id:'' @ json_quote (ps_hypothesis_id key) @
     (case ps_interpretation_node key of None \<Rightarrow> [] | Some n \<Rightarrow> '',interpretation_node:'' @ stableCanonicalStringify (interpretation_json n)) @
     '',program_state:'' @ json_quote (ps_program_state key) @ '',schema_version:1,target:'' @
     stableCanonicalStringify (target_json (ps_target key)) @ '',time_state:'' @ json_quote (ps_time_state key) @ ''}}''"
  unfolding canonicalProductIdentity_def state_key_json_def CANONICAL_PRODUCT_IDENTITY_VERSION_def
  by (cases "ps_interpretation_node key") (simp_all add: text_simps one_text)

lemma interpretation_text:
  "stableCanonicalStringify (interpretation_json n) =
     ''{hypothesis_id:'' @ json_quote (in_hypothesis_id n) @ '',node_id:'' @ json_quote (in_node_id n) @
     '',packet_id:'' @ json_quote (in_packet_id n) @ ''}''"
  by (simp add: interpretation_json_def text_simps)

lemma span_text:
  "stableCanonicalStringify (span_json s) =
     ''{content_complete:'' @ (if ds_content_complete s then ''true'' else ''false'') @ '',content_end:'' @
     js_string_of_nat (ds_content_end s) @ '',content_start:'' @ js_string_of_nat (ds_content_start s) @ '',original_complete:'' @
     (if ds_original_complete s then ''true'' else ''false'') @ '',retained_extent:'' @ json_quote (extent_text (ds_retained_extent s)) @ ''}''"
  by (simp add: span_json_def text_simps js_string_of_int_def)

lemma memory_text:
  "stableCanonicalStringify (memory_json t) =
     ''{kind:'' @ json_quote ''memory_entry'' @ '',object_id:'' @ json_quote (mt_object_id t) @ '',source_revision:'' @
     json_quote (mt_source_revision t) @ '',workspace_id:'' @ json_quote (mt_workspace_id t) @ ''}''"
  by (simp add: memory_json_def text_simps)

definition nullable_text :: "string option \<Rightarrow> string" where
  "nullable_text v = (case v of None \<Rightarrow> ''null'' | Some s \<Rightarrow> json_quote s)"

lemma nullable_json_text: "stableCanonicalStringify (nullable_json v) = nullable_text v"
  by (simp add: nullable_json_def nullable_text_def split: option.split)

lemma source_text:
  "stableCanonicalStringify (source_json t) =
     ''{content_digest:'' @ json_quote (st_content_digest t) @ '',evidence_object_id:'' @ nullable_text (st_evidence_object_id t) @
     '',kind:'' @ json_quote ''source_evidence'' @ '',root_id:'' @ json_quote (st_root_id t) @ '',root_kind:'' @
     json_quote (root_kind_text (st_root_kind t)) @ '',source_version:'' @ json_quote (st_source_version t) @
     (case st_span t of None \<Rightarrow> [] | Some s \<Rightarrow> '',span:'' @ stableCanonicalStringify (span_json s)) @
     '',workspace_id:'' @ json_quote (st_workspace_id t) @ ''}''"
  unfolding source_json_def by (cases "st_span t") (simp_all add: text_simps nullable_json_text)

lemma root_text:
  "sourceEvidenceRootKey t =
     ''{content_digest:'' @ json_quote (st_content_digest t) @ '',evidence_object_id:'' @ nullable_text (st_evidence_object_id t) @
     '',root_id:'' @ json_quote (st_root_id t) @ '',root_kind:'' @ json_quote (root_kind_text (st_root_kind t)) @
     '',source_version:'' @ json_quote (st_source_version t) @ '',workspace_id:'' @ json_quote (st_workspace_id t) @ ''}''"
  by (simp add: sourceEvidenceRootKey_def text_simps nullable_json_text)

section \<open>The texts determine the keys\<close>

lemma kind_texts: "root_kind_text a = root_kind_text b \<longleftrightarrow> a = b" "extent_text e = extent_text f \<longleftrightarrow> e = f"
  by (cases a; cases b; simp) (cases e; cases f; simp)

lemma nullable_prefix: "nullable_text a @ x = nullable_text b @ y \<longleftrightarrow> a = b \<and> x = y"
  by (cases a; cases b) (auto simp: nullable_text_def json_quote_prefix, auto simp: json_quote_def)

lemma interpretation_prefix:
  "stableCanonicalStringify (interpretation_json m) @ x = stableCanonicalStringify (interpretation_json n) @ y \<longleftrightarrow> m = n \<and> x = y"
  by (cases m; cases n) (auto simp: interpretation_text json_quote_prefix)

lemma number_then: "js_string_of_nat m @ CHR '','' # x = js_string_of_nat n @ CHR '','' # y \<longleftrightarrow> m = n \<and> x = y"
  using number_prefix [of m "CHR '',''" x n "CHR '',''" y] by auto

lemma span_prefix:
  "stableCanonicalStringify (span_json s) @ x = stableCanonicalStringify (span_json t) @ y \<longleftrightarrow> s = t \<and> x = y"
  by (cases s; cases t) (auto simp: span_text json_quote_prefix number_then kind_texts split: if_splits)

lemma memory_prefix:
  "stableCanonicalStringify (memory_json s) @ x = stableCanonicalStringify (memory_json t) @ y \<longleftrightarrow> s = t \<and> x = y"
  by (cases s; cases t) (auto simp: memory_text json_quote_prefix)

lemma source_prefix:
  "stableCanonicalStringify (source_json s) @ x = stableCanonicalStringify (source_json t) @ y \<longleftrightarrow> s = t \<and> x = y"
  by (cases s; cases t)
    (auto simp: source_text json_quote_prefix nullable_prefix kind_texts span_prefix split: option.splits)

lemma target_prefix:
  "stableCanonicalStringify (target_json s) @ x = stableCanonicalStringify (target_json t) @ y \<longleftrightarrow> s = t \<and> x = y"
  by (cases s; cases t) (auto simp: target_json_def memory_prefix source_prefix, auto simp: memory_text source_text)

lemma canonicalProductIdentity_inject: "canonicalProductIdentity a = canonicalProductIdentity b \<longleftrightarrow> a = b"
  by (cases a; cases b)
    (auto simp: state_key_text json_quote_prefix json_quote_inject target_prefix interpretation_prefix split: option.splits)

lemma sourceEvidenceRootKey_inject:
  "sourceEvidenceRootKey a = sourceEvidenceRootKey b \<longleftrightarrow> a\<lparr>st_span := None\<rparr> = b\<lparr>st_span := None\<rparr>"
  by (cases a; cases b) (auto simp: root_text json_quote_prefix json_quote_inject nullable_prefix kind_texts)

text \<open>C24: 
  the identity of a product state is the state: two keys have the same canonical identity exactly when
  they are equal, the same shared identity exactly when they differ in the delivered span at most,
  and targets and evidence roots are told apart by their texts in the same way, whatever characters
  the identifiers hold.
\<close>

theorem product_identity_is_faithful:
  "(canonicalProductIdentity a = canonicalProductIdentity b \<longleftrightarrow> a = b) \<and>
   (sharedProductIdentity a = sharedProductIdentity b \<longleftrightarrow> without_span a = without_span b) \<and>
   (sameRecallTarget s t \<longleftrightarrow> s = t) \<and>
   (sameSourceEvidenceRoot l r \<longleftrightarrow> l\<lparr>st_span := None\<rparr> = r\<lparr>st_span := None\<rparr>)"
proof -
  have "sharedProductIdentity k = canonicalProductIdentity (without_span k)" for k
  proof (cases "ps_target k")
    case (SourceEvidenceTarget t)
    have "canonicalProductIdentity (k\<lparr>ps_target := SourceEvidenceTarget (t\<lparr>st_span := None\<rparr>)\<rparr>) = canonicalProductIdentity k"
      if "st_span t = None"
      using that SourceEvidenceTarget by (intro arg_cong [where f = canonicalProductIdentity]) (cases k; cases t, simp)
    then show ?thesis using SourceEvidenceTarget
      by (cases "st_span t = None") (auto simp: sharedProductIdentity_def without_span_def sourceEvidenceRootTarget_def)
  qed (simp add: sharedProductIdentity_def without_span_def)
  then show ?thesis
    using target_prefix [of s "[]" t "[]"]
    by (simp add: canonicalProductIdentity_inject sameRecallTarget_def sameSourceEvidenceRoot_def sourceEvidenceRootKey_inject)
qed

end
