(* ===== verification/FieldGraphPreparation.thy ===== *)
theory FieldGraphPreparation
  imports MaxMinField RetainedSequence ProductIdentity
begin

text \<open>
  The incremental evaluation of the recall field
  (\<^verbatim>\<open>core/src/recall/conditional-field/engine/field-graph-preparation.ts\<close>): rows of seeds and transitions
  arrive in batches, and every charged step either admits one row to the prepared graph or relaxes one
  edge. A cap contract has its own namespace of solver nodes; the products see the values of their
  contracts through a persistent projection. The identifier of the hard identity contract, a constant of
  the module, is the argument \<open>hard\<close>. A read that the source asserts to be present (\<^verbatim>\<open>x!\<close>) throws here
  when it is absent; the invariant shows that this never happens.
\<close>

section \<open>Rows\<close>

record seed_activation =
  sd_state :: product_state_key
  sd_milligrades :: int
  sd_cap_contract_id :: "string option"

text \<open>The fields of a transition that the field reads.\<close>

record field_transition =
  ft_from :: product_state_key
  ft_to :: product_state_key
  ft_strength_milligrades :: int
  ft_applicable :: bool
  ft_cap_contract_id :: "string option"

record field_additions =
  ad_seeds :: "seed_activation list"
  ad_transitions :: "field_transition list"

section \<open>The projection on products\<close>

record partition_node =
  pn_product :: string
  pn_contract :: string
  pn_explicit :: bool

record product_grade =
  gr_hard :: "int option"
  gr_hardExplicit :: "bool option"
  gr_soft :: "int option"
  gr_contract :: "string option"
  gr_conflict :: "bool option"

definition no_grade :: product_grade where
  "no_grade = \<lparr>gr_hard = None, gr_hardExplicit = None, gr_soft = None, gr_contract = None, gr_conflict = None\<rparr>"

record prepared_values =
  pv_rows :: "(string, product_grade) pnode"
  pv_size :: int
  pv_conflictCount :: int

definition empty_values :: prepared_values where
  "empty_values = \<lparr>pv_rows = Undef, pv_size = 0, pv_conflictCount = 0\<rparr>"

definition either :: "'a option \<Rightarrow> 'a option \<Rightarrow> 'a option" where
  "either a b = (case a of None \<Rightarrow> b | Some _ \<Rightarrow> a)"

definition grade_value :: "product_grade \<Rightarrow> int option" where
  "grade_value row = (if gr_conflict row = Some True then None else either (gr_soft row) (gr_hard row))"

definition pv_get :: "prepared_values \<Rightarrow> string \<Rightarrow> int option" where
  "pv_get pv key = (case pm_get (pv_rows pv) key of None \<Rightarrow> None | Some row \<Rightarrow> grade_value row)"

definition pv_has :: "prepared_values \<Rightarrow> string \<Rightarrow> bool" where
  "pv_has pv key \<longleftrightarrow> pv_get pv key \<noteq> None"

definition pv_conflicted :: "prepared_values \<Rightarrow> string \<Rightarrow> bool" where
  "pv_conflicted pv key \<longleftrightarrow> (case pm_get (pv_rows pv) key of None \<Rightarrow> False | Some row \<Rightarrow> gr_conflict row = Some True)"

definition pv_contract :: "string \<Rightarrow> prepared_values \<Rightarrow> string \<Rightarrow> string option" where
  "pv_contract hard pv key =
     (case pm_get (pv_rows pv) key of None \<Rightarrow> None
      | Some row \<Rightarrow> if gr_conflict row = Some True then None
          else either (gr_contract row) (if gr_hardExplicit row = Some True then Some hard else None))"

definition merge_grade :: "string \<Rightarrow> product_grade \<Rightarrow> partition_node \<Rightarrow> int \<Rightarrow> product_grade" where
  "merge_grade hard prior nd grade =
     (if pn_contract nd = hard
      then prior\<lparr>gr_hard := Some (max (case gr_hard prior of None \<Rightarrow> -1 | Some g \<Rightarrow> g) grade),
                 gr_hardExplicit := Some (gr_hardExplicit prior = Some True \<or> pn_explicit nd)\<rparr>
      else prior\<lparr>gr_soft := Some (if gr_contract prior = Some (pn_contract nd)
                   then max (case gr_soft prior of None \<Rightarrow> -1 | Some g \<Rightarrow> g) grade else grade),
                 gr_contract := Some (pn_contract nd),
                 gr_conflict := Some (gr_conflict prior = Some True
                   \<or> gr_contract prior \<noteq> None \<and> gr_contract prior \<noteq> Some (pn_contract nd))\<rparr>)"

definition number_of :: "bool \<Rightarrow> int" where
  "number_of b = (if b then 1 else 0)"

definition pv_with :: "string \<Rightarrow> prepared_values \<Rightarrow> partition_node \<Rightarrow> int \<Rightarrow> prepared_values" where
  "pv_with hard pv nd grade =
     (let prior = (case pm_get (pv_rows pv) (pn_product nd) of None \<Rightarrow> no_grade | Some row \<Rightarrow> row);
          updated = merge_grade hard prior nd grade
      in if prior = updated then pv
         else (let exists = (gr_conflict updated \<noteq> Some True \<and> either (gr_soft updated) (gr_hard updated) \<noteq> None)
               in \<lparr>pv_rows = pm_with (pv_rows pv) (pn_product nd) updated,
                   pv_size = pv_size pv + number_of exists - number_of (pv_has pv (pn_product nd)),
                   pv_conflictCount = pv_conflictCount pv + number_of (gr_conflict updated = Some True)
                     - number_of (gr_conflict prior = Some True)\<rparr>))"

definition pv_entries :: "prepared_values \<Rightarrow> (string \<times> int) list" where
  "pv_entries pv = concat (map (\<lambda>(key, row). case pv_get pv key of None \<Rightarrow> [] | Some v \<Rightarrow> [(key, v)]) (entries (pv_rows pv)))"

section \<open>The prepared graph\<close>

datatype preparation_turn = Prepare | Relax

record prepared_field_graph =
  pf_graph :: "(string, int) prepared_graph"
  pf_keys :: "(string, product_state_key) pnode"
  pf_nodes :: "(string, partition_node) pnode"
  pf_numericValues :: "(string, int) pnode"
  pf_values :: prepared_values
  pf_queue :: "(string, int) hnode"
  pf_pending :: "field_additions retained_sequence"
  pf_deferred :: "field_additions option"
  pf_allocatedPendingSlots :: nat
  pf_admittedEdges :: nat
  pf_retainedBytes :: nat
  pf_changedProduct :: "string option"
  pf_seedOffset :: nat
  pf_transitionOffset :: nat
  pf_next :: preparation_turn

definition empty_field_graph :: prepared_field_graph where
  "empty_field_graph =
     \<lparr>pf_graph = extendMaxMinGraph None [] [], pf_keys = Undef, pf_nodes = Undef, pf_numericValues = Undef,
      pf_values = empty_values, pf_queue = HUndef, pf_pending = seq_empty, pf_deferred = None,
      pf_allocatedPendingSlots = 0, pf_admittedEdges = 0, pf_retainedBytes = 0, pf_changedProduct = None,
      pf_seedOffset = 0, pf_transitionOffset = 0, pf_next = Prepare\<rparr>"

definition incoming :: "field_additions \<Rightarrow> bool" where
  "incoming additions \<longleftrightarrow> length (ad_seeds additions) > 0 \<or> length (ad_transitions additions) > 0"

definition start_field_graph :: "field_additions \<Rightarrow> prepared_field_graph" where
  "start_field_graph additions =
     (if incoming additions then empty_field_graph\<lparr>pf_deferred := Some additions\<rparr> else empty_field_graph)"

definition appendFieldGraph :: "prepared_field_graph option \<Rightarrow> field_additions \<Rightarrow> field_additions \<Rightarrow> prepared_field_graph" where
  "appendFieldGraph prior additions replacement =
     (case prior of
        None \<Rightarrow> start_field_graph additions
      | Some state \<Rightarrow>
          if incoming additions \<and> pf_deferred state \<noteq> None
          then (start_field_graph replacement)\<lparr>pf_retainedBytes := pf_retainedBytes state\<rparr>
          else if incoming additions then state\<lparr>pf_deferred := Some additions\<rparr> else state)"

definition fieldGraphComplete :: "prepared_field_graph \<Rightarrow> bool" where
  "fieldGraphComplete state \<longleftrightarrow>
     pf_deferred state = None \<and> sq_length (pf_pending state) = 0 \<and> wq_size (pf_queue state) = 0"

section \<open>The charged atom\<close>

record field_graph_atom =
  at_seed :: "seed_activation option"
  at_transition :: "field_transition option"
  at_bytes :: nat

definition code_bytes :: "char \<Rightarrow> nat" where
  "code_bytes c = (let code = of_char c :: nat in
     if code < 32 then 12 else if code = 34 \<or> code = 92 then 4 else if code < 128 then 1 else 3)"

definition text_bytes :: "string \<Rightarrow> nat" where
  "text_bytes s = sum_list (map code_bytes s)"

fun escapedTextBytes :: "json \<Rightarrow> nat" where
  "escapedTextBytes (JString s) = text_bytes s"
| "escapedTextBytes (JObject kvs) = sum_list (map (\<lambda>(k, v). length k + escapedTextBytes v) kvs)"
| "escapedTextBytes (JArray xs) =
     sum_list (map (length \<circ> js_string_of_nat) [0..<length xs]) + sum_list (map escapedTextBytes xs)"
| "escapedTextBytes _ = 0"

text \<open>\<^verbatim>\<open>Math.ceil(Math.log2(n))\<close>, exact for the sizes of a graph in memory.\<close>

fun ceil_log2 :: "nat \<Rightarrow> nat" where
  "ceil_log2 n = (if n \<le> 1 then 0 else 1 + ceil_log2 ((n + 1) div 2))"

declare ceil_log2.simps [simp del]

definition option_length :: "string option \<Rightarrow> nat" where
  "option_length s = (case s of None \<Rightarrow> 0 | Some t \<Rightarrow> length t)"

definition list_at :: "'a list \<Rightarrow> nat \<Rightarrow> 'a option" where
  "list_at xs i = (if i < length xs then Some (xs ! i) else None)"

definition next_row :: "prepared_field_graph \<Rightarrow> seed_activation option \<times> field_transition option" where
  "next_row state =
     (if (sq_length (pf_pending state) > 0 \<or> pf_deferred state \<noteq> None) \<and> (pf_next state = Prepare \<or> wq_size (pf_queue state) = 0)
      then (case either (seq_at (pf_pending state) 0) (pf_deferred state) of
              None \<Rightarrow> (None, None)
            | Some batch \<Rightarrow>
                if pf_seedOffset state < length (ad_seeds batch) then (list_at (ad_seeds batch) (pf_seedOffset state), None)
                else (None, list_at (ad_transitions batch) (pf_transitionOffset state)))
      else (None, None))"

definition encoded_bytes :: "seed_activation option \<Rightarrow> field_transition option \<Rightarrow> nat" where
  "encoded_bytes seed transition =
     (case seed of
        Some s \<Rightarrow> escapedTextBytes (state_key_json (sd_state s)) + option_length (sd_cap_contract_id s)
      | None \<Rightarrow> (case transition of
          None \<Rightarrow> 0
        | Some t \<Rightarrow> escapedTextBytes (state_key_json (ft_from t)) + escapedTextBytes (state_key_json (ft_to t))
                    + option_length (ft_cap_contract_id t)))"

definition nextFieldGraphAtom :: "prepared_field_graph \<Rightarrow> nat \<Rightarrow> field_graph_atom" where
  "nextFieldGraphAtom state auxiliaryNodes =
     (let (seed, transition) = next_row state;
          size = size_of (pf_nodes state) + pf_admittedEdges state + wq_size (pf_queue state)
            + pf_allocatedPendingSlots state + auxiliaryNodes + 2;
          depth = 2 * ceil_log2 (size + 2) + 4;
          preparing = (seed \<noteq> None \<or> transition \<noteq> None);
          updates = (if transition \<noteq> None then 12 else if seed \<noteq> None then 9 else 7);
          bytes = 1024 + 32 * depth * updates + (if preparing then 4 * encoded_bytes seed transition else 0)
      in \<lparr>at_seed = seed, at_transition = transition, at_bytes = bytes\<rparr>)"

section \<open>Admitting a row\<close>

definition normalize_contract :: "string \<Rightarrow> string option \<Rightarrow> string" where
  "normalize_contract hard contract =
     (case contract of None \<Rightarrow> hard | Some c \<Rightarrow> if length c = 0 then hard else c)"

definition partition_id :: "string \<Rightarrow> string \<Rightarrow> string" where
  "partition_id contract product = json_stringify (JArray [JString contract, JString product])"

definition registerNode :: "string \<Rightarrow> prepared_field_graph \<Rightarrow> product_state_key \<Rightarrow> string option
    \<Rightarrow> prepared_field_graph \<times> string \<times> partition_node" where
  "registerNode hard state key contract =
     (let product = canonicalProductIdentity key;
          normalized = normalize_contract hard contract;
          i = partition_id normalized product;
          prior = pm_get (pf_nodes state) i;
          nd = \<lparr>pn_product = product, pn_contract = normalized,
                pn_explicit = (case prior of None \<Rightarrow> False | Some p \<Rightarrow> pn_explicit p) \<or> contract \<noteq> None\<rparr>
      in (state\<lparr>pf_graph := extendMaxMinGraph (Some (pf_graph state)) [i] [],
                pf_keys := (if pm_has (pf_keys state) product then pf_keys state else pm_with (pf_keys state) product key),
                pf_nodes := pm_with (pf_nodes state) i nd\<rparr>, i, nd))"

definition solver_call :: "prepared_field_graph \<Rightarrow> (string \<times> int) list \<Rightarrow> nat \<Rightarrow> string max_min_input" where
  "solver_call state seeds limit =
     \<lparr>mi_nodeIds = [], mi_seeds = map (\<lambda>(i, g). (i, Finite (of_int g))) seeds, mi_transitions = [], mi_bottom = 0,
      mi_top = Finite 1000, mi_priorValues = Some (PersistentPrior (pf_numericValues state)), mi_worklist = None,
      mi_workLimit = Some limit, mi_preparedGraph = Some (pf_graph state), mi_workQueue = Some (pf_queue state)\<rparr>"

definition outcome_then :: "'a js_outcome \<Rightarrow> ('a \<Rightarrow> 'b js_outcome) \<Rightarrow> 'b js_outcome" where
  "outcome_then r f = (case r of Returned a \<Rightarrow> f a | Threw e \<Rightarrow> Threw e | Diverged \<Rightarrow> Diverged)"

definition present :: "'a option \<Rightarrow> 'a js_outcome" where
  "present v = (case v of None \<Rightarrow> Threw ''undefined'' | Some a \<Rightarrow> Returned a)"

definition admitSeed :: "string \<Rightarrow> prepared_field_graph \<Rightarrow> seed_activation \<Rightarrow> prepared_field_graph js_outcome" where
  "admitSeed hard state seed =
     (case registerNode hard state (sd_state seed) (sd_cap_contract_id seed) of (registered, i, nd) \<Rightarrow>
        (let prior = pm_get (pf_numericValues registered) i;
             grade = max (case prior of None \<Rightarrow> -1 | Some p \<Rightarrow> p) (sd_milligrades seed)
         in outcome_then (solveMaxMinField (solver_call registered [(i, grade)] 0)) (\<lambda>result.
            outcome_then (present (pm_get (mr_values result) i)) (\<lambda>normalizedGrade.
            Returned (registered\<lparr>pf_numericValues := mr_values result,
              pf_changedProduct := Some (pn_product nd),
              pf_values := pv_with hard (pf_values registered) nd normalizedGrade,
              pf_queue := (if prior = Some normalizedGrade then pf_queue registered
                else wq_push (pf_queue registered) \<lparr>nodeId = i, strength = normalizedGrade, edgeOffset = None\<rparr>)\<rparr>)))))"

definition admitTransition :: "string \<Rightarrow> prepared_field_graph \<Rightarrow> field_transition \<Rightarrow> prepared_field_graph" where
  "admitTransition hard state edge =
     (case registerNode hard state (ft_from edge) (ft_cap_contract_id edge) of (from_state, from_id, _) \<Rightarrow>
      (case registerNode hard from_state (ft_to edge) (ft_cap_contract_id edge) of (to_state, to_id, _) \<Rightarrow>
        (if \<not> ft_applicable edge then to_state
         else (let offset = (case pm_get (pg_edges (pf_graph to_state)) from_id of None \<Rightarrow> 0 | Some e \<Rightarrow> oe_length e);
                   graph = extendMaxMinGraph (Some (pf_graph to_state)) []
                     [\<lparr>tr_from = from_id, tr_to = to_id, tr_strength = ft_strength_milligrades edge\<rparr>]
               in to_state\<lparr>pf_graph := graph, pf_admittedEdges := pf_admittedEdges state + 1,
                    pf_queue := (case pm_get (pf_numericValues to_state) from_id of
                        None \<Rightarrow> pf_queue to_state
                      | Some grade \<Rightarrow> wq_push (pf_queue to_state) \<lparr>nodeId = from_id, strength = grade, edgeOffset = Some offset\<rparr>)\<rparr>))))"

definition finish_row :: "field_additions \<Rightarrow> prepared_field_graph \<Rightarrow> prepared_field_graph" where
  "finish_row batch s =
     (if pf_seedOffset s = length (ad_seeds batch) \<and> pf_transitionOffset s = length (ad_transitions batch)
      then s\<lparr>pf_pending := (if sq_length (pf_pending s) = 1 then seq_empty else seq_slice (pf_pending s) 1 None),
             pf_seedOffset := 0, pf_transitionOffset := 0\<rparr>
      else s)"

definition prepareRow :: "string \<Rightarrow> prepared_field_graph \<Rightarrow> field_graph_atom \<Rightarrow> prepared_field_graph js_outcome" where
  "prepareRow hard state atom =
     outcome_then (present (seq_at (pf_pending state) 0)) (\<lambda>batch.
     outcome_then
       (if pf_seedOffset state < length (ad_seeds batch)
        then outcome_then (present (at_seed atom)) (\<lambda>seed.
             outcome_then (admitSeed hard state seed) (\<lambda>s. Returned (s\<lparr>pf_seedOffset := pf_seedOffset state + 1\<rparr>)))
        else outcome_then (present (at_transition atom)) (\<lambda>transition.
             Returned ((admitTransition hard state transition)\<lparr>pf_transitionOffset := pf_transitionOffset state + 1\<rparr>)))
       (\<lambda>s. Returned (finish_row batch s)))"

section \<open>One step\<close>

text \<open>The changed entries of a result; a call limited to one unit of work changes at most one.\<close>

definition changed_entries :: "string max_min_result \<Rightarrow> (string \<times> int) list" where
  "changed_entries r =
     concat (map (\<lambda>(k, v). case mr_changedValues r k of None \<Rightarrow> [] | Some g \<Rightarrow> [(k, g)]) (entries (mr_values r)))"

primrec project_changes :: "string \<Rightarrow> (string, partition_node) pnode \<Rightarrow> (string \<times> int) list
    \<Rightarrow> prepared_values \<times> string option \<Rightarrow> (prepared_values \<times> string option) js_outcome" where
  "project_changes hard nodes [] acc = Returned acc"
| "project_changes hard nodes (e # es) acc =
     outcome_then (present (pm_get nodes (fst e))) (\<lambda>nd.
       project_changes hard nodes es (pv_with hard (fst acc) nd (snd e), Some (pn_product nd)))"

definition stepFieldGraph :: "string \<Rightarrow> prepared_field_graph \<Rightarrow> nat \<Rightarrow> field_graph_atom \<Rightarrow> prepared_field_graph js_outcome" where
  "stepFieldGraph hard state availableBytes atom =
     (if fieldGraphComplete state then Returned state
      else if at_bytes atom > availableBytes then Returned state
      else if at_seed atom \<noteq> None \<or> at_transition atom \<noteq> None then
        (let current = state\<lparr>pf_changedProduct := None\<rparr>;
             admitted = (case pf_deferred state of
                 None \<Rightarrow> current
               | Some batch \<Rightarrow> current\<lparr>pf_deferred := None, pf_pending := seq_append (pf_pending state) batch,
                   pf_allocatedPendingSlots := pf_allocatedPendingSlots state + 1\<rparr>)
         in outcome_then (prepareRow hard admitted atom) (\<lambda>s.
              Returned (s\<lparr>pf_retainedBytes := pf_retainedBytes state + at_bytes atom, pf_next := Relax\<rparr>)))
      else
        outcome_then (solveMaxMinField (solver_call state [] 1)) (\<lambda>result.
        outcome_then (project_changes hard (pf_nodes state) (changed_entries result) (pf_values state, None)) (\<lambda>(values, changedProduct).
          Returned (state\<lparr>pf_numericValues := mr_values result, pf_queue := mr_workQueue result, pf_values := values,
            pf_retainedBytes := pf_retainedBytes state + at_bytes atom, pf_changedProduct := changedProduct, pf_next := Prepare\<rparr>))))"

end
