(* ===== verification/FieldGraphInvariant.thy ===== *)
theory FieldGraphInvariant
  imports FieldGraphPreparation
begin

text \<open>
  The invariants of the field preparation: what the prepared graph, the values and the frontier hold
  while rows are admitted and edges are relaxed, and how the projection on products follows the values.
  The specification is the inductive relation \<open>field_grade\<close> over the admitted rows.
\<close>

section \<open>Specification: the grades a set of rows gives\<close>

definition clamp_grade :: "int \<Rightarrow> int" where
  "clamp_grade g = clampInteger (Finite (of_int g)) 0 1000"

definition seed_contract :: "string \<Rightarrow> seed_activation \<Rightarrow> string" where
  "seed_contract hard s = normalize_contract hard (sd_cap_contract_id s)"

definition seed_product :: "seed_activation \<Rightarrow> string" where
  "seed_product s = canonicalProductIdentity (sd_state s)"

definition transition_contract :: "string \<Rightarrow> field_transition \<Rightarrow> string" where
  "transition_contract hard t = normalize_contract hard (ft_cap_contract_id t)"

text \<open>
  A product has a grade under a contract when a seed of the contract gives it, or when an applicable
  transition of the contract carries one over as the minimum of the grade and its strength.
\<close>

inductive field_grade :: "string \<Rightarrow> seed_activation set \<Rightarrow> field_transition set \<Rightarrow> string \<Rightarrow> string \<Rightarrow> int \<Rightarrow> bool"
  for hard :: string and S :: "seed_activation set" and T :: "field_transition set" where
  seeded: "s \<in> S \<Longrightarrow> field_grade hard S T (seed_contract hard s) (seed_product s) (clamp_grade (sd_milligrades s))"
| carried: "field_grade hard S T (transition_contract hard t) (canonicalProductIdentity (ft_from t)) g \<Longrightarrow> t \<in> T \<Longrightarrow> ft_applicable t \<Longrightarrow>
     field_grade hard S T (transition_contract hard t) (canonicalProductIdentity (ft_to t)) (min g (ft_strength_milligrades t))"

text \<open>The best grade, if there is one.\<close>

definition best_grade :: "string \<Rightarrow> seed_activation set \<Rightarrow> field_transition set \<Rightarrow> string \<Rightarrow> string \<Rightarrow> int option \<Rightarrow> bool" where
  "best_grade hard S T c p v \<longleftrightarrow>
     (case v of None \<Rightarrow> \<not> (\<exists>g. field_grade hard S T c p g)
      | Some b \<Rightarrow> field_grade hard S T c p b \<and> (\<forall>g. field_grade hard S T c p g \<longrightarrow> g \<le> b))"

lemma best_grade_unique: "best_grade hard S T c p v \<Longrightarrow> best_grade hard S T c p w \<Longrightarrow> v = w"
  unfolding best_grade_def by (cases v; cases w) (auto intro: antisym)

lemma field_grade_mono:
  "field_grade hard S T c p g \<Longrightarrow> S \<subseteq> S' \<Longrightarrow> T \<subseteq> T' \<Longrightarrow> field_grade hard S' T' c p g"
  by (induction rule: field_grade.induct) (auto intro: field_grade.intros)

text \<open>The scale of the schema.\<close>

definition rows_ok :: "seed_activation set \<Rightarrow> field_transition set \<Rightarrow> bool" where
  "rows_ok S T \<longleftrightarrow> (\<forall>s \<in> S. 0 \<le> sd_milligrades s \<and> sd_milligrades s \<le> 1000) \<and>
     (\<forall>t \<in> T. 0 \<le> ft_strength_milligrades t \<and> ft_strength_milligrades t \<le> 1000)"

lemma clamp_grade_bounds: "0 \<le> clamp_grade g \<and> clamp_grade g \<le> 1000"
  unfolding clamp_grade_def by (rule clampInteger_bounds) simp

lemma clamp_grade_id: "0 \<le> g \<Longrightarrow> g \<le> 1000 \<Longrightarrow> clamp_grade g = g"
  unfolding clamp_grade_def by (rule clampInteger_id)

lemma clamp_grade_max: "0 \<le> p \<Longrightarrow> p \<le> 1000 \<Longrightarrow> clamp_grade (max p g) = max p (clamp_grade g)"
  by (auto simp: clamp_grade_def Let_def max_def)

lemma field_grade_scale:
  "field_grade hard S T c p g \<Longrightarrow> (\<forall>t \<in> T. 0 \<le> ft_strength_milligrades t) \<Longrightarrow> 0 \<le> g \<and> g \<le> 1000"
  by (induction rule: field_grade.induct) (auto simp: clamp_grade_bounds min.coboundedI1)

section \<open>Partition identifiers\<close>

lemma partition_text: "partition_id c p = ''['' @ json_quote c @ '','' @ json_quote p @ '']''"
  by (simp add: partition_id_def js_join_def)

lemma partition_inject: "partition_id c p = partition_id d q \<longleftrightarrow> c = d \<and> p = q"
  by (simp add: partition_text json_quote_prefix json_quote_inject)

definition seed_id :: "string \<Rightarrow> seed_activation \<Rightarrow> string" where
  "seed_id hard s = partition_id (seed_contract hard s) (seed_product s)"

definition edge_row :: "string \<Rightarrow> field_transition \<Rightarrow> (string, int) transition" where
  "edge_row hard t =
     \<lparr>tr_from = partition_id (transition_contract hard t) (canonicalProductIdentity (ft_from t)),
      tr_to = partition_id (transition_contract hard t) (canonicalProductIdentity (ft_to t)),
      tr_strength = ft_strength_milligrades t\<rparr>"

section \<open>The solver's state\<close>

abbreviation graph_edges :: "prepared_field_graph \<Rightarrow> string \<rightharpoonup> (string, int) outgoing" where
  "graph_edges st \<equiv> pm_get (pg_edges (pf_graph st))"

definition stores_ok :: "prepared_field_graph \<Rightarrow> bool" where
  "stores_ok st \<longleftrightarrow> pm_inv (pf_numericValues st) \<and> wq_inv (pf_queue st) \<and> pm_inv (pf_nodes st) \<and> pm_inv (pf_keys st) \<and>
     pg_wf (pf_graph st)"

definition nodes_ok :: "string \<Rightarrow> prepared_field_graph \<Rightarrow> field_transition set \<Rightarrow> bool" where
  "nodes_ok hard st T \<longleftrightarrow>
     (\<forall>i. pm_has (pg_nodeIds (pf_graph st)) i \<longleftrightarrow> pm_get (pf_nodes st) i \<noteq> None) \<and>
     (\<forall>i nd. pm_get (pf_nodes st) i = Some nd \<longrightarrow> i = partition_id (pn_contract nd) (pn_product nd)) \<and>
     (\<forall>t \<in> T. pm_get (pf_nodes st) (tr_from (edge_row hard t)) \<noteq> None \<and> pm_get (pf_nodes st) (tr_to (edge_row hard t)) \<noteq> None) \<and>
     (\<forall>n u. edge_of (graph_edges st) n u \<longleftrightarrow> (\<exists>t \<in> T. ft_applicable t \<and> u = edge_row hard t \<and> n = tr_from u))"

definition grades_ok :: "string \<Rightarrow> prepared_field_graph \<Rightarrow> seed_activation set \<Rightarrow> field_transition set \<Rightarrow> bool" where
  "grades_ok hard st S T \<longleftrightarrow>
     frontier (graph_edges st) (pm_get (pf_numericValues st)) (wq_items (pf_queue st)) \<and>
     (\<forall>i g. pm_get (pf_numericValues st) i = Some g \<longrightarrow> (\<exists>c p. i = partition_id c p \<and> field_grade hard S T c p g)) \<and>
     (\<forall>s \<in> S. \<exists>g. pm_get (pf_numericValues st) (seed_id hard s) = Some g \<and> clamp_grade (sd_milligrades s) \<le> g)"

definition solver_inv :: "string \<Rightarrow> prepared_field_graph \<Rightarrow> seed_activation set \<Rightarrow> field_transition set \<Rightarrow> bool" where
  "solver_inv hard st S T \<longleftrightarrow> stores_ok st \<and> nodes_ok hard st T \<and> grades_ok hard st S T"

lemma solver_invD:
  assumes "solver_inv hard st S T"
  shows "stores_ok st" "nodes_ok hard st T" "grades_ok hard st S T"
  using assms by (simp_all add: solver_inv_def)

text \<open>With nothing left to do, the values are the best grades.\<close>

lemma solver_inv_field:
  assumes inv: "solver_inv hard st S T" and idle: "wq_items (pf_queue st) = {#}"
  shows "best_grade hard S T c p (pm_get (pf_numericValues st) (partition_id c p))"
proof -
  let ?V = "pm_get (pf_numericValues st)"
  have sound: "field_grade hard S T c p g" if "?V (partition_id c p) = Some g" for c p g
    using inv that by (force simp: solver_inv_def grades_ok_def partition_inject)
  have closed: "\<exists>b. ?V (tr_to u) = Some b \<and> min g (tr_strength u) \<le> b"
    if "?V n = Some g" "edge_of (graph_edges st) n u" for n g u
    using inv idle that unfolding solver_inv_def grades_ok_def frontier_def edge_of_def by fastforce
  have above: "\<exists>b. ?V (partition_id c p) = Some b \<and> g \<le> b" if "field_grade hard S T c p g" for c p g
    using that
  proof (induction rule: field_grade.induct)
    case (seeded s)
    then show ?case using inv by (auto simp: solver_inv_def grades_ok_def seed_id_def)
  next
    case (carried t g)
    then obtain b where b: "?V (tr_from (edge_row hard t)) = Some b" "g \<le> b" by (auto simp: edge_row_def)
    have "edge_of (graph_edges st) (tr_from (edge_row hard t)) (edge_row hard t)"
      using inv carried by (auto simp: solver_inv_def nodes_ok_def)
    from closed [OF b(1) this] b(2) show ?case by (fastforce simp: edge_row_def min_le_iff_disj)
  qed
  show ?thesis using sound above by (fastforce simp: best_grade_def split: option.split)
qed

section \<open>The two calls of the solver\<close>

definition relax_start :: "prepared_field_graph \<Rightarrow> (string, int) relax_state" where
  "relax_start st = \<lparr>rs_values = pf_numericValues st, rs_heap = pf_queue st, rs_changed = Map.empty, rs_steps = 0\<rparr>"

lemma solve_seed:
  assumes "pm_has (pg_nodeIds (pf_graph st)) i"
  shows "\<exists>r. solveMaxMinField (solver_call st [(i, g)] 0) = Returned r \<and>
    mr_values r = (if case pm_get (pf_numericValues st) i of None \<Rightarrow> True | Some c \<Rightarrow> clamp_grade g > c
      then pm_with (pf_numericValues st) i (clamp_grade g) else pf_numericValues st)"
  using assms
  by (auto simp: solveMaxMinField_def solver_call_def requireIntegerTop_def initialValues_def prior_base_def load_seed_def
      call_has_def clamp_grade_def relaxMaxMin_def Let_def split: option.split)

lemma solve_relax:
  assumes "relax_step (graph_edges st) (relax_start st) = Some st'"
  shows "\<exists>r. solveMaxMinField (solver_call st [] 1) = Returned r \<and>
    mr_values r = rs_values st' \<and> mr_workQueue r = rs_heap st' \<and> mr_changedValues r = rs_changed st'"
  using assms
  by (simp add: solveMaxMinField_def solver_call_def requireIntegerTop_def initialValues_def prior_base_def call_edges_def
      relaxMaxMin_def initial_heap_def relax_start_def)

lemma relax_startable:
  assumes "wq_inv (pf_queue st)" "wq_size (pf_queue st) \<noteq> 0"
  shows "\<exists>st'. relax_step (graph_edges st) (relax_start st) = Some st'"
proof -
  have "wq_items (pf_queue st) \<noteq> {#}" using assms by (auto simp: queue_laws)
  then show ?thesis using relax_step_None [of "relax_start st" "graph_edges st"] assms(1) by (auto simp: relax_start_def)
qed

lemma relax_start_inv:
  assumes "stores_ok st" "frontier (graph_edges st) (pm_get (pf_numericValues st)) (wq_items (pf_queue st))"
  shows "relax_inv (graph_edges st) (pm_get (pf_numericValues st)) (pm_get (pf_numericValues st)) (relax_start st)"
proof -
  have "finite (dom (pm_get (pf_numericValues st)))"
    using assms(1) pm.finite_dom [of "pf_numericValues st"] by (simp add: stores_ok_def dom_def)
  then show ?thesis using assms by (auto simp: relax_inv_def relax_start_def stores_ok_def pg_wf_def intro: derivable.seed)
qed

section \<open>Registering a node\<close>

lemma register_fields:
  assumes "registerNode hard st key contract = (st', i, nd)"
  shows "i = partition_id (normalize_contract hard contract) (canonicalProductIdentity key)"
    and "pn_product nd = canonicalProductIdentity key" "pn_contract nd = normalize_contract hard contract"
    and "pf_numericValues st' = pf_numericValues st" "pf_queue st' = pf_queue st" "pf_values st' = pf_values st"
    and "pf_nodes st' = pm_with (pf_nodes st) i nd" "pf_graph st' = extendMaxMinGraph (Some (pf_graph st)) [i] []"
    and "pf_pending st' = pf_pending st" "pf_deferred st' = pf_deferred st" "pf_next st' = pf_next st"
    and "pf_seedOffset st' = pf_seedOffset st" "pf_transitionOffset st' = pf_transitionOffset st"
    and "pf_keys st' = (if pm_has (pf_keys st) (canonicalProductIdentity key) then pf_keys st else pm_with (pf_keys st) (canonicalProductIdentity key) key)"
  using assms by (auto simp: registerNode_def Let_def)

lemma extend_nodes_only:
  assumes "pg_wf g"
  shows "pg_wf (extendMaxMinGraph (Some g) [i] []) \<and>
    (\<forall>x. pm_has (pg_nodeIds (extendMaxMinGraph (Some g) [i] [])) x \<longleftrightarrow> pm_has (pg_nodeIds g) x \<or> x = i) \<and>
    pg_edges (extendMaxMinGraph (Some g) [i] []) = pg_edges g"
  using assms extend_nodes [of "pg_nodeIds g" "[i]"] by (simp add: pg_wf_def extendMaxMinGraph_def)

lemma extend_one_edge:
  assumes "pg_wf g" "pm_has (pg_nodeIds g) (tr_from u)" "pm_has (pg_nodeIds g) (tr_to u)"
  shows "pg_wf (extendMaxMinGraph (Some g) [] [u]) \<and> pg_nodeIds (extendMaxMinGraph (Some g) [] [u]) = pg_nodeIds g \<and>
    pm_get (pg_edges (extendMaxMinGraph (Some g) [] [u])) = (pm_get (pg_edges g))(tr_from u \<mapsto>
      oe_append (case pm_get (pg_edges g) (tr_from u) of Some e \<Rightarrow> e | None \<Rightarrow> oe_empty) u)"
proof -
  have inv: "pm_inv (pg_nodeIds g)" "pm_inv (pg_edges g)" "edges_wf (pm_get (pg_edges g))" using assms(1) by (simp_all add: pg_wf_def)
  have "pm_get (pm_with (pg_edges g) k v) = (pm_get (pg_edges g))(k \<mapsto> v)" for k v using inv by (simp add: map_laws fun_eq_iff)
  then show ?thesis using inv assms(2,3)
    by (simp add: pg_wf_def extendMaxMinGraph_def extend_edges_def map_laws edges_wf_update Let_def)
qed

lemma register_inv:
  assumes reg: "registerNode hard st key contract = (st', i, nd)" and inv: "solver_inv hard st S T"
  shows "solver_inv hard st' S T \<and> pm_get (pf_nodes st') i = Some nd \<and> pm_has (pg_nodeIds (pf_graph st')) i \<and>
    graph_edges st' = graph_edges st \<and>
    (\<forall>j. pm_get (pf_nodes st') j \<noteq> None \<longleftrightarrow> pm_get (pf_nodes st) j \<noteq> None \<or> j = i)"
proof -
  note f = register_fields [OF reg]
  have stores: "pm_inv (pf_numericValues st)" "wq_inv (pf_queue st)" "pm_inv (pf_nodes st)" "pm_inv (pf_keys st)" "pg_wf (pf_graph st)"
    using inv by (simp_all add: solver_inv_def stores_ok_def)
  note ext = extend_nodes_only [OF stores(5), of i]
  have get: "pm_get (pf_nodes st') j = (if j = i then Some nd else pm_get (pf_nodes st) j)" for j
    using stores(3) by (simp add: f map_laws)
  have edges: "graph_edges st' = graph_edges st" using ext by (simp add: f)
  have "stores_ok st'" using stores ext by (simp add: stores_ok_def f map_laws)
  moreover have "nodes_ok hard st' T"
    using inv ext get edges unfolding solver_inv_def nodes_ok_def by (auto simp: f)
  moreover have "grades_ok hard st' S T" using inv by (simp add: solver_inv_def grades_ok_def edges f(4,5))
  ultimately show ?thesis using get edges ext by (auto simp: solver_inv_def f)
qed

section \<open>The frontier under new seeds and new edges\<close>

lemma frontier_seed:
  assumes fr: "frontier edges V Q" and up: "\<And>p. V n = Some p \<Longrightarrow> p < g"
  shows "frontier edges (V(n \<mapsto> g)) (add_mset \<lparr>nodeId = n, strength = g, edgeOffset = None\<rparr> Q)"
proof (rule frontierI)
  fix m h e i t
  assume a: "(V(n \<mapsto> g)) m = Some h" "edges m = Some e" "oe_at e i = Some t"
    and uncovered: "\<not> (\<exists>p. (V(n \<mapsto> g)) (tr_to t) = Some p \<and> min h (tr_strength t) \<le> p)"
  show "\<exists>x \<in># add_mset \<lparr>nodeId = n, strength = g, edgeOffset = None\<rparr> Q. nodeId x = m \<and> strength x = h \<and> item_offset x \<le> i"
  proof (cases "m = n")
    case True
    then show ?thesis using a by (auto simp: item_offset_def)
  next
    case False
    then have Vm: "V m = Some h" using a by simp
    have "\<not> (\<exists>p. V (tr_to t) = Some p \<and> min h (tr_strength t) \<le> p)"
    proof
      assume "\<exists>p. V (tr_to t) = Some p \<and> min h (tr_strength t) \<le> p"
      then obtain p where p: "V (tr_to t) = Some p" "min h (tr_strength t) \<le> p" by blast
      then show False using uncovered up by (cases "tr_to t = n") (auto dest: order.strict_implies_order intro: order_trans)
    qed
    from frontierD [OF fr Vm a(2,3) this] show ?thesis by (metis union_iff add_mset_add_single)
  qed
qed

lemma frontier_edge:
  assumes fr: "frontier edges V Q" and wf: "edges_wf edges"
  shows "frontier (edges(n \<mapsto> oe_append (case edges n of Some e \<Rightarrow> e | None \<Rightarrow> oe_empty) u)) V
    (case V n of None \<Rightarrow> Q | Some g \<Rightarrow>
       add_mset \<lparr>nodeId = n, strength = g, edgeOffset = Some (case edges n of None \<Rightarrow> 0 | Some e \<Rightarrow> oe_length e)\<rparr> Q)"
    (is "frontier ?edges V ?Q")
proof (rule frontierI)
  fix m h e i t
  assume a: "V m = Some h" "?edges m = Some e" "oe_at e i = Some t"
    and uncovered: "\<not> (\<exists>p. V (tr_to t) = Some p \<and> min h (tr_strength t) \<le> p)"
  have more_items: "x \<in># Q \<Longrightarrow> x \<in># ?Q" for x by (auto split: option.split)
  show "\<exists>x \<in># ?Q. nodeId x = m \<and> strength x = h \<and> item_offset x \<le> i"
  proof (cases "m = n")
    case False
    then have "edges m = Some e" using a by simp
    from frontierD [OF fr a(1) this a(3) uncovered] show ?thesis using more_items by metis
  next
    case True
    let ?e = "case edges n of Some e \<Rightarrow> e | None \<Rightarrow> oe_empty"
    have e: "e = oe_append ?e u" using a True by simp
    have "oe_wf ?e" using wf by (auto simp: edges_wf_def ranI split: option.split)
    then have at: "oe_at e j = (if j = oe_length ?e then Some u else oe_at ?e j)" for j
      by (simp add: e oe_at_append oe_wf_inv)
    show ?thesis
    proof (cases "i = oe_length ?e")
      case last: True
      then show ?thesis using a True
        by (intro bexI [of _ "\<lparr>nodeId = n, strength = h, edgeOffset = Some (case edges n of None \<Rightarrow> 0 | Some e \<Rightarrow> oe_length e)\<rparr>"])
          (auto simp: item_offset_def oe_empty_def split: option.splits)
    next
      case old: False
      then have "oe_at ?e i = Some t" using at [of i] a(3) by simp
      then obtain e0 where e0: "edges n = Some e0" "oe_at e0 i = Some t" by (cases "edges n") auto
      from frontierD [OF fr a(1) _ e0(2) uncovered] e0(1) True show ?thesis using more_items by metis
    qed
  qed
qed

section \<open>Admitting rows\<close>

lemma admitSeed_inv:
  assumes inv: "solver_inv hard st S T" and scale: "rows_ok S T"
  shows "\<exists>st' nd g. admitSeed hard st s = Returned st' \<and> solver_inv hard st' (insert s S) T \<and>
    pf_pending st' = pf_pending st \<and> pf_deferred st' = pf_deferred st \<and> pf_seedOffset st' = pf_seedOffset st \<and>
    pf_transitionOffset st' = pf_transitionOffset st \<and> pn_product nd = seed_product s \<and> pn_contract nd = seed_contract hard s \<and>
    pf_values st' = pv_with hard (pf_values st) nd g \<and> 0 \<le> g \<and>
    pm_get (pf_numericValues st') = (pm_get (pf_numericValues st))(seed_id hard s \<mapsto> g) \<and>
    (\<forall>p. pm_get (pf_numericValues st) (seed_id hard s) = Some p \<longrightarrow> p \<le> g)"
proof -
  obtain st1 i nd where reg: "registerNode hard st (sd_state s) (sd_cap_contract_id s) = (st1, i, nd)"
    by (metis prod_cases3)
  note f = register_fields [OF reg]
  from register_inv [OF reg inv] have inv1: "solver_inv hard st1 S T" and known: "pm_get (pf_nodes st1) i = Some nd"
    "pm_has (pg_nodeIds (pf_graph st1)) i" by blast+
  have i: "i = seed_id hard s" by (simp add: f seed_id_def seed_contract_def seed_product_def)
  let ?V = "pm_get (pf_numericValues st1)"
  let ?grade = "max (case ?V i of None \<Rightarrow> -1 | Some p \<Rightarrow> p) (sd_milligrades s)"
  let ?new = "case ?V i of None \<Rightarrow> clamp_grade (sd_milligrades s) | Some p \<Rightarrow> max p (clamp_grade (sd_milligrades s))"
  have stores: "stores_ok st1" and pm: "pm_inv (pf_numericValues st1)" and wq: "wq_inv (pf_queue st1)"
    using inv1 by (simp_all add: solver_inv_def stores_ok_def)
  have scaled: "0 \<le> p \<and> p \<le> 1000" if "?V j = Some p" for j p
    using inv1 that scale field_grade_scale unfolding solver_inv_def grades_ok_def rows_ok_def by metis
  have clamp: "clamp_grade ?grade = ?new"
    using scaled by (auto simp: clamp_grade_max split: option.split) (auto simp: clamp_grade_def Let_def)
  obtain r where r: "solveMaxMinField (solver_call st1 [(i, ?grade)] 0) = Returned r"
    "mr_values r = (if case ?V i of None \<Rightarrow> True | Some c \<Rightarrow> clamp_grade ?grade > c
      then pm_with (pf_numericValues st1) i (clamp_grade ?grade) else pf_numericValues st1)"
    using solve_seed [OF known(2)] by blast
  have vals: "pm_get (mr_values r) = ?V(i \<mapsto> ?new)"
    using pm unfolding r(2) clamp by (auto simp: map_laws fun_eq_iff max_def split: option.splits)
  let ?st = "st1\<lparr>pf_numericValues := mr_values r, pf_changedProduct := Some (pn_product nd),
      pf_values := pv_with hard (pf_values st1) nd ?new,
      pf_queue := (if ?V i = Some ?new then pf_queue st1 else wq_push (pf_queue st1) \<lparr>nodeId = i, strength = ?new, edgeOffset = None\<rparr>)\<rparr>"
  have result: "admitSeed hard st s = Returned ?st"
    using r(1) vals by (simp add: admitSeed_def reg outcome_then_def present_def Let_def)
  have pm': "pm_inv (mr_values r)" using pm by (simp add: r(2) map_laws)
  have stores': "stores_ok ?st" using stores pm' by (simp add: stores_ok_def queue_laws)
  have grade: "field_grade hard (insert s S) T (seed_contract hard s) (seed_product s) ?new"
  proof (cases "?V i")
    case None
    then show ?thesis by (auto intro: field_grade.seeded)
  next
    case (Some p)
    then have "field_grade hard S T (seed_contract hard s) (seed_product s) p"
      using inv1 unfolding solver_inv_def grades_ok_def i seed_id_def by (metis partition_inject)
    then have "field_grade hard (insert s S) T (seed_contract hard s) (seed_product s) p" by (rule field_grade_mono) auto
    then show ?thesis using Some by (auto simp: max_def intro: field_grade.seeded)
  qed
  have fr: "frontier (graph_edges ?st) (pm_get (pf_numericValues ?st)) (wq_items (pf_queue ?st))"
  proof (cases "?V i = Some ?new")
    case True
    then have "?V(i \<mapsto> ?new) = ?V" by auto
    then show ?thesis using inv1 True vals by (simp add: solver_inv_def grades_ok_def)
  next
    case False
    then have "p < ?new" if "?V i = Some p" for p using that by (auto simp: max_def split: if_splits)
    with frontier_seed [of "graph_edges st1" ?V "wq_items (pf_queue st1)" i ?new] show ?thesis
      using inv1 False vals wq by (simp add: solver_inv_def grades_ok_def queue_laws)
  qed
  have below: "\<exists>g. (?V(i \<mapsto> ?new)) (seed_id hard z) = Some g \<and> clamp_grade (sd_milligrades z) \<le> g" if "z \<in> insert s S" for z
  proof (cases "seed_id hard z = i \<and> z \<in> S")
    case True
    then obtain g where "?V i = Some g" "clamp_grade (sd_milligrades z) \<le> g"
      using inv1 by (auto simp: solver_inv_def grades_ok_def)
    then show ?thesis using True by auto
  next
    case False
    then show ?thesis using that inv1 i by (auto simp: solver_inv_def grades_ok_def split: option.split)
  qed
  have sound: "\<exists>c p. j = partition_id c p \<and> field_grade hard (insert s S) T c p g" if "(?V(i \<mapsto> ?new)) j = Some g" for j g
  proof (cases "j = i")
    case True
    then show ?thesis using that grade i by (auto simp: seed_id_def)
  next
    case False
    then show ?thesis using that inv1 field_grade_mono [OF _ subset_insertI [of S s] subset_refl]
      unfolding solver_inv_def grades_ok_def by fastforce
  qed
  have V: "pm_get (pf_numericValues st) = ?V" by (simp add: f(4))
  have inv': "solver_inv hard ?st (insert s S) T"
    using stores' inv1 fr below sound vals by (simp add: solver_inv_def nodes_ok_def grades_ok_def)
  have nonneg: "0 \<le> ?new" using clamp_grade_bounds by (auto split: option.split intro: order_trans [OF _ max.cobounded2])
  have node: "pn_product nd = seed_product s" "pn_contract nd = seed_contract hard s"
    by (simp_all add: f(2,3) seed_product_def seed_contract_def)
  have fields: "pf_pending ?st = pf_pending st" "pf_deferred ?st = pf_deferred st" "pf_seedOffset ?st = pf_seedOffset st"
    "pf_transitionOffset ?st = pf_transitionOffset st" "pf_values ?st = pv_with hard (pf_values st) nd ?new"
    by (simp_all add: f(6,9-13))
  have update: "pm_get (pf_numericValues ?st) = (pm_get (pf_numericValues st))(seed_id hard s \<mapsto> ?new)" using vals i V by simp
  have upper: "p \<le> ?new" if "pm_get (pf_numericValues st) (seed_id hard s) = Some p" for p using that V i by simp
  show ?thesis
    by (intro exI [of _ ?st] exI [of _ nd] exI [of _ ?new] conjI allI impI)
      (rule result inv' fields node nonneg update upper; assumption?)+
qed

lemma admitTransition_inv:
  fixes t
  assumes inv: "solver_inv hard st S T"
  defines "st' \<equiv> admitTransition hard st t"
  shows "solver_inv hard st' S (insert t T)" "pf_numericValues st' = pf_numericValues st" "pf_values st' = pf_values st"
    "pf_pending st' = pf_pending st" "pf_deferred st' = pf_deferred st" "pf_seedOffset st' = pf_seedOffset st"
    "pf_transitionOffset st' = pf_transitionOffset st"
proof -
  obtain st1 i nd where reg1: "registerNode hard st (ft_from t) (ft_cap_contract_id t) = (st1, i, nd)" by (metis prod_cases3)
  obtain st2 j nd2 where reg2: "registerNode hard st1 (ft_to t) (ft_cap_contract_id t) = (st2, j, nd2)" by (metis prod_cases3)
  note f1 = register_fields [OF reg1] and f2 = register_fields [OF reg2]
  from register_inv [OF reg1 inv] have 1: "solver_inv hard st1 S T" "graph_edges st1 = graph_edges st"
    "\<And>k. pm_get (pf_nodes st1) k \<noteq> None \<longleftrightarrow> pm_get (pf_nodes st) k \<noteq> None \<or> k = i" by blast+
  from register_inv [OF reg2 1(1)] have 2: "solver_inv hard st2 S T"
    "\<And>k. pm_get (pf_nodes st2) k \<noteq> None \<longleftrightarrow> pm_get (pf_nodes st1) k \<noteq> None \<or> k = j" by blast+
  have ends: "tr_from (edge_row hard t) = i" "tr_to (edge_row hard t) = j"
    by (simp_all add: edge_row_def f1(1) f2(1) transition_contract_def)
  have nodes: "pm_get (pf_nodes st2) i \<noteq> None" "pm_get (pf_nodes st2) j \<noteq> None" using 1(3) 2(2) by blast+
  have has: "pm_has (pg_nodeIds (pf_graph st2)) i" "pm_has (pg_nodeIds (pf_graph st2)) j"
    using 2(1) nodes by (auto simp: solver_inv_def nodes_ok_def)
  let ?u = "\<lparr>tr_from = i, tr_to = j, tr_strength = ft_strength_milligrades t\<rparr>"
  have u: "?u = edge_row hard t" using ends by (simp add: edge_row_def)
  let ?g = "extendMaxMinGraph (Some (pf_graph st2)) [] [?u]"
  have "pg_wf (pf_graph st2)" using 2(1) by (simp add: solver_inv_def stores_ok_def)
  from extend_one_edge [OF this, of ?u] has have g: "pg_wf ?g" "pg_nodeIds ?g = pg_nodeIds (pf_graph st2)"
    "pm_get (pg_edges ?g) = (graph_edges st2)(i \<mapsto> oe_append (case graph_edges st2 i of Some e \<Rightarrow> e | None \<Rightarrow> oe_empty) ?u)"
    by simp_all
  have wf: "edges_wf (graph_edges st2)" using 2(1) by (simp add: solver_inv_def stores_ok_def pg_wf_def)
  have sound: "\<exists>c p. k = partition_id c p \<and> field_grade hard S (insert t T) c p h" if "pm_get (pf_numericValues st2) k = Some h" for k h
    using 2(1) that field_grade_mono [OF _ subset_refl subset_insertI [of T t]] unfolding solver_inv_def grades_ok_def by blast
  show "solver_inv hard st' S (insert t T)"
  proof (cases "ft_applicable t")
    case False
    then have "st' = st2" by (simp add: st'_def admitTransition_def reg1 reg2)
    moreover have "nodes_ok hard st2 (insert t T)"
      using 2(1) nodes False ends unfolding solver_inv_def nodes_ok_def by auto
    moreover have "grades_ok hard st2 S (insert t T)" using 2(1) sound unfolding solver_inv_def grades_ok_def by blast
    ultimately show ?thesis using 2(1) by (simp add: solver_inv_def)
  next
    case True
    let ?q = "case pm_get (pf_numericValues st2) i of None \<Rightarrow> pf_queue st2
      | Some grade \<Rightarrow> wq_push (pf_queue st2) \<lparr>nodeId = i, strength = grade, edgeOffset = Some (case graph_edges st2 i of None \<Rightarrow> 0 | Some e \<Rightarrow> oe_length e)\<rparr>"
    have st': "st' = st2\<lparr>pf_graph := ?g, pf_admittedEdges := pf_admittedEdges st + 1, pf_queue := ?q\<rparr>"
      using True by (simp add: st'_def admitTransition_def reg1 reg2 Let_def)
    have wq: "wq_inv (pf_queue st2)" using 2(1) by (simp add: solver_inv_def stores_ok_def)
    have items: "wq_items ?q = (case pm_get (pf_numericValues st2) i of None \<Rightarrow> wq_items (pf_queue st2)
      | Some grade \<Rightarrow> add_mset \<lparr>nodeId = i, strength = grade, edgeOffset = Some (case graph_edges st2 i of None \<Rightarrow> 0 | Some e \<Rightarrow> oe_length e)\<rparr> (wq_items (pf_queue st2)))"
      using wq by (simp add: queue_laws split: option.split)
    have "stores_ok st'" using 2(1) g(1) wq by (simp add: st' solver_inv_def stores_ok_def queue_laws split: option.split)
    moreover have "edge_of (pm_get (pg_edges ?g)) n v \<longleftrightarrow> (\<exists>t' \<in> insert t T. ft_applicable t' \<and> v = edge_row hard t' \<and> n = tr_from v)" for n v
    proof -
      have "edge_of (pm_get (pg_edges ?g)) n v \<longleftrightarrow> edge_of (graph_edges st2) n v \<or> n = i \<and> v = ?u"
        unfolding g(3) by (rule edge_of_update [OF wf])
      moreover have "edge_of (graph_edges st2) n v \<longleftrightarrow> (\<exists>t' \<in> T. ft_applicable t' \<and> v = edge_row hard t' \<and> n = tr_from v)"
        using 2(1) unfolding solver_inv_def nodes_ok_def by blast
      ultimately show ?thesis using True ends(1) unfolding u by auto
    qed
    then have "nodes_ok hard st' (insert t T)"
      using 2(1) nodes ends g(2) unfolding st' solver_inv_def nodes_ok_def by simp
    moreover have "frontier (pm_get (pg_edges ?g)) (pm_get (pf_numericValues st2)) (wq_items ?q)"
      unfolding g(3) items by (rule frontier_edge) (use 2(1) wf in \<open>auto simp: solver_inv_def grades_ok_def\<close>)
    then have "grades_ok hard st' S (insert t T)" using 2(1) sound unfolding st' solver_inv_def grades_ok_def by simp
    ultimately show ?thesis by (simp add: solver_inv_def)
  qed
  show "pf_numericValues st' = pf_numericValues st" "pf_values st' = pf_values st"
    "pf_pending st' = pf_pending st" "pf_deferred st' = pf_deferred st" "pf_seedOffset st' = pf_seedOffset st"
    "pf_transitionOffset st' = pf_transitionOffset st"
    by (auto simp: st'_def admitTransition_def reg1 reg2 Let_def f1(4,6,9-13) f2(4,6,9-13))
qed

section \<open>Relaxing an edge\<close>

lemma relax_grades:
  assumes inv: "solver_inv hard st S T" and step: "relax_step (graph_edges st) (relax_start st) = Some st'"
  shows "solver_inv hard (st\<lparr>pf_numericValues := rs_values st', pf_queue := rs_heap st'\<rparr>) S T"
proof -
  have stores: "stores_ok st" and fr: "frontier (graph_edges st) (pm_get (pf_numericValues st)) (wq_items (pf_queue st))"
    using inv by (simp_all add: solver_inv_def grades_ok_def)
  from relax_step_inv [OF relax_start_inv [OF stores fr] step]
  have relaxed: "relax_inv (graph_edges st) (pm_get (pf_numericValues st)) (pm_get (pf_numericValues st)) st'" by blast
  have derived: "\<exists>c p. n = partition_id c p \<and> field_grade hard S T c p g"
    if "derivable (pm_get (pf_numericValues st)) (edge_of (graph_edges st)) n g" for n g
    using that
  proof (induction rule: derivable.induct)
    case (seed n g)
    then show ?case using inv by (simp add: solver_inv_def grades_ok_def)
  next
    case (step n g u)
    then obtain c p where cp: "n = partition_id c p" "field_grade hard S T c p g" by blast
    from step(2) obtain t where t: "t \<in> T" "ft_applicable t" "u = edge_row hard t" "n = tr_from u"
      using inv unfolding solver_inv_def nodes_ok_def by blast
    then have "c = transition_contract hard t" "p = canonicalProductIdentity (ft_from t)"
      using cp(1) by (simp_all add: edge_row_def partition_inject)
    then have "field_grade hard S T c (canonicalProductIdentity (ft_to t)) (min g (tr_strength u))"
      using cp(2) t field_grade.carried [of hard S T t g] by (simp add: edge_row_def)
    moreover have "tr_to u = partition_id c (canonicalProductIdentity (ft_to t))"
      using t \<open>c = transition_contract hard t\<close> by (simp add: edge_row_def)
    ultimately show ?case by blast
  qed
  have above: "\<exists>g. pm_get (rs_values st') (seed_id hard s) = Some g \<and> clamp_grade (sd_milligrades s) \<le> g" if s: "s \<in> S" for s
  proof -
    obtain g where g: "pm_get (pf_numericValues st) (seed_id hard s) = Some g" "clamp_grade (sd_milligrades s) \<le> g"
      using inv s by (auto simp: solver_inv_def grades_ok_def)
    then obtain h where "pm_get (rs_values st') (seed_id hard s) = Some h" "g \<le> h" using relaxed unfolding relax_inv_def by blast
    then show ?thesis using g(2) by (blast intro: order_trans)
  qed
  have "stores_ok (st\<lparr>pf_numericValues := rs_values st', pf_queue := rs_heap st'\<rparr>)"
    using stores relaxed by (simp add: stores_ok_def relax_inv_def)
  moreover have "grades_ok hard (st\<lparr>pf_numericValues := rs_values st', pf_queue := rs_heap st'\<rparr>) S T"
  proof -
    have "frontier (graph_edges st) (pm_get (rs_values st')) (wq_items (rs_heap st'))"
      "\<And>n g. pm_get (rs_values st') n = Some g \<Longrightarrow> derivable (pm_get (pf_numericValues st)) (edge_of (graph_edges st)) n g"
      using relaxed unfolding relax_inv_def by blast+
    then show ?thesis using derived above by (simp add: grades_ok_def)
  qed
  ultimately show ?thesis using inv by (simp add: solver_inv_def nodes_ok_def)
qed

text \<open>What one relaxation changes: nothing, or one registered node whose grade grows.\<close>

lemma relax_changes:
  assumes inv: "solver_inv hard st S T" and step: "relax_step (graph_edges st) (relax_start st) = Some st'"
  shows "(rs_values st' = pf_numericValues st \<and> rs_changed st' = Map.empty) \<or>
    (\<exists>i g nd. pm_get (pf_nodes st) i = Some nd \<and> i = partition_id (pn_contract nd) (pn_product nd) \<and>
      rs_changed st' = [i \<mapsto> g] \<and> pm_get (rs_values st') = (pm_get (pf_numericValues st))(i \<mapsto> g) \<and>
      (\<forall>p. pm_get (pf_numericValues st) i = Some p \<longrightarrow> p < g))"
  using step
proof (cases rule: relax_step_cases)
  case (raise x q e t new)
  have "edge_of (graph_edges st) (nodeId x) t" using raise(3,4) by (auto simp: edge_of_def)
  then obtain row where "row \<in> T" "t = edge_row hard row" using inv unfolding solver_inv_def nodes_ok_def by blast
  then obtain nd where nd: "pm_get (pf_nodes st) (tr_to t) = Some nd" using inv unfolding solver_inv_def nodes_ok_def by blast
  moreover have "tr_to t = partition_id (pn_contract nd) (pn_product nd)" using inv nd unfolding solver_inv_def nodes_ok_def by blast
  moreover have "pm_get (rs_values st') = (pm_get (pf_numericValues st))(tr_to t \<mapsto> new)"
    using raise(7) inv by (simp add: relax_start_def solver_inv_def stores_ok_def map_laws fun_eq_iff)
  moreover have "rs_changed st' = [tr_to t \<mapsto> new]" using raise(7) by (simp add: relax_start_def)
  ultimately show ?thesis using raise(5) by (auto simp: relax_start_def)
qed (simp_all add: relax_start_def)

section \<open>The projection follows the values\<close>

definition contract_grades :: "prepared_field_graph \<Rightarrow> string \<Rightarrow> string \<Rightarrow> int option" where
  "contract_grades st p c = pm_get (pf_numericValues st) (partition_id c p)"

definition soft_contracts :: "string \<Rightarrow> (string \<Rightarrow> int option) \<Rightarrow> string set" where
  "soft_contracts hard f = {c. c \<noteq> hard \<and> f c \<noteq> None}"

text \<open>
  What a product shows of the grades of its contracts: without a soft contract the hard grade, with one
  soft contract its grade, with several nothing.
\<close>

definition product_value :: "string \<Rightarrow> (string \<Rightarrow> int option) \<Rightarrow> int option" where
  "product_value hard f =
     (if soft_contracts hard f = {} then f hard
      else if is_singleton (soft_contracts hard f) then f (the_elem (soft_contracts hard f)) else None)"

definition contract_conflict :: "string \<Rightarrow> (string \<Rightarrow> int option) \<Rightarrow> bool" where
  "contract_conflict hard f \<longleftrightarrow> soft_contracts hard f \<noteq> {} \<and> \<not> is_singleton (soft_contracts hard f)"

definition row_tracks :: "string \<Rightarrow> (string \<Rightarrow> int option) \<Rightarrow> product_grade \<Rightarrow> bool" where
  "row_tracks hard f row \<longleftrightarrow> gr_hard row = f hard \<and>
     (case gr_contract row of
        None \<Rightarrow> soft_contracts hard f = {} \<and> gr_soft row = None \<and> gr_conflict row \<noteq> Some True
      | Some c \<Rightarrow> c \<in> soft_contracts hard f \<and> (gr_conflict row = Some True \<longleftrightarrow> soft_contracts hard f \<noteq> {c}) \<and>
          (gr_conflict row \<noteq> Some True \<longrightarrow> gr_soft row = f c))"

definition row_at :: "prepared_values \<Rightarrow> string \<Rightarrow> product_grade" where
  "row_at pv p = (case pm_get (pv_rows pv) p of None \<Rightarrow> no_grade | Some row \<Rightarrow> row)"

definition values_inv :: "string \<Rightarrow> (string \<Rightarrow> string \<Rightarrow> int option) \<Rightarrow> prepared_values \<Rightarrow> bool" where
  "values_inv hard F pv \<longleftrightarrow> pm_inv (pv_rows pv) \<and> (\<forall>p. row_tracks hard (F p) (row_at pv p)) \<and>
     pv_size pv = int (card {p. pv_has pv p}) \<and> pv_conflictCount pv = int (card {p. pv_conflicted pv p})"

lemma row_at_reads:
  "pv_get pv p = grade_value (row_at pv p)" "pv_conflicted pv p \<longleftrightarrow> gr_conflict (row_at pv p) = Some True"
  by (auto simp: pv_get_def pv_conflicted_def row_at_def grade_value_def no_grade_def either_def split: option.split)

lemma row_tracks_value:
  assumes "row_tracks hard f row"
  shows "grade_value row = product_value hard f" "gr_conflict row = Some True \<longleftrightarrow> contract_conflict hard f"
proof -
  have "grade_value row = product_value hard f \<and> (gr_conflict row = Some True \<longleftrightarrow> contract_conflict hard f)"
  proof (cases "gr_contract row")
    case None
    then show ?thesis using assms
      by (auto simp: row_tracks_def grade_value_def product_value_def contract_conflict_def either_def)
  next
    case (Some c)
    then have c: "c \<in> soft_contracts hard f" "gr_conflict row = Some True \<longleftrightarrow> soft_contracts hard f \<noteq> {c}"
      "gr_conflict row \<noteq> Some True \<Longrightarrow> gr_soft row = f c" using assms by (simp_all add: row_tracks_def)
    then have "f c \<noteq> None" by (simp add: soft_contracts_def)
    have "is_singleton (soft_contracts hard f) \<longleftrightarrow> soft_contracts hard f = {c}" using c(1) by (metis is_singletonE is_singletonI singletonD)
    show ?thesis
    proof (cases "soft_contracts hard f = {c}")
      case True
      then have row: "gr_conflict row \<noteq> Some True" "gr_soft row = f c" using c by blast+
      obtain g where g: "f c = Some g" using \<open>f c \<noteq> None\<close> by blast
      have "product_value hard f = Some g" "\<not> contract_conflict hard f"
        unfolding product_value_def contract_conflict_def True by (simp_all add: g)
      then show ?thesis using row g by (simp add: grade_value_def either_def)
    next
      case False
      then have "gr_conflict row = Some True" "soft_contracts hard f \<noteq> {}" "\<not> is_singleton (soft_contracts hard f)"
        using c \<open>is_singleton (soft_contracts hard f) \<longleftrightarrow> soft_contracts hard f = {c}\<close> by auto
      then show ?thesis by (simp add: grade_value_def product_value_def contract_conflict_def)
    qed
  qed
  then show "grade_value row = product_value hard f" "gr_conflict row = Some True \<longleftrightarrow> contract_conflict hard f" by simp_all
qed

lemma merge_tracks:
  assumes tr: "row_tracks hard f row" and up: "\<And>p. f (pn_contract nd) = Some p \<Longrightarrow> p \<le> g" and "0 \<le> g"
  shows "row_tracks hard (f(pn_contract nd \<mapsto> g)) (merge_grade hard row nd g)"
proof (cases "pn_contract nd = hard")
  case True
  have "soft_contracts hard (f(hard \<mapsto> g)) = soft_contracts hard f" by (auto simp: soft_contracts_def)
  moreover have "max (case gr_hard row of None \<Rightarrow> -1 | Some h \<Rightarrow> h) g = g"
    using tr up True \<open>0 \<le> g\<close> by (auto simp: row_tracks_def split: option.split)
  moreover have "(f(hard \<mapsto> g)) c = f c" if "c \<in> soft_contracts hard f" for c using that by (auto simp: soft_contracts_def)
  ultimately show ?thesis using tr True by (auto simp: row_tracks_def merge_grade_def split: option.splits)
next
  case False
  let ?c = "pn_contract nd"
  have soft: "soft_contracts hard (f(?c \<mapsto> g)) = insert ?c (soft_contracts hard f)" using False by (auto simp: soft_contracts_def)
  show ?thesis
  proof (cases "gr_contract row")
    case None
    then show ?thesis using tr False soft by (auto simp: row_tracks_def merge_grade_def)
  next
    case (Some d)
    show ?thesis
    proof (cases "d = ?c")
      case True
      then have c: "?c \<in> soft_contracts hard f" "gr_conflict row = Some True \<longleftrightarrow> soft_contracts hard f \<noteq> {?c}"
        "gr_conflict row \<noteq> Some True \<Longrightarrow> gr_soft row = f ?c" using tr Some by (simp_all add: row_tracks_def)
      have "max (case gr_soft row of None \<Rightarrow> -1 | Some h \<Rightarrow> h) g = g" if "gr_conflict row \<noteq> Some True"
        using c(3) that up \<open>0 \<le> g\<close> by (auto split: option.split)
      then show ?thesis using tr c Some True False soft
        by (auto simp: row_tracks_def merge_grade_def insert_absorb)
    next
      case other: False
      then have "d \<in> soft_contracts hard f" using tr Some by (simp add: row_tracks_def)
      then show ?thesis using tr Some other False soft by (auto simp: row_tracks_def merge_grade_def)
    qed
  qed
qed

lemma pv_with_rows:
  assumes "pm_inv (pv_rows pv)"
  shows "pm_inv (pv_rows (pv_with hard pv nd g)) \<and>
    row_at (pv_with hard pv nd g) p = (if p = pn_product nd then merge_grade hard (row_at pv p) nd g else row_at pv p)"
  using assms by (auto simp: pv_with_def Let_def row_at_def map_laws)

lemma finite_readable:
  assumes "pm_inv (pv_rows pv)"
  shows "finite {p. pv_has pv p}" "finite {p. pv_conflicted pv p}"
proof -
  have "finite (dom (pm_get (pv_rows pv)))" using pm.finite_dom [OF assms] by (simp add: dom_def)
  moreover have "{p. pv_has pv p} \<subseteq> dom (pm_get (pv_rows pv))" "{p. pv_conflicted pv p} \<subseteq> dom (pm_get (pv_rows pv))"
    by (auto simp: pv_has_def pv_get_def pv_conflicted_def split: option.splits)
  ultimately show "finite {p. pv_has pv p}" "finite {p. pv_conflicted pv p}" by (auto intro: finite_subset)
qed

lemma card_update:
  assumes "finite {p. A p}" "\<And>p. p \<noteq> q \<Longrightarrow> B p \<longleftrightarrow> A p"
  shows "int (card {p. B p}) = int (card {p. A p}) + number_of (B q) - number_of (A q)"
proof -
  have "p \<in> {p. B p} \<longleftrightarrow> p \<in> (if B q then insert q ({p. A p} - {q}) else {p. A p} - {q})" for p
    by (cases "p = q") (auto simp: assms(2))
  then have "{p. B p} = (if B q then insert q ({p. A p} - {q}) else {p. A p} - {q})" by blast
  moreover have "int (card ({p. A p} - {q})) = int (card {p. A p}) - number_of (A q)"
    using assms(1) card_Suc_Diff1 [of "{p. A p}" q] by (cases "A q") (auto simp: number_of_def)
  ultimately show ?thesis using assms(1) by (auto simp: number_of_def insert_absorb)
qed

lemma pv_with_inv:
  assumes inv: "values_inv hard F pv" and up: "\<And>p. F (pn_product nd) (pn_contract nd) = Some p \<Longrightarrow> p \<le> g" and "0 \<le> g"
  shows "values_inv hard (F(pn_product nd := (F (pn_product nd))(pn_contract nd \<mapsto> g))) (pv_with hard pv nd g)"
proof -
  let ?q = "pn_product nd" and ?pv = "pv_with hard pv nd g"
  have pm: "pm_inv (pv_rows pv)" using inv by (simp add: values_inv_def)
  note rows = pv_with_rows [OF pm, of hard nd g]
  have tracks: "row_tracks hard ((F(?q := (F ?q)(pn_contract nd \<mapsto> g))) p) (row_at ?pv p)" for p
    using inv rows [of p] merge_tracks [of hard "F ?q" "row_at pv ?q" nd g] up \<open>0 \<le> g\<close> by (auto simp: values_inv_def)
  have others: "pv_has ?pv p \<longleftrightarrow> pv_has pv p" "pv_conflicted ?pv p \<longleftrightarrow> pv_conflicted pv p" if "p \<noteq> ?q" for p
    using rows [of p] that by (simp_all add: pv_has_def row_at_reads)
  have at: "row_at ?pv ?q = merge_grade hard (row_at pv ?q) nd g" using rows [of ?q] by simp
  have counts: "pv_size ?pv = pv_size pv + number_of (pv_has ?pv ?q) - number_of (pv_has pv ?q)"
    "pv_conflictCount ?pv = pv_conflictCount pv + number_of (pv_conflicted ?pv ?q) - number_of (pv_conflicted pv ?q)"
  proof -
    have prior: "(case pm_get (pv_rows pv) ?q of None \<Rightarrow> no_grade | Some row \<Rightarrow> row) = row_at pv ?q" by (simp add: row_at_def)
    show "pv_size ?pv = pv_size pv + number_of (pv_has ?pv ?q) - number_of (pv_has pv ?q)"
      unfolding pv_has_def [of ?pv] row_at_reads(1) [of ?pv] at
      by (auto simp: pv_with_def Let_def prior grade_value_def pv_has_def row_at_reads(1))
    show "pv_conflictCount ?pv = pv_conflictCount pv + number_of (pv_conflicted ?pv ?q) - number_of (pv_conflicted pv ?q)"
      unfolding row_at_reads(2) at by (auto simp: pv_with_def Let_def prior)
  qed
  show ?thesis unfolding values_inv_def
    using rows tracks counts inv card_update [OF finite_readable(1) [OF pm], of ?q "pv_has ?pv"]
      card_update [OF finite_readable(2) [OF pm], of ?q "pv_conflicted ?pv"] others
    by (auto simp: values_inv_def)
qed

lemma values_inv_empty: "values_inv hard (\<lambda>_ _. None) empty_values"
proof -
  have "row_at empty_values p = no_grade" for p by (simp add: row_at_def empty_values_def)
  then show ?thesis
    by (simp add: values_inv_def row_tracks_def no_grade_def soft_contracts_def pv_has_def row_at_reads grade_value_def either_def)
      (simp add: empty_values_def)
qed

lemma contract_grades_update:
  "pm_get (pf_numericValues st') = (pm_get (pf_numericValues st))(partition_id c p \<mapsto> g) \<Longrightarrow>
     contract_grades st' = (contract_grades st)(p := (contract_grades st p)(c \<mapsto> g))"
  by (auto simp: contract_grades_def fun_eq_iff partition_inject)

end
