(* ===== verification/FieldGraphRefinement.thy ===== *)
theory FieldGraphRefinement
  imports FieldGraphInvariant
begin

text \<open>
  What the field preparation computes: from any order of appended batches, rebuilds and charged steps,
  a complete preparation holds the best grades of all rows ever appended, the projection shows them by
  product, and steps with enough memory always complete.
\<close>

section \<open>The rows still to be admitted\<close>

definition batches :: "prepared_field_graph \<Rightarrow> field_additions list" where
  "batches st = seq_iterator (pf_pending st) @ (case pf_deferred st of None \<Rightarrow> [] | Some b \<Rightarrow> [b])"

definition offset_ok :: "field_additions \<Rightarrow> nat \<Rightarrow> nat \<Rightarrow> bool" where
  "offset_ok b i j \<longleftrightarrow> i \<le> length (ad_seeds b) \<and> j \<le> length (ad_transitions b) \<and> (0 < j \<longrightarrow> i = length (ad_seeds b)) \<and>
     \<not> (i = length (ad_seeds b) \<and> j = length (ad_transitions b))"

definition batches_ok :: "prepared_field_graph \<Rightarrow> bool" where
  "batches_ok st \<longleftrightarrow> seq_inv (pf_pending st) \<and> (\<forall>b \<in> set (batches st). incoming b) \<and>
     (case batches st of [] \<Rightarrow> pf_seedOffset st = 0 \<and> pf_transitionOffset st = 0
      | b # _ \<Rightarrow> offset_ok b (pf_seedOffset st) (pf_transitionOffset st)) \<and>
     (sq_length (pf_pending st) = 0 \<longrightarrow> pf_seedOffset st = 0 \<and> pf_transitionOffset st = 0)"

definition left_seeds :: "field_additions list \<Rightarrow> nat \<Rightarrow> seed_activation set" where
  "left_seeds bs i = (case bs of [] \<Rightarrow> {} | b # bs' \<Rightarrow> set (drop i (ad_seeds b)) \<union> (\<Union>b' \<in> set bs'. set (ad_seeds b')))"

definition left_transitions :: "field_additions list \<Rightarrow> nat \<Rightarrow> field_transition set" where
  "left_transitions bs j = (case bs of [] \<Rightarrow> {} | b # bs' \<Rightarrow> set (drop j (ad_transitions b)) \<union> (\<Union>b' \<in> set bs'. set (ad_transitions b')))"

definition batch_rows :: "field_additions \<Rightarrow> nat" where
  "batch_rows b = length (ad_seeds b) + length (ad_transitions b)"

definition rows_left :: "prepared_field_graph \<Rightarrow> nat" where
  "rows_left st = sum_list (map batch_rows (batches st)) - (pf_seedOffset st + pf_transitionOffset st)"

abbreviation "seeds_left st \<equiv> left_seeds (batches st) (pf_seedOffset st)"
abbreviation "transitions_left st \<equiv> left_transitions (batches st) (pf_transitionOffset st)"

lemma offset_start: "incoming b \<Longrightarrow> offset_ok b 0 0"
  by (auto simp: offset_ok_def incoming_def)

lemma left_start: "left_seeds bs 0 = (\<Union>b \<in> set bs. set (ad_seeds b))" "left_transitions bs 0 = (\<Union>b \<in> set bs. set (ad_transitions b))"
  by (auto simp: left_seeds_def left_transitions_def split: list.split)

section \<open>Finishing a row\<close>

lemma finish_row_keeps:
  "pf_graph (finish_row b s) = pf_graph s" "pf_keys (finish_row b s) = pf_keys s" "pf_nodes (finish_row b s) = pf_nodes s"
  "pf_numericValues (finish_row b s) = pf_numericValues s" "pf_values (finish_row b s) = pf_values s"
  "pf_queue (finish_row b s) = pf_queue s" "pf_deferred (finish_row b s) = pf_deferred s"
  by (simp_all add: finish_row_def)

lemma finish_row_batches:
  assumes seq: "seq_inv (pf_pending s)" "seq_iterator (pf_pending s) = b # bs" "pf_deferred s = None"
    and ok: "\<forall>b' \<in> set (b # bs). incoming b'" and off: "pf_seedOffset s \<le> length (ad_seeds b)" "pf_transitionOffset s \<le> length (ad_transitions b)"
      "0 < pf_transitionOffset s \<longrightarrow> pf_seedOffset s = length (ad_seeds b)"
  shows "batches_ok (finish_row b s)"
    and "seeds_left (finish_row b s) = left_seeds (b # bs) (pf_seedOffset s)"
    and "transitions_left (finish_row b s) = left_transitions (b # bs) (pf_transitionOffset s)"
    and "rows_left (finish_row b s) = sum_list (map batch_rows (b # bs)) - (pf_seedOffset s + pf_transitionOffset s)"
proof -
  have len: "sq_length (pf_pending s) = Suc (length bs)" using seq(2) by (metis length_Cons length_iterator)
  let ?full = "pf_seedOffset s = length (ad_seeds b) \<and> pf_transitionOffset s = length (ad_transitions b)"
  have tail: "seq_inv (pf_pending (finish_row b s)) \<and> seq_iterator (pf_pending (finish_row b s)) = bs" if ?full
  proof (cases "bs = []")
    case True
    then show ?thesis using that len by (simp add: finish_row_def)
  next
    case False
    then show ?thesis using that len seq_tail_list [OF seq(1)] seq(2) by (simp add: finish_row_def)
  qed
  have full: "batches (finish_row b s) = bs \<and> pf_seedOffset (finish_row b s) = 0 \<and> pf_transitionOffset (finish_row b s) = 0" if ?full
    using tail [OF that] that seq(3) by (simp add: batches_def finish_row_keeps) (simp add: finish_row_def)
  have open_row: "finish_row b s = s" if "\<not> ?full" using that by (auto simp: finish_row_def)
  have here: "batches s = b # bs" using seq by (simp add: batches_def)
  show "batches_ok (finish_row b s)"
  proof (cases ?full)
    case True
    then show ?thesis using full tail ok offset_start by (auto simp: batches_ok_def split: list.split)
  next
    case False
    then have "offset_ok b (pf_seedOffset s) (pf_transitionOffset s)" using off by (auto simp: offset_ok_def)
    then show ?thesis using open_row [OF False] here seq(1) ok len by (simp add: batches_ok_def)
  qed
  show "seeds_left (finish_row b s) = left_seeds (b # bs) (pf_seedOffset s)"
  proof (cases ?full)
    case True
    then show ?thesis using full left_start(1) [of bs] by (simp add: left_seeds_def [of "b # bs"])
  qed (use open_row here in simp)
  show "transitions_left (finish_row b s) = left_transitions (b # bs) (pf_transitionOffset s)"
  proof (cases ?full)
    case True
    then show ?thesis using full left_start(2) [of bs] by (simp add: left_transitions_def [of "b # bs"])
  qed (use open_row here in simp)
  show "rows_left (finish_row b s) = sum_list (map batch_rows (b # bs)) - (pf_seedOffset s + pf_transitionOffset s)"
  proof (cases ?full)
    case True
    then show ?thesis using full by (simp add: rows_left_def batch_rows_def)
  next
    case False
    then show ?thesis using open_row here by (simp add: rows_left_def)
  qed
qed

section \<open>The invariant of a preparation\<close>

definition field_inv :: "string \<Rightarrow> prepared_field_graph \<Rightarrow> seed_activation set \<Rightarrow> field_transition set \<Rightarrow> bool" where
  "field_inv hard st S T \<longleftrightarrow> solver_inv hard st S T \<and> values_inv hard (contract_grades st) (pf_values st) \<and> batches_ok st \<and>
     rows_ok (S \<union> seeds_left st) (T \<union> transitions_left st)"

lemma rows_ok_mono: "rows_ok S T \<Longrightarrow> S' \<subseteq> S \<Longrightarrow> T' \<subseteq> T \<Longrightarrow> rows_ok S' T'"
  by (auto simp: rows_ok_def)

lemma left_seed:
  "i < length (ad_seeds b) \<Longrightarrow> left_seeds (b # bs) i = insert (ad_seeds b ! i) (left_seeds (b # bs) (Suc i))"
  by (simp add: left_seeds_def Cons_nth_drop_Suc [symmetric])

lemma left_transition:
  "j < length (ad_transitions b) \<Longrightarrow> left_transitions (b # bs) j = insert (ad_transitions b ! j) (left_transitions (b # bs) (Suc j))"
  by (simp add: left_transitions_def Cons_nth_drop_Suc [symmetric])

text \<open>The state in which a row is admitted: the deferred batch has been taken into the sequence.\<close>

definition admitted_state :: "prepared_field_graph \<Rightarrow> prepared_field_graph" where
  "admitted_state st =
     (case pf_deferred st of
        None \<Rightarrow> st\<lparr>pf_changedProduct := None\<rparr>
      | Some batch \<Rightarrow> (st\<lparr>pf_changedProduct := None\<rparr>)\<lparr>pf_deferred := None, pf_pending := seq_append (pf_pending st) batch,
          pf_allocatedPendingSlots := pf_allocatedPendingSlots st + 1\<rparr>)"

lemma admitted_state_fields:
  "pf_graph (admitted_state st) = pf_graph st" "pf_keys (admitted_state st) = pf_keys st" "pf_nodes (admitted_state st) = pf_nodes st"
  "pf_numericValues (admitted_state st) = pf_numericValues st" "pf_values (admitted_state st) = pf_values st"
  "pf_queue (admitted_state st) = pf_queue st" "pf_deferred (admitted_state st) = None"
  "pf_seedOffset (admitted_state st) = pf_seedOffset st" "pf_transitionOffset (admitted_state st) = pf_transitionOffset st"
  by (auto simp: admitted_state_def split: option.split)

lemma admitted_state_batches:
  assumes "seq_inv (pf_pending st)"
  shows "seq_inv (pf_pending (admitted_state st)) \<and> seq_iterator (pf_pending (admitted_state st)) = batches st"
  using assms by (auto simp: admitted_state_def batches_def seq_append_list split: option.split)

lemma solver_inv_fields:
  "pf_graph s = pf_graph t \<Longrightarrow> pf_keys s = pf_keys t \<Longrightarrow> pf_nodes s = pf_nodes t \<Longrightarrow> pf_numericValues s = pf_numericValues t \<Longrightarrow>
     pf_queue s = pf_queue t \<Longrightarrow> solver_inv hard s S T = solver_inv hard t S T"
  by (simp add: solver_inv_def stores_ok_def nodes_ok_def grades_ok_def)

lemma contract_grades_fields: "pf_numericValues s = pf_numericValues t \<Longrightarrow> contract_grades s = contract_grades t"
  by (simp add: contract_grades_def fun_eq_iff)

lemma batches_fields:
  assumes "pf_pending s = pf_pending t" "pf_deferred s = pf_deferred t" "pf_seedOffset s = pf_seedOffset t"
    "pf_transitionOffset s = pf_transitionOffset t"
  shows "batches s = batches t" "batches_ok s = batches_ok t"
  unfolding batches_def batches_ok_def assms by simp_all

lemma first_batch:
  assumes "batches_ok st" "batches st = b # bs"
  shows "either (seq_at (pf_pending st) 0) (pf_deferred st) = Some b"
  using assms sq.first_rows [of "pf_pending st"]
  by (auto simp: batches_ok_def batches_def either_def split: list.splits option.splits)

lemma some_batch: "batches st \<noteq> [] \<longleftrightarrow> sq_length (pf_pending st) > 0 \<or> pf_deferred st \<noteq> None"
proof -
  have "sq_length (pf_pending st) = 0 \<longleftrightarrow> seq_iterator (pf_pending st) = []" by (metis length_0_conv length_iterator)
  then show ?thesis by (auto simp: batches_def split: option.splits)
qed

lemma next_row_cases:
  assumes ok: "batches_ok st" and turn: "pf_next st = Prepare \<or> wq_size (pf_queue st) = 0" and b: "batches st = b # bs"
  obtains (seed) "pf_seedOffset st < length (ad_seeds b)" "next_row st = (Some (ad_seeds b ! pf_seedOffset st), None)"
  | (transition) "pf_seedOffset st = length (ad_seeds b)" "pf_transitionOffset st < length (ad_transitions b)"
      "next_row st = (None, Some (ad_transitions b ! pf_transitionOffset st))"
proof -
  have some: "sq_length (pf_pending st) > 0 \<or> pf_deferred st \<noteq> None" using some_batch [of st] b by simp
  have off: "offset_ok b (pf_seedOffset st) (pf_transitionOffset st)" using ok b by (simp add: batches_ok_def)
  have row: "next_row st = (if pf_seedOffset st < length (ad_seeds b) then (list_at (ad_seeds b) (pf_seedOffset st), None)
      else (None, list_at (ad_transitions b) (pf_transitionOffset st)))"
    using some turn first_batch [OF ok b] by (simp add: next_row_def)
  show thesis
  proof (cases "pf_seedOffset st < length (ad_seeds b)")
    case True
    then show ?thesis using row seed by (simp add: list_at_def)
  next
    case False
    then have "pf_seedOffset st = length (ad_seeds b)" "pf_transitionOffset st < length (ad_transitions b)"
      using off by (auto simp: offset_ok_def)
    then show ?thesis using row transition by (simp add: list_at_def)
  qed
qed

lemma rows_left_step:
  assumes "offset_ok b i j" "i + j < k" "k \<le> Suc (i + j)"
  shows "sum_list (map batch_rows (b # bs)) - (i + j) = Suc (sum_list (map batch_rows (b # bs)) - k)"
proof -
  have "i + j < batch_rows b" using assms(1) unfolding offset_ok_def batch_rows_def by presburger
  then show ?thesis using assms(2,3) by simp
qed

lemma prepare_seed:
  assumes inv: "field_inv hard st S T" and b: "batches st = b # bs" and here: "pf_seedOffset st < length (ad_seeds b)"
    and atom: "at_seed atom = Some (ad_seeds b ! pf_seedOffset st)"
  shows "\<exists>st'. prepareRow hard (admitted_state st) atom = Returned st' \<and> field_inv hard st' (insert (ad_seeds b ! pf_seedOffset st) S) T \<and>
    insert (ad_seeds b ! pf_seedOffset st) S \<union> seeds_left st' = S \<union> seeds_left st \<and> transitions_left st' = transitions_left st \<and>
    rows_left st = Suc (rows_left st')"
proof -
  let ?adm = "admitted_state st" and ?s = "ad_seeds b ! pf_seedOffset st" and ?i = "pf_seedOffset st" and ?j = "pf_transitionOffset st"
  have ok: "batches_ok st" and solver: "solver_inv hard st S T" and vals: "values_inv hard (contract_grades st) (pf_values st)"
    and scale: "rows_ok (S \<union> seeds_left st) (T \<union> transitions_left st)" using inv by (simp_all add: field_inv_def)
  have seq: "seq_inv (pf_pending ?adm)" "seq_iterator (pf_pending ?adm) = b # bs"
    using admitted_state_batches [of st] ok b by (simp_all add: batches_ok_def)
  have off: "offset_ok b ?i ?j" using ok b by (simp add: batches_ok_def)
  have first: "seq_at (pf_pending ?adm) 0 = Some b" using sq.first_rows [OF seq(1)] seq(2) by simp
  have "solver_inv hard ?adm S T" using solver by (rule solver_inv_fields [THEN iffD1, rotated -1]) (simp_all add: admitted_state_fields)
  from admitSeed_inv [OF this rows_ok_mono [OF scale], of ?s] obtain s nd g where
    s: "admitSeed hard ?adm ?s = Returned s" "solver_inv hard s (insert ?s S) T"
    "pf_pending s = pf_pending ?adm" "pf_deferred s = None" "pf_seedOffset s = ?i" "pf_transitionOffset s = ?j"
    "pn_product nd = seed_product ?s" "pn_contract nd = seed_contract hard ?s" "pf_values s = pv_with hard (pf_values st) nd g" "0 \<le> g"
    "pm_get (pf_numericValues s) = (pm_get (pf_numericValues st))(seed_id hard ?s \<mapsto> g)"
    "\<And>p. pm_get (pf_numericValues st) (seed_id hard ?s) = Some p \<Longrightarrow> p \<le> g"
    by (auto simp: admitted_state_fields)
  let ?n = "s\<lparr>pf_seedOffset := ?i + 1\<rparr>"
  have result: "prepareRow hard ?adm atom = Returned (finish_row b ?n)"
    using here by (simp add: prepareRow_def first present_def outcome_then_def admitted_state_fields atom s(1))
  have n: "seq_inv (pf_pending ?n)" "seq_iterator (pf_pending ?n) = b # bs" "pf_deferred ?n = None" "pf_seedOffset ?n = ?i + 1" "pf_transitionOffset ?n = ?j"
    by (simp_all add: seq s admitted_state_fields)
  have inc: "\<forall>b' \<in> set (b # bs). incoming b'" using ok b by (simp add: batches_ok_def)
  have offs: "pf_seedOffset ?n \<le> length (ad_seeds b)" "pf_transitionOffset ?n \<le> length (ad_transitions b)"
    "0 < pf_transitionOffset ?n \<longrightarrow> pf_seedOffset ?n = length (ad_seeds b)"
    unfolding n(4,5) using off here by (auto simp: offset_ok_def)
  note fin = finish_row_batches [OF n(1-3) inc offs, unfolded n(4,5)]
  have "contract_grades s = (contract_grades st)(pn_product nd := (contract_grades st (pn_product nd))(pn_contract nd \<mapsto> g))"
    using contract_grades_update [of s st "seed_contract hard ?s" "seed_product ?s" g] s(7,8,11) by (simp add: seed_id_def)
  moreover have "contract_grades st (pn_product nd) (pn_contract nd) = pm_get (pf_numericValues st) (seed_id hard ?s)"
    by (simp add: contract_grades_def s(7,8) seed_id_def)
  ultimately have "values_inv hard (contract_grades s) (pf_values s)"
    using pv_with_inv [OF vals, of nd g] s(9,10,12) by simp
  moreover have "contract_grades (finish_row b ?n) = contract_grades s" by (rule contract_grades_fields) (simp add: finish_row_keeps)
  ultimately have vals': "values_inv hard (contract_grades (finish_row b ?n)) (pf_values (finish_row b ?n))" by (simp add: finish_row_keeps)
  have solver': "solver_inv hard (finish_row b ?n) (insert ?s S) T"
    using s(2) by (rule solver_inv_fields [THEN iffD1, rotated -1]) (simp_all add: finish_row_keeps)
  have seeds: "insert ?s S \<union> seeds_left (finish_row b ?n) = S \<union> seeds_left st"
  proof -
    have "seeds_left st = insert ?s (left_seeds (b # bs) (?i + 1))" using left_seed [OF here, of bs] by (simp add: b)
    then show ?thesis unfolding fin(2) by blast
  qed
  have trans: "transitions_left (finish_row b ?n) = transitions_left st" by (simp only: fin(3) b)
  have "field_inv hard (finish_row b ?n) (insert ?s S) T"
    unfolding field_inv_def seeds trans using solver' vals' fin(1) scale by blast
  moreover have "rows_left st = Suc (rows_left (finish_row b ?n))"
    using rows_left_step [OF off, of "?i + 1 + ?j" bs] fin(4) by (simp add: rows_left_def b)
  ultimately show ?thesis using result seeds trans by blast
qed

lemma prepare_transition:
  assumes inv: "field_inv hard st S T" and b: "batches st = b # bs" and here: "pf_seedOffset st = length (ad_seeds b)"
    "pf_transitionOffset st < length (ad_transitions b)" and atom: "at_transition atom = Some (ad_transitions b ! pf_transitionOffset st)"
  shows "\<exists>st'. prepareRow hard (admitted_state st) atom = Returned st' \<and> field_inv hard st' S (insert (ad_transitions b ! pf_transitionOffset st) T) \<and>
    seeds_left st' = seeds_left st \<and> insert (ad_transitions b ! pf_transitionOffset st) T \<union> transitions_left st' = T \<union> transitions_left st \<and>
    rows_left st = Suc (rows_left st')"
proof -
  let ?adm = "admitted_state st" and ?i = "pf_seedOffset st" and ?j = "pf_transitionOffset st"
  let ?t = "ad_transitions b ! ?j"
  have ok: "batches_ok st" and solver: "solver_inv hard st S T" and vals: "values_inv hard (contract_grades st) (pf_values st)"
    and scale: "rows_ok (S \<union> seeds_left st) (T \<union> transitions_left st)" using inv by (simp_all add: field_inv_def)
  have seq: "seq_inv (pf_pending ?adm)" "seq_iterator (pf_pending ?adm) = b # bs"
    using admitted_state_batches [of st] ok b by (simp_all add: batches_ok_def)
  have off: "offset_ok b ?i ?j" using ok b by (simp add: batches_ok_def)
  have first: "seq_at (pf_pending ?adm) 0 = Some b" using sq.first_rows [OF seq(1)] seq(2) by simp
  have adm: "solver_inv hard ?adm S T" using solver by (rule solver_inv_fields [THEN iffD1, rotated -1]) (simp_all add: admitted_state_fields)
  let ?s = "admitTransition hard ?adm ?t"
  note s = admitTransition_inv [OF adm, of ?t]
  let ?n = "?s\<lparr>pf_transitionOffset := ?j + 1\<rparr>"
  have result: "prepareRow hard ?adm atom = Returned (finish_row b ?n)"
    using here by (simp add: prepareRow_def first present_def outcome_then_def admitted_state_fields atom)
  have n: "seq_inv (pf_pending ?n)" "seq_iterator (pf_pending ?n) = b # bs" "pf_deferred ?n = None" "pf_seedOffset ?n = ?i" "pf_transitionOffset ?n = ?j + 1"
    by (simp_all add: seq s admitted_state_fields)
  have inc: "\<forall>b' \<in> set (b # bs). incoming b'" using ok b by (simp add: batches_ok_def)
  have offs: "pf_seedOffset ?n \<le> length (ad_seeds b)" "pf_transitionOffset ?n \<le> length (ad_transitions b)"
    "0 < pf_transitionOffset ?n \<longrightarrow> pf_seedOffset ?n = length (ad_seeds b)"
    unfolding n(4,5) using off here by (auto simp: offset_ok_def)
  note fin = finish_row_batches [OF n(1-3) inc offs, unfolded n(4,5)]
  have "contract_grades (finish_row b ?n) = contract_grades st"
    by (rule contract_grades_fields) (simp add: finish_row_keeps s(2) admitted_state_fields)
  then have vals': "values_inv hard (contract_grades (finish_row b ?n)) (pf_values (finish_row b ?n))"
    using vals by (simp add: finish_row_keeps s(3) admitted_state_fields)
  have solver': "solver_inv hard (finish_row b ?n) S (insert ?t T)"
    using s(1) by (rule solver_inv_fields [THEN iffD1, rotated -1]) (simp_all add: finish_row_keeps)
  have trans: "insert ?t T \<union> transitions_left (finish_row b ?n) = T \<union> transitions_left st"
  proof -
    have "transitions_left st = insert ?t (left_transitions (b # bs) (?j + 1))" using left_transition [OF here(2), of bs] by (simp add: b)
    then show ?thesis unfolding fin(3) by blast
  qed
  have seeds: "seeds_left (finish_row b ?n) = seeds_left st" by (simp only: fin(2) b)
  have "field_inv hard (finish_row b ?n) S (insert ?t T)"
    unfolding field_inv_def seeds trans using solver' vals' fin(1) scale by blast
  moreover have "rows_left st = Suc (rows_left (finish_row b ?n))"
    using rows_left_step [OF off, of "?i + (?j + 1)" bs] fin(4) by (simp add: rows_left_def b)
  ultimately show ?thesis using result seeds trans by blast
qed

section \<open>Steps\<close>

lemma single_change:
  "distinct (map fst es) \<Longrightarrow>
     concat (map (\<lambda>(k, v). case [i \<mapsto> g] k of None \<Rightarrow> [] | Some h \<Rightarrow> [(k, h)]) es) = (if i \<in> fst ` set es then [(i, g)] else [])"
  by (induction es) (force split: if_splits)+

lemma changed_entries_single:
  assumes "pm_inv (mr_values r)" "pm_get (mr_values r) i = Some g" "mr_changedValues r = [i \<mapsto> g]"
  shows "changed_entries r = [(i, g)]"
proof -
  have "sorted_wrt (<) (map fst (entries (mr_values r)))" using pm.items_sorted [OF assms(1)] .
  then have "distinct (map fst (entries (mr_values r)))" by (simp add: strict_sorted_iff)
  moreover have "i \<in> fst ` set (entries (mr_values r))"
    using assms(2) pm.items_get [OF assms(1), of i] by (metis map_of_eq_None_iff option.distinct(1))
  ultimately show ?thesis unfolding changed_entries_def assms(3) by (subst single_change) simp_all
qed

lemma changed_entries_none: "mr_changedValues r = Map.empty \<Longrightarrow> changed_entries r = []"
  by (auto simp: changed_entries_def concat_eq_Nil_conv)

lemma atom_row: "at_seed (nextFieldGraphAtom st aux) = fst (next_row st)" "at_transition (nextFieldGraphAtom st aux) = snd (next_row st)"
  by (simp_all add: nextFieldGraphAtom_def Let_def split: prod.split)

lemma no_row:
  assumes "batches_ok st"
  shows "next_row st = (None, None) \<longleftrightarrow> batches st = [] \<or> \<not> (pf_next st = Prepare \<or> wq_size (pf_queue st) = 0)"
proof (cases "batches st")
  case Nil
  then show ?thesis using some_batch [of st] by (simp add: next_row_def)
next
  case (Cons b bs)
  show ?thesis
  proof (cases "pf_next st = Prepare \<or> wq_size (pf_queue st) = 0")
    case True
    from next_row_cases [OF assms True Cons] show ?thesis using True Cons by cases auto
  next
    case False
    then show ?thesis by (simp add: next_row_def)
  qed
qed

lemma complete_batches: "fieldGraphComplete st \<longleftrightarrow> batches st = [] \<and> wq_size (pf_queue st) = 0"
  using some_batch [of st] by (auto simp: fieldGraphComplete_def)

lemma row_step:
  assumes inv: "field_inv hard st S T" and row: "next_row st \<noteq> (None, None)" and bytes: "at_bytes (nextFieldGraphAtom st aux) \<le> available"
  shows "\<exists>st' S' T'. stepFieldGraph hard st available (nextFieldGraphAtom st aux) = Returned st' \<and> field_inv hard st' S' T' \<and>
    S' \<union> seeds_left st' = S \<union> seeds_left st \<and> T' \<union> transitions_left st' = T \<union> transitions_left st \<and>
    rows_left st = Suc (rows_left st') \<and> pf_next st' = Relax \<and>
    pf_retainedBytes st' = pf_retainedBytes st + at_bytes (nextFieldGraphAtom st aux)"
proof -
  let ?atom = "nextFieldGraphAtom st aux"
  have ok: "batches_ok st" using inv by (simp add: field_inv_def)
  have turn: "pf_next st = Prepare \<or> wq_size (pf_queue st) = 0" and "batches st \<noteq> []" using row no_row [OF ok] by auto
  then obtain b bs where b: "batches st = b # bs" by (cases "batches st") auto
  have started: "\<not> fieldGraphComplete st" using b by (simp add: complete_batches)
  let ?finish = "\<lambda>s. s\<lparr>pf_retainedBytes := pf_retainedBytes st + at_bytes ?atom, pf_next := Relax\<rparr>"
  have atom: "at_seed ?atom \<noteq> None \<or> at_transition ?atom \<noteq> None" using row by (cases "next_row st") (simp add: atom_row)
  have step: "stepFieldGraph hard st available ?atom = outcome_then (prepareRow hard (admitted_state st) ?atom) (\<lambda>s. Returned (?finish s))"
    using started bytes atom by (simp add: stepFieldGraph_def admitted_state_def Let_def cong: option.case_cong)
  have fin: "field_inv hard (?finish s) S' T' = field_inv hard s S' T'" "batches (?finish s) = batches s" "rows_left (?finish s) = rows_left s" for s S' T'
  proof -
    have "solver_inv hard (?finish s) S' T' = solver_inv hard s S' T'" by (rule solver_inv_fields) simp_all
    moreover have "contract_grades (?finish s) = contract_grades s" by (rule contract_grades_fields) simp
    moreover show b: "batches (?finish s) = batches s" by (simp add: batches_def)
    moreover have "batches_ok (?finish s) = batches_ok s" by (rule batches_fields) simp_all
    ultimately show "field_inv hard (?finish s) S' T' = field_inv hard s S' T'" by (simp add: field_inv_def)
    show "rows_left (?finish s) = rows_left s" by (simp add: rows_left_def b)
  qed
  from ok turn b show ?thesis
  proof (cases rule: next_row_cases)
    case seed
    have "at_seed ?atom = Some (ad_seeds b ! pf_seedOffset st)" using seed(2) by (simp add: atom_row)
    from prepare_seed [OF inv b seed(1) this] obtain s where
      "prepareRow hard (admitted_state st) ?atom = Returned s" "field_inv hard s (insert (ad_seeds b ! pf_seedOffset st) S) T"
      "insert (ad_seeds b ! pf_seedOffset st) S \<union> seeds_left s = S \<union> seeds_left st" "transitions_left s = transitions_left st"
      "rows_left st = Suc (rows_left s)" by blast
    then show ?thesis using fin [of s]
      by (intro exI [of _ "?finish s"] exI [of _ "insert (ad_seeds b ! pf_seedOffset st) S"] exI [of _ T]) (simp add: step outcome_then_def)
  next
    case transition
    have "at_transition ?atom = Some (ad_transitions b ! pf_transitionOffset st)" using transition(3) by (simp add: atom_row)
    from prepare_transition [OF inv b transition(1,2) this] obtain s where
      "prepareRow hard (admitted_state st) ?atom = Returned s" "field_inv hard s S (insert (ad_transitions b ! pf_transitionOffset st) T)"
      "seeds_left s = seeds_left st" "insert (ad_transitions b ! pf_transitionOffset st) T \<union> transitions_left s = T \<union> transitions_left st"
      "rows_left st = Suc (rows_left s)" by blast
    then show ?thesis using fin [of s]
      by (intro exI [of _ "?finish s"] exI [of _ S] exI [of _ "insert (ad_transitions b ! pf_transitionOffset st) T"]) (simp add: step outcome_then_def)
  qed
qed

lemma relax_turn:
  assumes inv: "field_inv hard st S T" and row: "next_row st = (None, None)" and busy: "\<not> fieldGraphComplete st"
    and bytes: "at_bytes (nextFieldGraphAtom st aux) \<le> available"
  shows "\<exists>st' rs. stepFieldGraph hard st available (nextFieldGraphAtom st aux) = Returned st' \<and> field_inv hard st' S T \<and>
    batches st' = batches st \<and> pf_seedOffset st' = pf_seedOffset st \<and> pf_transitionOffset st' = pf_transitionOffset st \<and>
    pf_next st' = Prepare \<and> pf_retainedBytes st' = pf_retainedBytes st + at_bytes (nextFieldGraphAtom st aux) \<and>
    relax_step (graph_edges st) (relax_start st) = Some rs \<and> pf_graph st' = pf_graph st \<and>
    pf_numericValues st' = rs_values rs \<and> pf_queue st' = rs_heap rs"
proof -
  let ?atom = "nextFieldGraphAtom st aux"
  have solver: "solver_inv hard st S T" and vals: "values_inv hard (contract_grades st) (pf_values st)" and ok: "batches_ok st"
    and scale: "rows_ok (S \<union> seeds_left st) (T \<union> transitions_left st)" using inv by (simp_all add: field_inv_def)
  have queued: "wq_size (pf_queue st) \<noteq> 0" using busy row no_row [OF ok] by (auto simp: complete_batches)
  have "wq_inv (pf_queue st)" using solver by (simp add: solver_inv_def stores_ok_def)
  from relax_startable [OF this queued] obtain rs where rs: "relax_step (graph_edges st) (relax_start st) = Some rs" by blast
  from solve_relax [OF rs] obtain r where r: "solveMaxMinField (solver_call st [] 1) = Returned r"
    "mr_values r = rs_values rs" "mr_workQueue r = rs_heap rs" "mr_changedValues r = rs_changed rs" by blast
  have relaxed: "solver_inv hard (st\<lparr>pf_numericValues := rs_values rs, pf_queue := rs_heap rs\<rparr>) S T" by (rule relax_grades [OF solver rs])
  have "\<exists>values changed. project_changes hard (pf_nodes st) (changed_entries r) (pf_values st, None) = Returned (values, changed) \<and>
    values_inv hard (\<lambda>p c. pm_get (rs_values rs) (partition_id c p)) values"
    using relax_changes [OF solver rs]
  proof (elim disjE exE conjE)
    assume "rs_values rs = pf_numericValues st" "rs_changed rs = Map.empty"
    then show ?thesis using vals changed_entries_none [of r] r(4) by (simp add: contract_grades_def [abs_def])
  next
    fix i g nd
    assume nd: "pm_get (pf_nodes st) i = Some nd" "i = partition_id (pn_contract nd) (pn_product nd)"
      and ch: "rs_changed rs = [i \<mapsto> g]" "pm_get (rs_values rs) = (pm_get (pf_numericValues st))(i \<mapsto> g)"
      and up: "\<forall>p. pm_get (pf_numericValues st) i = Some p \<longrightarrow> p < g"
    have "pm_inv (mr_values r)" using relaxed by (simp add: solver_inv_def stores_ok_def r(2))
    then have "changed_entries r = [(i, g)]" by (rule changed_entries_single) (simp_all add: r ch)
    then have proj: "project_changes hard (pf_nodes st) (changed_entries r) (pf_values st, None) =
      Returned (pv_with hard (pf_values st) nd g, Some (pn_product nd))" using nd(1) by (simp add: outcome_then_def present_def)
    have "\<forall>j h. pm_get (rs_values rs) j = Some h \<longrightarrow> (\<exists>c p. j = partition_id c p \<and> field_grade hard S T c p h)"
      using relaxed by (simp add: solver_inv_def grades_ok_def)
    moreover have "pm_get (rs_values rs) i = Some g" using ch(2) by simp
    ultimately have "\<exists>c p. field_grade hard S T c p g" by blast
    moreover have "\<forall>t \<in> T. 0 \<le> ft_strength_milligrades t" using scale by (simp add: rows_ok_def)
    ultimately have "0 \<le> g" using field_grade_scale by blast
    moreover have "p \<le> g" if "contract_grades st (pn_product nd) (pn_contract nd) = Some p" for p
      using that up nd(2) by (simp add: contract_grades_def less_imp_le)
    ultimately have "values_inv hard ((contract_grades st)(pn_product nd := (contract_grades st (pn_product nd))(pn_contract nd \<mapsto> g)))
      (pv_with hard (pf_values st) nd g)" using pv_with_inv [OF vals] by blast
    moreover have "(contract_grades st)(pn_product nd := (contract_grades st (pn_product nd))(pn_contract nd \<mapsto> g)) =
      (\<lambda>p c. pm_get (rs_values rs) (partition_id c p))"
      by (auto simp: fun_eq_iff contract_grades_def ch(2) nd(2) partition_inject)
    ultimately show ?thesis using proj by simp
  qed
  then obtain pv changed where proj: "project_changes hard (pf_nodes st) (changed_entries r) (pf_values st, None) = Returned (pv, changed)"
    "values_inv hard (\<lambda>p c. pm_get (rs_values rs) (partition_id c p)) pv" by blast
  let ?st = "st\<lparr>pf_numericValues := rs_values rs, pf_queue := rs_heap rs, pf_values := pv,
      pf_retainedBytes := pf_retainedBytes st + at_bytes ?atom, pf_changedProduct := changed, pf_next := Prepare\<rparr>"
  have step: "stepFieldGraph hard st available ?atom = Returned ?st"
    using busy bytes row r(1-3) proj(1) by (simp add: stepFieldGraph_def atom_row outcome_then_def)
  have same: "batches ?st = batches st" by (simp add: batches_def)
  have "solver_inv hard ?st S T" using relaxed by (rule solver_inv_fields [THEN iffD1, rotated -1]) simp_all
  moreover have "values_inv hard (contract_grades ?st) (pf_values ?st)" using proj(2) by (simp add: contract_grades_def [abs_def])
  moreover have "batches_ok ?st" using ok by (rule batches_fields(2) [THEN iffD1, rotated -1]) simp_all
  ultimately have "field_inv hard ?st S T" using scale unfolding field_inv_def same by simp
  then show ?thesis using step rs same by (intro exI [of _ ?st] exI [of _ rs]) simp
qed

section \<open>Runs\<close>

text \<open>
  Rows that give the same field: some are left out, but each of them is matched by a row of the same
  contract and product whose grade is at least as good.
\<close>

definition covers :: "string \<Rightarrow> seed_activation set \<Rightarrow> seed_activation set \<Rightarrow> bool" where
  "covers hard R S \<longleftrightarrow> R \<subseteq> S \<and> (\<forall>s \<in> S. \<exists>r \<in> R. seed_contract hard r = seed_contract hard s \<and> seed_product r = seed_product s \<and>
     sd_milligrades s \<le> sd_milligrades r)"

lemma covers_refl [simp]: "covers hard S S"
  by (auto simp: covers_def)

lemma covers_subset: "covers hard R S \<Longrightarrow> R \<subseteq> S"
  by (simp add: covers_def)

lemma covers_trans:
  assumes "covers hard Q R" "covers hard R S"
  shows "covers hard Q S"
proof -
  have "\<exists>q \<in> Q. seed_contract hard q = seed_contract hard s \<and> seed_product q = seed_product s \<and> sd_milligrades s \<le> sd_milligrades q"
    if "s \<in> S" for s
  proof -
    from assms(2) that obtain r where r: "r \<in> R" "seed_contract hard r = seed_contract hard s" "seed_product r = seed_product s"
      "sd_milligrades s \<le> sd_milligrades r" by (auto simp: covers_def)
    from assms(1) r(1) obtain q where "q \<in> Q" "seed_contract hard q = seed_contract hard r" "seed_product q = seed_product r"
      "sd_milligrades r \<le> sd_milligrades q" unfolding covers_def by blast
    with r show ?thesis by (intro bexI [of _ q]) auto
  qed
  then show ?thesis using covers_subset [OF assms(1)] covers_subset [OF assms(2)] unfolding covers_def by blast
qed

lemma covers_union: "covers hard R S \<Longrightarrow> covers hard (R \<union> A) (S \<union> A)"
  unfolding covers_def by blast

lemma clamp_grade_mono: "g \<le> h \<Longrightarrow> clamp_grade g \<le> clamp_grade h"
  by (simp add: clamp_grade_def Let_def)

lemma field_grade_covered:
  assumes "covers hard R S" "field_grade hard S T c p g"
  shows "\<exists>h \<ge> g. field_grade hard R T c p h"
  using assms(2)
proof (induction rule: field_grade.induct)
  case (seeded s)
  then obtain r where "r \<in> R" "seed_contract hard r = seed_contract hard s" "seed_product r = seed_product s"
    "sd_milligrades s \<le> sd_milligrades r" using assms(1) by (auto simp: covers_def)
  then show ?case using field_grade.seeded [of r R hard T] clamp_grade_mono by fastforce
next
  case (carried t g)
  then obtain h where "g \<le> h" "field_grade hard R T (transition_contract hard t) (canonicalProductIdentity (ft_from t)) h" by blast
  then show ?case using field_grade.carried [of hard R T t h] carried.hyps(2,3) by (intro exI [of _ "min h (ft_strength_milligrades t)"]) auto
qed

lemma best_grade_covered:
  assumes "covers hard R S"
  shows "best_grade hard R T c p v \<longleftrightarrow> best_grade hard S T c p v"
proof -
  have up: "field_grade hard S T c p g" if "field_grade hard R T c p g" for g
    using that covers_subset [OF assms] by (auto elim: field_grade_mono)
  have down: "\<exists>h \<ge> g. field_grade hard R T c p h" if "field_grade hard S T c p g" for g by (rule field_grade_covered [OF assms that])
  show ?thesis
  proof (cases v)
    case None
    then show ?thesis using up down by (auto simp: best_grade_def)
  next
    case (Some b)
    have "field_grade hard R T c p b" if b: "field_grade hard S T c p b" "\<forall>g. field_grade hard S T c p g \<longrightarrow> g \<le> b"
    proof -
      from down [OF b(1)] obtain h where h: "b \<le> h" "field_grade hard R T c p h" by blast
      with b(2) up have "h = b" by (intro antisym) auto
      with h show ?thesis by simp
    qed
    then show ?thesis using Some up down unfolding best_grade_def by (auto dest: order_trans)
  qed
qed

text \<open>
  A preparation in use: started from a batch, extended by batches, and stepped with any budget. The
  caller of an append passes the rows that a rebuild starts from, which cover all rows appended so far.
\<close>

inductive field_run :: "string \<Rightarrow> prepared_field_graph \<Rightarrow> seed_activation set \<Rightarrow> field_transition set \<Rightarrow> bool"
  for hard :: string where
  started: "field_run hard (appendFieldGraph None additions replacement) (set (ad_seeds additions)) (set (ad_transitions additions))"
| appended: "field_run hard st S T \<Longrightarrow> covers hard (set (ad_seeds replacement)) (S \<union> set (ad_seeds additions)) \<Longrightarrow>
    set (ad_transitions replacement) = T \<union> set (ad_transitions additions) \<Longrightarrow>
    field_run hard (appendFieldGraph (Some st) additions replacement) (S \<union> set (ad_seeds additions)) (T \<union> set (ad_transitions additions))"
| stepped: "field_run hard st S T \<Longrightarrow> stepFieldGraph hard st available (nextFieldGraphAtom st auxiliary) = Returned st' \<Longrightarrow>
    field_run hard st' S T"

lemma left_append:
  "bs = [] \<longrightarrow> i = 0 \<Longrightarrow> left_seeds (bs @ [b]) i = left_seeds bs i \<union> set (ad_seeds b)"
  "bs = [] \<longrightarrow> j = 0 \<Longrightarrow> left_transitions (bs @ [b]) j = left_transitions bs j \<union> set (ad_transitions b)"
  by (auto simp: left_seeds_def left_transitions_def split: list.split)

lemma empty_graph: "extendMaxMinGraph None [] [] = \<lparr>pg_nodeIds = Undef, pg_edges = Undef\<rparr>"
  by (simp add: extendMaxMinGraph_def)

lemma empty_solver_inv: "solver_inv hard empty_field_graph {} {}"
proof -
  have none: "pm_get Undef = Map.empty" by (simp add: fun_eq_iff)
  have "edges_wf (pm_get (Undef :: (string, (string, int) outgoing) pnode))" by (simp add: none)
  then show ?thesis
    by (simp add: solver_inv_def stores_ok_def nodes_ok_def grades_ok_def empty_field_graph_def empty_graph pg_wf_def
        queue_laws map_laws edge_of_def frontier_def none)
qed

lemma start_inv:
  assumes "rows_ok (set (ad_seeds a)) (set (ad_transitions a))"
  shows "field_inv hard (start_field_graph a) {} {} \<and> seeds_left (start_field_graph a) = set (ad_seeds a) \<and>
    transitions_left (start_field_graph a) = set (ad_transitions a)"
proof -
  let ?st = "start_field_graph a"
  have parts: "pf_pending ?st = seq_empty" "pf_deferred ?st = (if incoming a then Some a else None)" "pf_seedOffset ?st = 0"
    "pf_transitionOffset ?st = 0" "pf_numericValues ?st = Undef" "pf_values ?st = empty_values"
    by (simp_all add: start_field_graph_def empty_field_graph_def)
  have b: "batches ?st = (if incoming a then [a] else [])" by (simp add: batches_def parts)
  have rows: "seeds_left ?st = set (ad_seeds a)" "transitions_left ?st = set (ad_transitions a)"
    by (auto simp: b parts left_start incoming_def)
  have "solver_inv hard ?st {} {}" using empty_solver_inv
    by (rule solver_inv_fields [THEN iffD1, rotated -1]) (simp_all add: start_field_graph_def)
  moreover have "contract_grades ?st = (\<lambda>_ _. None)" by (simp add: contract_grades_def fun_eq_iff parts)
  moreover have "batches_ok ?st" using offset_start by (simp add: batches_ok_def b parts)
  ultimately show ?thesis unfolding field_inv_def rows using assms values_inv_empty by (simp add: parts)
qed

lemma append_inv:
  assumes inv: "field_inv hard st S T" and a: "incoming a" "pf_deferred st = None"
    and scale: "rows_ok (S \<union> seeds_left st \<union> set (ad_seeds a)) (T \<union> transitions_left st \<union> set (ad_transitions a))"
  defines "st' \<equiv> st\<lparr>pf_deferred := Some a\<rparr>"
  shows "field_inv hard st' S T \<and> seeds_left st' = seeds_left st \<union> set (ad_seeds a) \<and>
    transitions_left st' = transitions_left st \<union> set (ad_transitions a)"
proof -
  have ok: "batches_ok st" using inv by (simp add: field_inv_def)
  have b: "batches st' = batches st @ [a]" using a(2) by (simp add: st'_def batches_def)
  have off: "pf_seedOffset st' = pf_seedOffset st" "pf_transitionOffset st' = pf_transitionOffset st" "pf_pending st' = pf_pending st"
    by (simp_all add: st'_def)
  have none: "batches st = [] \<longrightarrow> pf_seedOffset st = 0" "batches st = [] \<longrightarrow> pf_transitionOffset st = 0"
    using ok by (auto simp: batches_ok_def)
  have rows: "seeds_left st' = seeds_left st \<union> set (ad_seeds a)" "transitions_left st' = transitions_left st \<union> set (ad_transitions a)"
    unfolding b off using left_append none by auto
  have "batches_ok st'"
  proof (cases "batches st")
    case Nil
    then show ?thesis using ok a offset_start unfolding batches_ok_def b off by simp
  next
    case (Cons b bs)
    then show ?thesis using ok a(1) unfolding batches_ok_def \<open>batches st' = batches st @ [a]\<close> off by simp
  qed
  moreover have "solver_inv hard st' S T"
    using inv unfolding field_inv_def by (auto simp: st'_def intro: solver_inv_fields [THEN iffD1, rotated -1])
  moreover have "contract_grades st' = contract_grades st" "pf_values st' = pf_values st"
    by (rule contract_grades_fields) (simp_all add: st'_def)
  ultimately show ?thesis using inv scale rows by (simp add: field_inv_def Un_assoc)
qed

lemma step_inv:
  assumes inv: "field_inv hard st S T"
  shows "\<exists>st' S' T'. stepFieldGraph hard st available (nextFieldGraphAtom st aux) = Returned st' \<and> field_inv hard st' S' T' \<and>
    S' \<union> seeds_left st' = S \<union> seeds_left st \<and> T' \<union> transitions_left st' = T \<union> transitions_left st"
proof (cases "fieldGraphComplete st \<or> \<not> at_bytes (nextFieldGraphAtom st aux) \<le> available")
  case True
  then show ?thesis using inv by (intro exI [of _ st]) (auto simp: stepFieldGraph_def)
next
  case False
  show ?thesis
  proof (cases "next_row st = (None, None)")
    case True
    then show ?thesis using relax_turn [OF inv True] False by metis
  next
    case row: False
    then show ?thesis using row_step [OF inv row] False by blast
  qed
qed

lemma field_run_inv:
  assumes "field_run hard st S T"
  shows "rows_ok S T \<Longrightarrow> \<exists>S0 T0. field_inv hard st S0 T0 \<and> covers hard (S0 \<union> seeds_left st) S \<and> T0 \<union> transitions_left st = T"
  using assms
proof (induction rule: field_run.induct)
  case (started additions replacement)
  then show ?case using start_inv [of additions hard]
    by (intro exI [of _ "{}"] exI [of _ "{}"]) (simp add: appendFieldGraph_def)
next
  case (appended st S T replacement additions)
  have "rows_ok S T" by (rule rows_ok_mono [OF appended.prems]) simp_all
  from appended.IH [OF this] obtain S0 T0 where
    0: "field_inv hard st S0 T0" "covers hard (S0 \<union> seeds_left st) S" "T0 \<union> transitions_left st = T" by blast
  show ?case
  proof (cases "incoming additions")
    case False
    then have "set (ad_seeds additions) = {}" "set (ad_transitions additions) = {}" by (auto simp: incoming_def)
    then show ?thesis using 0 False by (auto simp: appendFieldGraph_def)
  next
    case inc: True
    show ?thesis
    proof (cases "pf_deferred st")
      case None
      let ?st = "st\<lparr>pf_deferred := Some additions\<rparr>"
      have "rows_ok (S0 \<union> seeds_left st \<union> set (ad_seeds additions)) (T0 \<union> transitions_left st \<union> set (ad_transitions additions))"
        by (rule rows_ok_mono [OF appended.prems]) (use 0 covers_subset [OF 0(2)] in blast)+
      from append_inv [OF 0(1) inc None this] have st: "field_inv hard ?st S0 T0"
        "seeds_left ?st = seeds_left st \<union> set (ad_seeds additions)"
        "transitions_left ?st = transitions_left st \<union> set (ad_transitions additions)" by simp_all
      have "appendFieldGraph (Some st) additions replacement = ?st" using inc None by (simp add: appendFieldGraph_def)
      moreover have "covers hard (S0 \<union> seeds_left ?st) (S \<union> set (ad_seeds additions))"
        using covers_union [OF 0(2), of "set (ad_seeds additions)"] by (simp only: st(2) Un_assoc)
      moreover have "T0 \<union> transitions_left ?st = T \<union> set (ad_transitions additions)" unfolding st(3) using 0(3) by blast
      ultimately show ?thesis using st(1) by metis
    next
      case (Some d)
      let ?st = "(start_field_graph replacement)\<lparr>pf_retainedBytes := pf_retainedBytes st\<rparr>"
      have "rows_ok (set (ad_seeds replacement)) (set (ad_transitions replacement))"
        by (rule rows_ok_mono [OF appended.prems]) (use covers_subset [OF appended.hyps(2)] appended.hyps(3) in auto)
      from start_inv [OF this] have start: "field_inv hard (start_field_graph replacement) {} {}"
        "seeds_left (start_field_graph replacement) = set (ad_seeds replacement)"
        "transitions_left (start_field_graph replacement) = set (ad_transitions replacement)" by auto
      have "batches ?st = batches (start_field_graph replacement)" "batches_ok ?st = batches_ok (start_field_graph replacement)"
        by (rule batches_fields; simp)+
      moreover have "solver_inv hard ?st {} {} = solver_inv hard (start_field_graph replacement) {} {}" by (rule solver_inv_fields) simp_all
      moreover have "contract_grades ?st = contract_grades (start_field_graph replacement)" by (rule contract_grades_fields) simp
      ultimately have "field_inv hard ?st {} {}" "seeds_left ?st = set (ad_seeds replacement)" "transitions_left ?st = set (ad_transitions replacement)"
        using start by (simp_all add: field_inv_def)
      then show ?thesis using Some inc appended.hyps(2,3) by (intro exI [of _ "{}"]) (simp add: appendFieldGraph_def)
    qed
  qed
next
  case (stepped st S T available auxiliary st')
  then obtain S0 T0 where "field_inv hard st S0 T0" "covers hard (S0 \<union> seeds_left st) S" "T0 \<union> transitions_left st = T" by blast
  then show ?case using step_inv [of hard st S0 T0 available auxiliary] stepped.hyps(2) by (metis js_outcome.inject)
qed

section \<open>Enough steps complete\<close>

text \<open>Steps whose budget is just what they charge.\<close>

primrec funded_steps :: "string \<Rightarrow> nat \<Rightarrow> nat \<Rightarrow> prepared_field_graph \<Rightarrow> prepared_field_graph js_outcome" where
  "funded_steps hard aux 0 st = Returned st"
| "funded_steps hard aux (Suc n) st =
     outcome_then (stepFieldGraph hard st (at_bytes (nextFieldGraphAtom st aux)) (nextFieldGraphAtom st aux)) (funded_steps hard aux n)"

definition completes :: "string \<Rightarrow> nat \<Rightarrow> prepared_field_graph \<Rightarrow> bool" where
  "completes hard aux st \<longleftrightarrow> (\<exists>n st'. funded_steps hard aux n st = Returned st' \<and> fieldGraphComplete st')"

lemma completes_now: "fieldGraphComplete st \<Longrightarrow> completes hard aux st"
  unfolding completes_def by (intro exI [of _ 0]) simp

lemma completes_step:
  assumes step: "stepFieldGraph hard st (at_bytes (nextFieldGraphAtom st aux)) (nextFieldGraphAtom st aux) = Returned st'"
    and later: "completes hard aux st'"
  shows "completes hard aux st"
proof -
  from later obtain n t where "funded_steps hard aux n st' = Returned t" "fieldGraphComplete t" by (auto simp: completes_def)
  then have "funded_steps hard aux (Suc n) st = Returned t \<and> fieldGraphComplete t" using step by (simp add: outcome_then_def)
  then show ?thesis unfolding completes_def by blast
qed

text \<open>A step that is paid for. There is no infinite sequence of them.\<close>

definition paid_step :: "string \<Rightarrow> prepared_field_graph \<Rightarrow> prepared_field_graph \<Rightarrow> bool" where
  "paid_step hard st' st \<longleftrightarrow> \<not> fieldGraphComplete st \<and>
     (\<exists>aux. stepFieldGraph hard st (at_bytes (nextFieldGraphAtom st aux)) (nextFieldGraphAtom st aux) = Returned st')"

text \<open>With all rows admitted, the steps are the relaxation loop, which ends.\<close>

lemma relaxation_ends:
  assumes "relax_inv E V (pm_get (rs_values (relax_start st))) (relax_start st)" "graph_edges st = E" "field_inv hard st S T" "batches st = []"
  shows "Wellfounded.accp (paid_step hard) st"
  using assms
proof (induction "relax_start st" arbitrary: st rule: wf_induct_rule [OF relax.wf_rank [of E V]])
  case 1
  show ?case
  proof (rule accp.accI)
    fix st'
    assume "paid_step hard st' st"
    then obtain aux where busy: "\<not> fieldGraphComplete st"
      and step: "stepFieldGraph hard st (at_bytes (nextFieldGraphAtom st aux)) (nextFieldGraphAtom st aux) = Returned st'"
      by (auto simp: paid_step_def)
    have "next_row st = (None, None)" using "1.prems"(3,4) by (simp add: field_inv_def no_row)
    from relax_turn [OF "1.prems"(3) this busy order_refl, of aux] step obtain rs where
      st': "field_inv hard st' S T" "batches st' = batches st" "pf_graph st' = pf_graph st"
        "relax_step (graph_edges st) (relax_start st) = Some rs" "pf_numericValues st' = rs_values rs" "pf_queue st' = rs_heap rs"
      by auto
    from relax_step_inv [OF "1.prems"(1)] st'(4) "1.prems"(2) have
      rs: "relax_inv E V (pm_get (rs_values (relax_start st))) rs" "(rs, relax_start st) \<in> relax_rank E V" by blast+
    have start: "relax_start st' = \<lparr>rs_values = rs_values rs, rs_heap = rs_heap rs, rs_changed = Map.empty, rs_steps = 0\<rparr>"
      using st'(5,6) by (simp add: relax_start_def)
    have "relax_inv E V (pm_get (rs_values rs)) (relax_start st')" unfolding start by (rule relax_inv_resume [OF rs(1)])
    then have inv: "relax_inv E V (pm_get (rs_values (relax_start st'))) (relax_start st')" by (simp add: start)
    have "(relax_start st', relax_start st) \<in> relax_rank E V" using rs(2) by (simp add: start relax_rank_def)
    from "1.hyps" [OF this inv] show "Wellfounded.accp (paid_step hard) st'" using st' "1.prems"(2,4) by simp
  qed
qed

lemma admitted_ends:
  assumes inv: "field_inv hard st S T" and none: "batches st = []"
  shows "Wellfounded.accp (paid_step hard) st"
proof -
  have "stores_ok st" "frontier (graph_edges st) (pm_get (pf_numericValues st)) (wq_items (pf_queue st))"
    using inv by (simp_all add: field_inv_def solver_inv_def grades_ok_def)
  from relax_start_inv [OF this] have
    "relax_inv (graph_edges st) (pm_get (pf_numericValues st)) (pm_get (rs_values (relax_start st))) (relax_start st)"
    by (simp add: relax_start_def)
  from relaxation_ends [OF this refl inv none] show ?thesis .
qed

lemma rows_left_none:
  assumes "batches_ok st" "rows_left st = 0"
  shows "batches st = []"
proof (rule ccontr)
  assume "batches st \<noteq> []"
  then obtain b bs where b: "batches st = b # bs" by (cases "batches st") auto
  then have "offset_ok b (pf_seedOffset st) (pf_transitionOffset st)" using assms(1) by (simp add: batches_ok_def)
  then have "pf_seedOffset st + pf_transitionOffset st < batch_rows b" unfolding offset_ok_def batch_rows_def by presburger
  then show False using assms(2) b by (simp add: rows_left_def)
qed

text \<open>With rows left, every other step at least admits one.\<close>

lemma field_ends: "field_inv hard st S T \<Longrightarrow> Wellfounded.accp (paid_step hard) st"
proof (induction "rows_left st" arbitrary: st S T)
  case 0
  then have "batches st = []" using rows_left_none [of st] by (simp add: field_inv_def)
  then show ?case by (rule admitted_ends [OF "0.prems"])
next
  case (Suc n)
  have row: "Wellfounded.accp (paid_step hard) st" if st: "field_inv hard st S T" "next_row st \<noteq> (None, None)" "rows_left st = Suc n" for st S T
  proof (rule accp.accI)
    fix st'
    assume "paid_step hard st' st"
    then obtain aux where
      step: "stepFieldGraph hard st (at_bytes (nextFieldGraphAtom st aux)) (nextFieldGraphAtom st aux) = Returned st'"
      by (auto simp: paid_step_def)
    from row_step [OF st(1,2) order_refl, of aux] step obtain S' T' where "field_inv hard st' S' T'" "rows_left st = Suc (rows_left st')"
      by auto
    then show "Wellfounded.accp (paid_step hard) st'" using Suc.hyps(1) [of st' S' T'] st(3) by simp
  qed
  show ?case
  proof (cases "next_row st = (None, None)")
    case False
    then show ?thesis using row Suc.prems Suc.hyps(2) by simp
  next
    case none: True
    show ?thesis
    proof (rule accp.accI)
      fix st'
      assume "paid_step hard st' st"
      then obtain aux where busy: "\<not> fieldGraphComplete st"
        and step: "stepFieldGraph hard st (at_bytes (nextFieldGraphAtom st aux)) (nextFieldGraphAtom st aux) = Returned st'"
        by (auto simp: paid_step_def)
      from relax_turn [OF Suc.prems none busy order_refl, of aux] step have
        st': "field_inv hard st' S T" "batches st' = batches st" "pf_seedOffset st' = pf_seedOffset st"
          "pf_transitionOffset st' = pf_transitionOffset st" "pf_next st' = Prepare" by auto
      have left: "rows_left st' = Suc n" using st' Suc.hyps(2) by (simp add: rows_left_def)
      then have "batches st' \<noteq> []" by (auto simp: rows_left_def)
      then have "next_row st' \<noteq> (None, None)" using st'(1,5) by (simp add: field_inv_def no_row)
      then show "Wellfounded.accp (paid_step hard) st'" using row [OF st'(1) _ left] by blast
    qed
  qed
qed

lemma field_completes:
  assumes "field_inv hard st S T"
  shows "completes hard aux st"
  using field_ends [OF assms] assms
proof (induction arbitrary: S T rule: accp_induct_rule)
  case (1 st)
  show ?case
  proof (cases "fieldGraphComplete st")
    case False
    from step_inv [OF "1.prems"] obtain st' S' T' where
      st': "stepFieldGraph hard st (at_bytes (nextFieldGraphAtom st aux)) (nextFieldGraphAtom st aux) = Returned st'"
      "field_inv hard st' S' T'" by blast
    then have "completes hard aux st'" using "1.IH" [of st' S' T'] False by (auto simp: paid_step_def)
    then show ?thesis by (rule completes_step [OF st'(1)])
  qed (rule completes_now)
qed

section \<open>Properties\<close>

lemma run_field_inv:
  assumes "field_run hard st S T" "rows_ok S T"
  obtains S0 T0 where "field_inv hard st S0 T0" "S0 \<subseteq> S" "T0 \<subseteq> T"
  using field_run_inv [OF assms] covers_subset by blast

lemma complete_run_field:
  assumes "field_run hard st S T" "rows_ok S T" "fieldGraphComplete st"
  shows "best_grade hard S T c p (contract_grades st p c)" "values_inv hard (contract_grades st) (pf_values st)"
proof -
  obtain S0 T0 where inv: "field_inv hard st S0 T0" "covers hard (S0 \<union> seeds_left st) S" "T0 \<union> transitions_left st = T"
    using field_run_inv [OF assms(1,2)] by blast
  have "batches st = []" "wq_size (pf_queue st) = 0" using assms(3) by (simp_all add: complete_batches)
  then have left: "seeds_left st = {}" "transitions_left st = {}" by (simp_all add: left_seeds_def left_transitions_def)
  have "wq_inv (pf_queue st)" using inv(1) by (simp add: field_inv_def solver_inv_def stores_ok_def)
  then have "wq_items (pf_queue st) = {#}" using \<open>wq_size (pf_queue st) = 0\<close> by (simp add: queue_laws)
  then have "best_grade hard S0 T0 c p (contract_grades st p c)"
    using solver_inv_field [of hard st S0 T0] inv(1) by (simp add: field_inv_def contract_grades_def)
  then show "best_grade hard S T c p (contract_grades st p c)" using best_grade_covered inv(2,3) left by simp
  show "values_inv hard (contract_grades st) (pf_values st)" using inv(1) by (simp add: field_inv_def)
qed

lemma funded_run:
  "funded_steps hard aux n st = Returned st' \<Longrightarrow> field_run hard st S T \<Longrightarrow> field_run hard st' S T"
  by (induction n arbitrary: st) (auto simp: outcome_then_def intro: field_run.stepped split: js_outcome.splits)

lemma values_invD:
  assumes "values_inv hard F pv"
  shows "pv_get pv p = product_value hard (F p)" "pv_conflicted pv p \<longleftrightarrow> contract_conflict hard (F p)"
    "pv_size pv = int (card {p. product_value hard (F p) \<noteq> None})" "pv_conflictCount pv = int (card {p. contract_conflict hard (F p)})"
proof -
  show get: "pv_get pv p = product_value hard (F p)" for p
    using assms row_tracks_value(1) [of hard "F p" "row_at pv p"] by (simp add: values_inv_def row_at_reads)
  show con: "pv_conflicted pv p \<longleftrightarrow> contract_conflict hard (F p)" for p
    using assms row_tracks_value(2) [of hard "F p" "row_at pv p"] by (simp add: values_inv_def row_at_reads)
  show "pv_size pv = int (card {p. product_value hard (F p) \<noteq> None})" "pv_conflictCount pv = int (card {p. contract_conflict hard (F p)})"
    using assms by (simp_all add: values_inv_def pv_has_def get con)
qed

lemma run_completes:
  assumes "field_run hard st S T" "rows_ok S T"
  shows "\<exists>n st'. funded_steps hard aux n st = Returned st' \<and> fieldGraphComplete st' \<and> field_run hard st' S T"
proof -
  obtain S0 T0 where "field_inv hard st S0 T0" by (rule run_field_inv [OF assms])
  then have "completes hard aux st" by (rule field_completes)
  then show ?thesis using funded_run [OF _ assms(1)] unfolding completes_def by blast
qed

text \<open>A seed of grade 500 at one product and an edge of strength 300 to another.\<close>

definition sample_key :: "string \<Rightarrow> product_state_key" where
  "sample_key name =
     \<lparr>ps_target = MemoryEntryTarget \<lparr>mt_workspace_id = ''w'', mt_object_id = name, mt_source_revision = ''1''\<rparr>,
      ps_program_state = ''accepting'', ps_hypothesis_id = ''h'', ps_binding_context = ''unbound'', ps_time_state = ''t'',
      ps_interpretation_node = None\<rparr>"

definition sample_seed :: "string \<Rightarrow> int \<Rightarrow> seed_activation" where
  "sample_seed name grade = \<lparr>sd_state = sample_key name, sd_milligrades = grade, sd_cap_contract_id = None\<rparr>"

definition sample_edge :: field_transition where
  "sample_edge = \<lparr>ft_from = sample_key ''a'', ft_to = sample_key ''b'', ft_strength_milligrades = 300, ft_applicable = True,
     ft_cap_contract_id = None\<rparr>"

definition sample_batch :: field_additions where
  "sample_batch = \<lparr>ad_seeds = [sample_seed ''a'' 500], ad_transitions = [sample_edge]\<rparr>"

lemma sample_rows: "rows_ok (set (ad_seeds sample_batch)) (set (ad_transitions sample_batch))"
  by (simp add: rows_ok_def sample_batch_def sample_seed_def sample_edge_def)

lemma sample_run:
  "field_run ''h'' (appendFieldGraph None sample_batch sample_batch) (set (ad_seeds sample_batch)) (set (ad_transitions sample_batch))"
  by (rule field_run.started)

lemma sample_grades:
  assumes "field_grade ''h'' (set (ad_seeds sample_batch)) (set (ad_transitions sample_batch)) c p g"
  shows "c = ''h'' \<and> (p = canonicalProductIdentity (sample_key ''b'') \<longrightarrow> g \<le> 300)"
  using assms
proof (induction rule: field_grade.induct)
  case (seeded s)
  then show ?case
    by (auto simp: sample_batch_def sample_seed_def seed_contract_def seed_product_def normalize_contract_def
        canonicalProductIdentity_inject sample_key_def)
next
  case (carried t g)
  then show ?case by (auto simp: sample_batch_def sample_edge_def transition_contract_def normalize_contract_def)
qed

lemma soft_none:
  assumes "\<And>c. c \<noteq> hard \<Longrightarrow> f c = None"
  shows "soft_contracts hard f = {}"
proof -
  have "c \<notin> soft_contracts hard f" for c
  proof (cases "c = hard")
    case False
    from assms [OF this] show ?thesis by (simp add: soft_contracts_def)
  qed (simp add: soft_contracts_def)
  then show ?thesis by (intro equals0I) blast
qed

lemma sample_best:
  assumes "\<And>p c. best_grade ''h'' (set (ad_seeds sample_batch)) (set (ad_transitions sample_batch)) c p (f p c)"
  shows "product_value ''h'' (f (canonicalProductIdentity (sample_key ''b''))) = Some 300"
proof -
  let ?S = "set (ad_seeds sample_batch)" and ?T = "set (ad_transitions sample_batch)"
  have "field_grade ''h'' ?S ?T ''h'' (canonicalProductIdentity (sample_key ''a'')) 500"
    using field_grade.seeded [of "sample_seed ''a'' 500" ?S "''h''" ?T]
    by (simp add: sample_batch_def sample_seed_def seed_contract_def seed_product_def normalize_contract_def clamp_grade_id)
  then have "field_grade ''h'' ?S ?T ''h'' (canonicalProductIdentity (sample_key ''b'')) 300"
    using field_grade.carried [of "''h''" ?S ?T sample_edge 500]
    by (simp add: sample_batch_def sample_edge_def transition_contract_def normalize_contract_def)
  then have "best_grade ''h'' ?S ?T ''h'' (canonicalProductIdentity (sample_key ''b'')) (Some 300)"
    using sample_grades by (auto simp: best_grade_def)
  from best_grade_unique [OF assms this] have b: "f (canonicalProductIdentity (sample_key ''b'')) ''h'' = Some 300" .
  have "f p c = None" if "c \<noteq> ''h''" for p c
    using assms [of c p] sample_grades [of c p] that by (auto simp: best_grade_def split: option.splits)
  then have "soft_contracts ''h'' (f p) = {}" for p by (rule soft_none)
  then show ?thesis by (simp add: product_value_def b)
qed

text \<open>C1: 
  the incremental evaluation computes the field: whatever the batches, the order of the steps, the
  budgets that interrupted them and the rebuilds, a complete preparation holds, for every contract and
  product, the best grade that all rows ever appended give, and nothing where they give none; a product
  shows the value its contracts give it, is in conflict when two soft contracts reach it, and both are
  counted.
\<close>

theorem complete_preparation_is_the_field:
  assumes "field_run hard st S T" "rows_ok S T" "fieldGraphComplete st"
  shows "\<exists>f. (\<forall>p c. best_grade hard S T c p (f p c)) \<and>
    (\<forall>p c. pm_get (pf_numericValues st) (partition_id c p) = f p c) \<and>
    (\<forall>p. pv_get (pf_values st) p = product_value hard (f p) \<and> (pv_conflicted (pf_values st) p \<longleftrightarrow> contract_conflict hard (f p))) \<and>
    pv_size (pf_values st) = int (card {p. product_value hard (f p) \<noteq> None}) \<and>
    pv_conflictCount (pf_values st) = int (card {p. contract_conflict hard (f p)})"
proof -
  note field = complete_run_field [OF assms]
  then show ?thesis
    using values_invD [of hard "contract_grades st" "pf_values st"] by (intro exI [of _ "contract_grades st"]) (simp add: contract_grades_def)
qed

lemma complete_preparation_is_the_field_witness:
  "\<exists>st. fieldGraphComplete st \<and> pv_get (pf_values st) (canonicalProductIdentity (sample_key ''b'')) = Some 300"
proof -
  from run_completes [OF sample_run sample_rows, of 0] obtain st where
    st: "fieldGraphComplete st" "field_run ''h'' st (set (ad_seeds sample_batch)) (set (ad_transitions sample_batch))" by blast
  from complete_preparation_is_the_field [OF st(2) sample_rows st(1)] sample_best show ?thesis using st(1) by metis
qed

text \<open>C0: 
  a preparation is never stuck: from every state of a run, steps that are given just the memory they
  charge neither throw nor go on for ever; they reach a complete preparation.
\<close>

theorem funded_steps_complete:
  assumes "field_run hard st S T" "rows_ok S T"
  shows "\<exists>n st'. funded_steps hard aux n st = Returned st' \<and> fieldGraphComplete st' \<and> field_run hard st' S T"
  by (rule run_completes [OF assms])

lemma funded_steps_complete_witness:
  "\<exists>n st'. funded_steps ''h'' 0 n (appendFieldGraph None sample_batch sample_batch) = Returned st' \<and> fieldGraphComplete st'"
  using funded_steps_complete [OF sample_run sample_rows, of 0] by blast

text \<open>C22: 
  before it is complete a preparation never overstates: every step of a run returns, every value is a
  grade that the rows appended so far give, and the projection shows exactly the values held.
\<close>

theorem running_preparation_is_sound:
  assumes "field_run hard st S T" "rows_ok S T"
  shows "(\<exists>st'. stepFieldGraph hard st available (nextFieldGraphAtom st aux) = Returned st') \<and>
    {(c, p, g). pm_get (pf_numericValues st) (partition_id c p) = Some g} \<subseteq> {(c, p, g). field_grade hard S T c p g} \<and>
    pv_get (pf_values st) q = product_value hard (contract_grades st q) \<and>
    (pv_conflicted (pf_values st) q \<longleftrightarrow> contract_conflict hard (contract_grades st q))"
proof -
  obtain S0 T0 where inv: "field_inv hard st S0 T0" "S0 \<subseteq> S" "T0 \<subseteq> T" by (rule run_field_inv [OF assms])
  have "field_grade hard S T c p g" if "pm_get (pf_numericValues st) (partition_id c p) = Some g" for c p g
  proof -
    have "\<exists>d q. partition_id c p = partition_id d q \<and> field_grade hard S0 T0 d q g"
      using inv(1) that unfolding field_inv_def solver_inv_def grades_ok_def by blast
    then show ?thesis using field_grade_mono [OF _ inv(2,3)] by (auto simp: partition_inject)
  qed
  moreover have "values_inv hard (contract_grades st) (pf_values st)" using inv(1) by (simp add: field_inv_def)
  ultimately show ?thesis using step_inv [OF inv(1), of available aux] values_invD(1,2) [of hard "contract_grades st" "pf_values st" q] by auto
qed

lemma running_preparation_is_sound_witness:
  "(\<exists>st'. stepFieldGraph ''h'' (appendFieldGraph None sample_batch sample_batch) 5000
      (nextFieldGraphAtom (appendFieldGraph None sample_batch sample_batch) 0) = Returned st') \<and>
   pv_get (pf_values (appendFieldGraph None sample_batch sample_batch)) ''p'' =
     product_value ''h'' (contract_grades (appendFieldGraph None sample_batch sample_batch) ''p'')"
  using running_preparation_is_sound [OF sample_run sample_rows, of 5000 0 "''p''"] by blast

text \<open>C0: 
  the values do not depend on the order of arrival: two complete preparations of the same rows show the
  same value and the same conflict for every product, and count the same values and conflicts.
\<close>

theorem arrival_order_does_not_matter:
  assumes "field_run hard st S T" "fieldGraphComplete st" "field_run hard st' S T" "fieldGraphComplete st'" "rows_ok S T"
  shows "pv_get (pf_values st) = pv_get (pf_values st') \<and> pv_conflicted (pf_values st) = pv_conflicted (pf_values st') \<and>
    pv_size (pf_values st) = pv_size (pf_values st') \<and> pv_conflictCount (pf_values st) = pv_conflictCount (pf_values st')"
proof -
  have best: "best_grade hard S T c p (contract_grades s p c)" if "field_run hard s S T" "fieldGraphComplete s" for s p c
    by (rule complete_run_field(1) [OF that(1) assms(5) that(2)])
  have "contract_grades st p c = contract_grades st' p c" for p c
    using best [OF assms(1,2), of c p] best [OF assms(3,4), of c p] by (rule best_grade_unique)
  then have same: "contract_grades st = contract_grades st'" by (simp add: fun_eq_iff)
  have "values_inv hard (contract_grades s) (pf_values s)" if "field_run hard s S T" "fieldGraphComplete s" for s
    by (rule complete_run_field(2) [OF that(1) assms(5) that(2)])
  from values_invD [OF this [OF assms(1,2)]] values_invD [OF this [OF assms(3,4)]] show ?thesis
    unfolding same by (auto simp: fun_eq_iff)
qed

lemma arrival_order_does_not_matter_witness:
  "\<exists>n m st st'. funded_steps ''h'' 0 n (appendFieldGraph None sample_batch sample_batch) = Returned st \<and>
    funded_steps ''h'' 0 m (appendFieldGraph (Some (appendFieldGraph None \<lparr>ad_seeds = [], ad_transitions = [sample_edge]\<rparr> sample_batch))
      \<lparr>ad_seeds = [sample_seed ''a'' 500], ad_transitions = []\<rparr> sample_batch) = Returned st' \<and>
    fieldGraphComplete st \<and> fieldGraphComplete st' \<and> pv_get (pf_values st) = pv_get (pf_values st')"
proof -
  let ?two = "appendFieldGraph (Some (appendFieldGraph None \<lparr>ad_seeds = [], ad_transitions = [sample_edge]\<rparr> sample_batch))
      \<lparr>ad_seeds = [sample_seed ''a'' 500], ad_transitions = []\<rparr> sample_batch"
  have "field_run ''h'' ?two (set (ad_seeds sample_batch)) (set (ad_transitions sample_batch))"
    using field_run.appended [OF field_run.started [of "''h''" "\<lparr>ad_seeds = [], ad_transitions = [sample_edge]\<rparr>" sample_batch],
        of sample_batch "\<lparr>ad_seeds = [sample_seed ''a'' 500], ad_transitions = []\<rparr>"]
    by (simp add: sample_batch_def)
  from run_completes [OF this sample_rows, of 0] obtain m st' where
    2: "funded_steps ''h'' 0 m ?two = Returned st'" "fieldGraphComplete st'"
      "field_run ''h'' st' (set (ad_seeds sample_batch)) (set (ad_transitions sample_batch))" by blast
  from run_completes [OF sample_run sample_rows, of 0] obtain n st where
    1: "funded_steps ''h'' 0 n (appendFieldGraph None sample_batch sample_batch) = Returned st" "fieldGraphComplete st"
      "field_run ''h'' st (set (ad_seeds sample_batch)) (set (ad_transitions sample_batch))" by blast
  from arrival_order_does_not_matter [OF 1(3,2) 2(3,2) sample_rows] show ?thesis using 1 2 by blast
qed

end
