(* ===== verification/ResidualInfluence.thy ===== *)
theory ResidualInfluence
  imports Prelude
begin

text \<open>
  What an open coverage region may still change of a result
  (\<^verbatim>\<open>core/src/recall/conditional-field/index/residual-influence.ts\<close>): its role, its semantic effects, the
  influence it has in the presence of a closure certificate, and the upper bound the residual regions
  put on a grade. The regions are those of \<^verbatim>\<open>protocol/src/recall/conditional-field/observer.ts\<close>.
\<close>

section \<open>Coverage regions\<close>

datatype region_kind = Seed_region | Adjacency_region | Guard_region | Binding_region | Discovery_region
  | Hypothesis_region | Program_branch_region | Source_domain_region | Output_obligation_region
  | Cursor_region | Certificate_region

datatype observer_status = Exhausted | Open_status | Unavailable | Interrupted | Invalidated | Not_applicable
  | Cancelled | Unknown_status

datatype semantic_effect = Membership | Grade_bound | Claim | Explanation | Order | Payload | Refutation | Validity
  | Interpretation_effect

datatype coverage_role = Required | Optional_accelerator

datatype residual_influence = Influential | Irrelevant | Unresolved

text \<open>The fields of a region that the classification reads.\<close>

record coverage_region =
  cr_region_id :: string
  cr_kind :: region_kind
  cr_status :: observer_status
  cr_conservative_bound_milligrades :: "int option"
  cr_high_milligrades :: "int option"
  cr_coverage_role :: "coverage_role option"
  cr_semantic_effects :: "semantic_effect list option"

text \<open>Of a certificate only the effects it closes matter here.\<close>

record closure_certificate =
  cc_closed_effects :: "semantic_effect list"

record residual_context =
  rc_certificate :: "closure_certificate option"

section \<open>Classification\<close>

definition coverageRoleOf :: "coverage_region \<Rightarrow> coverage_role" where
  "coverageRoleOf region =
     (case cr_coverage_role region of
        Some r \<Rightarrow> r
      | None \<Rightarrow> if cr_kind region = Discovery_region then Optional_accelerator else Required)"

definition semanticEffectsOf :: "coverage_region \<Rightarrow> semantic_effect list" where
  "semanticEffectsOf region =
     (case cr_semantic_effects region of
        Some (e # es) \<Rightarrow> e # es
      | _ \<Rightarrow>
          if cr_kind region = Guard_region then [Validity, Membership]
          else if cr_kind region = Cursor_region then [Membership, Order]
          else if cr_kind region = Hypothesis_region \<or> cr_kind region = Program_branch_region
            then [Membership, Interpretation_effect]
          else if cr_kind region = Output_obligation_region then [Membership]
          else if cr_kind region = Certificate_region then []
          else [Membership, Grade_bound])"

definition membershipCoveredByCertificate :: "residual_context \<Rightarrow> semantic_effect option \<Rightarrow> bool" where
  "membershipCoveredByCertificate context effect =
     (case rc_certificate context of
        None \<Rightarrow> False
      | Some certificate \<Rightarrow>
          (case effect of
             Some e \<Rightarrow>
               if e \<in> {Grade_bound, Order, Claim, Refutation, Explanation, Payload, Validity}
               then e \<in> set (cc_closed_effects certificate)
               else Membership \<in> set (cc_closed_effects certificate)
           | None \<Rightarrow> Membership \<in> set (cc_closed_effects certificate)))"

definition status_influence :: "coverage_region \<Rightarrow> residual_influence" where
  "status_influence region =
     (if cr_status region = Unknown_status \<or> cr_status region = Unavailable
      then (if coverageRoleOf region = Required then Unresolved else Influential)
      else if cr_status region = Open_status \<or> cr_status region = Interrupted \<or> cr_status region = Cancelled
        \<or> cr_status region = Invalidated then Influential
      else Irrelevant)"

definition classifyResidualInfluence ::
  "coverage_region \<Rightarrow> residual_context \<Rightarrow> semantic_effect option \<Rightarrow> residual_influence" where
  "classifyResidualInfluence region context effect =
     (case effect of
        Some e \<Rightarrow>
          if e \<notin> set (semanticEffectsOf region) then Irrelevant
          else if coverageRoleOf region = Optional_accelerator \<and> membershipCoveredByCertificate context effect
            \<and> cr_status region \<noteq> Open_status \<and> cr_status region \<noteq> Interrupted \<and> cr_status region \<noteq> Invalidated
            \<and> (e = Membership \<or> e = Interpretation_effect) then Irrelevant
          else status_influence region
      | None \<Rightarrow>
          if coverageRoleOf region = Optional_accelerator \<and> membershipCoveredByCertificate context None
            \<and> cr_status region \<noteq> Open_status \<and> cr_status region \<noteq> Interrupted \<and> cr_status region \<noteq> Invalidated
          then (if Grade_bound \<in> set (semanticEffectsOf region) \<or> Order \<in> set (semanticEffectsOf region)
                then Influential else Irrelevant)
          else status_influence region)"

definition residualAffectsGrade :: "coverage_region \<Rightarrow> bool" where
  "residualAffectsGrade region \<longleftrightarrow>
     Grade_bound \<in> set (semanticEffectsOf region) \<or> Membership \<in> set (semanticEffectsOf region)"

definition residualsInvalidateBounds :: "coverage_region list \<Rightarrow> bool" where
  "residualsInvalidateBounds residuals =
     list_ex (\<lambda>region. cr_status region = Invalidated \<and> residualAffectsGrade region) residuals"

definition sufficientAlternatePaths :: "coverage_region list \<Rightarrow> closure_certificate option \<Rightarrow> bool" where
  "sufficientAlternatePaths residuals certificate =
     membershipCoveredByCertificate \<lparr>rc_certificate = certificate\<rparr> (Some Membership)"

section \<open>The upper bound\<close>

definition MILLIGRADE_BOTTOM :: int where "MILLIGRADE_BOTTOM = 0"

definition MILLIGRADE_TOP :: int where "MILLIGRADE_TOP = 1000"

definition region_bound :: "coverage_region \<Rightarrow> int" where
  "region_bound region =
     (case cr_conservative_bound_milligrades region of
        Some b \<Rightarrow> b
      | None \<Rightarrow> (case cr_high_milligrades region of Some b \<Rightarrow> b | None \<Rightarrow> MILLIGRADE_TOP))"

definition raise_upper :: "residual_context \<Rightarrow> coverage_region \<Rightarrow> int option \<Rightarrow> int option" where
  "raise_upper context region upper =
     (if classifyResidualInfluence region context (Some Grade_bound) = Irrelevant
        \<and> classifyResidualInfluence region context (Some Membership) = Irrelevant then upper
      else if \<not> residualAffectsGrade region then upper
      else Some (case upper of None \<Rightarrow> region_bound region | Some u \<Rightarrow> max u (region_bound region)))"

definition residualGradeUpper :: "coverage_region list \<Rightarrow> residual_context \<Rightarrow> int option" where
  "residualGradeUpper residuals context =
     (if residualsInvalidateBounds residuals then Some MILLIGRADE_TOP
      else fold (raise_upper context) residuals None)"

section \<open>What the bound promises\<close>

text \<open>A region that may still change a grade.\<close>

definition may_change_grade :: "residual_context \<Rightarrow> coverage_region \<Rightarrow> bool" where
  "may_change_grade ctx region \<longleftrightarrow>
     classifyResidualInfluence region ctx (Some Grade_bound) \<noteq> Irrelevant \<or>
     classifyResidualInfluence region ctx (Some Membership) \<noteq> Irrelevant"

lemma influence_affects: "classifyResidualInfluence region ctx (Some e) \<noteq> Irrelevant \<Longrightarrow> e \<in> set (semanticEffectsOf region)"
  by (auto simp: classifyResidualInfluence_def split: if_splits)

lemma raise_upper_cases:
  "raise_upper ctx region upper =
     (if may_change_grade ctx region
      then Some (case upper of None \<Rightarrow> region_bound region | Some u \<Rightarrow> max u (region_bound region)) else upper)"
  using influence_affects [of region ctx Grade_bound] influence_affects [of region ctx Membership]
  by (auto simp: raise_upper_def may_change_grade_def residualAffectsGrade_def)

lemma Max_insert_max:
  fixes a b :: "'a::linorder"
  assumes "finite A"
  shows "Max (insert (max a b) A) = max a (Max (insert b A))"
  using assms by (cases "A = {}") (simp_all add: max.assoc)

lemma raise_upper_fold:
  "fold (raise_upper ctx) rs upper =
     (let B = region_bound ` {r \<in> set rs. may_change_grade ctx r} in
      case upper of None \<Rightarrow> if B = {} then None else Some (Max B) | Some u \<Rightarrow> Some (Max (insert u B)))"
proof (induction rs arbitrary: upper)
  case (Cons r rs)
  have "{x \<in> set (r # rs). may_change_grade ctx x} =
      (if may_change_grade ctx r then insert r {x \<in> set rs. may_change_grade ctx x} else {x \<in> set rs. may_change_grade ctx x})" by auto
  then show ?case
    using Cons by (cases "may_change_grade ctx r"; cases upper) (simp_all add: raise_upper_cases Let_def Max_insert_max)
qed (simp split: option.split)

definition regions_ok :: "coverage_region list \<Rightarrow> bool" where
  "regions_ok rs = list_all (\<lambda>r. 0 \<le> region_bound r \<and> region_bound r \<le> 1000) rs"

text \<open>C0: 
  the residual bound is the least one that covers the open regions: it is absent exactly when no region
  can still change a grade, otherwise it is the greatest bound of the regions that can, and the top of
  the scale as soon as an observation that bears on grades was invalidated.
\<close>

theorem residual_upper_is_least_cover:
  "residualGradeUpper rs ctx =
     (if {r \<in> set rs. may_change_grade ctx r} = {} then None
      else Some (if residualsInvalidateBounds rs then 1000 else Max (region_bound ` {r \<in> set rs. may_change_grade ctx r})))"
proof (cases "residualsInvalidateBounds rs")
  case True
  then obtain r where "r \<in> set rs" "cr_status r = Invalidated" "residualAffectsGrade r"
    by (auto simp: residualsInvalidateBounds_def list_ex_iff)
  then have "r \<in> {r \<in> set rs. may_change_grade ctx r}"
    by (auto simp: may_change_grade_def residualAffectsGrade_def classifyResidualInfluence_def status_influence_def)
  then have "{r \<in> set rs. may_change_grade ctx r} \<noteq> {}" by blast
  with True show ?thesis by (simp add: residualGradeUpper_def MILLIGRADE_TOP_def)
next
  case False
  then show ?thesis by (simp add: residualGradeUpper_def raise_upper_fold Let_def)
qed

lemma residualGradeUpper_scale:
  assumes ok: "regions_ok rs" and u: "residualGradeUpper rs ctx = Some u"
  shows "0 \<le> u \<and> u \<le> 1000"
proof (cases "residualsInvalidateBounds rs")
  case True
  then show ?thesis using u by (simp add: residualGradeUpper_def MILLIGRADE_TOP_def)
next
  case False
  let ?R = "{r \<in> set rs. may_change_grade ctx r}"
  have "?R \<noteq> {} \<and> u = Max (region_bound ` ?R)"
    using u False by (simp add: residualGradeUpper_def raise_upper_fold Let_def split: if_splits)
  then have "u \<in> region_bound ` ?R" using Max_in [of "region_bound ` ?R"] by simp
  then show ?thesis using ok by (auto simp: regions_ok_def list_all_iff)
qed

end
