(* ===== verification/FieldSolve.thy ===== *)
theory FieldSolve
  imports FieldGraphRefinement ResidualInfluence "HOL-Library.AList"
begin

text \<open>
  The charged solve of the recall field (\<^verbatim>\<open>core/src/recall/conditional-field/engine/field-solve.ts\<close>): two
  preparations, of the rows that may hold and of the rows that are guaranteed, are extended by the newly
  absorbed rows and stepped in turn within an allowance of work and memory; the bounds of every product
  are read from the two. The binding of one preparation is that of
  \<^verbatim>\<open>core/src/recall/conditional-field/reference/bind-max-min.ts\<close>. A lazily computed field of a result is
  a function of immutable data, so it is a plain field here.
\<close>

section \<open>Results\<close>

datatype solve_band = Possible_band | Guaranteed_band

datatype field_activation = Incomparable | Unreachable | Reachable int "string option"

record field_value =
  fv_state :: product_state_key
  fv_accepting :: bool
  fv_activation :: field_activation
  fv_milligrades :: "int option"
  fv_low_milligrades :: "int option"
  fv_high_milligrades :: "int option"
  fv_cap_contract_id :: "string option"

record facet_vector =
  fa_path_id :: string
  fa_obligations :: "(string \<times> string) list option"
  fa_coordinates :: "int list"

record field_snapshot =
  fs_query_id :: string
  fs_snapshot_id :: string
  fs_has_incomparable_activations :: bool
  fs_seeds :: "seed_activation list"
  fs_values :: "field_value list"
  fs_retained_transitions :: "field_transition list"
  fs_facets :: "facet_vector list"

record cross_table =
  ct_products :: "(string, bool) pnode"
  ct_count :: int

record bound_field =
  bf_values :: prepared_values
  bf_snapshot :: field_snapshot
  bf_solver_steps :: nat
  bf_solver_runs :: nat
  bf_solver_complete :: bool
  bf_remaining_worklist :: "(string, int) work_item list"
  bf_possible_complete :: "bool option"
  bf_guaranteed_complete :: "bool option"
  bf_guaranteed_values :: "prepared_values option"
  bf_guaranteed_worklist :: "(string, int) work_item list option"
  bf_preparation :: "prepared_field_graph option"
  bf_guaranteed_preparation :: "prepared_field_graph option"
  bf_work_queue :: "(string, int) hnode option"
  bf_guaranteed_queue :: "(string, int) hnode option"
  bf_next_band :: "solve_band option"
  bf_cross_contract_conflicts :: "cross_table option"

datatype bind_result = Bound bound_field | Resource_rejected

section \<open>The binding of one preparation\<close>

definition isHardIdentityContractId :: "string \<Rightarrow> string option \<Rightarrow> bool" where
  "isHardIdentityContractId hard i \<longleftrightarrow> i = Some hard"

definition productStateNodeId :: "product_state_key \<Rightarrow> string" where
  "productStateNodeId key = canonicalProductIdentity key"

definition emptyToUndefined :: "string option \<Rightarrow> string option" where
  "emptyToUndefined v = (case v of None \<Rightarrow> None | Some s \<Rightarrow> if length s = 0 then None else Some s)"

definition is_accepting :: "product_state_key \<Rightarrow> bool" where
  "is_accepting state \<longleftrightarrow> ps_program_state state = ''accepting''"

definition field_value_of :: "(string \<Rightarrow> int option) \<Rightarrow> string option \<Rightarrow> (string \<Rightarrow> string option) \<Rightarrow> (string \<Rightarrow> bool)
    \<Rightarrow> string \<times> product_state_key \<Rightarrow> field_value" where
  "field_value_of vals contractId contractByNode incomparable row =
     (let (nodeId, state) = row;
          base = \<lparr>fv_state = state, fv_accepting = is_accepting state, fv_activation = Unreachable, fv_milligrades = None,
            fv_low_milligrades = None, fv_high_milligrades = None, fv_cap_contract_id = None\<rparr>
      in if incomparable nodeId then base\<lparr>fv_activation := Incomparable\<rparr>
         else (case vals nodeId of
             None \<Rightarrow> base
           | Some milligrades \<Rightarrow>
               (let stamped = either contractId (emptyToUndefined (contractByNode nodeId))
                in base\<lparr>fv_activation := Reachable milligrades stamped, fv_milligrades := Some milligrades,
                     fv_cap_contract_id := stamped\<rparr>)))"

definition fieldValues :: "(string \<times> product_state_key) list \<Rightarrow> (string \<Rightarrow> int option) \<Rightarrow> string option
    \<Rightarrow> (string \<Rightarrow> string option) \<Rightarrow> (string \<Rightarrow> bool) \<Rightarrow> field_value list" where
  "fieldValues keys vals contractId contractByNode incomparable =
     map (field_value_of vals contractId contractByNode incomparable) keys"

record bind_input =
  bi_query_id :: string
  bi_snapshot_id :: string
  bi_seeds :: "seed_activation list"
  bi_transitions :: "field_transition list"
  bi_facets :: "facet_vector list option"
  bi_identities :: "(string \<times> product_state_key) list option"

definition list_of_option :: "'a list option \<Rightarrow> 'a list" where
  "list_of_option xs = (case xs of None \<Rightarrow> [] | Some ys \<Rightarrow> ys)"

definition preparedFieldBinding :: "string \<Rightarrow> bind_input \<Rightarrow> prepared_field_graph \<Rightarrow> nat \<Rightarrow> bound_field" where
  "preparedFieldBinding hard inp prepared steps =
     \<lparr>bf_values = pf_values prepared,
      bf_snapshot =
        \<lparr>fs_query_id = bi_query_id inp, fs_snapshot_id = bi_snapshot_id inp,
         fs_has_incomparable_activations = (pv_conflictCount (pf_values prepared) > 0),
         fs_seeds = bi_seeds inp,
         fs_values = fieldValues (case bi_identities inp of None \<Rightarrow> entries (pf_keys prepared) | Some ids \<Rightarrow> ids)
           (pv_get (pf_values prepared)) None (pv_contract hard (pf_values prepared)) (pv_conflicted (pf_values prepared)),
         fs_retained_transitions = filter ft_applicable (bi_transitions inp),
         fs_facets = list_of_option (bi_facets inp)\<rparr>,
      bf_solver_steps = steps, bf_solver_runs = (if steps > 0 then 1 else 0),
      bf_solver_complete = fieldGraphComplete prepared,
      bf_remaining_worklist = wq_iterate (pf_queue prepared),
      bf_possible_complete = None, bf_guaranteed_complete = None, bf_guaranteed_values = None, bf_guaranteed_worklist = None,
      bf_preparation = Some prepared, bf_guaranteed_preparation = None,
      bf_work_queue = Some (pf_queue prepared), bf_guaranteed_queue = None,
      bf_next_band = None, bf_cross_contract_conflicts = None\<rparr>"

section \<open>The state that is charged\<close>

record binding_delta =
  bd_possible :: field_additions
  bd_guaranteed :: field_additions
  bd_reset :: "bool option"

text \<open>The fields of the engine state that the solve reads.\<close>

record charged_state =
  ch_query_id :: string
  ch_snapshot_id :: string
  ch_proven_binding :: "bind_result option"
  ch_binding_delta :: "binding_delta option"
  ch_seeds :: "seed_activation list"
  ch_guaranteed_seeds :: "seed_activation list"
  ch_transitions :: "field_transition list"
  ch_guaranteed_transitions :: "field_transition list"
  ch_facets :: "facet_vector list"
  ch_identity_index :: "(string, product_state_key) pnode option"
  ch_residuals :: "coverage_region list"
  ch_remaining_memory_bytes :: int
  ch_solver_retained_bytes :: "int option"
  ch_remaining_exploration :: int
  ch_remaining_reserve :: int
  ch_memory_exhausted :: bool

datatype remaining_kind = State_create | Join_work | Relaxation | Provenance | Projection | Observe_work

record remaining_work =
  rw_kind :: remaining_kind
  rw_units :: int

definition NO_ADDITIONS :: field_additions where
  "NO_ADDITIONS = \<lparr>ad_seeds = [], ad_transitions = []\<rparr>"

definition possible_rows :: "charged_state \<Rightarrow> field_additions" where
  "possible_rows charged = \<lparr>ad_seeds = ch_seeds charged, ad_transitions = ch_transitions charged\<rparr>"

definition guaranteed_rows :: "charged_state \<Rightarrow> field_additions" where
  "guaranteed_rows charged = \<lparr>ad_seeds = ch_guaranteed_seeds charged, ad_transitions = ch_guaranteed_transitions charged\<rparr>"

section \<open>Conflicts between the bands\<close>

definition crossContractConflict :: "string \<Rightarrow> prepared_values \<Rightarrow> prepared_values \<Rightarrow> string \<Rightarrow> bool" where
  "crossContractConflict hard possible guaranteed i =
     (let highContract = pv_contract hard possible i; lowContract = pv_contract hard guaranteed i
      in pv_has possible i \<and> pv_has guaranteed i \<and> highContract \<noteq> None \<and> lowContract \<noteq> None \<and> highContract \<noteq> lowContract
        \<and> \<not> isHardIdentityContractId hard highContract \<and> \<not> isHardIdentityContractId hard lowContract)"

definition empty_cross :: cross_table where
  "empty_cross = \<lparr>ct_products = Undef, ct_count = 0\<rparr>"

definition update_cross :: "string \<Rightarrow> prepared_values \<Rightarrow> prepared_values \<Rightarrow> string option \<Rightarrow> cross_table \<Rightarrow> cross_table" where
  "update_cross hard possible guaranteed changedProduct cross =
     (case changedProduct of
        None \<Rightarrow> cross
      | Some changed \<Rightarrow>
          (let conflicted = crossContractConflict hard possible guaranteed changed;
               was = (pm_get (ct_products cross) changed = Some True)
           in if conflicted \<noteq> was
              then \<lparr>ct_products = pm_with (ct_products cross) changed conflicted,
                    ct_count = ct_count cross + number_of conflicted - number_of was\<rparr>
              else cross))"

section \<open>The loop\<close>

record solve_state =
  sl_possible :: prepared_field_graph
  sl_guaranteed :: prepared_field_graph
  sl_next :: solve_band
  sl_cross :: cross_table
  sl_possibleSteps :: nat
  sl_guaranteedSteps :: nat
  sl_memory :: int
  sl_retained :: int
  sl_possibleBlocked :: bool
  sl_guaranteedBlocked :: bool

definition solve_steps :: "solve_state \<Rightarrow> nat" where
  "solve_steps s = sl_possibleSteps s + sl_guaranteedSteps s"

definition live_bytes :: "solve_state \<Rightarrow> int" where
  "live_bytes s = int (pf_retainedBytes (sl_possible s)) + int (pf_retainedBytes (sl_guaranteed s))"

definition possibleRunnable :: "solve_state \<Rightarrow> bool" where
  "possibleRunnable s \<longleftrightarrow> \<not> sl_possibleBlocked s \<and> \<not> fieldGraphComplete (sl_possible s)"

definition guaranteedRunnable :: "solve_state \<Rightarrow> bool" where
  "guaranteedRunnable s \<longleftrightarrow> \<not> sl_guaranteedBlocked s \<and> \<not> fieldGraphComplete (sl_guaranteed s)"

definition usePossible :: "solve_state \<Rightarrow> bool" where
  "usePossible s \<longleftrightarrow> \<not> guaranteedRunnable s \<or> sl_next s = Possible_band \<and> possibleRunnable s"

definition next_atom :: "solve_state \<Rightarrow> field_graph_atom" where
  "next_atom s =
     nextFieldGraphAtom (if usePossible s then sl_possible s else sl_guaranteed s) (size_of (ct_products (sl_cross s)))"

definition block_band :: "solve_state \<Rightarrow> solve_state" where
  "block_band s = (if usePossible s then s\<lparr>sl_possibleBlocked := True\<rparr> else s\<lparr>sl_guaranteedBlocked := True\<rparr>)"

text \<open>One step of the band whose turn it is.\<close>

definition step_band :: "string \<Rightarrow> solve_state \<Rightarrow> solve_state js_outcome" where
  "step_band hard s =
     (if usePossible s
      then outcome_then (stepFieldGraph hard (sl_possible s) (nat (sl_memory s)) (next_atom s)) (\<lambda>g.
             Returned (s\<lparr>sl_possible := g, sl_possibleSteps := sl_possibleSteps s + 1, sl_next := Guaranteed_band\<rparr>))
      else outcome_then (stepFieldGraph hard (sl_guaranteed s) (nat (sl_memory s)) (next_atom s)) (\<lambda>g.
             Returned (s\<lparr>sl_guaranteed := g, sl_guaranteedSteps := sl_guaranteedSteps s + 1, sl_next := Possible_band\<rparr>)))"

definition charge_step :: "string \<Rightarrow> solve_state \<Rightarrow> solve_state js_outcome" where
  "charge_step hard s =
     outcome_then (step_band hard s) (\<lambda>t.
       (let changed = pf_changedProduct (if usePossible s then sl_possible t else sl_guaranteed t);
            liveDelta = max 0 (live_bytes t - live_bytes s)
        in Returned (t\<lparr>sl_cross := update_cross hard (pf_values (sl_possible t)) (pf_values (sl_guaranteed t)) changed (sl_cross t),
             sl_memory := sl_memory t - liveDelta, sl_retained := sl_retained t + liveDelta\<rparr>)))"

lemma outcome_then_cong [fundef_cong]:
  "r = r' \<Longrightarrow> (\<And>a. r' = Returned a \<Longrightarrow> f a = g a) \<Longrightarrow> outcome_then r f = outcome_then r' g"
  by (auto simp: outcome_then_def split: js_outcome.split)

lemma outcome_then_Returned: "outcome_then r f = Returned b \<longleftrightarrow> (\<exists>a. r = Returned a \<and> f a = Returned b)"
  by (auto simp: outcome_then_def split: js_outcome.splits)

lemma charge_step_steps: "charge_step hard s = Returned t \<Longrightarrow> solve_steps t = Suc (solve_steps s)"
  by (auto simp: charge_step_def step_band_def outcome_then_Returned solve_steps_def Let_def split: if_splits)

definition open_bands :: "solve_state \<Rightarrow> nat" where
  "open_bands s = (if sl_possibleBlocked s then 0 else 1) + (if sl_guaranteedBlocked s then 0 else 1)"

lemma block_band_opens:
  assumes "possibleRunnable s \<or> guaranteedRunnable s"
  shows "open_bands (block_band s) < open_bands s" "solve_steps (block_band s) = solve_steps s"
  using assms by (auto simp: block_band_def open_bands_def solve_steps_def usePossible_def possibleRunnable_def guaranteedRunnable_def)

function solve_loop :: "string \<Rightarrow> int \<Rightarrow> solve_state \<Rightarrow> solve_state js_outcome" where
  "solve_loop hard allowance s =
     (if \<not> (int (solve_steps s) < allowance \<and> (\<not> fieldGraphComplete (sl_possible s) \<or> \<not> fieldGraphComplete (sl_guaranteed s)))
      then Returned s
      else if \<not> possibleRunnable s \<and> \<not> guaranteedRunnable s then Returned s
      else if int (at_bytes (next_atom s)) > sl_memory s then solve_loop hard allowance (block_band s)
      else outcome_then (charge_step hard s) (\<lambda>t. solve_loop hard allowance t))"
  by pat_completeness auto
termination
  by (relation "measures [\<lambda>(hard, allowance, s). nat (allowance - int (solve_steps s)), \<lambda>(hard, allowance, s). open_bands s]")
    (auto simp: block_band_opens charge_step_steps)

declare solve_loop.simps [simp del]

section \<open>Bounds of a product\<close>

definition valueBounds :: "int \<Rightarrow> int option \<Rightarrow> int option \<Rightarrow> bool \<Rightarrow> bool \<Rightarrow> int option \<times> int" where
  "valueBounds grade admitted residualHigh invalidated possibleComplete =
     (if invalidated then Some MILLIGRADE_BOTTOM else admitted,
      if invalidated \<or> \<not> possibleComplete then MILLIGRADE_TOP
      else max (max grade (case admitted of None \<Rightarrow> grade | Some a \<Rightarrow> a)) (case residualHigh of None \<Rightarrow> grade | Some r \<Rightarrow> r))"

definition hard_or_none :: "string \<Rightarrow> string option \<Rightarrow> bool" where
  "hard_or_none hard contract \<longleftrightarrow> contract = None \<or> isHardIdentityContractId hard contract"

text \<open>The values and contracts the projection of a product reads from the two bands.\<close>

definition band_value :: "prepared_values option \<Rightarrow> string \<Rightarrow> int option" where
  "band_value vals i = (case vals of None \<Rightarrow> None | Some pv \<Rightarrow> pv_get pv i)"

definition band_contract :: "string \<Rightarrow> prepared_field_graph option \<Rightarrow> string \<Rightarrow> string option" where
  "band_contract hard preparation i = (case preparation of None \<Rightarrow> None | Some st \<Rightarrow> pv_contract hard (pf_values st) i)"

definition band_conflicted :: "prepared_field_graph option \<Rightarrow> string \<Rightarrow> bool" where
  "band_conflicted preparation i = (case preparation of None \<Rightarrow> False | Some st \<Rightarrow> pv_conflicted (pf_values st) i)"

definition projected_conflict :: "string \<Rightarrow> bound_field \<Rightarrow> prepared_field_graph option \<Rightarrow> string \<Rightarrow> bool" where
  "projected_conflict hard bound lowerPreparation i \<longleftrightarrow>
     band_conflicted (bf_preparation bound) i \<or> band_conflicted lowerPreparation i \<or>
     (case (bf_preparation bound, lowerPreparation) of
        (Some possible, Some lower) \<Rightarrow> crossContractConflict hard (pf_values possible) (pf_values lower) i
      | _ \<Rightarrow> False)"

text \<open>The grade that is shown and the lower bound that is admitted, of a product whose contracts do not conflict.\<close>

definition shown_grade :: "int option \<Rightarrow> int option \<Rightarrow> bool \<Rightarrow> bool \<Rightarrow> int option" where
  "shown_grade possibleGrade low sameContract useLowerContract =
     (if sameContract \<and> low \<noteq> None then Some (max (case possibleGrade of None \<Rightarrow> the low | Some g \<Rightarrow> g) (the low))
      else if useLowerContract then low else possibleGrade)"

definition admitted_low :: "int option \<Rightarrow> bool \<Rightarrow> bool \<Rightarrow> int option" where
  "admitted_low low sameContract useLowerContract = (if low \<noteq> None \<and> (useLowerContract \<or> sameContract) then low else None)"

definition projectedValue :: "string \<Rightarrow> product_state_key \<Rightarrow> bound_field \<Rightarrow> prepared_values option
    \<Rightarrow> prepared_field_graph option \<Rightarrow> int option \<Rightarrow> bool \<Rightarrow> field_value" where
  "projectedValue hard key bound lower lowerPreparation residualHigh invalidated =
     (let i = productStateNodeId key;
          possibleGrade = pv_get (bf_values bound) i;
          low = band_value lower i;
          possibleContract = band_contract hard (bf_preparation bound) i;
          lowerContract = band_contract hard lowerPreparation i;
          possibleHard = hard_or_none hard possibleContract;
          lowerHard = hard_or_none hard lowerContract;
          conflict = projected_conflict hard bound lowerPreparation i;
          sameContract = (possibleGrade = None \<or> low = None \<or> possibleContract = lowerContract \<or> possibleHard \<and> lowerHard);
          useLowerContract = (low \<noteq> None \<and> (possibleGrade = None \<or> possibleHard \<and> \<not> lowerHard));
          grade = (if conflict then None else shown_grade possibleGrade low sameContract useLowerContract);
          base = \<lparr>fv_state = key, fv_accepting = is_accepting key, fv_activation = Unreachable, fv_milligrades = None,
            fv_low_milligrades = None, fv_high_milligrades = None, fv_cap_contract_id = None\<rparr>
      in if conflict then base\<lparr>fv_activation := Incomparable\<rparr>
         else (case grade of
             None \<Rightarrow> base
           | Some g \<Rightarrow>
               (let contract = (if useLowerContract then lowerContract else possibleContract);
                    admitted = admitted_low low sameContract useLowerContract;
                    (lowBound, highBound) = valueBounds g admitted residualHigh invalidated
                      (case bf_possible_complete bound of None \<Rightarrow> bf_solver_complete bound | Some b \<Rightarrow> b)
                in base\<lparr>fv_activation := Reachable g contract, fv_milligrades := Some g, fv_cap_contract_id := contract,
                     fv_low_milligrades := lowBound, fv_high_milligrades := Some highBound\<rparr>)))"

section \<open>The result of a charged solve\<close>

record band_result =
  br_binding :: bound_field
  br_runs :: nat
  br_steps :: nat

definition bandResult :: "string \<Rightarrow> charged_state \<Rightarrow> prepared_field_graph \<Rightarrow> nat \<Rightarrow> bool \<Rightarrow> band_result" where
  "bandResult hard state preparation steps guaranteed =
     \<lparr>br_binding = preparedFieldBinding hard
        \<lparr>bi_query_id = ch_query_id state, bi_snapshot_id = ch_snapshot_id state,
         bi_seeds = (if guaranteed then ch_guaranteed_seeds state else ch_seeds state),
         bi_transitions = (if guaranteed then ch_guaranteed_transitions state else ch_transitions state),
         bi_facets = Some (ch_facets state), bi_identities = map_option entries (ch_identity_index state)\<rparr> preparation steps,
      br_runs = (if steps > 0 then 1 else 0), br_steps = steps\<rparr>"

definition js_map :: "('k \<times> 'v) list \<Rightarrow> ('k \<times> 'v) list" where
  "js_map rows = fold (\<lambda>(k, v). AList.update k v) rows []"

definition projection_keys :: "charged_state \<Rightarrow> prepared_field_graph \<Rightarrow> prepared_field_graph \<Rightarrow> product_state_key list" where
  "projection_keys state possible lower =
     map snd (case ch_identity_index state of
         Some ids \<Rightarrow> entries ids
       | None \<Rightarrow> js_map (entries (pf_keys possible) @ entries (pf_keys lower)))"

definition annotateBounds :: "string \<Rightarrow> charged_state \<Rightarrow> band_result \<Rightarrow> band_result \<Rightarrow> prepared_field_graph \<Rightarrow> prepared_field_graph
    \<Rightarrow> solve_band \<Rightarrow> cross_table \<Rightarrow> bound_field" where
  "annotateBounds hard state possible guaranteed possibleGraph guaranteedGraph nxt cross =
     (let bound = br_binding possible; lower = br_binding guaranteed;
          residualHigh = residualGradeUpper (ch_residuals state) \<lparr>rc_certificate = None\<rparr>;
          invalidated = residualsInvalidateBounds (ch_residuals state)
      in \<lparr>bf_values = bf_values bound,
          bf_snapshot =
            \<lparr>fs_query_id = ch_query_id state, fs_snapshot_id = ch_snapshot_id state,
             fs_has_incomparable_activations = (ct_count cross > 0 \<or> pv_conflictCount (pf_values possibleGraph) > 0
               \<or> pv_conflictCount (pf_values guaranteedGraph) > 0),
             fs_seeds = ch_seeds state,
             fs_values = map (\<lambda>key. projectedValue hard key bound (Some (bf_values lower)) (bf_preparation lower) residualHigh invalidated)
               (projection_keys state possibleGraph guaranteedGraph),
             fs_retained_transitions = filter ft_applicable (ch_transitions state),
             fs_facets = ch_facets state\<rparr>,
          bf_solver_steps = br_steps possible + br_steps guaranteed,
          bf_solver_runs = br_runs possible + br_runs guaranteed,
          bf_solver_complete = (bf_solver_complete bound \<and> bf_solver_complete lower),
          bf_remaining_worklist = (if bf_solver_complete bound then bf_remaining_worklist lower else bf_remaining_worklist bound),
          bf_possible_complete = Some (bf_solver_complete bound), bf_guaranteed_complete = Some (bf_solver_complete lower),
          bf_guaranteed_values = Some (bf_values lower), bf_guaranteed_worklist = Some (bf_remaining_worklist lower),
          bf_preparation = bf_preparation bound, bf_guaranteed_preparation = bf_preparation lower,
          bf_work_queue = bf_work_queue bound, bf_guaranteed_queue = bf_work_queue lower,
          bf_next_band = Some nxt, bf_cross_contract_conflicts = Some cross\<rparr>)"

section \<open>One charged solve\<close>

definition bound_of :: "bind_result option \<Rightarrow> bound_field option" where
  "bound_of r = (case r of Some (Bound b) \<Rightarrow> Some b | _ \<Rightarrow> None)"

text \<open>The prior binding, when its preparations can be extended.\<close>

definition reusable_prior :: "charged_state \<Rightarrow> bound_field option" where
  "reusable_prior charged =
     (case bound_of (ch_proven_binding charged) of
        None \<Rightarrow> None
      | Some prior \<Rightarrow>
          if bf_preparation prior \<noteq> None
            \<and> (case ch_binding_delta charged of None \<Rightarrow> True | Some d \<Rightarrow> bd_reset d \<noteq> Some True)
          then Some prior else None)"

definition possible_delta :: "charged_state \<Rightarrow> field_additions" where
  "possible_delta charged = (case ch_binding_delta charged of None \<Rightarrow> NO_ADDITIONS | Some d \<Rightarrow> bd_possible d)"

definition guaranteed_delta :: "charged_state \<Rightarrow> field_additions" where
  "guaranteed_delta charged = (case ch_binding_delta charged of None \<Rightarrow> NO_ADDITIONS | Some d \<Rightarrow> bd_guaranteed d)"

definition initial_possible :: "charged_state \<Rightarrow> prepared_field_graph" where
  "initial_possible charged =
     (case reusable_prior charged of
        None \<Rightarrow> appendFieldGraph None (possible_rows charged) (possible_rows charged)
      | Some prior \<Rightarrow> appendFieldGraph (bf_preparation prior) (possible_delta charged) (possible_rows charged))"

definition initial_guaranteed :: "charged_state \<Rightarrow> prepared_field_graph" where
  "initial_guaranteed charged =
     (case reusable_prior charged of
        None \<Rightarrow> appendFieldGraph None (guaranteed_rows charged) (guaranteed_rows charged)
      | Some prior \<Rightarrow> appendFieldGraph (bf_guaranteed_preparation prior) (guaranteed_delta charged) (guaranteed_rows charged))"

text \<open>
  An append keeps the object that holds the nodes, unless there was no preparation or its deferred rows
  force a rebuild.
\<close>

definition keeps_nodes :: "prepared_field_graph option \<Rightarrow> field_additions \<Rightarrow> bool" where
  "keeps_nodes prior additions =
     (case prior of None \<Rightarrow> False | Some st \<Rightarrow> \<not> (incoming additions \<and> pf_deferred st \<noteq> None))"

definition initial_cross :: "charged_state \<Rightarrow> cross_table" where
  "initial_cross charged =
     (case reusable_prior charged of
        None \<Rightarrow> empty_cross
      | Some prior \<Rightarrow>
          if keeps_nodes (bf_preparation prior) (possible_delta charged)
            \<and> keeps_nodes (bf_guaranteed_preparation prior) (guaranteed_delta charged)
          then (case bf_cross_contract_conflicts prior of None \<Rightarrow> empty_cross | Some cross \<Rightarrow> cross)
          else empty_cross)"

definition initial_band :: "charged_state \<Rightarrow> solve_band" where
  "initial_band charged =
     (case reusable_prior charged of
        None \<Rightarrow> Possible_band
      | Some prior \<Rightarrow> (case bf_next_band prior of None \<Rightarrow> Possible_band | Some b \<Rightarrow> b))"

definition initial_solve :: "charged_state \<Rightarrow> solve_state" where
  "initial_solve charged =
     \<lparr>sl_possible = initial_possible charged, sl_guaranteed = initial_guaranteed charged, sl_next = initial_band charged,
      sl_cross = initial_cross charged, sl_possibleSteps = 0, sl_guaranteedSteps = 0,
      sl_memory = ch_remaining_memory_bytes charged,
      sl_retained = (case ch_solver_retained_bytes charged of None \<Rightarrow> 0 | Some b \<Rightarrow> b),
      sl_possibleBlocked = False, sl_guaranteedBlocked = False\<rparr>"

record charged_result =
  cb_binding :: bind_result
  cb_exploration :: int
  cb_reserve :: int
  cb_complete :: bool
  cb_remaining_memory_bytes :: int
  cb_solver_retained_bytes :: int
  cb_memory_exhausted :: bool
  cb_remaining_work :: "remaining_work list"

definition charged_result_of :: "string \<Rightarrow> charged_state \<Rightarrow> remaining_work list \<Rightarrow> solve_state \<Rightarrow> charged_result" where
  "charged_result_of hard charged remainingWork s =
     (let possible = bandResult hard charged (sl_possible s) (sl_possibleSteps s) False;
          guaranteed = bandResult hard charged (sl_guaranteed s) (sl_guaranteedSteps s) True;
          complete = (bf_solver_complete (br_binding possible) \<and> bf_solver_complete (br_binding guaranteed));
          queued = int (wq_size (pf_queue (sl_possible s))) + int (wq_size (pf_queue (sl_guaranteed s)));
          steps = int (solve_steps s)
      in \<lparr>cb_binding = Bound (annotateBounds hard charged possible guaranteed (sl_possible s) (sl_guaranteed s) (sl_next s) (sl_cross s)),
          cb_exploration = max 0 (ch_remaining_exploration charged - steps),
          cb_reserve = ch_remaining_reserve charged - max 0 (steps - ch_remaining_exploration charged),
          cb_complete = complete, cb_remaining_memory_bytes = sl_memory s, cb_solver_retained_bytes = sl_retained s,
          cb_memory_exhausted = (ch_memory_exhausted charged \<or> sl_possibleBlocked s \<or> sl_guaranteedBlocked s),
          cb_remaining_work = (if \<not> complete \<and> \<not> list_ex (\<lambda>row. rw_kind row = Relaxation) remainingWork
            then remainingWork @ [\<lparr>rw_kind = Relaxation, rw_units = max 1 queued\<rparr>] else remainingWork)\<rparr>)"

definition bindChargedField :: "string \<Rightarrow> charged_state \<Rightarrow> remaining_work list \<Rightarrow> charged_result js_outcome" where
  "bindChargedField hard charged remainingWork =
     outcome_then (solve_loop hard (ch_remaining_exploration charged + ch_remaining_reserve charged) (initial_solve charged))
       (\<lambda>s. Returned (charged_result_of hard charged remainingWork s))"

text \<open>The ordered projection of a bound engine state: its size and its values by position.\<close>

definition orderedProjectionValues :: "string \<Rightarrow> (string, product_state_key) pnode option \<Rightarrow> bind_result \<Rightarrow> coverage_region list
    \<Rightarrow> (nat \<times> (int \<Rightarrow> field_value option)) option" where
  "orderedProjectionValues hard identities binding residuals =
     (case (identities, binding) of
        (Some ids, Bound b) \<Rightarrow>
          Some (size_of ids, \<lambda>index. (case entryAt ids index of
              None \<Rightarrow> None
            | Some (_, key) \<Rightarrow> Some (projectedValue hard key b (bf_guaranteed_values b) (bf_guaranteed_preparation b)
                (residualGradeUpper residuals \<lparr>rc_certificate = None\<rparr>) (residualsInvalidateBounds residuals))))
      | _ \<Rightarrow> None)"

end
