(* ===== verification/FieldSolveCorrect.thy ===== *)
theory FieldSolveCorrect
  imports FieldSolve
begin

text \<open>
  What a charged solve keeps and returns: the table of conflicts between the bands, kept up to date from
  the one product a step changes, is the table computed from scratch; work and memory are accounted for
  exactly; and a solve stops early for want of work or memory only.
\<close>

section \<open>A step shows its change\<close>

lemma admitSeed_changes:
  assumes "admitSeed hard st s = Returned st'"
  shows "\<exists>nd g. pf_changedProduct st' = Some (pn_product nd) \<and> pf_values st' = pv_with hard (pf_values st) nd g"
proof -
  obtain st1 i nd where reg: "registerNode hard st (sd_state s) (sd_cap_contract_id s) = (st1, i, nd)" by (metis prod_cases3)
  have "pf_values st1 = pf_values st" by (rule register_fields(6) [OF reg])
  with assms show ?thesis
    by (clarsimp simp: admitSeed_def reg outcome_then_Returned Let_def) blast
qed

lemma admitTransition_changes:
  "pf_values (admitTransition hard st t) = pf_values st" "pf_changedProduct (admitTransition hard st t) = pf_changedProduct st"
  by (simp_all add: admitTransition_def registerNode_def Let_def)

lemma finish_row_changed: "pf_changedProduct (finish_row b s) = pf_changedProduct s"
  by (simp add: finish_row_def)

text \<open>All products but the changed one keep their rows.\<close>

definition only_changed :: "prepared_values \<Rightarrow> string option \<Rightarrow> prepared_values \<Rightarrow> bool" where
  "only_changed pv changed pv' \<longleftrightarrow> (\<forall>p. changed \<noteq> Some p \<longrightarrow> row_at pv' p = row_at pv p)"

lemma only_changed_with: "pm_inv (pv_rows pv) \<Longrightarrow> only_changed pv (Some (pn_product nd)) (pv_with hard pv nd g)"
  by (auto simp: only_changed_def pv_with_rows)

lemma only_changed_same: "only_changed pv changed pv"
  by (simp add: only_changed_def)

lemma admitted_changed: "pf_changedProduct (admitted_state st) = None"
  by (simp add: admitted_state_def split: option.split)

lemma prepareRow_changes:
  assumes step: "prepareRow hard (admitted_state st) atom = Returned st'" and pm: "pm_inv (pv_rows (pf_values st))"
  shows "only_changed (pf_values st) (pf_changedProduct st') (pf_values st')"
proof -
  from step obtain b s where s: "st' = finish_row b s"
    and pick: "(if pf_seedOffset (admitted_state st) < length (ad_seeds b)
        then outcome_then (present (at_seed atom)) (\<lambda>seed. outcome_then (admitSeed hard (admitted_state st) seed)
          (\<lambda>s. Returned (s\<lparr>pf_seedOffset := pf_seedOffset (admitted_state st) + 1\<rparr>)))
        else outcome_then (present (at_transition atom)) (\<lambda>transition. Returned ((admitTransition hard (admitted_state st) transition)
          \<lparr>pf_transitionOffset := pf_transitionOffset (admitted_state st) + 1\<rparr>))) = Returned s"
    unfolding prepareRow_def outcome_then_Returned by blast
  show ?thesis
  proof (cases "pf_seedOffset (admitted_state st) < length (ad_seeds b)")
    case True
    then obtain seed a where a: "admitSeed hard (admitted_state st) seed = Returned a" "pf_values s = pf_values a"
      "pf_changedProduct s = pf_changedProduct a" using pick by (auto simp: outcome_then_Returned)
    from admitSeed_changes [OF a(1)] show ?thesis
      using only_changed_with [OF pm] by (auto simp: s finish_row_keeps finish_row_changed a(2,3) admitted_state_fields)
  next
    case False
    then obtain t where "s = (admitTransition hard (admitted_state st) t)\<lparr>pf_transitionOffset := pf_transitionOffset (admitted_state st) + 1\<rparr>"
      using pick by (auto simp: outcome_then_Returned)
    then show ?thesis by (simp add: s finish_row_keeps admitTransition_changes admitted_state_fields only_changed_same)
  qed
qed

lemma project_changes_single:
  "length es \<le> 1 \<Longrightarrow> project_changes hard nodes es (pv, None) = Returned (pv', changed) \<Longrightarrow> pm_inv (pv_rows pv) \<Longrightarrow>
     only_changed pv changed pv'"
  by (cases es) (auto simp: outcome_then_Returned only_changed_same only_changed_with)

lemma step_changes:
  assumes inv: "field_inv hard st S T" and step: "stepFieldGraph hard st available (nextFieldGraphAtom st aux) = Returned st'"
  shows "only_changed (pf_values st) (pf_changedProduct st') (pf_values st')"
proof -
  let ?atom = "nextFieldGraphAtom st aux"
  have ok: "batches_ok st" and solver: "solver_inv hard st S T" and vals: "values_inv hard (contract_grades st) (pf_values st)"
    using inv by (simp_all add: field_inv_def)
  have pm: "pm_inv (pv_rows (pf_values st))" using vals by (simp add: values_inv_def)
  show ?thesis
  proof (cases "fieldGraphComplete st \<or> at_bytes ?atom > available")
    case True
    then have "st' = st" using step by (cases "fieldGraphComplete st") (simp_all add: stepFieldGraph_def)
    then show ?thesis by (simp add: only_changed_same)
  next
    case busy: False
    show ?thesis
    proof (cases "next_row st = (None, None)")
      case False
      then have row: "at_seed ?atom \<noteq> None \<or> at_transition ?atom \<noteq> None" by (simp add: atom_row prod_eq_iff)
      from step busy row obtain s where "prepareRow hard (admitted_state st) ?atom = Returned s"
        "pf_values st' = pf_values s" "pf_changedProduct st' = pf_changedProduct s"
        by (auto simp: stepFieldGraph_def Let_def outcome_then_Returned admitted_state_def)
      then show ?thesis using prepareRow_changes pm by metis
    next
      case True
      have queued: "wq_size (pf_queue st) \<noteq> 0" using busy True no_row [OF ok] by (auto simp: complete_batches)
      have "wq_inv (pf_queue st)" using solver by (simp add: solver_inv_def stores_ok_def)
      from relax_startable [OF this queued] obtain rs where rs: "relax_step (graph_edges st) (relax_start st) = Some rs" by blast
      from solve_relax [OF rs] obtain r where r: "solveMaxMinField (solver_call st [] 1) = Returned r"
        "mr_values r = rs_values rs" "mr_changedValues r = rs_changed rs" by blast
      have "pm_inv (mr_values r)" using relax_grades [OF solver rs] by (simp add: solver_inv_def stores_ok_def r(2))
      then have "length (changed_entries r) \<le> 1"
        using relax_changes [OF solver rs]
      proof (elim disjE exE conjE)
        assume "rs_changed rs = Map.empty"
        then show ?thesis by (simp add: changed_entries_none r(3))
      next
        fix i g
        assume pm: "pm_inv (mr_values r)" and ch: "rs_changed rs = [i \<mapsto> g]" "pm_get (rs_values rs) = (pm_get (pf_numericValues st))(i \<mapsto> g)"
        have "changed_entries r = [(i, g)]" by (rule changed_entries_single [OF pm]) (simp_all add: r ch)
        then show ?thesis by simp
      qed
      moreover have "\<exists>pv changed. project_changes hard (pf_nodes st) (changed_entries r) (pf_values st, None) = Returned (pv, changed) \<and>
          pf_values st' = pv \<and> pf_changedProduct st' = changed"
        using step busy True r(1) by (auto simp: stepFieldGraph_def atom_row outcome_then_Returned split: prod.splits)
      ultimately show ?thesis using project_changes_single pm by blast
    qed
  qed
qed

lemma step_retains:
  assumes inv: "field_inv hard st S T" and step: "stepFieldGraph hard st available (nextFieldGraphAtom st aux) = Returned st'"
    and busy: "\<not> fieldGraphComplete st" "at_bytes (nextFieldGraphAtom st aux) \<le> available"
  shows "pf_retainedBytes st' = pf_retainedBytes st + at_bytes (nextFieldGraphAtom st aux)"
proof (cases "next_row st = (None, None)")
  case True
  from relax_turn [OF inv True busy] step show ?thesis by auto
next
  case False
  from row_step [OF inv False busy(2)] step show ?thesis by auto
qed

section \<open>The table of conflicts between the bands\<close>

definition table_ok :: "cross_table \<Rightarrow> (string \<Rightarrow> bool) \<Rightarrow> bool" where
  "table_ok cross A \<longleftrightarrow> pm_inv (ct_products cross) \<and> (\<forall>p. pm_get (ct_products cross) p = Some True \<longleftrightarrow> A p) \<and>
     ct_count cross = int (card {p. A p})"

lemma table_empty: "(\<And>p. \<not> A p) \<Longrightarrow> table_ok empty_cross A"
  by (simp add: table_ok_def empty_cross_def map_laws)

lemma table_finite:
  assumes "table_ok cross A"
  shows "finite {p. A p}"
proof -
  have "finite {p. pm_get (ct_products cross) p \<noteq> None}" using assms pm.finite_dom by (auto simp: table_ok_def)
  moreover have "{p. A p} \<subseteq> {p. pm_get (ct_products cross) p \<noteq> None}" using assms by (force simp: table_ok_def)
  ultimately show ?thesis by (rule finite_subset [rotated])
qed

lemma row_at_contract:
  "pv_contract hard pv p = (if gr_conflict (row_at pv p) = Some True then None
     else either (gr_contract (row_at pv p)) (if gr_hardExplicit (row_at pv p) = Some True then Some hard else None))"
  by (simp add: pv_contract_def row_at_def no_grade_def either_def split: option.split)

lemma conflict_rows:
  assumes "row_at pv p = row_at pv' p" "row_at qv p = row_at qv' p"
  shows "crossContractConflict hard pv qv p = crossContractConflict hard pv' qv' p"
  using assms by (simp add: crossContractConflict_def row_at_contract pv_has_def row_at_reads)

lemma update_cross_ok:
  assumes ok: "table_ok cross (crossContractConflict hard pv qv)"
    and other: "only_changed pv changed pv'" "only_changed qv changed qv'"
  shows "table_ok (update_cross hard pv' qv' changed cross) (crossContractConflict hard pv' qv')"
proof -
  let ?A = "crossContractConflict hard pv qv" and ?B = "crossContractConflict hard pv' qv'"
  have same: "?B p \<longleftrightarrow> ?A p" if "changed \<noteq> Some p" for p
    using other that by (intro conflict_rows) (simp_all add: only_changed_def)
  show ?thesis
  proof (cases changed)
    case None
    then have "?B = ?A" using same by (simp add: fun_eq_iff)
    then show ?thesis using ok None by (simp add: update_cross_def)
  next
    case (Some q)
    have was: "pm_get (ct_products cross) q = Some True \<longleftrightarrow> ?A q" using ok by (simp add: table_ok_def)
    have count: "int (card {p. ?B p}) = int (card {p. ?A p}) + number_of (?B q) - number_of (?A q)"
      by (rule card_update [OF table_finite [OF ok]]) (simp add: same Some)
    have get: "pm_get (pm_with (ct_products cross) q (?B q)) p = (if p = q then Some (?B q) else pm_get (ct_products cross) p)" for p
      using ok by (simp add: table_ok_def map_laws)
    show ?thesis
    proof (cases "?B q = ?A q")
      case True
      have "?B p = ?A p" for p using True same [of p] Some by (cases "p = q") auto
      then have "?B = ?A" by (simp add: fun_eq_iff)
      then show ?thesis using ok Some True by (simp add: update_cross_def was)
    next
      case False
      then have "update_cross hard pv' qv' changed cross =
          \<lparr>ct_products = pm_with (ct_products cross) q (?B q), ct_count = ct_count cross + number_of (?B q) - number_of (?A q)\<rparr>"
        by (simp add: update_cross_def Some was Let_def)
      then show ?thesis using ok count same Some by (auto simp: table_ok_def get map_laws)
    qed
  qed
qed

lemma size_dom:
  assumes "pm_inv m"
  shows "size_of m = card {k. pm_get m k \<noteq> None}"
proof -
  have "distinct (map fst (entries m))" using pm.items_sorted [OF assms] by (simp add: strict_sorted_iff)
  moreover have "{k. pm_get m k \<noteq> None} = fst ` set (entries m)"
    using pm.items_get [OF assms] by (auto simp: map_of_eq_None_iff)
  ultimately show ?thesis
    using assms by (simp add: pm_inv_def cached_size distinct_map card_image) (metis card_image distinct_card)
qed

lemma size_grows:
  assumes "pm_inv m"
  shows "size_of m \<le> size_of (pm_with m k v)"
proof -
  have inv: "pm_inv (pm_with m k v)" by (rule pm.invar_upd [OF assms])
  have "{j. pm_get m j \<noteq> None} \<subseteq> {j. pm_get (pm_with m k v) j \<noteq> None}" using assms by (auto simp: map_laws)
  then show ?thesis unfolding size_dom [OF assms] size_dom [OF inv] by (rule card_mono [OF pm.finite_dom [OF inv]])
qed

lemma update_cross_grows:
  "pm_inv (ct_products cross) \<Longrightarrow> size_of (ct_products cross) \<le> size_of (ct_products (update_cross hard pv qv changed cross))"
  by (auto simp: update_cross_def Let_def size_grows split: option.split)

section \<open>The cost of an atom\<close>

lemma ceil_log2_mono: "m \<le> n \<Longrightarrow> ceil_log2 m \<le> ceil_log2 n"
proof (induction n arbitrary: m rule: ceil_log2.induct)
  case (1 n)
  show ?case
  proof (cases "m \<le> 1")
    case True
    then show ?thesis by (simp add: ceil_log2.simps [of m])
  next
    case False
    then have n: "\<not> n \<le> 1" using "1.prems" by simp
    have "(m + 1) div 2 \<le> (n + 1) div 2" using "1.prems" by (intro div_le_mono) simp
    from "1.IH" [OF n this] show ?thesis using False n by (simp add: ceil_log2.simps [of m] ceil_log2.simps [of n])
  qed
qed

lemma atom_bytes_mono:
  assumes "aux \<le> aux'"
  shows "at_bytes (nextFieldGraphAtom st aux) \<le> at_bytes (nextFieldGraphAtom st aux')"
proof -
  have "ceil_log2 (k + aux + 2 + 2) \<le> ceil_log2 (k + aux' + 2 + 2)" for k using assms by (intro ceil_log2_mono) simp
  then show ?thesis
    by (simp add: nextFieldGraphAtom_def Let_def mult_le_mono split: prod.split)
qed

section \<open>The loop\<close>

abbreviation bands_conflict :: "string \<Rightarrow> solve_state \<Rightarrow> string \<Rightarrow> bool" where
  "bands_conflict hard s \<equiv> crossContractConflict hard (pf_values (sl_possible s)) (pf_values (sl_guaranteed s))"

abbreviation atom_price :: "solve_state \<Rightarrow> prepared_field_graph \<Rightarrow> int" where
  "atom_price s st \<equiv> int (at_bytes (nextFieldGraphAtom st (size_of (ct_products (sl_cross s)))))"

definition solve_inv :: "string \<Rightarrow> solve_state \<Rightarrow> seed_activation set \<Rightarrow> field_transition set \<Rightarrow> seed_activation set \<Rightarrow> field_transition set \<Rightarrow> bool" where
  "solve_inv hard s S T SG TG \<longleftrightarrow>
     field_run hard (sl_possible s) S T \<and> field_run hard (sl_guaranteed s) SG TG \<and> table_ok (sl_cross s) (bands_conflict hard s) \<and>
     (sl_possibleBlocked s \<longrightarrow> sl_memory s < atom_price s (sl_possible s)) \<and>
     (sl_guaranteedBlocked s \<longrightarrow> sl_memory s < atom_price s (sl_guaranteed s))"

lemma band_step:
  assumes run: "field_run hard st S T" "rows_ok S T" and busy: "\<not> fieldGraphComplete st"
    and paid: "int (at_bytes (nextFieldGraphAtom st aux)) \<le> mem"
  obtains g where "stepFieldGraph hard st (nat mem) (nextFieldGraphAtom st aux) = Returned g" "field_run hard g S T"
    "only_changed (pf_values st) (pf_changedProduct g) (pf_values g)"
    "pf_retainedBytes g = pf_retainedBytes st + at_bytes (nextFieldGraphAtom st aux)"
proof -
  obtain S0 T0 where inv: "field_inv hard st S0 T0" by (rule run_field_inv [OF run])
  obtain g where g: "stepFieldGraph hard st (nat mem) (nextFieldGraphAtom st aux) = Returned g" using step_inv [OF inv] by blast
  have "at_bytes (nextFieldGraphAtom st aux) \<le> nat mem" using paid by simp
  with that g field_run.stepped [OF run(1) g] step_changes [OF inv g] step_retains [OF inv g busy] show ?thesis by blast
qed

text \<open>The blocked flags stay true: memory only falls and atoms only grow with the table.\<close>

lemma price_grows:
  assumes "pm_inv (ct_products (sl_cross s))" "sl_cross t = update_cross hard pv qv changed (sl_cross s)" "sl_memory t \<le> sl_memory s"
    "sl_memory s < atom_price s st"
  shows "sl_memory t < atom_price t st"
  using atom_bytes_mono [OF update_cross_grows [OF assms(1), of hard pv qv changed], of st] assms(2-4) by simp

lemma charge_step_inv:
  assumes inv: "solve_inv hard s S T SG TG" and rows: "rows_ok S T" "rows_ok SG TG"
    and some: "possibleRunnable s \<or> guaranteedRunnable s" and paid: "int (at_bytes (next_atom s)) \<le> sl_memory s"
  shows "\<exists>t. charge_step hard s = Returned t \<and> solve_inv hard t S T SG TG \<and>
    sl_memory t + sl_retained t = sl_memory s + sl_retained s \<and> sl_retained t - sl_retained s = live_bytes t - live_bytes s \<and>
    0 \<le> sl_memory t"
proof -
  have tab: "table_ok (sl_cross s) (bands_conflict hard s)" and pm: "pm_inv (ct_products (sl_cross s))"
    using inv by (simp_all add: solve_inv_def table_ok_def)
  have runs: "field_run hard (sl_possible s) S T" "field_run hard (sl_guaranteed s) SG TG" using inv by (simp_all add: solve_inv_def)
  show ?thesis
  proof (cases "usePossible s")
    case True
    then have busy: "\<not> fieldGraphComplete (sl_possible s)" and free: "\<not> sl_possibleBlocked s"
      using some by (auto simp: usePossible_def possibleRunnable_def)
    have atom: "next_atom s = nextFieldGraphAtom (sl_possible s) (size_of (ct_products (sl_cross s)))"
      using True by (simp add: next_atom_def)
    obtain g where g: "stepFieldGraph hard (sl_possible s) (nat (sl_memory s)) (next_atom s) = Returned g" "field_run hard g S T"
      "only_changed (pf_values (sl_possible s)) (pf_changedProduct g) (pf_values g)"
      "pf_retainedBytes g = pf_retainedBytes (sl_possible s) + at_bytes (next_atom s)"
      using band_step [OF runs(1) rows(1) busy paid [unfolded atom]] unfolding atom by blast
    let ?t = "s\<lparr>sl_possible := g, sl_possibleSteps := sl_possibleSteps s + 1, sl_next := Guaranteed_band,
      sl_cross := update_cross hard (pf_values g) (pf_values (sl_guaranteed s)) (pf_changedProduct g) (sl_cross s),
      sl_memory := sl_memory s - int (at_bytes (next_atom s)), sl_retained := sl_retained s + int (at_bytes (next_atom s))\<rparr>"
    have step: "charge_step hard s = Returned ?t"
      using True g(1,4) by (simp add: charge_step_def step_band_def outcome_then_def live_bytes_def Let_def)
    have "table_ok (sl_cross ?t) (bands_conflict hard ?t)"
      using update_cross_ok [OF tab g(3) only_changed_same] by simp
    moreover have "sl_memory ?t < atom_price ?t (sl_guaranteed ?t)" if "sl_guaranteedBlocked ?t"
      using price_grows [OF pm, of ?t hard "pf_values g" "pf_values (sl_guaranteed s)" "pf_changedProduct g" "sl_guaranteed s"]
        inv that by (simp add: solve_inv_def)
    ultimately have "solve_inv hard ?t S T SG TG" using g(2) runs(2) free paid by (simp add: solve_inv_def)
    then show ?thesis using step g(4) paid by (intro exI [of _ ?t]) (simp add: live_bytes_def)
  next
    case False
    then have busy: "\<not> fieldGraphComplete (sl_guaranteed s)" and free: "\<not> sl_guaranteedBlocked s"
      by (auto simp: usePossible_def guaranteedRunnable_def)
    have atom: "next_atom s = nextFieldGraphAtom (sl_guaranteed s) (size_of (ct_products (sl_cross s)))"
      using False by (simp add: next_atom_def)
    obtain g where g: "stepFieldGraph hard (sl_guaranteed s) (nat (sl_memory s)) (next_atom s) = Returned g" "field_run hard g SG TG"
      "only_changed (pf_values (sl_guaranteed s)) (pf_changedProduct g) (pf_values g)"
      "pf_retainedBytes g = pf_retainedBytes (sl_guaranteed s) + at_bytes (next_atom s)"
      using band_step [OF runs(2) rows(2) busy paid [unfolded atom]] unfolding atom by blast
    let ?t = "s\<lparr>sl_guaranteed := g, sl_guaranteedSteps := sl_guaranteedSteps s + 1, sl_next := Possible_band,
      sl_cross := update_cross hard (pf_values (sl_possible s)) (pf_values g) (pf_changedProduct g) (sl_cross s),
      sl_memory := sl_memory s - int (at_bytes (next_atom s)), sl_retained := sl_retained s + int (at_bytes (next_atom s))\<rparr>"
    have step: "charge_step hard s = Returned ?t"
      using False g(1,4) by (simp add: charge_step_def step_band_def outcome_then_def live_bytes_def Let_def)
    have "table_ok (sl_cross ?t) (bands_conflict hard ?t)"
      using update_cross_ok [OF tab only_changed_same g(3)] by simp
    moreover have "sl_memory ?t < atom_price ?t (sl_possible ?t)" if "sl_possibleBlocked ?t"
      using price_grows [OF pm, of ?t hard "pf_values (sl_possible s)" "pf_values g" "pf_changedProduct g" "sl_possible s"]
        inv that by (simp add: solve_inv_def)
    ultimately have "solve_inv hard ?t S T SG TG" using g(2) runs(1) free paid by (simp add: solve_inv_def)
    then show ?thesis using step g(4) paid by (intro exI [of _ ?t]) (simp add: live_bytes_def)
  qed
qed

lemma block_band_inv:
  assumes inv: "solve_inv hard s S T SG TG" and short: "\<not> int (at_bytes (next_atom s)) \<le> sl_memory s"
  shows "solve_inv hard (block_band s) S T SG TG"
  using assms by (auto simp: solve_inv_def block_band_def next_atom_def)

lemma block_band_fields:
  "sl_memory (block_band s) = sl_memory s" "sl_retained (block_band s) = sl_retained s" "live_bytes (block_band s) = live_bytes s"
  "solve_steps (block_band s) = solve_steps s"
  by (simp_all add: block_band_def live_bytes_def solve_steps_def)

definition solve_over :: "int \<Rightarrow> solve_state \<Rightarrow> bool" where
  "solve_over allowance s \<longleftrightarrow> allowance \<le> int (solve_steps s) \<or> \<not> possibleRunnable s \<and> \<not> guaranteedRunnable s"

lemma solve_loop_inv:
  assumes "solve_inv hard s S T SG TG" "rows_ok S T" "rows_ok SG TG"
  shows "\<exists>t. solve_loop hard allowance s = Returned t \<and> solve_inv hard t S T SG TG \<and> solve_over allowance t \<and>
    sl_memory t + sl_retained t = sl_memory s + sl_retained s \<and> sl_retained t - sl_retained s = live_bytes t - live_bytes s \<and>
    min 0 (sl_memory s) \<le> sl_memory t \<and> int (solve_steps t) \<le> max (int (solve_steps s)) allowance"
  using assms
proof (induction hard allowance s rule: solve_loop.induct)
  case (1 hard allowance s)
  show ?case
  proof (cases "allowance \<le> int (solve_steps s) \<or> \<not> possibleRunnable s \<and> \<not> guaranteedRunnable s")
    case True
    then have "solve_loop hard allowance s = Returned s"
      by (subst solve_loop.simps) (auto simp: possibleRunnable_def guaranteedRunnable_def)
    then show ?thesis using "1.prems" True by (intro exI [of _ s]) (auto simp: solve_over_def)
  next
    case False
    then have go: "int (solve_steps s) < allowance" "possibleRunnable s \<or> guaranteedRunnable s"
      "\<not> fieldGraphComplete (sl_possible s) \<or> \<not> fieldGraphComplete (sl_guaranteed s)"
      by (auto simp: possibleRunnable_def guaranteedRunnable_def)
    show ?thesis
    proof (cases "int (at_bytes (next_atom s)) \<le> sl_memory s")
      case short: False
      then have "solve_loop hard allowance s = solve_loop hard allowance (block_band s)"
        using go by (subst solve_loop.simps) auto
      with "1.IH"(1) [OF _ _ _ block_band_inv [OF "1.prems"(1) short] "1.prems"(2,3)] go short show ?thesis
        by (simp add: block_band_fields)
    next
      case paid: True
      from charge_step_inv [OF "1.prems" go(2) paid] obtain t where t: "charge_step hard s = Returned t" "solve_inv hard t S T SG TG"
        "sl_memory t + sl_retained t = sl_memory s + sl_retained s" "sl_retained t - sl_retained s = live_bytes t - live_bytes s"
        "0 \<le> sl_memory t" by blast
      have loop: "solve_loop hard allowance s = solve_loop hard allowance t"
        using go paid t(1) by (subst solve_loop.simps) (auto simp: outcome_then_def)
      have steps: "solve_steps t = Suc (solve_steps s)" by (rule charge_step_steps [OF t(1)])
      from "1.IH"(2) [OF _ _ _ t(1,2) "1.prems"(2,3)] go paid obtain u where
        "solve_loop hard allowance t = Returned u" "solve_inv hard u S T SG TG" "solve_over allowance u"
        "sl_memory u + sl_retained u = sl_memory t + sl_retained t" "sl_retained u - sl_retained t = live_bytes u - live_bytes t"
        "min 0 (sl_memory t) \<le> sl_memory u" "int (solve_steps u) \<le> max (int (solve_steps t)) allowance" by auto
      then show ?thesis unfolding loop using t(3-5) steps go(1) by (intro exI [of _ u]) auto
    qed
  qed
qed

end
