(* ===== verification/FieldSolveResult.thy ===== *)
theory FieldSolveResult
  imports FieldSolveCorrect
begin

text \<open>
  The results of charged solves over the life of a query: every solve starts from the binding of the one
  before, or afresh, and what a complete binding shows is the field of all rows absorbed so far.
\<close>

section \<open>Sequences of charged solves\<close>

text \<open>
  The state that is charged either has nothing to reuse, or extends the binding of an earlier solve by
  the delta rows; the rows it keeps cover all rows absorbed so far.
\<close>

inductive charged_run :: "string \<Rightarrow> bound_field \<Rightarrow> seed_activation set \<Rightarrow> field_transition set
    \<Rightarrow> seed_activation set \<Rightarrow> field_transition set \<Rightarrow> bool"
  and chargeable :: "string \<Rightarrow> charged_state \<Rightarrow> seed_activation set \<Rightarrow> field_transition set
    \<Rightarrow> seed_activation set \<Rightarrow> field_transition set \<Rightarrow> bool"
  for hard :: string where
  fresh: "reusable_prior charged = None \<Longrightarrow>
    chargeable hard charged (set (ch_seeds charged)) (set (ch_transitions charged))
      (set (ch_guaranteed_seeds charged)) (set (ch_guaranteed_transitions charged))"
| extended: "charged_run hard prior S T SG TG \<Longrightarrow> reusable_prior charged = Some prior \<Longrightarrow>
    covers hard (set (ch_seeds charged)) (S \<union> set (ad_seeds (possible_delta charged))) \<Longrightarrow>
    set (ch_transitions charged) = T \<union> set (ad_transitions (possible_delta charged)) \<Longrightarrow>
    covers hard (set (ch_guaranteed_seeds charged)) (SG \<union> set (ad_seeds (guaranteed_delta charged))) \<Longrightarrow>
    set (ch_guaranteed_transitions charged) = TG \<union> set (ad_transitions (guaranteed_delta charged)) \<Longrightarrow>
    chargeable hard charged (S \<union> set (ad_seeds (possible_delta charged))) (T \<union> set (ad_transitions (possible_delta charged)))
      (SG \<union> set (ad_seeds (guaranteed_delta charged))) (TG \<union> set (ad_transitions (guaranteed_delta charged)))"
| solved: "chargeable hard charged S T SG TG \<Longrightarrow> bindChargedField hard charged remainingWork = Returned r \<Longrightarrow>
    cb_binding r = Bound b \<Longrightarrow> charged_run hard b S T SG TG"

text \<open>What a binding holds of its two preparations.\<close>

definition binding_inv :: "string \<Rightarrow> bound_field \<Rightarrow> seed_activation set \<Rightarrow> field_transition set
    \<Rightarrow> seed_activation set \<Rightarrow> field_transition set \<Rightarrow> bool" where
  "binding_inv hard b S T SG TG \<longleftrightarrow>
     (\<exists>p g cross. bf_preparation b = Some p \<and> bf_guaranteed_preparation b = Some g \<and> bf_cross_contract_conflicts b = Some cross \<and>
        field_run hard p S T \<and> field_run hard g SG TG \<and> table_ok cross (crossContractConflict hard (pf_values p) (pf_values g)) \<and>
        bf_values b = pf_values p \<and> bf_guaranteed_values b = Some (pf_values g) \<and>
        bf_possible_complete b = Some (fieldGraphComplete p) \<and> bf_guaranteed_complete b = Some (fieldGraphComplete g) \<and>
        bf_solver_complete b = (fieldGraphComplete p \<and> fieldGraphComplete g) \<and>
        fs_has_incomparable_activations (bf_snapshot b) =
          (ct_count cross > 0 \<or> pv_conflictCount (pf_values p) > 0 \<or> pv_conflictCount (pf_values g) > 0))"

lemma append_values:
  "keeps_nodes prior additions \<Longrightarrow> prior = Some st \<Longrightarrow> pf_values (appendFieldGraph prior additions replacement) = pf_values st"
  by (auto simp: keeps_nodes_def appendFieldGraph_def)

lemma append_rebuilds:
  "\<not> keeps_nodes prior additions \<Longrightarrow> pf_values (appendFieldGraph prior additions replacement) = empty_values"
  by (auto simp: keeps_nodes_def appendFieldGraph_def start_field_graph_def empty_field_graph_def split: option.split)

lemma empty_has: "\<not> pv_has empty_values p"
  by (simp add: pv_has_def pv_get_def empty_values_def)

lemma no_cross_empty:
  "pv = empty_values \<or> qv = empty_values \<Longrightarrow> \<not> crossContractConflict hard pv qv p"
  by (auto simp: crossContractConflict_def empty_has)

lemma initial_fresh_inv:
  assumes none: "reusable_prior charged = None"
  shows "solve_inv hard (initial_solve charged) (set (ch_seeds charged)) (set (ch_transitions charged))
    (set (ch_guaranteed_seeds charged)) (set (ch_guaranteed_transitions charged))"
proof -
  have "table_ok empty_cross (crossContractConflict hard (pf_values (initial_possible charged)) (pf_values (initial_guaranteed charged)))"
    by (intro table_empty no_cross_empty) (simp add: initial_possible_def none append_rebuilds keeps_nodes_def)
  then show ?thesis
    using field_run.started [of hard "possible_rows charged" "possible_rows charged"]
      field_run.started [of hard "guaranteed_rows charged" "guaranteed_rows charged"]
    by (simp add: solve_inv_def initial_solve_def initial_possible_def initial_guaranteed_def initial_cross_def none
        possible_rows_def guaranteed_rows_def)
qed

lemma initial_extended_inv:
  assumes prior: "reusable_prior charged = Some prior" and inv: "binding_inv hard prior S T SG TG"
    and rows: "covers hard (set (ch_seeds charged)) (S \<union> set (ad_seeds (possible_delta charged)))"
      "set (ch_transitions charged) = T \<union> set (ad_transitions (possible_delta charged))"
      "covers hard (set (ch_guaranteed_seeds charged)) (SG \<union> set (ad_seeds (guaranteed_delta charged)))"
      "set (ch_guaranteed_transitions charged) = TG \<union> set (ad_transitions (guaranteed_delta charged))"
  shows "solve_inv hard (initial_solve charged) (S \<union> set (ad_seeds (possible_delta charged))) (T \<union> set (ad_transitions (possible_delta charged)))
    (SG \<union> set (ad_seeds (guaranteed_delta charged))) (TG \<union> set (ad_transitions (guaranteed_delta charged)))"
proof -
  from inv obtain p g cross where b: "bf_preparation prior = Some p" "bf_guaranteed_preparation prior = Some g"
    "bf_cross_contract_conflicts prior = Some cross" "field_run hard p S T" "field_run hard g SG TG"
    "table_ok cross (crossContractConflict hard (pf_values p) (pf_values g))" by (auto simp: binding_inv_def)
  have start: "initial_possible charged = appendFieldGraph (Some p) (possible_delta charged) (possible_rows charged)"
    "initial_guaranteed charged = appendFieldGraph (Some g) (guaranteed_delta charged) (guaranteed_rows charged)"
    by (simp_all add: initial_possible_def initial_guaranteed_def prior b)
  have runs: "field_run hard (initial_possible charged) (S \<union> set (ad_seeds (possible_delta charged))) (T \<union> set (ad_transitions (possible_delta charged)))"
    "field_run hard (initial_guaranteed charged) (SG \<union> set (ad_seeds (guaranteed_delta charged))) (TG \<union> set (ad_transitions (guaranteed_delta charged)))"
    using field_run.appended [OF b(4), of "possible_rows charged"] field_run.appended [OF b(5), of "guaranteed_rows charged"] rows
    by (simp_all add: start possible_rows_def guaranteed_rows_def)
  have "table_ok (initial_cross charged) (crossContractConflict hard (pf_values (initial_possible charged)) (pf_values (initial_guaranteed charged)))"
  proof (cases "keeps_nodes (Some p) (possible_delta charged) \<and> keeps_nodes (Some g) (guaranteed_delta charged)")
    case True
    then show ?thesis using b(6) by (simp add: initial_cross_def prior b start append_values)
  next
    case False
    then have "table_ok empty_cross (crossContractConflict hard (pf_values (initial_possible charged)) (pf_values (initial_guaranteed charged)))"
      unfolding start by (intro table_empty no_cross_empty) (auto simp: append_rebuilds)
    then show ?thesis using False by (auto simp: initial_cross_def prior b)
  qed
  then show ?thesis using runs by (simp add: solve_inv_def initial_solve_def)
qed

lemma bound_result:
  assumes "solve_inv hard s S T SG TG" "cb_binding (charged_result_of hard charged work s) = Bound b"
  shows "binding_inv hard b S T SG TG"
  using assms
  by (auto simp: binding_inv_def solve_inv_def charged_result_of_def annotateBounds_def bandResult_def preparedFieldBinding_def Let_def)

lemma charged_run_inv:
  "charged_run hard b S T SG TG \<Longrightarrow> rows_ok S T \<Longrightarrow> rows_ok SG TG \<Longrightarrow> binding_inv hard b S T SG TG"
  "chargeable hard charged S T SG TG \<Longrightarrow> rows_ok S T \<Longrightarrow> rows_ok SG TG \<Longrightarrow> solve_inv hard (initial_solve charged) S T SG TG"
proof (induction rule: charged_run_chargeable.inducts)
  case (fresh charged)
  then show ?case by (intro initial_fresh_inv)
next
  case (extended prior S T SG TG charged)
  have "rows_ok S T" using extended.prems(1) by (rule rows_ok_mono) simp_all
  moreover have "rows_ok SG TG" using extended.prems(2) by (rule rows_ok_mono) simp_all
  ultimately have "binding_inv hard prior S T SG TG" by (rule extended.IH)
  then show ?case using extended by (blast intro: initial_extended_inv)
next
  case (solved charged S T SG TG remainingWork r b)
  have "solve_inv hard (initial_solve charged) S T SG TG" using solved by blast
  from solve_loop_inv [OF this solved.prems, of "ch_remaining_exploration charged + ch_remaining_reserve charged"]
  obtain s where s: "solve_loop hard (ch_remaining_exploration charged + ch_remaining_reserve charged) (initial_solve charged) = Returned s"
    "solve_inv hard s S T SG TG" by blast
  then have "r = charged_result_of hard charged remainingWork s"
    using solved by (simp add: bindChargedField_def outcome_then_def)
  then show ?case using bound_result [OF s(2)] solved by blast
qed

section \<open>Work and memory\<close>

text \<open>No unfinished band of a binding can pay for its next atom.\<close>

definition unaffordable :: "bound_field \<Rightarrow> int \<Rightarrow> bool" where
  "unaffordable b memory \<longleftrightarrow>
     (case (bf_preparation b, bf_guaranteed_preparation b, bf_cross_contract_conflicts b) of
        (Some p, Some g, Some cross) \<Rightarrow>
          (fieldGraphComplete p \<or> memory < int (at_bytes (nextFieldGraphAtom p (size_of (ct_products cross))))) \<and>
          (fieldGraphComplete g \<or> memory < int (at_bytes (nextFieldGraphAtom g (size_of (ct_products cross)))))
      | _ \<Rightarrow> False)"

lemma charged_result_fields:
  "cb_complete (charged_result_of hard charged work s) \<longleftrightarrow> fieldGraphComplete (sl_possible s) \<and> fieldGraphComplete (sl_guaranteed s)"
  "cb_remaining_memory_bytes (charged_result_of hard charged work s) = sl_memory s"
  "cb_solver_retained_bytes (charged_result_of hard charged work s) = sl_retained s"
  "cb_exploration (charged_result_of hard charged work s) = max 0 (ch_remaining_exploration charged - int (solve_steps s))"
  "cb_reserve (charged_result_of hard charged work s) =
     ch_remaining_reserve charged - max 0 (int (solve_steps s) - ch_remaining_exploration charged)"
  "cb_memory_exhausted (charged_result_of hard charged work s) \<longleftrightarrow>
     ch_memory_exhausted charged \<or> sl_possibleBlocked s \<or> sl_guaranteedBlocked s"
  by (simp_all add: charged_result_of_def bandResult_def preparedFieldBinding_def Let_def)

lemma charged_result_binding:
  "\<exists>b. cb_binding (charged_result_of hard charged work s) = Bound b \<and> bf_solver_steps b = solve_steps s \<and>
     bf_preparation b = Some (sl_possible s) \<and> bf_guaranteed_preparation b = Some (sl_guaranteed s) \<and>
     bf_cross_contract_conflicts b = Some (sl_cross s)"
  by (simp add: charged_result_of_def annotateBounds_def bandResult_def preparedFieldBinding_def Let_def solve_steps_def)

lemma solve_over_cause:
  assumes "solve_over allowance s" "solve_inv hard s S T SG TG"
  shows "allowance \<le> int (solve_steps s) \<or> fieldGraphComplete (sl_possible s) \<and> fieldGraphComplete (sl_guaranteed s) \<or>
    (sl_possibleBlocked s \<or> sl_guaranteedBlocked s) \<and>
    (fieldGraphComplete (sl_possible s) \<or> sl_memory s < atom_price s (sl_possible s)) \<and>
    (fieldGraphComplete (sl_guaranteed s) \<or> sl_memory s < atom_price s (sl_guaranteed s))"
  using assms by (auto simp: solve_over_def solve_inv_def possibleRunnable_def guaranteedRunnable_def)

lemma charge_returns:
  assumes "chargeable hard charged S T SG TG" "rows_ok S T" "rows_ok SG TG"
  obtains s where "bindChargedField hard charged work = Returned (charged_result_of hard charged work s)"
    "solve_inv hard s S T SG TG" "solve_over (ch_remaining_exploration charged + ch_remaining_reserve charged) s"
    "sl_memory s + sl_retained s = sl_memory (initial_solve charged) + sl_retained (initial_solve charged)"
    "min 0 (sl_memory (initial_solve charged)) \<le> sl_memory s"
    "int (solve_steps s) \<le> max 0 (ch_remaining_exploration charged + ch_remaining_reserve charged)"
proof -
  have zero: "solve_steps (initial_solve charged) = 0" by (simp add: initial_solve_def solve_steps_def)
  from solve_loop_inv [OF charged_run_inv(2) [OF assms] assms(2,3), of "ch_remaining_exploration charged + ch_remaining_reserve charged"]
  show ?thesis using that unfolding bindChargedField_def outcome_then_def zero by auto
qed

text \<open>C11: 
  a charged solve returns, and accounts for every unit: the steps it made are taken from the exploration
  allowance first and from the reserve only when that is used up, neither becomes negative, what leaves
  the memory allowance is exactly what is charged to the retained bytes, and an incomplete solve has
  used its whole allowance of work or cannot pay for the next atom of any unfinished band.
\<close>

theorem charged_solve_accounts:
  assumes "chargeable hard charged S T SG TG" "rows_ok S T" "rows_ok SG TG"
    and "0 \<le> ch_remaining_exploration charged" "0 \<le> ch_remaining_reserve charged" "0 \<le> ch_remaining_memory_bytes charged"
  shows "\<exists>r b. bindChargedField hard charged work = Returned r \<and> cb_binding r = Bound b \<and>
    0 \<le> cb_exploration r \<and> 0 \<le> cb_reserve r \<and>
    cb_exploration r + cb_reserve r + int (bf_solver_steps b) = ch_remaining_exploration charged + ch_remaining_reserve charged \<and>
    (cb_reserve r = ch_remaining_reserve charged \<or> cb_exploration r = 0) \<and>
    0 \<le> cb_remaining_memory_bytes r \<and>
    cb_remaining_memory_bytes r + cb_solver_retained_bytes r =
      ch_remaining_memory_bytes charged + (case ch_solver_retained_bytes charged of None \<Rightarrow> 0 | Some n \<Rightarrow> n) \<and>
    (cb_complete r \<or> cb_exploration r + cb_reserve r = 0 \<or>
     cb_memory_exhausted r \<and> unaffordable b (cb_remaining_memory_bytes r))"
proof -
  obtain s where s: "bindChargedField hard charged work = Returned (charged_result_of hard charged work s)"
    "solve_inv hard s S T SG TG" "solve_over (ch_remaining_exploration charged + ch_remaining_reserve charged) s"
    "sl_memory s + sl_retained s = sl_memory (initial_solve charged) + sl_retained (initial_solve charged)"
    "min 0 (sl_memory (initial_solve charged)) \<le> sl_memory s"
    "int (solve_steps s) \<le> max 0 (ch_remaining_exploration charged + ch_remaining_reserve charged)"
    by (rule charge_returns [OF assms(1-3)])
  obtain b where b: "cb_binding (charged_result_of hard charged work s) = Bound b" "bf_solver_steps b = solve_steps s"
    "bf_preparation b = Some (sl_possible s)" "bf_guaranteed_preparation b = Some (sl_guaranteed s)"
    "bf_cross_contract_conflicts b = Some (sl_cross s)" using charged_result_binding by blast
  have start: "sl_memory (initial_solve charged) = ch_remaining_memory_bytes charged"
    "sl_retained (initial_solve charged) = (case ch_solver_retained_bytes charged of None \<Rightarrow> 0 | Some n \<Rightarrow> n)"
    by (simp_all add: initial_solve_def)
  have "0 \<le> sl_memory s" using s(5) assms(6) by (simp add: start)
  moreover have "cb_complete (charged_result_of hard charged work s) \<or>
      cb_exploration (charged_result_of hard charged work s) + cb_reserve (charged_result_of hard charged work s) = 0 \<or>
      cb_memory_exhausted (charged_result_of hard charged work s) \<and> unaffordable b (sl_memory s)"
    using solve_over_cause [OF s(3,2)]
  proof (elim disjE conjE)
    assume "ch_remaining_exploration charged + ch_remaining_reserve charged \<le> int (solve_steps s)"
    then show ?thesis using s(6) assms(4,5) by (simp add: charged_result_fields)
  qed (simp_all add: charged_result_fields unaffordable_def b)
  ultimately show ?thesis
    using s(4,6) assms(4,5) b(1,2) unfolding s(1) start
    by (intro exI [of _ "charged_result_of hard charged work s"] exI [of _ b]) (auto simp: charged_result_fields)
qed

section \<open>The field that is shown\<close>

definition cross_conflict :: "string \<Rightarrow> (string \<Rightarrow> int option) \<Rightarrow> (string \<Rightarrow> int option) \<Rightarrow> bool" where
  "cross_conflict hard f g \<longleftrightarrow> is_singleton (soft_contracts hard f) \<and> is_singleton (soft_contracts hard g) \<and>
     soft_contracts hard f \<noteq> soft_contracts hard g"

definition bands_incomparable :: "string \<Rightarrow> (string \<Rightarrow> int option) \<Rightarrow> (string \<Rightarrow> int option) \<Rightarrow> bool" where
  "bands_incomparable hard f g \<longleftrightarrow> contract_conflict hard f \<or> contract_conflict hard g \<or> cross_conflict hard f g"

text \<open>
  What a product shows of its possible grades \<open>f\<close> and its guaranteed grades \<open>g\<close>: of two values under the
  same kind of contract the greater, otherwise the one under a soft contract.
\<close>

definition joint_grade :: "string \<Rightarrow> (string \<Rightarrow> int option) \<Rightarrow> (string \<Rightarrow> int option) \<Rightarrow> int option" where
  "joint_grade hard f g =
     (if bands_incomparable hard f g then None
      else case (product_value hard f, product_value hard g) of
          (None, y) \<Rightarrow> y
        | (x, None) \<Rightarrow> x
        | (Some a, Some b) \<Rightarrow>
            if (soft_contracts hard f = {}) = (soft_contracts hard g = {}) then Some (max a b)
            else if soft_contracts hard f = {} then Some b else Some a)"

lemma row_tracks_contract:
  assumes "row_tracks hard f row" and c: "c = (if gr_conflict row = Some True then None
     else either (gr_contract row) (if gr_hardExplicit row = Some True then Some hard else None))"
  shows "is_singleton (soft_contracts hard f) \<Longrightarrow> c = Some (the_elem (soft_contracts hard f)) \<and> c \<noteq> Some hard"
    and "\<not> is_singleton (soft_contracts hard f) \<Longrightarrow> c = None \<or> c = Some hard"
proof -
  have "(is_singleton (soft_contracts hard f) \<longrightarrow> c = Some (the_elem (soft_contracts hard f)) \<and> c \<noteq> Some hard) \<and>
    (\<not> is_singleton (soft_contracts hard f) \<longrightarrow> c = None \<or> c = Some hard)"
  proof (cases "gr_contract row")
    case None
    then have "soft_contracts hard f = {}" using assms(1) by (simp add: row_tracks_def)
    then show ?thesis using None c by (auto simp: either_def is_singleton_def)
  next
    case (Some d)
    then have d: "d \<in> soft_contracts hard f" "gr_conflict row = Some True \<longleftrightarrow> soft_contracts hard f \<noteq> {d}" "d \<noteq> hard"
      using assms(1) by (simp_all add: row_tracks_def soft_contracts_def)
    show ?thesis
    proof (cases "soft_contracts hard f = {d}")
      case True
      then show ?thesis using Some c d by (simp add: either_def)
    next
      case False
      then have "\<not> is_singleton (soft_contracts hard f)" using d(1) by (metis is_singletonE singletonD)
      then show ?thesis using False d(2) c by simp
    qed
  qed
  then show "is_singleton (soft_contracts hard f) \<Longrightarrow> c = Some (the_elem (soft_contracts hard f)) \<and> c \<noteq> Some hard"
    and "\<not> is_singleton (soft_contracts hard f) \<Longrightarrow> c = None \<or> c = Some hard" by blast+
qed

lemma pv_contract_cases:
  assumes "values_inv hard F pv"
  shows "is_singleton (soft_contracts hard (F p)) \<Longrightarrow>
      pv_contract hard pv p = Some (the_elem (soft_contracts hard (F p))) \<and> \<not> hard_or_none hard (pv_contract hard pv p)"
    and "\<not> is_singleton (soft_contracts hard (F p)) \<Longrightarrow> hard_or_none hard (pv_contract hard pv p)"
proof -
  have "row_tracks hard (F p) (row_at pv p)" using assms by (simp add: values_inv_def)
  from row_tracks_contract [OF this refl] show
    "is_singleton (soft_contracts hard (F p)) \<Longrightarrow>
      pv_contract hard pv p = Some (the_elem (soft_contracts hard (F p))) \<and> \<not> hard_or_none hard (pv_contract hard pv p)"
    and "\<not> is_singleton (soft_contracts hard (F p)) \<Longrightarrow> hard_or_none hard (pv_contract hard pv p)"
    unfolding row_at_contract [symmetric] by (auto simp: hard_or_none_def isHardIdentityContractId_def)
qed

lemma singleton_value:
  assumes "is_singleton (soft_contracts hard f)"
  shows "product_value hard f = f (the_elem (soft_contracts hard f))" "product_value hard f \<noteq> None" "\<not> contract_conflict hard f"
proof -
  from assms obtain c where c: "soft_contracts hard f = {c}" by (auto simp: is_singleton_def)
  then have "f c \<noteq> None" by (auto simp: soft_contracts_def)
  then show "product_value hard f = f (the_elem (soft_contracts hard f))" "product_value hard f \<noteq> None" "\<not> contract_conflict hard f"
    by (auto simp: product_value_def contract_conflict_def c)
qed

lemma crossContractConflict_spec:
  assumes "values_inv hard F pv" "values_inv hard G qv"
  shows "crossContractConflict hard pv qv p \<longleftrightarrow> cross_conflict hard (F p) (G p)"
proof (cases "is_singleton (soft_contracts hard (F p)) \<and> is_singleton (soft_contracts hard (G p))")
  case True
  have "pv_has pv p" "pv_has qv p"
    using singleton_value(2) True values_invD(1) [OF assms(1)] values_invD(1) [OF assms(2)] by (auto simp: pv_has_def)
  moreover have "the_elem (soft_contracts hard (F p)) = the_elem (soft_contracts hard (G p)) \<longleftrightarrow> soft_contracts hard (F p) = soft_contracts hard (G p)"
    using True by (auto simp: is_singleton_def)
  ultimately show ?thesis
    using True pv_contract_cases(1) [OF assms(1), of p] pv_contract_cases(1) [OF assms(2), of p]
    by (auto simp: crossContractConflict_def cross_conflict_def hard_or_none_def)
next
  case False
  then have "hard_or_none hard (pv_contract hard pv p) \<or> hard_or_none hard (pv_contract hard qv p)"
    using pv_contract_cases(2) [OF assms(1), of p] pv_contract_cases(2) [OF assms(2), of p] by blast
  then show ?thesis using False by (auto simp: crossContractConflict_def cross_conflict_def hard_or_none_def)
qed

definition band_grades :: "string \<Rightarrow> bound_field \<Rightarrow> (string \<Rightarrow> string \<Rightarrow> int option) \<Rightarrow> (string \<Rightarrow> string \<Rightarrow> int option) \<Rightarrow> bool" where
  "band_grades hard b F G \<longleftrightarrow>
     (\<exists>p g. bf_preparation b = Some p \<and> bf_guaranteed_preparation b = Some g \<and> bf_values b = pf_values p \<and>
        bf_guaranteed_values b = Some (pf_values g) \<and> values_inv hard F (pf_values p) \<and> values_inv hard G (pf_values g))"

lemma projected_conflict_spec:
  "band_grades hard b F G \<Longrightarrow>
     projected_conflict hard b (bf_guaranteed_preparation b) i \<longleftrightarrow> bands_incomparable hard (F i) (G i)"
  by (auto simp: band_grades_def projected_conflict_def band_conflicted_def bands_incomparable_def crossContractConflict_spec values_invD(2))

text \<open>Without a conflict the contracts have as many soft contracts as the grade rule distinguishes.\<close>

lemma comparable_soft:
  assumes "\<not> bands_incomparable hard f g"
  shows "soft_contracts hard f = {} \<or> is_singleton (soft_contracts hard f)" "soft_contracts hard g = {} \<or> is_singleton (soft_contracts hard g)"
    "is_singleton (soft_contracts hard f) \<and> is_singleton (soft_contracts hard g) \<Longrightarrow> soft_contracts hard f = soft_contracts hard g"
  using assms by (auto simp: bands_incomparable_def contract_conflict_def cross_conflict_def)

lemma projected_grade:
  assumes bands: "band_grades hard b F G"
  shows "fv_milligrades (projectedValue hard key b (bf_guaranteed_values b) (bf_guaranteed_preparation b) residualHigh invalidated) =
    joint_grade hard (F (productStateNodeId key)) (G (productStateNodeId key))"
proof -
  let ?i = "productStateNodeId key"
  let ?f = "F ?i" and ?g = "G ?i"
  obtain p g where b: "bf_preparation b = Some p" "bf_guaranteed_preparation b = Some g" "bf_values b = pf_values p"
    "bf_guaranteed_values b = Some (pf_values g)" and F: "values_inv hard F (pf_values p)" and G: "values_inv hard G (pf_values g)"
    using bands by (auto simp: band_grades_def)
  have vals: "pv_get (pf_values p) ?i = product_value hard ?f" "pv_get (pf_values g) ?i = product_value hard ?g"
    by (simp_all add: values_invD(1) [OF F] values_invD(1) [OF G])
  let ?c = "pv_contract hard (pf_values p) ?i" and ?d = "pv_contract hard (pf_values g) ?i"
  note conf = projected_conflict_spec [OF bands, of ?i, unfolded b]
  have reads: "projectedValue hard key b (bf_guaranteed_values b) (bf_guaranteed_preparation b) residualHigh invalidated =
      projectedValue hard key b (Some (pf_values g)) (Some g) residualHigh invalidated" by (simp add: b)
  show ?thesis
  proof (cases "bands_incomparable hard ?f ?g")
    case True
    then show ?thesis unfolding reads by (simp add: projectedValue_def Let_def conf joint_grade_def)
  next
    case False
    note soft = comparable_soft [OF False]
    have none: "\<not> is_singleton ({} :: string set)" by (simp add: is_singleton_def)
    have kind: "hard_or_none hard ?c \<longleftrightarrow> soft_contracts hard ?f = {}" "hard_or_none hard ?d \<longleftrightarrow> soft_contracts hard ?g = {}"
      using soft(1,2) pv_contract_cases [OF F, of ?i] pv_contract_cases [OF G, of ?i] none by auto
    have same: "?c = ?d" if "soft_contracts hard ?f \<noteq> {}" "soft_contracts hard ?g \<noteq> {}"
      using that soft pv_contract_cases(1) [OF F, of ?i] pv_contract_cases(1) [OF G, of ?i] by auto
    show ?thesis
      unfolding reads using False kind same
      by (auto simp: projectedValue_def shown_grade_def Let_def conf joint_grade_def b band_value_def band_contract_def vals
          split: option.split prod.split)
  qed
qed

lemma run_bands:
  assumes "charged_run hard b S T SG TG" "rows_ok S T" "rows_ok SG TG"
  obtains p g where "bf_preparation b = Some p" "bf_guaranteed_preparation b = Some g" "field_run hard p S T" "field_run hard g SG TG"
    "band_grades hard b (contract_grades p) (contract_grades g)" "bf_values b = pf_values p" "bf_guaranteed_values b = Some (pf_values g)"
    "bf_solver_complete b \<longleftrightarrow> fieldGraphComplete p \<and> fieldGraphComplete g" "binding_inv hard b S T SG TG"
proof -
  have inv: "binding_inv hard b S T SG TG" by (rule charged_run_inv(1) [OF assms])
  then obtain p g where b: "bf_preparation b = Some p" "bf_guaranteed_preparation b = Some g" "field_run hard p S T" "field_run hard g SG TG"
    "bf_values b = pf_values p" "bf_guaranteed_values b = Some (pf_values g)"
    "bf_solver_complete b \<longleftrightarrow> fieldGraphComplete p \<and> fieldGraphComplete g" by (auto simp: binding_inv_def)
  obtain S0 T0 where "field_inv hard p S0 T0" by (rule run_field_inv [OF b(3) assms(2)])
  moreover obtain S1 T1 where "field_inv hard g S1 T1" by (rule run_field_inv [OF b(4) assms(3)])
  ultimately have "band_grades hard b (contract_grades p) (contract_grades g)" using b by (simp add: band_grades_def field_inv_def)
  with that b inv show ?thesis by blast
qed

lemma incomparable_summary:
  assumes "binding_inv hard b S T SG TG" "band_grades hard b F G"
  shows "fs_has_incomparable_activations (bf_snapshot b) \<longleftrightarrow> (\<exists>p. bands_incomparable hard (F p) (G p))"
proof -
  from assms(1) obtain p g cross where b: "bf_preparation b = Some p" "bf_guaranteed_preparation b = Some g"
    "table_ok cross (crossContractConflict hard (pf_values p) (pf_values g))"
    "fs_has_incomparable_activations (bf_snapshot b) =
       (ct_count cross > 0 \<or> pv_conflictCount (pf_values p) > 0 \<or> pv_conflictCount (pf_values g) > 0)"
    unfolding binding_inv_def by blast
  from assms(2) b(1,2) have F: "values_inv hard F (pf_values p)" and G: "values_inv hard G (pf_values g)"
    by (simp_all add: band_grades_def)
  have pos: "int (card A) > 0 \<longleftrightarrow> A \<noteq> {}" if "finite A" for A :: "string set" using that by (simp add: card_gt_0_iff)
  have "ct_count cross > 0 \<longleftrightarrow> (\<exists>q. cross_conflict hard (F q) (G q))"
    using b(3) pos [OF table_finite [OF b(3)]] by (auto simp: table_ok_def crossContractConflict_spec [OF F G])
  moreover have "pv_conflictCount pv > 0 \<longleftrightarrow> (\<exists>q. contract_conflict hard (H q))" if "values_inv hard H pv" for H pv
    using that pos [OF finite_readable(2), of pv] values_invD(2) [OF that] by (auto simp: values_inv_def)
  ultimately show ?thesis using F G unfolding b(4) bands_incomparable_def by blast
qed

text \<open>C2: 
  when both bands are complete, what the binding shows is the field of all rows absorbed over all solves,
  whatever their allowances were: the possible values are the best grades of the possible rows, a
  projected product shows the joint grade of its possible and its guaranteed best grades, and the
  snapshot reports incomparable activations exactly when the contracts of some product cannot be compared.
\<close>

theorem complete_solve_shows_the_field:
  assumes "charged_run hard b S T SG TG" "rows_ok S T" "rows_ok SG TG" "bf_solver_complete b"
  shows "\<exists>F G. (\<forall>p c. best_grade hard S T c p (F p c)) \<and> (\<forall>p c. best_grade hard SG TG c p (G p c)) \<and>
    (\<forall>p. pv_get (bf_values b) p = product_value hard (F p)) \<and>
    (\<forall>key residualHigh invalidated.
       fv_milligrades (projectedValue hard key b (bf_guaranteed_values b) (bf_guaranteed_preparation b) residualHigh invalidated) =
         joint_grade hard (F (canonicalProductIdentity key)) (G (canonicalProductIdentity key))) \<and>
    (fs_has_incomparable_activations (bf_snapshot b) \<longleftrightarrow> (\<exists>p. bands_incomparable hard (F p) (G p)))"
proof -
  obtain p g where b: "field_run hard p S T" "field_run hard g SG TG" "bf_values b = pf_values p"
    "band_grades hard b (contract_grades p) (contract_grades g)" "bf_preparation b = Some p"
    "bf_solver_complete b \<longleftrightarrow> fieldGraphComplete p \<and> fieldGraphComplete g" "binding_inv hard b S T SG TG"
    by (rule run_bands [OF assms(1-3)])
  have "pv_get (bf_values b) q = product_value hard (contract_grades p q)" for q
    using b(4,5) values_invD(1) [of hard "contract_grades p" "pf_values p"] by (auto simp: band_grades_def)
  then show ?thesis
    using complete_run_field(1) [OF b(1) assms(2)] complete_run_field(1) [OF b(2) assms(3)] b(6) assms(4) projected_grade [OF b(4)] incomparable_summary [OF b(7,4)]
    by (intro exI [of _ "contract_grades p"] exI [of _ "contract_grades g"]) (simp add: productStateNodeId_def)
qed

section \<open>Bounds\<close>

definition on_scale :: "int option \<Rightarrow> bool" where
  "on_scale v = (case v of None \<Rightarrow> True | Some g \<Rightarrow> 0 \<le> g \<and> g \<le> 1000)"

text \<open>What the schema of a field value asks, and that its interval holds its grade.\<close>

definition field_value_ok :: "field_value \<Rightarrow> bool" where
  "field_value_ok v =
     (case fv_activation v of
        Reachable g contract \<Rightarrow> fv_milligrades v = Some g \<and> fv_cap_contract_id v = contract \<and> 0 \<le> g \<and>
          (case fv_high_milligrades v of None \<Rightarrow> False | Some h \<Rightarrow> g \<le> h \<and> h \<le> 1000) \<and>
          (case fv_low_milligrades v of None \<Rightarrow> True | Some l \<Rightarrow> 0 \<le> l \<and> l \<le> g)
      | _ \<Rightarrow> fv_milligrades v = None \<and> fv_low_milligrades v = None \<and> fv_high_milligrades v = None \<and> fv_cap_contract_id v = None)"

lemma valueBounds_ok:
  assumes "0 \<le> g" "g \<le> 1000" "on_scale residualHigh" "case admitted of None \<Rightarrow> True | Some a \<Rightarrow> 0 \<le> a \<and> a \<le> g"
  shows "case valueBounds g admitted residualHigh invalidated done_p of (l, h) \<Rightarrow>
    g \<le> h \<and> h \<le> 1000 \<and> (case l of None \<Rightarrow> True | Some a \<Rightarrow> 0 \<le> a \<and> a \<le> g)"
  using assms
  by (cases admitted; cases residualHigh) (simp_all add: valueBounds_def on_scale_def MILLIGRADE_BOTTOM_def MILLIGRADE_TOP_def)

lemma shown_grade_ok:
  assumes "shown_grade x l same use = Some g" "on_scale x" "on_scale l"
  shows "0 \<le> g \<and> g \<le> 1000 \<and> (case admitted_low l same use of None \<Rightarrow> True | Some a \<Rightarrow> 0 \<le> a \<and> a \<le> g)"
  using assms by (cases x; cases l; cases same; cases use) (auto simp: shown_grade_def admitted_low_def on_scale_def)

lemma projected_value_ok:
  assumes x: "on_scale (pv_get (bf_values b) (productStateNodeId key))" and l: "on_scale (band_value lower (productStateNodeId key))"
    and r: "on_scale residualHigh"
  shows "field_value_ok (projectedValue hard key b lower lowerPreparation residualHigh invalidated)"
proof -
  have ok: "field_value_ok (case valueBounds g (admitted_low (band_value lower (productStateNodeId key)) same use) residualHigh invalidated complete of
      (lo, hi) \<Rightarrow> base\<lparr>fv_activation := Reachable g c, fv_milligrades := Some g, fv_cap_contract_id := c,
        fv_low_milligrades := lo, fv_high_milligrades := Some hi\<rparr>)"
    if "shown_grade (pv_get (bf_values b) (productStateNodeId key)) (band_value lower (productStateNodeId key)) same use = Some g"
    for g same use complete base c
    using shown_grade_ok [OF that x l] valueBounds_ok [of g residualHigh "admitted_low (band_value lower (productStateNodeId key)) same use" invalidated complete] r
    by (auto simp: field_value_ok_def split: prod.splits)
  show ?thesis
  proof (cases "projected_conflict hard b lowerPreparation (productStateNodeId key)")
    case True
    then show ?thesis by (simp add: projectedValue_def Let_def field_value_ok_def)
  next
    case False
    show ?thesis
      unfolding projectedValue_def Let_def
      by (simp only: False if_False, split option.split, intro conjI impI allI, simp add: field_value_ok_def, erule ok)
  qed
qed

section \<open>With enough work and memory a solve completes\<close>

lemma step_any_budget:
  "at_bytes atom \<le> a \<Longrightarrow> stepFieldGraph hard st a atom = stepFieldGraph hard st (at_bytes atom) atom"
  by (simp add: stepFieldGraph_def)

lemma memory_independent:
  "usePossible (s\<lparr>sl_memory := m\<rparr>) = usePossible s" "next_atom (s\<lparr>sl_memory := m\<rparr>) = next_atom s"
  "solve_steps (s\<lparr>sl_memory := m\<rparr>) = solve_steps s" "live_bytes (s\<lparr>sl_memory := m\<rparr>) = live_bytes s"
  "possibleRunnable (s\<lparr>sl_memory := m\<rparr>) = possibleRunnable s" "guaranteedRunnable (s\<lparr>sl_memory := m\<rparr>) = guaranteedRunnable s"
  by (simp_all add: usePossible_def possibleRunnable_def guaranteedRunnable_def next_atom_def solve_steps_def live_bytes_def)

text \<open>Memory is only compared and charged: a step with more of it leaves the rest over.\<close>

lemma charge_step_any_memory:
  assumes "charge_step hard (s\<lparr>sl_memory := int (at_bytes (next_atom s))\<rparr>) = Returned t" "int (at_bytes (next_atom s)) \<le> m"
  shows "charge_step hard (s\<lparr>sl_memory := m\<rparr>) = Returned (t\<lparr>sl_memory := sl_memory t + (m - int (at_bytes (next_atom s)))\<rparr>)"
proof -
  have budget: "stepFieldGraph hard st (nat m) (next_atom s) = stepFieldGraph hard st (at_bytes (next_atom s)) (next_atom s)" for st
    by (rule step_any_budget) (use assms(2) in simp)
  show ?thesis
    using assms(1)
    by (auto simp: charge_step_def step_band_def outcome_then_Returned memory_independent budget Let_def live_bytes_def)
qed

definition smaller_bands :: "string \<Rightarrow> ((prepared_field_graph \<times> prepared_field_graph) \<times> (prepared_field_graph \<times> prepared_field_graph)) set" where
  "smaller_bands hard = {((p', g'), (p, g)). paid_step hard p' p \<and> g' = g \<or> p' = p \<and> paid_step hard g' g}"

lemma smaller_bands_acc:
  assumes "Wellfounded.accp (paid_step hard) p" "Wellfounded.accp (paid_step hard) g"
  shows "(p, g) \<in> Wellfounded.acc (smaller_bands hard)"
  using assms
proof (induction arbitrary: g rule: accp_induct_rule)
  case (1 p)
  show ?case
    using "1.prems"
  proof (induction rule: accp_induct_rule)
    case inner: (1 g)
    show ?case
    proof (rule accI)
      fix q
      assume "(q, (p, g)) \<in> smaller_bands hard"
      then show "q \<in> Wellfounded.acc (smaller_bands hard)"
        using "1.IH" inner.IH inner.hyps by (auto simp: smaller_bands_def intro: accp.accI)
    qed
  qed
qed

lemma charge_step_smaller:
  assumes "charge_step hard s = Returned t" "possibleRunnable s \<or> guaranteedRunnable s" "int (at_bytes (next_atom s)) \<le> sl_memory s"
  shows "((sl_possible t, sl_guaranteed t), (sl_possible s, sl_guaranteed s)) \<in> smaller_bands hard"
proof -
  have budget: "stepFieldGraph hard st (nat (sl_memory s)) (next_atom s) = stepFieldGraph hard st (at_bytes (next_atom s)) (next_atom s)" for st
    by (rule step_any_budget) (use assms(3) in simp)
  show ?thesis
  proof (cases "usePossible s")
    case True
    then have "\<not> fieldGraphComplete (sl_possible s)" using assms(2) by (auto simp: usePossible_def possibleRunnable_def)
    moreover have "next_atom s = nextFieldGraphAtom (sl_possible s) (size_of (ct_products (sl_cross s)))"
      using True by (simp add: next_atom_def)
    moreover have "stepFieldGraph hard (sl_possible s) (at_bytes (next_atom s)) (next_atom s) = Returned (sl_possible t) \<and>
        sl_guaranteed t = sl_guaranteed s"
      using True assms(1) by (auto simp: charge_step_def step_band_def outcome_then_Returned budget Let_def)
    ultimately show ?thesis unfolding smaller_bands_def paid_step_def by auto
  next
    case False
    then have "\<not> fieldGraphComplete (sl_guaranteed s)" by (auto simp: usePossible_def guaranteedRunnable_def)
    moreover have "next_atom s = nextFieldGraphAtom (sl_guaranteed s) (size_of (ct_products (sl_cross s)))"
      using False by (simp add: next_atom_def)
    moreover have "stepFieldGraph hard (sl_guaranteed s) (at_bytes (next_atom s)) (next_atom s) = Returned (sl_guaranteed t) \<and>
        sl_possible t = sl_possible s"
      using False assms(1) by (auto simp: charge_step_def step_band_def outcome_then_Returned budget Let_def)
    ultimately show ?thesis unfolding smaller_bands_def paid_step_def by auto
  qed
qed

definition open_solve :: "solve_state \<Rightarrow> bool" where
  "open_solve s \<longleftrightarrow> \<not> sl_possibleBlocked s \<and> \<not> sl_guaranteedBlocked s"

lemma charge_step_open: "charge_step hard s = Returned t \<Longrightarrow> open_solve s \<Longrightarrow> open_solve t"
  by (auto simp: charge_step_def step_band_def outcome_then_Returned Let_def open_solve_def split: if_splits)

lemma loop_completes:
  assumes "(sl_possible s, sl_guaranteed s) \<in> Wellfounded.acc (smaller_bands hard)" "solve_inv hard s S T SG TG" "rows_ok S T" "rows_ok SG TG"
    "open_solve s"
  shows "\<exists>n m. \<forall>allowance mem. int (n + solve_steps s) \<le> allowance \<and> m \<le> mem \<longrightarrow>
    (\<exists>t. solve_loop hard allowance (s\<lparr>sl_memory := mem\<rparr>) = Returned t \<and> fieldGraphComplete (sl_possible t) \<and> fieldGraphComplete (sl_guaranteed t))"
  using assms
proof (induction "(sl_possible s, sl_guaranteed s)" arbitrary: s rule: acc_induct_rule)
  case 1
  show ?case
  proof (cases "fieldGraphComplete (sl_possible s) \<and> fieldGraphComplete (sl_guaranteed s)")
    case True
    then have "solve_loop hard allowance (s\<lparr>sl_memory := mem\<rparr>) = Returned (s\<lparr>sl_memory := mem\<rparr>)" for allowance mem
      by (subst solve_loop.simps) simp
    then show ?thesis using True by simp
  next
    case False
    let ?c = "int (at_bytes (next_atom s))" let ?s = "s\<lparr>sl_memory := int (at_bytes (next_atom s))\<rparr>"
    have some: "possibleRunnable s \<or> guaranteedRunnable s"
      using False "1.prems"(4) by (auto simp: open_solve_def possibleRunnable_def guaranteedRunnable_def)
    have inv: "solve_inv hard ?s S T SG TG" using "1.prems"(1,4) by (simp add: solve_inv_def open_solve_def)
    have some': "possibleRunnable ?s \<or> guaranteedRunnable ?s" and paid: "int (at_bytes (next_atom ?s)) \<le> sl_memory ?s"
      using some by (simp_all add: memory_independent)
    from charge_step_inv [OF inv "1.prems"(2,3) some' paid] obtain t where t: "charge_step hard ?s = Returned t" "solve_inv hard t S T SG TG"
      by blast
    have smaller: "((sl_possible t, sl_guaranteed t), (sl_possible s, sl_guaranteed s)) \<in> smaller_bands hard"
      using charge_step_smaller [OF t(1) some' paid] by simp
    have opened: "open_solve t" using charge_step_open [OF t(1)] "1.prems"(4) by (simp add: open_solve_def)
    have steps: "solve_steps t = Suc (solve_steps s)" using charge_step_steps [OF t(1)] by (simp add: memory_independent)
    from "1.hyps"(2) [OF smaller t(2) "1.prems"(2,3) opened] obtain n m where
      later: "\<And>allowance mem. int (n + solve_steps t) \<le> allowance \<Longrightarrow> m \<le> mem \<Longrightarrow>
        \<exists>u. solve_loop hard allowance (t\<lparr>sl_memory := mem\<rparr>) = Returned u \<and> fieldGraphComplete (sl_possible u) \<and> fieldGraphComplete (sl_guaranteed u)"
      by blast
    have "\<exists>u. solve_loop hard allowance (s\<lparr>sl_memory := mem\<rparr>) = Returned u \<and> fieldGraphComplete (sl_possible u) \<and> fieldGraphComplete (sl_guaranteed u)"
      if big: "int (Suc n + solve_steps s) \<le> allowance" "max 0 (m - sl_memory t) + ?c \<le> mem" for allowance mem
    proof -
      have "charge_step hard (s\<lparr>sl_memory := mem\<rparr>) = Returned (t\<lparr>sl_memory := sl_memory t + (mem - ?c)\<rparr>)"
        by (rule charge_step_any_memory [OF t(1)]) (use big(2) in simp)
      then have "solve_loop hard allowance (s\<lparr>sl_memory := mem\<rparr>) = solve_loop hard allowance (t\<lparr>sl_memory := sl_memory t + (mem - ?c)\<rparr>)"
        using some False big by (subst solve_loop.simps) (auto simp: memory_independent outcome_then_def)
      then show ?thesis using later [of allowance "sl_memory t + (mem - ?c)"] big steps by simp
    qed
    then show ?thesis by blast
  qed
qed

text \<open>The allowances decide nothing about where a solve starts.\<close>

abbreviation with_budget :: "charged_state \<Rightarrow> int \<Rightarrow> int \<Rightarrow> int \<Rightarrow> charged_state" where
  "with_budget charged exploration reserve memory \<equiv>
     charged\<lparr>ch_remaining_exploration := exploration, ch_remaining_reserve := reserve, ch_remaining_memory_bytes := memory\<rparr>"

lemma budget_reads:
  "possible_delta (with_budget charged e r m) = possible_delta charged" "guaranteed_delta (with_budget charged e r m) = guaranteed_delta charged"
  "possible_rows (with_budget charged e r m) = possible_rows charged" "guaranteed_rows (with_budget charged e r m) = guaranteed_rows charged"
  "reusable_prior (with_budget charged e r m) = reusable_prior charged"
  by (simp_all add: possible_delta_def guaranteed_delta_def possible_rows_def guaranteed_rows_def reusable_prior_def split: option.split)

lemma initial_solve_budget:
  "initial_solve (with_budget charged e r m) = (initial_solve charged)\<lparr>sl_memory := m\<rparr>"
  by (simp add: initial_solve_def initial_possible_def initial_guaranteed_def initial_band_def initial_cross_def budget_reads split: option.split)

lemma solve_completes:
  assumes "chargeable hard charged S T SG TG" "rows_ok S T" "rows_ok SG TG"
  shows "\<exists>work bytes. \<forall>allowance memory. work \<le> allowance \<and> bytes \<le> memory \<longrightarrow>
    (\<exists>s. solve_loop hard allowance ((initial_solve charged)\<lparr>sl_memory := memory\<rparr>) = Returned s \<and>
      fieldGraphComplete (sl_possible s) \<and> fieldGraphComplete (sl_guaranteed s))"
proof -
  let ?s = "initial_solve charged"
  have inv: "solve_inv hard ?s S T SG TG" by (rule charged_run_inv(2) [OF assms])
  obtain S0 T0 where "field_inv hard (sl_possible ?s) S0 T0"
    using inv run_field_inv [OF _ assms(2)] by (metis solve_inv_def)
  moreover obtain S1 T1 where "field_inv hard (sl_guaranteed ?s) S1 T1"
    using inv run_field_inv [OF _ assms(3)] by (metis solve_inv_def)
  ultimately have acc: "(sl_possible ?s, sl_guaranteed ?s) \<in> Wellfounded.acc (smaller_bands hard)"
    by (intro smaller_bands_acc field_ends)
  have opened: "open_solve ?s" and zero: "solve_steps ?s = 0" by (simp_all add: open_solve_def initial_solve_def solve_steps_def)
  from loop_completes [OF acc inv assms(2,3) opened] show ?thesis unfolding zero add_0_right by blast
qed

text \<open>C12: 
  a charged solve is never stuck: for every state that can be charged there is an amount of work and of
  memory with which, and with more, the solve completes both bands.
\<close>

theorem charged_solve_completes:
  assumes "chargeable hard charged S T SG TG" "rows_ok S T" "rows_ok SG TG"
  shows "\<exists>work bytes. \<forall>exploration reserve memory. work \<le> exploration + reserve \<and> bytes \<le> memory \<longrightarrow>
    (\<exists>r. bindChargedField hard (with_budget charged exploration reserve memory) remainingWork = Returned r \<and> cb_complete r)"
proof -
  from solve_completes [OF assms] obtain work bytes where
    loop: "\<And>allowance memory. work \<le> allowance \<Longrightarrow> bytes \<le> memory \<Longrightarrow>
      \<exists>s. solve_loop hard allowance ((initial_solve charged)\<lparr>sl_memory := memory\<rparr>) = Returned s \<and>
        fieldGraphComplete (sl_possible s) \<and> fieldGraphComplete (sl_guaranteed s)" by blast
  have "\<exists>r. bindChargedField hard (with_budget charged exploration reserve memory) remainingWork = Returned r \<and> cb_complete r"
    if "work \<le> exploration + reserve" "bytes \<le> memory" for exploration reserve memory
    using loop [OF that] by (auto simp: bindChargedField_def initial_solve_budget outcome_then_def charged_result_fields)
  then show ?thesis by blast
qed

lemma run_value_scale:
  assumes "field_run hard st S T" "rows_ok S T"
  shows "on_scale (pv_get (pf_values st) q)"
proof (cases "pv_get (pf_values st) q")
  case (Some v)
  obtain S0 T0 where inv: "field_inv hard st S0 T0" "S0 \<subseteq> S" "T0 \<subseteq> T" by (rule run_field_inv [OF assms])
  then have solver: "solver_inv hard st S0 T0" and vals: "values_inv hard (contract_grades st) (pf_values st)" by (simp_all add: field_inv_def)
  have "product_value hard (contract_grades st q) = Some v" using Some values_invD(1) [OF vals] by simp
  then obtain c where c: "contract_grades st q c = Some v" by (auto simp: product_value_def split: if_splits)
  have "\<forall>i g. pm_get (pf_numericValues st) i = Some g \<longrightarrow> (\<exists>d p. i = partition_id d p \<and> field_grade hard S0 T0 d p g)"
    using solver by (simp add: solver_inv_def grades_ok_def)
  then have "\<exists>d p. field_grade hard S0 T0 d p v" using c unfolding contract_grades_def by blast
  moreover have "\<forall>t \<in> T0. 0 \<le> ft_strength_milligrades t" using assms(2) inv(3) by (auto simp: rows_ok_def)
  ultimately show ?thesis using field_grade_scale Some by (fastforce simp: on_scale_def)
qed (simp add: on_scale_def)

text \<open>C23: 
  every value of a snapshot passes its schema, complete or not: an incomparable or unreachable product
  has no grade, bound or contract, and a reachable one shows a grade on the scale that lies between its
  bounds, whatever the residual regions and the interruption of the solve were.
\<close>

theorem snapshot_values_pass_their_schema:
  assumes "chargeable hard charged S T SG TG" "rows_ok S T" "rows_ok SG TG" "regions_ok (ch_residuals charged)"
  shows "\<exists>r b. bindChargedField hard charged remainingWork = Returned r \<and> cb_binding r = Bound b \<and>
    list_all field_value_ok (fs_values (bf_snapshot b))"
proof -
  obtain s where s: "bindChargedField hard charged remainingWork = Returned (charged_result_of hard charged remainingWork s)"
    "solve_inv hard s S T SG TG" by (rule charge_returns [OF assms(1-3)])
  let ?p = "br_binding (bandResult hard charged (sl_possible s) (sl_possibleSteps s) False)"
  let ?upper = "residualGradeUpper (ch_residuals charged) \<lparr>rc_certificate = None\<rparr>"
  have "on_scale ?upper" using residualGradeUpper_scale [OF assms(4)] by (simp add: on_scale_def split: option.split)
  moreover have "on_scale (pv_get (pf_values (sl_possible s)) q)" "on_scale (pv_get (pf_values (sl_guaranteed s)) q)" for q
    using s(2) run_value_scale assms(2,3) by (auto simp: solve_inv_def)
  ultimately have "field_value_ok (projectedValue hard key ?p (Some (pf_values (sl_guaranteed s))) lp ?upper invalidated)" for key lp invalidated
    by (intro projected_value_ok) (simp_all add: bandResult_def preparedFieldBinding_def band_value_def)
  then show ?thesis unfolding s(1)
    by (simp add: charged_result_of_def annotateBounds_def Let_def list_all_iff)
      (simp add: bandResult_def preparedFieldBinding_def)
qed

section \<open>A sample\<close>

text \<open>The rows of the sample of the preparation in both bands.\<close>

definition sample_charged :: charged_state where
  "sample_charged =
     \<lparr>ch_query_id = ''q'', ch_snapshot_id = ''s'', ch_proven_binding = None, ch_binding_delta = None,
      ch_seeds = ad_seeds sample_batch, ch_guaranteed_seeds = ad_seeds sample_batch,
      ch_transitions = ad_transitions sample_batch, ch_guaranteed_transitions = ad_transitions sample_batch,
      ch_facets = [], ch_identity_index = None, ch_residuals = [], ch_remaining_memory_bytes = 4000,
      ch_solver_retained_bytes = None, ch_remaining_exploration = 1, ch_remaining_reserve = 1, ch_memory_exhausted = False\<rparr>"

lemma sample_chargeable:
  "chargeable ''h'' (with_budget sample_charged e r m) (set (ad_seeds sample_batch)) (set (ad_transitions sample_batch))
     (set (ad_seeds sample_batch)) (set (ad_transitions sample_batch))"
proof -
  have "reusable_prior (with_budget sample_charged e r m) = None"
    by (simp add: reusable_prior_def bound_of_def sample_charged_def)
  from charged_run_chargeable.fresh [OF this, of "''h''"] show ?thesis by (simp add: sample_charged_def)
qed

lemma sample_charged_budget: "with_budget sample_charged 1 1 4000 = sample_charged"
  by (simp add: sample_charged_def)

lemma sample_chargeable_as_is:
  "chargeable ''h'' sample_charged (set (ad_seeds sample_batch)) (set (ad_transitions sample_batch))
     (set (ad_seeds sample_batch)) (set (ad_transitions sample_batch))"
  using sample_chargeable [where e = 1 and r = 1 and m = 4000] by (simp only: sample_charged_budget)

lemma charged_solve_accounts_witness:
  "\<exists>r. bindChargedField ''h'' sample_charged [] = Returned r \<and> 0 \<le> cb_remaining_memory_bytes r \<and>
     cb_remaining_memory_bytes r + cb_solver_retained_bytes r = 4000"
proof -
  have budget: "0 \<le> ch_remaining_exploration sample_charged" "0 \<le> ch_remaining_reserve sample_charged"
    "0 \<le> ch_remaining_memory_bytes sample_charged" by (simp_all add: sample_charged_def)
  from charged_solve_accounts [OF sample_chargeable_as_is sample_rows sample_rows budget, of "[]"]
  show ?thesis by (auto simp: sample_charged_def)
qed

lemma charged_solve_completes_witness:
  "\<exists>e m r. bindChargedField ''h'' (with_budget sample_charged e 0 m) [] = Returned r \<and> cb_complete r"
proof -
  from charged_solve_completes [OF sample_chargeable_as_is sample_rows sample_rows, of "[]"] obtain work bytes where
    "\<And>e r m. work \<le> e + r \<Longrightarrow> bytes \<le> m \<Longrightarrow> \<exists>x. bindChargedField ''h'' (with_budget sample_charged e r m) [] = Returned x \<and> cb_complete x"
    by blast
  from this [where e = work and r = 0 and m = bytes] show ?thesis by auto
qed

lemma snapshot_values_pass_their_schema_witness:
  "\<exists>r b. bindChargedField ''h'' sample_charged [] = Returned r \<and> cb_binding r = Bound b \<and> list_all field_value_ok (fs_values (bf_snapshot b))"
proof -
  have "regions_ok (ch_residuals sample_charged)" by (simp add: regions_ok_def sample_charged_def)
  from snapshot_values_pass_their_schema [OF sample_chargeable_as_is sample_rows sample_rows this, of "[]"] show ?thesis .
qed

text \<open>A completed sample: the generic form of the liveness argument, for the witness of the refinement.\<close>

lemma sample_completes:
  "\<exists>b. charged_run ''h'' b (set (ad_seeds sample_batch)) (set (ad_transitions sample_batch))
     (set (ad_seeds sample_batch)) (set (ad_transitions sample_batch)) \<and> bf_solver_complete b"
proof -
  obtain e m where done_r: "\<exists>s. solve_loop ''h'' e ((initial_solve sample_charged)\<lparr>sl_memory := m\<rparr>) = Returned s \<and>
      fieldGraphComplete (sl_possible s) \<and> fieldGraphComplete (sl_guaranteed s)"
    using solve_completes [OF sample_chargeable_as_is sample_rows sample_rows] by blast
  then obtain s where s: "solve_loop ''h'' e ((initial_solve sample_charged)\<lparr>sl_memory := m\<rparr>) = Returned s"
    "fieldGraphComplete (sl_possible s)" "fieldGraphComplete (sl_guaranteed s)" by blast
  let ?c = "with_budget sample_charged e 0 m"
  obtain b where b: "cb_binding (charged_result_of ''h'' ?c [] s) = Bound b" "bf_preparation b = Some (sl_possible s)"
    "bf_guaranteed_preparation b = Some (sl_guaranteed s)" using charged_result_binding by blast
  have "bindChargedField ''h'' ?c [] = Returned (charged_result_of ''h'' ?c [] s)"
    using s(1) by (simp add: bindChargedField_def initial_solve_budget outcome_then_def)
  from charged_run_chargeable.solved [OF sample_chargeable this b(1)] have run:
    "charged_run ''h'' b (set (ad_seeds sample_batch)) (set (ad_transitions sample_batch))
      (set (ad_seeds sample_batch)) (set (ad_transitions sample_batch))" .
  from charged_run_inv(1) [OF this sample_rows sample_rows] b(2,3) s(2,3) have "bf_solver_complete b" by (auto simp: binding_inv_def)
  with run show ?thesis by blast
qed

lemma complete_solve_shows_the_field_witness:
  "\<exists>b :: bound_field. bf_solver_complete b \<and> pv_get (bf_values b) (canonicalProductIdentity (sample_key ''b'')) = Some 300"
proof -
  obtain b where b: "charged_run ''h'' b (set (ad_seeds sample_batch)) (set (ad_transitions sample_batch))
      (set (ad_seeds sample_batch)) (set (ad_transitions sample_batch))" "bf_solver_complete b" using sample_completes by blast
  from complete_solve_shows_the_field [OF b(1) sample_rows sample_rows b(2)] obtain F where
    "\<And>p c. best_grade ''h'' (set (ad_seeds sample_batch)) (set (ad_transitions sample_batch)) c p (F p c)"
    "\<And>p. pv_get (bf_values b) p = product_value ''h'' (F p)" by blast
  then have "pv_get (bf_values b) (canonicalProductIdentity (sample_key ''b'')) = Some 300" using sample_best by simp
  with b(2) show ?thesis by blast
qed

end
