(* ===== verification/ReferenceField.thy ===== *)
theory ReferenceField
  imports FieldSolve
begin

text \<open>
  The reference evaluation of the recall field
  (\<^verbatim>\<open>core/src/recall/conditional-field/reference/bind-max-min.ts\<close>): the admission of a request budget, one
  solver call per cap contract over plain tables, and the merge of the contracts into one value per
  product. A JavaScript \<^verbatim>\<open>Map\<close> is an association list in insertion order; the values of a solver call are
  listed in the order of its persistent map.
\<close>

section \<open>Request budgets\<close>

record request_budget =
  rb_work_units :: int
  rb_memory_bytes :: int
  rb_finalization_reserve :: int
  rb_min_envelope :: int

definition admitRequestBudget :: "request_budget \<Rightarrow> bool" where
  "admitRequestBudget budget =
     (if rb_finalization_reserve budget > rb_work_units budget then False
      else (let exploration = rb_work_units budget - rb_finalization_reserve budget
            in if rb_min_envelope budget > exploration then False
               else if rb_min_envelope budget > rb_memory_bytes budget then False
               else True))"

section \<open>Derivation steps\<close>

datatype derivation_kind = Serial | And_step | Or_step | Leaf

definition projectLegalDerivationStep :: "derivation_kind \<Rightarrow> int list \<Rightarrow> int" where
  "projectLegalDerivationStep kind childGrades =
     (case childGrades of
        [] \<Rightarrow> MILLIGRADE_BOTTOM
      | first # _ \<Rightarrow>
          if kind = Leaf then first
          else if kind = Or_step then fold (\<lambda>v grade. if v > grade then v else grade) childGrades MILLIGRADE_BOTTOM
          else fold (\<lambda>v grade. if v < grade then v else grade) childGrades MILLIGRADE_TOP)"

section \<open>One solver call\<close>

record reference_input =
  ri_query_id :: string
  ri_snapshot_id :: string
  ri_seeds :: "seed_activation list"
  ri_transitions :: "field_transition list"
  ri_budget :: request_budget
  ri_facets :: "facet_vector list option"
  ri_prior_values :: "string prior_values option"
  ri_worklist :: "(string, int) work_item list option"
  ri_work_limit :: "nat option"
  ri_identities :: "(string \<times> product_state_key) list option"

record reference_binding =
  rf_values :: "(string \<times> int) list"
  rf_snapshot :: field_snapshot
  rf_solver_steps :: nat
  rf_solver_runs :: nat
  rf_solver_complete :: bool
  rf_remaining_worklist :: "(string, int) work_item list"
  rf_work_queue :: "(string, int) hnode option"

definition collectKeys :: "seed_activation list \<Rightarrow> field_transition list \<Rightarrow> (string \<times> product_state_key) list" where
  "collectKeys seeds transitions =
     js_map (map (\<lambda>s. (productStateNodeId (sd_state s), sd_state s)) seeds @
       concat (map (\<lambda>t. [(productStateNodeId (ft_from t), ft_from t), (productStateNodeId (ft_to t), ft_to t)]) transitions))"

definition toMaxMinTransition :: "field_transition \<Rightarrow> (string, js_number) transition" where
  "toMaxMinTransition t =
     \<lparr>tr_from = productStateNodeId (ft_from t), tr_to = productStateNodeId (ft_to t),
      tr_strength = Finite (of_int (ft_strength_milligrades t))\<rparr>"

text \<open>The text of an integer strength; a solver call without a prepared graph retains no other ones.\<close>

definition strength_text :: "js_number \<Rightarrow> string" where
  "strength_text n = (case n of Finite q \<Rightarrow> js_string_of_int \<lfloor>q\<rfloor> | _ \<Rightarrow> ''NaN'')"

definition transition_key :: "(string, js_number) transition \<Rightarrow> string" where
  "transition_key t = tr_from t @ [CHR 0x00] @ tr_to t @ [CHR 0x00] @ strength_text (tr_strength t)"

definition retainedProtocolTransitions :: "field_transition list \<Rightarrow> (string, js_number) transition list \<Rightarrow> field_transition list" where
  "retainedProtocolTransitions protocolTransitions retained =
     filter (\<lambda>t. transition_key (toMaxMinTransition t) \<in> set (map transition_key retained)) protocolTransitions"

definition numeric_call :: "reference_input \<Rightarrow> (string \<times> product_state_key) list \<Rightarrow> string max_min_input" where
  "numeric_call inp keys =
     \<lparr>mi_nodeIds = map fst keys,
      mi_seeds = js_map (map (\<lambda>s. (productStateNodeId (sd_state s), Finite (of_int (sd_milligrades s)))) (ri_seeds inp)),
      mi_transitions = map toMaxMinTransition (filter ft_applicable (ri_transitions inp)),
      mi_bottom = MILLIGRADE_BOTTOM, mi_top = Finite (of_int MILLIGRADE_TOP),
      mi_priorValues = ri_prior_values inp, mi_worklist = ri_worklist inp, mi_workLimit = ri_work_limit inp,
      mi_preparedGraph = None, mi_workQueue = None\<rparr>"

definition bindNumericMaxMinField :: "reference_input \<Rightarrow> string option \<Rightarrow> reference_binding js_outcome" where
  "bindNumericMaxMinField inp contractId =
     (let keys = (case ri_identities inp of None \<Rightarrow> collectKeys (ri_seeds inp) (ri_transitions inp) | Some ids \<Rightarrow> ids);
          legalTransitions = filter ft_applicable (ri_transitions inp)
      in outcome_then (solveMaxMinField (numeric_call inp keys)) (\<lambda>solved.
         Returned \<lparr>rf_values = entries (mr_values solved),
           rf_snapshot = \<lparr>fs_query_id = ri_query_id inp, fs_snapshot_id = ri_snapshot_id inp,
             fs_has_incomparable_activations = False, fs_seeds = ri_seeds inp,
             fs_values = fieldValues keys (pm_get (mr_values solved)) contractId (\<lambda>_. None) (\<lambda>_. False),
             fs_retained_transitions = retainedProtocolTransitions legalTransitions (mr_retainedTransitions solved),
             fs_facets = list_of_option (ri_facets inp)\<rparr>,
           rf_solver_steps = mr_steps solved, rf_solver_runs = 1, rf_solver_complete = mr_complete solved,
           rf_remaining_worklist = mr_remainingWorklist solved, rf_work_queue = Some (mr_workQueue solved)\<rparr>))"

section \<open>The contracts of a request\<close>

definition normalizeGradeContract :: "string \<Rightarrow> string option \<Rightarrow> string" where
  "normalizeGradeContract hard i = (case i of None \<Rightarrow> hard | Some c \<Rightarrow> if length c = 0 then hard else c)"

definition noted_contracts :: "seed_activation list \<Rightarrow> field_transition list \<Rightarrow> string option list" where
  "noted_contracts seeds transitions =
     map sd_cap_contract_id seeds @ map ft_cap_contract_id (filter ft_applicable transitions)"

definition uniqueGradeContract :: "string \<Rightarrow> seed_activation list \<Rightarrow> field_transition list \<Rightarrow> string" where
  "uniqueGradeContract hard seeds transitions =
     (let notes = noted_contracts seeds transitions;
          raw = remdups (map (\<lambda>i. case i of None \<Rightarrow> '''' | Some c \<Rightarrow> c) notes);
          normalized = remdups (map (normalizeGradeContract hard) notes)
      in if length normalized > 1 then ''mixed''
         else if length raw = 1 \<and> '''' \<in> set raw then ''''
         else (case normalized of [] \<Rightarrow> '''' | c # _ \<Rightarrow> c))"

section \<open>One call per contract\<close>

record contract_group =
  gp_seeds :: "seed_activation list"
  gp_transitions :: "field_transition list"

definition group_at :: "(string \<times> contract_group) list \<Rightarrow> string \<Rightarrow> contract_group" where
  "group_at groups key = (case map_of groups key of None \<Rightarrow> \<lparr>gp_seeds = [], gp_transitions = []\<rparr> | Some g \<Rightarrow> g)"

definition add_seed :: "string \<Rightarrow> seed_activation \<Rightarrow> (string \<times> contract_group) list \<Rightarrow> (string \<times> contract_group) list" where
  "add_seed hard seed groups =
     (let key = normalizeGradeContract hard (sd_cap_contract_id seed); group = group_at groups key
      in AList.update key (group\<lparr>gp_seeds := gp_seeds group @ [seed]\<rparr>) groups)"

definition add_transition :: "string \<Rightarrow> field_transition \<Rightarrow> (string \<times> contract_group) list \<Rightarrow> (string \<times> contract_group) list" where
  "add_transition hard transition groups =
     (if \<not> ft_applicable transition then groups
      else (let key = normalizeGradeContract hard (ft_cap_contract_id transition); group = group_at groups key
            in AList.update key (group\<lparr>gp_transitions := gp_transitions group @ [transition]\<rparr>) groups))"

definition contract_groups :: "string \<Rightarrow> seed_activation list \<Rightarrow> field_transition list \<Rightarrow> (string \<times> contract_group) list" where
  "contract_groups hard seeds transitions = fold (add_transition hard) transitions (fold (add_seed hard) seeds [])"

record merged_values =
  mv_values :: "(string \<times> int) list"
  mv_contractByNode :: "(string \<times> string) list"
  mv_conflicts :: "string list"

definition empty_to_none :: "string \<Rightarrow> string option" where
  "empty_to_none c = (if c = '''' then None else Some c)"

definition merge_value :: "string \<Rightarrow> string \<Rightarrow> string \<times> int \<Rightarrow> merged_values \<Rightarrow> merged_values" where
  "merge_value hard contract row m =
     (let (nodeId, milligrades) = row in
      if nodeId \<in> set (mv_conflicts m) then m
      else (case (map_of (mv_values m) nodeId, map_of (mv_contractByNode m) nodeId) of
          (Some _, Some priorContract) \<Rightarrow>
            if priorContract = contract then m
            else (let keepIncoming = (isHardIdentityContractId hard (empty_to_none priorContract)
                        \<and> \<not> isHardIdentityContractId hard (empty_to_none contract));
                      keepPrior = (isHardIdentityContractId hard (empty_to_none contract)
                        \<and> \<not> isHardIdentityContractId hard (empty_to_none priorContract))
                  in if keepIncoming
                     then m\<lparr>mv_values := AList.update nodeId milligrades (mv_values m),
                            mv_contractByNode := AList.update nodeId contract (mv_contractByNode m)\<rparr>
                     else if \<not> keepPrior
                     then m\<lparr>mv_values := AList.delete nodeId (mv_values m),
                            mv_contractByNode := AList.delete nodeId (mv_contractByNode m),
                            mv_conflicts := mv_conflicts m @ [nodeId]\<rparr>
                     else m)
        | _ \<Rightarrow> m\<lparr>mv_values := AList.update nodeId milligrades (mv_values m),
                 mv_contractByNode := AList.update nodeId contract (mv_contractByNode m)\<rparr>))"

record partition_state =
  pt_merged :: merged_values
  pt_parts :: "reference_binding list"
  pt_steps :: nat
  pt_complete :: bool

primrec bind_groups :: "string \<Rightarrow> reference_input \<Rightarrow> (string \<times> contract_group) list \<Rightarrow> partition_state \<Rightarrow> partition_state js_outcome" where
  "bind_groups hard inp [] state = Returned state"
| "bind_groups hard inp (row # rows) state =
     (let (contract, group) = row in
      outcome_then
        (bindNumericMaxMinField (inp\<lparr>ri_seeds := gp_seeds group, ri_transitions := gp_transitions group,
            ri_identities := Some (collectKeys (gp_seeds group) (gp_transitions group))\<rparr>) (empty_to_none contract))
        (\<lambda>bound. bind_groups hard inp rows
          \<lparr>pt_merged = fold (merge_value hard contract) (rf_values bound) (pt_merged state),
           pt_parts = pt_parts state @ [bound], pt_steps = pt_steps state + rf_solver_steps bound,
           pt_complete = (pt_complete state \<and> rf_solver_complete bound)\<rparr>))"

definition no_values :: merged_values where
  "no_values = \<lparr>mv_values = [], mv_contractByNode = [], mv_conflicts = []\<rparr>"

definition bindPartitionedMaxMinField :: "string \<Rightarrow> reference_input \<Rightarrow> reference_binding js_outcome" where
  "bindPartitionedMaxMinField hard inp =
     outcome_then (bind_groups hard inp (contract_groups hard (ri_seeds inp) (ri_transitions inp))
         \<lparr>pt_merged = no_values, pt_parts = [], pt_steps = 0, pt_complete = True\<rparr>) (\<lambda>state.
       (let m = pt_merged state;
            keys = (case ri_identities inp of None \<Rightarrow> collectKeys (ri_seeds inp) (ri_transitions inp) | Some ids \<Rightarrow> ids)
        in Returned \<lparr>rf_values = mv_values m,
             rf_snapshot = \<lparr>fs_query_id = ri_query_id inp, fs_snapshot_id = ri_snapshot_id inp,
               fs_has_incomparable_activations = (mv_conflicts m \<noteq> []), fs_seeds = ri_seeds inp,
               fs_values = fieldValues keys (map_of (mv_values m)) None (map_of (mv_contractByNode m)) (\<lambda>i. i \<in> set (mv_conflicts m)),
               fs_retained_transitions = filter ft_applicable (ri_transitions inp),
               fs_facets = list_of_option (ri_facets inp)\<rparr>,
             rf_solver_steps = pt_steps state, rf_solver_runs = length (pt_parts state), rf_solver_complete = pt_complete state,
             rf_remaining_worklist = (if pt_parts state = [] then [] else rf_remaining_worklist (last (pt_parts state))),
             rf_work_queue = (if pt_parts state = [] then None else rf_work_queue (last (pt_parts state)))\<rparr>))"

section \<open>The evaluation of a request\<close>

record incremental_input =
  ii_prior :: "prepared_field_graph option"
  ii_additions :: field_additions

datatype reference_result = Reference_rejected | Reference_bound reference_binding | Reference_prepared bound_field

text \<open>\<^verbatim>\<open>Number.MAX_SAFE_INTEGER\<close>, the work limit of a call that names none.\<close>

definition MAX_SAFE_INTEGER :: nat where
  "MAX_SAFE_INTEGER = 2 ^ 53 - 1"

text \<open>
  The incremental loop: a step that finds too little memory returns its argument, the same object, and
  ends the loop.
\<close>

function incremental_loop :: "string \<Rightarrow> int \<Rightarrow> nat \<Rightarrow> prepared_field_graph \<Rightarrow> nat \<Rightarrow> (prepared_field_graph \<times> nat) js_outcome" where
  "incremental_loop hard memory limit prepared steps =
     (if fieldGraphComplete prepared \<or> \<not> steps < limit then Returned (prepared, steps)
      else if int (at_bytes (nextFieldGraphAtom prepared 0)) > memory - int (pf_retainedBytes prepared) then Returned (prepared, steps)
      else outcome_then (stepFieldGraph hard prepared (nat (memory - int (pf_retainedBytes prepared))) (nextFieldGraphAtom prepared 0))
        (\<lambda>stepped. incremental_loop hard memory limit stepped (steps + 1)))"
  by pat_completeness auto
termination
  by (relation "measure (\<lambda>(hard, memory, limit, prepared, steps). limit - steps)") auto

declare incremental_loop.simps [simp del]

definition bindMaxMinField :: "string \<Rightarrow> reference_input \<Rightarrow> incremental_input option \<Rightarrow> reference_result js_outcome" where
  "bindMaxMinField hard inp incremental =
     (if \<not> admitRequestBudget (ri_budget inp) then Returned Reference_rejected
      else case incremental of
        Some inc \<Rightarrow>
          outcome_then (incremental_loop hard (rb_memory_bytes (ri_budget inp))
              (case ri_work_limit inp of None \<Rightarrow> MAX_SAFE_INTEGER | Some l \<Rightarrow> l)
              (appendFieldGraph (ii_prior inc) (ii_additions inc) \<lparr>ad_seeds = ri_seeds inp, ad_transitions = ri_transitions inp\<rparr>) 0)
            (\<lambda>(prepared, steps). Returned (Reference_prepared (preparedFieldBinding hard
              \<lparr>bi_query_id = ri_query_id inp, bi_snapshot_id = ri_snapshot_id inp, bi_seeds = ri_seeds inp,
               bi_transitions = ri_transitions inp, bi_facets = ri_facets inp, bi_identities = ri_identities inp\<rparr> prepared steps)))
      | None \<Rightarrow>
          (let contract = uniqueGradeContract hard (ri_seeds inp) (ri_transitions inp)
           in if contract = ''mixed'' then outcome_then (bindPartitionedMaxMinField hard inp) (\<lambda>b. Returned (Reference_bound b))
              else outcome_then (bindNumericMaxMinField inp (empty_to_none contract)) (\<lambda>b. Returned (Reference_bound b))))"

end
