(* ===== verification/ReferenceAgreement.thy ===== *)
theory ReferenceAgreement
  imports ReferenceField FieldSolveResult
begin

text \<open>
  The reference evaluation and the incremental preparation agree: one solver call per contract gives the
  best grades of the contract, the merge of the contracts gives the value of the product, and so does a
  complete preparation of the same rows.
\<close>

section \<open>Maps built from rows\<close>

lemma map_of_js_map: "map_of (js_map rows) = map_of (rev rows)"
proof -
  have "map_of (fold (\<lambda>(k, v). AList.update k v) rows xs) = map_of xs ++ map_of (rev rows)" for xs
    by (induction rows arbitrary: xs) (auto simp: update_conv' map_add_def fun_eq_iff split: option.split)
  from this [of "[]"] show ?thesis by (simp add: js_map_def)
qed

lemma keys_js_map: "fst ` set (js_map rows) = fst ` set rows"
  using map_of_js_map [of rows] by (metis dom_map_of_conv_image_fst set_rev)

lemma distinct_js_map: "distinct (map fst (js_map rows))"
proof -
  have "distinct (map fst xs) \<Longrightarrow> distinct (map fst (fold (\<lambda>(k, v). AList.update k v) rows xs))" for xs
    by (induction rows arbitrary: xs) (auto simp: distinct_update)
  then show ?thesis by (simp add: js_map_def)
qed

lemma map_of_js_map_distinct: "distinct (map fst rows) \<Longrightarrow> map_of (js_map rows) = map_of rows"
  using map_of_inject_set [of "rev rows" rows] by (simp add: map_of_js_map rev_map [symmetric])

section \<open>One contract\<close>

definition same_contract :: "string \<Rightarrow> string \<Rightarrow> seed_activation list \<Rightarrow> field_transition list \<Rightarrow> bool" where
  "same_contract hard k seeds transitions \<longleftrightarrow>
     (\<forall>s \<in> set seeds. seed_contract hard s = k) \<and> (\<forall>t \<in> set transitions. ft_applicable t \<longrightarrow> transition_contract hard t = k)"

lemma derivable_field_grade:
  assumes same: "same_contract hard k seeds transitions"
    and V0: "\<And>n g. V0 n = Some g \<longleftrightarrow> (\<exists>s \<in> set seeds. n = seed_product s \<and> g = clamp_grade (sd_milligrades s))"
    and E: "\<And>n u. E n u \<longleftrightarrow> (\<exists>t \<in> set transitions. ft_applicable t \<and> n = tr_from u \<and> tr_from u = canonicalProductIdentity (ft_from t) \<and>
      tr_to u = canonicalProductIdentity (ft_to t) \<and> tr_strength u = ft_strength_milligrades t)"
  shows "derivable V0 E p g \<longleftrightarrow> field_grade hard (set seeds) (set transitions) k p g"
proof
  assume "derivable V0 E p g"
  then show "field_grade hard (set seeds) (set transitions) k p g"
  proof (induction rule: derivable.induct)
    case (seed n g)
    then show ?case using V0 same field_grade.seeded by (auto simp: same_contract_def)
  next
    case (step n g u)
    then obtain t where t: "t \<in> set transitions" "ft_applicable t" "n = canonicalProductIdentity (ft_from t)"
      "tr_to u = canonicalProductIdentity (ft_to t)" "tr_strength u = ft_strength_milligrades t" using E by auto
    have "transition_contract hard t = k" using t(1,2) same by (simp add: same_contract_def)
    then show ?case using field_grade.carried [of hard "set seeds" "set transitions" t g] step.IH t by simp
  qed
next
  assume "field_grade hard (set seeds) (set transitions) k p g"
  then show "derivable V0 E p g"
  proof (induction k p g rule: field_grade.induct)
    case (seeded s)
    then show ?case using V0 by (auto intro: derivable.seed)
  next
    case (carried t g)
    let ?u = "\<lparr>tr_from = canonicalProductIdentity (ft_from t), tr_to = canonicalProductIdentity (ft_to t),
      tr_strength = ft_strength_milligrades t\<rparr>"
    have "E (canonicalProductIdentity (ft_from t)) ?u" using E carried.hyps by auto
    from derivable.step [OF carried.IH this] show ?case by simp
  qed
qed

lemma collectKeys_covers:
  "fst ` set (collectKeys seeds transitions) =
     seed_product ` set seeds \<union> (\<Union>t \<in> set transitions. {canonicalProductIdentity (ft_from t), canonicalProductIdentity (ft_to t)})"
  by (simp add: collectKeys_def keys_js_map productStateNodeId_def seed_product_def image_Un image_UN image_image)

definition plain_input :: "reference_input \<Rightarrow> bool" where
  "plain_input inp \<longleftrightarrow> ri_prior_values inp = None \<and> ri_worklist inp = None \<and> ri_work_limit inp = None"

lemma numeric_field:
  assumes plain: "plain_input inp" and same: "same_contract hard k (ri_seeds inp) (ri_transitions inp)"
    and rows: "rows_ok (set (ri_seeds inp)) (set (ri_transitions inp))" and dist: "distinct (map seed_product (ri_seeds inp))"
    and keys: "ri_identities inp = None \<or> ri_identities inp = Some (collectKeys (ri_seeds inp) (ri_transitions inp))"
  shows "\<exists>b. bindNumericMaxMinField inp cid = Returned b \<and> rf_solver_complete b \<and>
    \<not> fs_has_incomparable_activations (rf_snapshot b) \<and> distinct (map fst (rf_values b)) \<and>
    (\<forall>p. best_grade hard (set (ri_seeds inp)) (set (ri_transitions inp)) k p (map_of (rf_values b) p))"
proof -
  let ?S = "ri_seeds inp" and ?T = "ri_transitions inp"
  let ?keys = "collectKeys ?S ?T"
  let ?call = "numeric_call inp ?keys"
  let ?V0 = "\<lambda>n. if n \<in> set (mi_nodeIds ?call) then map_option (\<lambda>v. clampInteger v 0 1000) (map_of (mi_seeds ?call) n) else None"
  let ?E = "\<lambda>n t. t \<in> set (legalTransitions (mi_nodeIds ?call) (mi_transitions ?call) 0 1000) \<and> tr_from t = n"
  have rows_map: "map fst (map (\<lambda>s. (productStateNodeId (sd_state s), Finite (of_int (sd_milligrades s)))) ?S) = map seed_product ?S"
    by (simp add: productStateNodeId_def seed_product_def)
  then have seeds: "mi_seeds ?call = js_map (map (\<lambda>s. (seed_product s, Finite (of_int (sd_milligrades s)))) ?S)"
    by (simp add: numeric_call_def productStateNodeId_def seed_product_def)
  have dist_rows: "distinct (map fst (map (\<lambda>s. (seed_product s, Finite (of_int (sd_milligrades s)))) ?S))"
    using dist by (simp add: comp_def)
  have seed_of: "map_of (mi_seeds ?call) n = Some v \<longleftrightarrow> (\<exists>s \<in> set ?S. n = seed_product s \<and> v = Finite (of_int (sd_milligrades s)))" for n v
    unfolding seeds map_of_js_map_distinct [OF dist_rows] map_of_eq_Some_iff [OF dist_rows] by auto
  have "requireIntegerTop (mi_top ?call) (mi_bottom ?call) = Inr 1000"
    by (simp add: numeric_call_def requireIntegerTop_Inr MILLIGRADE_TOP_def MILLIGRADE_BOTTOM_def)
  moreover have "mi_priorValues ?call = None" "mi_preparedGraph ?call = None" "mi_worklist ?call = None" "mi_workLimit ?call = None"
    "mi_workQueue ?call = None" "distinct (map fst (mi_seeds ?call))"
    using plain by (simp_all add: plain_input_def numeric_call_def distinct_js_map)
  ultimately obtain r where r: "solveMaxMinField ?call = Returned r" "mr_complete r" "is_field ?V0 ?E (pm_get (mr_values r))"
    and inv: "pm_inv (mr_values r)" using solve_plain by blast
  have V0: "?V0 n = Some g \<longleftrightarrow> (\<exists>s \<in> set ?S. n = seed_product s \<and> g = clamp_grade (sd_milligrades s))" for n g
  proof -
    have "n \<in> set (mi_nodeIds ?call)" if "s \<in> set ?S" "n = seed_product s" for s
      using that collectKeys_covers [of ?S ?T] by (auto simp: numeric_call_def)
    then show ?thesis using seed_of by (auto simp: clamp_grade_def)
  qed
  have E: "?E n u \<longleftrightarrow> (\<exists>t \<in> set ?T. ft_applicable t \<and> n = tr_from u \<and> tr_from u = canonicalProductIdentity (ft_from t) \<and>
      tr_to u = canonicalProductIdentity (ft_to t) \<and> tr_strength u = ft_strength_milligrades t)" for n u
  proof -
    have here: "canonicalProductIdentity (ft_from t) \<in> set (mi_nodeIds ?call) \<and> canonicalProductIdentity (ft_to t) \<in> set (mi_nodeIds ?call)"
      if "t \<in> set ?T" for t using that collectKeys_covers [of ?S ?T] by (auto simp: numeric_call_def)
    have strength: "clampInteger (Finite (of_int (ft_strength_milligrades t))) 0 1000 = ft_strength_milligrades t" if "t \<in> set ?T" for t
      using rows that by (intro clampInteger_id) (auto simp: rows_ok_def)
    have "set (legalTransitions (mi_nodeIds ?call) (mi_transitions ?call) 0 1000) =
        (\<lambda>t. \<lparr>tr_from = canonicalProductIdentity (ft_from t), tr_to = canonicalProductIdentity (ft_to t), tr_strength = ft_strength_milligrades t\<rparr>) `
          {t \<in> set ?T. ft_applicable t}"
      using here strength
      by (force simp: legalTransitions_def numeric_call_def toMaxMinTransition_def productStateNodeId_def image_iff)
    then show ?thesis by (cases u) auto
  qed
  have vals: "map_of (entries (mr_values r)) p = pm_get (mr_values r) p" for p using pm.items_get [OF inv] by simp
  have "distinct (map fst (entries (mr_values r)))" using pm.items_sorted [OF inv] by (simp add: strict_sorted_iff)
  moreover have "best_grade hard (set ?S) (set ?T) k p (pm_get (mr_values r) p)" for p
    using r(3) unfolding is_field_def best_grade_def derivable_field_grade [OF same V0 E] by blast
  moreover have "(case ri_identities inp of None \<Rightarrow> ?keys | Some ids \<Rightarrow> ids) = ?keys" using keys by auto
  ultimately show ?thesis using r(1,2) by (simp add: bindNumericMaxMinField_def outcome_then_def vals Let_def)
qed

section \<open>The groups of a request\<close>

lemma normalize_same: "normalizeGradeContract hard c = normalize_contract hard c"
  by (simp add: normalizeGradeContract_def normalize_contract_def)

lemma group_at_update: "group_at (AList.update k g gs) c = (if c = k then g else group_at gs c)"
  by (simp add: group_at_def update_conv')

lemma seeds_grouped:
  "group_at (fold (add_seed hard) seeds gs) k =
     (group_at gs k)\<lparr>gp_seeds := gp_seeds (group_at gs k) @ filter (\<lambda>s. seed_contract hard s = k) seeds\<rparr>"
  by (induction seeds arbitrary: gs) (auto simp: add_seed_def Let_def group_at_update normalize_same seed_contract_def)

lemma transitions_grouped:
  "group_at (fold (add_transition hard) transitions gs) k =
     (group_at gs k)\<lparr>gp_transitions := gp_transitions (group_at gs k) @
       filter (\<lambda>t. ft_applicable t \<and> transition_contract hard t = k) transitions\<rparr>"
  by (induction transitions arbitrary: gs)
    (auto simp: add_transition_def Let_def group_at_update normalize_same transition_contract_def)

lemma group_at_groups:
  "group_at (contract_groups hard seeds transitions) k =
     \<lparr>gp_seeds = filter (\<lambda>s. seed_contract hard s = k) seeds,
      gp_transitions = filter (\<lambda>t. ft_applicable t \<and> transition_contract hard t = k) transitions\<rparr>"
  unfolding contract_groups_def transitions_grouped seeds_grouped by (simp add: group_at_def)

lemma group_keys:
  "distinct (map fst (contract_groups hard seeds transitions))"
  "fst ` set (contract_groups hard seeds transitions) =
     seed_contract hard ` set seeds \<union> transition_contract hard ` {t \<in> set transitions. ft_applicable t}"
proof -
  have seeds: "distinct (map fst gs) \<Longrightarrow> distinct (map fst (fold (add_seed hard) seeds gs)) \<and>
      fst ` set (fold (add_seed hard) seeds gs) = fst ` set gs \<union> seed_contract hard ` set seeds" for gs
    by (induction seeds arbitrary: gs)
      (auto simp: add_seed_def Let_def distinct_update dom_update normalize_same seed_contract_def)
  have transitions: "distinct (map fst gs) \<Longrightarrow> distinct (map fst (fold (add_transition hard) transitions gs)) \<and>
      fst ` set (fold (add_transition hard) transitions gs) =
        fst ` set gs \<union> transition_contract hard ` {t \<in> set transitions. ft_applicable t}" for gs
    by (induction transitions arbitrary: gs)
      (auto simp: add_transition_def Let_def distinct_update dom_update normalize_same transition_contract_def)
  show "distinct (map fst (contract_groups hard seeds transitions))"
    "fst ` set (contract_groups hard seeds transitions) =
      seed_contract hard ` set seeds \<union> transition_contract hard ` {t \<in> set transitions. ft_applicable t}"
    using seeds [of "[]"] transitions [of "fold (add_seed hard) seeds []"] by (simp_all add: contract_groups_def)
qed

lemma field_grade_contract:
  "field_grade hard S T c p g \<longleftrightarrow>
     field_grade hard {s \<in> S. seed_contract hard s = c} {t \<in> T. ft_applicable t \<and> transition_contract hard t = c} c p g"
proof
  assume "field_grade hard S T c p g"
  then show "field_grade hard {s \<in> S. seed_contract hard s = c} {t \<in> T. ft_applicable t \<and> transition_contract hard t = c} c p g"
  proof (induction rule: field_grade.induct)
    case (carried t g)
    then show ?case by (intro field_grade.carried) simp_all
  qed (auto intro: field_grade.seeded)
qed (auto elim: field_grade_mono)

lemma field_grade_has_seed: "field_grade hard S T c p g \<Longrightarrow> \<exists>s \<in> S. seed_contract hard s = c"
  by (induction rule: field_grade.induct) auto

section \<open>The merge of the contracts\<close>

definition node_state :: "merged_values \<Rightarrow> string \<Rightarrow> bool \<times> int option \<times> string option" where
  "node_state m p = (p \<in> set (mv_conflicts m), map_of (mv_values m) p, map_of (mv_contractByNode m) p)"

definition node_step :: "string \<Rightarrow> string \<Rightarrow> int \<Rightarrow> bool \<times> int option \<times> string option \<Rightarrow> bool \<times> int option \<times> string option" where
  "node_step hard c v st =
     (case st of
        (True, _) \<Rightarrow> st
      | (False, Some _, Some d) \<Rightarrow>
          if d = c then st else if d = hard then (False, Some v, Some c) else if c = hard then st else (True, None, None)
      | _ \<Rightarrow> (False, Some v, Some c))"

lemma is_hard: "hard \<noteq> '''' \<Longrightarrow> isHardIdentityContractId hard (empty_to_none c) \<longleftrightarrow> c = hard"
  by (auto simp: isHardIdentityContractId_def empty_to_none_def)

lemma merge_value_node:
  assumes "hard \<noteq> ''''"
  shows "node_state (merge_value hard c (q, v) m) p = (if p = q then node_step hard c v (node_state m p) else node_state m p)"
  by (auto simp: node_state_def node_step_def merge_value_def is_hard [OF assms] update_conv' delete_conv' Let_def split: option.split)

lemma merge_values_node:
  assumes "hard \<noteq> ''''"
  shows "distinct (map fst rows) \<Longrightarrow> node_state (fold (merge_value hard c) rows m) p =
    (case map_of rows p of None \<Rightarrow> node_state m p | Some v \<Rightarrow> node_step hard c v (node_state m p))"
proof (induction rows arbitrary: m)
  case (Cons row rows)
  obtain q v where row: "row = (q, v)" by (cases row)
  have "map_of rows q = None" using Cons.prems by (simp add: row map_of_eq_None_iff)
  then show ?case using Cons merge_value_node [OF assms, of c q v m p] by (auto simp: row split: option.split)
qed simp

definition node_tracks :: "string \<Rightarrow> (string \<Rightarrow> int option) \<Rightarrow> bool \<times> int option \<times> string option \<Rightarrow> bool" where
  "node_tracks hard f st \<longleftrightarrow>
     st = (contract_conflict hard f, product_value hard f,
       if product_value hard f = None then None
       else if soft_contracts hard f = {} then Some hard else Some (the_elem (soft_contracts hard f)))"

lemma node_step_tracks:
  assumes tr: "node_tracks hard f st" and new: "f c = None"
  shows "node_tracks hard (f(c \<mapsto> v)) (node_step hard c v st)"
proof (cases "c = hard")
  case True
  have soft: "soft_contracts hard (f(hard \<mapsto> v)) = soft_contracts hard f" by (auto simp: soft_contracts_def)
  consider (hard_only) "soft_contracts hard f = {}" | (one) d where "soft_contracts hard f = {d}"
    | (many) "soft_contracts hard f \<noteq> {}" "\<not> is_singleton (soft_contracts hard f)" by (metis is_singletonE)
  then show ?thesis
  proof cases
    case hard_only
    then have "product_value hard f = None" "product_value hard (f(hard \<mapsto> v)) = Some v" "\<not> contract_conflict hard f"
      "\<not> contract_conflict hard (f(hard \<mapsto> v))"
      using new True soft by (simp_all add: product_value_def contract_conflict_def)
    then show ?thesis using tr hard_only True soft by (simp add: node_tracks_def node_step_def)
  next
    case one
    then have d: "d \<noteq> hard" "f d \<noteq> None" by (auto simp: soft_contracts_def)
    have "product_value hard f = f d" "product_value hard (f(hard \<mapsto> v)) = f d" "\<not> contract_conflict hard f"
      "\<not> contract_conflict hard (f(hard \<mapsto> v))"
      using one soft d by (simp_all add: product_value_def contract_conflict_def)
    then show ?thesis using tr one True soft d by (auto simp: node_tracks_def node_step_def)
  next
    case many
    then have "product_value hard f = None" "product_value hard (f(hard \<mapsto> v)) = None" "contract_conflict hard f"
      "contract_conflict hard (f(hard \<mapsto> v))"
      using soft by (simp_all add: product_value_def contract_conflict_def)
    then show ?thesis using tr True by (simp add: node_tracks_def node_step_def)
  qed
next
  case False
  have soft: "soft_contracts hard (f(c \<mapsto> v)) = insert c (soft_contracts hard f)" using False by (auto simp: soft_contracts_def)
  have fresh: "c \<notin> soft_contracts hard f" using new by (simp add: soft_contracts_def)
  show ?thesis
  proof (cases "soft_contracts hard f = {}")
    case True
    then have one: "soft_contracts hard (f(c \<mapsto> v)) = {c}" using soft by simp
    then have "product_value hard (f(c \<mapsto> v)) = Some v" "\<not> contract_conflict hard (f(c \<mapsto> v))"
      by (simp_all add: product_value_def contract_conflict_def)
    then show ?thesis using tr True False one
      by (auto simp: node_tracks_def node_step_def contract_conflict_def split: option.split)
  next
    case some: False
    then obtain d where in_soft: "d \<in> soft_contracts hard f" by blast
    then have d: "d \<in> soft_contracts hard f" "d \<noteq> c" "d \<noteq> hard"
      using fresh by (auto simp: soft_contracts_def)
    then have many: "contract_conflict hard (f(c \<mapsto> v))" "product_value hard (f(c \<mapsto> v)) = None"
      by (auto simp: contract_conflict_def product_value_def soft is_singleton_def)
    show ?thesis
    proof (cases "is_singleton (soft_contracts hard f)")
      case True
      from is_singletonE [OF this] obtain e where e: "soft_contracts hard f = {e}" .
      with d(1) have one: "soft_contracts hard f = {d}" by simp
      obtain g where g: "product_value hard f = Some g" using singleton_value(2) [OF True] by blast
      then have "st = (False, Some g, Some d)"
        using tr singleton_value(3) [OF True] one unfolding node_tracks_def by simp
      then have "node_step hard c v st = (True, None, None)" using d False by (simp add: node_step_def)
      then show ?thesis using many by (simp add: node_tracks_def)
    next
      case plural: False
      then have "st = (True, None, None)" using tr some by (simp add: node_tracks_def contract_conflict_def product_value_def)
      then show ?thesis using many by (simp add: node_tracks_def node_step_def)
    qed
  qed
qed

section \<open>All contracts\<close>

lemma group_values:
  fixes k :: string
  assumes plain: "plain_input inp" and rows: "rows_ok (set seeds) (set transitions)"
    and dist: "distinct (map (\<lambda>s. (seed_contract hard s, seed_product s)) seeds)"
  defines "gs \<equiv> filter (\<lambda>s. seed_contract hard s = k) seeds"
    and "gt \<equiv> filter (\<lambda>t. ft_applicable t \<and> transition_contract hard t = k) transitions"
  shows "\<exists>b. bindNumericMaxMinField (inp\<lparr>ri_seeds := gs, ri_transitions := gt, ri_identities := Some (collectKeys gs gt)\<rparr>) cid = Returned b \<and>
    rf_solver_complete b \<and> distinct (map fst (rf_values b)) \<and>
    (\<forall>p. best_grade hard (set seeds) (set transitions) k p (map_of (rf_values b) p))"
proof -
  let ?inp = "inp\<lparr>ri_seeds := gs, ri_transitions := gt, ri_identities := Some (collectKeys gs gt)\<rparr>"
  have "plain_input ?inp" using plain by (simp add: plain_input_def)
  moreover have "same_contract hard k (ri_seeds ?inp) (ri_transitions ?inp)" by (auto simp: same_contract_def gs_def gt_def)
  moreover have "rows_ok (set (ri_seeds ?inp)) (set (ri_transitions ?inp))"
    using rows by (rule rows_ok_mono) (auto simp: gs_def gt_def)
  moreover have "distinct (map seed_product (ri_seeds ?inp))"
    using dist by (auto simp: gs_def distinct_map inj_on_def)
  ultimately obtain b where b: "bindNumericMaxMinField ?inp cid = Returned b" "rf_solver_complete b" "distinct (map fst (rf_values b))"
    "\<And>p. best_grade hard (set gs) (set gt) k p (map_of (rf_values b) p)"
    using numeric_field [of ?inp hard k cid] by auto
  have part: "field_grade hard (set seeds) (set transitions) k p g = field_grade hard (set gs) (set gt) k p g" for p g
    unfolding gs_def gt_def set_filter by (rule field_grade_contract)
  have "best_grade hard (set seeds) (set transitions) k p (map_of (rf_values b) p)" for p
    using b(4) [of p] unfolding best_grade_def part .
  with b show ?thesis by blast
qed

lemma bind_groups_spec:
  assumes hard: "hard \<noteq> ''''" and plain: "plain_input inp" and rows: "rows_ok (set seeds) (set transitions)"
    and dist: "distinct (map (\<lambda>s. (seed_contract hard s, seed_product s)) seeds)"
  shows "distinct (map fst gs) \<Longrightarrow>
    (\<And>k g. (k, g) \<in> set gs \<Longrightarrow> g = \<lparr>gp_seeds = filter (\<lambda>s. seed_contract hard s = k) seeds,
      gp_transitions = filter (\<lambda>t. ft_applicable t \<and> transition_contract hard t = k) transitions\<rparr>) \<Longrightarrow>
    (\<And>p. node_tracks hard (f p) (node_state (pt_merged st) p)) \<Longrightarrow> (\<And>p k. k \<in> fst ` set gs \<Longrightarrow> f p k = None) \<Longrightarrow> pt_complete st \<Longrightarrow>
    \<exists>st' W. bind_groups hard inp gs st = Returned st' \<and> pt_complete st' \<and>
      (\<forall>p k. best_grade hard (set seeds) (set transitions) k p (W k p)) \<and>
      (\<forall>p. node_tracks hard (\<lambda>k. if k \<in> fst ` set gs then W k p else f p k) (node_state (pt_merged st') p))"
proof (induction gs arbitrary: st f)
  case Nil
  let ?W = "\<lambda>k p. SOME v. best_grade hard (set seeds) (set transitions) k p v"
  have "\<exists>v. best_grade hard (set seeds) (set transitions) k p v" for k p
    using group_values [OF plain rows dist, of k None] by blast
  then have "best_grade hard (set seeds) (set transitions) k p (?W k p)" for k p by (rule someI_ex)
  then show ?case using Nil.prems by (intro exI [of _ st] exI [of _ ?W]) simp
next
  case (Cons row gs)
  obtain k g where row: "row = (k, g)" by (cases row)
  have g: "g = \<lparr>gp_seeds = filter (\<lambda>s. seed_contract hard s = k) seeds,
      gp_transitions = filter (\<lambda>t. ft_applicable t \<and> transition_contract hard t = k) transitions\<rparr>"
    using Cons.prems(2) [of k g] by (simp add: row)
  from group_values [OF plain rows dist, of k "empty_to_none k"] obtain b where
    b: "bindNumericMaxMinField (inp\<lparr>ri_seeds := gp_seeds g, ri_transitions := gp_transitions g,
        ri_identities := Some (collectKeys (gp_seeds g) (gp_transitions g))\<rparr>) (empty_to_none k) = Returned b"
      "rf_solver_complete b" "distinct (map fst (rf_values b))"
      "\<And>p. best_grade hard (set seeds) (set transitions) k p (map_of (rf_values b) p)" by (auto simp: g)
  let ?st = "\<lparr>pt_merged = fold (merge_value hard k) (rf_values b) (pt_merged st), pt_parts = pt_parts st @ [b],
    pt_steps = pt_steps st + rf_solver_steps b, pt_complete = (pt_complete st \<and> rf_solver_complete b)\<rparr>"
  let ?f = "\<lambda>p. (f p)(k := map_of (rf_values b) p)"
  have tracks: "node_tracks hard (?f p) (node_state (pt_merged ?st) p)" for p
  proof (cases "map_of (rf_values b) p")
    case None
    then have "?f p = f p" using Cons.prems(4) [of k p] by (simp add: row fun_upd_idem)
    then show ?thesis using Cons.prems(3) [of p] None by (simp add: merge_values_node [OF hard b(3)])
  next
    case (Some v)
    then show ?thesis using node_step_tracks [OF Cons.prems(3) [of p], of k v] Cons.prems(4) [of k p]
      by (simp add: merge_values_node [OF hard b(3)] row)
  qed
  have rest: "distinct (map fst gs)"
    "\<And>c h. (c, h) \<in> set gs \<Longrightarrow> h = \<lparr>gp_seeds = filter (\<lambda>s. seed_contract hard s = c) seeds,
      gp_transitions = filter (\<lambda>t. ft_applicable t \<and> transition_contract hard t = c) transitions\<rparr>"
    "pt_complete ?st" using Cons.prems(1,2,5) b(2) by simp_all
  have new: "?f p c = None" if "c \<in> fst ` set gs" for p c
    using that Cons.prems(1) Cons.prems(4) [of c p] by (auto simp: row)
  obtain st' W where st': "bind_groups hard inp gs ?st = Returned st'" "pt_complete st'"
    "\<And>p k. best_grade hard (set seeds) (set transitions) k p (W k p)"
    "\<And>p. node_tracks hard (\<lambda>c. if c \<in> fst ` set gs then W c p else ?f p c) (node_state (pt_merged st') p)"
    using Cons.IH [OF rest(1,2) tracks new rest(3)] by blast
  have "W k p = map_of (rf_values b) p" for p by (rule best_grade_unique [OF st'(3) b(4)])
  moreover have "k \<notin> fst ` set gs" using Cons.prems(1) by (simp add: row)
  ultimately have "(\<lambda>c. if c \<in> fst ` set (row # gs) then W c p else f p c) = (\<lambda>c. if c \<in> fst ` set gs then W c p else ?f p c)" for p
    by (auto simp: fun_eq_iff row)
  then show ?case using st' b(1) by (intro exI [of _ st'] exI [of _ W]) (simp add: row Let_def outcome_then_def)
qed

lemma partitioned_field:
  assumes hard: "hard \<noteq> ''''" and plain: "plain_input inp" and rows: "rows_ok (set (ri_seeds inp)) (set (ri_transitions inp))"
    and dist: "distinct (map (\<lambda>s. (seed_contract hard s, seed_product s)) (ri_seeds inp))"
  shows "\<exists>b W. bindPartitionedMaxMinField hard inp = Returned b \<and> rf_solver_complete b \<and>
    (\<forall>p k. best_grade hard (set (ri_seeds inp)) (set (ri_transitions inp)) k p (W k p)) \<and>
    (\<forall>p. map_of (rf_values b) p = product_value hard (\<lambda>k. W k p)) \<and>
    (fs_has_incomparable_activations (rf_snapshot b) \<longleftrightarrow> (\<exists>p. contract_conflict hard (\<lambda>k. W k p)))"
proof -
  let ?S = "ri_seeds inp" and ?T = "ri_transitions inp"
  let ?gs = "contract_groups hard ?S ?T"
  let ?st = "\<lparr>pt_merged = no_values, pt_parts = [], pt_steps = 0, pt_complete = True\<rparr>"
  have groups: "g = \<lparr>gp_seeds = filter (\<lambda>s. seed_contract hard s = k) ?S,
      gp_transitions = filter (\<lambda>t. ft_applicable t \<and> transition_contract hard t = k) ?T\<rparr>" if "(k, g) \<in> set ?gs" for k g
    using group_at_groups [of hard ?S ?T k] map_of_is_SomeI [OF group_keys(1) that] by (simp add: group_at_def)
  have start: "node_tracks hard Map.empty (node_state (pt_merged ?st) p)" for p
    by (simp add: node_tracks_def node_state_def no_values_def contract_conflict_def product_value_def soft_contracts_def)
  have "\<exists>st' W. bind_groups hard inp ?gs ?st = Returned st' \<and> pt_complete st' \<and>
      (\<forall>p k. best_grade hard (set ?S) (set ?T) k p (W k p)) \<and>
      (\<forall>p. node_tracks hard (\<lambda>k. if k \<in> fst ` set ?gs then W k p else None) (node_state (pt_merged st') p))"
    by (rule bind_groups_spec [OF hard plain rows dist group_keys(1)]) (use groups start in simp_all)
  then obtain st' W where
    st': "bind_groups hard inp ?gs ?st = Returned st'" "pt_complete st'"
      "\<And>p k. best_grade hard (set ?S) (set ?T) k p (W k p)"
      "\<And>p. node_tracks hard (\<lambda>k. if k \<in> fst ` set ?gs then W k p else None) (node_state (pt_merged st') p)" by blast
  have "W k p = None" if "k \<notin> fst ` set ?gs" for k p
  proof (rule ccontr)
    assume "W k p \<noteq> None"
    then obtain v where "field_grade hard (set ?S) (set ?T) k p v" using st'(3) [of k p] by (auto simp: best_grade_def split: option.splits)
    then show False using field_grade_has_seed that by (fastforce simp: group_keys(2))
  qed
  then have "(\<lambda>k. if k \<in> fst ` set ?gs then W k p else None) = (\<lambda>k. W k p)" for p by (auto simp: fun_eq_iff)
  with st'(4) have tracks: "node_tracks hard (\<lambda>k. W k p) (node_state (pt_merged st') p)" for p by simp
  then have "map_of (mv_values (pt_merged st')) p = product_value hard (\<lambda>k. W k p)"
    "p \<in> set (mv_conflicts (pt_merged st')) \<longleftrightarrow> contract_conflict hard (\<lambda>k. W k p)" for p
    by (simp_all add: node_tracks_def node_state_def)
  moreover from this(2) have "mv_conflicts (pt_merged st') \<noteq> [] \<longleftrightarrow> (\<exists>p. contract_conflict hard (\<lambda>k. W k p))"
    by (metis list.set_intros(1) neq_Nil_conv set_empty2 equals0D empty_set)
  ultimately show ?thesis using st'(1-3) by (simp add: bindPartitionedMaxMinField_def outcome_then_def Let_def) blast
qed

lemma one_contract_value:
  assumes "\<And>c. c \<noteq> k \<Longrightarrow> f c = None"
  shows "product_value hard f = f k" "\<not> contract_conflict hard f"
proof -
  have "x = k" if "f x = Some y" for x y using assms [of x] that by (cases "x = k") auto
  then have "soft_contracts hard f = (if k \<noteq> hard \<and> f k \<noteq> None then {k} else {})" by (auto simp: soft_contracts_def)
  then show "product_value hard f = f k" "\<not> contract_conflict hard f"
    using assms [of hard] by (auto simp: product_value_def contract_conflict_def)
qed

section \<open>The two evaluations\<close>

lemma notes_bounded:
  assumes "\<not> length (remdups ks) > 1"
  shows "\<exists>k. set ks \<subseteq> {k}"
proof -
  have "card (set ks) \<le> Suc 0" using assms by (simp add: length_remdups_card_conv)
  then show ?thesis using card_le_Suc0_iff_eq [of "set ks"] by (cases ks) auto
qed

lemma one_contract:
  assumes "uniqueGradeContract hard seeds transitions \<noteq> ''mixed''"
  shows "\<exists>k. same_contract hard k seeds transitions"
proof -
  let ?ks = "map (normalizeGradeContract hard) (noted_contracts seeds transitions)"
  have "\<not> length (remdups ?ks) > 1" using assms by (auto simp: uniqueGradeContract_def Let_def)
  then obtain k where k: "set ?ks \<subseteq> {k}" using notes_bounded by blast
  have "same_contract hard k seeds transitions"
    using k by (auto simp: same_contract_def noted_contracts_def seed_contract_def transition_contract_def normalize_same)
  then show ?thesis ..
qed

lemma only_its_contract:
  assumes "same_contract hard k seeds transitions" "best_grade hard (set seeds) (set transitions) c p v" "c \<noteq> k"
  shows "v = None"
  using assms by (cases v) (auto simp: best_grade_def same_contract_def dest!: field_grade_has_seed)

lemma reference_field:
  assumes admit: "admitRequestBudget (ri_budget inp)" and plain: "plain_input inp" and ids: "ri_identities inp = None"
    and rows: "rows_ok (set (ri_seeds inp)) (set (ri_transitions inp))" and hard: "hard \<noteq> ''''"
    and dist: "distinct (map (\<lambda>s. (seed_contract hard s, seed_product s)) (ri_seeds inp))"
    and best: "\<And>k p. best_grade hard (set (ri_seeds inp)) (set (ri_transitions inp)) k p (G p k)"
  shows "\<exists>b. bindMaxMinField hard inp None = Returned (Reference_bound b) \<and> rf_solver_complete b \<and>
    (\<forall>p. map_of (rf_values b) p = product_value hard (G p)) \<and>
    (fs_has_incomparable_activations (rf_snapshot b) \<longleftrightarrow> (\<exists>p. contract_conflict hard (G p)))"
proof (cases "uniqueGradeContract hard (ri_seeds inp) (ri_transitions inp) = ''mixed''")
  case True
  from partitioned_field [OF hard plain rows dist] obtain b W where
    b: "bindPartitionedMaxMinField hard inp = Returned b" "rf_solver_complete b"
      "\<And>p k. best_grade hard (set (ri_seeds inp)) (set (ri_transitions inp)) k p (W k p)"
      "\<And>p. map_of (rf_values b) p = product_value hard (\<lambda>k. W k p)"
      "fs_has_incomparable_activations (rf_snapshot b) \<longleftrightarrow> (\<exists>p. contract_conflict hard (\<lambda>k. W k p))" by blast
  have "(\<lambda>k. W k p) = G p" for p using best_grade_unique [OF b(3) best] by (simp add: fun_eq_iff)
  then show ?thesis using b admit True by (simp add: bindMaxMinField_def outcome_then_def Let_def)
next
  case False
  from one_contract [OF this] obtain k where same: "same_contract hard k (ri_seeds inp) (ri_transitions inp)" ..
  have "distinct (map seed_product (ri_seeds inp))"
    using dist same by (auto simp: distinct_map inj_on_def same_contract_def)
  from numeric_field [OF plain same rows this] ids obtain b where
    b: "bindNumericMaxMinField inp (empty_to_none (uniqueGradeContract hard (ri_seeds inp) (ri_transitions inp))) = Returned b"
      "rf_solver_complete b" "\<not> fs_has_incomparable_activations (rf_snapshot b)"
      "\<And>p. best_grade hard (set (ri_seeds inp)) (set (ri_transitions inp)) k p (map_of (rf_values b) p)" by blast
  have other: "G p c = None" if "c \<noteq> k" for c p using only_its_contract [OF same best that] .
  have "map_of (rf_values b) p = G p k" for p by (rule best_grade_unique [OF b(4) best])
  moreover have "product_value hard (G p) = G p k" "\<not> contract_conflict hard (G p)" for p
    using one_contract_value [of k "G p" hard] other by blast+
  ultimately show ?thesis using b(1-3) admit False by (simp add: bindMaxMinField_def outcome_then_def Let_def)
qed

section \<open>Properties\<close>

text \<open>C3: 
  the reference evaluation and the incremental preparation agree: for an admitted request that starts
  from nothing, and that names each product at most once per contract, the solver calls of the reference
  end, find the values of any complete preparation of the same rows, in whatever batches, order and
  budgets it was run, and report incomparable activations exactly when the preparation counts a conflict.
\<close>

theorem reference_agrees_with_preparation:
  assumes "admitRequestBudget (ri_budget inp)" "plain_input inp" "ri_identities inp = None" "hard \<noteq> ''''"
    "rows_ok (set (ri_seeds inp)) (set (ri_transitions inp))"
    "distinct (map (\<lambda>s. (seed_contract hard s, seed_product s)) (ri_seeds inp))"
    "field_run hard st (set (ri_seeds inp)) (set (ri_transitions inp))" "fieldGraphComplete st"
  shows "\<exists>b. bindMaxMinField hard inp None = Returned (Reference_bound b) \<and> rf_solver_complete b \<and>
    (\<forall>p. map_of (rf_values b) p = pv_get (pf_values st) p) \<and>
    (fs_has_incomparable_activations (rf_snapshot b) \<longleftrightarrow> pv_conflictCount (pf_values st) > 0)"
proof -
  note best = complete_run_field(1) [OF assms(7,5,8)] and shown = complete_run_field(2) [OF assms(7,5,8)]
  from shown have "finite {p. contract_conflict hard (contract_grades st p)}"
    using finite_readable(2) [of "pf_values st"] by (simp add: values_inv_def values_invD(2) [OF shown])
  then have "pv_conflictCount (pf_values st) > 0 \<longleftrightarrow> (\<exists>p. contract_conflict hard (contract_grades st p))"
    by (auto simp: values_invD(4) [OF shown] card_gt_0_iff)
  with reference_field [OF assms(1-3,5,4,6) best] show ?thesis by (simp add: values_invD(1) [OF shown])
qed

definition sample_request :: reference_input where
  "sample_request =
     \<lparr>ri_query_id = ''q'', ri_snapshot_id = ''s'', ri_seeds = ad_seeds sample_batch, ri_transitions = ad_transitions sample_batch,
      ri_budget = \<lparr>rb_work_units = 10, rb_memory_bytes = 4096, rb_finalization_reserve = 1, rb_min_envelope = 1\<rparr>, ri_facets = None,
      ri_prior_values = None, ri_worklist = None, ri_work_limit = None, ri_identities = None\<rparr>"

lemma reference_agrees_with_preparation_witness:
  "\<exists>b st. bindMaxMinField ''h'' sample_request None = Returned (Reference_bound b) \<and> fieldGraphComplete st \<and>
    map_of (rf_values b) (canonicalProductIdentity (sample_key ''b'')) = pv_get (pf_values st) (canonicalProductIdentity (sample_key ''b''))"
proof -
  from run_completes [OF sample_run sample_rows, of 0] obtain st where
    st: "fieldGraphComplete st" "field_run ''h'' st (set (ad_seeds sample_batch)) (set (ad_transitions sample_batch))" by blast
  have "admitRequestBudget (ri_budget sample_request)" "plain_input sample_request" "ri_identities sample_request = None"
    "ri_seeds sample_request = ad_seeds sample_batch" "ri_transitions sample_request = ad_transitions sample_batch"
    by (simp_all add: sample_request_def admitRequestBudget_def plain_input_def)
  moreover have "distinct (map (\<lambda>s. (seed_contract ''h'' s, seed_product s)) (ad_seeds sample_batch))"
    by (simp add: sample_batch_def)
  ultimately show ?thesis
    using reference_agrees_with_preparation [of sample_request "''h''" st] st sample_rows by auto
qed

text \<open>
  A request may name a product twice. The solver call reads its seeds through a map, which keeps the last
  grade; the preparation raises the product to the greatest.
\<close>

lemma last_seed_call:
  assumes "sd_state s = sd_state t"
  shows "numeric_call (inp\<lparr>ri_seeds := [s, t]\<rparr>) (collectKeys [s, t] es) = numeric_call (inp\<lparr>ri_seeds := [t]\<rparr>) (collectKeys [t] es)"
  using assms by (simp add: numeric_call_def collectKeys_def js_map_def)

lemma seeds_only: "field_grade hard S {} c p g \<longleftrightarrow> (\<exists>s \<in> S. c = seed_contract hard s \<and> p = seed_product s \<and> g = clamp_grade (sd_milligrades s))"
  by (auto elim: field_grade.cases intro: field_grade.seeded)

lemma one_product_best:
  assumes seed: "s \<in> S" and top: "sd_milligrades s \<le> 1000"
    and one: "\<And>r. r \<in> S \<Longrightarrow> seed_contract hard r = k \<and> seed_product r = p \<and> 0 \<le> sd_milligrades r \<and> sd_milligrades r \<le> sd_milligrades s"
  shows "best_grade hard S {} c q (if c = k \<and> q = p then Some (sd_milligrades s) else None)"
proof -
  have grade: "clamp_grade (sd_milligrades r) = sd_milligrades r" if "r \<in> S" for r
    using one [OF that] top by (intro clamp_grade_id) auto
  have "field_grade hard S {} c q g \<longleftrightarrow> c = k \<and> q = p \<and> (\<exists>r \<in> S. g = sd_milligrades r)" for g
    using one seed by (auto simp: seeds_only grade)
  then show ?thesis using seed one by (auto simp: best_grade_def)
qed

text \<open>C37: 
  the two evaluations differ on a request that names a product twice: of two seeds of one product and
  contract, the greater grade first, the reference keeps the grade of the second while every complete
  preparation of the two seeds keeps the grade of the first.
\<close>

theorem repeated_seed_divides_the_evaluations:
  assumes "plain_input inp" "ri_seeds inp = [s, t]" "ri_transitions inp = []" "ri_identities inp = None"
    "sd_state s = sd_state t" "seed_contract hard s = seed_contract hard t"
    "0 \<le> sd_milligrades t" "sd_milligrades t < sd_milligrades s" "sd_milligrades s \<le> 1000"
    "field_run hard st {s, t} {}" "fieldGraphComplete st"
  shows "(\<exists>b. bindNumericMaxMinField inp cid = Returned b \<and> map_of (rf_values b) (seed_product t) = Some (sd_milligrades t)) \<and>
    pv_get (pf_values st) (seed_product t) = Some (sd_milligrades s)"
proof -
  let ?k = "seed_contract hard t" and ?p = "seed_product t" and ?one = "inp\<lparr>ri_seeds := [t]\<rparr>"
  have product: "seed_product s = ?p" using assms(5) by (simp add: seed_product_def)
  have "plain_input ?one" using assms(1) by (simp add: plain_input_def)
  moreover have "same_contract hard ?k (ri_seeds ?one) (ri_transitions ?one)" by (simp add: same_contract_def assms(3))
  moreover have "rows_ok (set (ri_seeds ?one)) (set (ri_transitions ?one))" using assms(7-9) by (simp add: rows_ok_def assms(3))
  ultimately obtain b where b: "bindNumericMaxMinField ?one cid = Returned b" "\<And>p. best_grade hard {t} {} ?k p (map_of (rf_values b) p)"
    using numeric_field [of ?one hard ?k cid] by (auto simp: assms(3,4))
  have "best_grade hard {t} {} ?k ?p (Some (sd_milligrades t))"
    using one_product_best [of t "{t}" hard ?k ?p ?k ?p] assms(7-9) by simp
  from best_grade_unique [OF b(2) this] have last: "map_of (rf_values b) ?p = Some (sd_milligrades t)" .
  have "inp = inp\<lparr>ri_seeds := [s, t]\<rparr>" using assms(2) by simp
  then have "numeric_call inp (collectKeys [s, t] []) = numeric_call ?one (collectKeys [t] [])"
    using last_seed_call [OF assms(5), of inp "[]"] by simp
  then obtain b' where b': "bindNumericMaxMinField inp cid = Returned b'" "rf_values b' = rf_values b"
    using b(1) by (auto simp: bindNumericMaxMinField_def outcome_then_def Let_def assms(2-4) split: js_outcome.splits)
  have "rows_ok {s, t} {}" using assms(7-9) by (simp add: rows_ok_def)
  note best = complete_run_field(1) [OF assms(10) this assms(11)] and shown = complete_run_field(2) [OF assms(10) this assms(11)]
  have greatest: "best_grade hard {s, t} {} c q (if c = ?k \<and> q = ?p then Some (sd_milligrades s) else None)" for c q
    by (rule one_product_best) (use assms(6-9) product in auto)
  have "contract_grades st ?p c = (if c = ?k then Some (sd_milligrades s) else None)" for c
    using best_grade_unique [OF best greatest, of ?p c] by simp
  then have "product_value hard (contract_grades st ?p) = Some (sd_milligrades s)"
    using one_contract_value(1) [of ?k "contract_grades st ?p" hard] by simp
  then show ?thesis using b' last values_invD(1) [OF shown] by simp
qed

lemma repeated_seed_divides_the_evaluations_witness:
  "\<exists>b st. bindNumericMaxMinField (sample_request\<lparr>ri_seeds := [sample_seed ''a'' 500, sample_seed ''a'' 200], ri_transitions := []\<rparr>) None =
      Returned b \<and> fieldGraphComplete st \<and>
    map_of (rf_values b) (seed_product (sample_seed ''a'' 200)) = Some 200 \<and>
    pv_get (pf_values st) (seed_product (sample_seed ''a'' 200)) = Some 500"
proof -
  let ?s = "sample_seed ''a'' 500" and ?t = "sample_seed ''a'' 200"
  let ?batch = "\<lparr>ad_seeds = [?s, ?t], ad_transitions = []\<rparr>"
  have "field_run ''h'' (appendFieldGraph None ?batch ?batch) (set (ad_seeds ?batch)) (set (ad_transitions ?batch))"
    by (rule field_run.started)
  then have run: "field_run ''h'' (appendFieldGraph None ?batch ?batch) {?s, ?t} {}" by simp
  have "rows_ok {?s, ?t} {}" by (simp add: rows_ok_def sample_seed_def)
  from run_completes [OF run this, of 0] obtain st where st: "fieldGraphComplete st" "field_run ''h'' st {?s, ?t} {}" by blast
  have "plain_input (sample_request\<lparr>ri_seeds := [?s, ?t], ri_transitions := []\<rparr>)" by (simp add: plain_input_def sample_request_def)
  from repeated_seed_divides_the_evaluations [OF this _ _ _ _ _ _ _ _ st(2,1), of None] st(1)
  show ?thesis by (auto simp: sample_request_def sample_seed_def seed_contract_def)
qed

end
