(* ===== verification/FieldRetention.thy ===== *)
theory FieldRetention
  imports FieldSolve
begin

text \<open>
  The rows an engine keeps while observation pages arrive
  (\<^verbatim>\<open>core/src/recall/conditional-field/engine/field-retention-index.ts\<close>, \<^verbatim>\<open>path-composition-seed.ts\<close> and
  \<^verbatim>\<open>path-composition.ts\<close>): one seed per product, chosen by contract and grade, with the position of its
  row; one transition per key, where a new revision of a rule replaces the old one. The rows of a page
  are merged one by one and what they add is handed to the incremental preparation.
\<close>

section \<open>Seeds\<close>

definition contract_text :: "string option \<Rightarrow> string" where
  "contract_text c = (case c of None \<Rightarrow> '''' | Some s \<Rightarrow> s)"

definition selectSeedActivation :: "string \<Rightarrow> seed_activation option \<Rightarrow> seed_activation \<Rightarrow> seed_activation" where
  "selectSeedActivation hard prior arriving =
     (case prior of
        None \<Rightarrow> arriving
      | Some p \<Rightarrow>
          if contract_text (sd_cap_contract_id p) = contract_text (sd_cap_contract_id arriving)
          then (if sd_milligrades arriving > sd_milligrades p then arriving else p)
          else if isHardIdentityContractId hard (sd_cap_contract_id p) \<and> \<not> isHardIdentityContractId hard (sd_cap_contract_id arriving)
          then arriving else p)"

definition compare_nodes :: "product_state_key \<Rightarrow> product_state_key \<Rightarrow> int" where
  "compare_nodes left right = compareCodeUnits (productStateNodeId left) (productStateNodeId right)"

definition sortSeeds :: "seed_activation list \<Rightarrow> seed_activation list" where
  "sortSeeds seeds = js_sort (\<lambda>l r. compare_nodes (sd_state l) (sd_state r)) seeds"

definition best_seeds :: "string \<Rightarrow> seed_activation list \<Rightarrow> (string \<times> seed_activation) list" where
  "best_seeds hard seeds =
     fold (\<lambda>seed best. AList.update (productStateNodeId (sd_state seed))
       (selectSeedActivation hard (map_of best (productStateNodeId (sd_state seed))) seed) best) seeds []"

definition mergeSeeds :: "string \<Rightarrow> seed_activation list \<Rightarrow> seed_activation list" where
  "mergeSeeds hard seeds = sortSeeds (map snd (best_seeds hard seeds))"

definition collectIdentities :: "seed_activation list \<Rightarrow> field_transition list \<Rightarrow> product_state_key list \<Rightarrow> product_state_key list" where
  "collectIdentities seeds transitions prior =
     js_sort compare_nodes (map snd (js_map
       (map (\<lambda>state. (productStateNodeId state, state)) (prior @ map sd_state seeds @ concat (map (\<lambda>t. [ft_from t, ft_to t]) transitions)))))"

definition seedOffsets :: "seed_activation list \<Rightarrow> (string, nat) pnode" where
  "seedOffsets seeds =
     fold (\<lambda>(index, row) offsets. pm_with offsets (productStateNodeId (sd_state row)) index) (enumerate 0 seeds) Undef"

record seed_merge =
  sm_rows :: "seed_activation retained_sequence"
  sm_additions :: "seed_activation list"
  sm_offsets :: "(string, nat) pnode"
  sm_reset :: bool

definition previous_seed :: "seed_merge \<Rightarrow> string \<Rightarrow> seed_activation option" where
  "previous_seed m key = (case pm_get (sm_offsets m) key of None \<Rightarrow> None | Some offset \<Rightarrow> seq_at (sm_rows m) (int offset))"

text \<open>A seed that is selected changes the rows; a new contract of its product asks for a rebuild.\<close>

definition merge_seed :: "string \<Rightarrow> seed_activation \<Rightarrow> seed_merge \<Rightarrow> seed_merge js_outcome" where
  "merge_seed hard seed m =
     (let key = productStateNodeId (sd_state seed); previous = previous_seed m key in
      if Some (selectSeedActivation hard previous seed) = previous then Returned m
      else (let reset = (sm_reset m \<or> (case previous of None \<Rightarrow> False | Some p \<Rightarrow> sd_cap_contract_id p \<noteq> sd_cap_contract_id seed)) in
        case pm_get (sm_offsets m) key of
          None \<Rightarrow> Returned \<lparr>sm_rows = seq_append (sm_rows m) seed, sm_additions = sm_additions m @ [seed],
            sm_offsets = pm_with (sm_offsets m) key (sq_length (sm_rows m)), sm_reset = reset\<rparr>
        | Some offset \<Rightarrow>
            (case seq_replace (sm_rows m) (int offset) seed of
               Inl message \<Rightarrow> Threw message
             | Inr rows \<Rightarrow> Returned \<lparr>sm_rows = rows, sm_additions = sm_additions m @ [seed], sm_offsets = sm_offsets m, sm_reset = reset\<rparr>)))"

primrec merge_page :: "string \<Rightarrow> seed_activation list \<Rightarrow> seed_merge \<Rightarrow> seed_merge js_outcome" where
  "merge_page hard [] m = Returned m"
| "merge_page hard (seed # seeds) m = outcome_then (merge_seed hard seed m) (merge_page hard seeds)"

definition mergeSeedAdditions :: "string \<Rightarrow> seed_activation retained_sequence \<Rightarrow> seed_activation list \<Rightarrow> (string, nat) pnode
    \<Rightarrow> seed_merge js_outcome" where
  "mergeSeedAdditions hard prior arriving offsets =
     merge_page hard arriving \<lparr>sm_rows = prior, sm_additions = [], sm_offsets = offsets, sm_reset = False\<rparr>"

section \<open>Transitions\<close>

record transition_row = field_transition +
  tw_relation_kind :: string
  tw_instance_id :: "string option"
  tw_revision_id :: "string option"
  tw_validity :: json

definition ruleIdentity :: "transition_row \<Rightarrow> string" where
  "ruleIdentity t =
     js_join [CHR 0x00] [productStateNodeId (ft_from t), productStateNodeId (ft_to t), tw_relation_kind t, contract_text (tw_instance_id t)]"

definition transitionKey :: "transition_row \<Rightarrow> string" where
  "transitionKey t =
     js_join [CHR 0x00] [ruleIdentity t, js_string_of_int (ft_strength_milligrades t), if ft_applicable t then ''true'' else ''false'',
       contract_text (tw_revision_id t), json_stringify (tw_validity t)]"

definition uniqueByTransitionKey :: "transition_row list \<Rightarrow> transition_row list" where
  "uniqueByTransitionKey rows =
     map snd (fold (\<lambda>row unique. if map_of unique (transitionKey row) = None then unique @ [(transitionKey row, row)] else unique) rows [])"

definition superseded :: "transition_row \<Rightarrow> transition_row \<Rightarrow> bool" where
  "superseded row later \<longleftrightarrow>
     tw_instance_id row \<noteq> None \<and> tw_instance_id later = tw_instance_id row \<and> tw_revision_id row \<noteq> None \<and>
     tw_revision_id later \<noteq> None \<and> tw_revision_id later \<noteq> tw_revision_id row \<and> ruleIdentity later = ruleIdentity row"

definition mergeTransitions :: "transition_row list \<Rightarrow> transition_row list \<Rightarrow> transition_row list" where
  "mergeTransitions transitions arriving =
     (if arriving = [] then uniqueByTransitionKey transitions
      else (let batch = uniqueByTransitionKey arriving;
                kept = filter (\<lambda>row. \<not> list_ex (superseded row) batch) transitions
            in uniqueByTransitionKey (kept @ batch)))"

record transition_delta =
  td_additions :: "transition_row list"
  td_keys :: "(string, bool) pnode"
  td_revisions :: "(string, string) pnode"
  td_reset :: bool

definition index_transition :: "transition_row \<Rightarrow> transition_delta \<Rightarrow> transition_delta" where
  "index_transition row d =
     d\<lparr>td_keys := pm_with (td_keys d) (transitionKey row) True,
       td_revisions := (case tw_revision_id row of None \<Rightarrow> td_revisions d | Some r \<Rightarrow> pm_with (td_revisions d) (ruleIdentity row) r)\<rparr>"

text \<open>The two maps of the retention index that the transitions use.\<close>

definition indexTransitions :: "transition_row list \<Rightarrow> transition_delta" where
  "indexTransitions rows = fold index_transition rows \<lparr>td_additions = [], td_keys = Undef, td_revisions = Undef, td_reset = False\<rparr>"

definition new_transition :: "transition_row \<Rightarrow> transition_delta \<Rightarrow> transition_delta" where
  "new_transition row d =
     (let key = transitionKey row in
      if pm_has (td_keys d) key then d
      else (let e = d\<lparr>td_keys := pm_with (td_keys d) key True, td_additions := td_additions d @ [row]\<rparr> in
        case (tw_instance_id row, tw_revision_id row) of
          (Some _, Some revision) \<Rightarrow>
            (let identity = ruleIdentity row; previous = pm_get (td_revisions d) identity
             in e\<lparr>td_reset := (td_reset d \<or> (previous \<noteq> None \<and> previous \<noteq> Some revision)),
                  td_revisions := pm_with (td_revisions d) identity revision\<rparr>)
        | _ \<Rightarrow> e))"

definition newTransitionAdditions :: "transition_row list \<Rightarrow> (string, bool) pnode \<Rightarrow> (string, string) pnode \<Rightarrow> transition_delta" where
  "newTransitionAdditions arriving keys revisions =
     fold new_transition arriving \<lparr>td_additions = [], td_keys = keys, td_revisions = revisions, td_reset = False\<rparr>"

end
