(* ===== verification/FieldRetentionCorrect.thy ===== *)
theory FieldRetentionCorrect
  imports FieldRetention FieldSolveResult
begin

text \<open>
  What the merged rows are worth: merging page by page keeps the seeds that a merge of all pages would
  choose, what a page adds covers what it replaces, so that the incremental preparation, which never
  takes a row back, shows the field of the merged rows; and the fast path of the transitions is the
  merge as long as no rule is revised.
\<close>

section \<open>Seeds by product\<close>

definition by_product :: "seed_activation list \<Rightarrow> string \<Rightarrow> seed_activation option" where
  "by_product seeds p = map_of (map (\<lambda>s. (seed_product s, s)) seeds) p"

lemma node_product [simp]: "productStateNodeId (sd_state s) = seed_product s"
  by (simp add: productStateNodeId_def seed_product_def)

lemma by_product_Some:
  assumes "distinct (map seed_product seeds)"
  shows "by_product seeds p = Some s \<longleftrightarrow> s \<in> set seeds \<and> seed_product s = p"
proof -
  have "distinct (map fst (map (\<lambda>s. (seed_product s, s)) seeds))" using assms by (simp add: comp_def)
  from map_of_eq_Some_iff [OF this] show ?thesis by (auto simp: by_product_def)
qed

lemma by_product_None: "by_product seeds p = None \<longleftrightarrow> p \<notin> seed_product ` set seeds"
  by (auto simp: by_product_def map_of_eq_None_iff image_image)

lemma set_by_product: "distinct (map seed_product seeds) \<Longrightarrow> set seeds = {s. \<exists>p. by_product seeds p = Some s}"
  by (auto simp: by_product_Some)

lemma selected_product:
  "(\<And>q. prior = Some q \<Longrightarrow> seed_product q = seed_product s) \<Longrightarrow> seed_product (selectSeedActivation hard prior s) = seed_product s"
  by (auto simp: selectSeedActivation_def split: option.split)

lemma selected_source: "selectSeedActivation hard prior s = s \<or> prior = Some (selectSeedActivation hard prior s)"
  by (auto simp: selectSeedActivation_def split: option.split)

section \<open>The merge from scratch\<close>

text \<open>The seed that the arrivals leave for a product.\<close>

definition chosen :: "string \<Rightarrow> seed_activation list \<Rightarrow> (string \<Rightarrow> seed_activation option) \<Rightarrow> string \<Rightarrow> seed_activation option" where
  "chosen hard seeds f = fold (\<lambda>s g. g(seed_product s := Some (selectSeedActivation hard (g (seed_product s)) s))) seeds f"

lemma chosen_simps [simp]:
  "chosen hard [] f = f"
  "chosen hard (s # seeds) f = chosen hard seeds (f(seed_product s := Some (selectSeedActivation hard (f (seed_product s)) s)))"
  "chosen hard (xs @ ys) f = chosen hard ys (chosen hard xs f)"
  by (simp_all add: chosen_def)

lemma chosen_source:
  assumes "chosen hard seeds f p = Some x" "\<And>q y. f q = Some y \<Longrightarrow> seed_product y = q"
  shows "seed_product x = p \<and> (x \<in> set seeds \<or> f p = Some x)"
  using assms
proof (induction seeds arbitrary: f)
  case (Cons s seeds)
  define y where "y = selectSeedActivation hard (f (seed_product s)) s"
  have y: "seed_product y = seed_product s" unfolding y_def by (rule selected_product) (rule Cons.prems(2))
  have "seed_product z = q" if "(f(seed_product s \<mapsto> y)) q = Some z" for q z
    using that y Cons.prems(2) [of q z] by (cases "q = seed_product s") simp_all
  moreover have "chosen hard seeds (f(seed_product s \<mapsto> y)) p = Some x" using Cons.prems(1) by (simp add: y_def)
  ultimately have x: "seed_product x = p \<and> (x \<in> set seeds \<or> (f(seed_product s \<mapsto> y)) p = Some x)" using Cons.IH by blast
  have "y = s \<or> f (seed_product s) = Some y" unfolding y_def by (rule selected_source)
  with x show ?case by (cases "p = seed_product s") auto
qed simp

lemma best_seeds_chosen:
  "map_of (best_seeds hard seeds) = chosen hard seeds Map.empty"
  "distinct (map fst (best_seeds hard seeds))"
  "(p, s) \<in> set (best_seeds hard seeds) \<Longrightarrow> p = seed_product s \<and> s \<in> set seeds"
proof -
  let ?step = "\<lambda>seed best. AList.update (productStateNodeId (sd_state seed))
       (selectSeedActivation hard (map_of best (productStateNodeId (sd_state seed))) seed) best"
  have "map_of (fold ?step seeds best) = chosen hard seeds (map_of best)" for best
    by (induction seeds arbitrary: best) (simp_all add: update_conv')
  from this [of "[]"] show maps: "map_of (best_seeds hard seeds) = chosen hard seeds Map.empty" by (simp add: best_seeds_def)
  have "distinct (map fst best) \<Longrightarrow> distinct (map fst (fold ?step seeds best))" for best
    by (induction seeds arbitrary: best) (simp_all add: distinct_update)
  from this [of "[]"] show dist: "distinct (map fst (best_seeds hard seeds))" by (simp add: best_seeds_def)
  show "(p, s) \<in> set (best_seeds hard seeds) \<Longrightarrow> p = seed_product s \<and> s \<in> set seeds"
    using chosen_source [of hard seeds Map.empty p s] by (auto simp: maps dest: map_of_is_SomeI [OF dist])
qed

lemma merged_seeds:
  "distinct (map seed_product (mergeSeeds hard seeds))" "by_product (mergeSeeds hard seeds) = chosen hard seeds Map.empty"
  "set (mergeSeeds hard seeds) \<subseteq> set seeds"
proof -
  let ?best = "best_seeds hard seeds"
  have rows: "map (\<lambda>s. (seed_product s, s)) (map snd ?best) = ?best"
    unfolding map_map by (rule map_idI) (use best_seeds_chosen(3) in auto)
  have keys: "map seed_product (map snd ?best) = map fst ?best"
    using arg_cong [OF rows, of "map fst"] by (simp only: map_map comp_def fst_conv)
  have same: "mset (mergeSeeds hard seeds) = mset (map snd ?best)" by (simp add: mergeSeeds_def sortSeeds_def)
  then have "distinct (map seed_product (mergeSeeds hard seeds)) = distinct (map seed_product (map snd ?best))" by (rule distinct_map_mset)
  then show dist: "distinct (map seed_product (mergeSeeds hard seeds))" using best_seeds_chosen(2) by (simp only: keys)
  have members: "set (mergeSeeds hard seeds) = set (map snd ?best)" by (metis same set_mset_mset)
  show "by_product (mergeSeeds hard seeds) = chosen hard seeds Map.empty"
  proof
    fix p
    have "s \<in> set (map snd ?best) \<and> seed_product s = p \<longleftrightarrow> (p, s) \<in> set ?best" for s
    proof
      assume "s \<in> set (map snd ?best) \<and> seed_product s = p"
      then obtain q where "(q, s) \<in> set ?best" "seed_product s = p" by auto
      then show "(p, s) \<in> set ?best" using best_seeds_chosen(3) [of q s hard seeds] by simp
    next
      assume "(p, s) \<in> set ?best"
      then show "s \<in> set (map snd ?best) \<and> seed_product s = p" using best_seeds_chosen(3) [of p s hard seeds] by force
    qed
    then have "by_product (mergeSeeds hard seeds) p = Some s \<longleftrightarrow> map_of ?best p = Some s" for s
      unfolding by_product_Some [OF dist] members map_of_eq_Some_iff [OF best_seeds_chosen(2)] .
    then show "by_product (mergeSeeds hard seeds) p = chosen hard seeds Map.empty p"
      unfolding best_seeds_chosen(1) [symmetric] by (metis option.exhaust)
  qed
  show "set (mergeSeeds hard seeds) \<subseteq> set seeds" unfolding members using best_seeds_chosen(3) by fastforce
qed

section \<open>The merge page by page\<close>

definition located :: "seed_activation retained_sequence \<Rightarrow> (string, nat) pnode \<Rightarrow> bool" where
  "located rows offsets \<longleftrightarrow> seq_inv rows \<and> pm_inv offsets \<and> distinct (map seed_product (seq_iterator rows)) \<and>
     (\<forall>p i. pm_get offsets p = Some i \<longleftrightarrow> i < sq_length rows \<and> seed_product (seq_iterator rows ! i) = p)"

lemma located_previous:
  assumes "located (sm_rows m) (sm_offsets m)"
  shows "previous_seed m p = by_product (seq_iterator (sm_rows m)) p"
proof (cases "pm_get (sm_offsets m) p")
  case None
  then have "\<not> (i < sq_length (sm_rows m) \<and> seed_product (seq_iterator (sm_rows m) ! i) = p)" for i
    using assms by (metis located_def option.distinct(1))
  then have "p \<notin> seed_product ` set (seq_iterator (sm_rows m))" by (auto simp: in_set_conv_nth) metis
  then show ?thesis using None by (simp add: previous_seed_def by_product_None [THEN iffD2])
next
  case (Some i)
  then have i: "i < sq_length (sm_rows m)" "seed_product (seq_iterator (sm_rows m) ! i) = p" using assms by (auto simp: located_def)
  have "by_product (seq_iterator (sm_rows m)) p = Some (seq_iterator (sm_rows m) ! i)"
    using assms i by (subst by_product_Some) (auto simp: located_def in_set_conv_nth)
  moreover have "seq_at (sm_rows m) (int i) = Some (seq_iterator (sm_rows m) ! i)"
    using assms i(1) by (simp add: located_def seq_at_list)
  ultimately show ?thesis by (simp add: previous_seed_def Some)
qed

lemma append_located:
  assumes "located rows offsets" "pm_get offsets (seed_product s) = None"
  shows "located (seq_append rows s) (pm_with offsets (seed_product s) (sq_length rows))"
    "by_product (seq_iterator (seq_append rows s)) = (by_product (seq_iterator rows))(seed_product s \<mapsto> s)"
    "set (seq_iterator (seq_append rows s)) = set (seq_iterator rows) \<union> {s}"
proof -
  have inv: "seq_inv rows" "pm_inv offsets" and dist: "distinct (map seed_product (seq_iterator rows))"
    and at: "\<And>p i. pm_get offsets p = Some i \<longleftrightarrow> i < sq_length rows \<and> seed_product (seq_iterator rows ! i) = p"
    using assms(1) by (auto simp: located_def)
  have list: "seq_inv (seq_append rows s)" "seq_iterator (seq_append rows s) = seq_iterator rows @ [s]"
    using seq_append_list [OF inv(1)] by simp_all
  have len: "sq_length (seq_append rows s) = Suc (sq_length rows)" by (simp add: seq_append_def)
  have "\<not> (i < sq_length rows \<and> seed_product (seq_iterator rows ! i) = seed_product s)" for i
    using at [of "seed_product s" i] assms(2) by simp
  then have fresh: "seed_product s \<notin> seed_product ` set (seq_iterator rows)" by (auto simp: in_set_conv_nth) metis
  have "pm_get (pm_with offsets (seed_product s) (sq_length rows)) p = Some i \<longleftrightarrow>
      i < Suc (sq_length rows) \<and> seed_product ((seq_iterator rows @ [s]) ! i) = p" for p i
  proof (cases "i < sq_length rows")
    case True
    then have "seed_product (seq_iterator rows ! i) \<noteq> seed_product s" using fresh by (metis imageI length_iterator nth_mem)
    then show ?thesis using True at [of p i] inv(2) by (auto simp: map_laws nth_append)
  next
    case False
    then show ?thesis using at [of p i] inv(2) by (auto simp: map_laws nth_append less_Suc_eq)
  qed
  then show "located (seq_append rows s) (pm_with offsets (seed_product s) (sq_length rows))"
    using list dist fresh inv(2) by (simp add: located_def len map_laws)
  show "by_product (seq_iterator (seq_append rows s)) = (by_product (seq_iterator rows))(seed_product s \<mapsto> s)"
    using by_product_None [of "seq_iterator rows" "seed_product s"] fresh
    by (auto simp: list(2) by_product_def map_add_def fun_eq_iff split: option.split)
  show "set (seq_iterator (seq_append rows s)) = set (seq_iterator rows) \<union> {s}" by (simp add: list(2))
qed

lemma replace_located:
  assumes "located rows offsets" "pm_get offsets (seed_product s) = Some i"
  obtains t where "seq_replace rows (int i) s = Inr t" "located t offsets"
    "by_product (seq_iterator t) = (by_product (seq_iterator rows))(seed_product s \<mapsto> s)"
    "set (seq_iterator t) \<union> {seq_iterator rows ! i} = set (seq_iterator rows) \<union> {s}"
    "by_product (seq_iterator rows) (seed_product s) = Some (seq_iterator rows ! i)"
proof -
  have inv: "seq_inv rows" "pm_inv offsets" and dist: "distinct (map seed_product (seq_iterator rows))"
    and at: "\<And>p i. pm_get offsets p = Some i \<longleftrightarrow> i < sq_length rows \<and> seed_product (seq_iterator rows ! i) = p"
    using assms(1) by (auto simp: located_def)
  have i: "i < sq_length rows" "seed_product (seq_iterator rows ! i) = seed_product s" using at assms(2) by blast+
  obtain t where t: "seq_replace rows (int i) s = Inr t" using i(1) by (simp add: seq_replace_def)
  from seq_replace_list [OF inv(1) t] have list: "seq_inv t" "seq_iterator t = (seq_iterator rows)[i := s]" by simp_all
  have len: "sq_length t = sq_length rows" using arg_cong [OF list(2), of length] by simp
  have keys: "map seed_product (seq_iterator t) = map seed_product (seq_iterator rows)"
    using i list_update_id [of "map seed_product (seq_iterator rows)" i] by (simp add: list(2) map_update)
  have "seed_product (seq_iterator t ! j) = seed_product (seq_iterator rows ! j)" if "j < sq_length rows" for j
    using i(2) that by (cases "j = i") (simp_all add: list(2))
  then have loc: "located t offsets" using assms(1) list(1) len keys by (auto simp: located_def)
  have prior: "by_product (seq_iterator rows) (seed_product s) = Some (seq_iterator rows ! i)"
    using i by (subst by_product_Some [OF dist]) (auto simp: in_set_conv_nth)
  have members: "x \<in> set (seq_iterator t) \<longleftrightarrow> x = s \<or> x \<in> set (seq_iterator rows) \<and> seed_product x \<noteq> seed_product s" for x
  proof -
    have new: "x \<in> set (seq_iterator t) \<longleftrightarrow> (\<exists>j < sq_length rows. (if j = i then s else seq_iterator rows ! j) = x)"
      unfolding in_set_conv_nth by (auto simp: list(2) nth_list_update)
    have old: "x \<in> set (seq_iterator rows) \<longleftrightarrow> (\<exists>j < sq_length rows. seq_iterator rows ! j = x)" by (simp add: in_set_conv_nth)
    have key: "seed_product (seq_iterator rows ! j) = seed_product s \<longleftrightarrow> j = i" if "j < sq_length rows" for j
      using dist i that nth_eq_iff_index_eq [OF dist, of j i] by auto
    show ?thesis unfolding new old using key i(1) by (metis (no_types, lifting))
  qed
  have dist': "distinct (map seed_product (seq_iterator t))" using keys dist by simp
  have "by_product (seq_iterator t) p = ((by_product (seq_iterator rows))(seed_product s \<mapsto> s)) p" for p
  proof -
    have "by_product (seq_iterator t) p = Some x \<longleftrightarrow> ((by_product (seq_iterator rows))(seed_product s \<mapsto> s)) p = Some x" for x
      unfolding by_product_Some [OF dist'] members using by_product_Some [OF dist, of p x] by auto
    then show ?thesis by (metis option.exhaust)
  qed
  then have values': "by_product (seq_iterator t) = (by_product (seq_iterator rows))(seed_product s \<mapsto> s)" by (simp add: fun_eq_iff)
  have "set (seq_iterator t) \<union> {seq_iterator rows ! i} = set (seq_iterator rows) \<union> {s}"
  proof -
    have "x = seq_iterator rows ! i" if "x \<in> set (seq_iterator rows)" "seed_product x = seed_product s" for x
      using by_product_Some [OF dist, of "seed_product s" x] prior that by simp
    moreover have "seq_iterator rows ! i \<in> set (seq_iterator rows)" using i by simp
    ultimately show ?thesis using members by blast
  qed
  with that t loc values' prior show ?thesis by blast
qed

lemma merge_seed_spec:
  assumes loc: "located (sm_rows m) (sm_offsets m)"
  obtains m' where "merge_seed hard s m = Returned m'" "located (sm_rows m') (sm_offsets m')"
    "by_product (seq_iterator (sm_rows m')) = chosen hard [s] (by_product (seq_iterator (sm_rows m)))"
    "set (sm_additions m) \<subseteq> set (sm_additions m')" "set (sm_additions m') \<subseteq> insert s (set (sm_additions m))"
    "\<not> sm_reset m' \<Longrightarrow> \<not> sm_reset m \<and>
       (covers hard (set (seq_iterator (sm_rows m))) (A \<union> set (sm_additions m)) \<longrightarrow>
        covers hard (set (seq_iterator (sm_rows m'))) (A \<union> set (sm_additions m')))"
proof -
  let ?rows = "sm_rows m" and ?p = "seed_product s"
  let ?prior = "by_product (seq_iterator ?rows) ?p"
  have prev: "previous_seed m ?p = ?prior" by (rule located_previous [OF loc])
  have chosen: "chosen hard [s] (by_product (seq_iterator ?rows)) = (by_product (seq_iterator ?rows))(?p \<mapsto> selectSeedActivation hard ?prior s)" by simp
  consider (skip) "Some (selectSeedActivation hard ?prior s) = ?prior"
    | (take) "selectSeedActivation hard ?prior s = s" "Some s \<noteq> ?prior" using selected_source [of hard ?prior s] by metis
  then show ?thesis
  proof cases
    case skip
    then have "chosen hard [s] (by_product (seq_iterator ?rows)) = by_product (seq_iterator ?rows)" by (simp add: fun_upd_idem)
    then show ?thesis using skip loc by (intro that [of m]) (auto simp: merge_seed_def prev Let_def)
  next
    case take
    then have not_same: "Some (selectSeedActivation hard ?prior s) \<noteq> ?prior" by simp
    show ?thesis
    proof (cases "pm_get (sm_offsets m) ?p")
      case None
      then have none: "?prior = None" using prev by (simp add: previous_seed_def)
      let ?m = "\<lparr>sm_rows = seq_append ?rows s, sm_additions = sm_additions m @ [s],
        sm_offsets = pm_with (sm_offsets m) ?p (sq_length ?rows), sm_reset = sm_reset m\<rparr>"
      have "merge_seed hard s m = Returned ?m" using None none by (simp add: merge_seed_def prev Let_def)
      moreover have "covers hard (set (seq_iterator ?rows) \<union> {s}) (A \<union> set (sm_additions m) \<union> {s})"
        if "covers hard (set (seq_iterator ?rows)) (A \<union> set (sm_additions m))" using covers_union [OF that] .
      ultimately show ?thesis using append_located [OF loc None] chosen take(1)
        by (intro that [of ?m]) (auto simp: Un_assoc insert_commute)
    next
      case (Some i)
      from replace_located [OF loc Some] obtain t where t: "seq_replace ?rows (int i) s = Inr t" "located t (sm_offsets m)"
        "by_product (seq_iterator t) = (by_product (seq_iterator ?rows))(?p \<mapsto> s)"
        "set (seq_iterator t) \<union> {seq_iterator ?rows ! i} = set (seq_iterator ?rows) \<union> {s}" "?prior = Some (seq_iterator ?rows ! i)" .
      let ?old = "seq_iterator ?rows ! i"
      let ?m = "\<lparr>sm_rows = t, sm_additions = sm_additions m @ [s], sm_offsets = sm_offsets m,
        sm_reset = (sm_reset m \<or> sd_cap_contract_id ?old \<noteq> sd_cap_contract_id s)\<rparr>"
      have returned: "merge_seed hard s m = Returned ?m" using Some t(1,5) take by (simp add: merge_seed_def prev Let_def)
      have "covers hard (set (seq_iterator t)) (A \<union> set (sm_additions ?m))"
        if "sd_cap_contract_id ?old = sd_cap_contract_id s" and cov: "covers hard (set (seq_iterator ?rows)) (A \<union> set (sm_additions m))"
      proof -
        have better: "sd_milligrades ?old \<le> sd_milligrades s"
          using take t(5) that(1) by (auto simp: selectSeedActivation_def split: if_splits)
        have same: "seed_product ?old = ?p" "s \<in> set (seq_iterator t)"
          using t(3,5) by_product_Some [of "seq_iterator ?rows" ?p ?old] by_product_Some [of "seq_iterator t" ?p s] loc t(2)
          by (auto simp: located_def)
        have "covers hard (set (seq_iterator t)) (set (seq_iterator ?rows) \<union> {s})"
          unfolding t(4) [symmetric] covers_def using better same that(1) by (auto simp: seed_contract_def)
        moreover have "covers hard (set (seq_iterator ?rows) \<union> {s}) (A \<union> set (sm_additions m) \<union> {s})" by (rule covers_union [OF cov])
        ultimately have "covers hard (set (seq_iterator t)) (A \<union> set (sm_additions m) \<union> {s})" by (rule covers_trans)
        then show ?thesis by (simp add: Un_assoc insert_commute)
      qed
      then show ?thesis using returned t(2,3) chosen take(1) by (intro that [of ?m]) auto
    qed
  qed
qed

lemma merge_page_spec:
  assumes "located (sm_rows m) (sm_offsets m)"
  shows "\<exists>m'. merge_page hard seeds m = Returned m' \<and> located (sm_rows m') (sm_offsets m') \<and>
    by_product (seq_iterator (sm_rows m')) = chosen hard seeds (by_product (seq_iterator (sm_rows m))) \<and>
    set (sm_additions m) \<subseteq> set (sm_additions m') \<and> set (sm_additions m') \<subseteq> set (sm_additions m) \<union> set seeds \<and>
    (\<not> sm_reset m' \<longrightarrow> \<not> sm_reset m \<and> (covers hard (set (seq_iterator (sm_rows m))) (A \<union> set (sm_additions m)) \<longrightarrow>
       covers hard (set (seq_iterator (sm_rows m'))) (A \<union> set (sm_additions m'))))"
  using assms
proof (induction seeds arbitrary: m)
  case (Cons s seeds)
  from merge_seed_spec [OF Cons.prems, of hard s A] obtain m1 where m1: "merge_seed hard s m = Returned m1"
    "located (sm_rows m1) (sm_offsets m1)" "by_product (seq_iterator (sm_rows m1)) = chosen hard [s] (by_product (seq_iterator (sm_rows m)))"
    "set (sm_additions m) \<subseteq> set (sm_additions m1)" "set (sm_additions m1) \<subseteq> insert s (set (sm_additions m))"
    "\<not> sm_reset m1 \<Longrightarrow> \<not> sm_reset m \<and> (covers hard (set (seq_iterator (sm_rows m))) (A \<union> set (sm_additions m)) \<longrightarrow>
       covers hard (set (seq_iterator (sm_rows m1))) (A \<union> set (sm_additions m1)))" by blast
  from Cons.IH [OF m1(2)] obtain m2 where m2: "merge_page hard seeds m1 = Returned m2" "located (sm_rows m2) (sm_offsets m2)"
    "by_product (seq_iterator (sm_rows m2)) = chosen hard seeds (by_product (seq_iterator (sm_rows m1)))"
    "set (sm_additions m1) \<subseteq> set (sm_additions m2)" "set (sm_additions m2) \<subseteq> set (sm_additions m1) \<union> set seeds"
    "\<not> sm_reset m2 \<Longrightarrow> \<not> sm_reset m1 \<and> (covers hard (set (seq_iterator (sm_rows m1))) (A \<union> set (sm_additions m1)) \<longrightarrow>
       covers hard (set (seq_iterator (sm_rows m2))) (A \<union> set (sm_additions m2)))" by blast
  show ?case
  proof (intro exI conjI impI)
    show "merge_page hard (s # seeds) m = Returned m2" using m1(1) m2(1) by (simp add: outcome_then_def)
    show "by_product (seq_iterator (sm_rows m2)) = chosen hard (s # seeds) (by_product (seq_iterator (sm_rows m)))"
      using m1(3) m2(3) by simp
  qed (use m1(4,5,6) m2(2,4,5,6) in auto)
qed auto

lemma offsets_located:
  assumes "distinct (map seed_product seeds)"
  shows "located (seq_from seeds) (seedOffsets seeds)" "seq_iterator (seq_from seeds) = seeds"
proof -
  let ?kvs = "map (\<lambda>(i, row). (seed_product row, i)) (enumerate 0 seeds)"
  have list: "seq_inv (seq_from seeds)" "seq_iterator (seq_from seeds) = seeds"
    using seq_concat_list [of seq_empty seeds] by (simp_all add: seq_from_def)
  then show "seq_iterator (seq_from seeds) = seeds" by simp
  have len: "sq_length (seq_from seeds) = length seeds" using arg_cong [OF list(2), of length] by simp
  have offsets: "seedOffsets seeds = fold (\<lambda>(k, v) m. pm_with m k v) ?kvs Undef"
    by (simp add: seedOffsets_def fold_map comp_def case_prod_unfold)
  have keys: "map fst ?kvs = map seed_product seeds" by (rule nth_equalityI) (simp_all add: case_prod_unfold nth_enumerate_eq)
  have dist: "distinct (map fst (rev ?kvs))" using assms by (simp only: rev_map [symmetric] distinct_rev keys)
  have "pm_get (seedOffsets seeds) p = Some i \<longleftrightarrow> (p, i) \<in> set ?kvs" for p i
  proof -
    have "pm_get (seedOffsets seeds) p = map_of (rev ?kvs) p" unfolding offsets by (subst pm.get_fold) (simp_all add: pm.laws split: option.split)
    then show ?thesis using map_of_eq_Some_iff [OF dist, of p i] by simp
  qed
  then have "pm_get (seedOffsets seeds) p = Some i \<longleftrightarrow> i < length seeds \<and> seed_product (seeds ! i) = p" for p i
    unfolding in_set_conv_nth by (auto simp: nth_enumerate_eq case_prod_unfold)
  moreover have "pm_inv (seedOffsets seeds)" by (simp add: offsets pm.invar_fold pm.laws)
  ultimately show "located (seq_from seeds) (seedOffsets seeds)" using list assms by (simp add: located_def len)
qed

section \<open>The life of the rows\<close>

text \<open>
  The rows of an engine: created from a merge, then merged with one page after the other. The last
  argument collects the rows its preparation was given, afresh after a page that asks for a rebuild.
\<close>

inductive seed_history :: "string \<Rightarrow> seed_activation list \<Rightarrow> seed_activation retained_sequence \<Rightarrow> (string, nat) pnode
    \<Rightarrow> seed_activation set \<Rightarrow> bool" for hard :: string where
  created: "seed_history hard raw (seq_from (mergeSeeds hard raw)) (seedOffsets (mergeSeeds hard raw)) (set (mergeSeeds hard raw))"
| paged: "seed_history hard raw rows offsets S \<Longrightarrow> mergeSeedAdditions hard rows arriving offsets = Returned m \<Longrightarrow>
    seed_history hard (raw @ arriving) (sm_rows m) (sm_offsets m)
      (if sm_reset m then set (seq_iterator (sm_rows m)) else S \<union> set (sm_additions m))"

lemma history_rows:
  assumes "seed_history hard raw rows offsets S"
  shows "located rows offsets \<and> by_product (seq_iterator rows) = chosen hard raw Map.empty \<and> covers hard (set (seq_iterator rows)) S \<and>
    S \<subseteq> set raw"
  using assms
proof (induction rule: seed_history.induct)
  case (created raw)
  have iter: "seq_iterator (seq_from (mergeSeeds hard raw)) = mergeSeeds hard raw" by (rule offsets_located(2) [OF merged_seeds(1)])
  show ?case using offsets_located(1) [OF merged_seeds(1)] merged_seeds(2,3) unfolding iter by simp
next
  case (paged raw rows offsets S arriving m)
  let ?m = "\<lparr>sm_rows = rows, sm_additions = [], sm_offsets = offsets, sm_reset = False\<rparr>"
  have "located (sm_rows ?m) (sm_offsets ?m)" using paged.IH by simp
  from merge_page_spec [OF this, of hard arriving S] paged.hyps(2) have m: "located (sm_rows m) (sm_offsets m)"
    "by_product (seq_iterator (sm_rows m)) = chosen hard arriving (by_product (seq_iterator rows))"
    "set (sm_additions m) \<subseteq> set arriving"
    "\<not> sm_reset m \<Longrightarrow> covers hard (set (seq_iterator (sm_rows m))) (S \<union> set (sm_additions m))"
    using paged.IH by (auto simp: mergeSeedAdditions_def)
  have "by_product (seq_iterator (sm_rows m)) = chosen hard (raw @ arriving) Map.empty" using m(2) paged.IH by simp
  moreover have "set (seq_iterator (sm_rows m)) \<subseteq> set (raw @ arriving)"
  proof
    fix s assume "s \<in> set (seq_iterator (sm_rows m))"
    then have "by_product (seq_iterator (sm_rows m)) (seed_product s) = Some s" using m(1) by (subst by_product_Some) (simp_all add: located_def)
    then show "s \<in> set (raw @ arriving)" using chosen_source [of hard "raw @ arriving" Map.empty] calculation by fastforce
  qed
  ultimately show ?case using m(1,3,4) paged.IH by auto
qed

lemma history_merged:
  assumes "seed_history hard raw rows offsets S"
  shows "set (seq_iterator rows) = set (mergeSeeds hard raw)"
proof -
  have "distinct (map seed_product (seq_iterator rows))" "by_product (seq_iterator rows) = chosen hard raw Map.empty"
    using history_rows [OF assms] by (simp_all add: located_def)
  then show ?thesis using set_by_product merged_seeds(1,2) by metis
qed

lemma sorted_seeds: "map seed_product (sortSeeds xs) = js_sort compareCodeUnits (map seed_product xs)"
proof -
  have "sortSeeds xs = js_sort (\<lambda>l r. compareCodeUnits (seed_product l) (seed_product r)) xs" by (simp add: sortSeeds_def compare_nodes_def)
  then show ?thesis by (simp only: js_sort_map)
qed

lemma sortSeeds_unique:
  assumes "distinct (map seed_product xs)" "distinct (map seed_product ys)" "set xs = set ys"
  shows "sortSeeds xs = sortSeeds ys"
proof -
  have sorted: "sorted (map seed_product (sortSeeds zs))" for zs
  proof -
    have "sorted_wrt (\<lambda>x y. compareCodeUnits x y \<le> 0) (js_sort compareCodeUnits (map seed_product zs))" by (rule code_units.ordered_sort)
    then show ?thesis unfolding sorted_seeds by (rule sorted_wrt_mono_rel [rotated]) (auto simp: compareCodeUnits_def split: if_splits)
  qed
  have dist: "distinct (map seed_product (sortSeeds zs)) = distinct (map seed_product zs)" for zs
    by (rule distinct_map_mset) (simp add: sortSeeds_def)
  have members: "set (sortSeeds zs) = set zs" for zs by (simp add: sortSeeds_def)
  have "map seed_product (sortSeeds xs) = map seed_product (sortSeeds ys)"
    by (rule sorted_distinct_set_unique) (use sorted dist assms members in \<open>simp_all\<close>)
  moreover have "inj_on seed_product (set (sortSeeds xs) \<union> set (sortSeeds ys))" using assms by (simp add: members distinct_map)
  ultimately show ?thesis by (simp add: inj_on_map_eq_map)
qed

lemma sortSeeds_distinct: "distinct (map seed_product (sortSeeds xs)) = distinct (map seed_product xs)"
  by (rule distinct_map_mset) (simp add: sortSeeds_def)

lemma sortSeeds_again: "distinct (map seed_product xs) \<Longrightarrow> sortSeeds (sortSeeds xs) = sortSeeds xs"
  by (rule sortSeeds_unique) (simp_all only: sortSeeds_distinct, simp add: sortSeeds_def)

lemma page_returns:
  assumes "seed_history hard raw rows offsets S"
  obtains m where "mergeSeedAdditions hard rows arriving offsets = Returned m"
proof -
  let ?m = "\<lparr>sm_rows = rows, sm_additions = [], sm_offsets = offsets, sm_reset = False\<rparr>"
  have "located (sm_rows ?m) (sm_offsets ?m)" using history_rows [OF assms] by simp
  from merge_page_spec [OF this, of hard arriving] that show ?thesis unfolding mergeSeedAdditions_def by blast
qed

section \<open>Properties of the seeds\<close>

text \<open>C16: 
  seeds may be merged page by page: whatever the pages were, a page never throws, and the rows kept,
  sorted, are the merge of all seeds of all pages in the order of their arrival.
\<close>

theorem paged_seeds_are_the_merge:
  assumes "seed_history hard raw rows offsets S"
  shows "(\<exists>m. mergeSeedAdditions hard rows arriving offsets = Returned m) \<and> sortSeeds (seq_iterator rows) = mergeSeeds hard raw"
proof -
  have "distinct (map seed_product (seq_iterator rows))" using history_rows [OF assms] by (simp add: located_def)
  then have "sortSeeds (seq_iterator rows) = sortSeeds (mergeSeeds hard raw)"
    by (rule sortSeeds_unique) (rule merged_seeds history_merged [OF assms])+
  also have "\<dots> = mergeSeeds hard raw"
    unfolding mergeSeeds_def
    by (rule sortSeeds_again) (use merged_seeds(1) [of hard raw] in \<open>simp only: mergeSeeds_def sortSeeds_distinct\<close>)
  finally show ?thesis using page_returns [OF assms] by metis
qed

text \<open>C4: 
  what a page adds is enough: the incremental preparation, which was given the additions of the pages and
  never takes a row back, shows when it is complete, for every product, the value and the conflict of
  the field of the merged seeds; so the rebuild is only needed where the merge asks for it.
\<close>

theorem paged_preparation_shows_the_merged_field:
  assumes "seed_history hard raw rows offsets S" "field_run hard st S T" "rows_ok (set raw) T" "fieldGraphComplete st"
  shows "\<exists>f. (\<forall>p c. best_grade hard (set (mergeSeeds hard raw)) T c p (f p c)) \<and>
    (\<forall>p. pv_get (pf_values st) p = product_value hard (f p) \<and> (pv_conflicted (pf_values st) p \<longleftrightarrow> contract_conflict hard (f p)))"
proof -
  have rows: "covers hard (set (mergeSeeds hard raw)) S" "S \<subseteq> set raw"
    using history_rows [OF assms(1)] history_merged [OF assms(1)] by simp_all
  have "rows_ok S T" by (rule rows_ok_mono [OF assms(3) rows(2)]) simp
  note field = complete_run_field [OF assms(2) this assms(4)]
  then show ?thesis using values_invD(1,2) [of hard "contract_grades st" "pf_values st"]
    by (intro exI [of _ "contract_grades st"]) (simp add: best_grade_covered [OF rows(1)])
qed

text \<open>The sample product, seen again with a better grade.\<close>

lemma sample_history:
  "\<exists>rows offsets S. seed_history ''h'' [sample_seed ''a'' 200, sample_seed ''a'' 500] rows offsets S"
proof -
  have "seed_history ''h'' [sample_seed ''a'' 200] (seq_from (mergeSeeds ''h'' [sample_seed ''a'' 200]))
      (seedOffsets (mergeSeeds ''h'' [sample_seed ''a'' 200])) (set (mergeSeeds ''h'' [sample_seed ''a'' 200]))"
    by (rule seed_history.created)
  note created = this
  obtain m where "mergeSeedAdditions ''h'' (seq_from (mergeSeeds ''h'' [sample_seed ''a'' 200])) [sample_seed ''a'' 500]
      (seedOffsets (mergeSeeds ''h'' [sample_seed ''a'' 200])) = Returned m" using page_returns [OF created] by blast
  from seed_history.paged [OF created this] have "seed_history ''h'' [sample_seed ''a'' 200, sample_seed ''a'' 500] (sm_rows m) (sm_offsets m)
      (if sm_reset m then set (seq_iterator (sm_rows m)) else set (mergeSeeds ''h'' [sample_seed ''a'' 200]) \<union> set (sm_additions m))"
    by (simp only: append.simps)
  then show ?thesis by blast
qed

lemma sample_merge: "mergeSeeds ''h'' [sample_seed ''a'' 200, sample_seed ''a'' 500] = [sample_seed ''a'' 500]"
proof -
  have "set (mergeSeeds ''h'' [sample_seed ''a'' 200, sample_seed ''a'' 500]) =
      {s. \<exists>p. chosen ''h'' [sample_seed ''a'' 200, sample_seed ''a'' 500] Map.empty p = Some s}"
    using set_by_product [OF merged_seeds(1), of "''h''" "[sample_seed ''a'' 200, sample_seed ''a'' 500]"] by (simp only: merged_seeds(2))
  also have "\<dots> = {sample_seed ''a'' 500}"
    by (auto simp: selectSeedActivation_def seed_product_def sample_seed_def split: if_splits)
  finally have one: "set (mergeSeeds ''h'' [sample_seed ''a'' 200, sample_seed ''a'' 500]) = {sample_seed ''a'' 500}" .
  have "distinct (mergeSeeds ''h'' [sample_seed ''a'' 200, sample_seed ''a'' 500])"
    using merged_seeds(1) by (rule distinct_map [THEN iffD1, THEN conjunct1])
  from distinct_card [OF this] have "length (mergeSeeds ''h'' [sample_seed ''a'' 200, sample_seed ''a'' 500]) = 1" by (simp only: one) simp
  then obtain y where "mergeSeeds ''h'' [sample_seed ''a'' 200, sample_seed ''a'' 500] = [y]" by (auto simp only: length_Suc_conv One_nat_def length_0_conv)
  with one show ?thesis by simp
qed

lemma paged_seeds_are_the_merge_witness:
  "\<exists>rows. sortSeeds (seq_iterator rows) = [sample_seed ''a'' 500]"
proof -
  obtain rows offsets S where "seed_history ''h'' [sample_seed ''a'' 200, sample_seed ''a'' 500] rows offsets S" using sample_history by blast
  from paged_seeds_are_the_merge [OF this, of "[]"] show ?thesis by (auto simp: sample_merge)
qed

lemma paged_preparation_shows_the_merged_field_witness:
  "\<exists>st f. fieldGraphComplete st \<and>
     (\<forall>p c. best_grade ''h'' (set (mergeSeeds ''h'' (ad_seeds sample_batch))) (set (ad_transitions sample_batch)) c p (f p c)) \<and>
     (\<forall>p. pv_get (pf_values st) p = product_value ''h'' (f p))"
proof -
  let ?T = "set (ad_transitions sample_batch)" and ?S = "set (mergeSeeds ''h'' (ad_seeds sample_batch))"
  let ?batch = "sample_batch\<lparr>ad_seeds := mergeSeeds ''h'' (ad_seeds sample_batch)\<rparr>"
  have run: "field_run ''h'' (appendFieldGraph None ?batch ?batch) ?S ?T" using field_run.started [of "''h''" ?batch] by simp
  note created = seed_history.created [of "''h''" "ad_seeds sample_batch"]
  have "?S \<subseteq> set (ad_seeds sample_batch)" using history_rows [OF created] by simp
  then have "rows_ok ?S ?T" using rows_ok_mono [OF sample_rows] by blast
  then obtain st where st: "fieldGraphComplete st" "field_run ''h'' st ?S ?T" using run_completes [OF run] by blast
  from paged_preparation_shows_the_merged_field [OF created st(2) sample_rows st(1)] st(1) show ?thesis by blast
qed

section \<open>Transitions\<close>

text \<open>
  The texts that make a key are separated by the character 0. A row that its schema accepts has no
  empty id; where no text of it holds the character 0, its key tells the rule and the revision.
\<close>

definition plain_text :: "string \<Rightarrow> bool" where
  "plain_text s \<longleftrightarrow> CHR 0x00 \<notin> set s"

definition plain_row :: "transition_row \<Rightarrow> bool" where
  "plain_row r \<longleftrightarrow> plain_text (tw_relation_kind r) \<and> (\<forall>s. tw_instance_id r = Some s \<or> tw_revision_id r = Some s \<longrightarrow> s \<noteq> [] \<and> plain_text s)"

lemma plain_texts [simp]:
  "plain_text []" "plain_text (c # s) \<longleftrightarrow> c \<noteq> CHR 0x00 \<and> plain_text s" "plain_text (s @ t) \<longleftrightarrow> plain_text s \<and> plain_text t"
  by (auto simp: plain_text_def)

lemma plain_split:
  "plain_text a \<Longrightarrow> plain_text b \<Longrightarrow> a @ CHR 0x00 # x = b @ CHR 0x00 # y \<longleftrightarrow> a = b \<and> x = y"
  by (induction a arbitrary: b) (case_tac b; auto)+

lemma plain_number [simp]: "plain_text (js_string_of_nat n)" "plain_text (js_string_of_int i)"
proof -
  show nat: "plain_text (js_string_of_nat n)" for n
    by (induction n rule: js_string_of_nat.induct) (subst js_string_of_nat.simps, auto simp: digit_char_def char_of_eq_iff take_bit_eq_mod)
  show "plain_text (js_string_of_int i)" by (simp add: js_string_of_int_def nat)
qed

lemma plain_escape: "plain_text (json_escape c)"
proof -
  have hex: "hex_digit d \<noteq> CHR 0x00" if "d < 16" for d using that by (auto simp: hex_digit_def char_of_eq_iff take_bit_eq_mod)
  have "c \<noteq> CHR 0x00" if "\<not> (of_char c :: nat) < 32" using that by auto
  then show ?thesis by (simp add: json_escape_def Let_def hex)
qed

lemma plain_quote [simp]: "plain_text (json_quote s)"
  by (induction s) (simp_all add: json_quote_def plain_escape)

lemma plain_product: "plain_text (productStateNodeId key)"
proof -
  have "plain_text (stableCanonicalStringify (span_json s))" for s by (simp add: span_text)
  then have "plain_text (stableCanonicalStringify (source_json t))" for t
    by (simp add: source_text nullable_text_def split: option.split)
  then have "plain_text (stableCanonicalStringify (target_json (ps_target key)))"
    by (cases "ps_target key") (simp_all add: target_json_def memory_text)
  then show ?thesis by (simp add: productStateNodeId_def state_key_text interpretation_text split: option.split)
qed

lemma plain_optional: "plain_row r \<Longrightarrow> plain_text (contract_text (tw_instance_id r)) \<and> plain_text (contract_text (tw_revision_id r))"
  by (auto simp: plain_row_def contract_text_def split: option.split)

lemma optional_inject:
  "contract_text a = contract_text b \<Longrightarrow> (\<And>s. a = Some s \<Longrightarrow> s \<noteq> []) \<Longrightarrow> (\<And>s. b = Some s \<Longrightarrow> s \<noteq> []) \<Longrightarrow> a = b"
  by (auto simp: contract_text_def split: option.splits)

lemma key_names_rule:
  assumes "transitionKey r = transitionKey t" "plain_row r" "plain_row t"
  shows "ruleIdentity r = ruleIdentity t \<and> tw_instance_id r = tw_instance_id t \<and> tw_revision_id r = tw_revision_id t"
proof -
  have kinds: "plain_text (tw_relation_kind r)" "plain_text (tw_relation_kind t)" using assms(2,3) by (simp_all add: plain_row_def)
  have bool: "plain_text (if b then ''true'' else ''false'')" for b by simp
  note plain = plain_product kinds plain_number(2) bool plain_optional [OF assms(2)] plain_optional [OF assms(3)]
  have same: "ruleIdentity r = ruleIdentity t" "contract_text (tw_instance_id r) = contract_text (tw_instance_id t)"
    "contract_text (tw_revision_id r) = contract_text (tw_revision_id t)"
    using assms(1) unfolding transitionKey_def ruleIdentity_def by (simp_all add: js_join_def plain_split plain)
  then show ?thesis using assms(2,3) by (auto simp: plain_row_def intro!: optional_inject)
qed

text \<open>A retention index that knows all rows kept.\<close>

definition revised :: "transition_row \<Rightarrow> bool" where
  "revised row \<longleftrightarrow> tw_instance_id row \<noteq> None \<and> tw_revision_id row \<noteq> None"

definition transitions_indexed :: "transition_row list \<Rightarrow> (string, bool) pnode \<Rightarrow> (string, string) pnode \<Rightarrow> bool" where
  "transitions_indexed rows keys revisions \<longleftrightarrow> pm_inv keys \<and> pm_inv revisions \<and> distinct (map transitionKey rows) \<and>
     (\<forall>k. pm_has keys k \<longleftrightarrow> k \<in> transitionKey ` set rows) \<and>
     (\<forall>r \<in> set rows. revised r \<longrightarrow> pm_get revisions (ruleIdentity r) = tw_revision_id r)"

primrec fresh_rows :: "string set \<Rightarrow> transition_row list \<Rightarrow> transition_row list" where
  "fresh_rows K [] = []"
| "fresh_rows K (r # rows) = (if transitionKey r \<in> K then fresh_rows K rows else r # fresh_rows (insert (transitionKey r) K) rows)"

lemma fresh_append: "fresh_rows K (xs @ ys) = fresh_rows K xs @ fresh_rows (K \<union> transitionKey ` set xs) ys"
  by (induction xs arbitrary: K) (auto simp: insert_absorb Un_commute)

lemma fresh_all: "distinct (map transitionKey xs) \<Longrightarrow> K \<inter> transitionKey ` set xs = {} \<Longrightarrow> fresh_rows K xs = xs"
  by (induction xs arbitrary: K) auto

lemma fresh_again: "L \<subseteq> K \<Longrightarrow> fresh_rows K (fresh_rows L rows) = fresh_rows K rows"
proof (induction rows arbitrary: K L)
  case (Cons r rows)
  let ?k = "transitionKey r"
  consider "?k \<in> L" | "?k \<notin> L" "?k \<in> K" | "?k \<notin> K" by blast
  then show ?case
  proof cases
    case 1
    then show ?thesis using Cons by auto
  next
    case 2
    then have "insert ?k L \<subseteq> K" using Cons.prems by blast
    then show ?thesis using Cons.IH 2 by simp
  next
    case 3
    then have "insert ?k L \<subseteq> insert ?k K" "?k \<notin> L" using Cons.prems by blast+
    then show ?thesis using Cons.IH [of "insert ?k L" "insert ?k K"] 3 by simp
  qed
qed simp

lemma fresh_rows_set:
  "set (fresh_rows K rows) \<subseteq> set rows" "transitionKey ` set rows \<subseteq> K \<union> transitionKey ` set (fresh_rows K rows)"
  by (induction rows arbitrary: K) (auto, blast+)

lemma unique_fresh: "uniqueByTransitionKey rows = fresh_rows {} rows"
proof -
  have "map snd (fold (\<lambda>row unique. if map_of unique (transitionKey row) = None then unique @ [(transitionKey row, row)] else unique) rows acc) =
      map snd acc @ fresh_rows (fst ` set acc) rows" for acc
    by (induction rows arbitrary: acc) (simp_all add: map_of_eq_None_iff)
  from this [of "[]"] show ?thesis by (simp add: uniqueByTransitionKey_def)
qed

lemma new_transition_index:
  assumes inv: "transitions_indexed (rows @ td_additions d) (td_keys d) (td_revisions d)" and open_d: "\<not> td_reset (new_transition r d)"
  shows "\<not> td_reset d" "td_additions (new_transition r d) = td_additions d @ fresh_rows (transitionKey ` set (rows @ td_additions d)) [r]"
    "transitions_indexed (rows @ td_additions (new_transition r d)) (td_keys (new_transition r d)) (td_revisions (new_transition r d))"
proof -
  let ?d = "new_transition r d"
  have known: "pm_has (td_keys d) k \<longleftrightarrow> k \<in> transitionKey ` set (rows @ td_additions d)" for k using inv by (simp add: transitions_indexed_def)
  show "\<not> td_reset d" using open_d by (auto simp: new_transition_def Let_def split: if_splits option.splits)
  show adds: "td_additions ?d = td_additions d @ fresh_rows (transitionKey ` set (rows @ td_additions d)) [r]"
    using known by (simp add: new_transition_def Let_def split: option.split)
  show "transitions_indexed (rows @ td_additions ?d) (td_keys ?d) (td_revisions ?d)"
  proof (cases "pm_has (td_keys d) (transitionKey r)")
    case True
    then have "?d = d" by (simp add: new_transition_def)
    then show ?thesis using inv by simp
  next
    case False
    have pm: "pm_inv (td_keys d)" "pm_inv (td_revisions d)" using inv by (simp_all add: transitions_indexed_def)
    have keys: "td_keys ?d = pm_with (td_keys d) (transitionKey r) True"
      using False by (simp add: new_transition_def Let_def split: option.split)
    have list: "rows @ td_additions ?d = (rows @ td_additions d) @ [r]" using adds False known by simp
    have revisions: "td_revisions ?d = (if revised r then pm_with (td_revisions d) (ruleIdentity r) (the (tw_revision_id r)) else td_revisions d)"
      using False by (auto simp: new_transition_def Let_def revised_def split: option.split)
    have same: "pm_get (td_revisions d) (ruleIdentity r) = None \<or> pm_get (td_revisions d) (ruleIdentity r) = tw_revision_id r" if "revised r"
      using open_d False that by (auto simp: new_transition_def Let_def revised_def split: option.splits)
    have "pm_get (td_revisions ?d) (ruleIdentity t) = tw_revision_id t" if "t \<in> set (rows @ td_additions d) \<union> {r}" "revised t" for t
    proof (cases "t = r")
      case True
      then show ?thesis using that(2) pm by (auto simp: revisions map_laws revised_def)
    next
      case False
      then have "pm_get (td_revisions d) (ruleIdentity t) = tw_revision_id t" using that inv by (auto simp: transitions_indexed_def)
      then show ?thesis using same that(2) pm by (auto simp: revisions map_laws revised_def)
    qed
    then have named: "\<forall>t \<in> set ((rows @ td_additions d) @ [r]). revised t \<longrightarrow> pm_get (td_revisions ?d) (ruleIdentity t) = tw_revision_id t" by auto
    have "pm_inv (td_keys ?d)" "pm_inv (td_revisions ?d)" using pm by (simp_all add: keys revisions map_laws)
    moreover have "pm_has (td_keys ?d) k \<longleftrightarrow> k \<in> transitionKey ` set ((rows @ td_additions d) @ [r])" for k
      using known [of k] pm by (auto simp: keys map_laws)
    moreover have "distinct (map transitionKey ((rows @ td_additions d) @ [r]))" using inv False known [of "transitionKey r"]
      by (auto simp: transitions_indexed_def)
    ultimately show ?thesis using named unfolding list transitions_indexed_def by blast
  qed
qed

lemma reset_kept: "td_reset d \<Longrightarrow> td_reset (new_transition r d)"
  by (simp add: new_transition_def Let_def split: option.split)

lemma fold_reset: "td_reset d \<Longrightarrow> td_reset (fold new_transition rows d)"
  by (induction rows arbitrary: d) (simp_all add: reset_kept)

lemma new_transitions_index:
  "transitions_indexed (rows @ td_additions d) (td_keys d) (td_revisions d) \<Longrightarrow> \<not> td_reset (fold new_transition arriving d) \<Longrightarrow>
    \<not> td_reset d \<and> td_additions (fold new_transition arriving d) = td_additions d @ fresh_rows (transitionKey ` set (rows @ td_additions d)) arriving \<and>
    transitions_indexed (rows @ td_additions (fold new_transition arriving d)) (td_keys (fold new_transition arriving d))
      (td_revisions (fold new_transition arriving d))"
proof (induction arriving arbitrary: d)
  case (Cons r arriving)
  have later: "\<not> td_reset (new_transition r d)" using Cons.prems(2) fold_reset [of "new_transition r d" arriving] by auto
  note r = new_transition_index [OF Cons.prems(1) later]
  have fold: "fold new_transition (r # arriving) d = fold new_transition arriving (new_transition r d)" by simp
  note rest = Cons.IH [OF r(3) Cons.prems(2) [unfolded fold]]
  let ?K = "transitionKey ` set (rows @ td_additions d)"
  have "transitionKey ` set (rows @ td_additions (new_transition r d)) = ?K \<union> transitionKey ` set (fresh_rows ?K [r])"
    by (simp only: r(2) set_append image_Un Un_assoc)
  also have "\<dots> = ?K \<union> transitionKey ` set [r]" by (simp add: insert_absorb)
  finally have known: "transitionKey ` set (rows @ td_additions (new_transition r d)) = ?K \<union> transitionKey ` set [r]" .
  have split: "fresh_rows ?K (r # arriving) = fresh_rows ?K [r] @ fresh_rows (transitionKey ` set (rows @ td_additions (new_transition r d))) arriving"
    unfolding known using fresh_append [of ?K "[r]" arriving] by (simp only: append.simps)
  have adds: "td_additions (fold new_transition arriving (new_transition r d)) = td_additions d @ fresh_rows ?K (r # arriving)"
    unfolding split append_assoc [symmetric] r(2) [symmetric] by (rule rest [THEN conjunct2, THEN conjunct1])
  show ?case unfolding fold by (intro conjI r(1) adds rest [THEN conjunct2, THEN conjunct2])
qed simp

text \<open>C15: 
  the fast path of the transitions is exact: when no rule was revised, appending the rows of a page that
  the index does not know gives what the merge of all rows gives, and the index knows the result.
\<close>

theorem new_transitions_are_the_merge:
  assumes "transitions_indexed rows keys revisions" "\<And>r. r \<in> set rows \<union> set arriving \<Longrightarrow> plain_row r"
    "\<not> td_reset (newTransitionAdditions arriving keys revisions)"
  shows "mergeTransitions rows arriving = rows @ td_additions (newTransitionAdditions arriving keys revisions) \<and>
    transitions_indexed (rows @ td_additions (newTransitionAdditions arriving keys revisions))
      (td_keys (newTransitionAdditions arriving keys revisions)) (td_revisions (newTransitionAdditions arriving keys revisions))"
proof -
  let ?d = "newTransitionAdditions arriving keys revisions" and ?K = "transitionKey ` set rows"
  have dist: "distinct (map transitionKey rows)" using assms(1) by (simp add: transitions_indexed_def)
  let ?start = "\<lparr>td_additions = [], td_keys = keys, td_revisions = revisions, td_reset = False\<rparr>"
  have start: "transitions_indexed (rows @ td_additions ?start) (td_keys ?start) (td_revisions ?start)" using assms(1) by simp
  from new_transitions_index [OF start assms(3) [unfolded newTransitionAdditions_def]]
  have d: "td_additions ?d = td_additions ?start @ fresh_rows (transitionKey ` set (rows @ td_additions ?start)) arriving"
    "transitions_indexed (rows @ td_additions ?d) (td_keys ?d) (td_revisions ?d)"
    unfolding newTransitionAdditions_def by blast+
  from d(1) have fresh: "td_additions ?d = fresh_rows ?K arriving" by simp
  have "\<not> superseded r later" if r: "r \<in> set rows" and later: "later \<in> set arriving" for r later
  proof
    assume sup: "superseded r later"
    have "transitionKey later \<in> transitionKey ` set (rows @ td_additions ?d)"
      using fresh_rows_set(2) [of arriving ?K] imageI [OF later, of transitionKey] by (auto simp only: fresh set_append image_Un)
    then obtain t where t: "t \<in> set (rows @ td_additions ?d)" "transitionKey t = transitionKey later" by (metis imageE)
    have "t \<in> set rows \<union> set arriving" using t(1) fresh_rows_set(1) [of ?K arriving] by (auto simp: fresh)
    then have names: "ruleIdentity t = ruleIdentity later" "tw_instance_id t = tw_instance_id later" "tw_revision_id t = tw_revision_id later"
      using key_names_rule [OF t(2)] assms(2) later by blast+
    have known: "pm_get (td_revisions ?d) (ruleIdentity x) = tw_revision_id x" if "x \<in> set (rows @ td_additions ?d)" "revised x" for x
      using d(2) that by (simp add: transitions_indexed_def)
    have "revised r" "revised t" using sup names by (auto simp: superseded_def revised_def)
    then have "tw_revision_id r = tw_revision_id t" using known [of r] known [of t] r t(1) names sup by (auto simp: superseded_def)
    then show False using sup names by (simp add: superseded_def)
  qed
  then have kept: "filter (\<lambda>row. \<not> list_ex (superseded row) (uniqueByTransitionKey arriving)) rows = rows"
    using fresh_rows_set(1) [of "{}" arriving] by (auto simp: unique_fresh list_ex_iff filter_id_conv)
  have "uniqueByTransitionKey (rows @ xs) = rows @ fresh_rows ?K xs" for xs
    using fresh_append [of "{}" rows xs] fresh_all [OF dist, of "{}"] by (simp add: unique_fresh)
  then have "mergeTransitions rows arriving = rows @ td_additions ?d"
    using fresh_again [of "{}" ?K arriving] fresh_all [OF dist, of "{}"] by (simp add: mergeTransitions_def Let_def kept [unfolded unique_fresh] fresh unique_fresh)
  with d(2) show ?thesis by simp
qed

definition sample_row :: "string \<Rightarrow> int \<Rightarrow> transition_row" where
  "sample_row revision grade =
     \<lparr>ft_from = sample_key ''a'', ft_to = sample_key ''b'', ft_strength_milligrades = grade, ft_applicable = True,
      ft_cap_contract_id = None, tw_relation_kind = ''causes'', tw_instance_id = Some ''i'', tw_revision_id = Some revision,
      tw_validity = JNull\<rparr>"

lemma new_transitions_are_the_merge_witness:
  "mergeTransitions [] [sample_row ''1'' 300] =
     td_additions (newTransitionAdditions [sample_row ''1'' 300] Undef Undef) \<and>
   length (td_additions (newTransitionAdditions [sample_row ''1'' 300] Undef Undef)) = 1"
proof -
  have "transitions_indexed [] (Undef :: (string, bool) pnode) Undef" by (simp add: transitions_indexed_def pm.laws)
  moreover have "plain_row r" if "r \<in> set [] \<union> set [sample_row ''1'' 300]" for r
    using that by (auto simp: plain_row_def sample_row_def)
  moreover have d: "\<not> td_reset (newTransitionAdditions [sample_row ''1'' 300] Undef Undef)"
    "length (td_additions (newTransitionAdditions [sample_row ''1'' 300] Undef Undef)) = 1"
    by (simp_all add: newTransitionAdditions_def new_transition_def Let_def sample_row_def pm.laws)
  ultimately show ?thesis using new_transitions_are_the_merge [of "[]" Undef Undef "[sample_row ''1'' 300]"] by simp
qed

end
