(* ===== verification/Spec2Isabelle.thy ===== *)
theory Spec2Isabelle
  imports Prelude MaxMinField BooleanHypergraph GardenScheduler VersionedCache WorkerRun DeferredObligation
    ProofEffect RelationProjection StronglyConnected GovernanceLease BindingEnvironment GlobalMemoryRecall FieldSolveResult ReferenceAgreement
    FieldRetentionCorrect
begin

text \<open>
  This library models the decision-making core of the repository: a local-first memory plane whose recall
  evaluates a graded field over products, whose writes go through an event log, and whose background work
  runs from a task queue. Paths are below \<^verbatim>\<open>src/packages/\<close>; functions keep their source names.

  \<^bold>\<open>The program and the theories that model it.\<close>

  \<^item> \<^verbatim>\<open>graph-algorithms/src\<close>: the persistent AVL index (\<^verbatim>\<open>persistent-string-map.ts\<close>, PersistentStringMap), the
    leftist work queue (\<^verbatim>\<open>max-min-work-queue.ts\<close>, WorkQueue), the bottleneck solver (\<^verbatim>\<open>max-min-field.ts\<close>,
    MaxMinField), the closure of hypergraphs with conjunctive, disjunctive and threshold edges
    (\<^verbatim>\<open>boolean-hypergraph.ts\<close>, BooleanHypergraph) and Tarjan's algorithm (\<^verbatim>\<open>index.ts\<close>, StronglyConnected).
    The solver keeps its values in the index and its frontier in the queue.
  \<^item> \<^verbatim>\<open>core/src/recall/conditional-field\<close>, programs: query programs are compiled to automata
    (\<^verbatim>\<open>engine/program-automaton.ts\<close>, ProgramAutomaton), whose generic theory is AutomatonRuns and whose
    meaning is ProgramLanguage; the verdict on a program and its seed states (\<^verbatim>\<open>reference/interpret-query.ts\<close>,
    QueryInterpretation); the contexts that bind the variables of a run (\<^verbatim>\<open>engine/binding-environment.ts\<close>,
    BindingEnvironment).
  \<^item> the same directory, the field: states are named by canonical texts (\<^verbatim>\<open>product-identity.ts\<close> of the
    protocol, ProductIdentity over the JSON texts of JsonValue), rows are kept in immutable sequences
    (\<^verbatim>\<open>engine/retained-sequence.ts\<close>, RetainedSequence), the seeds and transitions of a page are merged into
    those kept (\<^verbatim>\<open>engine/field-retention-index.ts\<close>, \<^verbatim>\<open>path-composition-seed.ts\<close> and \<^verbatim>\<open>path-composition.ts\<close>,
    FieldRetention), which yields the additions of a page, the incremental evaluation admits them one charged
    step at a time (\<^verbatim>\<open>engine/field-graph-preparation.ts\<close>, FieldGraphPreparation), a charged solve runs two
    preparations, the possible and the guaranteed band, under one allowance of work and memory
    (\<^verbatim>\<open>engine/field-solve.ts\<close>, FieldSolve), open coverage regions widen its bounds
    (\<^verbatim>\<open>index/residual-influence.ts\<close>, ResidualInfluence), and the reference evaluation computes the same field
    with one solver call per contract (\<^verbatim>\<open>reference/bind-max-min.ts\<close>, ReferenceField).
  \<^item> \<^verbatim>\<open>core/src/recall/runtime/global-memory\<close> with its repository in \<^verbatim>\<open>storage\<close>: GlobalMemoryRecall, over the
    bounded heap of \<^verbatim>\<open>bounded-top-k.ts\<close> (BoundedTopK).
  \<^item> \<^verbatim>\<open>core/src/runtime\<close> and \<^verbatim>\<open>storage/src/repos\<close>: the event log (EventLog), the publisher that owns every
    write (\<^verbatim>\<open>event-publisher.ts\<close>, EventPublisher), detached work (\<^verbatim>\<open>async-side-effect-auditor.ts\<close>,
    AsyncSideEffects), the cache with loads in flight (\<^verbatim>\<open>versioned-bounded-cache.ts\<close>, VersionedCache, with its
    sequential contract CachedView), worker runs (\<^verbatim>\<open>worker-run-state-machine.ts\<close>, WorkerRun, over the compare-and-set
    tables of StateTable), and the shared errors, validators and clocks (CoreShared).
  \<^item> \<^verbatim>\<open>core/src/governance\<close> and \<^verbatim>\<open>core/src/relations\<close>: leases derived from the log and cached
    (GovernanceLease), deferred obligations (DeferredObligation, over StateTable), proof-carrying effects
    (\<^verbatim>\<open>effects\<close>, ProofEffect, over the instants of UtcInstants) and the paths that relation assertions project
    at an instant (RelationProjection).
  \<^item> \<^verbatim>\<open>soul/src/garden/scheduling\<close> and \<^verbatim>\<open>protocol/src/garden\<close>: roles and tiers (GardenTier), the task queue
    (GardenTaskRepo), the scheduler (GardenScheduler) and the completion payload (CompletionPayload).

  \<^bold>\<open>How state and effects correspond.\<close> An object with private fields is a record and a method a function
  that returns the record; an exception is a value: \<open>Thrown\<close> of an outcome in the algorithms, the left of a
  sum in the services, and the state at the throw is kept. A transaction restores the database it started
  from. A \<^verbatim>\<open>number\<close> that the code clamps is a \<open>js_number\<close> with its non-finite values, counts are \<open>nat\<close> or \<open>int\<close>,
  and where \<^verbatim>\<open>undefined\<close> may be read the value is an option. A JavaScript \<^verbatim>\<open>Map\<close> is an association list in
  insertion order where the order is observable and a map otherwise. Methods that await are split at the
  awaits, and an interleaving is a run of an inductive step relation.

  \<^bold>\<open>What the lemmas show.\<close>

  \<^item> Data structures: the AVL index, the work queue, the retained sequence and the top-k heap keep their
    invariants and refine a finite map, a multiset, a list and a sorted prefix. Clients reach them through
    locales whose interpretations on the code's definitions discharge the laws (\<open>pm\<close>, \<open>wq\<close>, \<open>sq\<close> and the others).
  \<^item> Algorithms: the solver computes the greatest bottleneck grades, the hypergraph evaluation the least
    closed sets, the two agree on plain edges (below), Tarjan counts the components, the automaton of a
    program accepts exactly the language of the program and its charged cost bounds it.
  \<^item> The field: FieldGraphInvariant relates a preparation to the inductive relation \<open>field_grade\<close> over the rows,
    FieldGraphRefinement shows that a complete preparation is that field whatever the batches and
    interruptions, FieldSolveCorrect that a charged solve keeps the conflicts of the two bands and accounts
    for every step and byte, FieldSolveResult what its snapshot shows and that it completes,
    ReferenceAgreement that the reference evaluation and the preparation agree, and FieldRetentionCorrect
    that merging page by page keeps the rows of one merge of all pages and that the preparation fed with the
    additions shows the field of the merged seeds.
  \<^item> Services: event and mutation commit together, interleaved worker runs and obligations stay on their
    tables, leases answer as after a restart, an effect is allowed only with all its proofs, the scheduler
    dispatches only permitted work, selection returns the best entries of all pages.

  Some theorems show behaviour that the code is unlikely to intend: a repeated seed on which the two field
  evaluations differ, overwritten locals of nested closures, a stale load that outlives a deletion, padded
  run ids, blank tags, relation kinds named like members of an object, and colliding default task ids.

  \<^bold>\<open>Bounds and fuel.\<close> A loop with a work limit is \<open>iterate\<close>, one without is \<open>exhaust\<close> (a \<open>while_option\<close>),
  and that it ends is a theorem. Tarjan's recursion has the fuel \<open>graph_size\<close>, at least the number of nodes
  it can visit. Heap, epsilon and eviction loops end by a measure on their argument, the prefix search by its
  interval, \<open>solve_loop\<close> by its allowance and open bands, \<open>incremental_loop\<close> by its step limit. The paged
  selection is a \<open>partial_function\<close> on options, and that it returns is proved. That preparations complete
  rests on the well-foundedness of \<open>paid_step\<close>, not on a bound chosen here.

  \<^bold>\<open>Parameters.\<close> The following are arguments, because the code calls for them outside the repository:
  SHA-256 and the UTF-8 encoder, the contract id hashed from the hard identity contract (\<open>hard\<close>), the verdicts
  of the schema library on dates and records, the host's date parser and locale collation, the tokens of a
  text, the UUIDs and instants the host draws, and the ports a service is given (notifier, run lookup, event
  log of the garden). What a theorem assumes of one of them is in its hypotheses, and its witness
  instantiates it.

  \<^bold>\<open>Not modelled.\<close> The engine that reads observation pages and extracts their seeds, the composition of paths that
  produces its transitions, and the ordering and explanation of its entries; they are large compositions over
  record schemas whose decisions come from observers. Code whose outcome lies in an external system: SQL
  text and SQLite, HTTP and language-model clients, ONNX vectors, regular expressions over natural language,
  dictionary segmentation. Formulas in floating point (decay, plasticity, scoring). Declarative schemas
  without behaviour. Applications, wiring, scripts, benchmarks and the web interface. The manifest lists
  each with its reason. Of the modelled files, what depends on the wall clock racing a drain, on the depth of
  the host's stack, or on the text of error messages beyond their code is left out.
\<close>

section \<open>The two field evaluators agree on plain graphs\<close>

definition as_hypergraph :: "'k max_min_input \<Rightarrow> 'k hypergraph_input" where
  "as_hypergraph inp = \<lparr>hi_nodeIds = mi_nodeIds inp, hi_seeds = mi_seeds inp,
     hi_edges = map (\<lambda>t. UnaryEdge (tr_from t) (tr_to t) (tr_strength t)) (mi_transitions inp),
     hi_bottom = mi_bottom inp, hi_top = mi_top inp\<rparr>"

lemma legalEdges_unary:
  "legalEdges (set ids) (map (\<lambda>t. UnaryEdge (tr_from t) (tr_to t) (tr_strength t)) ts) b t =
   map (\<lambda>t. UnaryEdge (tr_from t) (tr_to t) (tr_strength t)) (legalTransitions ids ts b t)"
  by (induction ts) (auto simp: legalEdges_def legalTransitions_def)

lemma holds_derivable:
  assumes seeds: "distinct (map fst seeds)"
    and E: "\<And>n t. E n t \<longleftrightarrow> t \<in> set ts \<and> tr_from t = n"
  shows "holds seeds (map (\<lambda>t. UnaryEdge (tr_from t) (tr_to t) (tr_strength t)) ts) g n
    \<longleftrightarrow> (\<exists>d \<ge> g. derivable (map_of seeds) E n d)"
proof
  assume "holds seeds (map (\<lambda>t. UnaryEdge (tr_from t) (tr_to t) (tr_strength t)) ts) g n"
  then show "\<exists>d \<ge> g. derivable (map_of seeds) E n d"
  proof (induction rule: holds.induct)
    case (holds_seed n v)
    with seeds show ?case by (intro exI [of _ v]) (auto intro: derivable.seed)
  next
    case (holds_unary f x s)
    then obtain t d where t: "t \<in> set ts" "tr_from t = f" "tr_to t = x" "tr_strength t = s"
      and d: "g \<le> d" "derivable (map_of seeds) E f d" by auto
    from t have "E f t" by (simp add: E)
    from derivable.step [OF d(2) this] t d(1) holds_unary(2) show ?case
      by (intro exI [of _ "min d s"]) simp
  qed auto
next
  assume "\<exists>d \<ge> g. derivable (map_of seeds) E n d"
  then obtain d where "g \<le> d" and der: "derivable (map_of seeds) E n d" by blast
  from der have "holds seeds (map (\<lambda>t. UnaryEdge (tr_from t) (tr_to t) (tr_strength t)) ts) d n"
  proof (induction rule: derivable.induct)
    case (seed n g)
    then show ?case by (auto dest: map_of_SomeD intro: holds.holds_seed)
  next
    case (step n d t)
    show ?case
      by (rule holds.holds_unary [of "tr_from t" _ "tr_strength t"])
        (use step E in \<open>auto intro: holds_antimono\<close>)
  qed
  with \<open>g \<le> d\<close> show "holds seeds (map (\<lambda>t. UnaryEdge (tr_from t) (tr_to t) (tr_strength t)) ts) g n"
    by (blast intro: holds_antimono)
qed

lemma is_field_highest:
  assumes "is_field V0 E V"
    and "\<And>n g. W n = Some g \<longleftrightarrow> (\<exists>d \<ge> g. derivable V0 E n d) \<and> (\<forall>h. (\<exists>d \<ge> h. derivable V0 E n d) \<longrightarrow> h \<le> g)"
    and "\<And>n. W n = None \<longleftrightarrow> (\<nexists>g. \<exists>d \<ge> g. derivable V0 E n d)"
  shows "W = V"
proof
  fix n
  show "W n = V n"
  proof (cases "V n")
    case None
    with assms(1) have "\<not> (\<exists>g. derivable V0 E n g)" by (auto simp: is_field_def dest: spec [of _ n])
    with assms(3) [of n] None show ?thesis by auto
  next
    case (Some p)
    with assms(1) have "derivable V0 E n p" "\<And>g. derivable V0 E n g \<Longrightarrow> g \<le> p"
      by (auto simp: is_field_def dest: spec [of _ n])
    with assms(2) [of n p] Some show ?thesis by (auto intro: order_trans)
  qed
qed

text \<open>C32: on a graph with plain edges only, the hypergraph evaluation and the worklist solver of the recall
  field give the same value table: two independent algorithms of the package (closure per grade,
  bottleneck relaxation) implement one semantics.\<close>
theorem hypergraph_agrees_with_max_min:
  assumes "requireIntegerTop (mi_top inp) (mi_bottom inp) = Inr T"
    and "mi_priorValues inp = None" "mi_preparedGraph inp = None" "mi_worklist inp = None"
      "mi_workLimit inp = None" "mi_workQueue inp = None" "distinct (map fst (mi_seeds inp))"
  shows "\<exists>r. solveMaxMinField inp = Returned r
    \<and> evaluateBooleanHypergraph (as_hypergraph inp) = Returned (pm_get (mr_values r))"
proof -
  let ?h = "as_hypergraph inp"
  let ?E = "\<lambda>n t. t \<in> set (legalTransitions (mi_nodeIds inp) (mi_transitions inp) 0 T) \<and> tr_from t = n"
  let ?seeds = "collectSeeds (set (hi_nodeIds ?h)) (hi_seeds ?h) 0 T"
  let ?edges = "legalEdges (set (hi_nodeIds ?h)) (hi_edges ?h) 0 T"
  have top: "hypergraphTop (hi_top ?h) (hi_bottom ?h) = Inr T"
    using assms(1) by (simp add: as_hypergraph_def hypergraphTop_Inr requireIntegerTop_Inr)
  have b: "mi_bottom inp = 0" "hi_bottom ?h = 0"
    using assms(1) by (simp_all add: requireIntegerTop_Inr as_hypergraph_def)
  have seeds: "distinct (map fst ?seeds)" "map_of ?seeds =
      (\<lambda>n. if n \<in> set (mi_nodeIds inp) then map_option (\<lambda>v. clampInteger v 0 T) (map_of (mi_seeds inp) n) else None)"
    using collectSeeds_map [OF assms(7)] by (auto simp: as_hypergraph_def fun_eq_iff)
  have edges: "?edges = map (\<lambda>t. UnaryEdge (tr_from t) (tr_to t) (tr_strength t))
      (legalTransitions (mi_nodeIds inp) (mi_transitions inp) 0 T)"
    by (simp add: as_hypergraph_def legalEdges_unary)
  have hd: "holds ?seeds ?edges g n \<longleftrightarrow> (\<exists>d \<ge> g. derivable (map_of ?seeds) ?E n d)" for g n
    unfolding edges by (rule holds_derivable [OF seeds(1)]) simp
  from evaluate_spec [OF top refl refl] obtain vals where
    vals: "evaluateBooleanHypergraph ?h = Returned vals"
    "\<And>n g. vals n = Some g \<longleftrightarrow> holds ?seeds ?edges g n \<and> (\<forall>h. holds ?seeds ?edges h n \<longrightarrow> h \<le> g)"
    "\<And>n. vals n = None \<longleftrightarrow> (\<nexists>g. holds ?seeds ?edges g n)" unfolding b by blast
  have "prior_ok (mi_priorValues inp)" "edges_wf (call_edges inp T)"
    by (simp_all add: assms(2,3) prior_ok_def call_edges_def edges_wf_adjacency)
  from solve_fresh [OF assms(1) this assms(4-6)] obtain r where r: "solveMaxMinField inp = Returned r"
    and f: "is_field (pm_get (fst (initialValues (call_has inp) (mi_seeds inp) (mi_bottom inp) T (mi_priorValues inp))))
      (edge_of (call_edges inp T)) (pm_get (mr_values r))" by blast
  have "pm_get (fst (initialValues (call_has inp) (mi_seeds inp) (mi_bottom inp) T (mi_priorValues inp))) = map_of ?seeds"
    by (simp add: seeds(2) fun_eq_iff assms(2,3) b call_has_def initialValues_seeds [OF assms(7)])
  moreover have "edge_of (call_edges inp T) = ?E"
    by (simp add: call_edges_def assms(3) b edge_of_adjacency fun_eq_iff)
  ultimately have "vals = pm_get (mr_values r)"
    using is_field_highest [of "map_of ?seeds" ?E "pm_get (mr_values r)" vals] f vals(2,3) hd by simp
  with r vals show ?thesis by auto
qed

theorem hypergraph_agrees_with_max_min_witness:
  "\<exists>r. solveMaxMinField sample_input = Returned r
    \<and> evaluateBooleanHypergraph (as_hypergraph sample_input) = Returned (pm_get (mr_values r))"
proof -
  have "requireIntegerTop (mi_top sample_input) (mi_bottom sample_input) = Inr 1000"
    by (simp add: sample_input_def requireIntegerTop_def)
  from hypergraph_agrees_with_max_min [OF this] show ?thesis by (simp add: sample_input_def)
qed

end
